(* ===== verification/Prelude.thy ===== *)
theory Prelude
  imports Main "HOL-Library.Word" "HOL-Library.Monad_Syntax" "HOL-Library.Signed_Division"
begin

text \<open>
  The shared vocabulary of the development: the machine types of the C code, arrays with
  checked access, and the lemmas about lists, options and words that the components share.

  Conventions.  The code is read for an LP64 machine: \<open>int\<close> is a 32-bit word read
  with \<open>sint\<close>, \<open>long\<close> and \<open>size_t\<close> are 64-bit words, and signed
  arithmetic wraps in two's complement.  An access outside an array has no defined result in
  C; a function that could make one returns an option, and \<open>None\<close> is that access.
  A theorem that such a function returns \<open>Some\<close> is therefore a memory-safety claim.
\<close>

unbundle bit_operations_syntax

section \<open>Machine types\<close>

type_synonym u8 = "8 word"
type_synonym u16 = "16 word"
type_synonym u32 = "32 word"
type_synonym u64 = "64 word"
type_synonym i32 = "32 word"
type_synonym i64 = "64 word"

named_theorems arr_simps \<open>the outcome of checked array accesses\<close>
named_theorems defined_intros \<open>sufficient conditions for a defined result\<close>

section \<open>Arrays with checked access\<close>

definition rd :: "'a list \<Rightarrow> nat \<Rightarrow> 'a option" where
  "rd xs i = (if i < length xs then Some (xs ! i) else None)"

definition wr :: "'a list \<Rightarrow> nat \<Rightarrow> 'a \<Rightarrow> 'a list option" where
  "wr xs i v = (if i < length xs then Some (xs[i := v]) else None)"

text \<open>\<open>memset\<close> of \<open>n\<close> whole cells from cell \<open>i\<close>, and \<open>memcpy\<close> of \<open>n\<close> whole cells.\<close>

definition fill :: "'a list \<Rightarrow> nat \<Rightarrow> nat \<Rightarrow> 'a \<Rightarrow> 'a list option" where
  "fill xs i n v =
     (if i + n \<le> length xs then Some (take i xs @ replicate n v @ drop (i + n) xs) else None)"

definition blit :: "'a list \<Rightarrow> nat \<Rightarrow> 'a list \<Rightarrow> nat \<Rightarrow> nat \<Rightarrow> 'a list option" where
  "blit src si dst di n =
     (if si + n \<le> length src \<and> di + n \<le> length dst
      then Some (take di dst @ take n (drop si src) @ drop (di + n) dst) else None)"

lemma rd_in [arr_simps]: "i < length xs \<Longrightarrow> rd xs i = Some (xs ! i)"
  by (simp add: rd_def)

lemma wr_in [arr_simps]: "i < length xs \<Longrightarrow> wr xs i v = Some (xs[i := v])"
  by (simp add: wr_def)

lemma rd_Some_iff: "rd xs i = Some v \<longleftrightarrow> i < length xs \<and> v = xs ! i"
  by (auto simp: rd_def)

lemma wr_Some_iff: "wr xs i v = Some ys \<longleftrightarrow> i < length xs \<and> ys = xs[i := v]"
  by (auto simp: wr_def)

lemma fill_in [arr_simps]:
  "i + n \<le> length xs \<Longrightarrow> fill xs i n v = Some (take i xs @ replicate n v @ drop (i + n) xs)"
  by (simp add: fill_def)

lemma fill_Some_iff:
  "fill xs i n v = Some ys \<longleftrightarrow>
     i + n \<le> length xs \<and> ys = take i xs @ replicate n v @ drop (i + n) xs"
  by (auto simp: fill_def)

lemma length_filled [simp]:
  "i + n \<le> length xs \<Longrightarrow> length (take i xs @ replicate n v @ drop (i + n) xs) = length xs"
  by simp

lemma nth_filled:
  assumes "i + n \<le> length xs" "j < length xs"
  shows "(take i xs @ replicate n v @ drop (i + n) xs) ! j
    = (if i \<le> j \<and> j < i + n then v else xs ! j)"
  using assms by (auto simp: nth_append min_def)

lemma blit_in [arr_simps]:
  "si + n \<le> length src \<Longrightarrow> di + n \<le> length dst \<Longrightarrow>
   blit src si dst di n = Some (take di dst @ take n (drop si src) @ drop (di + n) dst)"
  by (simp add: blit_def)

lemma nth_blitted:
  assumes "si + n \<le> length src" "di + n \<le> length dst" "j < length dst"
  shows "(take di dst @ take n (drop si src) @ drop (di + n) dst) ! j
    = (if di \<le> j \<and> j < di + n then src ! (si + (j - di)) else dst ! j)"
proof -
  have l: "length (take n (drop si src)) = n" "length (take di dst) = di"
    using assms by auto
  show ?thesis using assms unfolding nth_append l by auto
qed

section \<open>Options\<close>

lemma bind_Some_iff: "(Option.bind m f = Some y) \<longleftrightarrow> (\<exists>x. m = Some x \<and> f x = Some y)"
  by (cases m) auto

lemma bind_None_iff: "(Option.bind m f = None) \<longleftrightarrow> (\<forall>x. m = Some x \<longrightarrow> f x = None)"
  by (cases m) auto

text \<open>A \<open>for\<close> loop over a list of index values, stopping at the first undefined step.\<close>

fun foldM :: "('s \<Rightarrow> 'x \<Rightarrow> 's option) \<Rightarrow> 'x list \<Rightarrow> 's \<Rightarrow> 's option" where
  "foldM f [] s = Some s"
| "foldM f (x # xs) s = do { s \<leftarrow> f s x; foldM f xs s }"

lemma foldM_append: "foldM f (xs @ ys) s = Option.bind (foldM f xs s) (foldM f ys)"
  by (induction xs arbitrary: s) (auto split: Option.bind_split)

section \<open>Words\<close>

lemma sint_nonneg_uint:
  fixes x :: "'a::len word"
  assumes "0 \<le> sint x"
  shows "sint x = uint x"
proof -
  have "uint x = take_bit LENGTH('a) (sint x)" by (rule uint_sint)
  also have "\<dots> = sint x"
  proof (rule take_bit_int_eq_self)
    show "0 \<le> sint x" by (rule assms)
    have "sint x < 2 ^ (LENGTH('a) - 1)" by (rule sint_lt)
    also have "\<dots> \<le> 2 ^ LENGTH('a)" by simp
    finally show "sint x < 2 ^ LENGTH('a)" .
  qed
  finally show ?thesis by simp
qed

lemma sint_neg_iff32: "sint (x :: 32 word) < 0 \<longleftrightarrow> 2147483648 \<le> unat x"
proof -
  have e: "int (unat x) = uint x" by simp
  have b: "- 2147483648 \<le> sint x" "sint x < 2147483648"
    using sint_ge [of x] sint_lt [of x] by simp_all
  show ?thesis
  proof (cases "0 \<le> sint x")
    case True
    with b e sint_nonneg_uint [OF this] show ?thesis by linarith
  next
    case False
    have "uint x = take_bit 32 (sint x)" using uint_sint [of x] by simp
    also have "\<dots> = (sint x + 2 ^ 32) mod 2 ^ 32" by (simp add: take_bit_eq_mod)
    also have "\<dots> = sint x + 2 ^ 32" using False b by (intro mod_pos_pos_trivial) simp_all
    finally have "uint x = sint x + 4294967296" by simp
    with b e False show ?thesis by linarith
  qed
qed

lemma sint_eq_unat32: "unat (x :: 32 word) < 2147483648 \<Longrightarrow> sint x = int (unat x)"
  using sint_neg_iff32 [of x] sint_nonneg_uint [of x] by (simp add: not_less)

lemma unat_sdiv32:
  assumes "unat (x :: 32 word) < 2147483648"
  shows "unat (word_of_int (sint x sdiv 32) :: 32 word) = unat x div 32"
proof -
  have "sint x sdiv 32 = int (unat x div 32)"
    using assms by (simp only: sint_eq_unat32 signed_divide_int_def) (cases "x = 0"; simp add: zdiv_int)
  then have "(word_of_int (sint x sdiv 32) :: 32 word) = of_nat (unat x div 32)"
    by (simp only: of_int_of_nat_eq)
  moreover have "unat x div 32 < 2 ^ 32" using assms by simp
  ultimately show ?thesis by (simp only: unat_of_nat) simp
qed

lemma smod32_eq_0_iff:
  assumes "unat (x :: 32 word) < 2147483648"
  shows "sint x smod 32 = 0 \<longleftrightarrow> unat x mod 32 = 0"
proof -
  have "sint x smod 32 = int (unat x) mod 32"
    using assms by (simp only: sint_eq_unat32 smod_int_alt_def) (cases "x = 0"; simp)
  also have "\<dots> = int (unat x mod 32)" by (simp only: zmod_int) simp
  finally show ?thesis by simp
qed

lemma sint_add64:
  assumes "- 9223372036854775808 \<le> sint a + sint b" "sint a + sint b < 9223372036854775808"
  shows "sint (a + b :: 64 word) = sint a + sint b"
  using assms signed_take_bit_int_eq_self [of 63 "sint a + sint b"] by (simp add: sint_word_ariths)

lemma sint_sub64:
  assumes "- 9223372036854775808 \<le> sint a - sint b" "sint a - sint b < 9223372036854775808"
  shows "sint (a - b :: 64 word) = sint a - sint b"
  using assms signed_take_bit_int_eq_self [of 63 "sint a - sint b"] by (simp add: sint_word_ariths)

lemma sint_range64: "- 9223372036854775808 \<le> sint (a :: 64 word)" "sint (a :: 64 word) < 9223372036854775808"
  using sint_ge [of a] sint_lt [of a] by simp_all

lemma unat_of_nat32: "n < 4294967296 \<Longrightarrow> unat (of_nat n :: 32 word) = n"
  by (simp add: unat_of_nat)

lemma unat_Suc_word:
  fixes x :: "64 word"
  assumes "unat x < unat (y :: 64 word)"
  shows "unat (x + 1) = Suc (unat x)"
proof -
  have "unat y < 2 ^ LENGTH(64)" by (rule unsigned_less)
  then have "unat x < 2 ^ 64 - 1" using assms by simp
  then show ?thesis by (simp add: unat_word_ariths)
qed

section \<open>Ranges of indices\<close>

lemma all_less_split:
  assumes "n = m + (k :: nat)"
  shows "(\<forall>i < n. P i) \<longleftrightarrow> (\<forall>i < m. P i) \<and> (\<forall>j < k. P (m + j))"
proof safe
  fix i assume h: "\<forall>i < m. P i" "\<forall>j < k. P (m + j)" "i < n"
  show "P i"
  proof (cases "i < m")
    case False
    then have "i = m + (i - m)" "i - m < k" using assms h(3) by auto
    with h(2) show ?thesis by metis
  qed (use h(1) in blast)
qed (use assms in auto)

section \<open>Positions in a ring\<close>

lemma mod_add_inj_le:
  fixes m :: nat
  assumes "i \<le> j" "j < m" "(b + i) mod m = (b + j) mod m"
  shows "i = j"
proof -
  have "m dvd (b + j) - (b + i)" using assms(1,3) by (subst mod_eq_dvd_iff_nat [symmetric]) simp_all
  then have "m dvd j - i" by simp
  moreover have "j - i < m" using assms(2) by simp
  ultimately have "j - i = 0" by (metis dvd_imp_le gr0I not_less)
  with assms(1) show ?thesis by simp
qed

lemma mod_add_inj:
  fixes m :: nat
  shows "i < m \<Longrightarrow> j < m \<Longrightarrow> (b + i) mod m = (b + j) mod m \<longleftrightarrow> i = j"
  using mod_add_inj_le [of i j m b] mod_add_inj_le [of j i m b] by (metis nat_le_linear)

end
