(* ===== verification/Interfaces.thy ===== *)
theory Interfaces
  imports Prelude
begin

text \<open>
  The contracts between the components, each a locale: what a client calls and what the
  provider promises.  The lemmas a client needs are proved once, inside the locale; the
  theory of each provider interprets the locale on the model of its code.
\<close>

section \<open>Sets of bit numbers\<close>

text \<open>
  The operations of a bit vector.  \<open>pos s i\<close> is the member that the argument \<open>i\<close> names
  in the state \<open>s\<close>, \<open>None\<close> when \<open>i\<close> is outside the vector's range.
\<close>

locale bit_set =
  fixes invar :: "'s \<Rightarrow> bool"
    and pos :: "'s \<Rightarrow> 'i \<Rightarrow> nat option"
    and members :: "'s \<Rightarrow> nat set"
    and ins :: "'s \<Rightarrow> 'i \<Rightarrow> 's option"
    and del :: "'s \<Rightarrow> 'i \<Rightarrow> 's option"
    and tst :: "'s \<Rightarrow> 'i \<Rightarrow> bool option"
  assumes tst_spec: "invar s \<Longrightarrow>
      tst s i = Some (case pos s i of None \<Rightarrow> False | Some k \<Rightarrow> k \<in> members s)"
    and ins_spec: "invar s \<Longrightarrow> \<exists>s'. ins s i = Some s' \<and> invar s' \<and> pos s' = pos s \<and>
      members s' = members s \<union> {k. pos s i = Some k}"
    and del_spec: "invar s \<Longrightarrow> \<exists>s'. del s i = Some s' \<and> invar s' \<and> pos s' = pos s \<and>
      members s' = members s - {k. pos s i = Some k}"
begin

lemma tst_ins:
  assumes "invar s" "ins s i = Some s'"
  shows "tst s' j = Some (pos s j \<noteq> None \<and> (pos s i = pos s j \<or> tst s j = Some True))"
proof -
  have "invar s'" "pos s' = pos s" "members s' = members s \<union> {k. pos s i = Some k}"
    using ins_spec [OF assms(1), of i] assms(2) by auto
  then show ?thesis
    using tst_spec [of s' j] tst_spec [OF assms(1), of j] by (cases "pos s j") auto
qed

lemma tst_del:
  assumes "invar s" "del s i = Some s'"
  shows "tst s' j = Some (pos s i \<noteq> pos s j \<and> tst s j = Some True)"
proof -
  have "invar s'" "pos s' = pos s" "members s' = members s - {k. pos s i = Some k}"
    using del_spec [OF assms(1), of i] assms(2) by auto
  then show ?thesis
    using tst_spec [of s' j] tst_spec [OF assms(1), of j] by (cases "pos s j") auto
qed

lemma foldM_ins:
  "invar s \<Longrightarrow> \<exists>s'. foldM ins is s = Some s' \<and> invar s' \<and> pos s' = pos s \<and>
     members s' = members s \<union> {k. \<exists>i \<in> set is. pos s i = Some k}"
proof (induction "is" arbitrary: s)
  case Nil
  then show ?case by simp
next
  case (Cons i "is")
  from ins_spec [OF Cons.prems, of i] obtain s1 where
    s1: "ins s i = Some s1" "invar s1" "pos s1 = pos s"
      "members s1 = members s \<union> {k. pos s i = Some k}" by blast
  from Cons.IH [OF s1(2)] obtain s2 where
    "foldM ins is s1 = Some s2" "invar s2" "pos s2 = pos s1"
    "members s2 = members s1 \<union> {k. \<exists>i \<in> set is. pos s1 i = Some k}" by blast
  with s1 show ?case by auto
qed

end

section \<open>Bounded queues\<close>

text \<open>
  A first-in first-out queue of bounded capacity.  \<open>enq\<close> is \<open>None\<close> for an access outside
  the queue's memory; what it does on a full queue is left to the provider.  \<open>deq\<close> yields
  the oldest element, \<open>None\<close> when there is none.
\<close>

fun deqs :: "('s \<Rightarrow> ('a option \<times> 's) option) \<Rightarrow> nat \<Rightarrow> 's \<Rightarrow> ('a list \<times> 's) option" where
  "deqs deq 0 s = Some ([], s)"
| "deqs deq (Suc n) s = do { (r, s) \<leftarrow> deq s; (rs, s) \<leftarrow> deqs deq n s;
     Some (case r of None \<Rightarrow> rs | Some x \<Rightarrow> x # rs, s) }"

locale bounded_fifo =
  fixes invar :: "'s \<Rightarrow> bool"
    and cap :: "'s \<Rightarrow> nat"
    and abs :: "'s \<Rightarrow> 'a list"
    and enq :: "'s \<Rightarrow> 'a \<Rightarrow> 's option"
    and deq :: "'s \<Rightarrow> ('a option \<times> 's) option"
  assumes enq_law: "invar s \<Longrightarrow> \<exists>s'. enq s x = Some s' \<and> invar s' \<and> cap s' = cap s \<and>
      (length (abs s) < cap s \<longrightarrow> abs s' = abs s @ [x])"
    and deq_law: "invar s \<Longrightarrow> \<exists>r s'. deq s = Some (r, s') \<and> invar s' \<and> cap s' = cap s \<and>
      (case abs s of [] \<Rightarrow> r = None \<and> abs s' = [] | x # xs \<Rightarrow> r = Some x \<and> abs s' = xs)"
    and abs_bound: "invar s \<Longrightarrow> length (abs s) \<le> cap s"
begin

lemma foldM_enq:
  "invar s \<Longrightarrow> length (abs s) + length xs \<le> cap s \<Longrightarrow>
   \<exists>s'. foldM enq xs s = Some s' \<and> invar s' \<and> cap s' = cap s \<and> abs s' = abs s @ xs"
proof (induction xs arbitrary: s)
  case (Cons x xs)
  obtain s1 where s1: "enq s x = Some s1" "invar s1" "cap s1 = cap s" "abs s1 = abs s @ [x]"
    using enq_law [OF Cons.prems(1), of x] Cons.prems(2) by auto
  from Cons.IH [OF s1(2)] s1 Cons.prems(2) show ?case by auto
qed simp

lemma deqs_take:
  "invar s \<Longrightarrow> \<exists>s'. deqs deq n s = Some (take n (abs s), s') \<and> invar s' \<and> cap s' = cap s \<and>
     abs s' = drop n (abs s)"
proof (induction n arbitrary: s)
  case (Suc n)
  obtain r s1 where s1: "deq s = Some (r, s1)" "invar s1" "cap s1 = cap s"
    "case abs s of [] \<Rightarrow> r = None \<and> abs s1 = [] | x # xs \<Rightarrow> r = Some x \<and> abs s1 = xs"
    using deq_law [OF Suc.prems] by blast
  from Suc.IH [OF s1(2)] obtain s2 where "deqs deq n s1 = Some (take n (abs s1), s2)" "invar s2"
    "cap s2 = cap s1" "abs s2 = drop n (abs s1)" by blast
  with s1 show ?case by (cases "abs s") auto
qed simp

lemma in_order:
  assumes "invar s" "abs s = []" "length xs \<le> cap s"
  shows "\<exists>s1 s2. foldM enq xs s = Some s1 \<and> deqs deq (length xs) s1 = Some (xs, s2) \<and> abs s2 = []"
proof -
  obtain s1 where "foldM enq xs s = Some s1" "invar s1" "abs s1 = xs"
    using foldM_enq [OF assms(1), of xs] assms(2,3) by auto
  with deqs_take [of s1 "length xs"] show ?thesis by auto
qed

end

section \<open>Maps whose entries shadow each other\<close>

text \<open>
  A map in which an insertion hides an earlier one for the same key and a deletion uncovers
  it again: each key has a stack of values.  \<open>valid\<close> and \<open>val\<close> tell which arguments name a key,
  and which; \<open>avail s m\<close> that \<open>m\<close> is memory the insertion can use.
\<close>

locale stack_map =
  fixes invar :: "'s \<Rightarrow> bool"
    and valid :: "'a \<Rightarrow> bool"
    and val :: "'a \<Rightarrow> 'k"
    and avail :: "'s \<Rightarrow> 'm \<Rightarrow> bool"
    and stack :: "'s \<Rightarrow> 'k \<Rightarrow> 'd list"
    and add :: "'s \<Rightarrow> 'm \<Rightarrow> 'a \<Rightarrow> 'd \<Rightarrow> 's option"
    and del :: "'s \<Rightarrow> 'a \<Rightarrow> 's option"
    and get :: "'s \<Rightarrow> 'a \<Rightarrow> 'd option option"
  assumes add_law: "invar s \<Longrightarrow> valid a \<Longrightarrow> avail s m \<Longrightarrow>
      \<exists>s'. add s m a d = Some s' \<and> invar s' \<and> stack s' = (stack s)(val a := d # stack s (val a))"
    and del_law: "invar s \<Longrightarrow> valid a \<Longrightarrow>
      \<exists>s'. del s a = Some s' \<and> invar s' \<and> stack s' = (stack s)(val a := tl (stack s (val a)))"
    and get_law: "invar s \<Longrightarrow> valid a \<Longrightarrow>
      get s a = Some (case stack s (val a) of [] \<Rightarrow> None | d # _ \<Rightarrow> Some d)"
begin

lemma get_add:
  assumes "invar s" "valid a" "valid b" "avail s m" "add s m a d = Some s'"
  shows "get s' b = (if val a = val b then Some (Some d) else get s b)"
proof -
  have "invar s'" "stack s' = (stack s)(val a := d # stack s (val a))"
    using add_law [OF assms(1,2,4), of d] assms(5) by auto
  then show ?thesis using get_law assms(1,3) by auto
qed

lemma del_add:
  assumes "invar s" "valid a" "avail s m" "add s m a d = Some s1"
  shows "\<exists>s2. del s1 a = Some s2 \<and> invar s2 \<and> stack s2 = stack s"
proof -
  have s1: "invar s1" "stack s1 = (stack s)(val a := d # stack s (val a))"
    using add_law [OF assms(1-3), of d] assms(4) by auto
  obtain s2 where "del s1 a = Some s2" "invar s2" "stack s2 = (stack s1)(val a := tl (stack s1 (val a)))"
    using del_law [OF s1(1) assms(2)] by blast
  with s1(2) show ?thesis by auto
qed

lemma get_del_other:
  assumes "invar s" "valid a" "valid b" "del s a = Some s'" "val a \<noteq> val b"
  shows "get s' b = get s b"
proof -
  have "invar s'" "stack s' = (stack s)(val a := tl (stack s (val a)))"
    using del_law [OF assms(1,2)] assms(4) by auto
  then show ?thesis using get_law assms(1,3,5) by auto
qed

end

section \<open>Linked queues\<close>

text \<open>
  The commands of the queue macros, on queues named \<open>'h\<close> with elements \<open>'e\<close>, and their effect on the
  lists of elements.  A queue that is not in the map has not been initialised.  An effect is \<open>None\<close> when the
  command may not be given: an element that is inserted is in no queue, one that is named is in its queue.
\<close>

datatype ('h, 'e) qcmd =
  Init 'h
| Insert_head 'h 'e
| Insert_tail 'h 'e
| Insert_after 'h 'e 'e
| Insert_before 'h 'e 'e
| Remove_head 'h
| Remove_head_until 'h 'e
| Remove 'h 'e

definition unqueued :: "('h \<Rightarrow> 'e list option) \<Rightarrow> 'e \<Rightarrow> bool" where
  "unqueued q e \<longleftrightarrow> (\<forall>h xs. q h = Some xs \<longrightarrow> e \<notin> set xs)"

fun after_in :: "'e \<Rightarrow> 'e \<Rightarrow> 'e list \<Rightarrow> 'e list" where
  "after_in x e [] = []"
| "after_in x e (y # ys) = (if y = x then y # e # ys else y # after_in x e ys)"

fun before_in :: "'e \<Rightarrow> 'e \<Rightarrow> 'e list \<Rightarrow> 'e list" where
  "before_in x e [] = []"
| "before_in x e (y # ys) = (if y = x then e # y # ys else y # before_in x e ys)"

fun effect :: "('h, 'e) qcmd \<Rightarrow> ('h \<Rightarrow> 'e list option) \<Rightarrow> ('h \<Rightarrow> 'e list option) option" where
  "effect (Init h) q = Some (q(h \<mapsto> []))"
| "effect (Insert_head h e) q = do { xs \<leftarrow> q h; if unqueued q e then Some (q(h \<mapsto> e # xs)) else None }"
| "effect (Insert_tail h e) q = do { xs \<leftarrow> q h; if unqueued q e then Some (q(h \<mapsto> xs @ [e])) else None }"
| "effect (Insert_after h x e) q = do {
     xs \<leftarrow> q h; if x \<in> set xs \<and> unqueued q e then Some (q(h \<mapsto> after_in x e xs)) else None }"
| "effect (Insert_before h x e) q = do {
     xs \<leftarrow> q h; if x \<in> set xs \<and> unqueued q e then Some (q(h \<mapsto> before_in x e xs)) else None }"
| "effect (Remove_head h) q = do { xs \<leftarrow> q h; if xs \<noteq> [] then Some (q(h \<mapsto> tl xs)) else None }"
| "effect (Remove_head_until h e) q = do {
     xs \<leftarrow> q h; if e \<in> set xs then Some (q(h \<mapsto> tl (dropWhile (\<lambda>x. x \<noteq> e) xs))) else None }"
| "effect (Remove h e) q = do { xs \<leftarrow> q h; if e \<in> set xs then Some (q(h \<mapsto> remove1 e xs)) else None }"

definition effects :: "('h, 'e) qcmd list \<Rightarrow> ('h \<Rightarrow> 'e list option) option" where
  "effects cs = foldM (\<lambda>q c. effect c q) cs Map.empty"

lemma after_in_split: "x \<notin> set pre \<Longrightarrow> after_in x e (pre @ x # post) = pre @ x # e # post"
  by (induction pre) auto

lemma before_in_split: "x \<notin> set pre \<Longrightarrow> before_in x e (pre @ x # post) = pre @ e # x # post"
  by (induction pre) auto

lemma drop_until_split: "x \<notin> set pre \<Longrightarrow> tl (dropWhile (\<lambda>y. y \<noteq> x) (pre @ x # post)) = post"
  by (induction pre) auto

text \<open>The queues in a memory \<open>'s\<close>: each has the elements of its list, and no element is in two.\<close>

definition represents :: "('s \<Rightarrow> 'h \<Rightarrow> 'e list \<Rightarrow> bool) \<Rightarrow> 's \<Rightarrow> ('h \<Rightarrow> 'e list option) \<Rightarrow> bool" where
  "represents queue s q \<longleftrightarrow> (\<forall>h xs. q h = Some xs \<longrightarrow> queue s h xs) \<and>
     (\<forall>h h' xs xs'. q h = Some xs \<longrightarrow> q h' = Some xs' \<longrightarrow> h \<noteq> h' \<longrightarrow> set xs \<inter> set xs' = {})"

lemma represents_queue: "represents queue s q \<Longrightarrow> q h = Some xs \<Longrightarrow> queue s h xs"
  by (simp add: represents_def)

lemma unqueuedD: "unqueued q e \<Longrightarrow> q h = Some xs \<Longrightarrow> e \<notin> set xs"
  by (simp add: unqueued_def)

text \<open>What a command has to do to the memory; \<open>r\<close> is its result.\<close>

fun does ::
  "('s \<Rightarrow> 'h \<Rightarrow> 'e list \<Rightarrow> bool) \<Rightarrow> ('s \<Rightarrow> 'h \<Rightarrow> 'e list \<Rightarrow> 'e list \<Rightarrow> 'e list \<Rightarrow> 'e list \<Rightarrow> 's \<Rightarrow> bool) \<Rightarrow>
   ('s \<Rightarrow> 'h \<Rightarrow> 's \<Rightarrow> bool) \<Rightarrow> 's \<Rightarrow> ('h, 'e) qcmd \<Rightarrow> 's option \<Rightarrow> bool" where
  "does queue spliced emptied s (Init h) r \<longleftrightarrow>
     (\<exists>s'. r = Some s' \<and> emptied s h s')"
| "does queue spliced emptied s (Insert_head h e) r \<longleftrightarrow>
     (\<forall>xs. queue s h xs \<longrightarrow> e \<notin> set xs \<longrightarrow> (\<exists>s'. r = Some s' \<and> spliced s h [] [] [e] xs s'))"
| "does queue spliced emptied s (Insert_tail h e) r \<longleftrightarrow>
     (\<forall>xs. queue s h xs \<longrightarrow> e \<notin> set xs \<longrightarrow> (\<exists>s'. r = Some s' \<and> spliced s h xs [] [e] [] s'))"
| "does queue spliced emptied s (Insert_after h x e) r \<longleftrightarrow>
     (\<forall>pre post. queue s h (pre @ x # post) \<longrightarrow> e \<notin> set (pre @ x # post) \<longrightarrow>
       (\<exists>s'. r = Some s' \<and> spliced s h (pre @ [x]) [] [e] post s'))"
| "does queue spliced emptied s (Insert_before h x e) r \<longleftrightarrow>
     (\<forall>pre post. queue s h (pre @ x # post) \<longrightarrow> e \<notin> set (pre @ x # post) \<longrightarrow>
       (\<exists>s'. r = Some s' \<and> spliced s h pre [] [e] (x # post) s'))"
| "does queue spliced emptied s (Remove_head h) r \<longleftrightarrow>
     (\<forall>x post. queue s h ([] @ x # post) \<longrightarrow> (\<exists>s'. r = Some s' \<and> spliced s h [] [x] [] post s'))"
| "does queue spliced emptied s (Remove_head_until h x) r \<longleftrightarrow>
     (\<forall>pre post. queue s h (pre @ x # post) \<longrightarrow> (\<exists>s'. r = Some s' \<and> spliced s h [] (pre @ [x]) [] post s'))"
| "does queue spliced emptied s (Remove h x) r \<longleftrightarrow>
     (\<forall>pre post. queue s h (pre @ x # post) \<longrightarrow> (\<exists>s'. r = Some s' \<and> spliced s h pre [x] [] post s'))"

text \<open>
  A memory in which a part of one queue can be replaced, \<open>spliced s h pre old new post s'\<close>, and a queue be made
  empty, without harm to the others.  A command on queues then follows from the change its macro makes to the
  one queue; \<open>r\<close> is the result of the macro.
\<close>

locale spliced_queues =
  fixes queue :: "'s \<Rightarrow> 'h \<Rightarrow> 'e list \<Rightarrow> bool"
    and spliced :: "'s \<Rightarrow> 'h \<Rightarrow> 'e list \<Rightarrow> 'e list \<Rightarrow> 'e list \<Rightarrow> 'e list \<Rightarrow> 's \<Rightarrow> bool"
    and emptied :: "'s \<Rightarrow> 'h \<Rightarrow> 's \<Rightarrow> bool"
  assumes splice: "represents queue s q \<Longrightarrow> q h = Some (pre @ old @ post) \<Longrightarrow> spliced s h pre old new post s' \<Longrightarrow>
      distinct new \<Longrightarrow> (\<And>e. e \<in> set new \<Longrightarrow> unqueued q e) \<Longrightarrow> represents queue s' (q(h \<mapsto> pre @ new @ post))"
    and emptied: "represents queue s q \<Longrightarrow> emptied s h s' \<Longrightarrow> represents queue s' (q(h \<mapsto> []))"
begin

lemma step_Insert_head:
  assumes "represents queue s q" "effect (Insert_head h e) q = Some q'"
    and "\<And>xs. queue s h xs \<Longrightarrow> e \<notin> set xs \<Longrightarrow> \<exists>s'. r = Some s' \<and> spliced s h [] [] [e] xs s'"
  shows "\<exists>s'. r = Some s' \<and> represents queue s' q'"
proof -
  obtain xs where xs: "q h = Some xs" "unqueued q e" "q' = q(h \<mapsto> e # xs)"
    using assms(2) by (auto simp: bind_Some_iff split: if_splits)
  with assms(3) [OF represents_queue [OF assms(1) xs(1)]] splice [OF assms(1), of h "[]" "[]" xs "[e]"] unqueuedD
  show ?thesis by fastforce
qed

lemma step_Insert_tail:
  assumes "represents queue s q" "effect (Insert_tail h e) q = Some q'"
    and "\<And>xs. queue s h xs \<Longrightarrow> e \<notin> set xs \<Longrightarrow> \<exists>s'. r = Some s' \<and> spliced s h xs [] [e] [] s'"
  shows "\<exists>s'. r = Some s' \<and> represents queue s' q'"
proof -
  obtain xs where xs: "q h = Some xs" "unqueued q e" "q' = q(h \<mapsto> xs @ [e])"
    using assms(2) by (auto simp: bind_Some_iff split: if_splits)
  with assms(3) [OF represents_queue [OF assms(1) xs(1)]] splice [OF assms(1), of h xs "[]" "[]" "[e]"] unqueuedD
  show ?thesis by fastforce
qed

lemma step_Insert_after:
  assumes "represents queue s q" "effect (Insert_after h x e) q = Some q'"
    and "\<And>pre post. queue s h (pre @ x # post) \<Longrightarrow> e \<notin> set (pre @ x # post) \<Longrightarrow>
      \<exists>s'. r = Some s' \<and> spliced s h (pre @ [x]) [] [e] post s'"
  shows "\<exists>s'. r = Some s' \<and> represents queue s' q'"
proof -
  obtain xs where xs: "q h = Some xs" "x \<in> set xs" "unqueued q e" "q' = q(h \<mapsto> after_in x e xs)"
    using assms(2) by (auto simp: bind_Some_iff split: if_splits)
  obtain pre post where p: "xs = pre @ x # post" "x \<notin> set pre" using split_list_first [OF xs(2)] by blast
  have q: "q h = Some ((pre @ [x]) @ [] @ post)" using xs(1) p(1) by simp
  have "e \<notin> set (pre @ x # post)" using unqueuedD [OF xs(3,1)] p(1) by simp
  with assms(3) [of pre post] represents_queue [OF assms(1) xs(1)] p(1)
  obtain s' where "r = Some s'" "spliced s h (pre @ [x]) [] [e] post s'" by auto
  then show ?thesis using splice [OF assms(1) q, of "[e]" s'] xs(3,4) p after_in_split [OF p(2), of e post] by simp
qed

lemma step_Insert_before:
  assumes "represents queue s q" "effect (Insert_before h x e) q = Some q'"
    and "\<And>pre post. queue s h (pre @ x # post) \<Longrightarrow> e \<notin> set (pre @ x # post) \<Longrightarrow>
      \<exists>s'. r = Some s' \<and> spliced s h pre [] [e] (x # post) s'"
  shows "\<exists>s'. r = Some s' \<and> represents queue s' q'"
proof -
  obtain xs where xs: "q h = Some xs" "x \<in> set xs" "unqueued q e" "q' = q(h \<mapsto> before_in x e xs)"
    using assms(2) by (auto simp: bind_Some_iff split: if_splits)
  obtain pre post where p: "xs = pre @ x # post" "x \<notin> set pre" using split_list_first [OF xs(2)] by blast
  have q: "q h = Some (pre @ [] @ x # post)" using xs(1) p(1) by simp
  have "e \<notin> set (pre @ x # post)" using unqueuedD [OF xs(3,1)] p(1) by simp
  with assms(3) [of pre post] represents_queue [OF assms(1) xs(1)] p(1)
  obtain s' where "r = Some s'" "spliced s h pre [] [e] (x # post) s'" by auto
  then show ?thesis using splice [OF assms(1) q, of "[e]" s'] xs(3,4) p before_in_split [OF p(2), of e post] by simp
qed

lemma step_Remove_head_until:
  assumes "represents queue s q" "effect (Remove_head_until h x) q = Some q'"
    and "\<And>pre post. queue s h (pre @ x # post) \<Longrightarrow> \<exists>s'. r = Some s' \<and> spliced s h [] (pre @ [x]) [] post s'"
  shows "\<exists>s'. r = Some s' \<and> represents queue s' q'"
proof -
  obtain xs where xs: "q h = Some xs" "x \<in> set xs" "q' = q(h \<mapsto> tl (dropWhile (\<lambda>y. y \<noteq> x) xs))"
    using assms(2) by (auto simp: bind_Some_iff split: if_splits)
  obtain pre post where p: "xs = pre @ x # post" "x \<notin> set pre" using split_list_first [OF xs(2)] by blast
  have q: "q h = Some ([] @ (pre @ [x]) @ post)" using xs(1) p(1) by simp
  obtain s' where "r = Some s'" "spliced s h [] (pre @ [x]) [] post s'"
    using assms(3) [of pre post] represents_queue [OF assms(1) xs(1)] p(1) by auto
  then show ?thesis using splice [OF assms(1) q, of "[]" s'] xs(3) p drop_until_split [OF p(2), of post] by simp
qed

lemma step_Remove_head:
  assumes "represents queue s q" "effect (Remove_head h) q = Some q'"
    and "\<And>x post. queue s h ([] @ x # post) \<Longrightarrow> \<exists>s'. r = Some s' \<and> spliced s h [] [x] [] post s'"
  shows "\<exists>s'. r = Some s' \<and> represents queue s' q'"
proof -
  obtain x post where xs: "q h = Some (x # post)" "q' = q(h \<mapsto> post)"
    using assms(2) by (auto simp: bind_Some_iff neq_Nil_conv split: if_splits)
  obtain s' where "r = Some s'" "spliced s h [] [x] [] post s'"
    using assms(3) [of x post] represents_queue [OF assms(1) xs(1)] by auto
  then show ?thesis using splice [OF assms(1), of h "[]" "[x]" post "[]" s'] xs by simp
qed

lemma step_Remove:
  assumes "represents queue s q" "effect (Remove h x) q = Some q'"
    and "\<And>pre post. queue s h (pre @ x # post) \<Longrightarrow> \<exists>s'. r = Some s' \<and> spliced s h pre [x] [] post s'"
  shows "\<exists>s'. r = Some s' \<and> represents queue s' q'"
proof -
  obtain xs where xs: "q h = Some xs" "x \<in> set xs" "q' = q(h \<mapsto> remove1 x xs)"
    using assms(2) by (auto simp: bind_Some_iff split: if_splits)
  obtain pre post where p: "xs = pre @ x # post" "x \<notin> set pre" using split_list_first [OF xs(2)] by blast
  have q: "q h = Some (pre @ [x] @ post)" using xs(1) p(1) by simp
  obtain s' where "r = Some s'" "spliced s h pre [x] [] post s'"
    using assms(3) [of pre post] represents_queue [OF assms(1) xs(1)] p(1) by auto
  moreover have "remove1 x xs = pre @ post" using p by (simp add: remove1_append)
  ultimately show ?thesis using splice [OF assms(1) q, of "[]" s'] xs(3) by simp
qed

lemma does_step:
  assumes "represents queue s q" "does queue spliced emptied s c r" "effect c q = Some q'"
  shows "\<exists>s'. r = Some s' \<and> represents queue s' q'"
proof (cases c)
  case (Init h)
  show ?thesis using emptied [OF assms(1), of h] assms(2,3) Init by auto
next
  case (Insert_head h e)
  show ?thesis using step_Insert_head [OF assms(1), of h e q' r] assms(2,3) Insert_head by simp
next
  case (Insert_tail h e)
  show ?thesis using step_Insert_tail [OF assms(1), of h e q' r] assms(2,3) Insert_tail by simp
next
  case (Insert_after h x e)
  show ?thesis using step_Insert_after [OF assms(1), of h x e q' r] assms(2,3) Insert_after by simp
next
  case (Insert_before h x e)
  show ?thesis using step_Insert_before [OF assms(1), of h x e q' r] assms(2,3) Insert_before by simp
next
  case (Remove_head h)
  show ?thesis using step_Remove_head [OF assms(1), of h q' r] assms(2,3) Remove_head by simp
next
  case (Remove_head_until h x)
  show ?thesis using step_Remove_head_until [OF assms(1), of h x q' r] assms(2,3) Remove_head_until by simp
next
  case (Remove h x)
  show ?thesis using step_Remove [OF assms(1), of h x q' r] assms(2,3) Remove by simp
qed

end

text \<open>
  A family of macros: the commands that \<open>sup\<close> names change the memory as they should, and the traversal visits
  the elements in order.
\<close>

locale queue_macros = spliced_queues queue spliced emptied
  for queue :: "'s \<Rightarrow> 'h \<Rightarrow> 'e list \<Rightarrow> bool"
    and spliced :: "'s \<Rightarrow> 'h \<Rightarrow> 'e list \<Rightarrow> 'e list \<Rightarrow> 'e list \<Rightarrow> 'e list \<Rightarrow> 's \<Rightarrow> bool"
    and emptied :: "'s \<Rightarrow> 'h \<Rightarrow> 's \<Rightarrow> bool" +
  fixes sup :: "('h, 'e) qcmd \<Rightarrow> bool"
    and step :: "('h, 'e) qcmd \<Rightarrow> 's \<Rightarrow> 's option"
    and foreach :: "'s \<Rightarrow> 'h \<Rightarrow> 'e list option"
  assumes does_law: "sup c \<Longrightarrow> does queue spliced emptied s c (step c s)"
    and foreach_law: "queue s h xs \<Longrightarrow> foreach s h = Some xs"
begin

lemma run:
  "represents queue s q \<Longrightarrow> \<forall>c \<in> set cs. sup c \<Longrightarrow> foldM (\<lambda>q c. effect c q) cs q = Some q' \<Longrightarrow>
   \<exists>s'. foldM (\<lambda>s c. step c s) cs s = Some s' \<and> represents queue s' q'"
proof (induction cs arbitrary: s q)
  case (Cons c cs)
  obtain q1 where q1: "effect c q = Some q1" "foldM (\<lambda>q c. effect c q) cs q1 = Some q'"
    using Cons.prems(3) by (auto simp: bind_Some_iff)
  obtain s1 where s1: "step c s = Some s1" "represents queue s1 q1"
    using does_step [OF Cons.prems(1) does_law q1(1)] Cons.prems(2) by auto
  from Cons.IH [OF s1(2) _ q1(2)] s1(1) Cons.prems(2) show ?case by auto
qed simp

lemma run_start:
  assumes "\<forall>c \<in> set cs. sup c" "effects cs = Some q"
  shows "\<exists>s'. foldM (\<lambda>s c. step c s) cs s = Some s' \<and> represents queue s' q \<and>
    (\<forall>h xs. q h = Some xs \<longrightarrow> foreach s' h = Some xs)"
proof -
  have "represents queue s Map.empty" by (simp add: represents_def)
  with run [OF this assms(1)] assms(2) obtain s' where
    s': "foldM (\<lambda>s c. step c s) cs s = Some s'" "represents queue s' q" unfolding effects_def by blast
  then show ?thesis using foreach_law [OF represents_queue [OF s'(2)]] by blast
qed

end

end
