(* ===== verification/Bitlist.thy ===== *)
theory Bitlist
  imports Interfaces
begin

text \<open>
  \<open>src/bitlist.c\<close> and \<open>src/bitlist.h\<close>: a dynamic bit list over 32-bit elements with a
  find cursor kept in its header.  A \<open>bitlist_t\<close> is a record of the header and of the
  elements that were allocated behind it; the operations that index the elements return
  \<open>None\<close> for an access outside them.  Where the C functions take two or three
  pointers, which may alias, they run over a heap of bit lists.  The messages the code logs
  or prints are left out; the truth values that go with them are not.
\<close>

section \<open>Elements and header\<close>

definition BITS_PER_ELEM :: nat where
  "BITS_PER_ELEM = 32"

definition BITS_TO_ELEMS :: "i32 \<Rightarrow> i32" where
  "BITS_TO_ELEMS bits = word_of_int (sint (bits + 31) sdiv 32)"

definition BIT_TO_ELEM :: "i32 \<Rightarrow> i32" where
  "BIT_TO_ELEM i = word_of_int (sint i sdiv 32)"

definition BIT_TO_BIT :: "i32 \<Rightarrow> nat" where
  "BIT_TO_BIT i = unat (i AND 31)"

definition BIT_TO_MASK :: "i32 \<Rightarrow> u32" where
  "BIT_TO_MASK i = push_bit (BIT_TO_BIT i) 1"

definition BITLIST_INVALID :: i32 where
  "BITLIST_INVALID = - 1"

record bitlist_state_t =
  max_elems :: u32
  max_bits :: u32
  base_bit :: u32
  last_elem :: u32
  last_bit :: u32

record bitlist_t =
  state :: bitlist_state_t
  bits :: "u32 list"

section \<open>Single bits\<close>

definition bitlist_validbit :: "bitlist_t \<Rightarrow> i32 \<Rightarrow> bool" where
  "bitlist_validbit bl i =
     (if sint i < 0 \<or> max_bits (state bl) \<le> i then False else True)"

definition bitlist_validrange :: "bitlist_t \<Rightarrow> i32 \<Rightarrow> i32 \<Rightarrow> bool" where
  "bitlist_validrange bl i n =
     (if \<not> bitlist_validbit bl (i - base_bit (state bl)) then False
      else if \<not> bitlist_validbit bl (i + n - base_bit (state bl) - 1) then False
      else True)"

definition bitlist_test :: "bitlist_t \<Rightarrow> i32 \<Rightarrow> bool option" where
  "bitlist_test bl i =
     (let i = i - base_bit (state bl)
      in if \<not> bitlist_validbit bl i then Some False
         else do { e \<leftarrow> rd (bits bl) (unat (BIT_TO_ELEM i));
                   Some (e AND BIT_TO_MASK i \<noteq> 0) })"

definition bitlist_set :: "bitlist_t \<Rightarrow> i32 \<Rightarrow> bitlist_t option" where
  "bitlist_set bl i =
     (let i = i - base_bit (state bl)
      in if bitlist_validbit bl i
         then do { e \<leftarrow> rd (bits bl) (unat (BIT_TO_ELEM i));
                   bs \<leftarrow> wr (bits bl) (unat (BIT_TO_ELEM i)) (e OR BIT_TO_MASK i);
                   Some (bl\<lparr>bits := bs\<rparr>) }
         else Some bl)"

definition bitlist_clear :: "bitlist_t \<Rightarrow> i32 \<Rightarrow> bitlist_t option" where
  "bitlist_clear bl i =
     (let i = i - base_bit (state bl)
      in if bitlist_validbit bl i
         then do { e \<leftarrow> rd (bits bl) (unat (BIT_TO_ELEM i));
                   bs \<leftarrow> wr (bits bl) (unat (BIT_TO_ELEM i)) (e AND NOT (BIT_TO_MASK i));
                   Some (bl\<lparr>bits := bs\<rparr>) }
         else Some bl)"

section \<open>Whole lists and aligned ranges\<close>

definition bitlist_setall :: "bitlist_t \<Rightarrow> i32 \<Rightarrow> i32 \<Rightarrow> bitlist_t option" where
  "bitlist_setall bl n base =
     (let st = \<lparr>max_elems = BITS_TO_ELEMS n, max_bits = n, base_bit = base,
                last_elem = 0, last_bit = 0\<rparr>
      in do { bs \<leftarrow> fill (bits bl) 0 (unat (max_elems st)) (NOT 0);
              bs \<leftarrow> (if BIT_TO_BIT n \<noteq> 0
                     then do { e \<leftarrow> rd bs (unat (max_elems st - 1));
                               wr bs (unat (max_elems st - 1)) (e AND (BIT_TO_MASK n - 1)) }
                     else Some bs);
              Some \<lparr>state = st, bits = bs\<rparr> })"

definition bitlist_clearall :: "bitlist_t \<Rightarrow> i32 \<Rightarrow> i32 \<Rightarrow> bitlist_t option" where
  "bitlist_clearall bl n base =
     (let st = \<lparr>max_elems = BITS_TO_ELEMS n, max_bits = n, base_bit = base,
                last_elem = 0, last_bit = 0\<rparr>
      in do { bs \<leftarrow> fill (bits bl) 0 (unat (max_elems st)) 0;
              Some \<lparr>state = st, bits = bs\<rparr> })"

definition bitlist_clearall2 :: "bitlist_t \<Rightarrow> bitlist_t option" where
  "bitlist_clearall2 bl =
     do { bs \<leftarrow> fill (bits bl) 0 (unat (max_elems (state bl))) 0; Some (bl\<lparr>bits := bs\<rparr>) }"

definition fill_contiguous :: "bitlist_t \<Rightarrow> i32 \<Rightarrow> i32 \<Rightarrow> u32 \<Rightarrow> bitlist_t option" where
  "fill_contiguous bl i n v =
     (if \<not> bitlist_validrange bl i n then Some bl
      else if (i - base_bit (state bl)) mod 32 \<noteq> 0 then Some bl
      else if sint n smod 32 \<noteq> 0 then Some bl
      else do { bs \<leftarrow> fill (bits bl) (unat ((i - base_bit (state bl)) div 32))
                        (unat (BITS_TO_ELEMS n)) v;
                Some (bl\<lparr>bits := bs\<rparr>) })"

definition bitlist_set_contiguous :: "bitlist_t \<Rightarrow> i32 \<Rightarrow> i32 \<Rightarrow> bitlist_t option" where
  "bitlist_set_contiguous bl i n = fill_contiguous bl i n (NOT 0)"

definition bitlist_clear_contiguous :: "bitlist_t \<Rightarrow> i32 \<Rightarrow> i32 \<Rightarrow> bitlist_t option" where
  "bitlist_clear_contiguous bl i n = fill_contiguous bl i n 0"

section \<open>The find cursor\<close>

text \<open>
  The inner \<open>while\<close> of \<open>bitlist_find_bit\<close>, from bit \<open>b\<close> of a nonzero
  element; \<open>None\<close> when it runs to bit 32.
\<close>

function scan_elem :: "u32 \<Rightarrow> nat \<Rightarrow> nat option" where
  "scan_elem e b =
     (if b < BITS_PER_ELEM then if e AND push_bit b 1 \<noteq> 0 then Some b else scan_elem e (Suc b)
      else None)"
  by pat_completeness auto
termination
  by (relation "measure (\<lambda>(e, b). BITS_PER_ELEM - b)") auto

text \<open>
  The outer loop: the element and the bit at which it stops; the bit is 0 when it runs past
  the last element.  \<open>None\<close> is a read outside the elements.
\<close>

function find_loop :: "u32 list \<Rightarrow> nat \<Rightarrow> nat \<Rightarrow> nat \<Rightarrow> (nat \<times> nat) option" where
  "find_loop bs n elem b =
     (if elem < n then
        if BITS_PER_ELEM \<le> b then find_loop bs n (Suc elem) 0
        else do { e \<leftarrow> rd bs elem;
                  if e = 0 then find_loop bs n (Suc elem) 0
                  else (case scan_elem e b of
                          Some b' \<Rightarrow> Some (elem, b')
                        | None \<Rightarrow> find_loop bs n (Suc elem) 0) }
      else Some (elem, b))"
  by pat_completeness auto
termination
  by (relation "measure (\<lambda>(bs, n, elem, b). n - elem)") auto

declare scan_elem.simps [simp del] find_loop.simps [simp del]

definition bitlist_find_bit :: "bitlist_t \<Rightarrow> bool \<Rightarrow> (i32 \<times> bitlist_t) option" where
  "bitlist_find_bit bl first =
     (let st = state bl in
      if \<not> first \<and> max_elems st \<le> last_elem st then Some (BITLIST_INVALID, bl)
      else let (elem, b) = (if first then (0, 0) else (unat (last_elem st), unat (last_bit st + 1)))
      in do { (elem, b) \<leftarrow> find_loop (bits bl) (unat (max_elems st)) elem b;
              let st' = st\<lparr>last_elem := of_nat elem, last_bit := of_nat b\<rparr>;
              if unat (max_elems st) \<le> elem then Some (BITLIST_INVALID, bl\<lparr>state := st'\<rparr>)
              else if max_bits st \<le> (of_nat (elem * BITS_PER_ELEM + b) :: u32)
                then Some (BITLIST_INVALID, bl\<lparr>state := st'\<lparr>last_elem := max_elems st\<rparr>\<rparr>)
              else Some (of_nat (elem * BITS_PER_ELEM + b) + base_bit st, bl\<lparr>state := st'\<rparr>) })"

definition bitlist_find_next :: "bitlist_t \<Rightarrow> (i32 \<times> bitlist_t) option" where
  "bitlist_find_next bl = bitlist_find_bit bl False"

definition bitlist_find_first :: "bitlist_t \<Rightarrow> (i32 \<times> bitlist_t) option" where
  "bitlist_find_first bl = bitlist_find_bit bl True"

definition bitlist_find_after :: "bitlist_t \<Rightarrow> i32 \<Rightarrow> (i32 \<times> bitlist_t) option" where
  "bitlist_find_after bl i =
     (let i = i - base_bit (state bl)
      in if \<not> bitlist_validbit bl i then Some (BITLIST_INVALID, bl)
         else bitlist_find_bit
                (bl\<lparr>state := state bl\<lparr>last_elem := BIT_TO_ELEM i,
                                       last_bit := of_nat (BIT_TO_BIT i)\<rparr>\<rparr>) False)"


section \<open>The invariant and the abstract set\<close>

text \<open>
  \<open>bitlist_wf\<close> is what \<open>bitlist_alloc\<close> and \<open>DEF_BITLIST\<close> set up: as many elements as the
  bits need, allocated; the cursor at a bit of an element, or past the last element.  A
  size of at least \<open>2 ^ 31 - 32\<close> bits would overflow the \<open>int\<close> in \<open>BITS_TO_ELEMS\<close>.
\<close>

definition nbits :: "bitlist_t \<Rightarrow> nat" where
  "nbits bl = unat (max_bits (state bl))"

definition nelems :: "bitlist_t \<Rightarrow> nat" where
  "nelems bl = unat (max_elems (state bl))"

definition bitlist_wf :: "bitlist_t \<Rightarrow> bool" where
  "bitlist_wf bl \<longleftrightarrow>
     nbits bl < 2147483616 \<and> nelems bl = (nbits bl + 31) div 32 \<and>
     nelems bl \<le> length (bits bl) \<and>
     unat (last_elem (state bl)) \<le> nelems bl \<and> unat (last_bit (state bl)) < 32"

definition raw_bit :: "u32 list \<Rightarrow> nat \<Rightarrow> bool" where
  "raw_bit bs k \<longleftrightarrow> bit (bs ! (k div 32)) (k mod 32)"

definition bitlist_members :: "bitlist_t \<Rightarrow> nat set" where
  "bitlist_members bl = {k. k < nbits bl \<and> raw_bit (bits bl) k}"

definition bitlist_pos :: "bitlist_t \<Rightarrow> i32 \<Rightarrow> nat option" where
  "bitlist_pos bl i =
     (let k = unat (i - base_bit (state bl)) in if k < nbits bl then Some k else None)"

lemmas bitlist_abs_defs = bitlist_members_def bitlist_pos_def nbits_def nelems_def

lemma validbit_iff:
  "bitlist_wf bl \<Longrightarrow> bitlist_validbit bl i \<longleftrightarrow> unat i < nbits bl"
  by (auto simp: bitlist_validbit_def bitlist_wf_def nbits_def sint_neg_iff32 word_le_nat_alt
      not_le)

lemma unat_BIT_TO_ELEM: "unat i < 2147483648 \<Longrightarrow> unat (BIT_TO_ELEM i) = unat i div 32"
  by (simp only: BIT_TO_ELEM_def unat_sdiv32)

lemma BIT_TO_BIT_mod: "BIT_TO_BIT i = unat i mod 32"
proof -
  have "i AND 31 = take_bit 5 i" by (simp only: take_bit_eq_mask mask_eq_exp_minus_1) simp
  then have "unat (i AND 31) = take_bit 5 (unat i)" by (simp only: unsigned_take_bit_eq)
  then show ?thesis by (simp add: BIT_TO_BIT_def take_bit_eq_mod)
qed

lemma bit_MASK: "m < 32 \<Longrightarrow> bit (BIT_TO_MASK i) m \<longleftrightarrow> m = unat i mod 32"
  by (auto simp: BIT_TO_MASK_def BIT_TO_BIT_mod bit_exp_iff)

lemma test_MASK: "(e AND BIT_TO_MASK i \<noteq> 0) \<longleftrightarrow> bit e (unat i mod 32)"
  
  using bit_eq_iff [of "e AND BIT_TO_MASK i" 0]
  by (auto simp: bit_and_iff BIT_TO_MASK_def BIT_TO_BIT_mod bit_exp_iff)

lemma BITS_TO_ELEMS_unat:
  assumes "unat n < 2147483616"
  shows "unat (BITS_TO_ELEMS n) = (unat n + 31) div 32"
proof -
  have "unat (n + 31) = unat n + 31" using assms by (simp add: unat_word_ariths)
  with assms show ?thesis unfolding BITS_TO_ELEMS_def by (subst unat_sdiv32) simp_all
qed


lemma wf_elem_in_bits:
  "bitlist_wf bl \<Longrightarrow> k < nbits bl \<Longrightarrow> k div 32 < nelems bl \<and> k div 32 < length (bits bl)"
  unfolding bitlist_wf_def by auto

lemma div_mod_32_eq: "(j::nat) div 32 = k div 32 \<Longrightarrow> j mod 32 = k mod 32 \<Longrightarrow> j = k"
  by (metis div_mod_decomp)

lemma raw_bit_upd:
  assumes "k div 32 < length bs"
    and "\<And>m. m < 32 \<Longrightarrow> bit e m \<longleftrightarrow> (if m = k mod 32 then v else bit (bs ! (k div 32)) m)"
  shows "raw_bit (bs[k div 32 := e]) j \<longleftrightarrow> (if j = k then v else raw_bit bs j)"
  using assms div_mod_32_eq [of j k] by (auto simp: raw_bit_def nth_list_update)

lemma wf_upd_bits:
  "bitlist_wf bl \<Longrightarrow> length bs = length (bits bl) \<Longrightarrow> bitlist_wf (bl\<lparr>bits := bs\<rparr>)"
  by (simp add: bitlist_wf_def nbits_def nelems_def)

lemma bitlist_pos_cong: "state s' = state s \<Longrightarrow> bitlist_pos s' = bitlist_pos s"
  by (simp add: bitlist_pos_def nbits_def fun_eq_iff)

text \<open>One element overwritten: what a single-bit update does to the invariant and to the set.\<close>

lemma upd_elem:
  assumes wf: "bitlist_wf s" and k: "k < nbits s"
    and e: "\<And>m. m < 32 \<Longrightarrow>
      bit e m \<longleftrightarrow> (if m = k mod 32 then v else bit (bits s ! (k div 32)) m)"
  defines "s' \<equiv> s\<lparr>bits := (bits s)[k div 32 := e]\<rparr>"
  shows "bitlist_wf s'" "bitlist_pos s' = bitlist_pos s"
    "bitlist_members s' = (if v then insert k (bitlist_members s) else bitlist_members s - {k})"
proof -
  have inb: "k div 32 < length (bits s)" using wf_elem_in_bits [OF wf k] by simp
  show "bitlist_wf s'" unfolding s'_def by (rule wf_upd_bits [OF wf]) simp
  show "bitlist_pos s' = bitlist_pos s" by (rule bitlist_pos_cong) (simp add: s'_def)
  have "raw_bit (bits s') j \<longleftrightarrow> (if j = k then v else raw_bit (bits s) j)" for j
    unfolding s'_def using raw_bit_upd [OF inb e] by simp
  then show "bitlist_members s' = (if v then insert k (bitlist_members s)
      else bitlist_members s - {k})"
    using k by (auto simp: bitlist_members_def nbits_def s'_def)
qed

interpretation bl: bit_set bitlist_wf bitlist_pos bitlist_members bitlist_set bitlist_clear
  bitlist_test
proof unfold_locales
  fix s i
  assume wf: "bitlist_wf s"
  define k where "k = unat (i - base_bit (state s))"
  let ?m = "BIT_TO_MASK (i - base_bit (state s))"
  have valid: "bitlist_validbit s (i - base_bit (state s)) \<longleftrightarrow> k < nbits s"
    by (simp add: k_def validbit_iff [OF wf])
  have pos: "bitlist_pos s i = (if k < nbits s then Some k else None)"
    by (simp add: bitlist_pos_def k_def Let_def)
  have elem: "unat (BIT_TO_ELEM (i - base_bit (state s))) = k div 32"
    and inb: "k div 32 < length (bits s)" if "k < nbits s"
    using that wf wf_elem_in_bits [OF wf that]
    by (simp_all add: k_def unat_BIT_TO_ELEM bitlist_wf_def)
  have mask: "bit ?m m \<longleftrightarrow> m = k mod 32" if "m < 32" for m
    using that by (simp add: bit_MASK k_def)
  note defs = Let_def valid elem inb arr_simps
  show "bitlist_test s i =
      Some (case bitlist_pos s i of None \<Rightarrow> False | Some k \<Rightarrow> k \<in> bitlist_members s)"
    by (simp add: bitlist_test_def defs pos test_MASK bitlist_members_def raw_bit_def)
      (simp add: k_def)
  show "\<exists>s'. bitlist_set s i = Some s' \<and> bitlist_wf s' \<and> bitlist_pos s' = bitlist_pos s \<and>
      bitlist_members s' = bitlist_members s \<union> {k. bitlist_pos s i = Some k}"
  proof (cases "k < nbits s")
    case True
    have "bitlist_set s i =
        Some (s\<lparr>bits := (bits s)[k div 32 := bits s ! (k div 32) OR ?m]\<rparr>)"
      using True by (simp add: bitlist_set_def defs)
    with upd_elem [OF wf True, of "bits s ! (k div 32) OR ?m" True] True show ?thesis
      by (simp add: bit_or_iff mask pos)
  qed (simp add: bitlist_set_def defs wf pos)
  show "\<exists>s'. bitlist_clear s i = Some s' \<and> bitlist_wf s' \<and> bitlist_pos s' = bitlist_pos s \<and>
      bitlist_members s' = bitlist_members s - {k. bitlist_pos s i = Some k}"
  proof (cases "k < nbits s")
    case True
    have "bitlist_clear s i =
        Some (s\<lparr>bits := (bits s)[k div 32 := bits s ! (k div 32) AND NOT ?m]\<rparr>)"
      using True by (simp add: bitlist_clear_def defs)
    with upd_elem [OF wf True, of "bits s ! (k div 32) AND NOT ?m" False] True show ?thesis
      by (simp add: bit_and_iff bit_not_iff mask pos)
  qed (simp add: bitlist_clear_def defs wf pos)
qed


section \<open>The find cursor returns the next member\<close>

lemma scan_bit: "b < 32 \<Longrightarrow> (e AND push_bit b 1 \<noteq> 0) \<longleftrightarrow> bit (e :: u32) b"
  using bit_eq_iff [of "e AND push_bit b 1" 0] by (auto simp: bit_and_iff bit_exp_iff)

lemma scan_elem_spec:
  "case scan_elem e b of
     Some b' \<Rightarrow> b \<le> b' \<and> b' < 32 \<and> bit e b' \<and> (\<forall>m. b \<le> m \<and> m < b' \<longrightarrow> \<not> bit e m)
   | None \<Rightarrow> \<forall>m. b \<le> m \<and> m < 32 \<longrightarrow> \<not> bit e m"
proof (induction e b rule: scan_elem.induct)
  case (1 e b)
  show ?case
  proof (cases "b < 32 \<and> \<not> bit e b")
    case True
    have step: "b \<le> m \<longleftrightarrow> m = b \<or> Suc b \<le> m" for m by auto
    from True have "scan_elem e b = scan_elem e (Suc b)"
      by (subst scan_elem.simps) (simp add: scan_bit BITS_PER_ELEM_def del: push_bit_of_1)
    with 1 True show ?thesis
      by (auto simp: step BITS_PER_ELEM_def scan_bit simp del: push_bit_of_1
          split: option.splits)
  next
    case False
    then show ?thesis
      by (subst scan_elem.simps) (auto simp: scan_bit BITS_PER_ELEM_def simp del: push_bit_of_1)
  qed
qed

lemma raw_bit_split: "m < 32 \<Longrightarrow> raw_bit bs (32 * e + m) \<longleftrightarrow> bit (bs ! e) m"
  by (simp add: raw_bit_def)

text \<open>The stopping point of the loop: the first raw bit at or after the start, or none.\<close>

definition stops_at :: "u32 list \<Rightarrow> nat \<Rightarrow> nat \<Rightarrow> nat \<times> nat \<Rightarrow> bool" where
  "stops_at bs n p r \<longleftrightarrow>
     (fst r < n \<and> snd r < 32 \<and> p \<le> 32 * fst r + snd r \<and> raw_bit bs (32 * fst r + snd r) \<and>
        (\<forall>k. p \<le> k \<and> k < 32 * fst r + snd r \<longrightarrow> \<not> raw_bit bs k)) \<or>
     (fst r = n \<and> snd r = 0 \<and> (\<forall>k. p \<le> k \<and> k < 32 * n \<longrightarrow> \<not> raw_bit bs k))"

lemma stops_at_next:
  assumes "stops_at bs n (32 * Suc e) r" "b \<le> 32"
    and "\<And>m. b \<le> m \<Longrightarrow> m < 32 \<Longrightarrow> \<not> bit (bs ! e) m"
  shows "stops_at bs n (32 * e + b) r"
proof -
  have no: "\<not> raw_bit bs k" if "32 * e + b \<le> k" "k < 32 * Suc e" for k
    using assms(3) [of "k - 32 * e"] raw_bit_split [of "k - 32 * e" bs e] that by simp
  have split: "32 * e + b \<le> k \<longleftrightarrow> 32 * e + b \<le> k \<and> k < 32 * Suc e \<or> 32 * Suc e \<le> k" for k
    using assms(2) by arith
  from assms(1) show ?thesis
    unfolding stops_at_def
  proof (elim disjE conjE)
    assume "fst r < n" "snd r < 32" "32 * Suc e \<le> 32 * fst r + snd r"
      "raw_bit bs (32 * fst r + snd r)"
      "\<forall>k. 32 * Suc e \<le> k \<and> k < 32 * fst r + snd r \<longrightarrow> \<not> raw_bit bs k"
    with no assms(2) split show "fst r < n \<and> snd r < 32 \<and> 32 * e + b \<le> 32 * fst r + snd r \<and>
        raw_bit bs (32 * fst r + snd r) \<and>
        (\<forall>k. 32 * e + b \<le> k \<and> k < 32 * fst r + snd r \<longrightarrow> \<not> raw_bit bs k) \<or>
        fst r = n \<and> snd r = 0 \<and> (\<forall>k. 32 * e + b \<le> k \<and> k < 32 * n \<longrightarrow> \<not> raw_bit bs k)"
      by (intro disjI1) (metis le_trans add_le_cancel_left mult_Suc_right add.commute)
  next
    assume "fst r = n" "snd r = 0" "\<forall>k. 32 * Suc e \<le> k \<and> k < 32 * n \<longrightarrow> \<not> raw_bit bs k"
    with no split show "fst r < n \<and> snd r < 32 \<and> 32 * e + b \<le> 32 * fst r + snd r \<and>
        raw_bit bs (32 * fst r + snd r) \<and>
        (\<forall>k. 32 * e + b \<le> k \<and> k < 32 * fst r + snd r \<longrightarrow> \<not> raw_bit bs k) \<or>
        fst r = n \<and> snd r = 0 \<and> (\<forall>k. 32 * e + b \<le> k \<and> k < 32 * n \<longrightarrow> \<not> raw_bit bs k)"
      by blast
  qed
qed

lemma find_loop_spec:
  assumes "n \<le> length bs"
  shows "e < n \<Longrightarrow> b \<le> 32 \<Longrightarrow> \<exists>r. find_loop bs n e b = Some r \<and> stops_at bs n (32 * e + b) r"
    and "b = 0 \<Longrightarrow> \<exists>r. find_loop bs n n b = Some r \<and> stops_at bs n (32 * n) r"
proof -
  have at_end: "\<exists>r. find_loop bs n n 0 = Some r \<and> stops_at bs n (32 * n) r"
    by (subst find_loop.simps) (auto simp: stops_at_def)
  then show "b = 0 \<Longrightarrow> \<exists>r. find_loop bs n n b = Some r \<and> stops_at bs n (32 * n) r" by simp
  show "e < n \<Longrightarrow> b \<le> 32 \<Longrightarrow> \<exists>r. find_loop bs n e b = Some r \<and> stops_at bs n (32 * e + b) r"
  proof (induction "n - e" arbitrary: e b)
    case 0
    then show ?case by simp
  next
    case (Suc d)
    have "\<exists>r. find_loop bs n (Suc e) 0 = Some r \<and> stops_at bs n (32 * Suc e) r"
    proof (cases "Suc e < n")
      case True
      with Suc.hyps(1) [of "Suc e" 0] Suc.hyps(2) show ?thesis by simp
    next
      case False
      with Suc.prems have "Suc e = n" by simp
      with at_end show ?thesis by simp
    qed
    then obtain r where r: "find_loop bs n (Suc e) 0 = Some r" "stops_at bs n (32 * Suc e) r"
      by blast
    have rd: "rd bs e = Some (bs ! e)" using Suc.prems assms by (simp add: rd_in)
    note unfold = find_loop.simps [of bs n e b] rd r(1) BITS_PER_ELEM_def
    show ?case
    proof (cases "scan_elem (bs ! e) b")
      case None
      then have "\<And>m. b \<le> m \<Longrightarrow> m < 32 \<Longrightarrow> \<not> bit (bs ! e) m"
        using scan_elem_spec [where e = "bs ! e" and b = b] by simp
      then have "stops_at bs n (32 * e + b) r" by (rule stops_at_next [OF r(2) Suc.prems(2)])
      moreover have "find_loop bs n e b = Some r"
        using None Suc.prems by (subst find_loop.simps) (simp add: rd r(1) BITS_PER_ELEM_def)
      ultimately show ?thesis by blast
    next
      case (Some b')
      then have b': "b \<le> b'" "b' < 32" "bit (bs ! e) b'"
        "\<And>m. b \<le> m \<Longrightarrow> m < b' \<Longrightarrow> \<not> bit (bs ! e) m"
        using scan_elem_spec [where e = "bs ! e" and b = b] by simp_all
      then have "bs ! e \<noteq> 0" by auto
      then have "find_loop bs n e b = Some (e, b')" using Some Suc.prems b' by (simp add: unfold)
      moreover have "\<not> raw_bit bs k" if "32 * e + b \<le> k" "k < 32 * e + b'" for k
        using b'(2) b'(4) [of "k - 32 * e"] raw_bit_split [of "k - 32 * e" bs e] that by simp
      ultimately show ?thesis
        using b' Suc.prems by (auto simp: stops_at_def raw_bit_split)
    qed
  qed
qed


definition exhausted :: "bitlist_t \<Rightarrow> bool" where
  "exhausted bl \<longleftrightarrow> nelems bl \<le> unat (last_elem (state bl))"

definition at_cursor :: "bitlist_t \<Rightarrow> nat \<Rightarrow> bool" where
  "at_cursor bl k \<longleftrightarrow> k < 32 * nelems bl \<and>
     unat (last_elem (state bl)) = k div 32 \<and> unat (last_bit (state bl)) = k mod 32"

definition same_list :: "bitlist_t \<Rightarrow> bitlist_t \<Rightarrow> bool" where
  "same_list bl bl' \<longleftrightarrow> bits bl' = bits bl \<and> max_bits (state bl') = max_bits (state bl) \<and>
     max_elems (state bl') = max_elems (state bl) \<and> base_bit (state bl') = base_bit (state bl)"

definition from_pos :: "bitlist_t \<Rightarrow> nat \<Rightarrow> nat set" where
  "from_pos bl p = {k \<in> bitlist_members bl. p \<le> k}"

text \<open>The number the code uses for a member: its position plus the base.\<close>

definition bitno :: "bitlist_t \<Rightarrow> nat \<Rightarrow> i32" where
  "bitno bl k = of_nat k + base_bit (state bl)"

lemma same_list_refl [simp]: "same_list bl bl"
  by (simp add: same_list_def)

lemma same_list_trans: "same_list a b \<Longrightarrow> same_list b c \<Longrightarrow> same_list a c"
  by (simp add: same_list_def)

lemma same_list_simps:
  assumes "same_list bl bl'"
  shows "nbits bl' = nbits bl" "nelems bl' = nelems bl" "bitlist_members bl' = bitlist_members bl"
    "bitlist_pos bl' = bitlist_pos bl" "from_pos bl' = from_pos bl" "bitno bl' = bitno bl"
  using assms
  by (auto simp: same_list_def nbits_def nelems_def bitlist_members_def bitlist_pos_def
      from_pos_def bitno_def fun_eq_iff)

lemma finite_members [simp]: "finite (bitlist_members bl)"
  by (simp add: bitlist_members_def)

lemma finite_from_pos [simp]: "finite (from_pos bl p)"
  by (simp add: from_pos_def)

lemma wf_bound: "bitlist_wf bl \<Longrightarrow> nbits bl \<le> 32 * nelems bl \<and> 32 * nelems bl < 2147483648"
  unfolding bitlist_wf_def by linarith

definition start_at :: "bitlist_t \<Rightarrow> bool \<Rightarrow> nat \<Rightarrow> bool" where
  "start_at bl first p \<longleftrightarrow>
     (if first then p = 0
      else \<exists>k. at_cursor bl k \<and> p = Suc k)"

text \<open>The outcome of a search from position \<open>p\<close>.\<close>

definition finds_from :: "bitlist_t \<Rightarrow> nat \<Rightarrow> i32 \<times> bitlist_t \<Rightarrow> bool" where
  "finds_from bl p r \<longleftrightarrow> same_list bl (snd r) \<and> bitlist_wf (snd r) \<and>
     (if from_pos bl p = {} then fst r = BITLIST_INVALID \<and> exhausted (snd r)
      else fst r = bitno bl (Min (from_pos bl p)) \<and> at_cursor (snd r) (Min (from_pos bl p)))"

lemma find_bit_from:
  assumes wf: "bitlist_wf bl" and st: "start_at bl first p"
  shows "\<exists>r. bitlist_find_bit bl first = Some r \<and> finds_from bl p r"
proof -
  let ?n = "nelems bl"
  obtain e0 b0 where eb: "(if first then (0, 0)
      else (unat (last_elem (state bl)), unat (last_bit (state bl) + 1))) = (e0, b0)"
    by fastforce
  have start: "p = 32 * e0 + b0 \<and> b0 \<le> 32 \<and> (e0 < ?n \<or> e0 = ?n \<and> b0 = 0)"
    and noexit: "\<not> (\<not> first \<and> max_elems (state bl) \<le> last_elem (state bl))"
  proof -
    consider "first" "p = 0" | k where "\<not> first" "at_cursor bl k" "p = Suc k"
      using st by (auto simp: start_at_def split: if_splits)
    then have "(p = 32 * e0 + b0 \<and> b0 \<le> 32 \<and> (e0 < ?n \<or> e0 = ?n \<and> b0 = 0)) \<and>
        \<not> (\<not> first \<and> max_elems (state bl) \<le> last_elem (state bl))"
    proof cases
      case 1
      with eb show ?thesis by auto
    next
      case 2
      have k: "k < 32 * ?n" "unat (last_elem (state bl)) = k div 32"
        "unat (last_bit (state bl)) = k mod 32"
        using 2(2) by (simp_all add: at_cursor_def)
      have "unat (last_bit (state bl) + 1) = Suc (k mod 32)"
      proof -
        have "unat (last_bit (state bl)) < 32" using k(3) by simp
        then show ?thesis by (simp add: unat_word_ariths k(3))
      qed
      then have "e0 = k div 32" "b0 = Suc (k mod 32)" using eb 2(1) k(2) by simp_all
      moreover have "k div 32 < ?n" using k(1) by auto
      moreover have "Suc (k mod 32) \<le> 32" by (simp add: Suc_leI)
      ultimately show ?thesis using 2 k(2)
        by (auto simp: word_le_nat_alt nelems_def)
    qed
    then show "p = 32 * e0 + b0 \<and> b0 \<le> 32 \<and> (e0 < ?n \<or> e0 = ?n \<and> b0 = 0)"
      and "\<not> (\<not> first \<and> max_elems (state bl) \<le> last_elem (state bl))" by blast+
  qed
  have len: "?n \<le> length (bits bl)" using wf by (simp add: bitlist_wf_def)
  obtain e b where loop: "find_loop (bits bl) ?n e0 b0 = Some (e, b)"
    and stop: "stops_at (bits bl) ?n p (e, b)"
    using find_loop_spec [OF len] start by (metis add.right_neutral surj_pair)
  note bnd = wf_bound [OF wf]
  have memb: "k \<in> from_pos bl p \<longleftrightarrow> p \<le> k \<and> k < nbits bl \<and> raw_bit (bits bl) k" for k
    by (auto simp: from_pos_def bitlist_members_def)
  let ?st = "(state bl)\<lparr>last_elem := of_nat e, last_bit := of_nat b\<rparr>"
  have eval: "bitlist_find_bit bl first =
      (if ?n \<le> e then Some (BITLIST_INVALID, bl\<lparr>state := ?st\<rparr>)
       else if max_bits (state bl) \<le> (of_nat (e * BITS_PER_ELEM + b) :: u32)
       then Some (BITLIST_INVALID, bl\<lparr>state := ?st\<lparr>last_elem := max_elems (state bl)\<rparr>\<rparr>)
       else Some (of_nat (e * BITS_PER_ELEM + b) + base_bit (state bl), bl\<lparr>state := ?st\<rparr>))"
    using noexit loop eb
    by (cases "first"; clarsimp simp: bitlist_find_bit_def Let_def nelems_def)
  have small: "unat (of_nat e :: u32) = e" "unat (of_nat b :: u32) = b"
    "unat (of_nat (e * BITS_PER_ELEM + b) :: u32) = 32 * e + b"
    using stop bnd
    by (subst unat_of_nat32; auto simp: stops_at_def BITS_PER_ELEM_def)+
  consider (out) "e = ?n" "b = 0" "\<forall>k. p \<le> k \<and> k < 32 * ?n \<longrightarrow> \<not> raw_bit (bits bl) k"
    | (hit) "e < ?n" "b < 32" "p \<le> 32 * e + b" "raw_bit (bits bl) (32 * e + b)"
      "\<forall>k. p \<le> k \<and> k < 32 * e + b \<longrightarrow> \<not> raw_bit (bits bl) k"
    using stop by (auto simp: stops_at_def)
  then show ?thesis
  proof cases
    case out
    then have "from_pos bl p = {}" using memb bnd by fastforce
    with out wf small show ?thesis
      by (simp add: eval finds_from_def same_list_def bitlist_wf_def exhausted_def nbits_def
          nelems_def)
  next
    case hit
    show ?thesis
    proof (cases "32 * e + b < nbits bl")
      case True
      then have "Min (from_pos bl p) = 32 * e + b"
        using hit by (intro Min_eqI) (auto simp: memb intro: leI)
      moreover have "from_pos bl p \<noteq> {}" using True hit memb by blast
      moreover have "bitlist_find_bit bl first = Some (bitno bl (32 * e + b), bl\<lparr>state := ?st\<rparr>)"
        using True hit small by (simp add: eval bitno_def word_le_nat_alt nbits_def
            BITS_PER_ELEM_def mult.commute)
      moreover have "at_cursor (bl\<lparr>state := ?st\<rparr>) (32 * e + b)"
        using hit small by (simp add: at_cursor_def nelems_def)
      ultimately show ?thesis using wf hit small
        by (simp add: finds_from_def same_list_def bitlist_wf_def nbits_def nelems_def)
    next
      case False
      then have "from_pos bl p = {}"
        using hit memb by (metis (no_types, lifting) equals0I leI le_less_trans less_le_trans)
      with False hit wf small show ?thesis
        by (simp add: eval finds_from_def same_list_def bitlist_wf_def exhausted_def nbits_def
            nelems_def word_le_nat_alt)
    qed
  qed
qed

lemma find_bit_exhausted:
  "exhausted bl \<Longrightarrow> bitlist_find_bit bl False = Some (BITLIST_INVALID, bl)"
  by (simp add: bitlist_find_bit_def exhausted_def nelems_def word_le_nat_alt Let_def)

section \<open>Properties of single bits and of the search\<close>

lemma finds_from_cong: "same_list bl bl1 \<Longrightarrow> finds_from bl1 p r \<Longrightarrow> finds_from bl p r"
proof -
  assume s: "same_list bl bl1" and f: "finds_from bl1 p r"
  have "from_pos bl1 p = from_pos bl p" "bitno bl1 = bitno bl" using same_list_simps [OF s] by simp_all
  with f same_list_trans [OF s] show ?thesis unfolding finds_from_def by (cases "from_pos bl p = {}") auto
qed

definition small_list :: bitlist_t where
  "small_list = \<lparr>state = \<lparr>max_elems = 2, max_bits = 40, base_bit = 5, last_elem = 0, last_bit = 0\<rparr>,
     bits = [5, 128]\<rparr>"

lemma small_list_wf: "bitlist_wf small_list"
  unfolding bitlist_wf_def nbits_def nelems_def small_list_def by simp

text \<open>
  single bits.  On a well-formed list, \<open>bitlist_set\<close> and \<open>bitlist_clear\<close> stay inside the
  elements and keep it well formed; after them \<open>bitlist_test\<close> answers true for exactly the
  bits it did before, plus or minus the named one; a bit outside the range changes nothing
  and tests false.
\<close>

theorem bitlist_set_clear_test:
  assumes "bitlist_wf bl"
  shows "\<exists>s c. bitlist_set bl i = Some s \<and> bitlist_clear bl i = Some c \<and>
    bitlist_wf s \<and> bitlist_wf c \<and>
    bitlist_test s j =
      Some (bitlist_pos bl j \<noteq> None \<and>
        (bitlist_pos bl i = bitlist_pos bl j \<or> bitlist_test bl j = Some True)) \<and>
    bitlist_test c j = Some (bitlist_pos bl i \<noteq> bitlist_pos bl j \<and> bitlist_test bl j = Some True)"
proof -
  obtain s where s: "bitlist_set bl i = Some s" "bitlist_wf s" using bl.ins_spec [OF assms] by blast
  obtain c where c: "bitlist_clear bl i = Some c" "bitlist_wf c" using bl.del_spec [OF assms] by blast
  show ?thesis
    using s c bl.tst_ins [OF assms s(1)] bl.tst_del [OF assms c(1)] by blast
qed

theorem bitlist_set_clear_test_witness:
  "\<exists>s. bitlist_set small_list 9 = Some s \<and> bitlist_test s 9 = Some True"
  using bitlist_set_clear_test [OF small_list_wf, of 9 9]
  by (auto simp: bitlist_pos_def nbits_def small_list_def)

text \<open>
  C3: the search.  \<open>bitlist_find_first\<close> returns the least member, \<open>bitlist_find_next\<close> the
  least one past the cursor and \<open>bitlist_find_after\<close> the least one past its argument, or
  \<open>BITLIST_INVALID\<close> when there is none; each leaves the cursor at the member it returned
  and the list itself unchanged.
\<close>

theorem bitlist_find_least:
  assumes wf: "bitlist_wf bl"
  shows "(\<exists>r. bitlist_find_first bl = Some r \<and> finds_from bl 0 r) \<and>
    (\<forall>k. at_cursor bl k \<longrightarrow> (\<exists>r. bitlist_find_next bl = Some r \<and> finds_from bl (Suc k) r)) \<and>
    (\<forall>i k. bitlist_pos bl i = Some k \<longrightarrow>
      (\<exists>r. bitlist_find_after bl i = Some r \<and> finds_from bl (Suc k) r))"
proof (intro conjI allI impI)
  show "\<exists>r. bitlist_find_first bl = Some r \<and> finds_from bl 0 r"
    unfolding bitlist_find_first_def by (rule find_bit_from [OF wf]) (simp add: start_at_def)
next
  fix k assume "at_cursor bl k"
  then show "\<exists>r. bitlist_find_next bl = Some r \<and> finds_from bl (Suc k) r"
    unfolding bitlist_find_next_def by (intro find_bit_from [OF wf]) (simp add: start_at_def)
next
  fix i k assume pos: "bitlist_pos bl i = Some k"
  let ?i = "i - base_bit (state bl)"
  let ?bl = "bl\<lparr>state := state bl\<lparr>last_elem := BIT_TO_ELEM ?i, last_bit := of_nat (BIT_TO_BIT ?i)\<rparr>\<rparr>"
  have k: "unat ?i = k" "k < nbits bl"
    using pos by (auto simp: bitlist_pos_def Let_def split: if_splits)
  have el: "k div 32 < nelems bl" using wf_elem_in_bits [OF wf k(2)] by simp
  have small: "k < 2147483616" using k(2) wf by (simp add: bitlist_wf_def)
  have cur: "unat (BIT_TO_ELEM ?i) = k div 32" "unat (of_nat (BIT_TO_BIT ?i) :: u32) = k mod 32"
    using small k(1) by (simp_all add: unat_BIT_TO_ELEM BIT_TO_BIT_mod unat_of_nat32)
  have "bitlist_wf ?bl" using wf cur el by (simp add: bitlist_wf_def nbits_def nelems_def)
  moreover have "start_at ?bl False (Suc k)"
    using cur el by (auto simp: start_at_def at_cursor_def nelems_def)
  ultimately obtain r where "bitlist_find_bit ?bl False = Some r" "finds_from ?bl (Suc k) r"
    using find_bit_from by blast
  moreover have same: "same_list bl ?bl" by (simp add: same_list_def)
  ultimately have "finds_from bl (Suc k) r" by (simp add: finds_from_cong)
  moreover have "bitlist_find_after bl i = Some r"
    using k \<open>bitlist_find_bit ?bl False = Some r\<close>
    by (simp add: bitlist_find_after_def Let_def validbit_iff [OF wf])
  ultimately show "\<exists>r. bitlist_find_after bl i = Some r \<and> finds_from bl (Suc k) r" by blast
qed

theorem bitlist_find_least_witness:
  "\<exists>r. bitlist_find_after small_list 5 = Some r \<and> finds_from small_list 1 r"
proof -
  have "bitlist_pos small_list 5 = Some 0"
    by (simp add: bitlist_pos_def nbits_def small_list_def)
  then show ?thesis using bitlist_find_least [OF small_list_wf] by auto
qed

end
