(* ===== verification/BitlistOps.thy ===== *)
theory BitlistOps
  imports Bitlist
begin

text \<open>
  The operations of \<open>src/bitlist.c\<close> on whole bit lists: filling and clearing, copying,
  the set operations (over a heap, since their arguments may be the same object), the
  queries and the allocation of one list or of a vector of lists.
\<close>

section \<open>Two lists: copies and set operations over a heap\<close>

type_synonym bl_heap = "nat \<rightharpoonup> bitlist_t"

definition bitlist_copy :: "bl_heap \<Rightarrow> nat \<Rightarrow> nat \<Rightarrow> bl_heap option" where
  "bitlist_copy h from to =
     do { f \<leftarrow> h from; t \<leftarrow> h to;
          bs \<leftarrow> blit (bits f) 0 (bits t) 0 (unat (max_elems (state f)));
          Some (h(to \<mapsto> \<lparr>state = state f, bits = bs\<rparr>)) }"

definition bitlist_copy_from_position ::
  "bl_heap \<Rightarrow> nat \<Rightarrow> nat \<Rightarrow> i32 \<Rightarrow> i32 \<Rightarrow> bl_heap option" where
  "bitlist_copy_from_position h from to i n =
     do { f \<leftarrow> h from; t \<leftarrow> h to;
          if \<not> bitlist_validrange f i n then Some h
          else if \<not> bitlist_validbit t (n - 1) then Some h
          else if (i - base_bit (state f)) mod 32 \<noteq> 0 then Some h
          else if sint n smod 32 \<noteq> 0 then Some h
          else do { bs \<leftarrow> blit (bits f) (unat ((i - base_bit (state f)) div 32)) (bits t) 0
                             (unat (BITS_TO_ELEMS n));
                    Some (h(to \<mapsto> t\<lparr>bits := bs\<rparr>)) } }"

definition bitlist_copy_in_position ::
  "bl_heap \<Rightarrow> nat \<Rightarrow> nat \<Rightarrow> i32 \<Rightarrow> i32 \<Rightarrow> bl_heap option" where
  "bitlist_copy_in_position h from to i n =
     do { f \<leftarrow> h from; t \<leftarrow> h to;
          if \<not> bitlist_validbit f (n - 1) then Some h
          else if \<not> bitlist_validrange t i n then Some h
          else if (i - base_bit (state f)) mod 32 \<noteq> 0 then Some h
          else if sint n smod 32 \<noteq> 0 then Some h
          else do { bs \<leftarrow> blit (bits f) 0 (bits t) (unat ((i - base_bit (state t)) div 32))
                             (unat (BITS_TO_ELEMS n));
                    Some (h(to \<mapsto> t\<lparr>bits := bs\<rparr>)) } }"

text \<open>
  \<open>for (i = max_elems; i > 0; --i) *cp++ = f(*ap++, *bp++)\<close>: element by element, each
  read before the write at the same index, so the arrays may be the same object.
\<close>

fun elem_loop :: "bl_heap \<Rightarrow> (u32 \<Rightarrow> u32 \<Rightarrow> u32) \<Rightarrow> nat \<Rightarrow> nat \<Rightarrow> nat \<Rightarrow> nat \<Rightarrow> nat \<Rightarrow>
    bl_heap option" where
  "elem_loop h f a b c j 0 = Some h"
| "elem_loop h f a b c j (Suc i) =
     do { A \<leftarrow> h a; B \<leftarrow> h b; x \<leftarrow> rd (bits A) j; y \<leftarrow> rd (bits B) j;
          C \<leftarrow> h c; bs \<leftarrow> wr (bits C) j (f x y);
          elem_loop (h(c \<mapsto> C\<lparr>bits := bs\<rparr>)) f a b c (Suc j) i }"

definition bitlist_op :: "(u32 \<Rightarrow> u32 \<Rightarrow> u32) \<Rightarrow> bl_heap \<Rightarrow> nat \<Rightarrow> nat \<Rightarrow> nat \<Rightarrow> bl_heap option" where
  "bitlist_op f h a b c =
     do { A \<leftarrow> h a; C \<leftarrow> h c;
          let h' = (if c \<noteq> a \<and> c \<noteq> b then h(c \<mapsto> C\<lparr>state := state A\<rparr>) else h);
          elem_loop h' f a b c 0 (nat (sint (max_elems (state A)))) }"

definition bitlist_or :: "bl_heap \<Rightarrow> nat \<Rightarrow> nat \<Rightarrow> nat \<Rightarrow> bl_heap option" where
  "bitlist_or = bitlist_op (\<lambda>x y. x OR y)"

definition bitlist_and :: "bl_heap \<Rightarrow> nat \<Rightarrow> nat \<Rightarrow> nat \<Rightarrow> bl_heap option" where
  "bitlist_and = bitlist_op (\<lambda>x y. x AND y)"

definition bitlist_and_not :: "bl_heap \<Rightarrow> nat \<Rightarrow> nat \<Rightarrow> nat \<Rightarrow> bl_heap option" where
  "bitlist_and_not = bitlist_op (\<lambda>x y. x AND NOT y)"

definition bitlist_xor :: "bl_heap \<Rightarrow> nat \<Rightarrow> nat \<Rightarrow> nat \<Rightarrow> bl_heap option" where
  "bitlist_xor = bitlist_op (\<lambda>x y. x XOR y)"

text \<open>\<open>bitlist_not(a, b)\<close> is the same loop with \<open>a\<close> as its only operand.\<close>

definition bitlist_not :: "bl_heap \<Rightarrow> nat \<Rightarrow> nat \<Rightarrow> bl_heap option" where
  "bitlist_not h a b = bitlist_op (\<lambda>x y. NOT x) h a a b"

section \<open>Queries\<close>

fun equal_loop :: "u32 list \<Rightarrow> u32 list \<Rightarrow> nat \<Rightarrow> nat \<Rightarrow> bool option" where
  "equal_loop ap bp j 0 = Some True"
| "equal_loop ap bp j (Suc i) =
     do { x \<leftarrow> rd ap j; y \<leftarrow> rd bp j;
          if x \<noteq> y then Some False else equal_loop ap bp (Suc j) i }"

definition bitlist_equal :: "bitlist_t \<Rightarrow> bitlist_t \<Rightarrow> bool option" where
  "bitlist_equal a b = equal_loop (bits a) (bits b) 0 (nat (sint (max_elems (state a))))"

definition count_elem :: "u32 \<Rightarrow> nat" where
  "count_elem e = length (filter (\<lambda>b. e AND push_bit b 1 \<noteq> 0) [0..<BITS_PER_ELEM])"

fun count_loop :: "u32 list \<Rightarrow> nat \<Rightarrow> nat \<Rightarrow> nat \<Rightarrow> nat option" where
  "count_loop bs elem 0 count = Some count"
| "count_loop bs elem (Suc n) count =
     do { e \<leftarrow> rd bs elem; count_loop bs (Suc elem) n (count + count_elem e) }"

definition bitlist_count :: "bitlist_t \<Rightarrow> nat option" where
  "bitlist_count bl = count_loop (bits bl) 0 (unat (max_elems (state bl))) 0"

definition bitlist_size :: "bitlist_t \<Rightarrow> i32" where
  "bitlist_size bl = max_bits (state bl)"

fun anybit_loop :: "u32 list \<Rightarrow> nat \<Rightarrow> nat \<Rightarrow> bool option" where
  "anybit_loop bs elem 0 = Some False"
| "anybit_loop bs elem (Suc n) =
     do { e \<leftarrow> rd bs elem; if e \<noteq> 0 then Some True else anybit_loop bs (Suc elem) n }"

definition bitlist_anybit_set :: "bitlist_t \<Rightarrow> bool option" where
  "bitlist_anybit_set bl = anybit_loop (bits bl) 0 (unat (max_elems (state bl)))"

section \<open>Allocation\<close>

text \<open>
  \<open>malloc\<close> is a parameter: for a request in bytes, the words it hands out, or \<open>None\<close> for
  \<open>NULL\<close>.  The header takes \<open>sizeof(bitlist_state_t)\<close>, five words.  A result
  \<open>Some None\<close> is the code's return of \<open>NULL\<close>.
\<close>

definition header_words :: nat where
  "header_words = 5"

definition bitlist_bytes :: "i32 \<Rightarrow> u64" where
  "bitlist_bytes n = 20 + scast (BITS_TO_ELEMS n) * 4"

definition bitlist_of_words :: "u32 list \<Rightarrow> bitlist_t" where
  "bitlist_of_words ws =
     \<lparr>state = \<lparr>max_elems = ws ! 0, max_bits = ws ! 1, base_bit = ws ! 2, last_elem = ws ! 3,
               last_bit = ws ! 4\<rparr>, bits = drop header_words ws\<rparr>"

definition words_of_bitlist :: "bitlist_t \<Rightarrow> u32 list" where
  "words_of_bitlist bl =
     [max_elems (state bl), max_bits (state bl), base_bit (state bl), last_elem (state bl),
      last_bit (state bl)] @ bits bl"

definition bitlist_alloc :: "(u64 \<Rightarrow> u32 list option) \<Rightarrow> i32 \<Rightarrow> i32 \<Rightarrow> bitlist_t option option" where
  "bitlist_alloc malloc n base =
     (case malloc (bitlist_bytes n) of
        None \<Rightarrow> Some None
      | Some ws \<Rightarrow>
          if length ws < header_words then None
          else map_option Some (bitlist_clearall (bitlist_of_words ws) n base))"

definition bitlist_clone ::
  "(u64 \<Rightarrow> u32 list option) \<Rightarrow> bitlist_t \<Rightarrow> bool \<Rightarrow> bitlist_t option option" where
  "bitlist_clone malloc bl copy_bitlist =
     do { r \<leftarrow> bitlist_alloc malloc (max_bits (state bl)) (base_bit (state bl));
          case r of
            None \<Rightarrow> Some None
          | Some new_bl \<Rightarrow>
              if copy_bitlist
              then do { h \<leftarrow> bitlist_copy [0 \<mapsto> bl, 1 \<mapsto> new_bl] 0 1; Some (h 1) }
              else Some (Some new_bl) }"

text \<open>
  A vector of lists is one block of memory.  \<open>bl + i\<close> steps by \<open>sizeof(bitlist_t)\<close>, which
  counts the header and not the elements (\<open>bits[0]\<close>), so cell \<open>i\<close> is at word \<open>5 * i\<close>.
\<close>

definition clearall_at :: "i32 \<Rightarrow> i32 \<Rightarrow> u32 list \<Rightarrow> nat \<Rightarrow> u32 list option" where
  "clearall_at n base ws i =
     (let off = header_words * i
      in if length ws < off + header_words then None
         else do { bl \<leftarrow> bitlist_clearall (bitlist_of_words (drop off ws)) n base;
                   Some (take off ws @ words_of_bitlist bl) })"

definition bitlist_alloc_vect ::
  "(u64 \<Rightarrow> u32 list option) \<Rightarrow> i32 \<Rightarrow> i32 \<Rightarrow> i32 \<Rightarrow> u32 list option option" where
  "bitlist_alloc_vect malloc n base cells =
     (case malloc (scast cells * bitlist_bytes n) of
        None \<Rightarrow> Some None
      | Some ws \<Rightarrow> map_option Some (foldM (clearall_at n base) [0..<nat (sint cells)] ws))"

definition clear_state_at :: "u32 list \<Rightarrow> nat \<Rightarrow> u32 list option" where
  "clear_state_at ws i = fill ws (header_words * i) header_words 0"

text \<open>What is left in the block when it goes to \<open>free\<close>.\<close>

definition bitlist_free_vect :: "u32 list \<Rightarrow> i32 \<Rightarrow> u32 list option" where
  "bitlist_free_vect ws cells = foldM clear_state_at [0..<nat (sint cells)] ws"

definition bitlist_free :: "u32 list \<Rightarrow> u32 list option" where
  "bitlist_free ws = clear_state_at ws 0"


section \<open>Filling and clearing\<close>

text \<open>No bit is set past the last one in use: what \<open>bitlist_count\<close> and \<open>bitlist_equal\<close> rely on.\<close>

definition clean :: "bitlist_t \<Rightarrow> bool" where
  "clean bl \<longleftrightarrow> (\<forall>k. nbits bl \<le> k \<and> k < 32 * nelems bl \<longrightarrow> \<not> raw_bit (bits bl) k)"

lemma div32_less: "k < 32 * n \<longleftrightarrow> (k::nat) div 32 < n"
  by (auto simp: div_less_iff_less_mult mult.commute)

lemma raw_bit_fill:
  assumes "i + n \<le> length bs" "k < 32 * length bs"
  shows "raw_bit (take i bs @ replicate n v @ drop (i + n) bs) k \<longleftrightarrow>
    (if 32 * i \<le> k \<and> k < 32 * (i + n) then bit v (k mod 32) else raw_bit bs k)"
proof -
  have "k div 32 < length bs" using assms(2) by (simp add: div32_less)
  moreover have "32 * i \<le> k \<longleftrightarrow> i \<le> k div 32" by (simp add: less_eq_div_iff_mult_less_eq mult.commute)
  ultimately show ?thesis
    unfolding raw_bit_def using assms by (subst nth_filled) (auto simp: div32_less)
qed

lemma bit_minus_one: "m < 32 \<Longrightarrow> bit (- 1 :: u32) m"
  by simp

lemma bit_MASK_minus_1: "m < 32 \<Longrightarrow> bit (BIT_TO_MASK n - 1) m \<longleftrightarrow> m < unat n mod 32"
proof -
  assume "m < 32"
  have "BIT_TO_MASK n - 1 = mask (unat n mod 32)"
    by (simp add: BIT_TO_MASK_def BIT_TO_BIT_mod mask_eq_exp_minus_1)
  with \<open>m < 32\<close> show ?thesis by (simp add: bit_mask_iff)
qed

lemma clearall_spec:
  assumes n: "unat n < 2147483616" and len: "(unat n + 31) div 32 \<le> length (bits bl)"
  shows "\<exists>bl'. bitlist_clearall bl n base = Some bl' \<and> bitlist_wf bl' \<and> clean bl' \<and>
    nbits bl' = unat n \<and> base_bit (state bl') = base \<and> bitlist_members bl' = {} \<and>
    length (bits bl') = length (bits bl)"
proof -
  let ?e = "(unat n + 31) div 32"
  let ?bs = "replicate ?e 0 @ drop ?e (bits bl)"
  let ?bl = "\<lparr>state = \<lparr>max_elems = BITS_TO_ELEMS n, max_bits = n, base_bit = base,
    last_elem = 0, last_bit = 0\<rparr>, bits = ?bs\<rparr>"
  have eval: "bitlist_clearall bl n base = Some ?bl"
    using assms by (simp add: bitlist_clearall_def BITS_TO_ELEMS_unat fill_in)
  have raw: "\<not> raw_bit ?bs k" if "k < 32 * ?e" for k
    using raw_bit_fill [of 0 ?e "bits bl" k 0] that len by simp
  have "unat n \<le> 32 * ?e" by linarith
  then have "bitlist_members ?bl = {}"
    unfolding bitlist_members_def nbits_def using raw by fastforce
  moreover have "clean ?bl" unfolding clean_def nelems_def
    using n raw by (simp add: BITS_TO_ELEMS_unat)
  moreover have "bitlist_wf ?bl"
    using assms by (simp add: bitlist_wf_def nbits_def nelems_def BITS_TO_ELEMS_unat)
  ultimately show ?thesis using eval len by (simp add: nbits_def)
qed

lemma ceil_div32: "(n::nat) mod 32 \<noteq> 0 \<Longrightarrow> (n + 31) div 32 = Suc (n div 32)"
proof -
  assume "n mod 32 \<noteq> 0"
  then have "32 \<le> n mod 32 + 31" "n mod 32 + 31 < 64" using mod_less_divisor [of 32 n] by linarith+
  then have "(n mod 32 + 31) div 32 = 1" by (intro div_nat_eqI) simp_all
  moreover have "n + 31 = 32 * (n div 32) + (n mod 32 + 31)" by simp
  then have "(n + 31) div 32 = n div 32 + (n mod 32 + 31) div 32"
    by (metis div_mult_self4 zero_neq_numeral)
  ultimately show ?thesis by simp
qed

lemma setall_spec:
  assumes n: "unat n < 2147483616" and len: "(unat n + 31) div 32 \<le> length (bits bl)"
  shows "\<exists>bl'. bitlist_setall bl n base = Some bl' \<and> bitlist_wf bl' \<and> clean bl' \<and>
    nbits bl' = unat n \<and> base_bit (state bl') = base \<and> bitlist_members bl' = {..<unat n} \<and>
    length (bits bl') = length (bits bl)"
proof -
  let ?e = "(unat n + 31) div 32"
  let ?m = "unat n mod 32"
  let ?fs = "replicate ?e (- 1) @ drop ?e (bits bl)"
  define bs where "bs = (if ?m \<noteq> 0
    then ?fs[?e - 1 := (- 1) AND (BIT_TO_MASK n - 1)] else ?fs)"
  let ?bl = "\<lparr>state = \<lparr>max_elems = BITS_TO_ELEMS n, max_bits = n, base_bit = base,
    last_elem = 0, last_bit = 0\<rparr>, bits = bs\<rparr>"
  have lfs: "length ?fs = length (bits bl)" using len by simp
  have pos: "0 < ?e \<and> ?e - 1 = unat n div 32 \<and> unat (BITS_TO_ELEMS n - 1) = ?e - 1" if "?m \<noteq> 0"
  proof -
    have "0 < unat n" using that by (metis gr0I mod_0)
    then have "1 \<le> ?e" by linarith
    moreover have "?e - 1 = unat n div 32" using ceil_div32 [OF that] by simp
    moreover have "unat (BITS_TO_ELEMS n - 1) = ?e - 1"
    proof -
      have "(1 :: u32) \<le> BITS_TO_ELEMS n"
        unfolding word_le_nat_alt BITS_TO_ELEMS_unat [OF n] using \<open>1 \<le> ?e\<close> by simp
      then have "unat (BITS_TO_ELEMS n - 1) = unat (BITS_TO_ELEMS n) - unat (1 :: u32)"
        by (rule unat_sub)
      then show ?thesis by (simp only: BITS_TO_ELEMS_unat [OF n] unat_1)
    qed
    ultimately show ?thesis by simp
  qed
  have eval: "bitlist_setall bl n base = Some ?bl"
  proof (cases "?m = 0")
    case True
    then show ?thesis
      using assms by (simp add: bitlist_setall_def BITS_TO_ELEMS_unat fill_in BIT_TO_BIT_mod bs_def)
  next
    case False
    with pos have p: "0 < ?e" "unat (BITS_TO_ELEMS n - 1) = ?e - 1" by simp_all
    then have "?fs ! (?e - 1) = - 1" by (simp add: nth_append)
    with False p assms lfs show ?thesis
      by (simp add: bitlist_setall_def BITS_TO_ELEMS_unat fill_in BIT_TO_BIT_mod bs_def rd_in wr_in)
  qed
  have raw: "raw_bit bs k \<longleftrightarrow> k < unat n" if "k < 32 * ?e" for k
  proof -
    have kd: "k div 32 < ?e" using that by (simp add: div32_less)
    have fs: "?fs ! (k div 32) = - 1" using kd by (simp add: nth_append)
    show ?thesis
    proof (cases "?m = 0")
      case True
      then have "32 * ?e = unat n" by presburger
      with that fs True show ?thesis by (simp add: raw_bit_def bs_def)
    next
      case False
      with pos have p: "0 < ?e" "?e - 1 = unat n div 32" by simp_all
      show ?thesis
      proof (cases "k div 32 = ?e - 1")
        case True
        then have "bs ! (k div 32) = (- 1) AND (BIT_TO_MASK n - 1)"
          using False kd lfs len by (simp add: bs_def nth_list_update)
        then have "raw_bit bs k \<longleftrightarrow> k mod 32 < ?m"
          by (simp add: raw_bit_def bit_and_iff bit_MASK_minus_1)
        also have "\<dots> \<longleftrightarrow> k < unat n"
          using True p by (metis div_mult_mod_eq nat_add_left_cancel_less)
        finally show ?thesis .
      next
        case ne: False
        then have "bs ! (k div 32) = - 1" using fs False by (simp add: bs_def)
        moreover have "k < unat n"
        proof -
          have "k div 32 < unat n div 32" using ne kd p by linarith
          then show ?thesis by (metis div_le_mono leD leI)
        qed
        ultimately show ?thesis by (simp add: raw_bit_def)
      qed
    qed
  qed
  have le: "unat n \<le> 32 * ?e" by linarith
  then have "bitlist_members ?bl = {..<unat n}"
    unfolding bitlist_members_def nbits_def using raw by fastforce
  moreover have "clean ?bl" unfolding clean_def nelems_def nbits_def
    using n raw by (simp add: BITS_TO_ELEMS_unat not_less)
  moreover have "length bs = length (bits bl)" using lfs by (simp add: bs_def)
  moreover have "bitlist_wf ?bl"
    using assms \<open>length bs = _\<close> by (simp add: bitlist_wf_def nbits_def nelems_def BITS_TO_ELEMS_unat)
  ultimately show ?thesis using eval by (simp add: nbits_def)
qed


section \<open>Aligned ranges\<close>

lemma validrange_wf:
  assumes wf: "bitlist_wf bl" and v: "bitlist_validrange bl i n"
    and n: "0 \<le> sint n"
  shows "unat (i - base_bit (state bl)) < nbits bl"
    "unat (i - base_bit (state bl)) + unat n \<le> nbits bl"
proof -
  let ?k = "i - base_bit (state bl)"
  have lt: "nbits bl < 2147483616" using wf by (simp add: bitlist_wf_def)
  have k: "unat ?k < nbits bl"
    using v by (auto simp: bitlist_validrange_def validbit_iff [OF wf] split: if_splits)
  have eq: "i + n - base_bit (state bl) - 1 = ?k + n - 1" by (simp add: algebra_simps)
  have "unat (i + n - base_bit (state bl) - 1) < nbits bl"
    using v by (auto simp: bitlist_validrange_def validbit_iff [OF wf] split: if_splits)
  then have e: "unat (?k + n - 1) < nbits bl" by (simp only: eq)
  show "unat ?k < nbits bl" by (rule k)
  have nn: "unat n < 2147483648" using n sint_neg_iff32 [of n] by linarith
  have s: "unat (?k + n) = unat ?k + unat n"
    using k lt nn by (subst unat_word_ariths) simp
  show "unat ?k + unat n \<le> nbits bl"
  proof (cases "?k + n = 0")
    case True
    then show ?thesis using s by simp
  next
    case False
    then have "1 \<le> unat (?k + n)" using unat_eq_zero by (metis One_nat_def Suc_leI gr0I)
    then have "unat (?k + n - 1) = unat (?k + n) - 1"
      by (subst unat_sub) (simp_all add: word_le_nat_alt)
    with e s \<open>1 \<le> _\<close> show ?thesis by linarith
  qed
qed

lemma unat_div32: "unat ((x :: u32) div 32) = unat x div 32"
  by (simp add: unat_div)

lemma unat_mod32: "((x :: u32) mod 32 = 0) \<longleftrightarrow> unat x mod 32 = 0"
proof -
  have "unat (x mod 32) = unat x mod 32" by (simp add: unat_mod)
  then show ?thesis by (metis unat_eq_zero)
qed

lemma fill_contiguous_spec:
  fixes i n :: i32
  assumes wf: "bitlist_wf bl" and n: "0 \<le> sint n"
  defines "k \<equiv> unat (i - base_bit (state bl))"
  shows "\<exists>bl'. fill_contiguous bl i n (if v then - 1 else 0) = Some bl' \<and> bitlist_wf bl' \<and>
    state bl' = state bl \<and> length (bits bl') = length (bits bl) \<and>
    (if bitlist_validrange bl i n \<and> k mod 32 = 0 \<and> unat n mod 32 = 0
     then \<forall>j. j < 32 * length (bits bl) \<longrightarrow>
       raw_bit (bits bl') j = (if k \<le> j \<and> j < k + unat n then v else raw_bit (bits bl) j)
     else bl' = bl)"
proof (cases "bitlist_validrange bl i n \<and> k mod 32 = 0 \<and> unat n mod 32 = 0")
  case True
  then have v: "bitlist_validrange bl i n" and k: "k mod 32 = 0" and nm: "unat n mod 32 = 0"
    by simp_all
  have b: "k < nbits bl" "k + unat n \<le> nbits bl"
    unfolding k_def by (rule validrange_wf [OF wf v n])+
  have nb: "nbits bl < 2147483616" using wf by (simp add: bitlist_wf_def)
  have el: "unat (BITS_TO_ELEMS n) = unat n div 32"
    using b nb nm by (subst BITS_TO_ELEMS_unat) auto
  have kd: "32 * (k div 32) = k" and nd: "32 * (unat n div 32) = unat n" using k nm by auto
  have room: "k div 32 + unat n div 32 \<le> length (bits bl)"
  proof -
    have "32 * (k div 32 + unat n div 32) \<le> 32 * nelems bl"
      using kd nd b wf_bound [OF wf] by (simp add: distrib_left)
    then show ?thesis using wf by (simp add: bitlist_wf_def)
  qed
  let ?v = "if v then - 1 else 0 :: u32"
  let ?bs = "take (k div 32) (bits bl) @ replicate (unat n div 32) ?v @
    drop (k div 32 + unat n div 32) (bits bl)"
  have "sint n smod 32 = 0" using nm b nb by (subst smod32_eq_0_iff) auto
  then have "fill_contiguous bl i n ?v = Some (bl\<lparr>bits := ?bs\<rparr>)"
    using v k room by (simp add: fill_contiguous_def unat_div32 unat_mod32 el fill_in flip: k_def)
  moreover have "raw_bit ?bs j = (if k \<le> j \<and> j < k + unat n then v else raw_bit (bits bl) j)"
    if "j < 32 * length (bits bl)" for j
    using raw_bit_fill [OF room that, of ?v] kd nd by (simp add: distrib_left)
  ultimately show ?thesis using True room wf_upd_bits [OF wf, of ?bs] by simp
next
  case False
  have "unat n < 2147483648" using n sint_neg_iff32 [of n] by linarith
  then show ?thesis
    using False wf by (auto simp: fill_contiguous_def smod32_eq_0_iff unat_mod32 k_def)
qed

section \<open>The set operations, whatever aliases\<close>

lemma elem_loop_spec:
  "h a = Some A \<Longrightarrow> h b = Some B \<Longrightarrow> h c = Some C \<Longrightarrow> j + i \<le> length (bits A) \<Longrightarrow>
   j + i \<le> length (bits B) \<Longrightarrow> j + i \<le> length (bits C) \<Longrightarrow>
   \<exists>bs. elem_loop h f a b c j i = Some (h(c \<mapsto> C\<lparr>bits := bs\<rparr>)) \<and> length bs = length (bits C) \<and>
     (\<forall>k < length bs. bs ! k = (if j \<le> k \<and> k < j + i then f (bits A ! k) (bits B ! k)
                               else bits C ! k))"
proof (induction i arbitrary: h A B C j)
  case 0
  then show ?case by (intro exI [of _ "bits C"]) (auto simp: fun_upd_idem)
next
  case (Suc i)
  let ?x = "f (bits A ! j) (bits B ! j)"
  let ?C = "C\<lparr>bits := (bits C)[j := ?x]\<rparr>"
  let ?A = "if a = c then ?C else A" and ?B = "if b = c then ?C else B"
  let ?h = "h(c \<mapsto> ?C)"
  have "?h a = Some ?A" "?h b = Some ?B" "?h c = Some ?C" using Suc.prems by auto
  moreover have "Suc j + i \<le> length (bits ?A)" "Suc j + i \<le> length (bits ?B)"
    "Suc j + i \<le> length (bits ?C)" using Suc.prems by auto
  ultimately obtain bs where
    bs: "elem_loop ?h f a b c (Suc j) i = Some (?h(c \<mapsto> ?C\<lparr>bits := bs\<rparr>))"
      "length bs = length (bits ?C)"
      "\<forall>k < length bs. bs ! k = (if Suc j \<le> k \<and> k < Suc j + i
         then f (bits ?A ! k) (bits ?B ! k) else bits ?C ! k)"
    using Suc.IH [of ?h ?A ?B ?C "Suc j"] by blast
  have step: "elem_loop h f a b c j (Suc i) = elem_loop ?h f a b c (Suc j) i"
    using Suc.prems by (simp add: rd_in wr_in)
  have "bs ! k = (if j \<le> k \<and> k < j + Suc i then f (bits A ! k) (bits B ! k) else bits C ! k)"
    if "k < length bs" for k
  proof -
    have "bits ?A ! k = bits A ! k" "bits ?B ! k = bits B ! k" if "Suc j \<le> k"
      using that Suc.prems by auto
    then show ?thesis using bs(2,3) that by (cases "k = j") (auto simp: nth_list_update)
  qed
  moreover have "elem_loop h f a b c j (Suc i) = Some (h(c \<mapsto> C\<lparr>bits := bs\<rparr>))"
    using step bs(1) by simp
  moreover have "length bs = length (bits C)" using bs(2) by simp
  ultimately show ?case by blast
qed

text \<open>
  What \<open>bitlist_or\<close> and its siblings need: the operands have the same size, and the result
  is one of them or has room for as many elements.
\<close>

definition op_ready :: "bl_heap \<Rightarrow> nat \<Rightarrow> nat \<Rightarrow> nat \<Rightarrow> bool" where
  "op_ready h a b c \<longleftrightarrow>
     (case (h a, h b, h c) of
        (Some A, Some B, Some C) \<Rightarrow> bitlist_wf A \<and> bitlist_wf B \<and> nbits A = nbits B \<and>
          nelems A \<le> length (bits C)
      | _ \<Rightarrow> False)"

text \<open>
  The outcome: only the result changes, it is well formed, has the operands' size and its
  set is the given function of theirs, also when all three are the same object.
\<close>

definition op_result ::
  "(nat set \<Rightarrow> nat set \<Rightarrow> nat set) \<Rightarrow> bl_heap \<Rightarrow> nat \<Rightarrow> nat \<Rightarrow> nat \<Rightarrow> bl_heap option \<Rightarrow> bool" where
  "op_result g h a b c r \<longleftrightarrow>
     (\<exists>A B C'. h a = Some A \<and> h b = Some B \<and> r = Some (h(c \<mapsto> C')) \<and> bitlist_wf C' \<and>
        nbits C' = nbits A \<and> bitlist_members C' = g (bitlist_members A) (bitlist_members B))"

lemma wf_nelems_eq: "bitlist_wf A \<Longrightarrow> bitlist_wf B \<Longrightarrow> nbits A = nbits B \<Longrightarrow> nelems A = nelems B"
  by (simp add: bitlist_wf_def)

lemma bitlist_op_raw:
  assumes "op_ready h a b c"
  shows "\<exists>A B C'. h a = Some A \<and> h b = Some B \<and> bitlist_op f h a b c = Some (h(c \<mapsto> C')) \<and>
    bitlist_wf C' \<and> nbits C' = nbits A \<and> nelems C' = nelems A \<and>
    (\<forall>e < nelems A. bits C' ! e = f (bits A ! e) (bits B ! e))"
proof -
  obtain A B C where h: "h a = Some A" "h b = Some B" "h c = Some C"
    and wf: "bitlist_wf A" "bitlist_wf B" and n: "nbits A = nbits B"
    and room: "nelems A \<le> length (bits C)"
    using assms by (auto simp: op_ready_def split: option.splits)
  have ne: "nelems A = nelems B" by (rule wf_nelems_eq [OF wf n])
  let ?n = "nelems A"
  have sn: "nat (sint (max_elems (state A))) = ?n"
  proof -
    have "?n < 2147483648" using wf_bound [OF wf(1)] by linarith
    then show ?thesis using sint_eq_unat32 [of "max_elems (state A)"] by (simp add: nelems_def)
  qed
  let ?C = "if c \<noteq> a \<and> c \<noteq> b then C\<lparr>state := state A\<rparr> else C"
  let ?h = "h(c \<mapsto> ?C)"
  have hh: "(if c \<noteq> a \<and> c \<noteq> b then h(c \<mapsto> C\<lparr>state := state A\<rparr>) else h) = ?h"
    using h(3) by (auto simp: fun_upd_idem)
  have "?h a = Some A" "?h b = Some B" "?h c = Some ?C" using h by auto
  moreover have "0 + ?n \<le> length (bits A)" "0 + ?n \<le> length (bits B)" "0 + ?n \<le> length (bits ?C)"
    using wf ne room by (auto simp: bitlist_wf_def)
  ultimately obtain bs where
    bs: "elem_loop ?h f a b c 0 ?n = Some (?h(c \<mapsto> ?C\<lparr>bits := bs\<rparr>))" "length bs = length (bits ?C)"
      "\<forall>k < length bs. bs ! k = (if 0 \<le> k \<and> k < 0 + ?n then f (bits A ! k) (bits B ! k)
                               else bits ?C ! k)"
    using elem_loop_spec [of ?h a A b B c ?C 0 ?n f] by blast
  let ?C' = "?C\<lparr>bits := bs\<rparr>"
  have "bitlist_op f h a b c = elem_loop ?h f a b c 0 ?n"
    by (simp only: bitlist_op_def Let_def h Option.bind.bind_lunit hh sn)
  then have "bitlist_op f h a b c = Some (h(c \<mapsto> ?C'))" using bs(1) by simp
  moreover have "bitlist_wf ?C' \<and> nbits ?C' = nbits A \<and> nelems ?C' = ?n"
    using wf n ne h room bs(2) by (auto simp: bitlist_wf_def nbits_def nelems_def)
  moreover have "\<forall>e < ?n. bits ?C' ! e = f (bits A ! e) (bits B ! e)"
    using bs(2,3) room by auto
  ultimately show ?thesis using h by blast
qed

lemma bitlist_op_members:
  assumes "op_ready h a b c"
    and f: "\<And>x y m. m < 32 \<Longrightarrow> bit (f x y) m \<longleftrightarrow> F (bit x m) (bit y m)"
    and g: "\<And>X Y n. {k. k < n \<and> F (X k) (Y k)} = g {k. k < n \<and> X k} {k. k < n \<and> Y k}"
  shows "op_result g h a b c (bitlist_op f h a b c)"
proof -
  obtain A B C' where r: "h a = Some A" "h b = Some B" "bitlist_op f h a b c = Some (h(c \<mapsto> C'))"
    "bitlist_wf C'" "nbits C' = nbits A" "nelems C' = nelems A"
    "\<forall>e < nelems A. bits C' ! e = f (bits A ! e) (bits B ! e)"
    using bitlist_op_raw [OF assms(1), of f] by blast
  have "nbits B = nbits A" using assms(1) r(1,2) by (auto simp: op_ready_def split: option.splits)
  have "raw_bit (bits C') k \<longleftrightarrow> F (raw_bit (bits A) k) (raw_bit (bits B) k)"
    if "k < nbits A" for k
    using r(5-7) wf_elem_in_bits [OF r(4), of k] that by (simp add: raw_bit_def f)
  then have "bitlist_members C' = {k. k < nbits A \<and> F (raw_bit (bits A) k) (raw_bit (bits B) k)}"
    using r(5) by (auto simp: bitlist_members_def)
  also have "\<dots> = g (bitlist_members A) (bitlist_members B)"
    using g [of "nbits A" "raw_bit (bits A)" "raw_bit (bits B)"] \<open>nbits B = nbits A\<close>
    by (simp add: bitlist_members_def)
  finally show ?thesis using r unfolding op_result_def by blast
qed

section \<open>Counting and comparing\<close>

definition raw_set :: "bitlist_t \<Rightarrow> nat set" where
  "raw_set bl = {k. k < 32 * nelems bl \<and> raw_bit (bits bl) k}"

lemma clean_raw_set: "bitlist_wf bl \<Longrightarrow> clean bl \<longleftrightarrow> raw_set bl = bitlist_members bl"
proof -
  assume "bitlist_wf bl"
  then have "nbits bl \<le> 32 * nelems bl" using wf_bound by blast
  define X where "X = {k. nbits bl \<le> k \<and> k < 32 * nelems bl \<and> raw_bit (bits bl) k}"
  have "k < 32 * nelems bl \<longleftrightarrow> k < nbits bl \<or> nbits bl \<le> k \<and> k < 32 * nelems bl" for k
    using \<open>nbits bl \<le> _\<close> by linarith
  then have "raw_set bl = bitlist_members bl \<union> X"
    unfolding raw_set_def bitlist_members_def X_def by blast
  moreover have "bitlist_members bl \<inter> X = {}"
    unfolding bitlist_members_def X_def by fastforce
  moreover have "clean bl \<longleftrightarrow> X = {}" unfolding clean_def X_def by blast
  ultimately show ?thesis by blast
qed

lemma count_elem_card: "count_elem e = card {m. m < 32 \<and> bit e m}"
proof -
  have "count_elem e = card (set (filter (\<lambda>b. e AND push_bit b 1 \<noteq> 0) [0..<BITS_PER_ELEM]))"
    unfolding count_elem_def by (subst distinct_card) simp_all
  also have "set (filter (\<lambda>b. e AND push_bit b 1 \<noteq> 0) [0..<BITS_PER_ELEM]) = {m. m < 32 \<and> bit e m}"
    using scan_bit [of _ e] by (simp only: set_filter set_upt BITS_PER_ELEM_def) auto
  finally show ?thesis .
qed

lemma count_loop_spec:
  "e + n \<le> length bs \<Longrightarrow> count_loop bs e n c =
     Some (c + card {k. 32 * e \<le> k \<and> k < 32 * (e + n) \<and> raw_bit bs k})"
proof (induction n arbitrary: e c)
  case 0
  have "{k. 32 * e \<le> k \<and> k < 32 * (e + 0) \<and> raw_bit bs k} = {}" by auto
  then show ?case by (simp only: count_loop.simps card.empty add_0_right)
next
  case (Suc n)
  let ?S = "\<lambda>i j. {k. i \<le> k \<and> k < j \<and> raw_bit bs k}"
  have img: "?S (32 * e) (32 * Suc e) = (\<lambda>m. 32 * e + m) ` {m. m < 32 \<and> bit (bs ! e) m}"
  proof (intro equalityI subsetI)
    fix k assume k: "k \<in> ?S (32 * e) (32 * Suc e)"
    then have d: "k div 32 = e" by (intro div_nat_eqI) auto
    then have "k = 32 * e + k mod 32" using mult_div_mod_eq [of 32 k] by simp
    moreover have "bit (bs ! e) (k mod 32)" using k d by (simp add: raw_bit_def)
    ultimately show "k \<in> (\<lambda>m. 32 * e + m) ` {m. m < 32 \<and> bit (bs ! e) m}" by auto
  next
    fix k assume "k \<in> (\<lambda>m. 32 * e + m) ` {m. m < 32 \<and> bit (bs ! e) m}"
    then show "k \<in> ?S (32 * e) (32 * Suc e)" by (auto simp: raw_bit_split)
  qed
  have "card (?S (32 * e) (32 * Suc e)) = count_elem (bs ! e)"
    unfolding img count_elem_card by (rule card_image) (auto intro: inj_onI)
  moreover have "?S (32 * e) (32 * (e + Suc n)) =
      ?S (32 * e) (32 * Suc e) \<union> ?S (32 * Suc e) (32 * (Suc e + n))" by auto
  moreover have "card (?S (32 * e) (32 * Suc e) \<union> ?S (32 * Suc e) (32 * (Suc e + n))) =
      card (?S (32 * e) (32 * Suc e)) + card (?S (32 * Suc e) (32 * (Suc e + n)))"
    by (rule card_Un_disjoint) auto
  ultimately show ?case
    using Suc.IH [of "Suc e" "c + count_elem (bs ! e)"] Suc.prems by (simp add: rd_in)
qed

lemma bitlist_count_raw:
  assumes "bitlist_wf bl" shows "bitlist_count bl = Some (card (raw_set bl))"
proof -
  have "{k. 32 * 0 \<le> k \<and> k < 32 * (0 + nelems bl) \<and> raw_bit (bits bl) k} = raw_set bl"
    by (auto simp: raw_set_def)
  then show ?thesis
    using assms count_loop_spec [of 0 "nelems bl" "bits bl" 0]
    by (simp add: bitlist_count_def bitlist_wf_def flip: nelems_def)
qed

lemma anybit_loop_spec:
  "e + n \<le> length bs \<Longrightarrow>
   anybit_loop bs e n = Some (\<exists>j. e \<le> j \<and> j < e + n \<and> bs ! j \<noteq> 0)"
proof (induction n arbitrary: e)
  case (Suc n)
  have "(\<exists>j. e \<le> j \<and> j < e + Suc n \<and> bs ! j \<noteq> 0) \<longleftrightarrow>
      bs ! e \<noteq> 0 \<or> (\<exists>j. Suc e \<le> j \<and> j < Suc e + n \<and> bs ! j \<noteq> 0)"
    by (metis Suc_leD add_Suc_right add_Suc_shift le_antisym le_refl less_add_Suc1 not_less_eq_eq)
  then show ?case using Suc by (simp add: rd_in)
qed simp

lemma equal_loop_spec:
  "j + n \<le> length ap \<Longrightarrow> j + n \<le> length bp \<Longrightarrow>
   equal_loop ap bp j n = Some (\<forall>i. j \<le> i \<and> i < j + n \<longrightarrow> ap ! i = bp ! i)"
proof (induction n arbitrary: j)
  case (Suc n)
  have "(\<forall>i. j \<le> i \<and> i < j + Suc n \<longrightarrow> ap ! i = bp ! i) \<longleftrightarrow>
      ap ! j = bp ! j \<and> (\<forall>i. Suc j \<le> i \<and> i < Suc j + n \<longrightarrow> ap ! i = bp ! i)"
    by (metis Suc_leD add_Suc_right add_Suc_shift le_antisym le_refl less_add_Suc1 not_less_eq_eq)
  then show ?case using Suc by (simp add: rd_in)
qed auto

lemma word32_eq_iff: "(x :: u32) = y \<longleftrightarrow> (\<forall>m < 32. bit x m = bit y m)"
  by (auto intro: bit_word_eqI)

lemma elems_eq_iff:
  "(\<forall>e < n. as ! e = bs ! e) \<longleftrightarrow> (\<forall>k < 32 * n. raw_bit as k = raw_bit bs k)"
proof
  assume "\<forall>e < n. as ! e = bs ! e"
  then show "\<forall>k < 32 * n. raw_bit as k = raw_bit bs k" by (simp add: raw_bit_def div32_less)
next
  assume r: "\<forall>k < 32 * n. raw_bit as k = raw_bit bs k"
  have "bit (as ! e) m = bit (bs ! e) m" if "e < n" "m < 32" for e m
    using r [rule_format, of "32 * e + m"] that by (simp add: raw_bit_split)
  then show "\<forall>e < n. as ! e = bs ! e" by (simp add: word32_eq_iff)
qed

lemma bitlist_equal_raw:
  assumes "bitlist_wf a" "bitlist_wf b" "nbits a = nbits b"
  shows "bitlist_equal a b = Some (raw_set a = raw_set b)"
proof -
  have n: "nelems a = nelems b" by (rule wf_nelems_eq [OF assms])
  have "nat (sint (max_elems (state a))) = nelems a"
    using wf_bound [OF assms(1)] sint_eq_unat32 [of "max_elems (state a)"] by (simp add: nelems_def)
  moreover have "nelems a \<le> length (bits a)" "nelems a \<le> length (bits b)"
    using assms n by (simp_all add: bitlist_wf_def)
  ultimately have "bitlist_equal a b = Some (\<forall>e < nelems a. bits a ! e = bits b ! e)"
    using equal_loop_spec [of 0 "nelems a" "bits a" "bits b"] by (simp add: bitlist_equal_def)
  also have "\<dots> = Some (raw_set a = raw_set b)"
    unfolding elems_eq_iff raw_set_def n by auto
  finally show ?thesis .
qed

lemma bitlist_anybit_raw:
  assumes "bitlist_wf bl" shows "bitlist_anybit_set bl = Some (raw_set bl \<noteq> {})"
proof -
  have "bitlist_anybit_set bl = Some (\<exists>j < nelems bl. bits bl ! j \<noteq> 0)"
    using assms anybit_loop_spec [of 0 "nelems bl" "bits bl"]
    by (simp add: bitlist_anybit_set_def bitlist_wf_def flip: nelems_def)
  also have "(\<exists>j < nelems bl. bits bl ! j \<noteq> 0) \<longleftrightarrow> \<not> (\<forall>j < nelems bl. bits bl ! j = replicate (nelems bl) 0 ! j)"
    by auto
  also have "\<dots> \<longleftrightarrow> raw_set bl \<noteq> {}"
    unfolding elems_eq_iff by (auto simp: raw_set_def raw_bit_def div32_less)
  finally show ?thesis .
qed

section \<open>Properties of whole-list operations\<close>

definition demo_list :: "u32 \<Rightarrow> u32 \<Rightarrow> bitlist_t" where
  "demo_list n e = \<lparr>state = \<lparr>max_elems = 1, max_bits = n, base_bit = 0, last_elem = 0, last_bit = 0\<rparr>,
     bits = [e]\<rparr>"

lemma demo_list_wf: "1 \<le> unat n \<Longrightarrow> unat n \<le> 32 \<Longrightarrow> bitlist_wf (demo_list n e)"
  unfolding bitlist_wf_def nbits_def nelems_def demo_list_def by auto

text \<open>
  C2: the set operations.  \<open>bitlist_or\<close>, \<open>bitlist_and\<close>, \<open>bitlist_and_not\<close> and
  \<open>bitlist_xor\<close> compute the union, intersection, difference and symmetric difference of
  two lists of the same size into the third, which may be either or both of them; they stay
  inside the allocated elements and change no other list.
\<close>

theorem bitlist_set_operations:
  assumes "op_ready h a b c"
  shows "op_result (\<union>) h a b c (bitlist_or h a b c) \<and>
    op_result (\<inter>) h a b c (bitlist_and h a b c) \<and>
    op_result (-) h a b c (bitlist_and_not h a b c) \<and>
    op_result (\<lambda>X Y. (X - Y) \<union> (Y - X)) h a b c (bitlist_xor h a b c)"
proof (intro conjI)
  show "op_result (\<union>) h a b c (bitlist_or h a b c)"
    unfolding bitlist_or_def
    by (rule bitlist_op_members [OF assms, where F = "(\<or>)"]) (auto simp: bit_or_iff)
  show "op_result (\<inter>) h a b c (bitlist_and h a b c)"
    unfolding bitlist_and_def
    by (rule bitlist_op_members [OF assms, where F = "(\<and>)"]) (auto simp: bit_and_iff)
  show "op_result (-) h a b c (bitlist_and_not h a b c)"
    unfolding bitlist_and_not_def
    by (rule bitlist_op_members [OF assms, where F = "\<lambda>p q. p \<and> \<not> q"])
      (auto simp: bit_and_iff bit_not_iff)
  show "op_result (\<lambda>X Y. (X - Y) \<union> (Y - X)) h a b c (bitlist_xor h a b c)"
    unfolding bitlist_xor_def
    by (rule bitlist_op_members [OF assms, where F = "(\<noteq>)"]) (auto simp: bit_xor_iff)
qed

lemma demo_op_ready: "op_ready [0 \<mapsto> demo_list 3 1, 1 \<mapsto> demo_list 3 6] 0 1 1"
  using demo_list_wf [of 3 1] demo_list_wf [of 3 6]
  by (simp add: op_ready_def nbits_def nelems_def demo_list_def)

theorem bitlist_set_operations_witness:
  "op_result (\<union>) [0 \<mapsto> demo_list 3 1, 1 \<mapsto> demo_list 3 6] 0 1 1
     (bitlist_or [0 \<mapsto> demo_list 3 1, 1 \<mapsto> demo_list 3 6] 0 1 1)"
  using bitlist_set_operations [OF demo_op_ready] by (rule conjunct1)

text \<open>
  the queries.  On a list with no bit set past the last one in use, \<open>bitlist_count\<close> is
  the number of members, \<open>bitlist_anybit_set\<close> tells whether there is one, and
  \<open>bitlist_equal\<close> of two lists of the same size compares their sets.
\<close>

theorem bitlist_queries:
  assumes "bitlist_wf a" "bitlist_wf b" "nbits a = nbits b" "clean a" "clean b"
  shows "bitlist_count a = Some (card (bitlist_members a)) \<and>
    bitlist_anybit_set a = Some (bitlist_members a \<noteq> {}) \<and>
    bitlist_equal a b = Some (bitlist_members a = bitlist_members b)"
  using assms clean_raw_set [of a] clean_raw_set [of b] bitlist_count_raw [of a]
    bitlist_anybit_raw [of a] bitlist_equal_raw [of a b] by simp

lemma demo_clean: "clean (demo_list 3 5)"
proof -
  have all: "\<forall>k \<in> {3..<32}. \<not> raw_bit (bits (demo_list 3 5)) k" by code_simp
  show ?thesis
    unfolding clean_def
  proof (intro allI impI)
    fix k assume "nbits (demo_list 3 5) \<le> k \<and> k < 32 * nelems (demo_list 3 5)"
    then have "k \<in> {3..<32}" by (simp add: nbits_def nelems_def demo_list_def)
    then show "\<not> raw_bit (bits (demo_list 3 5)) k" by (rule bspec [OF all])
  qed
qed

theorem bitlist_queries_witness:
  "bitlist_count (demo_list 3 5) = Some (card (bitlist_members (demo_list 3 5)))"
  using bitlist_queries [of "demo_list 3 5" "demo_list 3 5"] demo_list_wf [of 3 5] demo_clean
  by simp

text \<open>
  complement.  \<open>bitlist_not\<close> complements the set, but also sets the unused bits of the
  last element, and \<open>bitlist_count\<close> of the result counts them: it is the number of allocated
  bits minus the count of the operand, not the number of members.
\<close>

theorem bitlist_not_overcounts:
  assumes "h a = Some A" "bitlist_wf A" "h b = Some B" "nelems A \<le> length (bits B)"
  shows "\<exists>B'. bitlist_not h a b = Some (h(b \<mapsto> B')) \<and> bitlist_wf B' \<and> nbits B' = nbits A \<and>
    bitlist_members B' = {..<nbits A} - bitlist_members A \<and>
    bitlist_count B' = map_option (\<lambda>c. 32 * nelems A - c) (bitlist_count A)"
proof -
  have rdy: "op_ready h a a b" using assms by (simp add: op_ready_def)
  obtain B' where r: "bitlist_not h a b = Some (h(b \<mapsto> B'))" "bitlist_wf B'" "nbits B' = nbits A"
    "nelems B' = nelems A" "\<forall>e < nelems A. bits B' ! e = NOT (bits A ! e)"
    using bitlist_op_raw [OF rdy, of "\<lambda>x y. NOT x"] assms(1) by (auto simp: bitlist_not_def)
  have raw: "raw_bit (bits B') k \<longleftrightarrow> \<not> raw_bit (bits A) k" if "k < 32 * nelems A" for k
    using that r(5) by (simp add: raw_bit_def div32_less bit_not_iff)
  have "nbits A \<le> 32 * nelems A" using wf_bound [OF assms(2)] by simp
  then have "bitlist_members B' = {..<nbits A} - bitlist_members A"
    using r(3) raw by (auto simp: bitlist_members_def)
  moreover have "raw_set B' = {..<32 * nelems A} - raw_set A"
    using raw r(4) by (auto simp: raw_set_def)
  moreover have "raw_set A \<subseteq> {..<32 * nelems A}" by (auto simp: raw_set_def)
  ultimately have "bitlist_count B' = map_option (\<lambda>c. 32 * nelems A - c) (bitlist_count A)"
    using bitlist_count_raw [OF r(2)] bitlist_count_raw [OF assms(2)]
    by (simp add: card_Diff_subset finite_subset)
  with r(1-3) \<open>bitlist_members B' = _\<close> show ?thesis by blast
qed

theorem bitlist_not_overcounts_witness:
  "\<exists>B'. bitlist_not [0 \<mapsto> demo_list 3 5] 0 0 = Some ([0 \<mapsto> demo_list 3 5](0 \<mapsto> B')) \<and>
     bitlist_count B' = Some 30"
proof -
  have "nelems (demo_list 3 5) = 1" by (simp add: nelems_def demo_list_def)
  moreover have "bitlist_count (demo_list 3 5) = Some 2" by code_simp
  ultimately show ?thesis
    using bitlist_not_overcounts [of "[0 \<mapsto> demo_list 3 5]" 0 "demo_list 3 5" 0 "demo_list 3 5"]
      demo_list_wf [of 3 5]
    by (auto simp: demo_list_def)
qed

text \<open>
  aligned ranges.  On a range of whole elements inside the list,
  \<open>bitlist_set_contiguous\<close> adds exactly its positions and \<open>bitlist_clear_contiguous\<close>
  removes exactly them; on a range that is unaligned or outside, both leave the list as it is.
\<close>

theorem bitlist_contiguous:
  fixes i n :: i32
  assumes "bitlist_wf bl" "0 \<le> sint n"
  shows "\<exists>s c. bitlist_set_contiguous bl i n = Some s \<and> bitlist_clear_contiguous bl i n = Some c \<and>
    bitlist_wf s \<and> bitlist_wf c \<and>
    (let k = unat (i - base_bit (state bl)) in
     if bitlist_validrange bl i n \<and> k mod 32 = 0 \<and> unat n mod 32 = 0
     then bitlist_members s = bitlist_members bl \<union> {k..<k + unat n} \<and>
          bitlist_members c = bitlist_members bl - {k..<k + unat n}
     else s = bl \<and> c = bl)"
proof -
  let ?k = "unat (i - base_bit (state bl))"
  obtain s where s: "bitlist_set_contiguous bl i n = Some s" "bitlist_wf s" "state s = state bl"
    "length (bits s) = length (bits bl)"
    "if bitlist_validrange bl i n \<and> ?k mod 32 = 0 \<and> unat n mod 32 = 0
     then \<forall>j. j < 32 * length (bits bl) \<longrightarrow>
       raw_bit (bits s) j = (if ?k \<le> j \<and> j < ?k + unat n then True else raw_bit (bits bl) j)
     else s = bl"
    using fill_contiguous_spec [OF assms, of i True] by (auto simp: bitlist_set_contiguous_def)
  obtain c where c: "bitlist_clear_contiguous bl i n = Some c" "bitlist_wf c" "state c = state bl"
    "length (bits c) = length (bits bl)"
    "if bitlist_validrange bl i n \<and> ?k mod 32 = 0 \<and> unat n mod 32 = 0
     then \<forall>j. j < 32 * length (bits bl) \<longrightarrow>
       raw_bit (bits c) j = (if ?k \<le> j \<and> j < ?k + unat n then False else raw_bit (bits bl) j)
     else c = bl"
    using fill_contiguous_spec [OF assms, of i False] by (auto simp: bitlist_clear_contiguous_def)
  have room: "j < 32 * length (bits bl)" if "j < nbits bl" for j
    using wf_elem_in_bits [OF assms(1) that] by (simp add: div32_less)
  have "bitlist_members s = bitlist_members bl \<union> {?k..<?k + unat n} \<and>
      bitlist_members c = bitlist_members bl - {?k..<?k + unat n}"
    if al: "bitlist_validrange bl i n \<and> ?k mod 32 = 0 \<and> unat n mod 32 = 0"
  proof -
    have "?k + unat n \<le> nbits bl" using validrange_wf [OF assms(1) _ assms(2)] al by blast
    moreover have "nbits s = nbits bl" "nbits c = nbits bl" using s(3) c(3) by (simp_all add: nbits_def)
    moreover have "raw_bit (bits s) j \<longleftrightarrow> ?k \<le> j \<and> j < ?k + unat n \<or> raw_bit (bits bl) j"
      "raw_bit (bits c) j \<longleftrightarrow> \<not> (?k \<le> j \<and> j < ?k + unat n) \<and> raw_bit (bits bl) j"
      if "j < nbits bl" for j
      using s(5) c(5) room [OF that] unfolding if_P [OF al] by auto
    ultimately show ?thesis unfolding bitlist_members_def by auto
  qed
  then show ?thesis using s c by (auto simp: Let_def)
qed

theorem bitlist_contiguous_witness:
  "\<exists>s. bitlist_set_contiguous (demo_list 32 5) 0 32 = Some s \<and> bitlist_members s = {0..<32}"
proof -
  have v: "bitlist_validrange (demo_list 32 5) 0 32" by code_simp
  have "bitlist_members (demo_list 32 5) \<subseteq> {0..<32}"
    by (auto simp: bitlist_members_def nbits_def demo_list_def)
  then show ?thesis
    using bitlist_contiguous [of "demo_list 32 5" 32 0] demo_list_wf [of 32 5] v
    by (auto simp: Let_def demo_list_def)
qed

lemma unat_scast32: "unat x < 2147483648 \<Longrightarrow> unat (scast (x :: 32 word) :: 64 word) = unat x"
proof -
  assume "unat x < 2147483648"
  then have "scast x = (word_of_int (int (unat x)) :: 64 word)"
    by (metis scast_eq sint_eq_unat32)
  moreover have "unat x < 2 ^ 64" using \<open>unat x < _\<close> by simp
  ultimately show ?thesis by (simp only: of_int_of_nat_eq unat_of_nat) simp
qed

lemma unat_bitlist_bytes:
  assumes "unat n < 2147483616"
  shows "unat (bitlist_bytes n) = 20 + 4 * ((unat n + 31) div 32)"
proof -
  have "(unat n + 31) div 32 < 2147483648" using assms by simp
  then have "unat (scast (BITS_TO_ELEMS n) :: u64) = (unat n + 31) div 32"
    by (subst unat_scast32) (simp_all add: BITS_TO_ELEMS_unat [OF assms])
  with assms show ?thesis by (simp add: bitlist_bytes_def unat_word_ariths)
qed

text \<open>What the code relies on of \<open>malloc\<close>: a block that is not \<open>NULL\<close> has the bytes asked for.\<close>

definition malloc_ok :: "(u64 \<Rightarrow> u32 list option) \<Rightarrow> bool" where
  "malloc_ok malloc \<longleftrightarrow> (\<forall>k ws. malloc k = Some ws \<longrightarrow> unat k \<le> 4 * length ws)"

lemma bitlist_alloc_spec:
  assumes m: "malloc_ok malloc" and n: "unat n < 2147483616"
  shows "\<exists>r. bitlist_alloc malloc n base = Some r \<and>
    (case r of None \<Rightarrow> malloc (bitlist_bytes n) = None
     | Some bl \<Rightarrow> bitlist_wf bl \<and> clean bl \<and> nbits bl = unat n \<and> base_bit (state bl) = base \<and>
         bitlist_members bl = {})"
proof (cases "malloc (bitlist_bytes n)")
  case (Some ws)
  then have "20 + 4 * ((unat n + 31) div 32) \<le> 4 * length ws"
    using m unat_bitlist_bytes [OF n] unfolding malloc_ok_def by metis
  then have ge: "header_words \<le> length ws"
    and "(unat n + 31) div 32 \<le> length (bits (bitlist_of_words ws))"
    by (simp_all add: header_words_def bitlist_of_words_def)
  with clearall_spec [OF n this(2), of base] Some show ?thesis
    by (auto simp: bitlist_alloc_def)
qed (simp add: bitlist_alloc_def)

text \<open>
  allocation.  With a \<open>malloc\<close> that hands out what it is asked for, \<open>bitlist_clone\<close>
  fails only when \<open>malloc\<close> does; otherwise the new list is well formed, has the size and the
  base of the old one, and is empty or, when a copy is asked for, has the same members.
\<close>

theorem bitlist_clone_copies:
  assumes "malloc_ok malloc" "bitlist_wf bl"
  shows "\<exists>r. bitlist_clone malloc bl copy = Some r \<and>
    (case r of None \<Rightarrow> malloc (bitlist_bytes (max_bits (state bl))) = None
     | Some bl' \<Rightarrow> bitlist_wf bl' \<and> nbits bl' = nbits bl \<and>
         base_bit (state bl') = base_bit (state bl) \<and>
         bitlist_members bl' = (if copy then bitlist_members bl else {}))"
proof -
  have n: "unat (max_bits (state bl)) < 2147483616"
    using assms(2) by (simp add: bitlist_wf_def nbits_def)
  obtain r where r: "bitlist_alloc malloc (max_bits (state bl)) (base_bit (state bl)) = Some r"
    "case r of None \<Rightarrow> malloc (bitlist_bytes (max_bits (state bl))) = None
     | Some b \<Rightarrow> bitlist_wf b \<and> clean b \<and> nbits b = unat (max_bits (state bl)) \<and>
         base_bit (state b) = base_bit (state bl) \<and> bitlist_members b = {}"
    using bitlist_alloc_spec [OF assms(1) n, of "base_bit (state bl)"] by blast
  show ?thesis
  proof (cases r)
    case None
    with r show ?thesis by (simp add: bitlist_clone_def)
  next
    case (Some b)
    with r have b: "bitlist_wf b" "nbits b = nbits bl" "base_bit (state b) = base_bit (state bl)"
      "bitlist_members b = {}" by (simp_all add: nbits_def)
    let ?n = "nelems bl"
    have len: "?n \<le> length (bits bl)" "?n \<le> length (bits b)"
      using assms(2) b wf_nelems_eq [OF assms(2) b(1)] by (simp_all add: bitlist_wf_def)
    let ?c = "\<lparr>state = state bl, bits = take 0 (bits b) @ take ?n (drop 0 (bits bl)) @ drop ?n (bits b)\<rparr>"
    have "bitlist_copy [0 \<mapsto> bl, 1 \<mapsto> b] 0 1 = Some [0 \<mapsto> bl, 1 \<mapsto> ?c]"
      using len by (simp add: bitlist_copy_def blit_in flip: nelems_def)
    then have "bitlist_clone malloc bl copy = Some (Some (if copy then ?c else b))"
      using r(1) Some by (simp add: bitlist_clone_def)
    moreover have "bitlist_wf ?c" using assms(2) len by (simp add: bitlist_wf_def nbits_def nelems_def)
    moreover have "raw_bit (bits ?c) k = raw_bit (bits bl) k" if "k < nbits bl" for k
      using wf_elem_in_bits [OF assms(2) that] len by (simp add: raw_bit_def nth_append)
    then have "bitlist_members ?c = bitlist_members bl"
      by (auto simp: bitlist_members_def nbits_def)
    ultimately show ?thesis using b by (auto simp: nbits_def)
  qed
qed

theorem bitlist_clone_copies_witness:
  "\<exists>r. bitlist_clone (\<lambda>k. Some (replicate (unat k) 7)) (demo_list 3 5) True = Some r"
  using bitlist_clone_copies [of "\<lambda>k. Some (replicate (unat k) 7)" "demo_list 3 5" True]
    demo_list_wf [of 3 5] by (auto simp: malloc_ok_def)

text \<open>
  vectors of lists.  \<open>bitlist_alloc_vect\<close> and \<open>bl + i\<close> place the header of cell 1 over
  the first elements of cell 0, so the first list of a new vector of two is not empty: its
  first element is the element count of cell 1.
\<close>

theorem bitlist_alloc_vect_overlap:
  assumes "malloc (2 * bitlist_bytes n) = Some ws" "1 \<le> unat n" "unat n < 2147483616"
    and len: "length ws = 2 * (5 + (unat n + 31) div 32)"
  shows "\<exists>ws'. bitlist_alloc_vect malloc n base 2 = Some (Some ws') \<and>
    bits (bitlist_of_words ws') ! 0 = BITS_TO_ELEMS n \<and> BITS_TO_ELEMS n \<noteq> 0"
proof -
  let ?e = "(unat n + 31) div 32"
  have e: "unat (BITS_TO_ELEMS n) = ?e" by (rule BITS_TO_ELEMS_unat [OF assms(3)])
  have "1 \<le> ?e" using assms(2) by linarith
  then have ne: "BITS_TO_ELEMS n \<noteq> 0" using e by auto
  have cl: "\<exists>bl. bitlist_clearall (bitlist_of_words (drop (header_words * i) us)) n base = Some bl \<and>
      length (bits bl) = length us - header_words * i - header_words \<and>
      max_elems (state bl) = BITS_TO_ELEMS n"
    if "header_words * i + header_words + ?e \<le> length us" for i us
  proof -
    have r: "?e \<le> length (bits (bitlist_of_words (drop (header_words * i) us)))"
      using that by (simp add: bitlist_of_words_def)
    then show ?thesis
      by (auto simp: bitlist_clearall_def e fill_in bitlist_of_words_def)
  qed
  obtain b0 where b0: "bitlist_clearall (bitlist_of_words (drop (header_words * 0) ws)) n base = Some b0"
    "length (bits b0) = length ws - header_words"
    using cl [of 0 ws] len by (auto simp: header_words_def)
  define ws0 where "ws0 = words_of_bitlist b0"
  have s0: "clearall_at n base ws 0 = Some ws0"
    using b0(1) len by (simp add: clearall_at_def header_words_def ws0_def)
  have l0: "length ws0 = length ws"
    using b0(2) len by (simp add: ws0_def words_of_bitlist_def header_words_def)
  obtain b1 where b1: "bitlist_clearall (bitlist_of_words (drop (header_words * 1) ws0)) n base = Some b1"
    "max_elems (state b1) = BITS_TO_ELEMS n"
    using cl [of 1 ws0] l0 len by (auto simp: header_words_def)
  define ws1 where "ws1 = take header_words ws0 @ words_of_bitlist b1"
  have s1: "clearall_at n base ws0 1 = Some ws1"
    using b1(1) len l0 by (simp add: clearall_at_def header_words_def ws1_def)
  have "[0..<nat (sint (2 :: i32))] = [0, 1]" by (simp add: upt_rec)
  then have "bitlist_alloc_vect malloc n base 2 = Some (Some ws1)"
    using assms(1) s0 s1 by (simp add: bitlist_alloc_vect_def)
  moreover have "bits (bitlist_of_words ws1) ! 0 = BITS_TO_ELEMS n"
    using b1(2) len l0
    by (simp add: ws1_def bitlist_of_words_def words_of_bitlist_def header_words_def nth_append)
  ultimately show ?thesis using ne by blast
qed

theorem bitlist_alloc_vect_overlap_witness:
  "\<exists>ws. bitlist_alloc_vect (\<lambda>k. Some (replicate 12 7)) 32 0 2 = Some (Some ws) \<and>
     bits (bitlist_of_words ws) ! 0 \<noteq> 0"
  using bitlist_alloc_vect_overlap [of "\<lambda>k. Some (replicate 12 7)" 32 "replicate 12 7" 0] by auto

end
