(* ===== verification/CText.thy ===== *)
theory CText
  imports Prelude "HOL-Library.Char_ord"
begin

text \<open>
  C strings and the number formats the components print and read: \<open>%d\<close>, \<open>%u\<close>, \<open>%x\<close>, and
  the digit loops of the parsers.  A C string is the list of its characters before the
  terminating NUL; reading at its end yields NUL.
\<close>

definition NUL :: char where
  "NUL = char_of (0 :: nat)"

definition hd0 :: "string \<Rightarrow> char" where
  "hd0 s = (case s of [] \<Rightarrow> NUL | c # _ \<Rightarrow> c)"

definition digit_char :: "nat \<Rightarrow> char" where
  "digit_char d = char_of (if d < 10 then 48 + d else 87 + d)"

definition is_digit :: "char \<Rightarrow> bool" where
  "is_digit c \<longleftrightarrow> 48 \<le> (of_char c :: nat) \<and> (of_char c :: nat) \<le> 57"

definition digit_val :: "char \<Rightarrow> nat" where
  "digit_val c = of_char c - 48"

text \<open>The digits of \<open>n\<close> in base \<open>b\<close>, most significant first; bases below 2 count as 2.\<close>

fun num_str :: "nat \<Rightarrow> nat \<Rightarrow> string" where
  "num_str b n =
     (if n < max 2 b then [digit_char n]
      else num_str b (n div max 2 b) @ [digit_char (n mod max 2 b)])"

declare num_str.simps [simp del]

definition dec :: "nat \<Rightarrow> string" where
  "dec n = num_str 10 n"

definition hex :: "nat \<Rightarrow> string" where
  "hex n = num_str 16 n"

text \<open>\<open>%d\<close> of an \<open>int\<close>, \<open>%u\<close> and \<open>%x\<close> of an \<open>unsigned\<close>.\<close>

definition fmt_d :: "i32 \<Rightarrow> string" where
  "fmt_d x = (if sint x < 0 then CHR ''-'' # dec (nat (- sint x)) else dec (nat (sint x)))"

definition fmt_u :: "u32 \<Rightarrow> string" where
  "fmt_u x = dec (unat x)"

definition fmt_x :: "u32 \<Rightarrow> string" where
  "fmt_x x = hex (unat x)"

text \<open>\<open>snprintf\<close> into \<open>n\<close> bytes keeps at most \<open>n - 1\<close> characters.\<close>

definition snprintf_cut :: "nat \<Rightarrow> string \<Rightarrow> string" where
  "snprintf_cut n s = take (n - 1) s"

fun join :: "string \<Rightarrow> string list \<Rightarrow> string" where
  "join sep [] = []"
| "join sep [s] = s"
| "join sep (s # t # ss) = s @ sep @ join sep (t # ss)"

lemma join_Cons: "join sep (s # ss) = s @ (if ss = [] then [] else sep @ join sep ss)"
  by (cases ss) simp_all

lemma join_append:
  "xs \<noteq> [] \<Longrightarrow> ys \<noteq> [] \<Longrightarrow> join sep (xs @ ys) = join sep xs @ sep @ join sep ys"
  by (induction xs) (auto simp: join_Cons)

section \<open>The value of a digit string\<close>

text \<open>The value loop of a parser, over any semiring: \<open>n = n * b + digit\<close>.\<close>

definition digits_value :: "nat \<Rightarrow> nat \<Rightarrow> nat list \<Rightarrow> nat" where
  "digits_value b acc ds = foldl (\<lambda>n d. n * b + d) acc ds"

fun digits :: "nat \<Rightarrow> nat \<Rightarrow> nat list" where
  "digits b n = (if n < max 2 b then [n] else digits b (n div max 2 b) @ [n mod max 2 b])"

declare digits.simps [simp del]

lemma num_str_digits: "num_str b n = map digit_char (digits b n)"
  by (induction b n rule: num_str.induct) (subst num_str.simps, subst digits.simps, simp)

lemma digits_less: "d \<in> set (digits b n) \<Longrightarrow> d < max 2 b"
  by (induction b n rule: digits.induct) (subst (asm) digits.simps, auto split: if_splits)

lemma digits_nonempty: "digits b n \<noteq> []"
  by (subst digits.simps) simp

lemma digits_value_digits: "2 \<le> b \<Longrightarrow> digits_value b 0 (digits b n) = n"
proof (induction b n rule: digits.induct)
  case (1 b n)
  show ?case
  proof (cases "n < b")
    case True
    then show ?thesis using 1(2) by (subst digits.simps) (simp add: digits_value_def)
  next
    case False
    then show ?thesis using 1 by (subst digits.simps) (simp add: digits_value_def max_def)
  qed
qed

lemma of_char_digit: "d < 16 \<Longrightarrow> (of_char (digit_char d) :: nat) = (if d < 10 then 48 + d else 87 + d)"
  by (simp add: digit_char_def of_char_of)

lemma is_digit_char: "d < 16 \<Longrightarrow> is_digit (digit_char d) \<longleftrightarrow> d < 10"
  by (simp add: is_digit_def of_char_digit)

lemma digit_val_char: "d < 10 \<Longrightarrow> digit_val (digit_char d) = d"
  by (simp add: digit_val_def of_char_digit)

lemma dec_digits: "dec n = map digit_char (digits 10 n)"
  by (simp add: dec_def num_str_digits)

lemma dec_is_digit: "c \<in> set (dec n) \<Longrightarrow> is_digit c"
proof -
  assume "c \<in> set (dec n)"
  then obtain d where d: "d \<in> set (digits 10 n)" "c = digit_char d" by (auto simp: dec_digits)
  then have "d < 10" using digits_less [of d 10 n] by simp
  with d(2) show ?thesis by (simp add: is_digit_char)
qed

lemma dec_nonempty [simp]: "dec n \<noteq> []"
  by (simp add: dec_digits digits_nonempty)

lemma digit_char_inj: "d < 16 \<Longrightarrow> e < 16 \<Longrightarrow> digit_char d = digit_char e \<Longrightarrow> d = e"
proof -
  assume d: "d < 16" "e < 16" and eq: "digit_char d = digit_char e"
  have "(if d < 10 then 48 + d else 87 + d) = (if e < 10 then 48 + e else 87 + e)"
    unfolding of_char_digit [OF d(1), symmetric] of_char_digit [OF d(2), symmetric] by (simp only: eq)
  with d show ?thesis by (simp split: if_split_asm)
qed

lemma length_dec: "n < 10 ^ k \<Longrightarrow> 0 < k \<Longrightarrow> length (dec n) \<le> k"
proof (induction k arbitrary: n)
  case (Suc k)
  show ?case
  proof (cases "n < 10")
    case True
    then show ?thesis by (simp add: dec_def num_str.simps)
  next
    case False
    then have "0 < k" using Suc.prems(1) by (cases k) auto
    moreover have "n div 10 < 10 ^ k" using Suc.prems(1) by (simp add: div_less_iff_less_mult mult.commute)
    ultimately have "length (dec (n div 10)) \<le> k" using Suc.IH by blast
    then show ?thesis using False by (simp add: dec_def num_str.simps [of 10 n])
  qed
qed simp

section \<open>\<open>strtol\<close> and \<open>strtoul\<close>\<close>

text \<open>
  The C standard's reading of an integer: blanks, a sign, for base 16 or 0 a prefix \<open>0x\<close> that
  a hexadecimal digit follows, for base 0 a leading \<open>0\<close> that means octal, then digits.  The
  result is the sign, the value, whether there was a digit, and the rest of the string.
\<close>

definition is_space :: "char \<Rightarrow> bool" where
  "is_space c \<longleftrightarrow> (of_char c :: nat) = 32 \<or> 9 \<le> (of_char c :: nat) \<and> (of_char c :: nat) \<le> 13"

text \<open>The value of a digit or letter, 36 for any other character.\<close>

definition alnum_val :: "char \<Rightarrow> nat" where
  "alnum_val c =
     (let n = of_char c in
      if 48 \<le> n \<and> n \<le> 57 then n - 48
      else if 97 \<le> n \<and> n \<le> 122 then n - 87
      else if 65 \<le> n \<and> n \<le> 90 then n - 55
      else 36)"

fun digit_run :: "nat \<Rightarrow> nat \<Rightarrow> string \<Rightarrow> nat \<times> string" where
  "digit_run b acc [] = (acc, [])"
| "digit_run b acc (c # s) =
     (if alnum_val c < b then digit_run b (acc * b + alnum_val c) s else (acc, c # s))"

definition hex_prefix :: "string \<Rightarrow> bool" where
  "hex_prefix s \<longleftrightarrow>
     (case s of z # x # d # _ \<Rightarrow> z = CHR ''0'' \<and> (x = CHR ''x'' \<or> x = CHR ''X'') \<and> alnum_val d < 16
      | _ \<Rightarrow> False)"

definition scan_int :: "nat \<Rightarrow> string \<Rightarrow> bool \<times> nat \<times> bool \<times> string" where
  "scan_int base s =
     (let t = dropWhile is_space s;
          neg = (case t of c # _ \<Rightarrow> c = CHR ''-'' | [] \<Rightarrow> False);
          u = (case t of c # r \<Rightarrow> if c = CHR ''-'' \<or> c = CHR ''+'' then r else t | [] \<Rightarrow> t);
          (b, v) = (if (base = 0 \<or> base = 16) \<and> hex_prefix u then (16, drop 2 u)
                    else if base = 0 then (if hd0 u = CHR ''0'' then 8 else 10, u)
                    else (base, u));
          (n, rest) = digit_run b 0 v
      in if length rest < length v then (neg, n, True, rest) else (False, 0, False, s))"

definition LONG_MAX :: int where "LONG_MAX = 9223372036854775807"
definition LONG_MIN :: int where "LONG_MIN = - 9223372036854775808"
definition ULONG_MAX :: nat where "ULONG_MAX = 18446744073709551615"

text \<open>The value, the end pointer as the rest of the string, and whether \<open>errno\<close> is set to \<open>ERANGE\<close>.\<close>

definition strtol :: "nat \<Rightarrow> string \<Rightarrow> int \<times> string \<times> bool" where
  "strtol base s =
     (let (neg, n, ok, rest) = scan_int base s; v = (if neg then - int n else int n)
      in if v < LONG_MIN then (LONG_MIN, rest, True)
         else if LONG_MAX < v then (LONG_MAX, rest, True)
         else (v, rest, False))"

text \<open>\<open>strtoul\<close> negates the value of a number with a minus sign in the unsigned type.\<close>

definition strtoul :: "nat \<Rightarrow> string \<Rightarrow> u64 \<times> string \<times> bool" where
  "strtoul base s =
     (let (neg, n, ok, rest) = scan_int base s
      in if ULONG_MAX < n then (of_nat ULONG_MAX, rest, True)
         else (if neg then - of_nat n else of_nat n, rest, False))"

lemma alnum_val_digit: "d < 16 \<Longrightarrow> alnum_val (digit_char d) = d"
  by (auto simp: alnum_val_def of_char_digit Let_def)

lemma digit_run_digits:
  "\<forall>d \<in> set ds. d < b \<Longrightarrow> b \<le> 16 \<Longrightarrow> rest = [] \<or> b \<le> alnum_val (hd rest) \<Longrightarrow>
   digit_run b acc (map digit_char ds @ rest) = (digits_value b acc ds, rest)"
proof (induction ds arbitrary: acc)
  case Nil
  then show ?case by (cases rest) (auto simp: digits_value_def)
next
  case (Cons d ds)
  then have "alnum_val (digit_char d) = d" by (intro alnum_val_digit) simp
  with Cons show ?case by (simp add: digits_value_def)
qed

lemma digit_char_not_space: "d < 16 \<Longrightarrow> \<not> is_space (digit_char d)"
  by (simp add: is_space_def of_char_digit)

lemma digit_char_not_sign: "d < 16 \<Longrightarrow> digit_char d \<noteq> CHR ''-'' \<and> digit_char d \<noteq> CHR ''+''"
proof -
  assume "d < 16"
  then have "(of_char (digit_char d) :: nat) \<ge> 48" by (simp add: of_char_digit)
  moreover have "(of_char (CHR ''-'') :: nat) = 45" "(of_char (CHR ''+'') :: nat) = 43" by simp_all
  ultimately show ?thesis by auto
qed

text \<open>\<open>strtol\<close> in base 10 reads back what \<open>%u\<close> printed.\<close>

lemma scan_int_dec:
  assumes "rest = [] \<or> 10 \<le> alnum_val (hd rest)"
  shows "scan_int 10 (dec n @ rest) = (False, n, True, rest)"
proof -
  have d: "\<forall>d \<in> set (digits 10 n). d < 10" using digits_less [of _ 10 n] by simp
  obtain e es where e: "digits 10 n = e # es" by (meson digits_nonempty neq_Nil_conv)
  then have "e < 16" using d by simp
  note c = digit_char_not_space [OF this] digit_char_not_sign [OF this]
  have s: "dec n @ rest = digit_char e # map digit_char es @ rest" by (simp add: dec_digits e)
  have run: "digit_run 10 0 (dec n @ rest) = (n, rest)"
    using digit_run_digits [OF d _ assms, of 0] digits_value_digits [of 10 n] by (simp add: dec_digits)
  show ?thesis
    using run c unfolding scan_int_def s by (simp add: Let_def)
qed

lemma strtol_dec:
  assumes "rest = [] \<or> 10 \<le> alnum_val (hd rest)" "int n \<le> LONG_MAX"
  shows "strtol 10 (dec n @ rest) = (int n, rest, False)"
  using assms by (simp add: strtol_def scan_int_dec LONG_MIN_def)

section \<open>Dotted decimal addresses\<close>

text \<open>\<open>inet_ntoa\<close> of an address given in host order.\<close>

definition octet :: "nat \<Rightarrow> u32 \<Rightarrow> nat" where
  "octet k a = unat (drop_bit (8 * k) a AND 255)"

definition ntoa :: "u32 \<Rightarrow> string" where
  "ntoa a = dec (octet 3 a) @ ''.'' @ dec (octet 2 a) @ ''.'' @ dec (octet 1 a) @ ''.'' @ dec (octet 0 a)"

end
