(* ===== verification/BitlistText.thy ===== *)
theory BitlistText
  imports BitlistOps CText
begin

text \<open>
  The text forms of a bit list in \<open>src/bitlist.c\<close>: the hexadecimal dump, the parser of number
  lists such as \<open>1,4-7,9\<close> with its error messages, the printer that resumes where its buffer
  ran out, and the line writer on top of it.
\<close>

section \<open>The dump\<close>

definition dump_item :: "i32 \<Rightarrow> i32 \<Rightarrow> string \<Rightarrow> string" where
  "dump_item begin end comma =
     (if sint begin < sint end then ''0x'' @ fmt_x begin @ ''-0x'' @ fmt_x end @ comma
      else if begin = end then ''0x'' @ fmt_x begin @ comma
      else [])"

text \<open>The \<open>while\<close> loop; the result is what it has printed.\<close>

partial_function (option) dump_loop ::
  "bitlist_t \<Rightarrow> i32 \<Rightarrow> i32 \<Rightarrow> i32 \<Rightarrow> i32 \<Rightarrow> string \<Rightarrow> (string \<times> bitlist_t) option" where
  "dump_loop bl i previous begin end out =
     (if i = BITLIST_INVALID then Some (out @ dump_item begin end [], bl)
      else if i \<noteq> previous + 1
        then do { (next, bl') \<leftarrow> bitlist_find_after bl i;
                  dump_loop bl' next i i i (out @ dump_item begin end '','') }
        else do { (next, bl') \<leftarrow> bitlist_find_after bl i;
                  dump_loop bl' next i begin i out })"

definition bitlist_dump :: "bitlist_t \<Rightarrow> (string \<times> bitlist_t) option" where
  "bitlist_dump bl =
     do { (i, bl) \<leftarrow> bitlist_find_first bl;
          dump_loop bl i (i - 2) i (i - 1) [] }"

section \<open>The parser\<close>

datatype bl_error = none | non_numeric | out_of_bounds | inv_range | exp_comma | unexpected_eol

text \<open>\<open>while (*list >= '0' && *list <= '9')\<close>: the number, the rest and the character count.\<close>

fun number_loop :: "i32 \<Rightarrow> i32 \<Rightarrow> string \<Rightarrow> i32 \<times> i32 \<times> string" where
  "number_loop number charno [] = (number, charno, [])"
| "number_loop number charno (c # list) =
     (if is_digit c then number_loop (number * 10 + of_nat (of_char c) - 48) (charno + 1) list
      else (number, charno, c # list))"

lemma length_number_loop: "length (snd (snd (number_loop n k s))) \<le> length s"
  by (induction s arbitrary: n k) (auto simp: le_Suc_eq)

text \<open>
  \<open>for (i = begin; i <= number; i++) bitlist_set(bl, i)\<close>, for \<open>number < INT_MAX\<close>; at
  \<open>INT_MAX\<close> the increment overflows and the loop has no defined result.
\<close>

definition set_range :: "bitlist_t \<Rightarrow> i32 \<Rightarrow> i32 \<Rightarrow> bitlist_t option" where
  "set_range bl begin number =
     (if number = 2147483647 then None
      else foldM bitlist_set (map word_of_int [sint begin..sint number]) bl)"

record scan_state =
  sc_bl :: bitlist_t
  sc_number :: i32
  sc_begin :: i32
  sc_charno :: i32
  sc_list :: string
  sc_error :: bl_error

text \<open>The checks after an item: end of the list, a comma that something follows, or an error.\<close>

definition after_item :: "scan_state \<Rightarrow> scan_state" where
  "after_item st =
     (case sc_list st of
        [] \<Rightarrow> st
      | c # list \<Rightarrow>
          if c = CHR '','' then
            st\<lparr>sc_list := list, sc_charno := sc_charno st + 1,
               sc_error := (if list = [] then unexpected_eol else none)\<rparr>
          else st\<lparr>sc_error := exp_comma\<rparr>)"

text \<open>The part after a \<open>-\<close>, with the number before it in \<open>sc_begin\<close>.\<close>

definition range_item :: "i32 \<Rightarrow> i32 \<Rightarrow> scan_state \<Rightarrow> scan_state option" where
  "range_item mn mx st =
     (if sc_list st = [] then Some (st\<lparr>sc_error := unexpected_eol\<rparr>)
      else if \<not> is_digit (hd0 (sc_list st)) then Some (st\<lparr>sc_error := non_numeric\<rparr>)
      else
        let (number, charno, list) = number_loop (sc_number st) (sc_charno st) (sc_list st);
            st = st\<lparr>sc_number := number, sc_charno := charno, sc_list := list\<rparr>
        in if sint number < sint mn \<or> sint mx < sint number
           then Some (st\<lparr>sc_error := out_of_bounds\<rparr>)
           else if sint number \<le> sint (sc_begin st) then Some (st\<lparr>sc_error := inv_range\<rparr>)
           else do { bl \<leftarrow> set_range (sc_bl st) (sc_begin st) number;
                     Some (after_item (st\<lparr>sc_bl := bl\<rparr>)) })"

text \<open>One turn of the outer loop on a list that is not at its end.\<close>

definition scan_item :: "i32 \<Rightarrow> i32 \<Rightarrow> scan_state \<Rightarrow> scan_state option" where
  "scan_item mn mx st =
     (if \<not> is_digit (hd0 (sc_list st)) then Some (st\<lparr>sc_error := non_numeric\<rparr>)
      else
        let (number, charno, list) = number_loop 0 (sc_charno st) (sc_list st);
            st = st\<lparr>sc_number := number, sc_charno := charno, sc_list := list\<rparr>
        in if sint number < sint mn \<or> sint mx < sint number
           then Some (st\<lparr>sc_error := out_of_bounds\<rparr>)
           else (case list of
                   c # list' \<Rightarrow>
                     if c = CHR ''-''
                     then range_item mn mx (st\<lparr>sc_begin := number, sc_number := 0,
                            sc_list := list', sc_charno := charno + 1\<rparr>)
                     else do { bl \<leftarrow> bitlist_set (sc_bl st) number;
                               Some (after_item (st\<lparr>sc_bl := bl\<rparr>)) }
                 | [] \<Rightarrow> do { bl \<leftarrow> bitlist_set (sc_bl st) number;
                              Some (after_item (st\<lparr>sc_bl := bl\<rparr>)) }))"

text \<open>\<open>while (*list)\<close>, left by \<open>break\<close> on an error.\<close>

partial_function (option) scan_loop :: "i32 \<Rightarrow> i32 \<Rightarrow> scan_state \<Rightarrow> scan_state option" where
  "scan_loop mn mx st =
     (if sc_error st \<noteq> none \<or> sc_list st = [] then Some st
      else do { st' \<leftarrow> scan_item mn mx st; scan_loop mn mx st' })"

definition errmsglen :: nat where
  "errmsglen = 128"

definition scan_message :: "i32 \<Rightarrow> i32 \<Rightarrow> scan_state \<Rightarrow> string" where
  "scan_message mn mx st = snprintf_cut errmsglen
     (case sc_error st of
        non_numeric \<Rightarrow> ''Character #'' @ fmt_d (sc_charno st) @ '' '' @ [CHR 0x27] @ [hd0 (sc_list st)]
          @ [CHR 0x27] @ '' is non-numeric''
      | out_of_bounds \<Rightarrow> ''Character #'' @ fmt_d (sc_charno st) @
          '' delimits a number which is out of the range ('' @ fmt_d mn @ ''..'' @ fmt_d mx @ '')''
      | inv_range \<Rightarrow> ''Character #'' @ fmt_d (sc_charno st) @ '' delimits ending number('' @
          fmt_d (sc_number st) @ '') of the range, which is not greater than the starting number('' @
          fmt_d (sc_begin st) @ '')''
      | exp_comma \<Rightarrow> ''Comma expected at character #'' @ fmt_d (sc_charno st)
      | unexpected_eol \<Rightarrow> ''Unexpected end of list''
      | none \<Rightarrow> ''Invalid number list'')"

text \<open>
  \<open>mem\<close> tells whether \<open>malloc\<close> finds room for the message.  The result: the return value,
  \<open>*errmsg\<close> (\<open>None\<close> for \<open>NULL\<close>) and the list.
\<close>

definition bitlist_from_string ::
  "bool \<Rightarrow> bitlist_t \<Rightarrow> string \<Rightarrow> (bool \<times> string option \<times> bitlist_t) option" where
  "bitlist_from_string mem bl list =
     (let mn = base_bit (state bl);
          mx = mn + max_bits (state bl) - 1
      in do { st \<leftarrow> scan_loop mn mx \<lparr>sc_bl = bl, sc_number = 0, sc_begin = 0, sc_charno = 1,
                                     sc_list = list, sc_error = none\<rparr>;
              if sc_error st = none then Some (True, None, sc_bl st)
              else if \<not> mem then Some (False, None, sc_bl st)
              else Some (False, Some (scan_message mn mx st), sc_bl st) })"

section \<open>The printer\<close>

text \<open>The \<open>do\<close> loop that skips to the end of a run: its last number, the next one, the list.\<close>

partial_function (option) skip_run :: "bitlist_t \<Rightarrow> i32 \<Rightarrow> (i32 \<times> i32 \<times> bitlist_t) option" where
  "skip_run bl next =
     (let cur = next
      in do { (next, bl) \<leftarrow> bitlist_find_bit bl False;
              if cur + 1 = next then skip_run bl next else Some (cur, next, bl) })"

definition reset_position :: "bitlist_t \<Rightarrow> i32 \<Rightarrow> bitlist_t" where
  "reset_position bl cur =
     bl\<lparr>state := (state bl)\<lparr>last_bit := of_nat (BIT_TO_BIT cur), last_elem := BIT_TO_ELEM cur\<rparr>\<rparr>"

text \<open>\<open>out\<close> is the text written to the buffer so far; its length is the code's \<open>len\<close>.\<close>

partial_function (option) to_string_loop ::
  "bitlist_t \<Rightarrow> i32 \<Rightarrow> i32 \<Rightarrow> string \<Rightarrow> string \<Rightarrow> (i32 \<times> string \<times> bitlist_t) option" where
  "to_string_loop bl sz next comma out =
     (if next = BITLIST_INVALID then Some (next, out, bl)
      else
        let cur = next; temp = comma @ fmt_d cur
        in if sint sz \<le> int (length out + length temp)
           then Some (next, out, reset_position bl (next - base_bit (state bl) - 1))
           else do {
             let out = out @ temp;
             (next, bl) \<leftarrow> bitlist_find_bit bl False;
             if cur + 1 = next then do {
               let first = cur;
               (cur, next, bl) \<leftarrow> skip_run bl next;
               let temp = ''-'' @ fmt_d cur;
               if int (length out + length temp) < sint sz
               then to_string_loop bl sz next '','' (out @ temp)
               else Some (first + 1, out, reset_position bl (first - base_bit (state bl))) }
             else to_string_loop bl sz next '','' out })"

definition bitlist_to_string ::
  "bitlist_t \<Rightarrow> i32 \<Rightarrow> bool \<Rightarrow> (i32 \<times> string \<times> bitlist_t) option" where
  "bitlist_to_string bl sz begin =
     do { (next, bl) \<leftarrow> bitlist_find_bit bl begin;
          (next, out, bl) \<leftarrow> to_string_loop bl sz next [] [];
          Some (if out \<noteq> [] then next else BITLIST_INVALID, out, bl) }"

text \<open>
  The lines handed to \<open>nv_write\<close>; \<open>mem\<close> tells whether \<open>malloc\<close> finds room for a buffer of
  more than 80 bytes.
\<close>

partial_function (option) nv_write_loop ::
  "bitlist_t \<Rightarrow> i32 \<Rightarrow> bool \<Rightarrow> string \<Rightarrow> string \<Rightarrow> string list \<Rightarrow> (string list \<times> bitlist_t) option" where
  "nv_write_loop bl len begin prefix suffix lines =
     do { (i, buf, bl) \<leftarrow> bitlist_to_string bl len begin;
          let lines = (if buf \<noteq> [] then lines @ [prefix @ '' '' @ buf @ suffix] else lines);
          if i \<noteq> BITLIST_INVALID then nv_write_loop bl len False prefix suffix lines
          else Some (lines, bl) }"

definition bitlist_nv_write ::
  "bool \<Rightarrow> bitlist_t \<Rightarrow> string \<Rightarrow> string \<Rightarrow> i32 \<Rightarrow> (bool \<times> string list \<times> bitlist_t) option" where
  "bitlist_nv_write mem bl prefix suffix maxlen =
     (let len = maxlen - (of_nat (length prefix) + 1 + of_nat (length suffix))
      in if sint len > 80 \<and> \<not> mem then Some (False, [], bl)
         else do { (lines, bl) \<leftarrow> nv_write_loop bl len True prefix suffix [];
                   Some (True, lines, bl) })"

declare dump_loop.simps [code] scan_loop.simps [code] skip_run.simps [code]
  to_string_loop.simps [code] nv_write_loop.simps [code]

section \<open>The cursor walks the sorted members\<close>

definition members_from :: "bitlist_t \<Rightarrow> nat \<Rightarrow> nat list" where
  "members_from bl p = sorted_list_of_set (from_pos bl p)"

text \<open>The search has returned \<open>n\<close>, and the members not yet passed, \<open>n\<close> included, are \<open>xs\<close>.\<close>

definition cursor_at :: "bitlist_t \<Rightarrow> nat list \<Rightarrow> i32 \<Rightarrow> bool" where
  "cursor_at bl xs n \<longleftrightarrow> bitlist_wf bl \<and>
     (case xs of [] \<Rightarrow> n = BITLIST_INVALID \<and> exhausted bl
      | x # ys \<Rightarrow> n = bitno bl x \<and> at_cursor bl x \<and> x \<in> bitlist_members bl \<and>
          ys = members_from bl (Suc x))"

lemma members_from_Cons:
  assumes "from_pos bl p \<noteq> {}"
  shows "members_from bl p = Min (from_pos bl p) # members_from bl (Suc (Min (from_pos bl p)))"
proof -
  let ?m = "Min (from_pos bl p)"
  have m: "?m \<in> from_pos bl p" using assms by simp
  have "x = ?m \<or> Suc ?m \<le> x" if "x \<in> from_pos bl p" for x
    using Min_le [OF finite_from_pos that] by linarith
  then have "from_pos bl p - {?m} = from_pos bl (Suc ?m)"
    using m by (auto simp: from_pos_def)
  then show ?thesis
    unfolding members_from_def by (subst sorted_list_of_set_nonempty) (use assms in auto)
qed

lemma same_list_members_from: "same_list bl bl' \<Longrightarrow> members_from bl' = members_from bl"
  by (simp add: members_from_def fun_eq_iff same_list_simps)

lemma find_bit_cursor:
  assumes "bitlist_wf bl" "start_at bl first p"
  shows "\<exists>n bl'. bitlist_find_bit bl first = Some (n, bl') \<and> same_list bl bl' \<and>
    cursor_at bl' (members_from bl p) n"
proof -
  obtain n bl' where r: "bitlist_find_bit bl first = Some (n, bl')" "finds_from bl p (n, bl')"
    using find_bit_from [OF assms] by auto
  note s = same_list_simps [of bl bl'] same_list_members_from [of bl bl']
  show ?thesis
  proof (cases "from_pos bl p = {}")
    case True
    then show ?thesis using r by (auto simp: finds_from_def cursor_at_def members_from_def)
  next
    case False
    then have "Min (from_pos bl p) \<in> bitlist_members bl" using Min_in [of "from_pos bl p"]
      by (auto simp: from_pos_def)
    then show ?thesis using r False s
      by (auto simp: finds_from_def cursor_at_def members_from_Cons [OF False])
  qed
qed

lemma find_bit_next:
  assumes "cursor_at bl xs n"
  shows "\<exists>n' bl'. bitlist_find_bit bl False = Some (n', bl') \<and> same_list bl bl' \<and>
    cursor_at bl' (tl xs) n'"
proof (cases xs)
  case Nil
  with assms show ?thesis by (auto simp: cursor_at_def find_bit_exhausted)
next
  case (Cons x ys)
  with assms have "start_at bl False (Suc x)" by (auto simp: start_at_def cursor_at_def)
  with find_bit_cursor [of bl False "Suc x"] assms Cons show ?thesis
    by (auto simp: cursor_at_def)
qed

lemma cursor_at_members:
  assumes "cursor_at bl xs n"
  shows "set xs \<subseteq> bitlist_members bl" "sorted_wrt (<) xs" "\<And>x. x \<in> set xs \<Longrightarrow> x < nbits bl"
proof -
  have s: "set (members_from bl p) = from_pos bl p" for p by (simp add: members_from_def)
  show sub: "set xs \<subseteq> bitlist_members bl"
    using assms s by (auto simp: cursor_at_def from_pos_def split: list.splits)
  then show "\<And>x. x \<in> set xs \<Longrightarrow> x < nbits bl" by (auto simp: bitlist_members_def)
  have "sorted_wrt (<) (members_from bl p)" for p by (simp add: members_from_def)
  moreover have "\<forall>y \<in> set (members_from bl (Suc x)). x < y" for x using s by (auto simp: from_pos_def)
  ultimately show "sorted_wrt (<) xs"
    using assms by (auto simp: cursor_at_def split: list.splits)
qed

text \<open>The bit numbers are not negative and below \<open>INT_MAX\<close>.\<close>

definition num_ok :: "bitlist_t \<Rightarrow> bool" where
  "num_ok bl \<longleftrightarrow> 0 \<le> sint (base_bit (state bl)) \<and>
     sint (base_bit (state bl)) + int (nbits bl) \<le> 2147483647"

lemma num_ok_cong: "same_list bl bl' \<Longrightarrow> num_ok bl' = num_ok bl"
  by (simp add: num_ok_def same_list_def nbits_def)

lemma unat_bitno:
  assumes "num_ok bl" "k \<le> nbits bl"
  shows "unat (bitno bl k) = unat (base_bit (state bl)) + k"
    "unat (base_bit (state bl)) + k \<le> 2147483647"
proof -
  have "int (unat (base_bit (state bl))) = sint (base_bit (state bl))"
    using assms(1) sint_nonneg_uint [of "base_bit (state bl)"] by (simp add: num_ok_def)
  then have b: "unat (base_bit (state bl)) + nbits bl \<le> 2147483647"
    using assms(1) unfolding num_ok_def by linarith
  then show "unat (base_bit (state bl)) + k \<le> 2147483647" using assms(2) by linarith
  then have "unat (of_nat k + base_bit (state bl)) = unat (of_nat k :: u32) + unat (base_bit (state bl))"
    using assms(2) b by (subst unat_word_ariths) (simp add: unat_of_nat32)
  then show "unat (bitno bl k) = unat (base_bit (state bl)) + k"
    using assms(2) b by (simp add: bitno_def unat_of_nat32)
qed

lemma sint_bitno:
  assumes "num_ok bl" "k < nbits bl"
  shows "sint (bitno bl k) = int (unat (base_bit (state bl)) + k)"
  using unat_bitno [OF assms(1), of k] assms(2) by (subst sint_eq_unat32) auto

lemma bitno_inj: "num_ok bl \<Longrightarrow> j \<le> nbits bl \<Longrightarrow> k \<le> nbits bl \<Longrightarrow> bitno bl j = bitno bl k \<longleftrightarrow> j = k"
  by (metis unat_bitno(1) add_left_cancel)

lemma bitno_Suc: "bitno bl k + 1 = bitno bl (Suc k)"
  by (simp add: bitno_def)

lemma bitno_valid:
  assumes "num_ok bl" "k \<le> nbits bl" shows "bitno bl k \<noteq> BITLIST_INVALID"
proof
  assume "bitno bl k = BITLIST_INVALID"
  then have "unat (bitno bl k) = 4294967295" by (simp add: BITLIST_INVALID_def unsigned_minus_1_eq_mask mask_eq_exp_minus_1)
  with unat_bitno [OF assms] show False by simp
qed

lemma bitlist_pos_bitno: "num_ok bl \<Longrightarrow> k < nbits bl \<Longrightarrow> bitlist_pos bl (bitno bl k) = Some k"
proof -
  assume a: "num_ok bl" "k < nbits bl"
  have "unat (bitno bl k - base_bit (state bl)) = k"
    using unat_bitno [OF a(1), of k] a by (simp add: bitno_def unat_of_nat32)
  with a show ?thesis by (simp add: bitlist_pos_def Let_def)
qed

section \<open>What the printer writes\<close>

definition item :: "bitlist_t \<Rightarrow> nat \<times> nat \<Rightarrow> string" where
  "item bl r = fmt_d (bitno bl (fst r)) @
     (if fst r < snd r then CHR ''-'' # fmt_d (bitno bl (snd r)) else [])"

fun seq_text :: "bitlist_t \<Rightarrow> string \<Rightarrow> (nat \<times> nat) list \<Rightarrow> string" where
  "seq_text bl comma [] = []"
| "seq_text bl comma (r # rs) = comma @ item bl r @ seq_text bl '','' rs"

definition expand :: "(nat \<times> nat) list \<Rightarrow> nat list" where
  "expand rs = concat (map (\<lambda>r. [fst r..<Suc (snd r)]) rs)"

lemma expand_simps [simp]: "expand [] = []" "expand (r # rs) = [fst r..<Suc (snd r)] @ expand rs"
  by (simp_all add: expand_def)

lemma item_cong: "same_list bl bl' \<Longrightarrow> item bl' = item bl"
  by (simp add: item_def fun_eq_iff same_list_simps)

lemma seq_text_cong: "same_list bl bl' \<Longrightarrow> seq_text bl' comma rs = seq_text bl comma rs"
  by (induction rs arbitrary: comma) (simp_all add: item_cong)

lemma next_is_Suc:
  assumes "num_ok bl" "cursor_at bl (x # ys) n" "cursor_at bl' ys n'" "same_list bl bl'"
  shows "n + 1 = n' \<longleftrightarrow> (\<exists>zs. ys = Suc x # zs)"
proof -
  have x: "x < nbits bl" using cursor_at_members(3) [OF assms(2)] by simp
  have n: "n + 1 = bitno bl (Suc x)" using assms(2) by (simp add: cursor_at_def bitno_Suc)
  show ?thesis
  proof (cases ys)
    case Nil
    with assms(3) have "n' = BITLIST_INVALID" by (simp add: cursor_at_def)
    with n Nil bitno_valid [OF assms(1), of "Suc x"] x show ?thesis by auto
  next
    case (Cons y zs)
    with assms(3,4) have n': "n' = bitno bl y" by (simp add: cursor_at_def same_list_simps)
    have "y < nbits bl'" using cursor_at_members(3) [OF assms(3)] Cons by simp
    then have "y < nbits bl" using same_list_simps(1) [OF assms(4)] by simp
    with n n' x Cons bitno_inj [OF assms(1), of "Suc x" y] show ?thesis by auto
  qed
qed

lemma skip_run_spec:
  "num_ok bl \<Longrightarrow> cursor_at bl (x # ys) n \<Longrightarrow>
   \<exists>b zs n' bl'. skip_run bl n = Some (bitno bl b, n', bl') \<and> same_list bl bl' \<and>
     cursor_at bl' zs n' \<and> x # ys = [x..<Suc b] @ zs \<and> x \<le> b"
proof (induction ys arbitrary: bl x n)
  case Nil
  obtain n' bl' where f: "bitlist_find_bit bl False = Some (n', bl')" "same_list bl bl'"
    "cursor_at bl' [] n'" using find_bit_next [OF Nil(2)] by auto
  then have "n + 1 \<noteq> n'" using next_is_Suc [OF Nil f(3,2)] by simp
  moreover have "n = bitno bl x" using Nil by (simp add: cursor_at_def)
  ultimately show ?case using f by (subst skip_run.simps) (auto simp: Let_def)
next
  case (Cons y ys)
  obtain n' bl' where f: "bitlist_find_bit bl False = Some (n', bl')" "same_list bl bl'"
    "cursor_at bl' (y # ys) n'" using find_bit_next [OF Cons.prems(2)] by auto
  have suc: "n + 1 = n' \<longleftrightarrow> y = Suc x" using next_is_Suc [OF Cons.prems f(3,2)] by simp
  show ?case
  proof (cases "y = Suc x")
    case True
    have "num_ok bl'" using Cons.prems(1) f(2) by (simp add: num_ok_cong)
    from Cons.IH [OF this f(3)] obtain b zs n'' bl'' where
      IH: "skip_run bl' n' = Some (bitno bl' b, n'', bl'')" "same_list bl' bl''"
        "cursor_at bl'' zs n''" "y # ys = [y..<Suc b] @ zs" "y \<le> b" by blast
    have "skip_run bl n = Some (bitno bl b, n'', bl'')"
      using True suc f IH(1) by (subst skip_run.simps) (simp add: same_list_simps)
    moreover have "x # y # ys = [x..<Suc b] @ zs"
      using IH(4,5) True upt_conv_Cons [of x b] by simp
    ultimately show ?thesis using IH(2,3,5) True same_list_trans [OF f(2) IH(2)] by force
  next
    case False
    moreover have "n = bitno bl x" using Cons.prems by (simp add: cursor_at_def)
    ultimately have "skip_run bl n = Some (bitno bl x, n', bl')"
      using suc f by (subst skip_run.simps) (simp add: Let_def)
    then show ?thesis using f by force
  qed
qed

text \<open>The next search yields the members \<open>rest\<close>; \<open>n\<close> is the first, or tells there is none.\<close>

definition resumes :: "bitlist_t \<Rightarrow> nat list \<Rightarrow> i32 \<Rightarrow> bool" where
  "resumes bl rest n \<longleftrightarrow> bitlist_wf bl \<and>
     (case rest of [] \<Rightarrow> n = BITLIST_INVALID \<and> exhausted bl
      | y # _ \<Rightarrow> n = bitno bl y \<and> y < nbits bl \<and>
          (\<exists>p. start_at bl False p \<and> members_from bl p = rest))"

lemma reset_position_at:
  assumes "bitlist_wf bl" "k < nbits bl"
  shows "at_cursor (reset_position bl (of_nat k)) k" "same_list bl (reset_position bl (of_nat k))"
    "bitlist_wf (reset_position bl (of_nat k))"
proof -
  have k: "k < 2147483616" "k < 32 * nelems bl" "k div 32 < nelems bl"
    using assms wf_elem_in_bits [OF assms] wf_bound [OF assms(1)] by (auto simp: bitlist_wf_def)
  then have u: "unat (of_nat k :: i32) = k" by (simp add: unat_of_nat32)
  have e: "unat (BIT_TO_ELEM (of_nat k)) = k div 32"
    using k u by (subst unat_BIT_TO_ELEM) simp_all
  have b: "BIT_TO_BIT (of_nat k) = k mod 32" by (simp add: BIT_TO_BIT_mod u)
  have b': "unat (of_nat (k mod 32) :: u32) = k mod 32" by (subst unat_of_nat32) simp_all
  show "at_cursor (reset_position bl (of_nat k)) k" "same_list bl (reset_position bl (of_nat k))"
    "bitlist_wf (reset_position bl (of_nat k))"
    using k assms(1) e b b'
    by (simp_all add: at_cursor_def reset_position_def nelems_def same_list_def bitlist_wf_def
        nbits_def)
qed

lemma members_from_member:
  assumes "x \<in> bitlist_members bl"
  shows "members_from bl x = x # members_from bl (Suc x)"
proof -
  have "Min (from_pos bl x) = x" using assms by (intro Min_eqI) (auto simp: from_pos_def)
  moreover have "from_pos bl x \<noteq> {}" using assms by (auto simp: from_pos_def)
  ultimately show ?thesis using members_from_Cons by metis
qed

lemma reset_resumes:
  assumes "bitlist_wf bl" "k < nbits bl" "members_from bl (Suc k) = y # ys"
  shows "resumes (reset_position bl (of_nat k)) (y # ys) (bitno bl y)"
proof -
  note r = reset_position_at [OF assms(1,2)]
  have "y \<in> set (members_from bl (Suc k))" using assms(3) by simp
  then have "y < nbits bl" by (simp add: members_from_def from_pos_def bitlist_members_def)
  moreover have "start_at (reset_position bl (of_nat k)) False (Suc k)"
    using r(1) by (auto simp: start_at_def)
  ultimately show ?thesis
    using assms(3) r(2,3)
    by (auto simp: resumes_def same_list_simps same_list_members_from)
qed

lemma length_fmt_d: "num_ok bl \<Longrightarrow> k < nbits bl \<Longrightarrow> length (fmt_d (bitno bl k)) \<le> 10"
  using sint_bitno [of bl k] unat_bitno(2) [of bl k]
  by (simp add: fmt_d_def length_dec del: of_nat_add)

definition prints :: "bitlist_t \<Rightarrow> int \<Rightarrow> string \<Rightarrow> string \<Rightarrow> nat list \<Rightarrow>
    (i32 \<times> string \<times> bitlist_t) option \<Rightarrow> bool" where
  "prints bl sz comma out xs r \<longleftrightarrow>
     (\<exists>n' bl' rs rest. r = Some (n', out @ seq_text bl comma rs, bl') \<and> same_list bl bl' \<and>
        xs = expand rs @ rest \<and> (\<forall>r \<in> set rs. fst r \<le> snd r) \<and> resumes bl' rest n' \<and>
        (xs \<noteq> [] \<and> out = [] \<longrightarrow> rs \<noteq> []) \<and>
        (rs \<noteq> [] \<longrightarrow> int (length (out @ seq_text bl comma rs)) < sz))"

lemma prints_more:
  assumes "prints bl' sz '','' (out @ comma @ item bl (x, b)) zs r" "same_list bl bl'"
    "int (length (out @ comma @ item bl (x, b))) < sz" "x \<le> b"
  shows "prints bl sz comma out ([x..<Suc b] @ zs) r"
proof -
  obtain n' bl'' rs rest where p:
    "r = Some (n', (out @ comma @ item bl (x, b)) @ seq_text bl' '','' rs, bl'')"
    "same_list bl' bl''" "zs = expand rs @ rest" "\<forall>r \<in> set rs. fst r \<le> snd r" "resumes bl'' rest n'"
    "rs \<noteq> [] \<longrightarrow> int (length ((out @ comma @ item bl (x, b)) @ seq_text bl' '','' rs)) < sz"
    using assms(1) unfolding prints_def by blast
  let ?rs = "(x, b) # rs"
  have t: "(out @ comma @ item bl (x, b)) @ seq_text bl' '','' rs = out @ seq_text bl comma ?rs"
    by (simp add: seq_text_cong [OF assms(2)])
  have "same_list bl bl''" by (rule same_list_trans [OF assms(2) p(2)])
  moreover have "int (length (out @ seq_text bl comma ?rs)) < sz"
    using assms(3) p(6) unfolding t by (cases "rs = []") auto
  ultimately show ?thesis
    unfolding prints_def using p(1,3,4,5) assms(4) t
    by (intro exI [of _ n'] exI [of _ bl''] exI [of _ ?rs] exI [of _ rest]) auto
qed

lemma cursor_resumes: "cursor_at bl [] n \<Longrightarrow> resumes bl [] n"
  by (simp add: cursor_at_def resumes_def)

lemma to_string_loop_spec:
  "num_ok bl \<Longrightarrow> cursor_at bl xs n \<Longrightarrow> 11 \<le> sint sz \<Longrightarrow> (out = [] \<Longrightarrow> comma = []) \<Longrightarrow>
   (out \<noteq> [] \<Longrightarrow> 0 \<notin> set xs) \<Longrightarrow>
   prints bl (sint sz) comma out xs (to_string_loop bl sz n comma out)"
proof (induction "length xs" arbitrary: xs bl n comma out rule: less_induct)
  case less
  show ?case
  proof (cases xs)
    case Nil
    then have "to_string_loop bl sz n comma out = Some (n, out, bl)"
      using less.prems(2) by (subst to_string_loop.simps) (simp add: cursor_at_def)
    with Nil cursor_resumes [of bl n] less.prems(2) show ?thesis
      unfolding prints_def by (auto intro!: exI [of _ "[]"])
  next
    case (Cons x ys)
    have x: "x < nbits bl" "n = bitno bl x" "x \<in> bitlist_members bl" "ys = members_from bl (Suc x)"
      and wf: "bitlist_wf bl"
      using less.prems(2) cursor_at_members(3) [OF less.prems(2)] Cons by (auto simp: cursor_at_def)
    have gt: "\<forall>y \<in> set ys. x < y" using cursor_at_members(2) [OF less.prems(2)] Cons by simp
    have valid: "n \<noteq> BITLIST_INVALID" using x bitno_valid [OF less.prems(1), of x] by simp
    note loop = to_string_loop.simps [of bl sz n comma out]
    let ?t = "comma @ fmt_d n"
    show ?thesis
    proof (cases "sint sz \<le> int (length out + length ?t)")
      case True
      have "out \<noteq> []" using True less.prems(3,4) length_fmt_d [OF less.prems(1) x(1)] x(2) by auto
      then have "x \<noteq> 0" using less.prems(5) Cons by auto
      then obtain k where k: "x = Suc k" by (cases x) auto
      have pos: "n - base_bit (state bl) - 1 = of_nat k" using x(2) k by (simp add: bitno_def)
      have "members_from bl (Suc k) = x # ys" using members_from_member [OF x(3)] x(4) k by simp
      then have "resumes (reset_position bl (of_nat k)) xs n"
        using reset_resumes [of bl k x ys] wf x k Cons by simp
      moreover have "to_string_loop bl sz n comma out = Some (n, out, reset_position bl (of_nat k))"
        using True valid by (subst loop) (simp add: Let_def pos)
      moreover have "same_list bl (reset_position bl (of_nat k))"
        using reset_position_at(2) [OF wf, of k] x(1) k by simp
      ultimately show ?thesis
        unfolding prints_def using \<open>out \<noteq> []\<close>
        by (intro exI [of _ n] exI [of _ "reset_position bl (of_nat k)"] exI [of _ "[]"] exI [of _ xs])
          simp
    next
      case False
      then have fit: "int (length (out @ ?t)) < sint sz" by simp
      obtain n' bl' where f: "bitlist_find_bit bl False = Some (n', bl')" "same_list bl bl'"
        "cursor_at bl' ys n'" using find_bit_next [OF less.prems(2)] Cons by auto
      have ok': "num_ok bl'" using less.prems(1) f(2) by (simp add: num_ok_cong)
      have suc: "n + 1 = n' \<longleftrightarrow> (\<exists>zs. ys = Suc x # zs)"
        by (rule next_is_Suc [OF less.prems(1) _ f(3,2)]) (use less.prems(2) Cons in simp)
      have one: "item bl (x, x) = fmt_d n" using x by (simp add: item_def)
      show ?thesis
      proof (cases "n + 1 = n'")
        case nosuc: False
        have "to_string_loop bl sz n comma out = to_string_loop bl' sz n' '','' (out @ ?t)"
          using valid fit f(1) nosuc by (subst loop) (simp add: Let_def)
        moreover have "prints bl' (sint sz) '','' (out @ ?t) ys (to_string_loop bl' sz n' '','' (out @ ?t))"
          using less.hyps [of ys bl' n' "out @ ?t" "'',''"] Cons ok' f(3) less.prems(3) gt x(2)
          by (auto simp: fmt_d_def)
        ultimately have "prints bl (sint sz) comma out ([x..<Suc x] @ ys) (to_string_loop bl sz n comma out)"
          using prints_more [of bl' "sint sz" out comma bl x x ys] f(2) fit one by simp
        with Cons show ?thesis by simp
      next
        case issuc: True
        with suc obtain ys' where ys: "ys = Suc x # ys'" by blast
        obtain b zs n'' bl'' where sk: "skip_run bl' n' = Some (bitno bl' b, n'', bl'')"
          "same_list bl' bl''" "cursor_at bl'' zs n''" "ys = [Suc x..<Suc b] @ zs" "Suc x \<le> b"
          using skip_run_spec [OF ok', of "Suc x" ys' n'] f(3) ys by auto
        have s'': "same_list bl bl''" by (rule same_list_trans [OF f(2) sk(2)])
        have bb: "bitno bl' b = bitno bl b" using f(2) by (simp add: same_list_simps)
        have it: "item bl (x, b) = fmt_d n @ ''-'' @ fmt_d (bitno bl b)"
          using sk(5) x(2) by (simp add: item_def)
        have xs: "xs = [x..<Suc b] @ zs" using Cons sk(4,5) upt_conv_Cons [of x b] by simp
        let ?t2 = "''-'' @ fmt_d (bitno bl b)"
        show ?thesis
        proof (cases "int (length (out @ ?t) + length ?t2) < sint sz")
          case True
          have "to_string_loop bl sz n comma out = to_string_loop bl'' sz n'' '','' ((out @ ?t) @ ?t2)"
            using valid fit f(1) issuc sk(1) True bb by (subst loop) (simp add: Let_def)
          moreover have "prints bl'' (sint sz) '','' ((out @ ?t) @ ?t2) zs
              (to_string_loop bl'' sz n'' '','' ((out @ ?t) @ ?t2))"
            using less.hyps [of zs bl'' n'' "(out @ ?t) @ ?t2" "'',''"] Cons sk(3) xs less.prems(3) gt
              ok' num_ok_cong [OF sk(2)] sk(4) by (auto simp: fmt_d_def)
          ultimately show ?thesis
            using prints_more [of bl'' "sint sz" out comma bl x b zs] s'' True it xs sk(5) by simp
        next
          case nofit: False
          have pos: "n - base_bit (state bl) = of_nat x" using x(2) by (simp add: bitno_def)
          have base: "base_bit (state bl'') = base_bit (state bl)" using s'' by (simp add: same_list_def)
          let ?bl = "reset_position bl'' (of_nat x)"
          have "to_string_loop bl sz n comma out = Some (n + 1, out @ ?t, ?bl)"
            using valid fit f(1) issuc sk(1) nofit bb by (subst loop) (simp add: Let_def pos base)
          moreover have wf'': "bitlist_wf bl''" "x < nbits bl''"
            using sk(3) x(1) s'' by (simp_all add: cursor_at_def same_list_simps)
          have "members_from bl'' (Suc x) = Suc x # ys'"
            using x(4) ys s'' by (simp add: same_list_members_from)
          then have "resumes ?bl ys (n + 1)"
            using reset_resumes [OF wf''] ys x(2) s'' by (simp add: bitno_Suc same_list_simps)
          moreover have "same_list bl ?bl"
            using s'' reset_position_at(2) [OF wf''] same_list_trans by blast
          ultimately show ?thesis
            unfolding prints_def using fit one Cons
            by (intro exI [of _ "n + 1"] exI [of _ ?bl] exI [of _ "[(x, x)]"] exI [of _ ys]) simp
        qed
      qed
    qed
  qed
qed

section \<open>What the parser reads\<close>

lemma number_loop_digits:
  "\<forall>d \<in> set ds. d < 10 \<Longrightarrow> rest = [] \<or> \<not> is_digit (hd rest) \<Longrightarrow>
   number_loop n k (map digit_char ds @ rest) =
     (foldl (\<lambda>n d. n * 10 + of_nat d) n ds, k + of_nat (length ds), rest)"
proof (induction ds arbitrary: n k)
  case Nil
  then show ?case by (cases rest) auto
next
  case (Cons d ds)
  have "n * 10 + of_nat (of_char (digit_char d)) - 48 = (n * 10 + of_nat d :: i32)"
    using Cons.prems by (simp add: of_char_digit)
  then show ?case using Cons by (simp add: is_digit_char algebra_simps)
qed

lemma foldl_of_nat: "foldl (\<lambda>n d. n * 10 + of_nat d) (of_nat n :: i32) ds = of_nat (digits_value 10 n ds)"
  unfolding digits_value_def
proof (induction ds arbitrary: n)
  case (Cons d ds)
  have "(of_nat n * 10 + of_nat d :: i32) = of_nat (n * 10 + d)" by simp
  with Cons [of "n * 10 + d"] show ?case by (simp del: of_nat_add of_nat_mult)
qed simp

lemma number_loop_dec:
  assumes "rest = [] \<or> \<not> is_digit (hd rest)"
  shows "number_loop 0 k (dec m @ rest) = (of_nat m, k + of_nat (length (dec m)), rest)"
  using number_loop_digits [of "digits 10 m" rest 0 k] digits_less [of _ 10 m] assms
    foldl_of_nat [of 0 "digits 10 m"] digits_value_digits [of 10 m]
  by (simp add: dec_digits)

lemma fmt_d_bitno: "num_ok bl \<Longrightarrow> k < nbits bl \<Longrightarrow> fmt_d (bitno bl k) = dec (unat (bitno bl k))"
  using sint_bitno [of bl k] unat_bitno(1) [of bl k] by (simp add: fmt_d_def del: of_nat_add)

lemma number_loop_bitno:
  assumes "num_ok bl" "k < nbits bl" "rest = [] \<or> \<not> is_digit (hd rest)"
  shows "\<exists>j. number_loop 0 i (fmt_d (bitno bl k) @ rest) = (bitno bl k, j, rest)"
  using number_loop_dec [OF assms(3), of i "unat (bitno bl k)"] by (simp add: fmt_d_bitno assms)

lemma hd_fmt_d: "num_ok bl \<Longrightarrow> k < nbits bl \<Longrightarrow> is_digit (hd0 (fmt_d (bitno bl k) @ rest))"
proof -
  assume a: "num_ok bl" "k < nbits bl"
  obtain c cs where "dec (unat (bitno bl k)) = c # cs" by (meson dec_nonempty neq_Nil_conv)
  then show ?thesis using dec_is_digit [of c "unat (bitno bl k)"] a by (simp add: fmt_d_bitno hd0_def)
qed

lemma bitlist_set_state: "bitlist_set bl i = Some bl' \<Longrightarrow> state bl' = state bl"
  by (auto simp: bitlist_set_def Let_def bind_Some_iff split: if_splits)

lemma foldM_set_state: "foldM bitlist_set is bl = Some bl' \<Longrightarrow> state bl' = state bl"
  by (induction "is" arbitrary: bl) (auto simp: bind_Some_iff dest: bitlist_set_state)

lemma set_range_spec:
  assumes "bitlist_wf bl" "num_ok bl" "a \<le> b" "b < nbits bl"
  shows "\<exists>bl'. set_range bl (bitno bl a) (bitno bl b) = Some bl' \<and> bitlist_wf bl' \<and>
    state bl' = state bl \<and> bitlist_members bl' = bitlist_members bl \<union> {a..b}"
proof -
  let ?B = "unat (base_bit (state bl))"
  have ab: "sint (bitno bl a) = int (?B + a)" "sint (bitno bl b) = int (?B + b)"
    using assms(3,4) by (simp_all only: sint_bitno [OF assms(2)])
  have bnd: "?B + nbits bl \<le> 2147483647" by (rule unat_bitno(2) [OF assms(2) order_refl])
  have "bitno bl b \<noteq> 2147483647"
  proof
    assume "bitno bl b = 2147483647"
    then have "unat (bitno bl b) = 2147483647" by simp
    with unat_bitno(1) [OF assms(2), of b] assms(4) bnd show False by simp
  qed
  moreover have "[sint (bitno bl a)..sint (bitno bl b)] = map (\<lambda>k. int (?B + k)) [a..<Suc b]"
    unfolding ab using assms(3)
  proof (induction b rule: dec_induct)
    case (step n)
    have "[int (?B + a)..int (?B + Suc n)] = [int (?B + a)..int (?B + n)] @ [int (?B + Suc n)]"
      using step.hyps upto_rec2 [of "int (?B + a)" "int (?B + Suc n)"] by simp
    with step show ?case by simp
  qed simp
  then have "map word_of_int [sint (bitno bl a)..sint (bitno bl b)] = map (bitno bl) [a..<Suc b]"
    by (simp add: bitno_def comp_def)
  ultimately have r: "set_range bl (bitno bl a) (bitno bl b) = foldM bitlist_set (map (bitno bl) [a..<Suc b]) bl"
    by (simp add: set_range_def del: upt_Suc)
  obtain bl' where f: "foldM bitlist_set (map (bitno bl) [a..<Suc b]) bl = Some bl'" "bitlist_wf bl'"
    "bitlist_members bl' = bitlist_members bl \<union>
      {k. \<exists>i \<in> set (map (bitno bl) [a..<Suc b]). bitlist_pos bl i = Some k}"
    using bl.foldM_ins [OF assms(1)] by blast
  have "bitlist_pos bl (bitno bl j) = Some j" if "j \<le> b" for j
    using that assms(2,4) by (intro bitlist_pos_bitno) auto
  then have "{k. \<exists>i \<in> set (map (bitno bl) [a..<Suc b]). bitlist_pos bl i = Some k} = {a..b}"
    by (auto simp del: upt_Suc simp: less_Suc_eq_le intro!: bexI)
  with f r foldM_set_state [OF f(1)] show ?thesis by simp
qed

text \<open>Two lists with the same numbering and range.\<close>

definition same_range :: "bitlist_t \<Rightarrow> bitlist_t \<Rightarrow> bool" where
  "same_range a b \<longleftrightarrow> nbits a = nbits b \<and> base_bit (state a) = base_bit (state b)"

lemma same_range_simps:
  assumes "same_range a b"
  shows "bitno a = bitno b" "item a = item b" "num_ok a = num_ok b"
  using assms by (simp_all add: same_range_def bitno_def item_def num_ok_def fun_eq_iff)

definition range_max :: "bitlist_t \<Rightarrow> i32" where
  "range_max bl = base_bit (state bl) + max_bits (state bl) - 1"

lemma sint_range_max:
  assumes "num_ok bl" "0 < nbits bl"
  shows "sint (range_max bl) = int (unat (base_bit (state bl)) + nbits bl) - 1"
proof -
  obtain m where m: "nbits bl = Suc m" using assms(2) by (cases "nbits bl") auto
  have "max_bits (state bl) = of_nat (nbits bl)" by (simp add: nbits_def)
  then have "range_max bl = bitno bl (nbits bl - 1)"
    by (simp add: range_max_def bitno_def m)
  with sint_bitno [OF assms(1), of "nbits bl - 1"] assms(2) show ?thesis by simp
qed

lemma in_scan_range:
  assumes "num_ok bl" "k < nbits bl"
  shows "\<not> (sint (bitno bl k) < sint (base_bit (state bl)) \<or> sint (range_max bl) < sint (bitno bl k))"
  using sint_bitno [OF assms] sint_range_max [OF assms(1)] assms(2) sint_bitno [OF assms(1), of 0]
  by (simp add: bitno_def)

definition comma_rest :: "string \<Rightarrow> bool" where
  "comma_rest rest \<longleftrightarrow> rest = [] \<or> (\<exists>cs. rest = CHR '','' # cs \<and> cs \<noteq> [])"

lemma not_digit_chars [simp]: "\<not> is_digit (CHR '','')" "\<not> is_digit (CHR ''-'')"
  by (simp_all add: is_digit_def)

lemma after_item_ok:
  assumes "comma_rest (sc_list st)" "sc_error st = none"
  shows "sc_error (after_item st) = none \<and> sc_bl (after_item st) = sc_bl st \<and>
    sc_list (after_item st) = tl (sc_list st)"
  using assms by (auto simp: comma_rest_def after_item_def)

lemma scan_item_spec:
  fixes a b :: nat
  assumes st: "sc_error st = none" "bitlist_wf (sc_bl st)" and ok: "num_ok (sc_bl st)"
    and l: "sc_list st = item (sc_bl st) (a, b) @ rest" "comma_rest rest"
    and ab: "a \<le> b" "b < nbits (sc_bl st)"
  shows "\<exists>st'. scan_item (base_bit (state (sc_bl st))) (range_max (sc_bl st)) st = Some st' \<and>
    sc_error st' = none \<and> bitlist_wf (sc_bl st') \<and> state (sc_bl st') = state (sc_bl st) \<and>
    bitlist_members (sc_bl st') = bitlist_members (sc_bl st) \<union> {a..b} \<and> sc_list st' = tl rest"
proof -
  let ?bl = "sc_bl st"
  let ?na = "bitno ?bl a" and ?nb = "bitno ?bl b"
  have a: "a < nbits ?bl" using ab by simp
  have nd: "rest = [] \<or> \<not> is_digit (hd rest)" using l(2) by (auto simp: comma_rest_def)
  note rng = in_scan_range [OF ok]
  show ?thesis
  proof (cases "a < b")
    case False
    with ab have [simp]: "b = a" by simp
    have l': "sc_list st = fmt_d ?na @ rest" using l by (simp add: item_def)
    obtain j where n: "number_loop 0 (sc_charno st) (sc_list st) = (?na, j, rest)"
      using number_loop_bitno [OF ok a nd] l' by metis
    obtain bl' where set: "bitlist_set ?bl ?na = Some bl'" "bitlist_wf bl'"
      "bitlist_members bl' = bitlist_members ?bl \<union> {a..b}"
      using bl.ins_spec [OF st(2), of ?na] bitlist_pos_bitno [OF ok a] by auto
    let ?st = "st\<lparr>sc_number := ?na, sc_charno := j, sc_list := rest, sc_bl := bl'\<rparr>"
    have "scan_item (base_bit (state ?bl)) (range_max ?bl) st = Some (after_item ?st)"
      using n rng [OF a] hd_fmt_d [OF ok a, of rest] set(1) l(2) l'
      by (auto simp: scan_item_def Let_def comma_rest_def split: list.split)
    with after_item_ok [of ?st] l(2) set bitlist_set_state [OF set(1)] st show ?thesis by auto
  next
    case True
    let ?r = "fmt_d ?nb @ rest"
    have l': "sc_list st = fmt_d ?na @ CHR ''-'' # ?r" using l True by (simp add: item_def)
    obtain i where i: "number_loop 0 (sc_charno st) (sc_list st) = (?na, i, CHR ''-'' # ?r)"
      using number_loop_bitno [OF ok a, of "CHR ''-'' # ?r" "sc_charno st"] l' by auto
    obtain j where j: "number_loop 0 (i + 1) ?r = (?nb, j, rest)"
      using number_loop_bitno [OF ok ab(2) nd] by blast
    obtain bl' where set: "set_range ?bl ?na ?nb = Some bl'" "bitlist_wf bl'" "state bl' = state ?bl"
      "bitlist_members bl' = bitlist_members ?bl \<union> {a..b}"
      using set_range_spec [OF st(2) ok ab] by blast
    let ?st1 = "st\<lparr>sc_begin := ?na, sc_number := 0, sc_list := ?r, sc_charno := i + 1\<rparr>"
    let ?st = "?st1\<lparr>sc_number := ?nb, sc_charno := j, sc_list := rest, sc_bl := bl'\<rparr>"
    have "\<not> sint ?nb \<le> sint ?na" using sint_bitno [OF ok a] sint_bitno [OF ok ab(2)] True by simp
    moreover have "fmt_d ?nb \<noteq> []" using fmt_d_bitno [OF ok ab(2)] by simp
    ultimately have "range_item (base_bit (state ?bl)) (range_max ?bl) ?st1 = Some (after_item ?st)"
      using j rng [OF ab(2)] hd_fmt_d [OF ok ab(2), of rest] set(1)
      by (simp add: range_item_def Let_def)
    moreover have "scan_item (base_bit (state ?bl)) (range_max ?bl) st =
        range_item (base_bit (state ?bl)) (range_max ?bl) ?st1"
      using i rng [OF a] hd_fmt_d [OF ok a, of "CHR ''-'' # ?r"] l'
      by (simp add: scan_item_def Let_def)
    ultimately show ?thesis using after_item_ok [of ?st] l(2) set st by auto
  qed
qed

lemma seq_text_nonempty: "rs \<noteq> [] \<Longrightarrow> num_ok bl \<Longrightarrow> \<forall>r \<in> set rs. fst r < nbits bl \<Longrightarrow> seq_text bl comma rs \<noteq> []"
  by (cases rs) (auto simp: item_def fmt_d_bitno)

lemma seq_text_comma: "seq_text bl '','' rs = (if rs = [] then [] else '','' @ seq_text bl [] rs)"
  by (cases rs) simp_all

lemma scan_loop_spec:
  "sc_error st = none \<Longrightarrow> bitlist_wf (sc_bl st) \<Longrightarrow> num_ok (sc_bl st) \<Longrightarrow>
   sc_list st = seq_text (sc_bl st) [] rs \<Longrightarrow> \<forall>r \<in> set rs. fst r \<le> snd r \<and> snd r < nbits (sc_bl st) \<Longrightarrow>
   \<exists>st'. scan_loop (base_bit (state (sc_bl st))) (range_max (sc_bl st)) st = Some st' \<and>
     sc_error st' = none \<and> bitlist_wf (sc_bl st') \<and> state (sc_bl st') = state (sc_bl st) \<and>
     bitlist_members (sc_bl st') = bitlist_members (sc_bl st) \<union> set (expand rs)"
proof (induction rs arbitrary: st)
  case Nil
  then show ?case by (subst scan_loop.simps) simp
next
  case (Cons r rs)
  obtain a b where r: "r = (a, b)" by (cases r)
  let ?rest = "seq_text (sc_bl st) '','' rs"
  have ne: "rs \<noteq> [] \<Longrightarrow> seq_text (sc_bl st) [] rs \<noteq> []"
    using Cons.prems(3,5) by (intro seq_text_nonempty) fastforce+
  have rest: "comma_rest ?rest" using ne by (auto simp: seq_text_comma comma_rest_def)
  obtain st1 where st1: "scan_item (base_bit (state (sc_bl st))) (range_max (sc_bl st)) st = Some st1"
    "sc_error st1 = none" "bitlist_wf (sc_bl st1)" "state (sc_bl st1) = state (sc_bl st)"
    "bitlist_members (sc_bl st1) = bitlist_members (sc_bl st) \<union> {a..b}" "sc_list st1 = tl ?rest"
    using scan_item_spec [OF Cons.prems(1-3), of a b ?rest] Cons.prems(4,5) rest r by auto
  have same: "same_range (sc_bl st) (sc_bl st1)" using st1(4) by (simp add: same_range_def nbits_def)
  have sq: "seq_text (sc_bl st1) c rs = seq_text (sc_bl st) c rs" for c
    using same_range_simps(2) [OF same] by (induction rs arbitrary: c) simp_all
  have l1: "sc_list st1 = seq_text (sc_bl st1) [] rs" using st1(6) by (simp add: seq_text_comma sq)
  obtain st' where st': "scan_loop (base_bit (state (sc_bl st1))) (range_max (sc_bl st1)) st1 = Some st'"
    "sc_error st' = none" "bitlist_wf (sc_bl st')" "state (sc_bl st') = state (sc_bl st1)"
    "bitlist_members (sc_bl st') = bitlist_members (sc_bl st1) \<union> set (expand rs)"
    using Cons.IH [OF st1(2,3) _ l1] Cons.prems(3,5) same st1(4)
    by (auto simp: same_range_simps(3) [OF same] same_range_def)
  have "sc_list st \<noteq> []"
    using seq_text_nonempty [of "r # rs" "sc_bl st" "[]"] Cons.prems(3,4,5) by fastforce
  then have "scan_loop (base_bit (state (sc_bl st))) (range_max (sc_bl st)) st = Some st'"
    using Cons.prems(1) st1(1) st'(1) st1(4) by (subst scan_loop.simps) (simp add: range_max_def)
  moreover have "set (expand (r # rs)) = {a..b} \<union> set (expand rs)" using r by auto
  ultimately show ?case using st' st1 by auto
qed

lemma from_string_spec:
  assumes "bitlist_wf bl0" "same_range bl0 bl" "num_ok bl"
    and rs: "\<forall>r \<in> set rs. fst r \<le> snd r \<and> snd r < nbits bl"
  shows "\<exists>bl1. bitlist_from_string mem bl0 (seq_text bl [] rs) = Some (True, None, bl1) \<and>
    bitlist_wf bl1 \<and> same_range bl1 bl \<and>
    bitlist_members bl1 = bitlist_members bl0 \<union> set (expand rs)"
proof -
  let ?st = "\<lparr>sc_bl = bl0, sc_number = 0, sc_begin = 0, sc_charno = 1,
    sc_list = seq_text bl [] rs, sc_error = none\<rparr>"
  have sq: "seq_text bl0 c rs = seq_text bl c rs" for c
    using same_range_simps(2) [OF assms(2)] by (induction rs arbitrary: c) simp_all
  have "num_ok bl0" using assms(3) same_range_simps(3) [OF assms(2)] by simp
  moreover have "nbits bl0 = nbits bl" using assms(2) by (simp add: same_range_def)
  ultimately obtain st' where st': "scan_loop (base_bit (state bl0)) (range_max bl0) ?st = Some st'"
    "sc_error st' = none" "bitlist_wf (sc_bl st')" "state (sc_bl st') = state bl0"
    "bitlist_members (sc_bl st') = bitlist_members bl0 \<union> set (expand rs)"
    using scan_loop_spec [of ?st rs] assms(1) rs sq [of "[]"] by auto
  have "bitlist_from_string mem bl0 (seq_text bl [] rs) = Some (True, None, sc_bl st')"
    using st'(1,2) by (simp add: bitlist_from_string_def Let_def range_max_def)
  moreover have "same_range (sc_bl st') bl"
    using assms(2) st'(4) by (simp add: same_range_def nbits_def)
  ultimately show ?thesis using st'(3,5) by blast
qed

lemma expand_bound:
  assumes "set (expand rs) \<subseteq> {..<n}" "\<forall>r \<in> set rs. fst r \<le> snd r"
  shows "\<forall>r \<in> set rs. fst r \<le> snd r \<and> snd r < n"
  using assms by (induction rs) auto

lemma members_from_bound: "set (members_from bl p) \<subseteq> {..<nbits bl}"
  by (auto simp: members_from_def from_pos_def bitlist_members_def)

text \<open>The text reads back as the members \<open>D\<close>, into any list of the same range.\<close>

definition reads_as :: "bitlist_t \<Rightarrow> string \<Rightarrow> nat set \<Rightarrow> bool" where
  "reads_as bl s D \<longleftrightarrow>
     (\<forall>mem bl0. bitlist_wf bl0 \<and> same_range bl0 bl \<longrightarrow>
        (\<exists>bl1. bitlist_from_string mem bl0 s = Some (True, None, bl1) \<and> bitlist_wf bl1 \<and>
           same_range bl1 bl \<and> bitlist_members bl1 = bitlist_members bl0 \<union> D))"

lemma to_string_spec:
  assumes wf: "bitlist_wf bl" and ok: "num_ok bl" and st: "start_at bl beg p" and sz: "11 \<le> sint sz"
  shows "\<exists>n s bl' xs rest. bitlist_to_string bl sz beg = Some (n, s, bl') \<and>
    int (length s) < sint sz \<and> same_list bl bl' \<and> resumes bl' rest n \<and>
    members_from bl p = xs @ rest \<and> (xs = [] \<longrightarrow> rest = []) \<and> (s = [] \<longleftrightarrow> xs = []) \<and>
    reads_as bl s (set xs)"
proof -
  obtain n0 bl0 where f: "bitlist_find_bit bl beg = Some (n0, bl0)" "same_list bl bl0"
    "cursor_at bl0 (members_from bl p) n0" using find_bit_cursor [OF wf st] by blast
  have ok0: "num_ok bl0" using ok f(2) by (simp add: num_ok_cong)
  from to_string_loop_spec [OF ok0 f(3) sz, of "[]" "[]"]
  obtain n' bl' rs rest where l: "to_string_loop bl0 sz n0 [] [] = Some (n', seq_text bl0 [] rs, bl')"
    "same_list bl0 bl'" "members_from bl p = expand rs @ rest" "\<forall>r \<in> set rs. fst r \<le> snd r"
    "resumes bl' rest n'" "members_from bl p \<noteq> [] \<longrightarrow> rs \<noteq> []"
    "rs \<noteq> [] \<longrightarrow> int (length (seq_text bl0 [] rs)) < sint sz"
    unfolding prints_def by (metis append_Nil)
  let ?s = "seq_text bl [] rs"
  have s: "seq_text bl0 [] rs = ?s" by (rule seq_text_cong [OF f(2)])
  have "set (expand rs) \<subseteq> {..<nbits bl}" using members_from_bound [of bl p] l(3) by auto
  then have rs: "\<forall>r \<in> set rs. fst r \<le> snd r \<and> snd r < nbits bl" by (rule expand_bound) (rule l(4))
  have e: "expand rs = [] \<longleftrightarrow> rs = []" using l(4) by (cases rs) auto
  have ne: "?s = [] \<longleftrightarrow> rs = []" using seq_text_nonempty [of rs bl "[]"] ok rs by fastforce
  have r: "bitlist_to_string bl sz beg = Some (n', ?s, bl')"
    using f(1) l(1,3,5,6) s ne
    by (cases rest) (auto simp: bitlist_to_string_def resumes_def split: if_splits)
  have read: "reads_as bl ?s (set (expand rs))"
    unfolding reads_as_def using from_string_spec [OF _ _ ok rs] by blast
  have "int (length ?s) < sint sz" using l(7) ne sz s by (cases "rs = []") auto
  moreover have "same_list bl bl'" by (rule same_list_trans [OF f(2) l(2)])
  moreover have "expand rs = [] \<longrightarrow> rest = []" using l(3,6) e by auto
  ultimately show ?thesis using r l(3,5) ne e read by blast
qed

text \<open>
  C1: the printer and the parser.  A call of \<open>bitlist_to_string\<close> with a buffer of at least 11
  bytes writes a text that fits, for a first part of the members not yet passed, in
  increasing order; the return value and the cursor it leaves name the rest, on which the
  next call resumes.  \<open>bitlist_from_string\<close> accepts the text and adds exactly that part.
\<close>

theorem bitlist_text_roundtrip:
  assumes "bitlist_wf bl" "num_ok bl" "start_at bl beg p" "11 \<le> sint sz"
  shows "\<exists>n s bl' xs rest. bitlist_to_string bl sz beg = Some (n, s, bl') \<and>
    int (length s) < sint sz \<and> same_list bl bl' \<and> resumes bl' rest n \<and>
    members_from bl p = xs @ rest \<and> (xs = [] \<longrightarrow> rest = []) \<and> reads_as bl s (set xs)"
  using to_string_spec [OF assms] by blast

lemma demo_num_ok: "num_ok (demo_list 3 e)"
  by (simp add: num_ok_def demo_list_def nbits_def)

theorem bitlist_text_roundtrip_witness:
  "\<exists>n s bl'. bitlist_to_string (demo_list 3 5) 20 True = Some (n, s, bl') \<and> length s < 20"
  using bitlist_text_roundtrip [of "demo_list 3 5" True 0 20] demo_list_wf [of 3 5] demo_num_ok [of 5]
  by (auto simp: start_at_def)

section \<open>The lines of \<open>bitlist_nv_write\<close>\<close>

definition parse_all :: "bool \<Rightarrow> string list \<Rightarrow> bitlist_t \<Rightarrow> bitlist_t option" where
  "parse_all mem texts bl =
     foldM (\<lambda>b s. do { (ok, msg, b) \<leftarrow> bitlist_from_string mem b s;
                      if ok then Some b else None }) texts bl"

lemma parse_all_Cons:
  "parse_all mem (s # ss) bl = do { (ok, msg, b) \<leftarrow> bitlist_from_string mem bl s;
     if ok then parse_all mem ss b else None }"
  by (cases "bitlist_from_string mem bl s") (auto simp: parse_all_def)

definition all_read :: "bitlist_t \<Rightarrow> string list \<Rightarrow> nat set \<Rightarrow> bool" where
  "all_read bl texts D \<longleftrightarrow>
     (\<forall>mem bl0. bitlist_wf bl0 \<and> same_range bl0 bl \<longrightarrow>
        (\<exists>bl1. parse_all mem texts bl0 = Some bl1 \<and> bitlist_members bl1 = bitlist_members bl0 \<union> D))"

lemma all_read_Cons: "reads_as bl s D \<Longrightarrow> all_read bl ss E \<Longrightarrow> all_read bl (s # ss) (D \<union> E)"
proof -
  assume a: "reads_as bl s D" "all_read bl ss E"
  show ?thesis
    unfolding all_read_def
  proof (intro allI impI)
    fix mem bl0 assume bl0: "bitlist_wf bl0 \<and> same_range bl0 bl"
    then obtain bl1 where r: "bitlist_from_string mem bl0 s = Some (True, None, bl1)" "bitlist_wf bl1"
      "same_range bl1 bl" "bitlist_members bl1 = bitlist_members bl0 \<union> D"
      using a(1) unfolding reads_as_def by blast
    then obtain bl2 where "parse_all mem ss bl1 = Some bl2"
      "bitlist_members bl2 = bitlist_members bl1 \<union> E"
      using a(2) unfolding all_read_def by blast
    with r show "\<exists>bl1. parse_all mem (s # ss) bl0 = Some bl1 \<and>
        bitlist_members bl1 = bitlist_members bl0 \<union> (D \<union> E)"
      by (auto simp: parse_all_Cons)
  qed
qed

lemma all_read_Nil: "all_read bl [] {}"
  by (simp add: all_read_def parse_all_def)

lemma nv_write_loop_spec:
  "bitlist_wf bl \<Longrightarrow> num_ok bl \<Longrightarrow> start_at bl beg p \<Longrightarrow> 11 \<le> sint len \<Longrightarrow>
   \<exists>texts bl'. nv_write_loop bl len beg pre suf lines =
       Some (lines @ map (\<lambda>s. pre @ '' '' @ s @ suf) texts, bl') \<and>
     (\<forall>s \<in> set texts. int (length s) < sint len) \<and> all_read bl texts (set (members_from bl p))"
proof (induction "length (members_from bl p)" arbitrary: bl beg p lines rule: less_induct)
  case less
  obtain n s bl' xs rest where t: "bitlist_to_string bl len beg = Some (n, s, bl')"
    "int (length s) < sint len" "same_list bl bl'" "resumes bl' rest n"
    "members_from bl p = xs @ rest" "xs = [] \<longrightarrow> rest = []" "s = [] \<longleftrightarrow> xs = []"
    "reads_as bl s (set xs)"
    using to_string_spec [OF less.prems] by blast
  let ?line = "\<lambda>s. pre @ '' '' @ s @ suf"
  let ?lines = "if s \<noteq> [] then lines @ [?line s] else lines"
  have wf': "bitlist_wf bl'" using t(4) by (simp add: resumes_def)
  have ok': "num_ok bl'" using less.prems(2) t(3) by (simp add: num_ok_cong)
  show ?case
  proof (cases rest)
    case Nil
    then have "n = BITLIST_INVALID" using t(4) by (simp add: resumes_def)
    then have "nv_write_loop bl len beg pre suf lines = Some (?lines, bl')"
      using t(1) by (subst nv_write_loop.simps) (simp add: Let_def)
    moreover have "all_read bl [s] (set xs)" using all_read_Cons [OF t(8) all_read_Nil] by simp
    ultimately show ?thesis
      using Nil t all_read_Nil [of bl]
      by (intro exI [of _ "if s \<noteq> [] then [s] else []"] exI [of _ bl']) auto
  next
    case (Cons y ys)
    then obtain q where q: "n = bitno bl' y" "y < nbits bl'" "start_at bl' False q"
      "members_from bl' q = rest" using t(4) by (auto simp: resumes_def)
    then have n: "n \<noteq> BITLIST_INVALID" using bitno_valid [OF ok', of y] by simp
    have s: "s \<noteq> []" using t(6,7) Cons by auto
    have "length (members_from bl' q) < length (members_from bl p)"
      using q(4) t(5,6) Cons by (cases xs) auto
    from less.hyps [OF this wf' ok' q(3) less.prems(4), of ?lines] obtain texts bl'' where
      r: "nv_write_loop bl' len False pre suf ?lines = Some (?lines @ map ?line texts, bl'')"
        "\<forall>s \<in> set texts. int (length s) < sint len" "all_read bl' texts (set rest)"
      using q(4) by auto
    have "nv_write_loop bl len beg pre suf lines = nv_write_loop bl' len False pre suf ?lines"
      using t(1) n by (subst nv_write_loop.simps) (simp add: Let_def)
    moreover have "all_read bl texts (set rest)"
      using r(3) t(3) by (simp add: all_read_def same_range_def same_list_def nbits_def)
    then have "all_read bl (s # texts) (set (members_from bl p))"
      using all_read_Cons [OF t(8)] t(5) by simp
    ultimately show ?thesis
      using r s t(2) by (intro exI [of _ "s # texts"] exI [of _ bl'']) auto
  qed
qed

text \<open>
  C15: the line writer.  With room for 11 characters between prefix and suffix, and memory for
  the buffer, \<open>bitlist_nv_write\<close> terminates; its lines are the prefix, a blank, a text that
  fits in the buffer and the suffix, and parsing the texts in turn gives back all members.
\<close>

theorem bitlist_nv_write_complete:
  assumes "bitlist_wf bl" "num_ok bl"
    and len: "len = maxlen - (of_nat (length prefix) + 1 + of_nat (length suffix))" "11 \<le> sint len"
    and mem: "mem \<or> sint len \<le> 80"
  shows "\<exists>texts bl'. bitlist_nv_write mem bl prefix suffix maxlen =
      Some (True, map (\<lambda>s. prefix @ '' '' @ s @ suffix) texts, bl') \<and>
    (\<forall>s \<in> set texts. int (length s) < sint len) \<and>
    all_read bl texts (bitlist_members bl)"
proof -
  have "start_at bl True 0" by (simp add: start_at_def)
  from nv_write_loop_spec [OF assms(1,2) this len(2), of prefix suffix "[]"]
  obtain texts bl' where r: "nv_write_loop bl len True prefix suffix [] =
      Some (map (\<lambda>s. prefix @ '' '' @ s @ suffix) texts, bl')"
    "\<forall>s \<in> set texts. int (length s) < sint len" "all_read bl texts (set (members_from bl 0))"
    by auto
  have "set (members_from bl 0) = bitlist_members bl" by (simp add: members_from_def from_pos_def)
  moreover have "bitlist_nv_write mem bl prefix suffix maxlen =
      Some (True, map (\<lambda>s. prefix @ '' '' @ s @ suffix) texts, bl')"
    using r(1) mem unfolding bitlist_nv_write_def len(1) [symmetric] Let_def by auto
  ultimately show ?thesis using r(2,3) by auto
qed

theorem bitlist_nv_write_complete_witness:
  "\<exists>texts bl'. bitlist_nv_write False (demo_list 3 5) ''set'' ''.'' 20 =
      Some (True, map (\<lambda>s. ''set'' @ '' '' @ s @ ''.'') texts, bl') \<and>
    all_read (demo_list 3 5) texts (bitlist_members (demo_list 3 5))"
  using bitlist_nv_write_complete [of "demo_list 3 5" 15 20 "''set''" "''.''" False]
    demo_list_wf [of 3 5] demo_num_ok [of 5] by auto

section \<open>The dump\<close>

definition hex_item :: "bitlist_t \<Rightarrow> nat \<times> nat \<Rightarrow> string" where
  "hex_item bl r = ''0x'' @ fmt_x (bitno bl (fst r)) @
     (if fst r < snd r then ''-0x'' @ fmt_x (bitno bl (snd r)) else [])"

lemma find_after_next:
  assumes "cursor_at bl (x # ys) n"
  shows "\<exists>n' bl'. bitlist_find_after bl n = Some (n', bl') \<and> same_list bl bl' \<and> cursor_at bl' ys n'"
proof -
  have x: "x < nbits bl" using cursor_at_members(3) [OF assms] by simp
  have wf: "bitlist_wf bl" and n: "n - base_bit (state bl) = of_nat x"
    using assms by (simp_all add: cursor_at_def bitno_def)
  have "x < 2147483616" using x wf by (simp add: bitlist_wf_def)
  then have u: "unat (of_nat x :: i32) = x" by (simp add: unat_of_nat32)
  let ?bl = "reset_position bl (of_nat x)"
  note r = reset_position_at [OF wf x]
  have "cursor_at ?bl (x # ys) n"
    using assms r by (auto simp: cursor_at_def same_list_simps same_list_members_from)
  from find_bit_next [OF this] obtain n' bl' where
    f: "bitlist_find_bit ?bl False = Some (n', bl')" "same_list ?bl bl'" "cursor_at bl' ys n'" by auto
  have "?bl = bl\<lparr>state := (state bl)\<lparr>last_elem := BIT_TO_ELEM (of_nat x),
      last_bit := of_nat (BIT_TO_BIT (of_nat x))\<rparr>\<rparr>"
    by (simp add: reset_position_def)
  then have "bitlist_find_after bl n = Some (n', bl')"
    using f(1) x u by (simp add: bitlist_find_after_def n validbit_iff [OF wf])
  then show ?thesis using f same_list_trans [OF r(2) f(2)] by blast
qed

lemma dump_item_eq:
  assumes "num_ok bl" "a \<le> b" "b < nbits bl"
  shows "dump_item (bitno bl a) (bitno bl b) comma = hex_item bl (a, b) @ comma"
  using sint_bitno [OF assms(1,3)] sint_bitno [OF assms(1), of a] assms(2,3)
  by (auto simp: dump_item_def hex_item_def)

text \<open>The ranges \<open>rs\<close> are the maximal runs of \<open>xs\<close>, in order.\<close>

definition maximal_runs :: "nat list \<Rightarrow> (nat \<times> nat) list \<Rightarrow> bool" where
  "maximal_runs xs rs \<longleftrightarrow> expand rs = xs \<and> (\<forall>r \<in> set rs. fst r \<le> snd r) \<and>
     sorted_wrt (\<lambda>r s. Suc (snd r) < fst s) rs"

lemma dump_loop_spec:
  "num_ok bl \<Longrightarrow> cursor_at bl xs i \<Longrightarrow> a \<le> b \<Longrightarrow> b < nbits bl \<Longrightarrow> \<forall>x \<in> set xs. b < x \<Longrightarrow>
   \<exists>rs bl'. dump_loop bl i (bitno bl b) (bitno bl a) (bitno bl b) out =
       Some (out @ join '','' (map (hex_item bl) rs), bl') \<and>
     rs \<noteq> [] \<and> fst (hd rs) = a \<and> maximal_runs ([a..<Suc b] @ xs) rs"
proof (induction xs arbitrary: bl i a b out)
  case Nil
  then have "dump_loop bl i (bitno bl b) (bitno bl a) (bitno bl b) out = Some (out @ hex_item bl (a, b), bl)"
    by (subst dump_loop.simps) (simp add: cursor_at_def dump_item_eq)
  then show ?case using Nil(3) by (intro exI [of _ "[(a, b)]"] exI [of _ bl]) (simp add: maximal_runs_def)
next
  case (Cons x xs)
  have x: "x < nbits bl" "i = bitno bl x"
    using cursor_at_members(3) [OF Cons.prems(2)] Cons.prems(2) by (simp_all add: cursor_at_def)
  have valid: "i \<noteq> BITLIST_INVALID" using bitno_valid [OF Cons.prems(1), of x] x by simp
  have suc: "i = bitno bl b + 1 \<longleftrightarrow> x = Suc b"
    using bitno_inj [OF Cons.prems(1), of x "Suc b"] x Cons.prems(4) by (simp add: bitno_Suc)
  obtain n bl' where f: "bitlist_find_after bl i = Some (n, bl')" "same_list bl bl'" "cursor_at bl' xs n"
    using find_after_next [OF Cons.prems(2)] by blast
  have s: "bitno bl' = bitno bl" "nbits bl' = nbits bl" "hex_item bl' = hex_item bl"
    using f(2) by (simp_all add: same_list_simps hex_item_def fun_eq_iff)
  have ok': "num_ok bl'" using Cons.prems(1) f(2) by (simp add: num_ok_cong)
  have gt: "\<forall>y \<in> set xs. x < y" using cursor_at_members(2) [OF Cons.prems(2)] by simp
  show ?case
  proof (cases "x = Suc b")
    case True
    obtain rs bl'' where r: "dump_loop bl' n (bitno bl' x) (bitno bl' a) (bitno bl' x) out =
        Some (out @ join '','' (map (hex_item bl') rs), bl'')" "rs \<noteq> []" "fst (hd rs) = a"
      "maximal_runs ([a..<Suc x] @ xs) rs"
      using Cons.IH [OF ok' f(3) _ _ gt, of a out] Cons.prems(3) True x s by auto
    have "dump_loop bl i (bitno bl b) (bitno bl a) (bitno bl b) out =
        dump_loop bl' n i (bitno bl a) i out"
      using valid suc True f(1) by (subst dump_loop.simps) simp
    moreover have e: "[a..<Suc b] @ x # xs = [a..<Suc x] @ xs" using True Cons.prems(3) by simp
    ultimately have "dump_loop bl i (bitno bl b) (bitno bl a) (bitno bl b) out =
        Some (out @ join '','' (map (hex_item bl) rs), bl'') \<and> rs \<noteq> [] \<and> fst (hd rs) = a \<and>
        maximal_runs ([a..<Suc b] @ x # xs) rs"
      unfolding e using r s x by (simp del: upt_Suc)
    then show ?thesis by blast
  next
    case False
    let ?out = "out @ hex_item bl (a, b) @ '',''"
    obtain rs bl'' where r: "dump_loop bl' n (bitno bl' x) (bitno bl' x) (bitno bl' x) ?out =
        Some (?out @ join '','' (map (hex_item bl') rs), bl'')" "rs \<noteq> []" "fst (hd rs) = x"
      "maximal_runs ([x..<Suc x] @ xs) rs"
      using Cons.IH [OF ok' f(3) _ _ gt, of x ?out] x s by auto
    have "dump_loop bl i (bitno bl b) (bitno bl a) (bitno bl b) out = dump_loop bl' n i i i ?out"
      using valid suc False f(1) dump_item_eq [OF Cons.prems(1,3,4)]
      by (subst dump_loop.simps) simp
    moreover have "maximal_runs ([a..<Suc b] @ x # xs) ((a, b) # rs)"
    proof -
      have "Suc b < x" using False Cons.prems(5) by auto
      then have "\<forall>s \<in> set rs. Suc b < fst s"
        using r(2-4) unfolding maximal_runs_def by (cases rs) auto
      then show ?thesis using r(4) Cons.prems(3) by (simp add: maximal_runs_def)
    qed
    ultimately show ?thesis
      using r s x by (intro exI [of _ "(a, b) # rs"] exI [of _ bl'']) (simp add: join_Cons)
  qed
qed

lemma sint_pred: "0 \<le> sint (n :: i32) \<Longrightarrow> \<not> sint n < sint (n - 1)"
proof -
  assume n: "0 \<le> sint n"
  show ?thesis
  proof (cases "n = 0")
    case False
    have "unat n < 2147483648" using n sint_neg_iff32 [of n] by linarith
    moreover have "unat (n - 1) = unat n - 1"
      using False by (subst unat_sub) (simp_all add: word_le_nat_alt Suc_le_eq unat_gt_0)
    moreover have "unat (n - 1) < 2147483648" using calculation by linarith
    ultimately show ?thesis using sint_eq_unat32 [of n] sint_eq_unat32 [of "n - 1"] by linarith
  qed simp
qed

text \<open>
  the dump.  \<open>bitlist_dump\<close> prints the maximal runs of consecutive members, in increasing
  order, each once, as \<open>0xa-0xb\<close> or \<open>0xa\<close>, separated by commas; it terminates.
\<close>

theorem bitlist_dump_runs:
  assumes "bitlist_wf bl" "num_ok bl"
  shows "\<exists>rs bl'. bitlist_dump bl = Some (join '','' (map (hex_item bl) rs), bl') \<and>
    maximal_runs (sorted_list_of_set (bitlist_members bl)) rs"
proof -
  have all: "members_from bl 0 = sorted_list_of_set (bitlist_members bl)"
    by (simp add: members_from_def from_pos_def)
  have "start_at bl True 0" by (simp add: start_at_def)
  then obtain n bl0 where f: "bitlist_find_first bl = Some (n, bl0)" "same_list bl bl0"
    "cursor_at bl0 (members_from bl 0) n"
    using find_bit_cursor [OF assms(1)] unfolding bitlist_find_first_def by blast
  have ok0: "num_ok bl0" using assms(2) f(2) by (simp add: num_ok_cong)
  have s: "bitno bl0 = bitno bl" "nbits bl0 = nbits bl" "hex_item bl0 = hex_item bl"
    using f(2) by (simp_all add: same_list_simps hex_item_def fun_eq_iff)
  show ?thesis
  proof (cases "members_from bl 0")
    case Nil
    then have "n = BITLIST_INVALID" using f(3) by (simp add: cursor_at_def)
    moreover have "dump_item BITLIST_INVALID (BITLIST_INVALID - 1) [] = []" by code_simp
    ultimately have "bitlist_dump bl = Some ([], bl0)"
      using f(1) by (simp add: bitlist_dump_def dump_loop.simps)
    then show ?thesis using Nil all
      by (intro exI [of _ "[]"] exI [of _ bl0]) (simp add: maximal_runs_def)
  next
    case (Cons x xs)
    have c: "cursor_at bl0 (x # xs) n" using f(3) Cons by simp
    have x: "x < nbits bl0" "n = bitno bl0 x"
      using cursor_at_members(3) [OF c] c by (simp_all add: cursor_at_def)
    have gt: "\<forall>y \<in> set xs. x < y" using cursor_at_members(2) [OF c] by simp
    have valid: "n \<noteq> BITLIST_INVALID" using bitno_valid [OF ok0, of x] x by simp
    obtain n1 bl1 where f1: "bitlist_find_after bl0 n = Some (n1, bl1)" "same_list bl0 bl1"
      "cursor_at bl1 xs n1" using find_after_next [OF c] by blast
    have s1: "bitno bl1 = bitno bl0" "nbits bl1 = nbits bl0" "hex_item bl1 = hex_item bl0"
      using f1(2) by (simp_all add: same_list_simps hex_item_def fun_eq_iff)
    have ok1: "num_ok bl1" using ok0 f1(2) by (simp add: num_ok_cong)
    have "0 \<le> sint n" using sint_bitno [OF ok0 x(1)] x(2) by simp
    then have "dump_item n (n - 1) '','' = []" using sint_pred [of n] by (simp add: dump_item_def)
    moreover have "n - 2 + 1 = n - 1" by simp
    then have "n \<noteq> n - 2 + 1" by simp
    ultimately have "bitlist_dump bl = dump_loop bl1 n1 n n n []"
      using f(1) f1(1) valid by (simp add: bitlist_dump_def dump_loop.simps [of bl0])
    moreover obtain rs bl' where "dump_loop bl1 n1 (bitno bl1 x) (bitno bl1 x) (bitno bl1 x) [] =
        Some ([] @ join '','' (map (hex_item bl1) rs), bl')"
      "maximal_runs ([x..<Suc x] @ xs) rs"
      using dump_loop_spec [OF ok1 f1(3) order_refl _ , of x "[]"] x gt s1 by auto
    ultimately show ?thesis using x s s1 all Cons by auto
  qed
qed

theorem bitlist_dump_runs_witness:
  "\<exists>rs bl'. bitlist_dump (demo_list 3 5) = Some (join '','' (map (hex_item (demo_list 3 5)) rs), bl')"
  using bitlist_dump_runs [of "demo_list 3 5"] demo_list_wf [of 3 5] demo_num_ok [of 5] by auto

end
