(* ===== verification/CircBuffer.thy ===== *)
theory CircBuffer
  imports Interfaces
begin

text \<open>
  \<open>src/circ_buffer.c\<close> and \<open>src/circ_buffer.h\<close>: a circular buffer of pointers with one spare
  cell, an optional overwriting mode, a cleanup callback and a table of operations.  The
  cursors \<open>curr\<close> and \<open>base\<close> are offsets into \<open>buffer\<close>; the calls of the cleanup callback are
  a result, the list of the data it was given.  Raising and restoring the interrupt level
  changes no data and is left out, as are the debug messages.
\<close>

section \<open>Header, flags and operation table\<close>

definition CB_FLAGS_OVERWRITE :: u16 where "CB_FLAGS_OVERWRITE = 0x0001"
definition CB_FLAGS_INTERRUPT_SAFE :: u16 where "CB_FLAGS_INTERRUPT_SAFE = 0x0002"
definition CB_FLAGS_USER :: u16 where "CB_FLAGS_USER = 0x000F"
definition CB_FLAGS_MALLOC :: u16 where "CB_FLAGS_MALLOC = 0x0010"
definition CB_FLAGS_VALID :: u16 where "CB_FLAGS_VALID = 0x8000"

lemmas cb_flags = CB_FLAGS_OVERWRITE_def CB_FLAGS_INTERRUPT_SAFE_def CB_FLAGS_USER_def
  CB_FLAGS_MALLOC_def CB_FLAGS_VALID_def

text \<open>A function pointer of the table: \<open>NULL\<close>, the default of this file, or one of a client.\<close>

datatype code_ptr = Null | Default | User nat

record cbuf_action_t =
  enqueue :: code_ptr
  dequeue :: code_ptr
  pqueue :: code_ptr
  reset :: code_ptr
  lookup :: code_ptr

definition cbuf_action_vectors_default :: cbuf_action_t where
  "cbuf_action_vectors_default = \<lparr>enqueue = Default, dequeue = Default, pqueue = Default,
     reset = Default, lookup = Default\<rparr>"

record cbuf_header =
  buffer :: "u64 list"
  curr :: nat
  base :: nat
  flags :: u16
  count :: u64
  max :: u64
  name :: string
  action :: cbuf_action_t
  cleanup_func :: bool

definition CB_VALID :: "u16 \<Rightarrow> bool" where
  "CB_VALID fl \<longleftrightarrow> fl AND CB_FLAGS_VALID \<noteq> 0"

definition CB_EMPTY :: "cbuf_header \<Rightarrow> bool" where
  "CB_EMPTY hdr \<longleftrightarrow> count hdr = 0"

definition CB_FULL :: "cbuf_header \<Rightarrow> bool" where
  "CB_FULL hdr \<longleftrightarrow> count hdr = max hdr - 1"

definition CB_COUNT :: "cbuf_header \<Rightarrow> u64" where
  "CB_COUNT hdr = count hdr"

definition CB_GET_DATA :: "cbuf_header \<Rightarrow> nat \<Rightarrow> u64 option" where
  "CB_GET_DATA hdr node = rd (buffer hdr) node"

definition CB_SET_DATA :: "cbuf_header \<Rightarrow> nat \<Rightarrow> u64 \<Rightarrow> cbuf_header option" where
  "CB_SET_DATA hdr node data = do { b \<leftarrow> wr (buffer hdr) node data; Some (hdr\<lparr>buffer := b\<rparr>) }"

text \<open>\<open>p++\<close>, back to the first cell when it reaches \<open>&buffer[max]\<close>.\<close>

definition cb_next :: "cbuf_header \<Rightarrow> nat \<Rightarrow> nat" where
  "cb_next hdr node = (if unat (max hdr) \<le> Suc node then 0 else Suc node)"

section \<open>The default operations\<close>

definition cbuf_enqueue_default :: "cbuf_header \<Rightarrow> u64 \<Rightarrow> (bool \<times> u64 list \<times> cbuf_header) option" where
  "cbuf_enqueue_default chdr data =
     (if \<not> CB_VALID (flags chdr) then Some (False, [], chdr)
      else if (CB_FULL chdr \<and> flags chdr AND CB_FLAGS_OVERWRITE \<noteq> 0) \<or> \<not> CB_FULL chdr then do {
        chdr \<leftarrow> CB_SET_DATA chdr (curr chdr) data;
        let chdr = chdr\<lparr>count := count chdr + 1, curr := cb_next chdr (curr chdr)\<rparr>;
        if curr chdr = base chdr then do {
          chdata \<leftarrow> (if cleanup_func chdr then map_option (\<lambda>d. [d]) (CB_GET_DATA chdr (base chdr))
                     else Some []);
          Some (True, chdata, chdr\<lparr>base := cb_next chdr (base chdr), count := count chdr - 1\<rparr>) }
        else Some (True, [], chdr) }
      else Some (True, [], chdr))"

text \<open>A \<open>NULL\<close> result is 0, as is a stored null pointer.\<close>

definition cbuf_dequeue_default :: "cbuf_header \<Rightarrow> (u64 \<times> cbuf_header) option" where
  "cbuf_dequeue_default chdr =
     (if \<not> CB_VALID (flags chdr) then Some (0, chdr)
      else if CB_EMPTY chdr then Some (0, chdr)
      else do {
        data \<leftarrow> CB_GET_DATA chdr (base chdr);
        let chdr = chdr\<lparr>count := count chdr - 1, base := cb_next chdr (base chdr)\<rparr>;
        let chdr = (if base chdr = curr chdr \<and> count chdr \<noteq> 0 then chdr\<lparr>count := 0\<rparr> else chdr);
        Some (data, chdr) })"

definition cbuf_peekqueue_default :: "cbuf_header \<Rightarrow> u64 option" where
  "cbuf_peekqueue_default chdr =
     (if \<not> CB_VALID (flags chdr) then Some 0
      else if CB_EMPTY chdr then Some 0
      else CB_GET_DATA chdr (base chdr))"

text \<open>The walk of \<open>runner\<close> from \<open>base\<close> to \<open>curr\<close>; the data it sees.\<close>

partial_function (option) cbuf_walk :: "cbuf_header \<Rightarrow> nat \<Rightarrow> u64 list option" where
  "cbuf_walk chdr runner =
     (if runner \<noteq> curr chdr then do {
        cbdata \<leftarrow> CB_GET_DATA chdr runner;
        rest \<leftarrow> cbuf_walk chdr (cb_next chdr runner);
        Some (cbdata # rest) }
      else Some [])"

definition cbuf_reset_default :: "cbuf_header \<Rightarrow> (bool \<times> u64 list \<times> cbuf_header) option" where
  "cbuf_reset_default chdr =
     (let empty = chdr\<lparr>base := 0, curr := 0, count := 0\<rparr>
      in if \<not> CB_VALID (flags chdr) then Some (False, [], chdr)
         else if CB_EMPTY chdr \<or> \<not> cleanup_func chdr then Some (True, [], empty)
         else do { cleaned \<leftarrow> cbuf_walk chdr (base chdr); Some (True, cleaned, empty) })"

text \<open>\<open>eq cbdata data\<close> is the client's comparison returning 0.\<close>

partial_function (option) cbuf_lookup_loop ::
  "cbuf_header \<Rightarrow> u64 \<Rightarrow> (u64 \<Rightarrow> u64 \<Rightarrow> bool) \<Rightarrow> nat \<Rightarrow> u64 option" where
  "cbuf_lookup_loop chdr data eq runner =
     (if runner \<noteq> curr chdr then do {
        cbdata \<leftarrow> CB_GET_DATA chdr runner;
        if eq cbdata data then Some cbdata else cbuf_lookup_loop chdr data eq (cb_next chdr runner) }
      else Some 0)"

definition cbuf_lookup_default :: "cbuf_header \<Rightarrow> u64 \<Rightarrow> (u64 \<Rightarrow> u64 \<Rightarrow> bool) \<Rightarrow> u64 option" where
  "cbuf_lookup_default chdr data eq =
     (if \<not> CB_VALID (flags chdr) then Some 0
      else if CB_EMPTY chdr then Some 0
      else cbuf_lookup_loop chdr data eq (base chdr))"

declare cbuf_walk.simps [code] cbuf_lookup_loop.simps [code]

section \<open>Dispatch, creation and destruction\<close>

text \<open>
  \<open>cbuf_set_action\<close>.  \<open>act\<close> is \<open>None\<close> for \<open>NULL\<close>; the table it points to is changed in place,
  so it is also a result.  \<open>chdr\<close> is \<open>None\<close> for \<open>NULL\<close>.
\<close>

definition cbuf_set_action ::
  "cbuf_header option \<Rightarrow> cbuf_action_t option \<Rightarrow> bool \<times> cbuf_header option \<times> cbuf_action_t option" where
  "cbuf_set_action chdr act =
     (case chdr of
        None \<Rightarrow> (False, None, act)
      | Some h \<Rightarrow>
          (case act of
             None \<Rightarrow> (True, Some (h\<lparr>action := cbuf_action_vectors_default\<rparr>), None)
           | Some a \<Rightarrow>
               let a = (if enqueue a = Null then a\<lparr>enqueue := Default\<rparr> else a);
                   a = (if dequeue a = Null then a\<lparr>dequeue := Default\<rparr> else a);
                   a = (if lookup a = Null then a\<lparr>lookup := Default\<rparr> else a)
               in (True, Some (h\<lparr>action := a\<rparr>), Some a)))"

text \<open>
  The inline functions of the header call through the table.  A call through \<open>NULL\<close> has no
  defined result; \<open>user k\<close> stands for the client's function \<open>k\<close>.
\<close>

definition call :: "code_ptr \<Rightarrow> 'r option \<Rightarrow> (nat \<Rightarrow> 'r option) \<Rightarrow> 'r option" where
  "call p dflt user = (case p of Null \<Rightarrow> None | Default \<Rightarrow> dflt | User k \<Rightarrow> user k)"

definition cbuf_enqueue where
  "cbuf_enqueue user chdr data = call (enqueue (action chdr)) (cbuf_enqueue_default chdr data) user"

definition cbuf_dequeue where
  "cbuf_dequeue user chdr = call (dequeue (action chdr)) (cbuf_dequeue_default chdr) user"

definition cbuf_reset where
  "cbuf_reset user chdr = call (reset (action chdr)) (cbuf_reset_default chdr) user"

definition cbuf_peekqueue where
  "cbuf_peekqueue user chdr = call (pqueue (action chdr)) (cbuf_peekqueue_default chdr) user"

definition cbuf_lookup where
  "cbuf_lookup user chdr data eq = call (lookup (action chdr)) (cbuf_lookup_default chdr data eq) user"

text \<open>Headers by address, the global queue \<open>cbufQ\<close>, and the addresses handed to \<open>free\<close>.\<close>

record cbuf_world =
  headers :: "nat \<rightharpoonup> cbuf_header"
  cbufQ :: "nat list"
  freed :: "nat list"

definition zero_header :: cbuf_header where
  "zero_header = \<lparr>buffer = [], curr = 0, base = 0, flags = 0, count = 0, max = 0, name = [],
     action = \<lparr>enqueue = Null, dequeue = Null, pqueue = Null, reset = Null, lookup = Null\<rparr>,
     cleanup_func = False\<rparr>"

text \<open>
  \<open>malloc\<close> is a parameter: \<open>mem_hdr\<close> is the address and the indeterminate contents of a new
  header, \<open>mem_buf n\<close> those of \<open>n\<close> cells, \<open>None\<close> for \<open>NULL\<close>.  \<open>chdr\<close> is \<open>None\<close> when the caller
  passes \<open>NULL\<close>.  The result is the address returned, \<open>None\<close> for \<open>NULL\<close>, and the world.
\<close>

definition cbuf_create ::
  "cbuf_world \<Rightarrow> nat option \<Rightarrow> (nat \<times> cbuf_header) option \<Rightarrow> (nat \<Rightarrow> u64 list option) \<Rightarrow> u16 \<Rightarrow>
     string option \<Rightarrow> u16 \<Rightarrow> bool \<Rightarrow> nat option \<times> cbuf_world" where
  "cbuf_create w chdr mem_hdr mem_buf mx nm fl clfunc =
     (if mx = 0 then (None, w)
      else
        (case (case chdr of
                 None \<Rightarrow> map_option (\<lambda>(p, h). (p, h\<lparr>flags := flags h OR CB_FLAGS_MALLOC\<rparr>)) mem_hdr
               | Some p \<Rightarrow> Some (p, zero_header)) of
           None \<Rightarrow> (None, w)
         | Some (p, h) \<Rightarrow>
             let cmax = unat mx + 1;
                 h = h\<lparr>max := of_nat cmax, count := 0,
                       name := (case nm of Some s \<Rightarrow> s | None \<Rightarrow> ''(unknown)''),
                       flags := flags h OR (fl AND CB_FLAGS_USER), cleanup_func := clfunc\<rparr>
             in (case mem_buf cmax of
                   None \<Rightarrow> (None, w\<lparr>headers := (headers w)(p := None), freed := p # freed w\<rparr>)
                 | Some cells \<Rightarrow>
                     let h = h\<lparr>buffer := cells, curr := 0, base := 0\<rparr>;
                         q = cbufQ w @ [p];
                         h = h\<lparr>action := cbuf_action_vectors_default,
                               flags := flags h OR CB_FLAGS_VALID\<rparr>
                     in (Some p, w\<lparr>headers := (headers w)(p \<mapsto> h), cbufQ := q\<rparr>))))"

definition cbuf_destroy :: "cbuf_world \<Rightarrow> nat \<Rightarrow> (bool \<times> u64 list \<times> cbuf_world) option" where
  "cbuf_destroy w p =
     do { h \<leftarrow> headers w p;
          cleaned \<leftarrow> (if \<not> CB_EMPTY h \<and> cleanup_func h then cbuf_walk h (base h) else Some []);
          let h = h\<lparr>flags := flags h AND NOT CB_FLAGS_VALID\<rparr>;
          let q = remove1 p (cbufQ w);
          let h = h\<lparr>buffer := []\<rparr>;
          if flags h AND CB_FLAGS_MALLOC \<noteq> 0
          then Some (True, cleaned, w\<lparr>headers := (headers w)(p := None), cbufQ := q,
                                      freed := p # freed w\<rparr>)
          else Some (True, cleaned, w\<lparr>headers := (headers w)(p \<mapsto> h), cbufQ := q\<rparr>) }"

section \<open>The invariant and the queue it stands for\<close>

definition slots :: "cbuf_header \<Rightarrow> nat" where
  "slots h = unat (max h)"

definition cb_len :: "cbuf_header \<Rightarrow> nat" where
  "cb_len h = unat (count h)"

definition cb_wf :: "cbuf_header \<Rightarrow> bool" where
  "cb_wf h \<longleftrightarrow> 2 \<le> slots h \<and> length (buffer h) = slots h \<and> base h < slots h \<and>
     cb_len h < slots h \<and> curr h = (base h + cb_len h) mod slots h \<and> CB_VALID (flags h)"

definition contents :: "cbuf_header \<Rightarrow> u64 list" where
  "contents h = map (\<lambda>i. buffer h ! ((base h + i) mod slots h)) [0..<cb_len h]"

lemma length_contents [simp]: "length (contents h) = cb_len h"
  by (simp add: contents_def)

lemma cb_next_mod: "n < slots h \<Longrightarrow> cb_next h n = Suc n mod slots h"
  by (auto simp: cb_next_def slots_def mod_Suc)

lemma cb_full_iff: "cb_wf h \<Longrightarrow> CB_FULL h \<longleftrightarrow> Suc (cb_len h) = slots h"
proof -
  assume "cb_wf h"
  then have "unat (max h - 1) = unat (max h) - 1"
    by (subst unat_sub) (auto simp: cb_wf_def slots_def word_le_nat_alt)
  with \<open>cb_wf h\<close> show ?thesis
    unfolding CB_FULL_def word_unat_eq_iff cb_wf_def slots_def cb_len_def by linarith
qed

lemma cb_empty_iff: "CB_EMPTY h \<longleftrightarrow> contents h = []"
  using length_0_conv [of "contents h"] by (simp add: CB_EMPTY_def cb_len_def unat_eq_0)

lemma nth_contents: "i < cb_len h \<Longrightarrow> contents h ! i = buffer h ! ((base h + i) mod slots h)"
  by (simp add: contents_def)

lemma cb_wf_curr: "cb_wf h \<Longrightarrow> curr h < length (buffer h) \<and> curr h < slots h"
  by (auto simp: cb_wf_def)

text \<open>The state after the store of \<open>data\<close> and the two increments.\<close>

definition stored :: "cbuf_header \<Rightarrow> u64 \<Rightarrow> cbuf_header" where
  "stored h data = h\<lparr>buffer := (buffer h)[curr h := data], count := count h + 1,
     curr := cb_next h (curr h)\<rparr>"

lemma stored_simps:
  assumes "cb_wf h"
  shows "slots (stored h d) = slots h" "base (stored h d) = base h" "flags (stored h d) = flags h"
    "cb_len (stored h d) = Suc (cb_len h)"
    "curr (stored h d) = (base h + Suc (cb_len h)) mod slots h"
    "cleanup_func (stored h d) = cleanup_func h" "length (buffer (stored h d)) = slots h"
proof -
  show "cb_len (stored h d) = Suc (cb_len h)"
    using assms unat_Suc_word [of "count h" "max h"]
    by (simp add: stored_def cb_len_def cb_wf_def slots_def)
  show "curr (stored h d) = (base h + Suc (cb_len h)) mod slots h"
    using assms cb_wf_curr [OF assms] by (simp add: stored_def cb_next_mod cb_wf_def mod_Suc_eq)
qed (use assms in \<open>simp_all add: stored_def slots_def cb_wf_def\<close>)

lemma nth_stored:
  assumes "cb_wf h" "i \<le> cb_len h"
  shows "buffer (stored h d) ! ((base h + i) mod slots h) =
    (if i = cb_len h then d else contents h ! i)"
proof -
  have "(base h + i) mod slots h = curr h \<longleftrightarrow> i = cb_len h"
    using assms mod_add_inj [of i "slots h" "cb_len h" "base h"] by (auto simp: cb_wf_def)
  moreover have "(base h + i) mod slots h < length (buffer h)" using assms by (auto simp: cb_wf_def)
  ultimately show ?thesis
    using assms by (auto simp: stored_def nth_list_update nth_contents)
qed

lemma enqueue_stored:
  assumes "cb_wf h" "CB_FULL h \<Longrightarrow> flags h AND CB_FLAGS_OVERWRITE \<noteq> 0"
  shows "cbuf_enqueue_default h d =
    (let s = stored h d in
     if curr s = base s then do {
       chdata \<leftarrow> (if cleanup_func s then map_option (\<lambda>d. [d]) (CB_GET_DATA s (base s)) else Some []);
       Some (True, chdata, s\<lparr>base := cb_next s (base s), count := count s - 1\<rparr>) }
     else Some (True, [], s))"
proof -
  have "CB_SET_DATA h (curr h) d = Some (h\<lparr>buffer := (buffer h)[curr h := d]\<rparr>)"
    using cb_wf_curr [OF assms(1)] by (simp add: CB_SET_DATA_def wr_in)
  moreover have "CB_VALID (flags h)" using assms(1) by (simp add: cb_wf_def)
  ultimately show ?thesis
    using assms(2) by (cases "CB_FULL h")
      (simp_all add: cbuf_enqueue_default_def Let_def stored_def cb_next_def)
qed

lemma cb_enqueue_room:
  assumes wf: "cb_wf h" and room: "Suc (cb_len h) < slots h"
  shows "cbuf_enqueue_default h d = Some (True, [], stored h d) \<and> cb_wf (stored h d) \<and>
    contents (stored h d) = contents h @ [d]"
proof -
  note s = stored_simps [OF wf, of d]
  have ne: "curr (stored h d) \<noteq> base (stored h d)"
    using mod_add_inj [of "Suc (cb_len h)" "slots h" 0 "base h"] room wf by (simp add: s cb_wf_def)
  have "cbuf_enqueue_default h d = Some (True, [], stored h d)"
    using enqueue_stored [OF wf, of d] room cb_full_iff [OF wf] ne by (simp add: Let_def)
  moreover have "cb_wf (stored h d)" using wf room by (simp add: cb_wf_def s)
  moreover have "contents (stored h d) = contents h @ [d]"
    using nth_stored [OF wf] by (intro nth_equalityI) (auto simp: s nth_contents nth_append less_Suc_eq_le)
  ultimately show ?thesis by simp
qed

lemma cb_enqueue_full:
  assumes wf: "cb_wf h" and full: "Suc (cb_len h) = slots h"
  shows "if flags h AND CB_FLAGS_OVERWRITE \<noteq> 0
    then \<exists>h'. cbuf_enqueue_default h d =
           Some (True, if cleanup_func h then [hd (contents h)] else [], h') \<and> cb_wf h' \<and>
           slots h' = slots h \<and> flags h' = flags h \<and> contents h' = tl (contents h) @ [d]
    else cbuf_enqueue_default h d = Some (True, [], h)"
proof (cases "flags h AND CB_FLAGS_OVERWRITE \<noteq> 0")
  case True
  define s where "s = stored h d"
  define h' where "h' = s\<lparr>base := cb_next s (base s), count := count s - 1\<rparr>"
  note st = stored_simps [OF wf, of d, folded s_def]
  have bm: "base h < slots h" and pos: "0 < cb_len h" using wf full by (auto simp: cb_wf_def)
  have eq: "curr s = base s" using bm full by (simp add: st)
  have "contents h \<noteq> []" using pos length_contents [of h] by fastforce
  then have hd: "rd (buffer s) (base s) = Some (hd (contents h))"
    using nth_stored [OF wf, of 0 d] bm pos by (simp add: st s_def [symmetric] rd_def hd_conv_nth)
  have e: "cbuf_enqueue_default h d = Some (True, if cleanup_func h then [hd (contents h)] else [], h')"
    using enqueue_stored [OF wf, of d] True eq hd st(6)
    by (simp add: CB_GET_DATA_def Let_def s_def [symmetric] h'_def)
  have "cb_len h' = unat (count s - 1)" by (simp add: cb_len_def h'_def)
  also have "count s - 1 = count h" by (simp add: s_def stored_def)
  finally have len: "cb_len h' = cb_len h" by (simp add: cb_len_def)
  have sl: "slots h' = slots h" "flags h' = flags h" "buffer h' = buffer s" "curr h' = base h"
    using st eq by (simp_all add: h'_def slots_def)
  have base': "base h' = Suc (base h) mod slots h"
    using cb_next_mod [of "base s" s] bm by (simp add: h'_def st)
  have idx: "(base h' + i) mod slots h = (base h + Suc i) mod slots h" for i
    by (simp add: base' mod_add_left_eq)
  have "base h' < slots h" using bm by (simp add: base')
  then have "cb_wf h'"
    using wf full bm idx [of "cb_len h"] st(7) by (simp add: cb_wf_def len sl)
  moreover have "contents h' = tl (contents h) @ [d]"
  proof (rule nth_equalityI)
    fix i assume i: "i < length (contents h')"
    then have "contents h' ! i = buffer s ! ((base h + Suc i) mod slots h)"
      by (simp add: nth_contents sl idx)
    also have "\<dots> = (if Suc i = cb_len h then d else contents h ! Suc i)"
      using nth_stored [OF wf, of "Suc i" d, folded s_def] i by (simp add: len)
    finally show "contents h' ! i = (tl (contents h) @ [d]) ! i"
      using i by (auto simp: len nth_append nth_tl)
  qed (use pos in \<open>simp add: len\<close>)
  ultimately show ?thesis using e True sl by auto
next
  case False
  then show ?thesis using wf full cb_full_iff [OF wf]
    by (simp add: cbuf_enqueue_default_def cb_wf_def)
qed

lemma cb_base_data: "cb_wf h \<Longrightarrow> contents h \<noteq> [] \<Longrightarrow> CB_GET_DATA h (base h) = Some (hd (contents h))"
  using nth_contents [of 0 h] length_contents [of h]
  by (cases "contents h") (auto simp: CB_GET_DATA_def cb_wf_def rd_def)

lemma cb_dequeue_spec:
  assumes wf: "cb_wf h"
  shows "\<exists>h'. cbuf_dequeue_default h = Some (if contents h = [] then 0 else hd (contents h), h') \<and>
    cb_wf h' \<and> slots h' = slots h \<and> flags h' = flags h \<and> contents h' = tl (contents h)"
proof (cases "contents h = []")
  case True
  then have "CB_EMPTY h" by (simp add: cb_empty_iff)
  then show ?thesis using wf True by (auto simp: cbuf_dequeue_default_def cb_wf_def)
next
  case False
  define h' where "h' = h\<lparr>count := count h - 1, base := cb_next h (base h)\<rparr>"
  have pos: "0 < cb_len h" using False by (metis length_contents length_greater_0_conv)
  have bm: "base h < slots h" using wf by (simp add: cb_wf_def)
  have len: "cb_len h' = cb_len h - 1"
    using pos by (simp add: h'_def cb_len_def unat_minus_one unat_gt_0)
  have sl: "slots h' = slots h" "flags h' = flags h" "buffer h' = buffer h" "curr h' = curr h"
    "base h' = Suc (base h) mod slots h"
    using bm by (simp_all add: h'_def slots_def cb_next_mod [unfolded slots_def])
  have idx: "(base h' + i) mod slots h = (base h + Suc i) mod slots h" for i
    by (simp add: sl mod_add_left_eq)
  have wf': "cb_wf h'"
    using wf pos bm idx [of "cb_len h - 1"] by (auto simp: cb_wf_def len sl)
  have c: "contents h' = tl (contents h)"
    using pos by (intro nth_equalityI) (auto simp: len nth_contents nth_tl sl(1,3) idx)
  have "\<not> (base h' = curr h' \<and> count h' \<noteq> 0)"
  proof
    assume a: "base h' = curr h' \<and> count h' \<noteq> 0"
    have "curr h' = (base h' + cb_len h') mod slots h'" "cb_len h' < slots h'" "base h' < slots h'"
      using wf' by (simp_all add: cb_wf_def)
    then have "cb_len h' = 0"
      using a mod_add_inj [of "cb_len h'" "slots h'" 0 "base h'"] by simp
    with a show False by (simp add: cb_len_def unat_eq_0)
  qed
  moreover have "\<not> CB_EMPTY h" using False by (simp add: cb_empty_iff)
  ultimately have "cbuf_dequeue_default h = Some (hd (contents h), h')"
    using wf cb_base_data [OF wf False] unfolding h'_def
    by (simp add: cbuf_dequeue_default_def cb_wf_def Let_def)
  then show ?thesis using False wf' sl c by auto
qed

lemma runner_at: "cb_wf h \<Longrightarrow> i \<le> cb_len h \<Longrightarrow> (base h + i) mod slots h = curr h \<longleftrightarrow> i = cb_len h"
  using mod_add_inj [of i "slots h" "cb_len h" "base h"] by (auto simp: cb_wf_def)

lemma runner_next:
  "cb_wf h \<Longrightarrow> cb_next h ((base h + i) mod slots h) = (base h + Suc i) mod slots h"
  by (subst cb_next_mod) (auto simp: cb_wf_def mod_Suc_eq)

lemma runner_data:
  "cb_wf h \<Longrightarrow> i < cb_len h \<Longrightarrow> CB_GET_DATA h ((base h + i) mod slots h) = Some (contents h ! i)"
  by (auto simp: CB_GET_DATA_def nth_contents rd_def cb_wf_def)

lemma walk_spec:
  assumes wf: "cb_wf h"
  shows "i \<le> cb_len h \<Longrightarrow> cbuf_walk h ((base h + i) mod slots h) = Some (drop i (contents h))"
proof (induction "cb_len h - i" arbitrary: i)
  case 0
  then show ?case using runner_at [OF wf, of i] by (subst cbuf_walk.simps) simp
next
  case (Suc n)
  then have i: "i < cb_len h" by simp
  then have "cbuf_walk h ((base h + Suc i) mod slots h) = Some (drop (Suc i) (contents h))"
    using Suc.hyps by (intro Suc.hyps(1)) simp_all
  then show ?case
    using i runner_at [OF wf, of i] runner_next [OF wf, of i] runner_data [OF wf i]
    by (subst cbuf_walk.simps) (simp add: Cons_nth_drop_Suc)
qed

lemma lookup_loop_spec:
  assumes wf: "cb_wf h"
  shows "i \<le> cb_len h \<Longrightarrow> cbuf_lookup_loop h d eq ((base h + i) mod slots h) =
    Some (case find (\<lambda>c. eq c d) (drop i (contents h)) of None \<Rightarrow> 0 | Some c \<Rightarrow> c)"
proof (induction "cb_len h - i" arbitrary: i)
  case 0
  then show ?case using runner_at [OF wf, of i] by (subst cbuf_lookup_loop.simps) simp
next
  case (Suc n)
  then have i: "i < cb_len h" by simp
  have d: "drop i (contents h) = contents h ! i # drop (Suc i) (contents h)"
    using i by (simp add: Cons_nth_drop_Suc)
  have "cbuf_lookup_loop h d eq ((base h + Suc i) mod slots h) =
      Some (case find (\<lambda>c. eq c d) (drop (Suc i) (contents h)) of None \<Rightarrow> 0 | Some c \<Rightarrow> c)"
    using Suc.hyps(2) i by (intro Suc.hyps(1)) simp_all
  then show ?case
    using i runner_at [OF wf, of i] runner_next [OF wf, of i] runner_data [OF wf i]
    by (subst cbuf_lookup_loop.simps) (simp add: d)
qed

lemma walk_base: "cb_wf h \<Longrightarrow> cbuf_walk h (base h) = Some (contents h)"
  using walk_spec [of h 0] by (simp add: cb_wf_def)

lemma lookup_base: "cb_wf h \<Longrightarrow> cbuf_lookup_loop h d eq (base h) =
    Some (case find (\<lambda>c. eq c d) (contents h) of None \<Rightarrow> 0 | Some c \<Rightarrow> c)"
  using lookup_loop_spec [of h 0] by (simp add: cb_wf_def)

section \<open>The circular buffer is a bounded queue\<close>

definition cb_enq :: "cbuf_header \<Rightarrow> u64 \<Rightarrow> cbuf_header option" where
  "cb_enq h d = map_option (\<lambda>(ok, cleaned, h'). h') (cbuf_enqueue_default h d)"

definition cb_deq :: "cbuf_header \<Rightarrow> (u64 option \<times> cbuf_header) option" where
  "cb_deq h = map_option (\<lambda>(d, h'). (if CB_EMPTY h then None else Some d, h')) (cbuf_dequeue_default h)"

interpretation cb: bounded_fifo cb_wf "\<lambda>h. slots h - 1" contents cb_enq cb_deq
proof unfold_locales
  fix h x assume wf: "cb_wf h"
  then consider "Suc (cb_len h) < slots h" | "Suc (cb_len h) = slots h" by (fastforce simp: cb_wf_def)
  then show "\<exists>h'. cb_enq h x = Some h' \<and> cb_wf h' \<and> slots h' - 1 = slots h - 1 \<and>
      (length (contents h) < slots h - 1 \<longrightarrow> contents h' = contents h @ [x])"
  proof cases
    case 1
    then show ?thesis using cb_enqueue_room [OF wf, of x] stored_simps(1) [OF wf] by (auto simp: cb_enq_def)
  next
    case 2
    then show ?thesis using cb_enqueue_full [OF wf 2, of x] wf by (auto simp: cb_enq_def split: if_splits)
  qed
next
  fix h assume wf: "cb_wf h"
  show "\<exists>r h'. cb_deq h = Some (r, h') \<and> cb_wf h' \<and> slots h' - 1 = slots h - 1 \<and>
      (case contents h of [] \<Rightarrow> r = None \<and> contents h' = [] | x # xs \<Rightarrow> r = Some x \<and> contents h' = xs)"
    using cb_dequeue_spec [OF wf] by (cases "contents h") (auto simp: cb_deq_def cb_empty_iff)
  show "length (contents h) \<le> slots h - 1" using wf by (auto simp: cb_wf_def)
qed

section \<open>Properties\<close>

definition demo_cbuf :: "u16 \<Rightarrow> cbuf_header" where
  "demo_cbuf fl = \<lparr>buffer = [7, 8, 9], curr = 1, base = 2, flags = fl, count = 2, max = 3, name = ''demo'',
     action = cbuf_action_vectors_default, cleanup_func = True\<rparr>"

lemma demo_cbuf_wf: "cb_wf (demo_cbuf 0x8001)" "cb_wf (demo_cbuf 0x8000)"
  by (simp_all add: cb_wf_def demo_cbuf_def slots_def cb_len_def CB_VALID_def CB_FLAGS_VALID_def)

text \<open>
  C9: enqueueing.  While there is room, the datum is appended; on a full buffer that
  overwrites, the oldest datum goes to the cleanup function and makes place; on a full
  buffer that does not, nothing changes, and the return value is \<open>TRUE\<close> all the same.
\<close>

theorem cbuf_enqueue_cases:
  assumes "cb_wf h"
  shows "\<exists>cleaned h'. cbuf_enqueue_default h d = Some (True, cleaned, h') \<and> cb_wf h' \<and>
    slots h' = slots h \<and>
    (if length (contents h) < slots h - 1 then contents h' = contents h @ [d] \<and> cleaned = []
     else if flags h AND CB_FLAGS_OVERWRITE \<noteq> 0
     then contents h' = tl (contents h) @ [d] \<and>
          cleaned = (if cleanup_func h then [hd (contents h)] else [])
     else h' = h \<and> cleaned = [])"
proof (cases "Suc (cb_len h) < slots h")
  case True
  then show ?thesis using cb_enqueue_room [OF assms, of d] stored_simps(1) [OF assms] by auto
next
  case False
  then have full: "Suc (cb_len h) = slots h" using assms by (simp add: cb_wf_def)
  have "\<not> length (contents h) < slots h - 1" using full by simp
  then show ?thesis using cb_enqueue_full [OF assms full, of d] assms by (auto split: if_splits)
qed

theorem cbuf_enqueue_cases_witness:
  "\<exists>h'. cbuf_enqueue_default (demo_cbuf 0x8001) 4 = Some (True, [9], h') \<and> contents h' = [7, 4]"
proof -
  have "contents (demo_cbuf 0x8001) = [9, 7]" "slots (demo_cbuf 0x8001) = 3"
    "cleanup_func (demo_cbuf 0x8001)" "flags (demo_cbuf 0x8001) AND CB_FLAGS_OVERWRITE \<noteq> 0"
    by code_simp+
  then show ?thesis using cbuf_enqueue_cases [OF demo_cbuf_wf(1), of 4] by auto
qed

text \<open>
  the other operations.  Dequeueing and peeking yield the oldest datum or \<open>NULL\<close>, and
  dequeueing removes it; \<open>cbuf_lookup\<close> yields the oldest datum that matches, or \<open>NULL\<close>;
  \<open>cbuf_reset\<close> empties the buffer and hands all its data to the cleanup function, oldest
  first.  All stay inside the cells and keep the invariant.
\<close>

theorem cbuf_operations:
  assumes "cb_wf h"
  shows "(\<exists>h'. cbuf_dequeue_default h = Some (if contents h = [] then 0 else hd (contents h), h') \<and>
      cb_wf h' \<and> contents h' = tl (contents h)) \<and>
    cbuf_peekqueue_default h = Some (if contents h = [] then 0 else hd (contents h)) \<and>
    cbuf_lookup_default h d eq =
      Some (case find (\<lambda>c. eq c d) (contents h) of None \<Rightarrow> 0 | Some c \<Rightarrow> c) \<and>
    (\<exists>h'. cbuf_reset_default h = Some (True, if cleanup_func h then contents h else [], h') \<and>
      cb_wf h' \<and> contents h' = [])"
proof (intro conjI)
  have valid: "CB_VALID (flags h)" using assms by (simp add: cb_wf_def)
  show "\<exists>h'. cbuf_dequeue_default h = Some (if contents h = [] then 0 else hd (contents h), h') \<and>
      cb_wf h' \<and> contents h' = tl (contents h)" using cb_dequeue_spec [OF assms] by blast
  show "cbuf_peekqueue_default h = Some (if contents h = [] then 0 else hd (contents h))"
    using valid cb_base_data [OF assms] by (simp add: cbuf_peekqueue_default_def cb_empty_iff)
  show "cbuf_lookup_default h d eq =
      Some (case find (\<lambda>c. eq c d) (contents h) of None \<Rightarrow> 0 | Some c \<Rightarrow> c)"
    using valid lookup_base [OF assms] by (simp add: cbuf_lookup_default_def cb_empty_iff)
  define h' where "h' = h\<lparr>base := 0, curr := 0, count := 0\<rparr>"
  have "cb_wf h'" using assms by (simp add: cb_wf_def h'_def slots_def cb_len_def)
  moreover have "contents h' = []" by (simp add: contents_def h'_def cb_len_def)
  moreover have "cbuf_reset_default h = Some (True, if cleanup_func h then contents h else [], h')"
    using valid walk_base [OF assms]
    by (cases "contents h = []") (simp_all add: cbuf_reset_default_def cb_empty_iff h'_def Let_def)
  ultimately show "\<exists>h'. cbuf_reset_default h = Some (True, if cleanup_func h then contents h else [], h') \<and>
      cb_wf h' \<and> contents h' = []" by blast
qed

theorem cbuf_operations_witness:
  "cbuf_peekqueue_default (demo_cbuf 0x8000) = Some 9"
proof -
  have "contents (demo_cbuf 0x8000) = [9, 7]" by code_simp
  then show ?thesis using cbuf_operations [OF demo_cbuf_wf(2)] by simp
qed

text \<open>
  order.  What is enqueued into an empty circular buffer, at most as much as it was
  created for, is dequeued again in the same order, each datum once.
\<close>

theorem cbuf_in_order:
  assumes "cb_wf h" "contents h = []" "length xs \<le> slots h - 1"
  shows "\<exists>h1 h2. foldM cb_enq xs h = Some h1 \<and> deqs cb_deq (length xs) h1 = Some (xs, h2) \<and>
    contents h2 = []"
  by (rule cb.in_order [OF assms])

theorem cbuf_in_order_witness:
  "\<exists>h1 h2. foldM cb_enq [5, 6] (demo_cbuf 0x8000\<lparr>count := 0, curr := 2\<rparr>) = Some h1 \<and>
     deqs cb_deq (length [5, 6 :: u64]) h1 = Some ([5, 6], h2) \<and> contents h2 = []"
  by (rule cbuf_in_order)
    (simp_all add: cb_wf_def demo_cbuf_def slots_def cb_len_def CB_VALID_def CB_FLAGS_VALID_def
      contents_def)

text \<open>
  creation.  A buffer created in a header of the caller is valid, empty, has room for
  \<open>mx\<close> data and only the user flags; in a header from \<open>malloc\<close> it also keeps whatever flag
  bits the memory held, so it may overwrite although that was not asked for.
\<close>

theorem cbuf_create_spec:
  assumes "mx \<noteq> 0" "mem_buf (unat mx + 1) = Some cells" "length cells = unat mx + 1"
    and hdr: "case chdr of None \<Rightarrow> mem_hdr = Some (p, g) | Some q \<Rightarrow> q = p"
  shows "\<exists>w' h. cbuf_create w chdr mem_hdr mem_buf mx nm fl clfunc = (Some p, w') \<and>
    headers w' p = Some h \<and> cbufQ w' = cbufQ w @ [p] \<and> cb_wf h \<and> contents h = [] \<and>
    slots h = Suc (unat mx) \<and> action h = cbuf_action_vectors_default \<and>
    flags h = ((case chdr of None \<Rightarrow> flags g OR CB_FLAGS_MALLOC | Some q \<Rightarrow> 0)
      OR (fl AND CB_FLAGS_USER)) OR CB_FLAGS_VALID"
proof -
  have "unat mx < 2 ^ LENGTH(16)" by (rule unsigned_less)
  then have "unat (of_nat (unat mx + 1) :: u64) = unat mx + 1"
    by (simp only: unat_of_nat) simp
  then have m: "unat (of_nat (Suc (unat mx)) :: u64) = Suc (unat mx)" by simp
  have pos: "0 < unat mx" using assms(1) by (simp add: unat_gt_0)
  have v: "CB_VALID (x OR CB_FLAGS_VALID)" for x
  proof -
    have "(x OR CB_FLAGS_VALID) AND CB_FLAGS_VALID = CB_FLAGS_VALID"
      by (rule bit_word_eqI) (simp add: bit_and_iff bit_or_iff)
    then show ?thesis by (simp add: CB_VALID_def CB_FLAGS_VALID_def)
  qed
  show ?thesis
    using assms(1-3) hdr pos m
    by (cases chdr)
      (auto simp: cbuf_create_def Let_def cb_wf_def slots_def cb_len_def contents_def v zero_header_def
        simp del: of_nat_Suc)
qed

theorem cbuf_create_spec_witness:
  "\<exists>w' h. cbuf_create \<lparr>headers = Map.empty, cbufQ = [], freed = []\<rparr> None
      (Some (1, zero_header\<lparr>flags := 1\<rparr>)) (\<lambda>n. Some (replicate n 0)) 4 None 0 False = (Some 1, w') \<and>
    headers w' 1 = Some h \<and> flags h AND CB_FLAGS_OVERWRITE \<noteq> 0"
proof -
  have f: "flags (zero_header\<lparr>flags := 1\<rparr>) = 1" by simp
  have c: "((1 OR CB_FLAGS_MALLOC) OR (0 AND CB_FLAGS_USER)) OR CB_FLAGS_VALID = (0x8011 :: u16)"
    by code_simp
  have "(0x8011 :: u16) AND CB_FLAGS_OVERWRITE \<noteq> 0" by code_simp
  then show ?thesis
    using cbuf_create_spec [where mx = 4 and chdr = None and p = 1 and cells = "replicate 5 0" and
        g = "zero_header\<lparr>flags := 1\<rparr>" and mem_hdr = "Some (1, zero_header\<lparr>flags := 1\<rparr>)" and
        mem_buf = "\<lambda>n. Some (replicate n 0)" and fl = 0 and nm = None and clfunc = False and
        w = "\<lparr>headers = Map.empty, cbufQ = [], freed = []\<rparr>"]
    unfolding option.case f c by fastforce
qed

end
