(* ===== verification/EventQueue.thy ===== *)
theory EventQueue
  imports Interfaces
begin

text \<open>
  \<open>src/inotify-sample/event_queue.c\<close>: a queue of pointers in an array of fixed capacity.  The
  operations that index the array return \<open>None\<close> for an access outside it; a \<open>NULL\<close> pointer
  returned by \<open>queue_front\<close> is \<open>Some None\<close>.
\<close>

section \<open>The queue\<close>

record 'a queue_struct =
  capacity :: i32
  front :: i32
  rear :: i32
  q_size :: i32
  array :: "'a list"

definition queue_empty :: "'a queue_struct \<Rightarrow> bool" where
  "queue_empty q \<longleftrightarrow> q_size q = 0"

definition queue_full :: "'a queue_struct \<Rightarrow> bool" where
  "queue_full q \<longleftrightarrow> q_size q = capacity q"

definition queue_make_empty :: "'a queue_struct \<Rightarrow> 'a queue_struct" where
  "queue_make_empty q = q\<lparr>q_size := 0, front := 1, rear := 0\<rparr>"

text \<open>
  \<open>mem\<close> tells whether \<open>malloc\<close> finds room for the header, \<open>cells\<close> is the indeterminate array
  it returns, \<open>None\<close> for \<open>NULL\<close>; \<open>Inl\<close> is the status the program exits with.
\<close>

definition queue_create :: "bool \<Rightarrow> 'a list option \<Rightarrow> i32 \<Rightarrow> i32 + 'a queue_struct" where
  "queue_create mem cells num_elements =
     (if \<not> mem then Inl (- 1)
      else (case cells of
              None \<Rightarrow> Inl (- 1)
            | Some xs \<Rightarrow> Inr (queue_make_empty
                \<lparr>capacity = num_elements, front = 0, rear = 0, q_size = 0, array = xs\<rparr>)))"

definition next_position :: "i32 \<Rightarrow> 'a queue_struct \<Rightarrow> i32" where
  "next_position v q = (let v = v + 1 in if v = capacity q then 0 else v)"

definition queue_enqueue :: "'a \<Rightarrow> 'a queue_struct \<Rightarrow> 'a queue_struct option" where
  "queue_enqueue d q =
     (if queue_full q then Some q
      else let q = q\<lparr>q_size := q_size q + 1\<rparr>;
               q = q\<lparr>rear := next_position (rear q) q\<rparr>
           in do { xs \<leftarrow> wr (array q) (unat (rear q)) d; Some (q\<lparr>array := xs\<rparr>) })"

definition queue_front :: "'a queue_struct \<Rightarrow> 'a option option" where
  "queue_front q =
     (if \<not> queue_empty q then map_option Some (rd (array q) (unat (front q))) else Some None)"

definition queue_dequeue :: "'a queue_struct \<Rightarrow> 'a queue_struct" where
  "queue_dequeue q =
     (if \<not> queue_empty q
      then let q = q\<lparr>q_size := q_size q - 1\<rparr> in q\<lparr>front := next_position (front q) q\<rparr>
      else q)"

text \<open>What \<open>queue_destroy\<close> hands to \<open>free\<close>: the array, then the header; \<open>None\<close> is \<open>NULL\<close>.\<close>

datatype 'a freed = Array "'a list" | Header "'a queue_struct"

definition queue_destroy :: "'a queue_struct option \<Rightarrow> 'a freed list" where
  "queue_destroy q = (case q of None \<Rightarrow> [] | Some q \<Rightarrow> [Array (array q), Header q])"

section \<open>The invariant and the contents\<close>

definition q_cap :: "'a queue_struct \<Rightarrow> nat" where
  "q_cap q = unat (capacity q)"

definition q_len :: "'a queue_struct \<Rightarrow> nat" where
  "q_len q = unat (q_size q)"

definition q_wf :: "'a queue_struct \<Rightarrow> bool" where
  "q_wf q \<longleftrightarrow> 2 \<le> q_cap q \<and> q_cap q < 2147483648 \<and> length (array q) = q_cap q \<and>
     unat (front q) < q_cap q \<and> unat (rear q) < q_cap q \<and> q_len q \<le> q_cap q \<and>
     Suc (unat (rear q)) mod q_cap q = (unat (front q) + q_len q) mod q_cap q"

definition q_contents :: "'a queue_struct \<Rightarrow> 'a list" where
  "q_contents q = map (\<lambda>i. array q ! ((unat (front q) + i) mod q_cap q)) [0..<q_len q]"

lemma length_q_contents [simp]: "length (q_contents q) = q_len q"
  by (simp add: q_contents_def)

lemma nth_q_contents:
  "i < q_len q \<Longrightarrow> q_contents q ! i = array q ! ((unat (front q) + i) mod q_cap q)"
  by (simp add: q_contents_def)

lemma queue_empty_iff: "queue_empty q \<longleftrightarrow> q_contents q = []"
  using length_0_conv [of "q_contents q"] by (simp add: queue_empty_def q_len_def unat_eq_0)

lemma queue_full_iff: "queue_full q \<longleftrightarrow> q_len q = q_cap q"
  unfolding queue_full_def q_len_def q_cap_def word_unat_eq_iff by (rule refl)

lemma next_position_mod:
  assumes "unat v < q_cap q" "q_cap q < 2147483648"
  shows "unat (next_position v q) = Suc (unat v) mod q_cap q"
proof -
  have s: "unat (v + 1) = Suc (unat v)" using assms by (simp add: unat_word_ariths)
  have "v + 1 = capacity q \<longleftrightarrow> Suc (unat v) = q_cap q"
    unfolding word_unat_eq_iff s q_cap_def by (rule refl)
  then show ?thesis using assms s by (auto simp: next_position_def Let_def)
qed

lemma next_position_cong: "capacity q' = capacity q \<Longrightarrow> next_position v q' = next_position v q"
  by (simp add: next_position_def)

lemma queue_create_wf:
  assumes "2 \<le> unat n" "unat n < 2147483648" "length xs = unat n"
  shows "\<exists>q. queue_create True (Some xs) n = Inr q \<and> q_wf q \<and> q_contents q = [] \<and> q_cap q = unat n"
  using assms
  by (auto simp: queue_create_def queue_make_empty_def q_wf_def q_cap_def q_len_def q_contents_def)

lemma enqueue_room:
  assumes wf: "q_wf q" and room: "q_len q < q_cap q"
  shows "\<exists>q'. queue_enqueue d q = Some q' \<and> q_wf q' \<and> q_cap q' = q_cap q \<and>
    q_contents q' = q_contents q @ [d]"
proof -
  let ?r = "next_position (rear q) q"
  define q' where "q' = q\<lparr>q_size := q_size q + 1, rear := ?r, array := (array q)[unat ?r := d]\<rparr>"
  have r: "unat ?r = Suc (unat (rear q)) mod q_cap q"
    using wf by (intro next_position_mod) (simp_all add: q_wf_def)
  then have r2: "unat ?r = (unat (front q) + q_len q) mod q_cap q" using wf by (simp add: q_wf_def)
  have rl: "unat ?r < q_cap q" using r2 room by simp
  have len: "q_len q' = Suc (q_len q)"
    using room wf by (simp add: q'_def q_len_def q_wf_def unat_word_ariths)
  have sl: "q_cap q' = q_cap q" "front q' = front q" "rear q' = ?r"
    "array q' = (array q)[unat ?r := d]" by (simp_all add: q'_def q_cap_def)
  have "queue_enqueue d q = Some q'"
    using room wf rl
    by (simp add: queue_enqueue_def queue_full_iff Let_def wr_in q_wf_def q'_def
        next_position_cong [of "q\<lparr>q_size := q_size q + 1\<rparr>" q])
  moreover have e: "Suc (unat ?r) mod q_cap q = (unat (front q) + Suc (q_len q)) mod q_cap q"
    unfolding r2 by (simp add: mod_Suc_eq)
  have "q_wf q'"
    using wf rl e Suc_leI [OF room] unfolding q_wf_def sl len length_list_update by blast
  moreover have "q_contents q' = q_contents q @ [d]"
  proof (rule nth_equalityI)
    fix i assume "i < length (q_contents q')"
    then have i: "i \<le> q_len q" by (simp add: len)
    have at: "unat ?r = (unat (front q) + i) mod q_cap q \<longleftrightarrow> i = q_len q"
      unfolding r2 using mod_add_inj [of i "q_cap q" "q_len q" "unat (front q)"] i room by auto
    moreover have "unat ?r < length (array q)" using rl wf by (simp add: q_wf_def)
    ultimately have "array q' ! ((unat (front q') + i) mod q_cap q') =
        (if i = q_len q then d else q_contents q ! i)"
      unfolding sl using i at by (cases "i = q_len q") (auto simp: nth_q_contents)
    then show "q_contents q' ! i = (q_contents q @ [d]) ! i"
      using i len nth_q_contents [of i q'] by (simp add: nth_append)
  qed (simp add: len)
  ultimately show ?thesis using sl by blast
qed

lemma front_spec:
  assumes "q_wf q"
  shows "queue_front q = Some (case q_contents q of [] \<Rightarrow> None | x # _ \<Rightarrow> Some x)"
proof (cases "q_contents q")
  case (Cons x xs)
  then have "0 < q_len q" using length_q_contents [of q] by simp
  then have "array q ! unat (front q) = x"
    using Cons nth_q_contents [of 0 q] assms by (simp add: q_wf_def)
  then show ?thesis using assms Cons by (simp add: queue_front_def queue_empty_iff rd_in q_wf_def)
qed (simp add: queue_front_def queue_empty_iff)

lemma dequeue_spec:
  assumes wf: "q_wf q"
  shows "q_wf (queue_dequeue q) \<and> q_cap (queue_dequeue q) = q_cap q \<and>
    q_contents (queue_dequeue q) = tl (q_contents q)"
proof (cases "q_contents q = []")
  case True
  then show ?thesis using wf by (simp add: queue_dequeue_def queue_empty_iff)
next
  case False
  define q' where "q' = q\<lparr>q_size := q_size q - 1, front := next_position (front q) q\<rparr>"
  have pos: "0 < q_len q" using False by (metis length_q_contents length_greater_0_conv)
  have e: "queue_dequeue q = q'"
    using False by (simp add: queue_dequeue_def queue_empty_iff Let_def q'_def
        next_position_cong [of "q\<lparr>q_size := q_size q - 1\<rparr>" q])
  have len: "q_len q' = q_len q - 1"
    using pos by (simp add: q'_def q_len_def unat_minus_one unat_gt_0)
  have f: "unat (front q') = Suc (unat (front q)) mod q_cap q"
    using wf next_position_mod [of "front q" q] by (simp add: q'_def q_wf_def)
  have sl: "q_cap q' = q_cap q" "rear q' = rear q" "array q' = array q"
    by (simp_all add: q'_def q_cap_def)
  have idx: "(unat (front q') + i) mod q_cap q = (unat (front q) + Suc i) mod q_cap q" for i
    by (simp add: f mod_add_left_eq)
  have "q_wf q'"
    using wf pos idx [of "q_len q - 1"] by (auto simp: q_wf_def sl len f)
  moreover have "q_contents q' = tl (q_contents q)"
    using pos by (intro nth_equalityI) (auto simp: len nth_q_contents nth_tl sl idx)
  ultimately show ?thesis using e sl by simp
qed

definition q_deq :: "'a queue_struct \<Rightarrow> ('a option \<times> 'a queue_struct) option" where
  "q_deq q = map_option (\<lambda>x. (x, queue_dequeue q)) (queue_front q)"

interpretation eq: bounded_fifo q_wf q_cap q_contents "\<lambda>q d. queue_enqueue d q" q_deq
proof unfold_locales
  fix q :: "'a queue_struct" and x assume wf: "q_wf q"
  show "\<exists>q'. queue_enqueue x q = Some q' \<and> q_wf q' \<and> q_cap q' = q_cap q \<and>
      (length (q_contents q) < q_cap q \<longrightarrow> q_contents q' = q_contents q @ [x])"
  proof (cases "q_len q < q_cap q")
    case False
    then have "queue_full q" using wf by (simp add: queue_full_iff q_wf_def)
    then show ?thesis using wf False by (simp add: queue_enqueue_def)
  qed (use enqueue_room [OF wf, of x] in auto)
next
  fix q :: "'a queue_struct" assume wf: "q_wf q"
  show "\<exists>r q'. q_deq q = Some (r, q') \<and> q_wf q' \<and> q_cap q' = q_cap q \<and>
      (case q_contents q of [] \<Rightarrow> r = None \<and> q_contents q' = []
       | x # xs \<Rightarrow> r = Some x \<and> q_contents q' = xs)"
    using dequeue_spec [OF wf] front_spec [OF wf]
    by (cases "q_contents q") (auto simp: q_deq_def)
  show "length (q_contents q) \<le> q_cap q" using wf by (simp add: q_wf_def)
qed

section \<open>Properties\<close>

text \<open>
  order.  Into a queue created for \<open>n\<close> pointers, at least 2, up to \<open>n\<close> can be enqueued,
  and taking them out with \<open>queue_front\<close> and \<open>queue_dequeue\<close> yields them in the same order;
  no access leaves the array.
\<close>

theorem queue_create_in_order:
  assumes "2 \<le> unat n" "unat n < 2147483648" "length cells = unat n" "length xs \<le> unat n"
  shows "\<exists>q q1 q2. queue_create True (Some cells) n = Inr q \<and>
    foldM (\<lambda>q d. queue_enqueue d q) xs q = Some q1 \<and> deqs q_deq (length xs) q1 = Some (xs, q2) \<and>
    queue_empty q2"
proof -
  obtain q where q: "queue_create True (Some cells) n = Inr q" "q_wf q" "q_contents q = []"
    "q_cap q = unat n" using queue_create_wf [OF assms(1-3)] by blast
  with eq.in_order [OF q(2,3), of xs] assms(4) show ?thesis by (auto simp: queue_empty_iff)
qed

theorem queue_create_in_order_witness:
  "\<exists>q q1 q2. queue_create True (Some [0, 0, 0 :: nat]) 3 = Inr q \<and>
    foldM (\<lambda>q d. queue_enqueue d q) [4, 5] q = Some q1 \<and> deqs q_deq (length [4, 5 :: nat]) q1 = Some ([4, 5], q2) \<and>
    queue_empty q2"
  by (rule queue_create_in_order) simp_all

text \<open>
  the smallest queue.  In a queue created for a single pointer, \<open>queue_make_empty\<close> puts
  \<open>front\<close> past the array: after one \<open>queue_enqueue\<close>, \<open>queue_front\<close> reads outside it.
\<close>

theorem queue_of_one_out_of_bounds:
  "\<exists>q q1. queue_create True (Some [x]) 1 = Inr q \<and> queue_enqueue d q = Some q1 \<and>
     \<not> queue_empty q1 \<and> queue_front q1 = None"
  by (simp add: queue_create_def queue_make_empty_def queue_enqueue_def queue_full_def
      next_position_def queue_empty_def queue_front_def wr_def rd_def Let_def)

end
