(* ===== verification/Bytes.thy ===== *)
theory Bytes
  imports Prelude
begin

text \<open>
  Integers in byte buffers, in the byte orders the code relies on: the host order of an LP64
  x86 machine (least significant byte first) and the network order.
\<close>

section \<open>Little-endian integers\<close>

fun le_nat :: "u8 list \<Rightarrow> nat" where
  "le_nat [] = 0"
| "le_nat (b # bs) = unat b + 256 * le_nat bs"

fun le_bytes :: "nat \<Rightarrow> nat \<Rightarrow> u8 list" where
  "le_bytes 0 v = []"
| "le_bytes (Suc n) v = of_nat (v mod 256) # le_bytes n (v div 256)"

text \<open>Reading \<open>n\<close> bytes at an offset; \<open>None\<close> outside the buffer.\<close>

definition rd_bytes :: "u8 list \<Rightarrow> nat \<Rightarrow> nat \<Rightarrow> u8 list option" where
  "rd_bytes bs off n = (if off + n \<le> length bs then Some (take n (drop off bs)) else None)"

definition rd_le :: "u8 list \<Rightarrow> nat \<Rightarrow> nat \<Rightarrow> nat option" where
  "rd_le bs off n = map_option le_nat (rd_bytes bs off n)"

definition wr_bytes :: "u8 list \<Rightarrow> nat \<Rightarrow> u8 list \<Rightarrow> u8 list option" where
  "wr_bytes bs off xs =
     (if off + length xs \<le> length bs then Some (take off bs @ xs @ drop (off + length xs) bs) else None)"

lemma length_le_bytes [simp]: "length (le_bytes n v) = n"
  by (induction n v rule: le_bytes.induct) simp_all

lemma le_nat_bytes: "le_nat (le_bytes n v) = v mod 256 ^ n"
proof (induction n v rule: le_bytes.induct)
  case (2 n v)
  have "unat (of_nat (v mod 256) :: u8) = v mod 256" by (simp add: unat_of_nat)
  then show ?case
    using 2 by (simp add: mod_mult2_eq)
qed simp

lemma le_nat_less: "le_nat bs < 256 ^ length bs"
proof (induction bs)
  case (Cons b bs)
  have "unat b < 2 ^ LENGTH(8)" by (rule unsigned_less)
  then have "unat b \<le> 255" by simp
  moreover have "le_nat bs + 1 \<le> 256 ^ length bs" using Cons by simp
  ultimately show ?case by simp
qed simp

lemma le_bytes_nat: "le_bytes (length bs) (le_nat bs) = bs"
proof (induction bs)
  case (Cons b bs)
  have "unat b < 2 ^ LENGTH(8)" by (rule unsigned_less)
  then have "unat b < 256" by simp
  then show ?case using Cons by simp
qed simp

lemma rd_bytes_at [simp]: "length pre = off \<Longrightarrow> length xs = n \<Longrightarrow> rd_bytes (pre @ xs @ post) off n = Some xs"
  by (auto simp: rd_bytes_def)

lemma rd_bytes_start [simp]: "length xs = n \<Longrightarrow> rd_bytes (xs @ post) 0 n = Some xs"
  using rd_bytes_at [of "[]" 0 xs n post] by simp

lemma rd_le_at: "length pre = off \<Longrightarrow> rd_le (pre @ le_bytes n v @ post) off n = Some (v mod 256 ^ n)"
  by (simp add: rd_le_def le_nat_bytes)

lemma wr_bytes_at [simp]:
  "length pre = off \<Longrightarrow> length old = length xs \<Longrightarrow> wr_bytes (pre @ old @ post) off xs = Some (pre @ xs @ post)"
  by (auto simp: wr_bytes_def)

lemma length_wr_bytes: "wr_bytes bs off xs = Some bs' \<Longrightarrow> length bs' = length bs"
  by (auto simp: wr_bytes_def split: if_splits)

section \<open>Network order\<close>

fun be_nat :: "u8 list \<Rightarrow> nat" where
  "be_nat bs = le_nat (rev bs)"

definition be_bytes :: "nat \<Rightarrow> nat \<Rightarrow> u8 list" where
  "be_bytes n v = rev (le_bytes n v)"

lemma be_nat_bytes: "be_nat (be_bytes n v) = v mod 256 ^ n"
  by (simp add: be_bytes_def le_nat_bytes)

section \<open>C strings in memory\<close>

text \<open>The bytes before the first NUL at or after the offset; \<open>None\<close> if there is none.\<close>

definition c_string :: "u8 list \<Rightarrow> nat \<Rightarrow> u8 list option" where
  "c_string bs off =
     (let s = drop off bs in if 0 \<in> set s then Some (takeWhile (\<lambda>b. b \<noteq> 0) s) else None)"


section \<open>Bits of little-endian integers\<close>

lemma bit_low_high: "bit (u + 256 * m) p \<longleftrightarrow> (if p < 8 then bit u p else bit m (p - 8))" if "u < (256 :: nat)" for m :: nat
proof -
  have t: "take_bit 8 (u + 256 * m) = u" using that by (simp add: take_bit_eq_mod)
  have d: "drop_bit 8 (u + 256 * m) = m" using that by (simp add: drop_bit_eq_div)
  show ?thesis
  proof (cases "p < 8")
    case True
    then have "bit (u + 256 * m) p \<longleftrightarrow> bit (take_bit 8 (u + 256 * m)) p" by (simp add: bit_take_bit_iff)
    then show ?thesis using True t by simp
  next
    case False
    then have "bit (u + 256 * m) p \<longleftrightarrow> bit (drop_bit 8 (u + 256 * m)) (p - 8)" by (simp add: bit_drop_bit_eq)
    then show ?thesis using False d by simp
  qed
qed

lemma byte_index: "r < 8 \<Longrightarrow> (8 * q + r) div 8 = q \<and> (8 * q + r) mod 8 = r" for q r :: nat
  by simp

lemma bit_le_nat: "bit (le_nat bs) p \<longleftrightarrow> p div 8 < length bs \<and> bit (bs ! (p div 8)) (p mod 8)"
proof (induction bs arbitrary: p)
  case (Cons b bs)
  have "unat b < 2 ^ LENGTH(8)" by (rule unsigned_less)
  then have lt: "unat b < 256" by simp
  show ?case
  proof (cases "p < 8")
    case True
    then show ?thesis using bit_low_high [OF lt, of "le_nat bs" p] by (simp add: bit_unsigned_iff)
  next
    case False
    then obtain q where q: "p = q + 8" by (metis add.commute le_Suc_ex not_less)
    have "(q + 8) div 8 = Suc (q div 8)" by simp
    then show ?thesis using bit_low_high [OF lt, of "le_nat bs" p] Cons.IH [of q] q by simp
  qed
qed simp

lemma bit_le_bytes: "k < n \<Longrightarrow> bit (le_bytes n v ! k) i \<longleftrightarrow> i < 8 \<and> bit v (8 * k + i)"
proof (induction n v arbitrary: k rule: le_bytes.induct)
  case (2 n v)
  have m: "v mod 256 = take_bit 8 v" "v div 256 = drop_bit 8 v"
    by (simp_all add: take_bit_eq_mod drop_bit_eq_div)
  show ?case
  proof (cases k)
    case 0
    have "le_bytes (Suc n) v ! k = of_nat (take_bit 8 v)" using 0 by (simp only: le_bytes.simps nth_Cons_0 m(1))
    then show ?thesis using 0 by (simp add: bit_simps)
  next
    case (Suc j)
    then have "le_bytes (Suc n) v ! k = le_bytes n (v div 256) ! j" by simp
    also have "bit \<dots> i \<longleftrightarrow> i < 8 \<and> bit (v div 256) (8 * j + i)" using 2 Suc by simp
    finally show ?thesis unfolding m(2) Suc by (simp add: bit_drop_bit_eq add.assoc)
  qed
qed simp


section \<open>Reading what was written\<close>

lemma wr_bytes_Some_iff:
  "wr_bytes bs off xs = Some bs' \<longleftrightarrow>
     off + length xs \<le> length bs \<and> bs' = take off bs @ xs @ drop (off + length xs) bs"
  by (auto simp: wr_bytes_def)

lemma rd_wr_same: "wr_bytes bs off xs = Some bs' \<Longrightarrow> rd_bytes bs' off (length xs) = Some xs"
  by (auto simp: wr_bytes_Some_iff rd_bytes_def)

lemma rd_wr_other:
  assumes "wr_bytes bs off xs = Some bs'" "p + n \<le> off \<or> off + length xs \<le> p"
  shows "rd_bytes bs' p n = rd_bytes bs p n"
proof -
  have bs': "off + length xs \<le> length bs" "bs' = take off bs @ xs @ drop (off + length xs) bs"
    using assms(1) by (simp_all add: wr_bytes_Some_iff)
  have len: "length bs' = length bs" using bs' by simp
  have "take n (drop p bs') = take n (drop p bs)" if "p + n \<le> length bs"
  proof (rule nth_equalityI)
    show "length (take n (drop p bs')) = length (take n (drop p bs))" using len by simp
    fix i assume "i < length (take n (drop p bs'))"
    then have i: "i < n" "p + i < length bs" using len by auto
    then have "bs' ! (p + i) = bs ! (p + i)" using bs' assms(2) by (auto simp: nth_append)
    then show "take n (drop p bs') ! i = take n (drop p bs) ! i" using i len by simp
  qed
  then show ?thesis using len by (simp add: rd_bytes_def)
qed

lemma rd_le_wr_same: "wr_bytes bs off (le_bytes n v) = Some bs' \<Longrightarrow> rd_le bs' off n = Some (v mod 256 ^ n)"
  using rd_wr_same [of bs off "le_bytes n v" bs'] by (simp add: rd_le_def le_nat_bytes)

lemma rd_le_wr_other:
  "wr_bytes bs off xs = Some bs' \<Longrightarrow> p + n \<le> off \<or> off + length xs \<le> p \<Longrightarrow> rd_le bs' p n = rd_le bs p n"
  by (simp add: rd_le_def rd_wr_other)

lemma rd_bytes_in: "off + n \<le> length bs \<Longrightarrow> rd_bytes bs off n \<noteq> None"
  by (simp add: rd_bytes_def)

lemma rd_le_in: "off + n \<le> length bs \<Longrightarrow> \<exists>v < 256 ^ n. rd_le bs off n = Some v"
  using le_nat_less [of "take n (drop off bs)"] by (auto simp: rd_le_def rd_bytes_def)


lemma rd_bytes_shift: "k + n \<le> length xs \<Longrightarrow> rd_bytes (pre @ xs @ post) (length pre + k) n = rd_bytes xs k n"
  by (simp add: rd_bytes_def)

lemma rd_le_shift: "k + n \<le> length xs \<Longrightarrow> rd_le (pre @ xs @ post) (length pre + k) n = rd_le xs k n"
  by (simp add: rd_le_def rd_bytes_shift)

end
