(* ===== verification/Inotify.thy ===== *)
theory Inotify
  imports EventQueue Bytes CText
begin

text \<open>
  \<open>src/inotify-sample/inotify_utils.c\<close>: reading events from the inotify device into the queue of
  \<open>event_queue.c\<close>, and the loop that handles them.  An event is the block of bytes that was
  allocated for it.  \<open>select\<close>, \<open>read\<close> and \<open>malloc\<close> are inputs; what is printed on the standard output is a result,
  one value for each line with its content.
\<close>

section \<open>Events\<close>

definition IN_ACCESS :: u32 where "IN_ACCESS = 0x00000001"
definition IN_MODIFY :: u32 where "IN_MODIFY = 0x00000002"
definition IN_ATTRIB :: u32 where "IN_ATTRIB = 0x00000004"
definition IN_CLOSE_WRITE :: u32 where "IN_CLOSE_WRITE = 0x00000008"
definition IN_CLOSE_NOWRITE :: u32 where "IN_CLOSE_NOWRITE = 0x00000010"
definition IN_OPEN :: u32 where "IN_OPEN = 0x00000020"
definition IN_MOVED_FROM :: u32 where "IN_MOVED_FROM = 0x00000040"
definition IN_MOVED_TO :: u32 where "IN_MOVED_TO = 0x00000080"
definition IN_DELETE_SUBDIR :: u32 where "IN_DELETE_SUBDIR = 0x00000100"
definition IN_DELETE_FILE :: u32 where "IN_DELETE_FILE = 0x00000200"
definition IN_CREATE_SUBDIR :: u32 where "IN_CREATE_SUBDIR = 0x00000400"
definition IN_CREATE_FILE :: u32 where "IN_CREATE_FILE = 0x00000800"
definition IN_DELETE_SELF :: u32 where "IN_DELETE_SELF = 0x00001000"
definition IN_UNMOUNT :: u32 where "IN_UNMOUNT = 0x00002000"
definition IN_Q_OVERFLOW :: u32 where "IN_Q_OVERFLOW = 0x00004000"
definition IN_IGNORED :: u32 where "IN_IGNORED = 0x00008000"
definition IN_CLOSE :: u32 where "IN_CLOSE = IN_CLOSE_WRITE OR IN_CLOSE_NOWRITE"

text \<open>
  \<open>struct inotify_event\<close> on LP64: \<open>wd\<close> at 0, \<open>mask\<close> at 4, \<open>cookie\<close> at 8, \<open>len\<close> at 16, the name
  at 24, which is also the size of the structure.
\<close>

definition sizeof_inotify_event :: nat where
  "sizeof_inotify_event = 24"

definition ev_wd :: "u8 list \<Rightarrow> i32 option" where
  "ev_wd ev = map_option of_nat (rd_le ev 0 4)"

definition ev_mask :: "u8 list \<Rightarrow> u32 option" where
  "ev_mask ev = map_option of_nat (rd_le ev 4 4)"

definition ev_len :: "u8 list \<Rightarrow> u64 option" where
  "ev_len ev = map_option of_nat (rd_le ev 16 8)"

text \<open>
  What is printed.  For an event: the name by itself, then the message with the name (\<open>None\<close> for \<open>NULL\<close>) and \<open>wd\<close>,
  or a message without them.  For a read: the number of bytes, the size of the structure and each \<open>len\<close>, all with \<open>%d\<close>.
\<close>

datatype report = Report string "u8 list option" i32 | Warning string | Filename "u8 list option" |
  Bytes_read i32 | Size_of_event i32 | Event_len i32

definition event_report :: "u32 \<Rightarrow> u8 list option \<Rightarrow> i32 \<Rightarrow> report" where
  "event_report m file wd =
     (if m = IN_ACCESS then Report ''ACCESS'' file wd
      else if m = IN_MODIFY then Report ''MODIFY'' file wd
      else if m = IN_ATTRIB then Report ''ATTRIB'' file wd
      else if m = IN_CLOSE then Report ''CLOSE'' file wd
      else if m = IN_OPEN then Report ''OPEN'' file wd
      else if m = IN_MOVED_FROM then Report ''MOVE_FROM'' file wd
      else if m = IN_MOVED_TO then Report ''MOVE_TO'' file wd
      else if m = IN_DELETE_SUBDIR then Report ''DELETE_SUBDIR'' file wd
      else if m = IN_DELETE_FILE then Report ''DELETE_FILE'' file wd
      else if m = IN_CREATE_SUBDIR then Report ''CREATE_SUBDIR'' file wd
      else if m = IN_CREATE_FILE then Report ''CREATE_FILE'' file wd
      else if m = IN_DELETE_SELF then Report ''DELETE_SELF'' file wd
      else if m = IN_UNMOUNT then Report ''UNMOUNT'' file wd
      else if m = IN_Q_OVERFLOW then Warning ''OVERFLOW''
      else if m = IN_IGNORED then Warning ''IGNORED''
      else Report ''UNKNOWN'' file wd)"

definition handle_event :: "u8 list \<Rightarrow> report list option" where
  "handle_event event =
     do { cur_event_wd \<leftarrow> ev_wd event;
          len \<leftarrow> ev_len event;
          cur_event_filename \<leftarrow> (if len \<noteq> 0 then map_option Some (c_string event 24) else Some None);
          m \<leftarrow> ev_mask event;
          Some [Filename cur_event_filename, event_report m cur_event_filename cur_event_wd] }"

text \<open>The queue is drained; the result is what was printed and the queue.\<close>

partial_function (option) handle_events ::
  "u8 list queue_struct \<Rightarrow> (report list \<times> u8 list queue_struct) option" where
  "handle_events q =
     (if \<not> queue_empty q then do {
        p \<leftarrow> queue_front q;
        event \<leftarrow> p;
        let q = queue_dequeue q;
        r \<leftarrow> handle_event event;
        (rs, q) \<leftarrow> handle_events q;
        Some (r @ rs, q) }
      else Some ([], q))"

section \<open>Reading\<close>

text \<open>
  The loop over the \<open>r\<close> bytes that \<open>read\<close> stored in \<open>buffer\<close>, with the lines it prints.  \<open>mem k\<close> tells whether the
  \<open>k\<close>-th \<open>malloc\<close> succeeds; the result of a failed one is used unchecked.
\<close>

partial_function (option) read_loop ::
  "(nat \<Rightarrow> bool) \<Rightarrow> u8 list \<Rightarrow> u64 \<Rightarrow> u64 \<Rightarrow> u8 list queue_struct \<Rightarrow> nat \<Rightarrow>
     (report list \<times> nat \<times> u8 list queue_struct) option" where
  "read_loop mem buffer r buffer_i q count =
     (if buffer_i < r then do {
        n \<leftarrow> rd_le buffer (unat buffer_i + 16) 8;
        let event_size = (of_nat sizeof_inotify_event + of_nat n :: u64);
        if \<not> mem count then None
        else do {
          event \<leftarrow> rd_bytes buffer (unat buffer_i) (unat event_size);
          q \<leftarrow> queue_enqueue event q;
          (ps, count, q) \<leftarrow> read_loop mem buffer r (buffer_i + event_size) q (Suc count);
          Some (Event_len (of_nat n) # ps, count, q) } }
      else Some ([], count, q))"

text \<open>\<open>read\<close> has returned \<open>r\<close> and left the 16384 bytes \<open>buffer\<close>.\<close>

definition read_events ::
  "(nat \<Rightarrow> bool) \<Rightarrow> u8 list queue_struct \<Rightarrow> i64 \<Rightarrow> u8 list \<Rightarrow>
     (report list \<times> i32 \<times> u8 list queue_struct) option" where
  "read_events mem q r buffer =
     (if sint r \<le> 0 then Some ([], ucast r, q)
      else do {
        (ps, count, q) \<leftarrow> read_loop mem buffer r 0 q 0;
        Some (Bytes_read (ucast r) # Size_of_event (of_nat sizeof_inotify_event) # ps, of_nat count, q) })"

text \<open>
  \<open>while (1)\<close> with the outcomes of \<open>event_check\<close> and \<open>read\<close> in each turn.  The result is what
  was printed, the queue, and whether the loop was left; it is still running when the
  outcomes are used up.
\<close>

fun process_inotify_events ::
  "(nat \<Rightarrow> bool) \<Rightarrow> u8 list queue_struct \<Rightarrow> (i32 \<times> i64 \<times> u8 list) list \<Rightarrow>
     (report list \<times> u8 list queue_struct \<times> bool) option" where
  "process_inotify_events mem q [] =
     (if \<not> queue_empty q then do { (rs, q) \<leftarrow> handle_events q; Some (rs, q, False) }
      else Some ([], q, False))"
| "process_inotify_events mem q ((check, rr, buffer) # turns) =
     do { (rs, q) \<leftarrow> (if \<not> queue_empty q then handle_events q else Some ([], q));
          if 0 < sint check then do {
            (ps, r, q) \<leftarrow> read_events mem q rr buffer;
            if sint r < 0 then Some (rs @ ps, q, True)
            else do { (rs', q, b) \<leftarrow> process_inotify_events mem q turns; Some (rs @ ps @ rs', q, b) } }
          else do { (rs', q, b) \<leftarrow> process_inotify_events mem q turns; Some (rs @ rs', q, b) } }"

declare handle_events.simps [code] read_loop.simps [code]

section \<open>The program\<close>

text \<open>
  The watch on a directory: the answer of the device and what is printed.  \<open>%d\<close> prints the low half of the \<open>long\<close> mask.
  Removing a watch, opening and closing return the answer of the call and print on the error stream only.
\<close>

definition watch_dir :: "string \<Rightarrow> i64 \<Rightarrow> i32 \<Rightarrow> i32 \<times> string" where
  "watch_dir dirname watched wd =
     (wd, (if sint wd < 0 then ''ioctl(fd, INOTIFY_WATCH, {'' @ dirname @ '', '' @ fmt_d (ucast watched) @ ''}) = '' @ fmt_d wd else []) @
          dirname @ '' WD='' @ fmt_d wd @ [CHR 0x0A])"

definition ALL_MASK :: i64 where
  "ALL_MASK = 0xffffffff"

text \<open>
  \<open>inotify_test.c\<close>: the descriptor and the watch are answers of the device.  The result is the text of the watch, the
  reports, and what is freed and closed when the loop has been left.
\<close>

definition inotify_main ::
  "i32 \<Rightarrow> bool \<Rightarrow> u8 list list option \<Rightarrow> i32 \<Rightarrow> (nat \<Rightarrow> bool) \<Rightarrow> string \<Rightarrow> (i32 \<times> i64 \<times> u8 list) list \<Rightarrow>
     (string \<times> report list \<times> u8 list freed list \<times> i32 list) option" where
  "inotify_main fd room cells wd mem dirname turns =
     (if sint fd < 0 then Some ([], [], [], [])
      else case queue_create room cells 128 of
             Inl e \<Rightarrow> None
           | Inr q \<Rightarrow> do {
               (rs, q, left) \<leftarrow> process_inotify_events mem q turns;
               Some (snd (watch_dir dirname ALL_MASK wd), rs, if left then queue_destroy (Some q) else [], if left then [fd] else []) })"

section \<open>Whole events\<close>

text \<open>
  What the device is documented to deliver: whole events, each as long as its \<open>len\<close> says,
  the name ended by a NUL when there is one.
\<close>

definition whole_event :: "u8 list \<Rightarrow> bool" where
  "whole_event e \<longleftrightarrow> rd_le e 16 8 = Some (length e - 24) \<and> 24 \<le> length e \<and>
     (24 < length e \<longrightarrow> 0 \<in> set (drop 24 e))"

definition event_of :: "u8 list \<Rightarrow> report list" where
  "event_of e =
     (let name = if length e = 24 then None else Some (takeWhile (\<lambda>b. b \<noteq> 0) (drop 24 e))
      in [Filename name, event_report (of_nat (le_nat (take 4 (drop 4 e)))) name (of_nat (le_nat (take 4 e)))])"

definition len_line :: "u8 list \<Rightarrow> report" where
  "len_line e = Event_len (of_nat (length e - 24))"

definition read_lines :: "u8 list list \<Rightarrow> report list" where
  "read_lines evs = Bytes_read (of_nat (length (concat evs))) # Size_of_event 24 # map len_line evs"

lemma handle_whole:
  assumes "whole_event e" "length e < 16777216"
  shows "handle_event e = Some (event_of e)"
proof -
  have l: "24 \<le> length e" "rd_le e 16 8 = Some (length e - 24)"
    using assms(1) by (simp_all add: whole_event_def)
  have n: "(of_nat (length e - 24) :: u64) = 0 \<longleftrightarrow> length e = 24"
  proof -
    have "unat (of_nat (length e - 24) :: u64) = length e - 24"
      using assms(2) by (simp only: unat_of_nat) simp
    then have "(of_nat (length e - 24) :: u64) = 0 \<longleftrightarrow> length e - 24 = 0"
      by (simp only: unat_eq_0 [symmetric])
    with l(1) show ?thesis by linarith
  qed
  have f: "ev_len e = Some (of_nat (length e - 24))" "ev_wd e = Some (of_nat (le_nat (take 4 e)))"
    "ev_mask e = Some (of_nat (le_nat (take 4 (drop 4 e))))"
    using l by (simp_all add: ev_len_def ev_wd_def ev_mask_def rd_le_def rd_bytes_def)
  have "length e \<noteq> 24 \<Longrightarrow> c_string e 24 = Some (takeWhile (\<lambda>b. b \<noteq> 0) (drop 24 e))"
    using assms(1) l(1) by (simp add: whole_event_def c_string_def Let_def)
  then show ?thesis by (simp add: handle_event_def f n event_of_def Let_def)
qed

lemma handle_events_spec:
  "q_wf q \<Longrightarrow> \<forall>e \<in> set (q_contents q). whole_event e \<and> length e < 16777216 \<Longrightarrow>
   \<exists>q'. handle_events q = Some (concat (map event_of (q_contents q)), q') \<and> q_wf q' \<and> q_cap q' = q_cap q \<and>
     q_contents q' = []"
proof (induction "q_contents q" arbitrary: q)
  case Nil
  then show ?case by (subst handle_events.simps) (simp add: queue_empty_iff)
next
  case (Cons e es)
  have c: "q_contents q = e # es" by (rule Cons.hyps(2) [symmetric])
  have ne: "\<not> queue_empty q" using c by (simp add: queue_empty_iff)
  have f: "queue_front q = Some (Some e)" using front_spec [OF Cons.prems(1)] c by simp
  have d: "q_wf (queue_dequeue q)" "q_cap (queue_dequeue q) = q_cap q" "q_contents (queue_dequeue q) = es"
    using dequeue_spec [OF Cons.prems(1)] c by simp_all
  have "e \<in> set (q_contents q)" "set es \<subseteq> set (q_contents q)" using c by auto
  then have h: "handle_event e = Some (event_of e)" using Cons.prems(2) handle_whole by blast
  obtain q' where "handle_events (queue_dequeue q) = Some (concat (map event_of es), q')" "q_wf q'"
    "q_cap q' = q_cap q" "q_contents q' = []"
    using Cons.hyps(1) [OF d(3) [symmetric] d(1)] Cons.prems(2) d \<open>set es \<subseteq> _\<close> by auto
  then show ?case
    using ne f h by (subst handle_events.simps) (simp add: Let_def c)
qed

lemma enqueue_take:
  assumes "q_wf q"
  shows "\<exists>q'. queue_enqueue d q = Some q' \<and> q_wf q' \<and> q_cap q' = q_cap q \<and>
    q_contents q' = take (q_cap q) (q_contents q @ [d])"
proof (cases "q_len q < q_cap q")
  case True
  with enqueue_room [OF assms True, of d] show ?thesis by auto
next
  case False
  then have "q_len q = q_cap q" using assms by (simp add: q_wf_def)
  then show ?thesis using assms by (simp add: queue_enqueue_def queue_full_iff)
qed

lemma rd_le_append: "length pre = p \<Longrightarrow> rd_le e k n = Some v \<Longrightarrow> rd_le (pre @ e @ post) (p + k) n = Some v"
  by (auto simp: rd_le_def rd_bytes_def split: if_splits)

lemma read_loop_spec:
  "q_wf q \<Longrightarrow> \<forall>e \<in> set evs. whole_event e \<Longrightarrow> \<forall>k. mem k \<Longrightarrow>
   length pre + length (concat evs) + length post < 16777216 \<Longrightarrow>
   \<exists>q'. read_loop mem (pre @ concat evs @ post) (of_nat (length (pre @ concat evs)))
       (of_nat (length pre)) q c = Some (map len_line evs, c + length evs, q') \<and>
     q_wf q' \<and> q_cap q' = q_cap q \<and> q_contents q' = take (q_cap q) (q_contents q @ evs)"
proof (induction evs arbitrary: q pre c)
  case Nil
  then show ?case by (subst read_loop.simps) (simp add: q_wf_def)
next
  case (Cons e evs)
  have e: "rd_le e 16 8 = Some (length e - 24)" "24 \<le> length e"
    using Cons.prems(2) by (simp_all add: whole_event_def)
  have u: "unat (of_nat n :: u64) = n" if "n < 16777216" for n
    using that by (simp only: unat_of_nat) simp
  have lens: "length pre < 16777216" "length e < 16777216"
    "length (pre @ concat (e # evs)) < 16777216" using Cons.prems(4) by simp_all
  let ?r = "of_nat (length (pre @ concat (e # evs))) :: u64"
  let ?buf = "pre @ concat (e # evs) @ post"
  have less: "(of_nat (length pre) :: u64) < ?r"
    unfolding word_less_nat_alt u [OF lens(1)] u [OF lens(3)] using e(2) by (cases e) auto
  have n: "rd_le ?buf (length pre + 16) 8 = Some (length e - 24)"
    using rd_le_append [OF refl e(1), of pre "concat evs @ post"] by simp
  have sz: "of_nat sizeof_inotify_event + of_nat (length e - 24) = (of_nat (length e) :: u64)"
    using e(2) by (simp add: sizeof_inotify_event_def)
  have ev: "rd_bytes ?buf (length pre) (length e) = Some e"
    using rd_bytes_at [of pre "length pre" e "length e" "concat evs @ post"] by simp
  obtain q1 where q1: "queue_enqueue e q = Some q1" "q_wf q1" "q_cap q1 = q_cap q"
    "q_contents q1 = take (q_cap q) (q_contents q @ [e])"
    using enqueue_take [OF Cons.prems(1)] by blast
  have evs: "\<forall>e \<in> set evs. whole_event e" using Cons.prems(2) by simp
  have rest: "length (pre @ e) + length (concat evs) + length post < 16777216"
    using Cons.prems(4) by simp
  obtain q' where q': "read_loop mem ((pre @ e) @ concat evs @ post)
      (of_nat (length ((pre @ e) @ concat evs))) (of_nat (length (pre @ e))) q1 (Suc c) =
      Some (map len_line evs, Suc c + length evs, q')" "q_wf q'" "q_cap q' = q_cap q1"
    "q_contents q' = take (q_cap q1) (q_contents q1 @ evs)"
    using Cons.IH [OF q1(2) evs Cons.prems(3) rest, of "Suc c"] by blast
  have "read_loop mem ?buf ?r (of_nat (length pre)) q c =
      do { (ps, count, q) \<leftarrow> read_loop mem ?buf ?r (of_nat (length pre) + of_nat (length e)) q1 (Suc c);
           Some (len_line e # ps, count, q) }"
    using less n sz ev q1(1) Cons.prems(3) u lens
    by (subst read_loop.simps) (simp add: Let_def len_line_def)
  also have "\<dots> = Some (map len_line (e # evs), Suc c + length evs, q')" using q'(1) by (simp add: algebra_simps)
  finally have "read_loop mem ?buf ?r (of_nat (length pre)) q c = Some (map len_line (e # evs), c + length (e # evs), q')"
    by simp
  moreover have "q_contents q' = take (q_cap q) (q_contents q @ e # evs)"
  proof -
    have "q_len q \<le> q_cap q" using Cons.prems(1) by (simp add: q_wf_def)
    then show ?thesis using q'(4) q1(3,4) by (cases "q_len q = q_cap q") auto
  qed
  ultimately show ?case using q' q1 by auto
qed

lemma ucast_size: "(ucast (of_nat n :: i64) :: i32) = of_nat n"
  by (simp add: unsigned_of_nat word_of_nat_eq_iff)

text \<open>A read of whole events puts as many as there is room for into the empty queue and counts them all.\<close>

lemma read_events_whole:
  assumes "q_wf q" "q_contents q = []" "\<forall>e \<in> set evs. whole_event e" "\<forall>k. mem k"
    "evs \<noteq> []" "length (concat evs) + length post = 16384"
  shows "\<exists>q1. read_events mem q (of_nat (length (concat evs))) (concat evs @ post) = Some (read_lines evs, of_nat (length evs), q1) \<and>
    q_wf q1 \<and> q_cap q1 = q_cap q \<and> q_contents q1 = take (q_cap q) evs \<and> length evs \<le> 16384 \<and>
    (\<forall>e \<in> set evs. whole_event e \<and> length e < 16777216)"
proof -
  let ?r = "of_nat (length (concat evs)) :: i64"
  obtain q1 where q1: "read_loop mem (concat evs @ post) ?r 0 q 0 = Some (map len_line evs, length evs, q1)"
    "q_wf q1" "q_cap q1 = q_cap q" "q_contents q1 = take (q_cap q) evs"
    using read_loop_spec [OF assms(1,3,4), of "[]" post 0] assms(2,6) by auto
  have "24 \<le> length (hd evs)" "length (hd evs) \<le> length (concat evs)"
    using assms(3,5) by (cases evs; simp add: whole_event_def)+
  then have "0 < length (concat evs)" by linarith
  moreover have "sint ?r = int (length (concat evs))"
  proof -
    have "int (length (concat evs)) < 2 ^ 63" using assms(6) by simp
    then show ?thesis by (simp add: signed_of_nat signed_take_bit_int_eq_self)
  qed
  ultimately have "\<not> sint ?r \<le> 0" by linarith
  then have r: "read_events mem q ?r (concat evs @ post) = Some (read_lines evs, of_nat (length evs), q1)"
    using q1(1) ucast_size unfolding read_events_def if_not_P [OF \<open>\<not> sint ?r \<le> 0\<close>]
    by (simp add: read_lines_def sizeof_inotify_event_def)
  have "whole_event e \<and> length e < 16777216" if e: "e \<in> set evs" for e
  proof -
    have "length e \<le> length (concat evs)" using e by (induction evs) auto
    with assms(3,6) e show ?thesis by auto
  qed
  moreover have "length evs \<le> length (concat evs)"
    using assms(3) by (induction evs) (auto simp: whole_event_def)
  ultimately show ?thesis using r q1 assms(6) by auto
qed

text \<open>
  Reading and handling: \<open>handle_events\<close> then reports, in order, what fitted into the queue; the events beyond its capacity
  are dropped although they were counted.
\<close>

lemma inotify_read_handle:
  assumes "q_wf q" "q_contents q = []" "\<forall>e \<in> set evs. whole_event e" "\<forall>k. mem k"
    "evs \<noteq> []" "length (concat evs) + length post = 16384"
  shows "\<exists>q1 q2. read_events mem q (of_nat (length (concat evs))) (concat evs @ post) =
      Some (read_lines evs, of_nat (length evs), q1) \<and>
    handle_events q1 = Some (concat (map event_of (take (q_cap q) evs)), q2) \<and> queue_empty q2"
proof -
  obtain q1 where q1: "read_events mem q (of_nat (length (concat evs))) (concat evs @ post) = Some (read_lines evs, of_nat (length evs), q1)"
    "q_wf q1" "q_contents q1 = take (q_cap q) evs" "\<forall>e \<in> set evs. whole_event e \<and> length e < 16777216"
    using read_events_whole [OF assms] by blast
  then have "\<forall>e \<in> set (q_contents q1). whole_event e \<and> length e < 16777216"
    using set_take_subset [of "q_cap q" evs] by auto
  with handle_events_spec [OF q1(2)] q1(1,3) show ?thesis by (auto simp: queue_empty_iff)
qed

text \<open>A turn of the loop: nothing to read within the time, or a read of whole events.\<close>

definition turn_of :: "u8 list list option \<Rightarrow> i32 \<times> i64 \<times> u8 list" where
  "turn_of t = (case t of None \<Rightarrow> (0, 0, [])
     | Some evs \<Rightarrow> (1, of_nat (length (concat evs)), concat evs @ replicate (16384 - length (concat evs)) 0))"

definition good_turn :: "u8 list list option \<Rightarrow> bool" where
  "good_turn t \<longleftrightarrow> (case t of None \<Rightarrow> True
     | Some evs \<Rightarrow> evs \<noteq> [] \<and> (\<forall>e \<in> set evs. whole_event e) \<and> length (concat evs) \<le> 16384)"

definition turn_reports :: "nat \<Rightarrow> u8 list list option \<Rightarrow> report list" where
  "turn_reports cap t = (case t of None \<Rightarrow> [] | Some evs \<Rightarrow> read_lines evs @ concat (map event_of (take cap evs)))"

text \<open>At the start of a turn what is in the queue is reported.\<close>

lemma drain:
  assumes "q_wf q" "\<forall>e \<in> set (q_contents q). whole_event e \<and> length e < 16777216"
  shows "\<exists>q'. (if \<not> queue_empty q then handle_events q else Some ([], q)) = Some (concat (map event_of (q_contents q)), q') \<and>
    q_wf q' \<and> q_cap q' = q_cap q \<and> q_contents q' = []"
  using handle_events_spec [OF assms] assms(1) by (auto simp: queue_empty_iff)

lemma process_turns:
  assumes "\<forall>k. mem k"
  shows "\<lbrakk>q_wf q; \<forall>e \<in> set (q_contents q). whole_event e \<and> length e < 16777216; \<forall>t \<in> set ts. good_turn t\<rbrakk> \<Longrightarrow>
    \<exists>q'. process_inotify_events mem q (map turn_of ts @ [(1, - 1, buffer)]) =
      Some (concat (map event_of (q_contents q)) @ concat (map (turn_reports (q_cap q)) ts), q', True) \<and> q_contents q' = []"
proof (induction ts arbitrary: q)
  case Nil
  have "(ucast (- 1 :: i64) :: i32) = - 1" by (rule bit_word_eqI) (simp add: bit_simps)
  then show ?case using drain [OF Nil(1,2)] by (auto simp: read_events_def)
next
  case (Cons t ts)
  obtain q1 where q1: "(if \<not> queue_empty q then handle_events q else Some ([], q)) = Some (concat (map event_of (q_contents q)), q1)"
    "q_wf q1" "q_cap q1 = q_cap q" "q_contents q1 = []"
    using drain [OF Cons.prems(1,2)] by blast
  show ?case
  proof (cases t)
    case None
    then show ?thesis using Cons.IH [OF q1(2)] q1 Cons.prems(3)
      by (auto simp: turn_of_def [of None] turn_reports_def [of _ None])
  next
    case (Some evs)
    have g: "evs \<noteq> []" "\<forall>e \<in> set evs. whole_event e" "length (concat evs) \<le> 16384"
      using Cons.prems(3) by (simp_all add: Some good_turn_def)
    define post :: "u8 list" where "post = replicate (16384 - length (concat evs)) 0"
    have "length (concat evs) + length post = 16384" using g(3) by (simp add: post_def)
    then obtain q2 where q2: "read_events mem q1 (of_nat (length (concat evs))) (concat evs @ post) = Some (read_lines evs, of_nat (length evs), q2)"
      "q_wf q2" "q_cap q2 = q_cap q" "q_contents q2 = take (q_cap q) evs" "length evs \<le> 16384"
      "\<forall>e \<in> set evs. whole_event e \<and> length e < 16777216"
      using read_events_whole [OF q1(2,4) g(2) assms g(1)] q1(3) by auto
    have "sint (of_nat (length evs) :: i32) = int (length evs)"
      using q2(5) by (simp add: signed_of_nat signed_take_bit_int_eq_self)
    then have pos: "\<not> sint (of_nat (length evs) :: i32) < 0" by simp
    have w: "\<forall>e \<in> set (q_contents q2). whole_event e \<and> length e < 16777216"
      using q2(4,6) set_take_subset [of "q_cap q" evs] by auto
    then obtain q3 where "process_inotify_events mem q2 (map turn_of ts @ [(1, - 1, buffer)]) =
        Some (concat (map event_of (take (q_cap q) evs)) @ concat (map (turn_reports (q_cap q)) ts), q3, True)" "q_contents q3 = []"
      using Cons.IH [OF q2(2) w] Cons.prems(3) q2(3,4) by auto
    moreover have "turn_of (Some evs) = (1, of_nat (length (concat evs)), concat evs @ post)"
      "turn_reports c (Some evs) = read_lines evs @ concat (map event_of (take c evs))" for c
      by (simp_all add: turn_of_def turn_reports_def post_def)
    ultimately show ?thesis using q1(1) q2(1) pos by (simp add: Some)
  qed
qed

text \<open>
  C11: the program on a directory.  Over any turns, in each of which nothing arrives in time or whole events are read, and
  until a read fails, it prints the text of the watch and then, for every read, its size, the length of each event and, in
  order, the name and the report of each of the first 128 events; at the end the queue is empty and freed and the descriptor closed.
\<close>

theorem inotify_program:
  assumes "0 \<le> sint fd" "length cells = 128" "\<forall>k. mem k" "\<forall>t \<in> set ts. good_turn t"
  shows "\<exists>q. inotify_main fd True (Some cells) wd mem dirname (map turn_of ts @ [(1, - 1, buffer)]) =
      Some (snd (watch_dir dirname ALL_MASK wd), concat (map (turn_reports 128) ts), queue_destroy (Some q), [fd]) \<and> queue_empty q"
proof -
  obtain q where q: "queue_create True (Some cells) 128 = Inr q" "q_wf q" "q_contents q = []" "q_cap q = 128"
    using queue_create_wf [of 128 cells] assms(2) by auto
  obtain q' where "process_inotify_events mem q (map turn_of ts @ [(1, - 1, buffer)]) =
      Some (concat (map (turn_reports 128) ts), q', True)" "q_contents q' = []"
    using process_turns [OF assms(3) q(2) _ assms(4), of buffer] q(3,4) by auto
  then show ?thesis using assms(1) q(1) by (auto simp: inotify_main_def queue_empty_iff)
qed

definition demo_event :: "u8 list" where
  "demo_event = [1,0,0,0, 8,0,0,0, 0,0,0,0, 0,0,0,0, 2,0,0,0,0,0,0,0, 97,0]"

lemma demo_event_whole: "whole_event demo_event"
  by code_simp

theorem inotify_program_witness:
  "\<exists>q. inotify_main 3 True (Some (replicate 128 [])) 1 (\<lambda>k. True) ''/tmp'' (map turn_of [None, Some [demo_event]] @ [(1, - 1, [])]) =
      Some (snd (watch_dir ''/tmp'' ALL_MASK 1), concat (map (turn_reports 128) [None, Some [demo_event]]), queue_destroy (Some q), [3]) \<and>
    queue_empty q"
  by (rule inotify_program) (use demo_event_whole in \<open>simp_all add: good_turn_def demo_event_def\<close>)

text \<open>
  close events.  The kernel reports the closing of a file as \<open>IN_CLOSE_WRITE\<close> or
  \<open>IN_CLOSE_NOWRITE\<close>; \<open>handle_event\<close> compares the mask with their union and reports
  an unknown event.
\<close>

theorem handle_event_close_unknown:
  "event_report IN_CLOSE_WRITE file wd = Report ''UNKNOWN'' file wd \<and>
   event_report IN_CLOSE_NOWRITE file wd = Report ''UNKNOWN'' file wd"
proof -
  note defs = IN_ACCESS_def IN_MODIFY_def IN_ATTRIB_def IN_CLOSE_WRITE_def IN_CLOSE_NOWRITE_def
    IN_OPEN_def IN_MOVED_FROM_def IN_MOVED_TO_def IN_DELETE_SUBDIR_def IN_DELETE_FILE_def
    IN_CREATE_SUBDIR_def IN_CREATE_FILE_def IN_DELETE_SELF_def IN_UNMOUNT_def IN_Q_OVERFLOW_def
    IN_IGNORED_def IN_CLOSE_def
  show ?thesis by (simp add: event_report_def defs)
qed

end
