(* ===== verification/IpRange.thy ===== *)
theory IpRange
  imports CText
begin

text \<open>
  \<open>src/ip_range.c\<close>: CIDR arithmetic on IPv4 addresses in host order, the splitting of an address
  range into CIDR blocks and the joining of blocks into ranges.  What the program prints is a
  list of lines; \<open>exit(1)\<close> is an outcome.  \<open>inet_aton\<close> is a parameter.
\<close>

section \<open>Addresses and masks\<close>

record network_addr_t =
  addr :: u32
  pfx :: int

text \<open>A shift by a negative amount has no defined result.\<close>

definition set_bit_c :: "u32 \<Rightarrow> int \<Rightarrow> bool \<Rightarrow> u32 option" where
  "set_bit_c a bitno val =
     (if bitno < 1 \<or> 32 < bitno then None
      else Some (if val then a OR push_bit (nat (32 - bitno)) 1
                 else a AND NOT (push_bit (nat (32 - bitno)) 1)))"

definition netmask :: "int \<Rightarrow> u32" where
  "netmask prefix =
     (if prefix = 0 then NOT (- 1) else NOT (push_bit (nat (32 - prefix)) 1 - 1))"

definition broadcast :: "u32 \<Rightarrow> int \<Rightarrow> u32" where
  "broadcast a prefix = a OR NOT (netmask prefix)"

definition network :: "u32 \<Rightarrow> int \<Rightarrow> u32" where
  "network a prefix = a AND netmask prefix"

definition print_addr :: "u32 \<Rightarrow> int \<Rightarrow> string" where
  "print_addr a prefix =
     (if prefix < 32 then ntoa a @ ''/'' @ fmt_d (word_of_int prefix) else ntoa a)"

section \<open>Splitting a range\<close>

text \<open>
  The blocks printed, and whether the function returned (\<open>False\<close>: \<open>exit(1)\<close>).  \<open>seq_runs\<close> is
  the sequence of two calls, the second not made if the first exits.
\<close>

type_synonym run = "((u32 \<times> int) list \<times> bool) option"

definition seq_runs :: "run \<Rightarrow> run \<Rightarrow> run" where
  "seq_runs r s =
     do { (xs, ok) \<leftarrow> r; if ok then do { (ys, ok') \<leftarrow> s; Some (xs @ ys, ok') } else Some (xs, False) }"

function split_range :: "u32 \<Rightarrow> int \<Rightarrow> u32 \<Rightarrow> u32 \<Rightarrow> run" where
  "split_range a prefix lo hi =
     (if prefix < 0 \<or> 32 < prefix then Some ([], False)
      else let bc = broadcast a prefix
      in if lo < a \<or> bc < hi then Some ([], False)
      else if lo = a \<and> hi = bc then Some ([(a, prefix)], True)
      else case set_bit_c a (prefix + 1) True of
          None \<Rightarrow> None
        | Some upper_half \<Rightarrow>
            if hi < upper_half then split_range a (prefix + 1) lo hi
            else if upper_half \<le> lo then split_range upper_half (prefix + 1) lo hi
            else seq_runs (split_range a (prefix + 1) lo (broadcast a (prefix + 1)))
                          (split_range upper_half (prefix + 1) upper_half hi))"
  by pat_completeness auto
termination
  by (relation "measure (\<lambda>(a, prefix, lo, hi). nat (33 - prefix))") auto

declare split_range.simps [simp del]

section \<open>Reading addresses\<close>

text \<open>\<open>aton\<close> is \<open>inet_aton\<close> followed by \<open>ntohl\<close>, \<open>None\<close> for an invalid address.\<close>

definition a_to_hl :: "(string \<Rightarrow> u32 option) \<Rightarrow> string \<Rightarrow> u32 option" where
  "a_to_hl aton ipstr = aton ipstr"

text \<open>
  \<open>e\<close> is whether \<open>errno\<close> is set, which nothing ever resets; it is passed on.  \<open>None\<close> is \<open>exit(1)\<close>.
\<close>

definition str_to_netaddr ::
  "(string \<Rightarrow> u32 option) \<Rightarrow> bool \<Rightarrow> string \<Rightarrow> (network_addr_t \<times> bool) option" where
  "str_to_netaddr aton e ipstr =
     (let ip = takeWhile (\<lambda>c. c \<noteq> CHR ''/'') ipstr;
          rest = dropWhile (\<lambda>c. c \<noteq> CHR ''/'') ipstr
      in case rest of
           [] \<Rightarrow> do { a \<leftarrow> a_to_hl aton ip; Some (\<lparr>addr = network a 32, pfx = 32\<rparr>, e) }
         | _ # prefixstr \<Rightarrow>
             let (prefix, end, range) = strtol 10 prefixstr; e = (e \<or> range)
             in if e \<or> prefixstr = [] \<or> prefix < 0 \<or> 32 < prefix then None
                else do { a \<leftarrow> a_to_hl aton ip; Some (\<lparr>addr = network a prefix, pfx = prefix\<rparr>, e) })"

definition compar_netaddr :: "network_addr_t \<Rightarrow> network_addr_t \<Rightarrow> int" where
  "compar_netaddr na1 na2 =
     (if addr na1 < addr na2 then - 1
      else if addr na2 < addr na1 then 1
      else if pfx na1 < pfx na2 then - 1
      else if pfx na2 < pfx na1 then 1
      else 0)"

definition print_addr_range :: "u32 \<Rightarrow> u32 \<Rightarrow> string" where
  "print_addr_range lo hi = (if lo \<noteq> hi then ntoa lo @ ''-'' else []) @ ntoa hi"

section \<open>Joining blocks\<close>

text \<open>\<open>fscanf("%20s")\<close>: at most 20 characters that are not blanks.\<close>

definition next_token :: "string \<Rightarrow> (string \<times> string) option" where
  "next_token s =
     (let t = dropWhile is_space s; w = take 20 (takeWhile (\<lambda>c. \<not> is_space c) t)
      in if t = [] then None else Some (w, drop (length w) t))"

partial_function (option) read_netaddrs ::
  "(string \<Rightarrow> u32 option) \<Rightarrow> bool \<Rightarrow> string \<Rightarrow> (network_addr_t list \<times> bool) option option" where
  "read_netaddrs aton e s =
     (case next_token s of
        None \<Rightarrow> Some (Some ([], e))
      | Some (w, s) \<Rightarrow>
          (case str_to_netaddr aton e w of
             None \<Rightarrow> Some None
           | Some (na, e) \<Rightarrow>
               do { r \<leftarrow> read_netaddrs aton e s;
                    Some (map_option (\<lambda>(nas, e). (na # nas, e)) r) }))"

declare read_netaddrs.simps [code]

text \<open>
  \<open>qsort\<close> with \<open>compar_netaddr\<close>, under which only identical elements are equal: insertion into
  the sorted part.
\<close>

fun insert_netaddr :: "network_addr_t \<Rightarrow> network_addr_t list \<Rightarrow> network_addr_t list" where
  "insert_netaddr x [] = [x]"
| "insert_netaddr x (y # ys) = (if compar_netaddr x y \<le> 0 then x # y # ys else y # insert_netaddr x ys)"

definition sort_netaddrs :: "network_addr_t list \<Rightarrow> network_addr_t list" where
  "sort_netaddrs xs = foldr insert_netaddr xs []"

fun join_loop :: "u32 \<Rightarrow> u32 \<Rightarrow> network_addr_t list \<Rightarrow> (u32 \<times> u32) list" where
  "join_loop lo hi [] = [(lo, hi)]"
| "join_loop lo hi (na # nas) =
     (let bc = broadcast (addr na) (pfx na)
      in if bc \<le> hi then join_loop lo hi nas
         else if addr na = hi + 1 then join_loop lo bc nas
         else (lo, hi) # join_loop (addr na) bc nas)"

definition join_ranges :: "network_addr_t list \<Rightarrow> (u32 \<times> u32) list" where
  "join_ranges nas =
     (case sort_netaddrs nas of
        [] \<Rightarrow> []
      | na # nas \<Rightarrow> join_loop (addr na) (broadcast (addr na) (pfx na)) nas)"

text \<open>A program run: the lines printed and the exit status.\<close>

definition print_split :: "run \<Rightarrow> (string list \<times> bool) option" where
  "print_split r = map_option (\<lambda>(bs, ok). (map (\<lambda>(a, p). print_addr a p) bs, ok)) r"

fun print_ranges :: "bool \<Rightarrow> (u32 \<times> u32) list \<Rightarrow> (string list \<times> bool) option" where
  "print_ranges Jflg [] = Some ([], True)"
| "print_ranges Jflg ((lo, hi) # rs) =
     do { (ls, ok) \<leftarrow> (if Jflg then print_split (split_range 0 0 lo hi)
                       else Some ([print_addr_range lo hi], True));
          if ok then do { (ls', ok) \<leftarrow> print_ranges Jflg rs; Some (ls @ ls', ok) }
          else Some (ls, False) }"

text \<open>\<open>file\<close> is the contents of the file or of \<open>stdin\<close>, \<open>None\<close> when the file cannot be opened.\<close>

definition netaddr_to_range ::
  "(string \<Rightarrow> u32 option) \<Rightarrow> bool \<Rightarrow> bool \<Rightarrow> string option \<Rightarrow> (string list \<times> bool) option" where
  "netaddr_to_range aton e Jflg file =
     (case file of
        None \<Rightarrow> Some ([], False)
      | Some s \<Rightarrow>
          do { r \<leftarrow> read_netaddrs aton e s;
               case r of None \<Rightarrow> Some ([], False)
               | Some (nas, e) \<Rightarrow> print_ranges Jflg (join_ranges nas) })"

text \<open>\<open>main\<close>: \<open>files\<close> maps a file name, or \<open>None\<close> for \<open>stdin\<close>, to its contents.\<close>

definition iprange_main ::
  "(string \<Rightarrow> u32 option) \<Rightarrow> (string option \<Rightarrow> string option) \<Rightarrow> bool \<Rightarrow> string list \<Rightarrow>
     (string list \<times> int) option" where
  "iprange_main aton files e argv =
     (let finish = map_option (\<lambda>(ls, ok). (ls, if ok then 0 else 1));
          argc = length argv
      in if (argc = 2 \<or> argc = 3) \<and> (argv ! 1 = ''-J'' \<or> argv ! 1 = ''-j'')
         then finish (netaddr_to_range aton e (argv ! 1 = ''-J'')
                (files (if argc = 3 \<and> argv ! 2 \<noteq> [] then Some (argv ! 2) else None)))
         else if argc = 4 \<and> argv ! 1 = ''-s''
         then (case str_to_netaddr aton e (argv ! 2) of
                 None \<Rightarrow> Some ([], 1)
               | Some (na, e) \<Rightarrow>
                   let lo = network (addr na) (pfx na)
                   in case str_to_netaddr aton e (argv ! 3) of
                        None \<Rightarrow> Some ([], 1)
                      | Some (na, e) \<Rightarrow>
                          finish (print_split (split_range 0 0 lo (broadcast (addr na) (pfx na)))))
         else Some ([''usage''], 1))"

section \<open>Blocks as intervals\<close>

text \<open>\<open>cidr a p\<close>: \<open>a\<close> is the network address of a block of prefix length \<open>p\<close>.\<close>

definition bsize :: "int \<Rightarrow> nat" where
  "bsize p = 2 ^ nat (32 - p)"

definition cidr :: "u32 \<Rightarrow> int \<Rightarrow> bool" where
  "cidr a p \<longleftrightarrow> 0 \<le> p \<and> p \<le> 32 \<and> unat a mod bsize p = 0"

definition ivl :: "u32 \<times> int \<Rightarrow> nat set" where
  "ivl b = {unat (fst b)..<unat (fst b) + bsize (snd b)}"

lemma NOT_netmask: "0 \<le> p \<Longrightarrow> p \<le> 32 \<Longrightarrow> NOT (netmask p) = mask (nat (32 - p))"
  by (auto simp: netmask_def mask_eq_exp_minus_1)

lemma unat_mask32: "n \<le> 32 \<Longrightarrow> unat (mask n :: u32) = 2 ^ n - 1"
proof -
  assume "n \<le> 32"
  have "unat (of_nat (mask n) :: u32) = mask n mod 2 ^ LENGTH(32)" by (rule unat_of_nat)
  moreover have "(mask n :: nat) < 2 ^ 32"
  proof -
    have "(2 :: nat) ^ n \<le> 2 ^ 32" using \<open>n \<le> 32\<close> by (intro power_increasing) simp_all
    moreover have "(0 :: nat) < 2 ^ n" by simp
    ultimately show ?thesis unfolding mask_eq_exp_minus_1 by linarith
  qed
  ultimately have "unat (mask n :: u32) = mask n"
    by (simp add: of_nat_mask_eq)
  then show ?thesis by (simp add: mask_eq_exp_minus_1)
qed

lemma unat_pow32: "n < 32 \<Longrightarrow> unat (2 ^ n :: u32) = 2 ^ n"
proof -
  assume "n < 32"
  then have "(2 :: nat) ^ n < 2 ^ 32" by (intro power_strict_increasing) simp_all
  moreover have "unat (of_nat (2 ^ n) :: u32) = 2 ^ n mod 2 ^ LENGTH(32)" by (rule unat_of_nat)
  ultimately show ?thesis by simp
qed

lemma nat_or_disjoint: "x mod 2 ^ n = 0 \<Longrightarrow> y < 2 ^ n \<Longrightarrow> (x OR y :: nat) = x + y"
proof -
  assume x: "x mod 2 ^ n = 0" and y: "y < 2 ^ n"
  have "\<not> bit x k \<or> \<not> bit y k" for k
  proof (cases "k < n")
    case True
    have "take_bit n x = 0" using x by (simp add: take_bit_eq_mod)
    then have "\<not> bit (take_bit n x) k" by simp
    with True show ?thesis by (simp add: bit_take_bit_iff)
  next
    case False
    have "take_bit n y = y" using y by (simp add: take_bit_nat_eq_self)
    then have "bit y k \<Longrightarrow> k < n" by (metis bit_take_bit_iff)
    with False show ?thesis by blast
  qed
  then have "x + y = x OR y" by (intro disjunctive_add_eq_or bit_eqI) (auto simp: bit_and_iff)
  then show ?thesis by simp
qed

lemma unat_broadcast:
  assumes "cidr a p"
  shows "unat (broadcast a p) = unat a + (bsize p - 1)"
proof -
  let ?n = "nat (32 - p)"
  have n: "?n \<le> 32" "0 \<le> p" "p \<le> 32" and m: "unat a mod 2 ^ ?n = 0"
    using assms by (auto simp: cidr_def bsize_def)
  have "unat (broadcast a p) = unat a OR unat (mask ?n :: u32)"
    by (simp add: broadcast_def NOT_netmask n unsigned_or_eq)
  also have "\<dots> = unat a + unat (mask ?n :: u32)"
    using m n by (intro nat_or_disjoint [where n = ?n]) (simp_all add: unat_mask32)
  finally show ?thesis using n by (simp add: unat_mask32 bsize_def)
qed

lemma bsize_pos [simp]: "0 < bsize p"
  by (simp add: bsize_def)

lemma bsize_half: "0 \<le> p \<Longrightarrow> p < 32 \<Longrightarrow> bsize p = 2 * bsize (p + 1)"
proof -
  assume "0 \<le> p" "p < 32"
  then have "nat (32 - p) = Suc (nat (32 - (p + 1)))" by simp
  then show ?thesis by (simp add: bsize_def)
qed

lemma set_bit_upper:
  assumes "cidr a p" "p < 32"
  shows "\<exists>u. set_bit_c a (p + 1) True = Some u \<and> unat u = unat a + bsize (p + 1) \<and>
    cidr a (p + 1) \<and> cidr u (p + 1)"
proof -
  let ?n = "nat (32 - (p + 1))"
  let ?u = "a OR push_bit ?n 1"
  have p: "0 \<le> p" "?n \<le> 31" and m: "unat a mod bsize p = 0" using assms by (auto simp: cidr_def)
  have h: "bsize p = 2 * bsize (p + 1)" by (rule bsize_half [OF p(1) assms(2)])
  then have pw: "bsize p = 2 ^ Suc ?n" by (simp add: bsize_def)
  have "unat (push_bit ?n 1 :: u32) = 2 ^ ?n" using unat_pow32 [of ?n] p(2) by simp
  then have "unat ?u = unat a OR 2 ^ ?n" by (simp add: unsigned_or_eq)
  also have "\<dots> = unat a + 2 ^ ?n"
    using m by (intro nat_or_disjoint [where n = "Suc ?n"]) (simp_all add: pw)
  finally have u: "unat ?u = unat a + bsize (p + 1)" by (simp add: bsize_def)
  have "bsize (p + 1) dvd unat a" using m h by (metis dvd_mult_right mod_0_imp_dvd)
  then have "unat a mod bsize (p + 1) = 0" "unat ?u mod bsize (p + 1) = 0" using u by auto
  then show ?thesis using assms u p by (auto simp: cidr_def set_bit_c_def)
qed

section \<open>The blocks tile the range and are maximal\<close>

fun tiles :: "nat \<Rightarrow> nat \<Rightarrow> (u32 \<times> int) list \<Rightarrow> bool" where
  "tiles l e [] \<longleftrightarrow> l = e"
| "tiles l e (b # bs) \<longleftrightarrow> cidr (fst b) (snd b) \<and> unat (fst b) = l \<and> tiles (l + bsize (snd b)) e bs"

definition absorbs :: "nat \<Rightarrow> nat \<Rightarrow> (u32 \<times> int) list \<Rightarrow> bool" where
  "absorbs l e bs \<longleftrightarrow>
     (\<forall>c q. cidr c q \<and> ivl (c, q) \<subseteq> {l..<e} \<longrightarrow> (\<exists>b \<in> set bs. ivl (c, q) \<subseteq> ivl b))"

lemma tiles_append: "tiles l m xs \<Longrightarrow> tiles m e ys \<Longrightarrow> tiles l e (xs @ ys)"
  by (induction xs arbitrary: l) auto

lemma dvd_block_split:
  fixes s c u :: nat
  assumes "s dvd c" "s dvd u" "c < u"
  shows "c + s \<le> u"
proof -
  have "s dvd u - c" using assms by (simp add: dvd_diff_nat)
  then have "s \<le> u - c" using assms(3) by (intro dvd_imp_le) simp_all
  with assms(3) show ?thesis by linarith
qed

lemma block_one_side:
  assumes "cidr c q" "bsize q dvd u" "ivl (c, q) \<subseteq> {l..<e}"
  shows "ivl (c, q) \<subseteq> {l..<min u e} \<or> ivl (c, q) \<subseteq> {max u l..<e}"
proof (cases "unat c < u")
  case True
  have "bsize q dvd unat c" using assms(1) by (auto simp: cidr_def)
  then have "unat c + bsize q \<le> u" using dvd_block_split assms(2) True by blast
  then show ?thesis using assms(3) by (auto simp: ivl_def)
next
  case False
  then show ?thesis using assms(3) by (auto simp: ivl_def)
qed

lemma bsize_dvd: "p \<le> q \<Longrightarrow> bsize q dvd bsize p"
  by (simp add: bsize_def le_imp_power_dvd)

lemma bsize_less: "bsize q < bsize p \<Longrightarrow> p < q"
  unfolding bsize_def by (rule ccontr) (auto simp: power_increasing)

lemma block_small:
  assumes "cidr c q" "ivl (c, q) \<subseteq> {l..<e}" "e < l + bsize p"
  shows "p < q"
proof -
  have "unat c \<in> ivl (c, q)" "unat c + (bsize q - 1) \<in> ivl (c, q)"
    using bsize_pos [of q] by (auto simp: ivl_def simp del: bsize_pos)
  then have "l \<le> unat c" "unat c + (bsize q - 1) < e" using assms(2) by auto
  then have "bsize q < bsize p" using assms(3) by linarith
  then show ?thesis by (rule bsize_less)
qed

text \<open>\<open>k\<close> is the number of address bits the block has left.\<close>

definition split_ok :: "u32 \<Rightarrow> nat \<Rightarrow> u32 \<Rightarrow> u32 \<Rightarrow> (u32 \<times> int) list \<Rightarrow> bool" where
  "split_ok a k lo hi bs \<longleftrightarrow>
     tiles (unat lo) (Suc (unat hi)) bs \<and> absorbs (unat lo) (Suc (unat hi)) bs \<and>
     (lo = a \<and> Suc (unat hi) = unat a + 2 ^ k \<longrightarrow> length bs = 1) \<and>
     (lo = a \<or> Suc (unat hi) = unat a + 2 ^ k \<longrightarrow> length bs \<le> max 1 k) \<and>
     length bs \<le> max 1 (2 * (k - 1))"

lemma word32_nat: "(x :: u32) < y \<longleftrightarrow> unat x < unat y" "x \<le> y \<longleftrightarrow> unat x \<le> unat y"
  "x = y \<longleftrightarrow> unat x = unat y"
  by (simp_all add: word_less_nat_alt word_le_nat_alt word_unat_eq_iff)

lemma split_range_spec:
  "k \<le> 32 \<Longrightarrow> cidr a (32 - int k) \<Longrightarrow> unat a \<le> unat lo \<Longrightarrow> unat lo \<le> unat hi \<Longrightarrow>
   unat hi < unat a + 2 ^ k \<Longrightarrow>
   \<exists>bs. split_range a (32 - int k) lo hi = Some (bs, True) \<and> split_ok a k lo hi bs"
proof (induction k arbitrary: a lo hi)
  case 0
  then have eq: "lo = a" "hi = a" by (simp_all add: word32_nat)
  have "broadcast a 32 = a" using unat_broadcast [of a 32] 0(2) by (simp add: bsize_def word32_nat(3))
  then have "split_range a 32 lo hi = Some ([(a, 32)], True)"
    by (subst split_range.simps) (simp add: eq)
  moreover have "absorbs (unat a) (Suc (unat a)) [(a, 32)]"
    by (auto simp: absorbs_def ivl_def bsize_def)
  ultimately show ?case using 0(2) eq by (simp add: split_ok_def bsize_def)
next
  case (Suc k)
  let ?p = "32 - int (Suc k)" and ?h = "32 - int k"
  have p: "?p + 1 = ?h" "0 \<le> ?p" "?p < 32" using Suc.prems(1) by simp_all
  have "nat (32 - ?p) = Suc k" "nat (32 - ?h) = k" by simp_all
  then have sz: "bsize ?p = 2 ^ Suc k" "bsize ?h = 2 ^ k" by (simp_all only: bsize_def)
  have bc: "unat (broadcast a ?p) = unat a + (2 ^ Suc k - 1)"
    using unat_broadcast [OF Suc.prems(2)] by (simp only: sz)
  have inr: "\<not> (lo < a \<or> broadcast a ?p < hi)"
    using Suc.prems(3,5) bc by (auto simp: word32_nat)
  have last: "hi = broadcast a ?p \<longleftrightarrow> Suc (unat hi) = unat a + 2 ^ Suc k"
  proof -
    have "(0 :: nat) < 2 ^ Suc k" by simp
    then show ?thesis unfolding word32_nat(3) bc by linarith
  qed
  note unf = split_range.simps [of a ?p lo hi]
  show ?case
  proof (cases "lo = a \<and> hi = broadcast a ?p")
    case True
    then have "split_range a ?p lo hi = Some ([(a, ?p)], True)"
      using inr p by (subst unf) (simp add: Let_def)
    moreover have "absorbs (unat lo) (Suc (unat hi)) [(a, ?p)]"
      using True last sz by (auto simp: absorbs_def ivl_def)
    ultimately show ?thesis
      using True last sz Suc.prems(2) by (auto simp: split_ok_def)
  next
    case notfull: False
    obtain u where u: "set_bit_c a ?h True = Some u" "unat u = unat a + 2 ^ k" "cidr a ?h" "cidr u ?h"
      using set_bit_upper [OF Suc.prems(2) p(3)] unfolding p(1) sz by blast
    have step: "split_range a ?p lo hi =
        (if hi < u then split_range a ?h lo hi
         else if u \<le> lo then split_range u ?h lo hi
         else seq_runs (split_range a ?h lo (broadcast a ?h)) (split_range u ?h u hi))"
      using inr notfull p u(1) by (subst unf) (auto simp: Let_def)
    have kle: "k \<le> 32" using Suc.prems(1) by simp
    have nf: "\<not> (lo = a \<and> Suc (unat hi) = unat a + 2 ^ Suc k)" using notfull last by blast
    consider "hi < u" | "u \<le> lo" | "\<not> hi < u" "\<not> u \<le> lo" by blast
    then show ?thesis
    proof cases
      case 1
      then have hi: "unat hi < unat a + 2 ^ k" using u(2) by (simp add: word32_nat)
      obtain bs where bs: "split_range a ?h lo hi = Some (bs, True)" "split_ok a k lo hi bs"
        using Suc.IH [OF kle u(3) Suc.prems(3,4) hi] by blast
      have "split_ok a (Suc k) lo hi bs"
        using bs(2) hi nf unfolding split_ok_def by (auto simp: max_def split: if_splits)
      with step 1 bs(1) show ?thesis by simp
    next
      case 2
      then have lo: "unat u \<le> unat lo" by (simp add: word32_nat)
      have hi: "unat hi < unat u + 2 ^ k" using Suc.prems(5) u(2) by simp
      obtain bs where bs: "split_range u ?h lo hi = Some (bs, True)" "split_ok u k lo hi bs"
        using Suc.IH [OF kle u(4) lo Suc.prems(4) hi] by blast
      have "lo \<noteq> a" using lo u(2) by auto
      moreover have "Suc (unat hi) = unat a + 2 ^ Suc k \<longleftrightarrow> Suc (unat hi) = unat u + 2 ^ k"
        using u(2) by (simp add: mult_2 add.assoc)
      ultimately have "split_ok a (Suc k) lo hi bs"
        using bs(2) unfolding split_ok_def by (auto simp: max_def split: if_splits)
      moreover have "\<not> hi < u" using lo Suc.prems(4) by (simp add: word32_nat(1))
      ultimately show ?thesis using step 2 bs(1) by simp
    next
      case 3
      then have lo: "unat lo < unat u" and hi: "unat u \<le> unat hi" by (simp_all add: word32_nat)
      let ?m = "broadcast a ?h"
      have m: "Suc (unat ?m) = unat u"
        using unat_broadcast [OF u(3)] u(2) by (simp add: sz(2))
      obtain xs where xs: "split_range a ?h lo ?m = Some (xs, True)" "split_ok a k lo ?m xs"
        using Suc.IH [OF kle u(3) Suc.prems(3), of ?m] lo m u(2) by auto
      obtain ys where ys: "split_range u ?h u hi = Some (ys, True)" "split_ok u k u hi ys"
        using Suc.IH [OF kle u(4) order_refl hi] Suc.prems(5) u(2) by auto
      have kpos: "0 < k"
      proof (rule ccontr)
        assume "\<not> 0 < k"
        then have "unat lo = unat a" "Suc (unat hi) = unat a + 2 ^ Suc k"
          using lo hi Suc.prems(3,5) u(2) by simp_all
        with nf show False by (simp add: word32_nat)
      qed
      have "absorbs (unat lo) (Suc (unat hi)) (xs @ ys)"
        unfolding absorbs_def
      proof (intro allI impI)
        fix c q assume cq: "cidr c q \<and> ivl (c, q) \<subseteq> {unat lo..<Suc (unat hi)}"
        have "Suc (unat hi) < unat lo + bsize ?p"
          using nf Suc.prems(3,5) unfolding sz by (auto simp: word32_nat)
        then have "?h \<le> q" using block_small [of c q "unat lo" "Suc (unat hi)" ?p] cq p(1) by linarith
        then have "bsize q dvd bsize ?h" by (rule bsize_dvd)
        moreover have "bsize ?h dvd unat u" using u(4) by (auto simp: cidr_def)
        ultimately have d: "bsize q dvd unat u" by (rule dvd_trans)
        have "min (unat u) (Suc (unat hi)) = Suc (unat ?m)" "max (unat u) (unat lo) = unat u"
          using lo hi m by simp_all
        then have "ivl (c, q) \<subseteq> {unat lo..<Suc (unat ?m)} \<or> ivl (c, q) \<subseteq> {unat u..<Suc (unat hi)}"
          using block_one_side [OF _ d, of c "unat lo" "Suc (unat hi)"] cq by simp
        then show "\<exists>b \<in> set (xs @ ys). ivl (c, q) \<subseteq> ivl b"
          using xs(2) ys(2) cq unfolding split_ok_def absorbs_def set_append by blast
      qed
      moreover have "tiles (unat lo) (Suc (unat hi)) (xs @ ys)"
        using xs(2) ys(2) m tiles_append [of "unat lo" "unat u" xs] by (simp add: split_ok_def)
      moreover have "length xs \<le> max 1 k" "length ys \<le> max 1 k" "lo = a \<longrightarrow> length xs = 1"
        "Suc (unat hi) = unat u + 2 ^ k \<longrightarrow> length ys = 1"
        using xs(2) ys(2) m u(2) unfolding split_ok_def by simp_all
      ultimately have "split_ok a (Suc k) lo hi (xs @ ys)"
        using kpos nf u(2) unfolding split_ok_def by (auto simp: max_def split: if_splits)
      with step 3 xs(1) ys(1) show ?thesis by (simp add: seq_runs_def)
    qed
  qed
qed

lemma tiles_range: "tiles l e bs \<Longrightarrow> l \<le> e \<and> (\<forall>b \<in> set bs. ivl b \<subseteq> {l..<e})"
proof (induction bs arbitrary: l)
  case (Cons b bs)
  have "l + bsize (snd b) \<le> e" "\<forall>b \<in> set bs. ivl b \<subseteq> {l + bsize (snd b)..<e} \<or> ivl b \<subseteq> {l..<e}"
    using Cons by fastforce+
  with Cons show ?case by (fastforce simp: ivl_def)
qed simp

lemma tiles_Union: "tiles l e bs \<Longrightarrow> \<Union> (ivl ` set bs) = {l..<e}"
proof (induction bs arbitrary: l)
  case (Cons b bs)
  then have b: "ivl b = {l..<l + bsize (snd b)}" "tiles (l + bsize (snd b)) e bs" by (auto simp: ivl_def)
  then have "l + bsize (snd b) \<le> e" using tiles_range by blast
  with Cons.IH [OF b(2)] b(1) show ?case by auto
qed simp

lemma tiles_disjoint: "tiles l e bs \<Longrightarrow> sorted_wrt (\<lambda>b c. \<forall>x \<in> ivl b. \<forall>y \<in> ivl c. x < y) bs"
proof (induction bs arbitrary: l)
  case (Cons b bs)
  then have b: "ivl b = {l..<l + bsize (snd b)}" "tiles (l + bsize (snd b)) e bs" by (auto simp: ivl_def)
  have "\<forall>c \<in> set bs. ivl c \<subseteq> {l + bsize (snd b)..<e}" using tiles_range [OF b(2)] by blast
  then have "\<forall>c \<in> set bs. \<forall>x \<in> ivl b. \<forall>y \<in> ivl c. x < y" using b(1) by fastforce
  with Cons.IH [OF b(2)] show ?case by simp
qed simp

lemma ivl_nonempty: "unat (fst b) \<in> ivl b"
  by (simp add: ivl_def)

lemma tiles_unique:
  assumes "tiles l e bs" "b \<in> set bs" "c \<in> set bs" "x \<in> ivl b" "x \<in> ivl c"
  shows "b = c"
proof -
  have "sorted_wrt (\<lambda>b c. \<forall>x \<in> ivl b. \<forall>y \<in> ivl c. x < y) bs" by (rule tiles_disjoint [OF assms(1)])
  then show ?thesis using assms(2-5) by (induction bs) fastforce+
qed

lemma tiles_distinct: "tiles l e bs \<Longrightarrow> distinct bs"
proof -
  assume "tiles l e bs"
  then have "sorted_wrt (\<lambda>b c. \<forall>x \<in> ivl b. \<forall>y \<in> ivl c. x < y) bs" by (rule tiles_disjoint)
  then show ?thesis using ivl_nonempty by (induction bs) fastforce+
qed

lemma absorbing_tiles_minimal:
  assumes t: "tiles l e bs" and a: "absorbs l e bs"
    and cs: "\<forall>c \<in> set cs. cidr (fst c) (snd c)" "\<Union> (ivl ` set cs) = {l..<e}"
  shows "length bs \<le> length cs"
proof -
  let ?f = "\<lambda>c. SOME b. b \<in> set bs \<and> ivl c \<subseteq> ivl b"
  have "set bs \<subseteq> ?f ` set cs"
  proof
    fix b assume b: "b \<in> set bs"
    have "unat (fst b) \<in> \<Union> (ivl ` set cs)" using ivl_nonempty tiles_Union [OF t] cs(2) b by blast
    then obtain c where c: "c \<in> set cs" "unat (fst b) \<in> ivl c" by blast
    have "ivl c \<subseteq> {l..<e}" "cidr (fst c) (snd c)" using c(1) cs by auto
    then have ex: "\<exists>b'. b' \<in> set bs \<and> ivl c \<subseteq> ivl b'"
      using a [unfolded absorbs_def, rule_format, of "fst c" "snd c"] by auto
    then have "?f c \<in> set bs \<and> ivl c \<subseteq> ivl (?f c)" by (rule someI_ex)
    then have "?f c = b" using tiles_unique [OF t, of "?f c" b "unat (fst b)"] b c(2) ivl_nonempty by blast
    with c(1) show "b \<in> ?f ` set cs" by blast
  qed
  then have "card (set bs) \<le> card (set cs)" by (rule surj_card_le [OF finite_set])
  then show ?thesis using distinct_card [OF tiles_distinct [OF t]] card_length [of cs] by linarith
qed

text \<open>
  C5: splitting.  For \<open>lo \<le> hi\<close>, \<open>split_range(0, 0, lo, hi)\<close> does not exit and prints CIDR blocks
  that tile the range in increasing order, without gap or overlap; no set of CIDR blocks
  covering exactly the range is smaller, and there are at most 62.
\<close>

theorem split_range_minimal_tiling:
  assumes "lo \<le> hi"
  shows "\<exists>bs. split_range 0 0 lo hi = Some (bs, True) \<and> tiles (unat lo) (Suc (unat hi)) bs \<and>
    length bs \<le> 62 \<and>
    (\<forall>cs. (\<forall>c \<in> set cs. cidr (fst c) (snd c)) \<and> \<Union> (ivl ` set cs) = {unat lo..<Suc (unat hi)}
      \<longrightarrow> length bs \<le> length cs)"
proof -
  have "unat hi < 2 ^ LENGTH(32)" by (rule unsigned_less)
  then have "unat hi < unat (0 :: u32) + 2 ^ 32" by simp
  moreover have "cidr 0 (32 - int 32)" by (simp add: cidr_def)
  ultimately obtain bs where bs: "split_range 0 (32 - int 32) lo hi = Some (bs, True)" "split_ok 0 32 lo hi bs"
    using split_range_spec [of 32 0 lo hi] assms by (auto simp: word_le_nat_alt)
  then show ?thesis
    using absorbing_tiles_minimal by (auto simp: split_ok_def)
qed

theorem split_range_minimal_tiling_witness:
  "\<exists>bs. split_range 0 0 167772161 167772171 = Some (bs, True) \<and> length bs \<le> 62"
  using split_range_minimal_tiling [of 167772161 167772171] by auto

section \<open>Joining blocks into ranges\<close>

lemma network_cidr: "0 \<le> p \<Longrightarrow> p \<le> 32 \<Longrightarrow> cidr (network a p) p"
proof -
  assume p: "0 \<le> p" "p \<le> 32"
  let ?n = "nat (32 - p)"
  have "netmask p = NOT (NOT (netmask p))" by simp
  then have m: "netmask p = NOT (mask ?n)" by (simp only: NOT_netmask p)
  have "take_bit ?n (network a p) = 0"
    by (rule bit_word_eqI) (auto simp: network_def m bit_take_bit_iff bit_and_iff bit_not_iff bit_mask_iff)
  then have "take_bit ?n (unat (network a p)) = 0" by (simp flip: unsigned_take_bit_eq)
  then show ?thesis using p by (simp add: cidr_def bsize_def take_bit_eq_mod)
qed

lemma str_to_netaddr_cidr: "str_to_netaddr aton e s = Some (na, e') \<Longrightarrow> cidr (addr na) (pfx na)"
proof -
  assume a: "str_to_netaddr aton e s = Some (na, e')"
  obtain v r x where st: "strtol 10 (tl (dropWhile (\<lambda>c. c \<noteq> CHR ''/'') s)) = (v, r, x)"
    by (metis prod_cases3)
  have "\<exists>h p. 0 \<le> p \<and> p \<le> 32 \<and> na = \<lparr>addr = network h p, pfx = p\<rparr>"
  proof (cases "dropWhile (\<lambda>c. c \<noteq> CHR ''/'') s")
    case Nil
    have "Option.bind (a_to_hl aton (takeWhile (\<lambda>c. c \<noteq> CHR ''/'') s))
        (\<lambda>a. Some (\<lparr>addr = network a 32, pfx = 32\<rparr>, e)) = Some (na, e')"
      using a unfolding str_to_netaddr_def Let_def Nil list.case by assumption
    then obtain h where "na = \<lparr>addr = network h 32, pfx = 32\<rparr>" unfolding bind_Some_iff by auto
    then show ?thesis by (intro exI [of _ h] exI [of _ 32]) simp
  next
    case (Cons c cs)
    have "\<not> (v < 0 \<or> 32 < v) \<and> Option.bind (a_to_hl aton (takeWhile (\<lambda>c. c \<noteq> CHR ''/'') s))
        (\<lambda>a. Some (\<lparr>addr = network a v, pfx = v\<rparr>, e \<or> x)) = Some (na, e')"
      using a st unfolding str_to_netaddr_def Let_def Cons list.case list.sel
      by (simp split: if_split_asm)
    then obtain h where "\<not> (v < 0 \<or> 32 < v)" "na = \<lparr>addr = network h v, pfx = v\<rparr>"
      unfolding bind_Some_iff by auto
    then show ?thesis by (intro exI [of _ h] exI [of _ v]) simp
  qed
  then show ?thesis using network_cidr by auto
qed

definition na_le :: "network_addr_t \<Rightarrow> network_addr_t \<Rightarrow> bool" where
  "na_le x y \<longleftrightarrow> unat (addr x) < unat (addr y) \<or> addr x = addr y \<and> pfx x \<le> pfx y"

lemma compar_le: "compar_netaddr x y \<le> 0 \<longleftrightarrow> na_le x y"
  by (auto simp: compar_netaddr_def na_le_def word32_nat)

lemma na_le_total: "na_le x y \<or> na_le y x"
  by (auto simp: na_le_def word32_nat)

lemma na_le_trans: "na_le x y \<Longrightarrow> na_le y z \<Longrightarrow> na_le x z"
  by (auto simp: na_le_def)

lemma insert_netaddr_sorted:
  "sorted_wrt na_le ys \<Longrightarrow> sorted_wrt na_le (insert_netaddr x ys) \<and>
   set (insert_netaddr x ys) = insert x (set ys)"
proof (induction ys)
  case (Cons y ys)
  then show ?case using na_le_total [of x y] by (auto simp: compar_le intro: na_le_trans)
qed simp

lemma sort_netaddrs_sorted: "sorted_wrt na_le (sort_netaddrs xs) \<and> set (sort_netaddrs xs) = set xs"
  unfolding sort_netaddrs_def using insert_netaddr_sorted by (induction xs) auto

definition na_ivl :: "network_addr_t \<Rightarrow> nat set" where
  "na_ivl na = ivl (addr na, pfx na)"

definition na_ok :: "network_addr_t \<Rightarrow> bool" where
  "na_ok na \<longleftrightarrow> cidr (addr na) (pfx na)"

definition na_end :: "network_addr_t \<Rightarrow> u32" where
  "na_end na = broadcast (addr na) (pfx na)"

lemma na_ivl_end: "na_ok na \<Longrightarrow> na_ivl na = {unat (addr na)..unat (na_end na)}"
  using bsize_pos [of "pfx na"] unat_broadcast [of "addr na" "pfx na"]
  by (auto simp: na_ivl_def na_ok_def na_end_def ivl_def simp del: bsize_pos)

lemma na_start_end: "na_ok na \<Longrightarrow> unat (addr na) \<le> unat (na_end na)"
  using unat_broadcast [of "addr na" "pfx na"] by (simp add: na_ok_def na_end_def)

text \<open>Blocks are nested or disjoint, so in the sorted order none reaches over the end of an earlier one.\<close>

lemma sorted_no_overlap:
  assumes ok: "na_ok b" "na_ok c" and le: "na_le b c" and over: "unat (na_end b) < unat (na_end c)"
  shows "unat (na_end b) < unat (addr c)"
proof (rule ccontr)
  assume "\<not> unat (na_end b) < unat (addr c)"
  then have c: "unat (addr c) \<le> unat (na_end b)" by simp
  have e: "unat (na_end b) = unat (addr b) + (bsize (pfx b) - 1)"
    "unat (na_end c) = unat (addr c) + (bsize (pfx c) - 1)"
    using ok unat_broadcast by (simp_all add: na_ok_def na_end_def)
  have start: "unat (addr b) \<le> unat (addr c)" using le by (auto simp: na_le_def)
  have d: "bsize (pfx b) dvd unat (addr b)" "bsize (pfx c) dvd unat (addr c)"
    using ok by (auto simp: na_ok_def cidr_def)
  show False
  proof (cases "pfx b \<le> pfx c")
    case True
    then have s: "bsize (pfx c) dvd bsize (pfx b)" by (rule bsize_dvd)
    have "bsize (pfx c) dvd unat (addr b) + bsize (pfx b)" by (rule dvd_add [OF dvd_trans [OF s d(1)] s])
    moreover have "unat (addr c) < unat (addr b) + bsize (pfx b)"
      using c e(1) bsize_pos [of "pfx b"] by linarith
    ultimately have "unat (addr c) + bsize (pfx c) \<le> unat (addr b) + bsize (pfx b)"
      using dvd_block_split d(2) by blast
    then show False using over e bsize_pos [of "pfx c"] bsize_pos [of "pfx b"] by linarith
  next
    case False
    then have s: "bsize (pfx b) dvd bsize (pfx c)" by (intro bsize_dvd) simp
    have dc: "bsize (pfx b) dvd unat (addr c)" by (rule dvd_trans [OF s d(2)])
    have "unat (addr b) \<noteq> unat (addr c)" using le False by (auto simp: na_le_def word32_nat(3))
    then have "unat (addr b) < unat (addr c)" using start by simp
    then have "unat (addr b) + bsize (pfx b) \<le> unat (addr c)" by (rule dvd_block_split [OF d(1) dc])
    then show False using c e(1) bsize_pos [of "pfx b"] by linarith
  qed
qed

definition ranges_ok :: "(u32 \<times> u32) list \<Rightarrow> bool" where
  "ranges_ok rs \<longleftrightarrow> (\<forall>r \<in> set rs. fst r \<le> snd r) \<and> sorted_wrt (\<lambda>r s. Suc (unat (snd r)) < unat (fst s)) rs"

definition ranges_set :: "(u32 \<times> u32) list \<Rightarrow> nat set" where
  "ranges_set rs = (\<Union>r \<in> set rs. {unat (fst r)..unat (snd r)})"

lemma join_loop_spec:
  "na_ok b \<Longrightarrow> unat lo \<le> unat (addr b) \<Longrightarrow> \<forall>c \<in> set nas. na_ok c \<and> na_le b c \<Longrightarrow> sorted_wrt na_le nas \<Longrightarrow>
   ranges_ok (join_loop lo (na_end b) nas) \<and> fst (hd (join_loop lo (na_end b) nas)) = lo \<and>
   join_loop lo (na_end b) nas \<noteq> [] \<and>
   ranges_set (join_loop lo (na_end b) nas) = {unat lo..unat (na_end b)} \<union> \<Union> (na_ivl ` set nas)"
proof (induction nas arbitrary: lo b)
  case Nil
  then show ?case using na_start_end [of b] by (simp add: ranges_ok_def ranges_set_def word32_nat)
next
  case (Cons c nas)
  have c: "na_ok c" "na_le b c" "unat (addr b) \<le> unat (addr c)" "\<forall>d \<in> set nas. na_ok d \<and> na_le c d"
    using Cons.prems(3,4) by (auto simp: na_le_def)
  have sorted: "sorted_wrt na_le nas" using Cons.prems(4) by simp
  note iv = na_ivl_end [OF c(1)]
  show ?case
  proof (cases "na_end c \<le> na_end b")
    case True
    have "na_ivl c \<subseteq> {unat lo..unat (na_end b)}"
      using iv True c(3) Cons.prems(2) by (auto simp: word32_nat)
    then show ?thesis
      using True Cons.IH [OF Cons.prems(1,2) _ sorted] Cons.prems(3) by (simp add: na_end_def) blast
  next
    case False
    then have gt: "unat (na_end b) < unat (na_end c)" by (simp add: word32_nat)
    have after: "unat (na_end b) < unat (addr c)" by (rule sorted_no_overlap [OF Cons.prems(1) c(1,2) gt])
    have "unat (na_end b + 1) = Suc (unat (na_end b))"
    proof -
      have "unat (addr c) < 2 ^ LENGTH(32)" by (rule unsigned_less)
      with after show ?thesis by (simp add: unat_word_ariths)
    qed
    then have adj: "addr c = na_end b + 1 \<longleftrightarrow> unat (addr c) = Suc (unat (na_end b))"
      by (simp add: word32_nat(3))
    show ?thesis
    proof (cases "addr c = na_end b + 1")
      case True
      have lo: "unat lo \<le> unat (addr c)" using Cons.prems(2) c(3) by simp
      have "{unat lo..unat (na_end c)} = {unat lo..unat (na_end b)} \<union> na_ivl c"
        using iv True adj gt Cons.prems(2) na_start_end [OF Cons.prems(1)] by auto
      then show ?thesis
        using True False Cons.IH [OF c(1) lo c(4) sorted] by (simp add: na_end_def Un_assoc)
    next
      case gap: False
      have IH: "ranges_ok (join_loop (addr c) (na_end c) nas)"
        "fst (hd (join_loop (addr c) (na_end c) nas)) = addr c"
        "join_loop (addr c) (na_end c) nas \<noteq> []"
        "ranges_set (join_loop (addr c) (na_end c) nas) = na_ivl c \<union> \<Union> (na_ivl ` set nas)"
        using Cons.IH [OF c(1) order_refl c(4) sorted] iv by simp_all
      have e: "join_loop lo (na_end b) (c # nas) = (lo, na_end b) # join_loop (addr c) (na_end c) nas"
        using False gap by (simp add: na_end_def Let_def)
      have g: "Suc (unat (na_end b)) < unat (addr c)" using after gap adj by linarith
      have "\<forall>r \<in> set (join_loop (addr c) (na_end c) nas). Suc (unat (na_end b)) < unat (fst r)"
      proof (cases "join_loop (addr c) (na_end c) nas")
        case (Cons r rs)
        then have "fst r = addr c" "\<forall>s \<in> set rs. Suc (unat (snd r)) < unat (fst s)" "unat (fst r) \<le> unat (snd r)"
          using IH(1,2) by (simp_all add: ranges_ok_def word32_nat)
        then show ?thesis using g Cons by fastforce
      qed simp
      moreover have "lo \<le> na_end b"
        using Cons.prems(2) na_start_end [OF Cons.prems(1)] by (simp add: word32_nat)
      ultimately show ?thesis
        unfolding e using IH by (simp add: ranges_ok_def ranges_set_def del: join_loop.simps)
    qed
  qed
qed

text \<open>
  C6: joining.  Of any list of CIDR blocks, in any order and with repetitions,
  \<open>netaddr_to_range\<close> makes the ranges of their union: in increasing order, disjoint and not
  even adjacent.
\<close>

theorem join_ranges_union:
  assumes "\<forall>na \<in> set nas. cidr (addr na) (pfx na)"
  shows "ranges_ok (join_ranges nas) \<and> ranges_set (join_ranges nas) = (\<Union>na \<in> set nas. ivl (addr na, pfx na))"
proof -
  have s: "sorted_wrt na_le (sort_netaddrs nas)" "set (sort_netaddrs nas) = set nas"
    using sort_netaddrs_sorted by auto
  show ?thesis
  proof (cases "sort_netaddrs nas")
    case Nil
    then have "nas = []" using s(2) by simp
    then show ?thesis using Nil by (simp add: join_ranges_def ranges_ok_def ranges_set_def)
  next
    case (Cons b cs)
    have ok: "na_ok b" "\<forall>c \<in> set cs. na_ok c \<and> na_le b c" "sorted_wrt na_le cs" "set nas = insert b (set cs)"
      using assms s Cons by (auto simp: na_ok_def)
    have "join_ranges nas = join_loop (addr b) (na_end b) cs"
      using Cons by (simp add: join_ranges_def na_end_def)
    then show ?thesis
      using join_loop_spec [OF ok(1) order_refl ok(2,3)] na_ivl_end [OF ok(1)] ok(4)
      by (simp add: na_ivl_def)
  qed
qed

theorem join_ranges_union_witness:
  "ranges_ok (join_ranges [\<lparr>addr = 256, pfx = 24\<rparr>, \<lparr>addr = 0, pfx = 24\<rparr>])"
proof -
  have "cidr 256 24" "cidr 0 24" by (simp_all add: cidr_def bsize_def)
  then show ?thesis
    using join_ranges_union [of "[\<lparr>addr = 256, pfx = 24\<rparr>, \<lparr>addr = 0, pfx = 24\<rparr>]"] by simp
qed

end
