(* ===== verification/HashTable.thy ===== *)
theory HashTable
  imports Interfaces
begin

text \<open>
  \<open>src/bsd_hash/hash.c\<close> with the singly linked lists of \<open>queue_plus.h\<close>: a chained hash table.
  Entries live in a heap and are linked by pointers; \<open>None\<close> is the null pointer.  Keys are
  pointers into a byte memory \<open>mem\<close>, which maps the address of a block to its bytes; the
  table stores the pointer, not the bytes.  A \<open>None\<close> result is an access through \<open>NULL\<close> or
  outside a block, a division by zero or an undefined shift.
\<close>

section \<open>State\<close>

type_synonym ptr = "nat option"

record internal_entry =
  sle_next :: ptr
  key :: nat
  key_len :: i32
  data :: u64

record hsearch_data =
  htable :: "ptr list option"
  htablesize :: u64
  entries :: "nat \<rightharpoonup> internal_entry"

definition MIN_BUCKETS_LG2 :: nat where "MIN_BUCKETS_LG2 = 4"
definition MIN_BUCKETS :: u64 where "MIN_BUCKETS = push_bit MIN_BUCKETS_LG2 1"
definition MAX_BUCKETS_LG2 :: nat where "MAX_BUCKETS_LG2 = 8 * 8 - 1 - 5"
definition MAX_BUCKETS :: u64 where "MAX_BUCKETS = push_bit MAX_BUCKETS_LG2 1"

section \<open>The hash function\<close>

text \<open>Add a byte, then the carries back in while the sum exceeds 255.\<close>

function add_carry :: "nat \<Rightarrow> nat" where
  "add_carry accum = (if 255 < accum then add_carry (accum mod 256 + accum div 256) else accum)"
  by pat_completeness auto
termination
proof (relation "measure id")
  fix accum :: nat
  assume "255 < accum"
  then have "0 < accum div 256" by simp
  moreover have "accum = 256 * (accum div 256) + accum mod 256" by simp
  ultimately have "accum mod 256 + accum div 256 < accum" by linarith
  then show "(accum mod 256 + accum div 256, accum) \<in> measure id" by simp
qed simp

declare add_carry.simps [simp del]

fun hash_loop :: "nat \<Rightarrow> u8 list \<Rightarrow> nat" where
  "hash_loop accum [] = accum"
| "hash_loop accum (s # ss) = hash_loop (add_carry (accum + unat s)) ss"

text \<open>The \<open>key_len\<close> bytes at \<open>key\<close>; a negative length runs off the block.\<close>

definition key_bytes :: "(nat \<rightharpoonup> u8 list) \<Rightarrow> nat \<Rightarrow> i32 \<Rightarrow> u8 list option" where
  "key_bytes mem k n =
     do { bs \<leftarrow> mem k;
          if 0 \<le> sint n \<and> nat (sint n) \<le> length bs then Some (take (nat (sint n)) bs) else None }"

definition hash :: "(nat \<rightharpoonup> u8 list) \<Rightarrow> nat \<Rightarrow> i32 \<Rightarrow> i32 \<Rightarrow> u32 option" where
  "hash mem k n htbl_size =
     do { bs \<leftarrow> key_bytes mem k n;
          if htbl_size = 0 then None
          else Some (word_of_int (int (hash_loop 0 bs) smod sint htbl_size)) }"

section \<open>Creating and destroying a table\<close>

text \<open>\<open>for (p2 = 0; nel != 0; p2++) nel >>= 1\<close>.\<close>

function count_shifts :: "u64 \<Rightarrow> nat \<Rightarrow> nat" where
  "count_shifts nel p2 = (if nel \<noteq> 0 then count_shifts (nel div 2) (Suc p2) else p2)"
  by pat_completeness auto
termination
proof (relation "measure (\<lambda>(nel, p2). unat nel)")
  fix nel :: u64 and p2 :: nat
  assume "nel \<noteq> 0"
  then have "unat nel div 2 < unat nel" by (simp add: unat_gt_0)
  then show "((nel div 2, Suc p2), nel, p2) \<in> measure (\<lambda>(nel, p2). unat nel)"
    by (simp add: unat_div)
qed simp

declare count_shifts.simps [simp del]

definition table_size :: "u64 \<Rightarrow> u64 option" where
  "table_size nel =
     (let nel = (if nel < MIN_BUCKETS then MIN_BUCKETS else nel);
          nel = (if MAX_BUCKETS < nel then MAX_BUCKETS else nel)
      in if nel AND (nel - 1) \<noteq> 0
         then let p2 = count_shifts nel 0
              in if p2 < 32 then Some (scast (push_bit p2 1 :: i32)) else None
         else Some nel)"

text \<open>\<open>mem\<close> tells whether \<open>malloc\<close> finds room.  The result is the return value and the table.\<close>

definition new_hash_table :: "bool \<Rightarrow> u64 \<Rightarrow> hsearch_data \<Rightarrow> (int \<times> hsearch_data) option" where
  "new_hash_table mem nel htab =
     (if htable htab \<noteq> None then Some (0, htab)
      else do { n \<leftarrow> table_size nel;
                let htab = htab\<lparr>htablesize := n\<rparr>;
                if \<not> mem then Some (0, htab)
                else Some (1, htab\<lparr>htable := Some (replicate (unat n) None)\<rparr>) })"

definition free_hash_table :: "hsearch_data \<Rightarrow> hsearch_data" where
  "free_hash_table htab = (if htable htab = None then htab else htab\<lparr>htable := None\<rparr>)"

section \<open>Adding, deleting and looking up\<close>

text \<open>\<open>strlen(key)\<close>, converted to \<open>int\<close>, when the length is 0.\<close>

definition real_len :: "(nat \<rightharpoonup> u8 list) \<Rightarrow> nat \<Rightarrow> i32 \<Rightarrow> i32 option" where
  "real_len mem k n =
     (if n = 0
      then do { bs \<leftarrow> mem k;
                if 0 \<in> set bs then Some (of_nat (length (takeWhile (\<lambda>b. b \<noteq> 0) bs))) else None }
      else Some n)"

text \<open>The index of the bucket: \<open>hashval & (htablesize - 1)\<close>.\<close>

definition bucket :: "(nat \<rightharpoonup> u8 list) \<Rightarrow> hsearch_data \<Rightarrow> nat \<Rightarrow> i32 \<Rightarrow> nat option" where
  "bucket mem htab k n =
     do { hashval \<leftarrow> hash mem k n (ucast (htablesize htab));
          Some (unat (ucast hashval AND (htablesize htab - 1))) }"

text \<open>\<open>new\<close> is the address from \<open>malloc\<close>, \<open>None\<close> for \<open>NULL\<close>; \<open>htab\<close> is \<open>None\<close> for \<open>NULL\<close>.\<close>

definition add_hash_entry ::
  "(nat \<rightharpoonup> u8 list) \<Rightarrow> ptr \<Rightarrow> hsearch_data option \<Rightarrow> nat \<Rightarrow> i32 \<Rightarrow> u64 \<Rightarrow> (int \<times> hsearch_data option) option" where
  "add_hash_entry mem new htab k n d =
     (case htab of
        None \<Rightarrow> Some (0, None)
      | Some htab \<Rightarrow> do {
          n \<leftarrow> real_len mem k n;
          b \<leftarrow> bucket mem htab k n;
          heads \<leftarrow> htable htab;
          first \<leftarrow> rd heads b;
          case new of
            None \<Rightarrow> Some (0, Some htab)
          | Some ie \<Rightarrow> do {
              heads \<leftarrow> wr heads b (Some ie);
              Some (1, Some (htab\<lparr>htable := Some heads,
                entries := (entries htab)(ie \<mapsto>
                  \<lparr>sle_next = first, key = k, key_len = n, data = d\<rparr>)\<rparr>)) } })"

text \<open>\<open>key_len == ie->key_len && memcmp(ie->key, key, key_len) == 0\<close>.\<close>

definition matches :: "(nat \<rightharpoonup> u8 list) \<Rightarrow> internal_entry \<Rightarrow> nat \<Rightarrow> i32 \<Rightarrow> bool option" where
  "matches mem e k n =
     (if n = key_len e then do { xs \<leftarrow> key_bytes mem (key e) n; ys \<leftarrow> key_bytes mem k n; Some (xs = ys) }
      else Some False)"

text \<open>The loop of \<open>delete_hash_entry\<close> over the collision list of bucket \<open>b\<close>.\<close>

partial_function (option) delete_loop ::
  "(nat \<rightharpoonup> u8 list) \<Rightarrow> hsearch_data \<Rightarrow> nat \<Rightarrow> nat \<Rightarrow> i32 \<Rightarrow> ptr \<Rightarrow> ptr \<Rightarrow> hsearch_data option" where
  "delete_loop mem htab b k n prev_ie ie =
     (case ie of
        None \<Rightarrow> Some htab
      | Some p \<Rightarrow> do {
          e \<leftarrow> entries htab p;
          hit \<leftarrow> matches mem e k n;
          if hit then
            (case prev_ie of
               Some q \<Rightarrow> do {
                 f \<leftarrow> entries htab q;
                 Some (htab\<lparr>entries := ((entries htab)(q \<mapsto> f\<lparr>sle_next := sle_next e\<rparr>))(p := None)\<rparr>) }
             | None \<Rightarrow> do {
                 heads \<leftarrow> htable htab;
                 heads \<leftarrow> wr heads b (sle_next e);
                 Some (htab\<lparr>htable := Some heads, entries := (entries htab)(p := None)\<rparr>) })
          else delete_loop mem htab b k n ie (sle_next e) })"

definition delete_hash_entry ::
  "(nat \<rightharpoonup> u8 list) \<Rightarrow> hsearch_data option \<Rightarrow> nat \<Rightarrow> i32 \<Rightarrow> hsearch_data option option" where
  "delete_hash_entry mem htab k n =
     (case htab of
        None \<Rightarrow> Some None
      | Some htab \<Rightarrow> do {
          n \<leftarrow> real_len mem k n;
          b \<leftarrow> bucket mem htab k n;
          heads \<leftarrow> htable htab;
          first \<leftarrow> rd heads b;
          htab \<leftarrow> delete_loop mem htab b k n None first;
          Some (Some htab) })"

partial_function (option) lookup_loop ::
  "(nat \<rightharpoonup> u8 list) \<Rightarrow> hsearch_data \<Rightarrow> nat \<Rightarrow> i32 \<Rightarrow> ptr \<Rightarrow> u64 option option" where
  "lookup_loop mem htab k n ie =
     (case ie of
        None \<Rightarrow> Some None
      | Some p \<Rightarrow> do {
          e \<leftarrow> entries htab p;
          hit \<leftarrow> matches mem e k n;
          if hit then Some (Some (data e)) else lookup_loop mem htab k n (sle_next e) })"

text \<open>The data pointer, or \<open>None\<close> for the \<open>NULL\<close> of a key that is not there.\<close>

definition hash_lookup ::
  "(nat \<rightharpoonup> u8 list) \<Rightarrow> hsearch_data option \<Rightarrow> nat \<Rightarrow> i32 \<Rightarrow> u64 option option" where
  "hash_lookup mem htab k n =
     (case htab of
        None \<Rightarrow> Some None
      | Some htab \<Rightarrow> do {
          n \<leftarrow> real_len mem k n;
          b \<leftarrow> bucket mem htab k n;
          heads \<leftarrow> htable htab;
          first \<leftarrow> rd heads b;
          lookup_loop mem htab k n first })"

declare delete_loop.simps [code] lookup_loop.simps [code]

section \<open>The hash value\<close>

lemma add_carry_byte: "add_carry accum \<le> 255"
proof (induction accum rule: add_carry.induct)
  case (1 accum)
  then show ?case by (subst add_carry.simps) simp
qed

lemma hash_loop_byte: "accum \<le> 255 \<Longrightarrow> hash_loop accum bs \<le> 255"
  by (induction bs arbitrary: accum) (simp_all add: add_carry_byte)

text \<open>The size of a table that was created: a power of two, at least 16 and at most \<open>2 ^ 30\<close>.\<close>

definition good_size :: "u64 \<Rightarrow> bool" where
  "good_size n \<longleftrightarrow> (\<exists>j. 4 \<le> j \<and> j \<le> 30 \<and> unat n = 2 ^ j)"

definition index_of :: "u64 \<Rightarrow> u8 list \<Rightarrow> nat" where
  "index_of n bs = hash_loop 0 bs mod unat n"

lemma unat_ucast_small64: "unat (n :: u64) < 2147483648 \<Longrightarrow> unat (ucast n :: 32 word) = unat n"
  by (simp add: unsigned_ucast_eq take_bit_nat_eq_self)

lemma and_pow2_minus_1:
  assumes "unat (n :: u64) = 2 ^ j"
  shows "unat (x AND (n - 1)) = unat x mod 2 ^ j"
proof -
  have "of_nat (unat n) = n" by simp
  then have "n = of_nat (2 ^ j)" unfolding assms by simp
  then have "n - 1 = mask j" by (simp add: mask_eq_exp_minus_1)
  then have "x AND (n - 1) = take_bit j x" by (simp add: take_bit_eq_mask)
  then have "unat (x AND (n - 1)) = take_bit j (unat x)" by (simp only: unsigned_take_bit_eq)
  then show ?thesis by (simp only: take_bit_eq_mod)
qed

lemma bucket_index:
  assumes gs: "good_size (htablesize h)" and bs: "key_bytes mem k n = Some bs"
  shows "bucket mem h k n = Some (index_of (htablesize h) bs)"
proof -
  obtain j where j: "4 \<le> j" "j \<le> 30" "unat (htablesize h) = 2 ^ j" using gs by (auto simp: good_size_def)
  have "(2 :: nat) ^ j \<le> 2 ^ 30" using j(2) by (intro power_increasing) simp_all
  then have sz: "unat (htablesize h) \<le> 1073741824" using j(3) by simp
  let ?c = "ucast (htablesize h) :: i32"
  have c: "unat ?c = 2 ^ j" using unat_ucast_small64 [of "htablesize h"] sz j(3) by simp
  then have nz: "?c \<noteq> 0" by auto
  have s: "sint ?c = int (2 ^ j)" using sint_eq_unat32 [of ?c] c sz j(3) by simp
  let ?a = "hash_loop 0 bs"
  have a: "?a \<le> 255" by (rule hash_loop_byte) simp
  have "int ?a smod sint ?c = int (?a mod 2 ^ j)"
    unfolding s by (cases "?a = 0") (simp_all add: smod_int_alt_def zmod_int)
  then have "hash mem k n ?c = Some (of_nat (?a mod 2 ^ j))"
    using bs nz by (simp add: hash_def)
  moreover have "?a mod 2 ^ j \<le> 255" using a by (meson le_trans mod_less_eq_dividend)
  then have "unat (ucast (of_nat (?a mod 2 ^ j) :: u32) :: u64) = ?a mod 2 ^ j"
    by (simp add: unsigned_ucast_eq unat_of_nat take_bit_nat_eq_self)
  ultimately show ?thesis
    by (simp add: bucket_def and_pow2_minus_1 [OF j(3)] index_of_def j(3))
qed

lemma index_of_less: "good_size n \<Longrightarrow> index_of n bs < unat n"
  by (auto simp: good_size_def index_of_def)

section \<open>Chains\<close>

fun chain :: "(nat \<rightharpoonup> internal_entry) \<Rightarrow> ptr \<Rightarrow> nat list \<Rightarrow> bool" where
  "chain es p [] \<longleftrightarrow> p = None"
| "chain es p (a # as) \<longleftrightarrow> p = Some a \<and> (\<exists>e. es a = Some e \<and> chain es (sle_next e) as)"

definition path :: "(nat \<rightharpoonup> internal_entry) \<Rightarrow> ptr \<Rightarrow> nat list" where
  "path es p = (THE as. chain es p as)"

lemma chain_unique: "chain es p as \<Longrightarrow> chain es p bs \<Longrightarrow> as = bs"
proof (induction as arbitrary: p bs)
  case Nil
  then show ?case by (cases bs) auto
next
  case (Cons a as)
  then show ?case by (cases bs) auto
qed

lemma path_chain: "chain es p as \<Longrightarrow> path es p = as"
  unfolding path_def using chain_unique by blast

lemma chain_frame: "chain es p as \<Longrightarrow> \<forall>a \<in> set as. es' a = es a \<Longrightarrow> chain es' p as"
  by (induction as arbitrary: p) auto

lemma chain_unlink:
  "chain es h (xs @ q # p # ws) \<Longrightarrow> distinct (xs @ q # p # ws) \<Longrightarrow> es p = Some e \<Longrightarrow> es q = Some f \<Longrightarrow>
   chain ((es(q \<mapsto> f\<lparr>sle_next := sle_next e\<rparr>))(p := None)) h (xs @ q # ws)"
proof (induction xs arbitrary: h)
  case Nil
  let ?es = "(es(q \<mapsto> f\<lparr>sle_next := sle_next e\<rparr>))(p := None)"
  have h: "h = Some q" "chain es (sle_next f) (p # ws)" using Nil.prems(1,4) by simp_all
  from h(2) have "chain es (sle_next e) ws" using Nil.prems(3) by simp
  moreover have "\<forall>a \<in> set ws. ?es a = es a" using Nil.prems(2) by auto
  ultimately have "chain ?es (sle_next e) ws" by (rule chain_frame)
  moreover have "?es q = Some (f\<lparr>sle_next := sle_next e\<rparr>)" using Nil.prems(2) by simp
  ultimately show ?case using h(1) by (simp del: fun_upd_apply)
next
  case (Cons x xs)
  let ?es = "(es(q \<mapsto> f\<lparr>sle_next := sle_next e\<rparr>))(p := None)"
  obtain g where g: "h = Some x" "es x = Some g" "chain es (sle_next g) (xs @ q # p # ws)"
    using Cons.prems(1) by auto
  have "distinct (xs @ q # p # ws)" using Cons.prems(2) by simp
  from Cons.IH [OF g(3) this Cons.prems(3,4)] have "chain ?es (sle_next g) (xs @ q # ws)" .
  moreover have "?es x = Some g" using g(2) Cons.prems(2) by simp
  ultimately show ?case using g(1) by (simp del: fun_upd_apply)
qed

section \<open>What an entry holds\<close>

definition payload :: "(nat \<rightharpoonup> internal_entry) \<Rightarrow> nat \<Rightarrow> (nat \<times> i32 \<times> u64) option" where
  "payload es a = map_option (\<lambda>e. (key e, key_len e, data e)) (es a)"

definition entry_key :: "(nat \<rightharpoonup> u8 list) \<Rightarrow> (nat \<rightharpoonup> internal_entry) \<Rightarrow> nat \<Rightarrow> u8 list option" where
  "entry_key mem es a = Option.bind (payload es a) (\<lambda>(k, n, d). key_bytes mem k n)"

definition entry_data :: "(nat \<rightharpoonup> internal_entry) \<Rightarrow> nat \<Rightarrow> u64" where
  "entry_data es a = (case payload es a of Some (k, n, d) \<Rightarrow> d | None \<Rightarrow> 0)"

lemma entry_cong:
  "payload es' a = payload es a \<Longrightarrow> entry_key mem es' a = entry_key mem es a \<and> entry_data es' a = entry_data es a"
  by (simp add: entry_key_def entry_data_def)

lemma length_key_bytes: "key_bytes mem k n = Some bs \<Longrightarrow> sint n = int (length bs)"
  by (auto simp: key_bytes_def bind_Some_iff split: if_splits)

lemma matches_iff:
  assumes "es a = Some e" "entry_key mem es a = Some w" "key_bytes mem k n = Some v"
  shows "matches mem e k n = Some (w = v)"
proof -
  have w: "key_bytes mem (key e) (key_len e) = Some w"
    using assms(1,2) by (simp add: entry_key_def payload_def)
  have "w = v \<Longrightarrow> n = key_len e"
    using length_key_bytes [OF w] length_key_bytes [OF assms(3)] by (simp add: word_eq_iff_signed [where ?'a = int])
  then show ?thesis using w assms(3) by (auto simp: matches_def)
qed

text \<open>All entries of the list have readable keys.\<close>

definition keyed :: "(nat \<rightharpoonup> u8 list) \<Rightarrow> (nat \<rightharpoonup> internal_entry) \<Rightarrow> nat list \<Rightarrow> bool" where
  "keyed mem es as \<longleftrightarrow> (\<forall>a \<in> set as. entry_key mem es a \<noteq> None)"

definition with_key :: "(nat \<rightharpoonup> u8 list) \<Rightarrow> (nat \<rightharpoonup> internal_entry) \<Rightarrow> u8 list \<Rightarrow> nat \<Rightarrow> bool" where
  "with_key mem es v a \<longleftrightarrow> entry_key mem es a = Some v"

lemma chain_lookup_loop:
  assumes v: "key_bytes mem k n = Some v"
  shows "chain (entries h) ie as \<Longrightarrow> keyed mem (entries h) as \<Longrightarrow>
    lookup_loop mem h k n ie =
      Some (case filter (with_key mem (entries h) v) as of [] \<Rightarrow> None | a # _ \<Rightarrow> Some (entry_data (entries h) a))"
proof (induction as arbitrary: ie)
  case Nil
  then show ?case by (subst lookup_loop.simps) simp
next
  case (Cons a as)
  obtain e where e: "ie = Some a" "entries h a = Some e" "chain (entries h) (sle_next e) as"
    using Cons.prems(1) by auto
  obtain w where w: "entry_key mem (entries h) a = Some w" using Cons.prems(2) by (auto simp: keyed_def)
  have d: "entry_data (entries h) a = data e" using e(2) by (simp add: entry_data_def payload_def)
  have "keyed mem (entries h) as" using Cons.prems(2) by (simp add: keyed_def)
  from Cons.IH [OF e(3) this] show ?case
    using e matches_iff [OF e(2) w v] d w
    by (subst lookup_loop.simps) (simp add: with_key_def [abs_def])
qed

text \<open>The list without its first entry that satisfies \<open>P\<close>.\<close>

fun without_first :: "('a \<Rightarrow> bool) \<Rightarrow> 'a list \<Rightarrow> 'a list" where
  "without_first P [] = []"
| "without_first P (x # xs) = (if P x then xs else x # without_first P xs)"

lemma filter_without_first: "filter P (without_first P xs) = tl (filter P xs)"
  by (induction xs) auto

lemma filter_without_other: "(\<And>x. P x \<Longrightarrow> \<not> Q x) \<Longrightarrow> filter Q (without_first P xs) = filter Q xs"
  by (induction xs) auto

lemma set_without_first: "set (without_first P xs) \<subseteq> set xs"
  by (induction xs) auto

lemma distinct_without_first: "distinct xs \<Longrightarrow> distinct (without_first P xs)"
  using set_without_first by (induction xs) fastforce+


section \<open>The deletion loop\<close>

text \<open>\<open>h'\<close> is \<open>h\<close> with the list of bucket \<open>b\<close> shortened from \<open>as\<close> to \<open>bs\<close>.\<close>

definition shortened :: "hsearch_data \<Rightarrow> nat \<Rightarrow> nat list \<Rightarrow> nat list \<Rightarrow> hsearch_data \<Rightarrow> bool" where
  "shortened h b as bs h' \<longleftrightarrow>
     htablesize h' = htablesize h \<and>
     (\<exists>heads p. htable h = Some heads \<and> b < length heads \<and> htable h' = Some (heads[b := p]) \<and>
        chain (entries h') p bs) \<and>
     (\<forall>a. a \<notin> set as \<longrightarrow> entries h' a = entries h a) \<and>
     (\<forall>a \<in> set bs. payload (entries h') a = payload (entries h) a)"

lemma shortened_first:
  assumes "htable h = Some heads" "b < length heads" "entries h a = Some e"
    "chain (entries h) (sle_next e) as" "distinct (a # as)"
  shows "shortened h b (a # as) as (h\<lparr>htable := Some (heads[b := sle_next e]), entries := (entries h)(a := None)\<rparr>)"
proof -
  have "chain ((entries h)(a := None)) (sle_next e) as"
    using assms(4) by (rule chain_frame) (use assms(5) in simp)
  then show ?thesis using assms by (auto simp: shortened_def payload_def)
qed

lemma chain_mid:
  "chain es p (xs @ q # ws) \<Longrightarrow> \<exists>f. es q = Some f \<and> chain es (sle_next f) ws"
  by (induction xs arbitrary: p) auto

lemma shortened_later:
  assumes hs: "htable h = Some heads" "b < length heads"
    and c: "chain (entries h) (heads ! b) (xs @ q # a # ws)" "distinct (xs @ q # a # ws)"
    and e: "entries h a = Some e" and f: "entries h q = Some f"
  shows "shortened h b (xs @ q # a # ws) (xs @ q # ws)
    (h\<lparr>entries := ((entries h)(q \<mapsto> f\<lparr>sle_next := sle_next e\<rparr>))(a := None)\<rparr>)"
proof -
  let ?es = "((entries h)(q \<mapsto> f\<lparr>sle_next := sle_next e\<rparr>))(a := None)"
  have "chain ?es (heads ! b) (xs @ q # ws)" by (rule chain_unlink [OF c e f])
  moreover have "\<forall>x \<in> set (xs @ q # ws). payload ?es x = payload (entries h) x"
    using c(2) f by (auto simp: payload_def)
  moreover have "\<forall>x. x \<notin> set (xs @ q # a # ws) \<longrightarrow> ?es x = entries h x" by simp
  ultimately show ?thesis unfolding shortened_def using hs
    by (simp del: fun_upd_apply) (intro exI [of _ "heads ! b"], simp del: fun_upd_apply)
qed

lemma delete_loop_spec:
  assumes v: "key_bytes mem k n = Some v" and hs: "htable h = Some heads" "b < length heads"
  shows "chain (entries h) (heads ! b) (xs @ as) \<Longrightarrow> distinct (xs @ as) \<Longrightarrow> keyed mem (entries h) as \<Longrightarrow>
    chain (entries h) ie as \<Longrightarrow> prev_ie = (if xs = [] then None else Some (last xs)) \<Longrightarrow>
    \<exists>h'. delete_loop mem h b k n prev_ie ie = Some h' \<and>
      shortened h b (xs @ as) (xs @ without_first (with_key mem (entries h) v) as) h'"
proof (induction as arbitrary: xs ie prev_ie)
  case Nil
  have "shortened h b xs xs h" unfolding shortened_def using Nil.prems(1) hs
    by simp (intro exI [of _ "heads ! b"], simp)
  moreover have "delete_loop mem h b k n prev_ie ie = Some h"
    using Nil.prems(4) by (subst delete_loop.simps) simp
  ultimately show ?case by simp
next
  case (Cons a as)
  obtain e where e: "ie = Some a" "entries h a = Some e" "chain (entries h) (sle_next e) as"
    using Cons.prems(4) by auto
  obtain w where w: "entry_key mem (entries h) a = Some w" using Cons.prems(3) by (auto simp: keyed_def)
  note mt = matches_iff [OF e(2) w v]
  show ?case
  proof (cases "w = v")
    case False
    then have step: "delete_loop mem h b k n prev_ie ie = delete_loop mem h b k n (Some a) (sle_next e)"
      using e mt by (subst delete_loop.simps) simp
    have "keyed mem (entries h) as" using Cons.prems(3) by (simp add: keyed_def)
    with Cons.IH [of "xs @ [a]", OF _ _ this e(3)] Cons.prems(1,2) step False w show ?thesis
      by (simp add: with_key_def)
  next
    case True
    then have wf: "without_first (with_key mem (entries h) v) (a # as) = as" using w by (simp add: with_key_def)
    show ?thesis
    proof (cases xs rule: rev_cases)
      case Nil
      have "distinct (a # as)" using Cons.prems(2) by simp
      from shortened_first [OF hs e(2,3) this] wf Nil show ?thesis
        using e mt True hs Cons.prems(5) by (subst delete_loop.simps) (simp add: wr_in)
    next
      case (snoc ys q)
      have c: "chain (entries h) (heads ! b) (ys @ q # a # as)" "distinct (ys @ q # a # as)"
        using Cons.prems(1,2) snoc by simp_all
      obtain f where f: "entries h q = Some f" using chain_mid [OF c(1)] by blast
      from shortened_later [OF hs c e(2) f] wf snoc show ?thesis
        using e mt True f Cons.prems(5) by (subst delete_loop.simps) simp
    qed
  qed
qed


section \<open>Well-formed tables and the values of a key\<close>

definition bucket_ok :: "(nat \<rightharpoonup> u8 list) \<Rightarrow> u64 \<Rightarrow> (nat \<rightharpoonup> internal_entry) \<Rightarrow> nat \<Rightarrow> ptr \<Rightarrow> nat list \<Rightarrow> bool" where
  "bucket_ok mem n es i p as \<longleftrightarrow> chain es p as \<and> distinct as \<and>
     (\<forall>a \<in> set as. \<exists>w. entry_key mem es a = Some w \<and> index_of n w = i)"

definition ht_wf :: "(nat \<rightharpoonup> u8 list) \<Rightarrow> hsearch_data \<Rightarrow> bool" where
  "ht_wf mem h \<longleftrightarrow> good_size (htablesize h) \<and>
     (\<exists>heads. htable h = Some heads \<and> length heads = unat (htablesize h) \<and>
        (\<forall>i < length heads. \<exists>as. bucket_ok mem (htablesize h) (entries h) i (heads ! i) as))"

text \<open>The values stored under the key \<open>v\<close>, the latest first.\<close>

definition values_of :: "(nat \<rightharpoonup> u8 list) \<Rightarrow> hsearch_data \<Rightarrow> u8 list \<Rightarrow> u64 list" where
  "values_of mem h v =
     (case htable h of
        None \<Rightarrow> []
      | Some heads \<Rightarrow> map (entry_data (entries h))
          (filter (with_key mem (entries h) v)
             (path (entries h) (heads ! index_of (htablesize h) v))))"

lemma values_of_chain:
  "htable h = Some heads \<Longrightarrow> chain (entries h) (heads ! index_of (htablesize h) v) as \<Longrightarrow>
   values_of mem h v = map (entry_data (entries h)) (filter (with_key mem (entries h) v) as)"
  by (simp add: values_of_def path_chain)

lemma bucket_frame:
  assumes "bucket_ok mem n es i p as" "\<forall>a \<in> set as. es' a = es a"
  shows "bucket_ok mem n es' i p as"
    and "map (entry_data es') (filter (with_key mem es' v) as) = map (entry_data es) (filter (with_key mem es v) as)"
proof -
  have c: "chain es' p as" using assms chain_frame by (auto simp: bucket_ok_def)
  have pl: "payload es' a = payload es a" if "a \<in> set as" for a using that assms(2) by (simp add: payload_def)
  note ec = entry_cong [OF pl]
  show "bucket_ok mem n es' i p as" using assms(1) c ec by (auto simp: bucket_ok_def)
  have "filter (with_key mem es' v) as = filter (with_key mem es v) as"
    using ec by (intro filter_cong) (auto simp: with_key_def)
  then show "map (entry_data es') (filter (with_key mem es' v) as) = map (entry_data es) (filter (with_key mem es v) as)"
    using ec by simp
qed

text \<open>
  Replacing the list \<open>as\<close> of one bucket, where the entries of the other buckets stay: the table
  stays well-formed, and only the values of keys of that bucket change.
\<close>

lemma replace_bucket:
  assumes wf: "ht_wf mem h" and hs: "htable h = Some heads" "b < length heads"
    and ab: "bucket_ok mem (htablesize h) (entries h) b (heads ! b) as"
    and h': "htablesize h' = htablesize h" "htable h' = Some (heads[b := p])"
    and new: "bucket_ok mem (htablesize h) (entries h') b p bs"
    and fr: "\<And>a. a \<notin> set as \<Longrightarrow> entry_key mem (entries h) a \<noteq> None \<Longrightarrow> entries h' a = entries h a"
  shows "ht_wf mem h'"
    and "values_of mem h' v = (if index_of (htablesize h) v = b
      then map (entry_data (entries h')) (filter (with_key mem (entries h') v) bs) else values_of mem h v)"
proof -
  have gs: "good_size (htablesize h)" and len: "length heads = unat (htablesize h)"
    and bk: "\<And>i. i < length heads \<Longrightarrow> \<exists>as. bucket_ok mem (htablesize h) (entries h) i (heads ! i) as"
    using wf hs(1) by (auto simp: ht_wf_def)
  have other: "\<forall>a \<in> set cs. entries h' a = entries h a"
    if "i \<noteq> b" "bucket_ok mem (htablesize h) (entries h) i q cs" for i q cs
  proof
    fix a assume "a \<in> set cs"
    with that obtain w where w: "entry_key mem (entries h) a = Some w" "index_of (htablesize h) w = i"
      by (auto simp: bucket_ok_def)
    with that(1) ab have "a \<notin> set as" by (auto simp: bucket_ok_def)
    with w show "entries h' a = entries h a" by (intro fr) simp_all
  qed
  have bk': "\<exists>as. bucket_ok mem (htablesize h) (entries h') i (heads[b := p] ! i) as" if i: "i < length heads" for i
  proof (cases "i = b")
    case True
    then show ?thesis using new hs(2) by auto
  next
    case False
    obtain cs where "bucket_ok mem (htablesize h) (entries h) i (heads ! i) cs" using bk [OF i] by blast
    with bucket_frame(1) other [OF False] False show ?thesis by (metis nth_list_update_neq)
  qed
  then show "ht_wf mem h'" using gs len h' by (simp add: ht_wf_def)
  let ?i = "index_of (htablesize h) v"
  have il: "?i < length heads" using index_of_less [OF gs] len by simp
  show "values_of mem h' v = (if ?i = b
      then map (entry_data (entries h')) (filter (with_key mem (entries h') v) bs) else values_of mem h v)"
  proof (cases "?i = b")
    case True
    have "heads[b := p] ! b = p" using hs(2) by simp
    moreover have "chain (entries h') p bs" using new by (simp add: bucket_ok_def)
    ultimately have "chain (entries h') (heads[b := p] ! index_of (htablesize h') v) bs"
      unfolding h'(1) True by simp
    from values_of_chain [OF h'(2) this] True show ?thesis by simp
  next
    case False
    obtain cs where cs: "bucket_ok mem (htablesize h) (entries h) ?i (heads ! ?i) cs" using bk [OF il] by blast
    note fr2 = bucket_frame [OF cs other [OF False cs]]
    have "chain (entries h) (heads ! ?i) cs" "chain (entries h') (heads ! ?i) cs"
      using cs fr2(1) by (simp_all add: bucket_ok_def)
    then have "values_of mem h v = map (entry_data (entries h)) (filter (with_key mem (entries h) v) cs)"
      "values_of mem h' v = map (entry_data (entries h')) (filter (with_key mem (entries h') v) cs)"
      using values_of_chain [OF hs(1)] values_of_chain [OF h'(2)] h'(1) False by simp_all
    with fr2(2) False show ?thesis by simp
  qed
qed


section \<open>The operations\<close>

text \<open>
  The bytes that the arguments \<open>(k, n)\<close> name: the string at \<open>k\<close> when \<open>n\<close> is 0, which must be shorter than
  \<open>2 ^ 31\<close> for its length to be an \<open>int\<close>, and \<open>n\<close> bytes otherwise.
\<close>

definition arg_bytes :: "(nat \<rightharpoonup> u8 list) \<Rightarrow> nat \<times> i32 \<Rightarrow> u8 list option" where
  "arg_bytes mem a =
     (if snd a = 0
      then do { bs \<leftarrow> mem (fst a);
                let v = takeWhile (\<lambda>b. b \<noteq> 0) bs;
                if 0 \<in> set bs \<and> length v < 2147483648 then Some v else None }
      else key_bytes mem (fst a) (snd a))"

lemma arg_bytes_read:
  assumes "arg_bytes mem (k, n) = Some v"
  obtains m where "real_len mem k n = Some m" "key_bytes mem k m = Some v"
proof (cases "n = 0")
  case True
  with assms obtain bs where bs: "mem k = Some bs" "0 \<in> set bs" "v = takeWhile (\<lambda>b. b \<noteq> 0) bs" "length v < 2147483648"
    by (auto simp: arg_bytes_def bind_Some_iff Let_def split: if_splits)
  have "unat (of_nat (length v) :: i32) = length v" using bs(4) by (intro unat_of_nat32) simp
  then have s: "sint (of_nat (length v) :: i32) = int (length v)" using bs(4) by (subst sint_eq_unat32) simp_all
  have p: "take (length v) bs = v" unfolding bs(3) by (metis append_eq_conv_conj takeWhile_dropWhile_id)
  have l: "length v \<le> length bs" unfolding bs(3) by (rule length_takeWhile_le)
  show ?thesis
  proof (rule that)
    show "real_len mem k n = Some (of_nat (length v))" using True bs by (simp add: real_len_def)
    show "key_bytes mem k (of_nat (length v)) = Some v" using bs(1) s p l by (simp add: key_bytes_def)
  qed
next
  case False
  with assms show ?thesis by (intro that [of n]) (simp_all add: arg_bytes_def real_len_def)
qed

lemma wf_bucket:
  assumes wf: "ht_wf mem h" and v: "key_bytes mem k n = Some v"
  obtains heads as where "htable h = Some heads" "index_of (htablesize h) v < length heads"
    "bucket_ok mem (htablesize h) (entries h) (index_of (htablesize h) v) (heads ! index_of (htablesize h) v) as"
    "bucket mem h k n = Some (index_of (htablesize h) v)"
    "values_of mem h v = map (entry_data (entries h)) (filter (with_key mem (entries h) v) as)"
proof -
  have gs: "good_size (htablesize h)" using wf by (simp add: ht_wf_def)
  obtain heads where hs: "htable h = Some heads" "length heads = unat (htablesize h)"
    and bk: "\<And>i. i < length heads \<Longrightarrow> \<exists>as. bucket_ok mem (htablesize h) (entries h) i (heads ! i) as"
    using wf by (auto simp: ht_wf_def)
  have il: "index_of (htablesize h) v < length heads" using index_of_less [OF gs] hs(2) by simp
  obtain as where as: "bucket_ok mem (htablesize h) (entries h) (index_of (htablesize h) v) (heads ! index_of (htablesize h) v) as"
    using bk [OF il] by blast
  then have "chain (entries h) (heads ! index_of (htablesize h) v) as" by (simp add: bucket_ok_def)
  from that [OF hs(1) il as bucket_index [OF gs v] values_of_chain [OF hs(1) this]] show thesis .
qed

lemma hash_lookup_values:
  assumes wf: "ht_wf mem h" and v: "arg_bytes mem (k, n) = Some v"
  shows "hash_lookup mem (Some h) k n = Some (case values_of mem h v of [] \<Rightarrow> None | d # _ \<Rightarrow> Some d)"
proof -
  obtain m where m: "real_len mem k n = Some m" "key_bytes mem k m = Some v"
    using arg_bytes_read [OF v] by blast
  obtain heads as where b: "htable h = Some heads" "index_of (htablesize h) v < length heads"
    "bucket_ok mem (htablesize h) (entries h) (index_of (htablesize h) v) (heads ! index_of (htablesize h) v) as"
    "bucket mem h k m = Some (index_of (htablesize h) v)"
    "values_of mem h v = map (entry_data (entries h)) (filter (with_key mem (entries h) v) as)"
    using wf_bucket [OF wf m(2)] by blast
  have "chain (entries h) (heads ! index_of (htablesize h) v) as" "keyed mem (entries h) as"
    using b(3) by (auto simp: bucket_ok_def keyed_def)
  from chain_lookup_loop [OF m(2) this] show ?thesis
    unfolding hash_lookup_def using m(1) b(1,2,4,5) by (simp add: rd_in split: list.split)
qed

lemma add_hash_entry_values:
  assumes wf: "ht_wf mem h" and v: "arg_bytes mem (k, n) = Some v" and fresh: "entries h ie = None"
  shows "\<exists>h'. add_hash_entry mem (Some ie) (Some h) k n d = Some (1, Some h') \<and> ht_wf mem h' \<and>
    values_of mem h' = (values_of mem h)(v := d # values_of mem h v)"
proof -
  obtain m where m: "real_len mem k n = Some m" "key_bytes mem k m = Some v"
    using arg_bytes_read [OF v] by blast
  let ?i = "index_of (htablesize h) v"
  obtain heads as where b: "htable h = Some heads" "?i < length heads"
    "bucket_ok mem (htablesize h) (entries h) ?i (heads ! ?i) as"
    "bucket mem h k m = Some ?i"
    "values_of mem h v = map (entry_data (entries h)) (filter (with_key mem (entries h) v) as)"
    using wf_bucket [OF wf m(2)] by blast
  let ?e = "\<lparr>sle_next = heads ! ?i, key = k, key_len = m, data = d\<rparr>"
  let ?es = "(entries h)(ie \<mapsto> ?e)"
  let ?h = "h\<lparr>htable := Some (heads[?i := Some ie]), entries := ?es\<rparr>"
  have run: "add_hash_entry mem (Some ie) (Some h) k n d = Some (1, Some ?h)"
    using m(1) b(1,2,4) by (simp add: add_hash_entry_def rd_in wr_in)
  have ie: "ie \<notin> set as" using b(3) fresh by (auto simp: bucket_ok_def entry_key_def payload_def)
  then have "\<forall>a \<in> set as. ?es a = entries h a" by auto
  note fr = bucket_frame [where es' = "?es", OF b(3) this]
  have ek: "entry_key mem ?es ie = Some v" "entry_data ?es ie = d"
    using m(2) by (simp_all add: entry_key_def entry_data_def payload_def)
  have new: "bucket_ok mem (htablesize h) (entries ?h) ?i (Some ie) (ie # as)"
    using fr(1) ie ek(1) by (simp add: bucket_ok_def)
  have keep: "entries ?h a = entries h a" if "entry_key mem (entries h) a \<noteq> None" for a
    using that fresh by (auto simp: entry_key_def payload_def)
  note rep = replace_bucket [OF wf b(1,2,3) _ _ new keep]
  have "values_of mem ?h w = ((values_of mem h)(v := d # values_of mem h v)) w" for w
  proof (cases "index_of (htablesize h) w = ?i")
    case True
    have "chain (entries h) (heads ! index_of (htablesize h) w) as"
      unfolding True using b(3) by (auto simp: bucket_ok_def)
    note values_of_chain [OF b(1) this]
    with True fr(2) [of w] ek show ?thesis by (subst rep(2)) (auto simp: with_key_def)
  next
    case False
    then have "w \<noteq> v" by auto
    with False show ?thesis by (subst rep(2)) simp_all
  qed
  then have "values_of mem ?h = (values_of mem h)(v := d # values_of mem h v)" by blast
  moreover have "ht_wf mem ?h" by (rule rep(1)) simp_all
  ultimately show ?thesis using run by blast
qed


lemma delete_hash_entry_values:
  assumes wf: "ht_wf mem h" and v: "arg_bytes mem (k, n) = Some v"
  shows "\<exists>h'. delete_hash_entry mem (Some h) k n = Some (Some h') \<and> ht_wf mem h' \<and>
    values_of mem h' = (values_of mem h)(v := tl (values_of mem h v))"
proof -
  obtain m where m: "real_len mem k n = Some m" "key_bytes mem k m = Some v"
    using arg_bytes_read [OF v] by blast
  let ?i = "index_of (htablesize h) v" and ?P = "with_key mem (entries h) v"
  obtain heads as where b: "htable h = Some heads" "?i < length heads"
    "bucket_ok mem (htablesize h) (entries h) ?i (heads ! ?i) as"
    "bucket mem h k m = Some ?i"
    "values_of mem h v = map (entry_data (entries h)) (filter ?P as)"
    using wf_bucket [OF wf m(2)] by blast
  have c: "chain (entries h) (heads ! ?i) as" "distinct as" "keyed mem (entries h) as"
    using b(3) by (auto simp: bucket_ok_def keyed_def)
  let ?bs = "without_first ?P as"
  obtain h' where h': "delete_loop mem h ?i k m None (heads ! ?i) = Some h'" "shortened h ?i as ?bs h'"
    using delete_loop_spec [OF m(2) b(1,2), of "[]" as "heads ! ?i" None] c by auto
  have run: "delete_hash_entry mem (Some h) k n = Some (Some h')"
    using m(1) b(1,2,4) h'(1) by (simp add: delete_hash_entry_def rd_in)
  obtain p where p: "htablesize h' = htablesize h" "htable h' = Some (heads[?i := p])"
    "chain (entries h') p ?bs" using h'(2) b(1) by (auto simp: shortened_def)
  have pl: "payload (entries h') a = payload (entries h) a" if "a \<in> set ?bs" for a
    using h'(2) that by (simp add: shortened_def)
  note ec = entry_cong [OF pl]
  have new: "bucket_ok mem (htablesize h) (entries h') ?i p ?bs"
    using p(3) distinct_without_first [OF c(2)] b(3) set_without_first [of ?P as] ec
    by (auto simp: bucket_ok_def subset_iff)
  have keep: "entries h' a = entries h a" if "a \<notin> set as" for a
    using h'(2) that by (simp add: shortened_def)
  note rep = replace_bucket [OF wf b(1,2,3) p(1,2) new keep]
  have "values_of mem h' w = ((values_of mem h)(v := tl (values_of mem h v))) w" for w
  proof (cases "index_of (htablesize h) w = ?i")
    case True
    have "chain (entries h) (heads ! index_of (htablesize h) w) as" unfolding True by (rule c(1))
    note old = values_of_chain [OF b(1) this]
    have "map (entry_data (entries h')) (filter (with_key mem (entries h') w) ?bs)
      = map (entry_data (entries h)) (filter (with_key mem (entries h) w) ?bs)"
      using ec by (auto simp: with_key_def intro!: map_cong filter_cong)
    also have "filter (with_key mem (entries h) w) ?bs
      = (if w = v then tl (filter ?P as) else filter (with_key mem (entries h) w) as)"
      using filter_without_other [of ?P "with_key mem (entries h) w" as]
      by (auto simp: filter_without_first with_key_def)
    finally show ?thesis using True old b(5) by (subst rep(2)) (auto simp: map_tl)
  next
    case False
    then have "w \<noteq> v" by auto
    with False show ?thesis by (subst rep(2)) simp_all
  qed
  then have "values_of mem h' = (values_of mem h)(v := tl (values_of mem h v))" by blast
  moreover have "ht_wf mem h'" by (rule rep(1)) simp_all
  ultimately show ?thesis using run by blast
qed

text \<open>The operations on a table that is there, as the contract of a shadowing map.\<close>

definition ht_add :: "(nat \<rightharpoonup> u8 list) \<Rightarrow> hsearch_data \<Rightarrow> nat \<Rightarrow> nat \<times> i32 \<Rightarrow> u64 \<Rightarrow> hsearch_data option" where
  "ht_add mem h ie a d = Option.bind (add_hash_entry mem (Some ie) (Some h) (fst a) (snd a) d) snd"

definition ht_del :: "(nat \<rightharpoonup> u8 list) \<Rightarrow> hsearch_data \<Rightarrow> nat \<times> i32 \<Rightarrow> hsearch_data option" where
  "ht_del mem h a = Option.bind (delete_hash_entry mem (Some h) (fst a) (snd a)) id"

interpretation ht: stack_map "ht_wf mem" "\<lambda>a. arg_bytes mem a \<noteq> None" "\<lambda>a. the (arg_bytes mem a)"
  "\<lambda>h ie. entries h ie = None" "values_of mem" "ht_add mem" "ht_del mem"
  "\<lambda>h a. hash_lookup mem (Some h) (fst a) (snd a)" for mem
proof
  fix s :: hsearch_data and a m d
  assume wf: "ht_wf mem s" and "arg_bytes mem a \<noteq> None"
  then obtain v where v: "arg_bytes mem (fst a, snd a) = Some v" "arg_bytes mem a = Some v" by auto
  show "hash_lookup mem (Some s) (fst a) (snd a) = Some (case values_of mem s (the (arg_bytes mem a)) of [] \<Rightarrow> None | d # _ \<Rightarrow> Some d)"
    using hash_lookup_values [OF wf v(1)] v(2) by simp
  show "\<exists>s'. ht_del mem s a = Some s' \<and> ht_wf mem s' \<and>
      values_of mem s' = (values_of mem s)(the (arg_bytes mem a) := tl (values_of mem s (the (arg_bytes mem a))))"
    using delete_hash_entry_values [OF wf v(1)] v(2) by (auto simp: ht_del_def)
  assume "entries s m = None"
  from add_hash_entry_values [OF wf v(1) this, of d] v(2)
  show "\<exists>s'. ht_add mem s m a d = Some s' \<and> ht_wf mem s' \<and>
      values_of mem s' = (values_of mem s)(the (arg_bytes mem a) := d # values_of mem s (the (arg_bytes mem a)))"
    by (auto simp: ht_add_def)
qed


section \<open>The size of a new table\<close>

lemma pow2_test:
  fixes n :: nat
  shows "0 < n \<Longrightarrow> n AND (n - 1) = 0 \<Longrightarrow> \<exists>j. n = 2 ^ j"
proof (induction n rule: less_induct)
  case (less n)
  show ?case
  proof (cases "even n")
    case True
    then obtain m where m: "n = 2 * m" by (elim evenE)
    with less.prems(1) have "0 < m" by simp
    then have h: "(n - 1) div 2 = m - 1" "n div 2 = m" using m by auto
    have "n AND (n - 1) = of_bool (odd n \<and> odd (n - 1)) + 2 * ((n div 2) AND ((n - 1) div 2))" by (rule and_rec)
    then have "m AND (m - 1) = 0" using less.prems(2) h by simp
    with less.IH [of m] m \<open>0 < m\<close> obtain j where "m = 2 ^ j" by auto
    then have "n = 2 ^ Suc j" using m by simp
    then show ?thesis by blast
  next
    case False
    then obtain m where m: "n = 2 * m + 1" by (elim oddE)
    then have h: "(n - 1) div 2 = m" "n div 2 = m" by auto
    have "n AND (n - 1) = of_bool (odd n \<and> odd (n - 1)) + 2 * ((n div 2) AND ((n - 1) div 2))" by (rule and_rec)
    then have "m AND m = 0" using less.prems(2) h by simp
    then have "m = 0" by simp
    with m have "n = 2 ^ 0" by simp
    then show ?thesis by blast
  qed
qed

lemma pow2_and: "(2 :: nat) ^ j AND (2 ^ j - 1) = 0"
proof -
  have "(2 :: nat) ^ j AND (2 ^ j - 1) = take_bit j (2 ^ j)" by (simp only: take_bit_eq_mask mask_eq_exp_minus_1)
  then show ?thesis by (simp add: take_bit_eq_mod)
qed

lemma unat_shift_one:
  assumes "p < 31"
  shows "unat (scast (push_bit p 1 :: i32) :: u64) = 2 ^ p"
proof -
  have "(2 :: nat) ^ p < 2 ^ 31" using assms by (intro power_strict_increasing) simp_all
  then have b: "(2 :: nat) ^ p < 2147483648" by simp
  let ?w = "push_bit p 1 :: i32"
  have "?w = of_nat (2 ^ p)" by simp
  then have u: "unat ?w = 2 ^ p" using b by (simp only: unat_of_nat32)
  then have "sint ?w = int (2 ^ p)" using sint_eq_unat32 [of ?w] b by simp
  then have "(scast ?w :: u64) = of_nat (2 ^ p)" by (metis of_int_of_nat_eq of_int_sint)
  moreover have "(2 :: nat) ^ p < 2 ^ 64" using b by simp
  ultimately show ?thesis by (simp only: unat_of_nat) simp
qed

lemma count_shifts_bounds:
  "p2 \<le> count_shifts nel p2 \<and> unat nel < 2 ^ (count_shifts nel p2 - p2) \<and>
   (nel \<noteq> 0 \<longrightarrow> 2 ^ (count_shifts nel p2 - p2) \<le> 2 * unat nel)"
proof (induction nel p2 rule: count_shifts.induct)
  case (1 nel p2)
  show ?case
  proof (cases "nel = 0")
    case True
    then show ?thesis by (subst (1 2 3) count_shifts.simps) simp
  next
    case False
    let ?c = "count_shifts (nel div 2) (Suc p2)"
    have s: "count_shifts nel p2 = ?c" using False by (subst count_shifts.simps) simp
    have d: "unat (nel div 2) = unat nel div 2" by (simp add: unat_div)
    have ih: "Suc p2 \<le> ?c" "unat nel div 2 < 2 ^ (?c - Suc p2)"
      "nel div 2 \<noteq> 0 \<longrightarrow> 2 ^ (?c - Suc p2) \<le> 2 * (unat nel div 2)" using 1 [OF False] d by simp_all
    have e: "(2 :: nat) ^ (?c - p2) = 2 * 2 ^ (?c - Suc p2)" using ih(1)
      by (metis Suc_diff_le power_Suc diff_Suc_Suc)
    show ?thesis
    proof (cases "nel div 2 = 0")
      case True
      then have "?c = Suc p2" by (subst count_shifts.simps) simp
      moreover have "unat nel div 2 = 0" using d True by simp
      moreover have "0 < unat nel" using False by (simp add: unat_gt_0)
      ultimately show ?thesis using s by auto
    next
      case nz: False
      then have "2 ^ (?c - Suc p2) \<le> 2 * (unat nel div 2)" using ih(3) by blast
      moreover have "2 * (unat nel div 2) \<le> unat nel" by simp
      ultimately have "2 ^ (?c - p2) \<le> 2 * unat nel" "unat nel < 2 ^ (?c - p2)" using e ih(2) by linarith+
      with ih(1) s show ?thesis by simp
    qed
  qed
qed

lemma table_size_pow2:
  assumes "unat nel \<le> 1073741824"
  shows "\<exists>n. table_size nel = Some n \<and> good_size n \<and> unat nel \<le> unat n \<and> unat n < 2 * max 16 (unat nel)"
proof -
  let ?m = "if nel < MIN_BUCKETS then MIN_BUCKETS else nel"
  have mb: "unat MIN_BUCKETS = 16" "unat MAX_BUCKETS = 2 ^ 58"
    by (simp_all add: MIN_BUCKETS_def MIN_BUCKETS_LG2_def MAX_BUCKETS_def MAX_BUCKETS_LG2_def)
  have m: "unat ?m = max 16 (unat nel)" using mb(1) by (auto simp: word_less_nat_alt)
  then have le: "16 \<le> unat ?m" "unat ?m \<le> 1073741824" using assms by auto
  then have nmax: "\<not> MAX_BUCKETS < ?m" using mb(2) by (simp add: word_less_nat_alt del: if_split)
  have mnz: "?m \<noteq> 0" using le(1) by auto
  have pred: "unat (?m - 1) = unat ?m - 1" by (rule unat_minus_one [OF mnz])
  show ?thesis
  proof (cases "?m AND (?m - 1) = 0")
    case True
    then have "unat ?m AND (unat ?m - 1) = 0" unfolding pred [symmetric] unsigned_and_eq [symmetric] by simp
    then obtain j where j: "unat ?m = 2 ^ j" using pow2_test [of "unat ?m"] le(1) by auto
    then have e: "(2 :: nat) ^ 4 \<le> 2 ^ j" "(2 :: nat) ^ j \<le> 2 ^ 30" using le by simp_all
    have "4 \<le> j" by (rule power_le_imp_le_exp [OF _ e(1)]) simp
    moreover have "j \<le> 30" by (rule power_le_imp_le_exp [OF _ e(2)]) simp
    ultimately have "good_size ?m" using j unfolding good_size_def by blast
    moreover have "table_size nel = Some ?m" using nmax True by (simp add: table_size_def Let_def del: if_split)
    ultimately show ?thesis using m by auto
  next
    case False
    let ?p = "count_shifts ?m 0"
    have p: "unat ?m < 2 ^ ?p" "2 ^ ?p \<le> 2 * unat ?m" using count_shifts_bounds [of 0 ?m] mnz by simp_all
    have npow: "unat ?m \<noteq> 2 ^ j" for j
    proof
      assume "unat ?m = 2 ^ j"
      then have "unat (?m AND (?m - 1)) = 0" unfolding unsigned_and_eq pred by (simp only: pow2_and)
      with False show False by (simp only: unat_eq_0)
    qed
    have "(2 :: nat) ^ 4 < 2 ^ ?p" using p(1) le(1) by simp
    then have lo: "4 < ?p" by (rule power_less_imp_less_exp [rotated]) simp
    have "unat ?m < 2 ^ 30" using le(2) npow [of 30] by simp
    with p(2) have "(2 :: nat) ^ ?p < 2 ^ 31" by simp
    then have hi: "?p < 31" by (rule power_less_imp_less_exp [rotated]) simp
    have st: "2 ^ ?p < 2 * unat ?m"
    proof (rule ccontr)
      assume "\<not> 2 ^ ?p < 2 * unat ?m"
      with p(2) have "2 ^ ?p = 2 * unat ?m" by linarith
      moreover have "?p = Suc (?p - 1)" using lo by simp
      ultimately have "unat ?m = 2 ^ (?p - 1)" by (metis mult_cancel1 power_Suc zero_neq_numeral)
      with npow show False by blast
    qed
    let ?n = "scast (push_bit ?p 1 :: i32) :: u64"
    have n: "unat ?n = 2 ^ ?p" using unat_shift_one [of ?p] hi by simp
    have "?p < 32" using hi by simp
    then have "table_size nel = Some ?n" using nmax False by (simp add: table_size_def Let_def del: if_split)
    moreover have "good_size ?n" unfolding good_size_def using n lo hi by (intro exI [of _ ?p]) simp
    moreover have "unat nel \<le> unat ?n" using n p(1) m by simp
    moreover have "unat ?n < 2 * max 16 (unat nel)" using n st m by simp
    ultimately show ?thesis by blast
  qed
qed


lemma new_hash_table_values:
  assumes "unat nel \<le> 1073741824" "htable htab = None"
  shows "\<exists>h. new_hash_table True nel htab = Some (1, h) \<and> ht_wf mem h \<and> (\<forall>v. values_of mem h v = []) \<and>
    entries h = entries htab \<and> unat nel \<le> unat (htablesize h) \<and> unat (htablesize h) < 2 * max 16 (unat nel)"
proof -
  obtain n where n: "table_size nel = Some n" "good_size n" "unat nel \<le> unat n" "unat n < 2 * max 16 (unat nel)"
    using table_size_pow2 [OF assms(1)] by blast
  let ?h = "htab\<lparr>htablesize := n, htable := Some (replicate (unat n) None)\<rparr>"
  have "bucket_ok mem n (entries ?h) i None []" for i by (simp add: bucket_ok_def)
  then have "ht_wf mem ?h" using n(2) by (auto simp: ht_wf_def)
  moreover have "values_of mem ?h v = []" for v
    using index_of_less [OF n(2), of v] nth_replicate [of _ "unat n" None]
    by (subst values_of_chain [where as = "[]"]) auto
  ultimately show ?thesis using n assms(2) by (simp add: new_hash_table_def)
qed

section \<open>Properties\<close>

text \<open>
  For a request of up to \<open>2 ^ 30\<close> elements \<open>new_hash_table\<close> makes a table of at least that many
  buckets and of fewer than twice as many (16 at least), a power of two, well-formed and empty: every
  lookup of a readable key gives \<open>NULL\<close>.
\<close>

theorem new_hash_table_empty:
  assumes "unat nel \<le> 1073741824" "htable htab = None"
  shows "\<exists>h. new_hash_table True nel htab = Some (1, h) \<and> ht_wf mem h \<and>
    unat nel \<le> unat (htablesize h) \<and> unat (htablesize h) < 2 * max 16 (unat nel) \<and>
    (\<exists>j. unat (htablesize h) = 2 ^ j) \<and>
    (\<forall>k n. arg_bytes mem (k, n) = None \<or> hash_lookup mem (Some h) k n = Some None)"
proof -
  obtain h where h: "new_hash_table True nel htab = Some (1, h)" "ht_wf mem h" "\<forall>v. values_of mem h v = []"
    "unat nel \<le> unat (htablesize h)" "unat (htablesize h) < 2 * max 16 (unat nel)"
    using new_hash_table_values [OF assms] by blast
  moreover have "\<exists>j. unat (htablesize h) = 2 ^ j" using h(2) by (auto simp: ht_wf_def good_size_def)
  moreover have "arg_bytes mem (k, n) = None \<or> hash_lookup mem (Some h) k n = Some None" for k n
    using hash_lookup_values [OF h(2), of k n] h(3) by (cases "arg_bytes mem (k, n)") auto
  ultimately show ?thesis by blast
qed

definition sample_mem :: "nat \<rightharpoonup> u8 list" where
  "sample_mem = [100 \<mapsto> [97, 98, 0], 200 \<mapsto> [98, 97, 0], 300 \<mapsto> [97, 98, 99, 0]]"

definition sample_table :: hsearch_data where
  "sample_table = \<lparr>htable = Some (replicate 16 None), htablesize = 16, entries = Map.empty\<rparr>"

lemma sample_table_wf: "ht_wf sample_mem sample_table"
proof -
  have "good_size 16" unfolding good_size_def by (intro exI [of _ 4]) simp
  moreover have "bucket_ok sample_mem 16 Map.empty i None []" for i by (simp add: bucket_ok_def)
  ultimately show ?thesis by (auto simp: ht_wf_def sample_table_def)
qed

lemma sample_args:
  "arg_bytes sample_mem (100, 0) = Some [97, 98]" "arg_bytes sample_mem (200, 2) = Some [98, 97]"
  "arg_bytes sample_mem (300, 2) = Some [97, 98]"
  by (simp_all add: arg_bytes_def real_len_def key_bytes_def sample_mem_def)

lemma new_hash_table_empty_witness:
  "\<exists>h. new_hash_table True 100 \<lparr>htable = None, htablesize = 0, entries = Map.empty\<rparr> = Some (1, h) \<and>
     100 \<le> unat (htablesize h) \<and> unat (htablesize h) < 200"
  using new_hash_table_empty [of 100 "\<lparr>htable = None, htablesize = 0, entries = Map.empty\<rparr>" sample_mem] by auto

text \<open>
  C8: In a well-formed table, \<open>add_hash_entry\<close> with a fresh cell returns 1 and keeps the table
  well-formed; then a lookup finds the new data under every pair of arguments that names the same bytes,
  wherever they lie and whether their length is given or left to \<open>strlen\<close> (of a string shorter than
  \<open>2 ^ 31\<close>, see \<open>arg_bytes\<close>), and all other lookups of readable keys give what they gave before, those of
  colliding keys included.
\<close>

theorem hash_lookup_after_add:
  assumes "ht_wf mem h" "arg_bytes mem (k, n) = Some v" "arg_bytes mem (k', n') = Some v'" "entries h ie = None"
  shows "\<exists>h'. add_hash_entry mem (Some ie) (Some h) k n d = Some (1, Some h') \<and> ht_wf mem h' \<and>
    hash_lookup mem (Some h') k' n' = (if v = v' then Some (Some d) else hash_lookup mem (Some h) k' n')"
proof -
  obtain h' where h': "add_hash_entry mem (Some ie) (Some h) k n d = Some (1, Some h')" "ht_wf mem h'"
    using add_hash_entry_values [OF assms(1,2,4)] by blast
  have "ht_add mem h ie (k, n) d = Some h'" using h'(1) by (simp add: ht_add_def)
  from ht.get_add [OF assms(1) _ _ assms(4) this, of "(k', n')"] assms(2,3)
  have "hash_lookup mem (Some h') k' n' = (if v = v' then Some (Some d) else hash_lookup mem (Some h) k' n')"
    by simp
  with h' show ?thesis by blast
qed

lemma hash_lookup_after_add_witness:
  "\<exists>h'. add_hash_entry sample_mem (Some 7) (Some sample_table) 100 0 42 = Some (1, Some h') \<and>
     hash_lookup sample_mem (Some h') 300 2 = Some (Some 42)"
proof -
  have "entries sample_table 7 = None" by (simp add: sample_table_def)
  from hash_lookup_after_add [OF sample_table_wf sample_args(1,3) this, of 42] show ?thesis by auto
qed

text \<open>
  C12: \<open>delete_hash_entry\<close> undoes \<open>add_hash_entry\<close>: after adding an entry and deleting its key, every
  readable key is looked up as before the addition.  So an older entry that the new one had hidden is
  found again, and the unlinked entry is the one that was added, at the head or inside its list.
\<close>

theorem delete_undoes_add:
  assumes "ht_wf mem h" "arg_bytes mem (k, n) = Some v" "arg_bytes mem (k', n') = Some v'" "entries h ie = None"
  shows "\<exists>h1 h2. add_hash_entry mem (Some ie) (Some h) k n d = Some (1, Some h1) \<and>
    delete_hash_entry mem (Some h1) k n = Some (Some h2) \<and> ht_wf mem h2 \<and>
    hash_lookup mem (Some h2) k' n' = hash_lookup mem (Some h) k' n'"
proof -
  obtain h1 where h1: "add_hash_entry mem (Some ie) (Some h) k n d = Some (1, Some h1)"
    using add_hash_entry_values [OF assms(1,2,4)] by blast
  have "ht_add mem h ie (k, n) d = Some h1" using h1 by (simp add: ht_add_def)
  then obtain h2 where h2: "ht_del mem h1 (k, n) = Some h2" "ht_wf mem h2" "values_of mem h2 = values_of mem h"
    using ht.del_add [OF assms(1) _ assms(4), of "(k, n)"] assms(2) by auto
  have "delete_hash_entry mem (Some h1) k n = Some (Some h2)"
    using h2(1) by (auto simp: ht_del_def bind_Some_iff)
  moreover have "hash_lookup mem (Some h2) k' n' = hash_lookup mem (Some h) k' n'"
    using hash_lookup_values [OF h2(2) assms(3)] hash_lookup_values [OF assms(1,3)] h2(3) by simp
  ultimately show ?thesis using h1 h2(2) by blast
qed

lemma delete_undoes_add_witness:
  "\<exists>h1 h2. add_hash_entry sample_mem (Some 7) (Some sample_table) 100 0 42 = Some (1, Some h1) \<and>
     delete_hash_entry sample_mem (Some h1) 100 0 = Some (Some h2) \<and>
     hash_lookup sample_mem (Some h2) 200 2 = hash_lookup sample_mem (Some sample_table) 200 2"
proof -
  have "entries sample_table 7 = None" by (simp add: sample_table_def)
  from delete_undoes_add [OF sample_table_wf sample_args(1,2) this, of 42] show ?thesis by blast
qed

text \<open>
  The hash value is a byte whatever the size of the table: the bucket of a readable key is the folded
  sum of its bytes modulo the size, and never beyond bucket 255.
\<close>

theorem bucket_is_byte:
  assumes "ht_wf mem h" "arg_bytes mem (k, n) = Some v"
  shows "\<exists>m. real_len mem k n = Some m \<and>
    bucket mem h k m = Some (hash_loop 0 v mod unat (htablesize h)) \<and>
    hash_loop 0 v mod unat (htablesize h) \<le> 255"
proof -
  obtain m where m: "real_len mem k n = Some m" "key_bytes mem k m = Some v"
    using arg_bytes_read [OF assms(2)] by blast
  have "good_size (htablesize h)" using assms(1) by (simp add: ht_wf_def)
  from bucket_index [OF this m(2)] have "bucket mem h k m = Some (hash_loop 0 v mod unat (htablesize h))"
    by (simp add: index_of_def)
  moreover have "hash_loop 0 v \<le> 255" by (rule hash_loop_byte) simp
  then have "hash_loop 0 v mod unat (htablesize h) \<le> 255" by (meson le_trans mod_less_eq_dividend)
  ultimately show ?thesis using m(1) by blast
qed

lemma bucket_is_byte_witness:
  "\<exists>m. real_len sample_mem 100 0 = Some m \<and> bucket sample_mem sample_table 100 m = Some 3"
proof -
  have "hash_loop 0 [97, 98] mod unat (htablesize sample_table) = 3"
    by (simp add: sample_table_def add_carry.simps)
  with bucket_is_byte [OF sample_table_wf sample_args(1)] show ?thesis by simp
qed

end
