(* ===== verification/SortedArray.thy ===== *)
theory SortedArray
  imports Bytes "HOL-Library.Product_Lexorder"
begin

text \<open>
  \<open>src/sorted_array.c\<close>: sorted arrays of \<open>ulong\<close>, alone and as pairs of parallel arrays.
  A list is the whole memory block of an array, so that its length is the capacity; the number of
  elements in use is the separate \<open>count\<close>, as in the code, which checks no bounds: \<open>None\<close> is an
  access outside the block (or a search that does not end).  Indices are \<open>int\<close> values.
\<close>

section \<open>Access by a signed index\<close>

definition ird :: "'a list \<Rightarrow> int \<Rightarrow> 'a option" where
  "ird xs i = (if i < 0 then None else rd xs (nat i))"

lemma ird_at [simp]: "n < length xs \<Longrightarrow> ird xs (int n) = Some (xs ! n)"
  by (simp add: ird_def rd_in)

section \<open>One array\<close>

text \<open>\<open>for (j = *count; j > index; --j) array[j] = array[j-1]\<close>.\<close>

fun shift_up :: "nat \<Rightarrow> nat \<Rightarrow> 'a list \<Rightarrow> 'a list option" where
  "shift_up index 0 array = Some array"
| "shift_up index (Suc j) array =
     (if index < Suc j then do { v \<leftarrow> rd array j; array \<leftarrow> wr array (Suc j) v; shift_up index j array }
      else Some array)"

definition store_and_count :: "u64 list \<Rightarrow> u16 \<Rightarrow> nat \<Rightarrow> u64 \<Rightarrow> (u64 list \<times> u16) option" where
  "store_and_count array count index number = do { array \<leftarrow> wr array index number; Some (array, count + 1) }"

function add_loop :: "u64 list \<Rightarrow> u16 \<Rightarrow> u64 \<Rightarrow> nat \<Rightarrow> (u64 list \<times> u16) option" where
  "add_loop array count number index =
     (if index < unat count then do {
        x \<leftarrow> rd array index;
        if x < number then add_loop array count number (Suc index)
        else if x = number then Some (array, count)
        else do { array \<leftarrow> shift_up index (unat count) array; store_and_count array count index number } }
      else store_and_count array count index number)"
  by pat_completeness auto
termination by (relation "measure (\<lambda>(array, count, number, index). unat count - index)") auto

declare add_loop.simps [simp del]

definition sorted_array_add :: "u64 list \<Rightarrow> u16 \<Rightarrow> u64 \<Rightarrow> (u64 list \<times> u16) option" where
  "sorted_array_add array count number = add_loop array count number 0"

definition MIN_BINARY_SEARCH :: int where "MIN_BINARY_SEARCH = 4"

text \<open>The linear end of the search: \<open>for (; i <= j; i++)\<close>.  Results are the answer and \<open>*pindex\<close>.\<close>

function linear_loop :: "u64 list \<Rightarrow> u64 \<Rightarrow> int \<Rightarrow> int \<Rightarrow> (bool \<times> int) option" where
  "linear_loop array number i j =
     (if i \<le> j then do {
        x \<leftarrow> ird array i;
        if x < number then linear_loop array number (i + 1) j
        else if number < x then Some (False, i)
        else Some (True, i) }
      else Some (False, i))"
  by pat_completeness auto
termination by (relation "measure (\<lambda>(array, number, i, j). nat (j + 1 - i))") auto

declare linear_loop.simps [simp del]

text \<open>\<open>while (k > 0 && array[k - 1] == number) k--\<close>.\<close>

function back_loop :: "u64 list \<Rightarrow> u64 \<Rightarrow> int \<Rightarrow> int option" where
  "back_loop array number k =
     (if 0 < k then do {
        x \<leftarrow> ird array (k - 1);
        if x = number then back_loop array number (k - 1) else Some k }
      else Some k)"
  by pat_completeness auto
termination by (relation "measure (\<lambda>(array, number, k). nat k)") auto

declare back_loop.simps [simp del]

text \<open>\<open>(i + j) >> 1\<close>: the sum wraps, the shift keeps the sign.\<close>

definition midpoint :: "int \<Rightarrow> int \<Rightarrow> int" where
  "midpoint i j = sint (word_of_int (i + j) :: i32) div 2"

partial_function (option) search_loop :: "u64 list \<Rightarrow> u64 \<Rightarrow> int \<Rightarrow> int \<Rightarrow> (bool \<times> int) option" where
  "search_loop array number i j =
     (if j - i < MIN_BINARY_SEARCH then linear_loop array number i j
      else do {
        let k = midpoint i j;
        x \<leftarrow> ird array k;
        if x < number then search_loop array number (k + 1) j
        else if number < x then search_loop array number i (k - 1)
        else do { k \<leftarrow> back_loop array number k; Some (True, k) } })"

declare search_loop.simps [code]

definition sorted_array_get_index :: "u64 list \<Rightarrow> int \<Rightarrow> u64 \<Rightarrow> (bool \<times> int) option" where
  "sorted_array_get_index array count number = search_loop array number 0 (count - 1)"

section \<open>A pair of arrays\<close>

text \<open>\<open>for (; array_1[*pindex] == number_1 && *pindex < count; ++*pindex)\<close>: the read comes first.\<close>

function pair_loop :: "u64 list \<Rightarrow> u64 list \<Rightarrow> int \<Rightarrow> u64 \<Rightarrow> u64 \<Rightarrow> int \<Rightarrow> (bool \<times> int) option" where
  "pair_loop array_1 array_2 count number_1 number_2 pindex = do {
     x \<leftarrow> ird array_1 pindex;
     if x = number_1 \<and> pindex < count then do {
       y \<leftarrow> ird array_2 pindex;
       if y < number_2 then pair_loop array_1 array_2 count number_1 number_2 (pindex + 1)
       else if number_2 < y then Some (False, pindex)
       else Some (True, pindex) }
     else Some (False, pindex) }"
  by pat_completeness auto
termination by (relation "measure (\<lambda>(array_1, array_2, count, number_1, number_2, pindex). nat (count - pindex))") auto

declare pair_loop.simps [simp del]

definition sorted_array_get_index_2 ::
  "u64 list \<Rightarrow> u64 list \<Rightarrow> int \<Rightarrow> u64 \<Rightarrow> u64 \<Rightarrow> (bool \<times> int) option" where
  "sorted_array_get_index_2 array_1 array_2 count number_1 number_2 = do {
     (found, pindex) \<leftarrow> sorted_array_get_index array_1 count number_1;
     if \<not> found then Some (False, pindex)
     else pair_loop array_1 array_2 count number_1 number_2 pindex }"

text \<open>\<open>(*pcount)++\<close> wraps at the width of \<open>int\<close>.  A negative count fails in the search.\<close>

definition sorted_array_add_2 ::
  "u64 list \<Rightarrow> u64 list \<Rightarrow> int \<Rightarrow> u64 \<Rightarrow> u64 \<Rightarrow> (u64 list \<times> u64 list \<times> int) option" where
  "sorted_array_add_2 array_1 array_2 pcount number_1 number_2 = do {
     (found, index) \<leftarrow> sorted_array_get_index_2 array_1 array_2 pcount number_1 number_2;
     if found then Some (array_1, array_2, pcount)
     else do {
       array_1 \<leftarrow> shift_up (nat index) (nat pcount) array_1;
       array_2 \<leftarrow> shift_up (nat index) (nat pcount) array_2;
       array_1 \<leftarrow> wr array_1 (nat index) number_1;
       array_2 \<leftarrow> wr array_2 (nat index) number_2;
       Some (array_1, array_2, sint (word_of_int (pcount + 1) :: i32)) } }"

section \<open>Comparing two arrays\<close>

text \<open>\<open>bcmp\<close> on \<open>n\<close> bytes; \<open>ltob\<close> is the macro that gives the bytes of a number of longs.\<close>

definition memory_of :: "u64 list \<Rightarrow> u8 list" where
  "memory_of array = concat (map (\<lambda>x. le_bytes 8 (unat x)) array)"

definition bcmp :: "u64 list \<Rightarrow> u64 list \<Rightarrow> int \<Rightarrow> bool option" where
  "bcmp array1 array2 n =
     (if n < 0 then None
      else do { xs \<leftarrow> rd_bytes (memory_of array1) 0 (nat n); ys \<leftarrow> rd_bytes (memory_of array2) 0 (nat n);
                Some (xs \<noteq> ys) })"

text \<open>The index at which the inner loop stops.\<close>

function inner_loop :: "u64 list \<Rightarrow> int \<Rightarrow> u64 \<Rightarrow> int \<Rightarrow> int option" where
  "inner_loop array2 count2 x j =
     (if j < count2 then do { y \<leftarrow> ird array2 j; if x = y then Some j else inner_loop array2 count2 x (j + 1) }
      else Some j)"
  by pat_completeness auto
termination by (relation "measure (\<lambda>(array2, count2, x, j). nat (count2 - j))") auto

declare inner_loop.simps [simp del]

function outer_loop :: "u64 list \<Rightarrow> int \<Rightarrow> u64 list \<Rightarrow> int \<Rightarrow> int \<Rightarrow> bool option" where
  "outer_loop array1 count1 array2 count2 i =
     (if i < count1 then do {
        x \<leftarrow> (if 0 < count2 then ird array1 i else Some 0);
        j \<leftarrow> inner_loop array2 count2 x 0;
        if count2 \<le> j then Some False else outer_loop array1 count1 array2 count2 (i + 1) }
      else Some True)"
  by pat_completeness auto
termination by (relation "measure (\<lambda>(array1, count1, array2, count2, i). nat (count1 - i))") auto

declare outer_loop.simps [simp del]

definition sorted_array_partial_compare ::
  "(int \<Rightarrow> int) \<Rightarrow> u64 list \<Rightarrow> int \<Rightarrow> u64 list \<Rightarrow> int \<Rightarrow> bool option" where
  "sorted_array_partial_compare ltob array1 count1 array2 count2 =
     (if count2 < count1 then Some False
      else if count1 = count2 then do {
        differ \<leftarrow> bcmp array1 array2 (ltob count1);
        if differ then Some False else Some True }
      else outer_loop array1 count1 array2 count2 0)"


section \<open>The place of an element\<close>

text \<open>The number of leading elements below \<open>v\<close>.\<close>

definition place :: "'a::linorder \<Rightarrow> 'a list \<Rightarrow> nat" where
  "place v xs = length (takeWhile (\<lambda>x. x < v) xs)"

lemma place_le: "place v xs \<le> length xs"
  by (simp add: place_def length_takeWhile_le)

lemma below_place: "i < place v xs \<Longrightarrow> xs ! i < v"
proof -
  assume i: "i < place v xs"
  then have "takeWhile (\<lambda>x. x < v) xs ! i \<in> set (takeWhile (\<lambda>x. x < v) xs)" by (simp add: place_def)
  moreover have "takeWhile (\<lambda>x. x < v) xs ! i = xs ! i" using i by (simp add: place_def takeWhile_nth)
  ultimately show ?thesis by (metis set_takeWhileD)
qed

lemma at_place: "place v xs < length xs \<Longrightarrow> \<not> xs ! place v xs < v"
  unfolding place_def by (rule nth_length_takeWhile)

lemma less_place_iff: "sorted xs \<Longrightarrow> i < length xs \<Longrightarrow> xs ! i < v \<longleftrightarrow> i < place v xs"
proof
  assume s: "sorted xs" and i: "i < length xs" and lt: "xs ! i < v"
  show "i < place v xs"
  proof (rule ccontr)
    assume "\<not> i < place v xs"
    then have "place v xs \<le> i" by simp
    with s i have "xs ! place v xs \<le> xs ! i" by (simp add: sorted_nth_mono)
    with lt at_place [of v xs] \<open>place v xs \<le> i\<close> i show False by simp
  qed
qed (rule below_place)

lemma mem_iff_place: "sorted xs \<Longrightarrow> v \<in> set xs \<longleftrightarrow> place v xs < length xs \<and> xs ! place v xs = v"
proof
  assume s: "sorted xs" and "v \<in> set xs"
  then obtain i where i: "i < length xs" "xs ! i = v" by (auto simp: in_set_conv_nth)
  then have "\<not> i < place v xs" using less_place_iff [OF s i(1), of v] by simp
  moreover from this i have "place v xs < length xs" by simp
  moreover have "xs ! place v xs \<le> v" using s i calculation by (metis not_less sorted_nth_mono)
  ultimately show "place v xs < length xs \<and> xs ! place v xs = v" using at_place [of v xs] by simp
next
  assume "place v xs < length xs \<and> xs ! place v xs = v"
  then show "v \<in> set xs" using nth_mem [of "place v xs" xs] by simp
qed

lemma strictly_sorted: "sorted_wrt (<) xs \<Longrightarrow> sorted (xs :: 'a::linorder list)"
  by (rule sorted_wrt_mono_rel [of _ "(<)"]) simp_all

lemma insert_at_place:
  assumes s: "sorted_wrt (<) (xs :: 'a::linorder list)" and v: "v \<notin> set xs"
  shows "take (place v xs) xs @ v # drop (place v xs) xs = sorted_list_of_set (insert v (set xs))"
proof -
  let ?p = "place v xs" and ?ys = "take (place v xs) xs @ v # drop (place v xs) xs"
  note ss = strictly_sorted [OF s]
  have lo: "x < v" if "x \<in> set (take ?p xs)" for x
    using that below_place [of _ v xs] place_le [of v xs] by (auto simp: in_set_conv_nth)
  have hi: "v < x" if x: "x \<in> set (drop ?p xs)" for x
  proof -
    obtain i where i: "i < length xs - ?p" "x = xs ! (?p + i)" using x by (auto simp: in_set_conv_nth)
    then have "\<not> x < v" using less_place_iff [OF ss, of "?p + i" v] by simp
    moreover have "x \<noteq> v" using v x by (meson in_set_dropD)
    ultimately show ?thesis by simp
  qed
  have "sorted_wrt (<) (take ?p xs @ drop ?p xs)" using s by simp
  then have "sorted_wrt (<) (take ?p xs)" "sorted_wrt (<) (drop ?p xs)" unfolding sorted_wrt_append by simp_all
  then have "sorted_wrt (<) ?ys" using lo hi by (auto simp: sorted_wrt_append intro: less_trans)
  moreover have "set ?ys = insert v (set xs)"
  proof -
    have "set ?ys = insert v (set (take ?p xs) \<union> set (drop ?p xs))" by simp
    then show ?thesis by (simp only: set_append [symmetric] append_take_drop_id)
  qed
  ultimately show ?thesis by (metis strict_sorted_iff sorted_list_of_set.idem_if_sorted_distinct)
qed

section \<open>Making room\<close>

definition ins_at :: "nat \<Rightarrow> nat \<Rightarrow> 'a \<Rightarrow> 'a list \<Rightarrow> 'a list" where
  "ins_at p n v xs = take p xs @ v # take (n - p) (drop p xs) @ drop (Suc n) xs"

lemma shift_up_nth:
  "j < length xs \<Longrightarrow> \<exists>ys. shift_up index j xs = Some ys \<and> length ys = length xs \<and>
     (\<forall>q < length xs. ys ! q = (if index < q \<and> q \<le> j then xs ! (q - 1) else xs ! q))"
proof (induction j arbitrary: xs)
  case (Suc j)
  show ?case
  proof (cases "index < Suc j")
    case True
    let ?zs = "xs[Suc j := xs ! j]"
    obtain ys where ys: "shift_up index j ?zs = Some ys" "length ys = length xs"
      "\<forall>q < length xs. ys ! q = (if index < q \<and> q \<le> j then ?zs ! (q - 1) else ?zs ! q)"
      using Suc.IH [of ?zs] Suc.prems by auto
    have "ys ! q = (if index < q \<and> q \<le> Suc j then xs ! (q - 1) else xs ! q)" if "q < length xs" for q
      using ys(3) that True Suc.prems by (auto simp: nth_list_update)
    with ys True Suc.prems show ?thesis by (simp add: rd_in wr_in)
  next
    case False
    then show ?thesis by auto
  qed
qed auto

lemma length_ins_at: "p \<le> n \<Longrightarrow> n < length xs \<Longrightarrow> length (ins_at p n v xs) = length xs"
  unfolding ins_at_def by auto

lemma shift_up_store:
  assumes "p \<le> n" "n < length xs"
  obtains ys where "shift_up p n xs = Some ys" "wr ys p v = Some (ins_at p n v xs)"
proof -
  obtain ys where ys: "shift_up p n xs = Some ys" "length ys = length xs"
    "\<forall>q < length xs. ys ! q = (if p < q \<and> q \<le> n then xs ! (q - 1) else xs ! q)"
    using shift_up_nth [OF assms(2)] by blast
  have "ys[p := v] = ins_at p n v xs"
  proof (rule nth_equalityI)
    show "length (ys[p := v]) = length (ins_at p n v xs)" using assms ys(2) by (simp add: length_ins_at)
    fix q assume "q < length (ys[p := v])"
    then have q: "q < length xs" using ys(2) by simp
    show "ys[p := v] ! q = ins_at p n v xs ! q"
      using ys q assms by (auto simp: ins_at_def nth_append nth_Cons' nth_list_update min_def)
  qed
  then have "wr ys p v = Some (ins_at p n v xs)" using ys(2) assms by (simp add: wr_def)
  with ys(1) show thesis by (rule that)
qed

lemma take_ins_at: "p \<le> n \<Longrightarrow> n < length xs \<Longrightarrow> take (Suc n) (ins_at p n v xs) = take p (take n xs) @ v # drop p (take n xs)"
  by (auto simp add: ins_at_def min_def drop_take Suc_diff_le)

lemma drop_ins_at: "p \<le> n \<Longrightarrow> n < length xs \<Longrightarrow> drop (Suc n) (ins_at p n v xs) = drop (Suc n) xs"
  by (simp add: ins_at_def min_def Suc_diff_le)


section \<open>Adding to one array\<close>

lemma add_loop_place:
  fixes array :: "u64 list"
  assumes s: "sorted (take (unat count) array)" and n: "unat count < length array"
    and p: "p = place number (take (unat count) array)"
  shows "index \<le> p \<Longrightarrow> add_loop array count number index =
    (if number \<in> set (take (unat count) array) then Some (array, count)
     else Some (ins_at p (unat count) number array, count + 1))"
proof (induction "p - index" arbitrary: index)
  case 0
  let ?xs = "take (unat count) array"
  have pl: "p \<le> unat count" using place_le [of number ?xs] p n by simp
  have ip: "index = p" using 0 by simp
  show ?case
  proof (cases "p < unat count")
    case True
    then have nl: "\<not> array ! p < number" using at_place [of number ?xs] p n by simp
    show ?thesis
    proof (cases "array ! p = number")
      case eq: True
      then have "number \<in> set ?xs" using mem_iff_place [OF s, of number] p True n by simp
      with True eq nl ip n show ?thesis by (subst add_loop.simps) (simp add: rd_in)
    next
      case False
      then have "number \<notin> set ?xs" using mem_iff_place [OF s, of number] p True n by simp
      moreover obtain ys where "shift_up p (unat count) array = Some ys"
        "wr ys p number = Some (ins_at p (unat count) number array)" using shift_up_store [OF pl n] .
      ultimately show ?thesis using True False nl ip n
        by (subst add_loop.simps) (simp add: rd_in store_and_count_def)
    qed
  next
    case False
    then have e: "p = unat count" using pl by simp
    then have "number \<notin> set ?xs" using mem_iff_place [OF s, of number] p by simp
    moreover have "ins_at p (unat count) number array = array[p := number]"
      using n unfolding e by (simp add: ins_at_def upd_conv_take_nth_drop)
    ultimately show ?thesis using e ip n
      by (subst add_loop.simps) (simp add: store_and_count_def wr_in)
  qed
next
  case (Suc d)
  let ?xs = "take (unat count) array"
  have ip: "index < p" using Suc.hyps(2) by simp
  have pl: "p \<le> unat count" using place_le [of number ?xs] p n by simp
  have "array ! index < number" using below_place [of index number ?xs] ip p pl by simp
  then have "add_loop array count number index = add_loop array count number (Suc index)"
    using ip pl n by (subst add_loop.simps) (simp add: rd_in)
  with Suc.hyps ip show ?case by simp
qed

section \<open>The search\<close>

lemma linear_loop_place:
  fixes array :: "u64 list"
  assumes s: "sorted (take n array)" and n: "n \<le> length array"
    and p: "p = place number (take n array)"
  shows "i \<le> p \<Longrightarrow> p \<le> m \<Longrightarrow> m \<le> n \<Longrightarrow> (m < n \<Longrightarrow> number < array ! m) \<Longrightarrow>
    linear_loop array number (int i) (int m - 1) = Some (number \<in> set (take n array), int p)"
proof (induction "p - i" arbitrary: i)
  case 0
  let ?xs = "take n array"
  have ip: "i = p" using 0 by simp
  show ?case
  proof (cases "p < m")
    case True
    then have "p < n" using 0 by simp
    then have "\<not> array ! p < number" "number \<in> set ?xs \<longleftrightarrow> array ! p = number"
      using at_place [of number ?xs] mem_iff_place [OF s, of number] p n by simp_all
    with ip True \<open>p < n\<close> n show ?thesis by (subst linear_loop.simps) auto
  next
    case False
    then have "p = m" using 0 by simp
    then have "number \<notin> set ?xs" using 0 mem_iff_place [OF s, of number] p n by (cases "m < n") auto
    with ip \<open>p = m\<close> show ?thesis by (subst linear_loop.simps) simp
  qed
next
  case (Suc d)
  have ip: "i < p" "i < n" using Suc by simp_all
  have "array ! i < number" using below_place [of i number "take n array"] ip p by simp
  moreover have "int i \<le> int m - 1" using ip Suc.prems by simp
  ultimately have "linear_loop array number (int i) (int m - 1) = linear_loop array number (int (Suc i)) (int m - 1)"
    using ip n by (subst linear_loop.simps) (simp add: add.commute)
  with Suc.hyps(1) [of "Suc i"] Suc.hyps(2) Suc.prems ip show ?case by simp
qed

lemma back_loop_place:
  fixes array :: "u64 list"
  assumes s: "sorted (take n array)" and n: "n \<le> length array" and p: "p = place number (take n array)"
  shows "p \<le> k \<Longrightarrow> k < n \<Longrightarrow> array ! k = number \<Longrightarrow> back_loop array number (int k) = Some (int p)"
proof (induction k)
  case 0
  then show ?case by (subst back_loop.simps) simp
next
  case (Suc k)
  have i: "int (Suc k) - 1 = int k" by simp
  have k: "k < n" using Suc.prems by simp
  have iff: "take n array ! k < number \<longleftrightarrow> k < p" using less_place_iff [OF s, of k number] k n p by simp
  show ?case
  proof (cases "p = Suc k")
    case True
    then have "array ! k \<noteq> number" using iff k by auto
    then show ?thesis using True k n by (subst back_loop.simps) (simp add: i)
  next
    case False
    then have "p \<le> k" using Suc.prems by simp
    then have "\<not> array ! k < number" using iff k by simp
    moreover have "array ! k \<le> array ! Suc k"
      using sorted_nth_mono [OF s, of k "Suc k"] Suc.prems n by simp
    ultimately have "array ! k = number" using Suc.prems by simp
    with Suc.IH \<open>p \<le> k\<close> k n show ?thesis by (subst back_loop.simps) (simp add: i)
  qed
qed


lemma midpoint_nat:
  assumes "i + j < 2147483648"
  shows "midpoint (int i) (int j) = int ((i + j) div 2)"
proof -
  have "sint (word_of_int (int (i + j)) :: i32) = int (i + j)"
    using assms sint_eq_unat32 [of "word_of_nat (i + j)"] by (simp add: unat_of_nat32 del: of_nat_add)
  then show ?thesis by (simp add: midpoint_def zdiv_int)
qed

lemma search_loop_place:
  fixes array :: "u64 list"
  assumes s: "sorted (take n array)" and n: "n \<le> length array" "n \<le> 1073741824"
    and p: "p = place number (take n array)"
  shows "i \<le> p \<Longrightarrow> p \<le> m \<Longrightarrow> m \<le> n \<Longrightarrow> (m < n \<Longrightarrow> number < array ! m) \<Longrightarrow>
    search_loop array number (int i) (int m - 1) = Some (number \<in> set (take n array), int p)"
proof (induction "m - i" arbitrary: i m rule: less_induct)
  case less
  show ?case
  proof (cases "int m - 1 - int i < MIN_BINARY_SEARCH")
    case True
    then show ?thesis
      using linear_loop_place [OF s n(1) p less.prems] by (subst search_loop.simps) simp
  next
    case False
    then have far: "i + 4 < m" by (simp add: MIN_BINARY_SEARCH_def)
    define k where "k = (i + (m - 1)) div 2"
    have mk: "midpoint (int i) (int m - 1) = int k"
      using midpoint_nat [of i "m - 1"] far less.prems(3) n(2) by (simp add: of_nat_diff k_def)
    have k: "i < k" "k < m - 1" unfolding k_def using far by auto
    then have kn: "k < n" "k < length array" using less.prems(3) n(1) by auto
    have iff: "array ! k < number \<longleftrightarrow> k < p" using less_place_iff [OF s, of k number] kn p by simp
    have unf: "search_loop array number (int i) (int m - 1) =
      (if array ! k < number then search_loop array number (int k + 1) (int m - 1)
       else if number < array ! k then search_loop array number (int i) (int k - 1)
       else Option.bind (back_loop array number (int k)) (\<lambda>k. Some (True, k)))"
      using False mk kn(2) by (subst search_loop.simps) (simp add: Let_def)
    consider (below) "array ! k < number" | (above) "number < array ! k" | (eq) "array ! k = number"
      by fastforce
    then show ?thesis
    proof cases
      case below
      have "search_loop array number (int (Suc k)) (int m - 1) = Some (number \<in> set (take n array), int p)"
        using k below iff less.prems by (intro less.hyps) auto
      then show ?thesis unfolding unf using below by (simp add: add.commute)
    next
      case above
      have "search_loop array number (int i) (int k - 1) = Some (number \<in> set (take n array), int p)"
        using k above iff kn less.prems by (intro less.hyps) auto
      moreover have "\<not> array ! k < number" using above by simp
      ultimately show ?thesis unfolding unf using above by simp
    next
      case eq
      then have "number \<in> set (take n array)" using kn by (auto simp: in_set_conv_nth)
      moreover have "p \<le> k" using iff eq by simp
      ultimately show ?thesis unfolding unf using back_loop_place [OF s n(1) p _ kn(1) eq] eq by simp
    qed
  qed
qed

lemma get_index_place:
  fixes array :: "u64 list"
  assumes "sorted (take n array)" "n \<le> length array" "n \<le> 1073741824"
  shows "sorted_array_get_index array (int n) number =
    Some (number \<in> set (take n array), int (place number (take n array)))"
  using search_loop_place [OF assms refl, where number = number and i = 0 and m = n] place_le [of number "take n array"] assms(2)
  by (simp add: sorted_array_get_index_def)

section \<open>The search in a pair of arrays\<close>

definition pairs_of :: "nat \<Rightarrow> u64 list \<Rightarrow> u64 list \<Rightarrow> (u64 \<times> u64) list" where
  "pairs_of n array_1 array_2 = zip (take n array_1) (take n array_2)"

lemma pairs_ins_at:
  assumes "p \<le> n" "n < length xs" "n < length ys"
  shows "pairs_of (Suc n) (ins_at p n a xs) (ins_at p n b ys) =
    take p (pairs_of n xs ys) @ (a, b) # drop p (pairs_of n xs ys)"
  unfolding pairs_of_def take_ins_at [OF assms(1,2)] take_ins_at [OF assms(1,3)]
  using assms by (simp add: zip_append take_zip drop_zip)

lemma sorted_firsts:
  assumes "n \<le> length array_1" "n \<le> length array_2" "sorted_wrt (<) (pairs_of n array_1 array_2)"
  shows "sorted (take n array_1)"
proof -
  have "sorted (map fst (pairs_of n array_1 array_2))"
    unfolding sorted_map using assms(3) by (rule sorted_wrt_mono_rel [rotated]) (auto simp: less_prod_def)
  then show ?thesis using assms(1,2) by (simp add: pairs_of_def)
qed

lemma nth_pairs:
  "n \<le> length array_1 \<Longrightarrow> n \<le> length array_2 \<Longrightarrow> i < n \<Longrightarrow> pairs_of n array_1 array_2 ! i = (array_1 ! i, array_2 ! i)"
  by (simp add: pairs_of_def)

lemma length_pairs: "n \<le> length array_1 \<Longrightarrow> n \<le> length array_2 \<Longrightarrow> length (pairs_of n array_1 array_2) = n"
  by (simp add: pairs_of_def)

lemma pair_loop_place:
  assumes ps: "ps = pairs_of n array_1 array_2" and s: "sorted_wrt (<) ps"
    and n: "n < length array_1" "n \<le> length array_2" and p: "p = place (number_1, number_2) ps"
  shows "i \<le> p \<Longrightarrow> (\<forall>q. i \<le> q \<and> q < n \<longrightarrow> number_1 \<le> array_1 ! q) \<Longrightarrow>
    pair_loop array_1 array_2 (int n) number_1 number_2 (int i) = Some ((number_1, number_2) \<in> set ps, int p)"
proof (induction "p - i" arbitrary: i)
  case 0
  have ip: "i = p" using 0 by simp
  have len: "length ps = n" using n by (simp add: ps length_pairs)
  have pn: "p \<le> n" using place_le [of "(number_1, number_2)" ps] p len by simp
  note mem = mem_iff_place [OF strictly_sorted [OF s], of "(number_1, number_2)"]
  show ?case
  proof (cases "p < n")
    case True
    have nth: "ps ! p = (array_1 ! p, array_2 ! p)" using True n by (simp add: ps nth_pairs)
    have "\<not> (array_1 ! p, array_2 ! p) < (number_1, number_2)"
      using at_place [of "(number_1, number_2)" ps] p len True nth by simp
    moreover have "(number_1, number_2) \<in> set ps \<longleftrightarrow> (array_1 ! p, array_2 ! p) = (number_1, number_2)"
      using mem p len True nth by simp
    ultimately show ?thesis using ip True n by (subst pair_loop.simps) (auto simp: less_prod_def)
  next
    case False
    then show ?thesis using ip pn mem p len n by (subst pair_loop.simps) auto
  qed
next
  case (Suc d)
  have len: "length ps = n" using n by (simp add: ps length_pairs)
  have ip: "i < p" "i < n" using Suc.hyps(2) place_le [of "(number_1, number_2)" ps] p len by simp_all
  have "ps ! i < (number_1, number_2)" using below_place [of i "(number_1, number_2)" ps] ip p by simp
  then have "(array_1 ! i, array_2 ! i) < (number_1, number_2)" using ip n by (simp add: ps nth_pairs)
  moreover have "number_1 \<le> array_1 ! i" using Suc.prems(2) ip by simp
  ultimately have "array_1 ! i = number_1" "array_2 ! i < number_2" by (auto simp: less_prod_def)
  then have "pair_loop array_1 array_2 (int n) number_1 number_2 (int i)
    = pair_loop array_1 array_2 (int n) number_1 number_2 (int (Suc i))"
    using ip n by (subst pair_loop.simps) (simp add: add.commute)
  with Suc.hyps(1) [of "Suc i"] Suc.hyps(2) Suc.prems ip show ?case by simp
qed

lemma get_index_2_place:
  assumes s: "sorted_wrt (<) (pairs_of n array_1 array_2)"
    and n: "n < length array_1" "n \<le> length array_2" "n \<le> 1073741824"
  shows "sorted_array_get_index_2 array_1 array_2 (int n) number_1 number_2 =
    Some ((number_1, number_2) \<in> set (pairs_of n array_1 array_2),
          int (place (number_1, number_2) (pairs_of n array_1 array_2)))"
proof -
  let ?v = "(number_1, number_2)" and ?ps = "pairs_of n array_1 array_2" and ?xs = "take n array_1"
  have s1: "sorted ?xs" using sorted_firsts [OF _ n(2) s] n(1) by simp
  note g = get_index_place [OF s1 _ n(3), of number_1]
  have len: "length ?ps = n" "length ?xs = n" using n by (simp_all add: length_pairs)
  let ?i = "place number_1 ?xs"
  have before: "q < place ?v ?ps" if "q < ?i" for q
  proof -
    have q: "q < n" using that place_le [of number_1 ?xs] len by simp
    have "array_1 ! q < number_1" using below_place [OF that] q by simp
    then have "?ps ! q < ?v" using q n by (simp add: nth_pairs less_prod_def)
    then show ?thesis using less_place_iff [OF strictly_sorted [OF s], of q ?v] len q by simp
  qed
  have i: "?i \<le> place ?v ?ps" using before [of "?i - 1"] by (cases "?i = 0") auto
  have after: "number_1 \<le> array_1 ! q" if "?i \<le> q" "q < n" for q
    using less_place_iff [OF s1, of q number_1] that n(1) by simp
  show ?thesis
  proof (cases "number_1 \<in> set ?xs")
    case True
    have "pair_loop array_1 array_2 (int n) number_1 number_2 (int ?i) = Some (?v \<in> set ?ps, int (place ?v ?ps))"
      using after by (intro pair_loop_place [OF refl s n(1,2) refl i]) blast
    with True g n(1) show ?thesis by (simp add: sorted_array_get_index_2_def)
  next
    case False
    have "place ?v ?ps \<le> ?i"
    proof (rule ccontr)
      assume "\<not> place ?v ?ps \<le> ?i"
      then have lt: "?i < place ?v ?ps" by simp
      then have il: "?i < n" using place_le [of ?v ?ps] len by simp
      have "?ps ! ?i < ?v" by (rule below_place [OF lt])
      then have "array_1 ! ?i \<le> number_1" using il n by (auto simp: nth_pairs less_prod_def)
      with after [OF _ il] have "array_1 ! ?i = number_1" by simp
      with False il n(1) show False by (auto simp: in_set_conv_nth)
    qed
    with i have e: "?i = place ?v ?ps" by simp
    have "?v \<notin> set ?ps" using False by (auto simp: pairs_of_def dest: set_zip_leftD)
    with False g n(1) e show ?thesis by (simp add: sorted_array_get_index_2_def)
  qed
qed


lemma pair_loop_runs_off:
  assumes n: "length array_1 = n" "length array_2 = n"
  shows "i \<le> n \<Longrightarrow> (\<forall>q. i \<le> q \<and> q < n \<longrightarrow> array_1 ! q = number_1 \<and> array_2 ! q < number_2) \<Longrightarrow>
    pair_loop array_1 array_2 (int n) number_1 number_2 (int i) = None"
proof (induction "n - i" arbitrary: i)
  case 0
  then show ?case using n by (subst pair_loop.simps) (simp add: ird_def rd_def)
next
  case (Suc d)
  have i: "i < n" using Suc.hyps(2) by simp
  have "pair_loop array_1 array_2 (int n) number_1 number_2 (int i)
    = pair_loop array_1 array_2 (int n) number_1 number_2 (int (Suc i))"
    using i Suc.prems(2) n by (subst pair_loop.simps) (simp add: add.commute)
  with Suc.hyps(1) [of "Suc i"] Suc.hyps(2) Suc.prems i show ?case by simp
qed

lemma place_filter: "sorted xs \<Longrightarrow> length (filter (\<lambda>x. x < v) xs) = place v xs"
proof (induction xs)
  case (Cons x xs)
  show ?case
  proof (cases "x < v")
    case True
    then show ?thesis using Cons by (simp add: place_def)
  next
    case False
    then have "filter (\<lambda>x. x < v) (x # xs) = []" using Cons.prems by (auto simp: filter_empty_conv)
    then show ?thesis using False by (simp add: place_def)
  qed
qed (simp add: place_def)

section \<open>Comparing\<close>

lemma memory_of_append: "memory_of (xs @ ys) = memory_of xs @ memory_of ys"
  by (simp add: memory_of_def)

lemma length_memory_of: "length (memory_of xs) = 8 * length xs"
  by (induction xs) (simp_all add: memory_of_def)

lemma memory_of_inj: "length xs = length ys \<Longrightarrow> memory_of xs = memory_of ys \<longleftrightarrow> xs = ys"
proof (induction xs ys rule: list_induct2)
  case (Cons x xs y ys)
  have "x = y" if "le_bytes 8 (unat x) = le_bytes 8 (unat y)"
  proof -
    have "unat x < 2 ^ LENGTH(64)" "unat y < 2 ^ LENGTH(64)" by (rule unsigned_less)+
    then have "unat x < 256 ^ 8" "unat y < 256 ^ 8" by simp_all
    moreover have "unat x mod 256 ^ 8 = unat y mod 256 ^ 8" using that by (metis le_nat_bytes)
    ultimately show ?thesis by (simp add: word_unat_eq_iff)
  qed
  with Cons show ?case by (auto simp: memory_of_def)
qed simp

lemma rd_memory:
  assumes "n \<le> length xs"
  shows "rd_bytes (memory_of xs) 0 (8 * n) = Some (memory_of (take n xs))"
proof -
  have "memory_of xs = memory_of (take n xs) @ memory_of (drop n xs)"
    by (simp only: memory_of_append [symmetric] append_take_drop_id)
  moreover have "length (memory_of (take n xs)) = 8 * n" using assms by (simp add: length_memory_of)
  ultimately show ?thesis by (simp add: rd_bytes_def)
qed

lemma inner_loop_mem:
  "n \<le> length array2 \<Longrightarrow> j \<le> n \<Longrightarrow> \<exists>r. inner_loop array2 (int n) x (int j) = Some r \<and>
     (int n \<le> r \<longleftrightarrow> x \<notin> set (drop j (take n array2)))"
proof (induction "n - j" arbitrary: j)
  case 0
  then show ?case by (subst inner_loop.simps) simp
next
  case (Suc d)
  have j: "j < n" using Suc.hyps(2) by simp
  then have dr: "drop j (take n array2) = array2 ! j # drop (Suc j) (take n array2)"
    using Suc.prems(1) by (simp add: Cons_nth_drop_Suc [symmetric])
  have st: "inner_loop array2 (int n) x (int j) =
      (if x = array2 ! j then Some (int j) else inner_loop array2 (int n) x (int (Suc j)))"
    using j Suc.prems(1) by (subst inner_loop.simps) (simp add: add.commute)
  obtain r where "inner_loop array2 (int n) x (int (Suc j)) = Some r"
    "int n \<le> r \<longleftrightarrow> x \<notin> set (drop (Suc j) (take n array2))"
  proof -
    have "d = n - Suc j" "Suc j \<le> n" using Suc.hyps(2) j by simp_all
    with Suc.hyps(1) [of "Suc j"] Suc.prems(1) show thesis using that by blast
  qed
  with st j show ?case unfolding dr by auto
qed

lemma outer_loop_subset:
  assumes n: "n1 \<le> length array1" "n2 \<le> length array2" "0 < n2"
  shows "i \<le> n1 \<Longrightarrow> outer_loop array1 (int n1) array2 (int n2) (int i) =
    Some (set (drop i (take n1 array1)) \<subseteq> set (take n2 array2))"
proof (induction "n1 - i" arbitrary: i)
  case 0
  then show ?case by (subst outer_loop.simps) simp
next
  case (Suc d)
  have i: "i < n1" using Suc.hyps(2) by simp
  then have dr: "drop i (take n1 array1) = array1 ! i # drop (Suc i) (take n1 array1)"
    using n(1) by (simp add: Cons_nth_drop_Suc [symmetric])
  obtain r where r: "inner_loop array2 (int n2) (array1 ! i) (int 0) = Some r"
    "int n2 \<le> r \<longleftrightarrow> array1 ! i \<notin> set (drop 0 (take n2 array2))"
    using inner_loop_mem [OF n(2), of 0] by blast
  have st: "outer_loop array1 (int n1) array2 (int n2) (int i) =
      (if array1 ! i \<notin> set (take n2 array2) then Some False
       else outer_loop array1 (int n1) array2 (int n2) (int (Suc i)))"
    using i n r by (subst outer_loop.simps) (simp add: add.commute)
  have "outer_loop array1 (int n1) array2 (int n2) (int (Suc i)) =
      Some (set (drop (Suc i) (take n1 array1)) \<subseteq> set (take n2 array2))"
    using Suc.hyps(1) [of "Suc i"] Suc.hyps(2) i by simp
  with st show ?case unfolding dr by auto
qed

lemma strictly_sorted_card:
  "sorted_wrt (<) (xs :: 'a::linorder list) \<Longrightarrow> card (set xs) = length xs"
  by (metis distinct_card strict_sorted_iff)

section \<open>Properties\<close>

text \<open>
  C7: \<open>sorted_array_get_index\<close> on a sorted array of up to \<open>2 ^ 30\<close> elements ends without a read out of
  bounds.  It says whether the number is in the array, and its index is the first occurrence or, for a number
  that is not there, the place for it: every element before the index is smaller, every one from it on is not.
\<close>

theorem sorted_array_get_index_first:
  assumes "sorted (take n array)" "n \<le> length array" "n \<le> 1073741824"
  shows "\<exists>k \<le> n. sorted_array_get_index array (int n) number = Some (number \<in> set (take n array), int k) \<and>
    (\<forall>i. i < n \<longrightarrow> (array ! i < number \<longleftrightarrow> i < k)) \<and>
    (number \<in> set (take n array) \<longleftrightarrow> k < n \<and> array ! k = number)"
proof -
  let ?xs = "take n array"
  have len: "length ?xs = n" using assms(2) by simp
  have "place number ?xs \<le> n" using place_le [of number ?xs] len by simp
  moreover have "\<forall>i. i < n \<longrightarrow> (array ! i < number \<longleftrightarrow> i < place number ?xs)"
    using less_place_iff [OF assms(1), of _ number] assms(2) by simp
  moreover have "number \<in> set ?xs \<longleftrightarrow> place number ?xs < n \<and> array ! place number ?xs = number"
    using mem_iff_place [OF assms(1), of number] assms(2) by auto
  ultimately show ?thesis using get_index_place [OF assms, of number] by blast
qed

lemma sorted_array_get_index_first_witness:
  "\<exists>k \<le> 7. sorted_array_get_index [1, 3, 3, 3, 5, 8, 9 :: u64] (int 7) 3 = Some (True, int k) \<and> k = 1"
proof -
  let ?a = "[1, 3, 3, 3, 5, 8, 9 :: u64]"
  obtain k where k: "k \<le> 7" "sorted_array_get_index ?a (int 7) 3 = Some (3 \<in> set (take 7 ?a), int k)"
    "\<forall>i. i < 7 \<longrightarrow> (?a ! i < 3 \<longleftrightarrow> i < k)"
    using sorted_array_get_index_first [of 7 ?a 3] by auto
  have "0 < k" "\<not> 1 < k" using k(3) [rule_format, of 0] k(3) [rule_format, of 1] by simp_all
  then have "k = 1" by simp
  with k(1,2) show ?thesis by auto
qed


text \<open>
  C14: \<open>sorted_array_add\<close> on a strictly sorted array with room for one more keeps it strictly sorted and
  adds the number to its set: the used part becomes the sorted list of the old elements and the number, the
  memory behind it is unchanged, and a number that is there already changes nothing.
\<close>

theorem sorted_array_add_inserts:
  assumes "sorted_wrt (<) (take (unat count) array)" "unat count < length array" "unat count < 65535"
  shows "\<exists>array' count'. sorted_array_add array count number = Some (array', count') \<and>
    take (unat count') array' = sorted_list_of_set (insert number (set (take (unat count) array))) \<and>
    length array' = length array \<and> drop (unat count') array' = drop (unat count') array"
proof -
  let ?n = "unat count" and ?xs = "take (unat count) array"
  let ?p = "place number ?xs"
  have len: "length ?xs = ?n" using assms(2) by simp
  have pl: "?p \<le> ?n" using place_le [of number ?xs] len by simp
  have run: "sorted_array_add array count number =
    (if number \<in> set ?xs then Some (array, count) else Some (ins_at ?p ?n number array, count + 1))"
    unfolding sorted_array_add_def using add_loop_place [OF strictly_sorted [OF assms(1)] assms(2) refl, of 0 number] by simp
  show ?thesis
  proof (cases "number \<in> set ?xs")
    case True
    have "sorted_list_of_set (insert number (set ?xs)) = ?xs"
      using True assms(1) by (simp add: insert_absorb sorted_list_of_set.idem_if_sorted_distinct strict_sorted_iff)
    with run True show ?thesis by simp
  next
    case False
    have c: "unat (count + 1) = Suc ?n" using assms(3) by (simp add: unat_word_ariths)
    have "take (Suc ?n) (ins_at ?p ?n number array) = sorted_list_of_set (insert number (set ?xs))"
      unfolding take_ins_at [OF pl assms(2)] by (rule insert_at_place [OF assms(1) False])
    with run False c show ?thesis by (simp add: drop_ins_at [OF pl assms(2)] length_ins_at [OF pl assms(2)])
  qed
qed

lemma sorted_array_add_inserts_witness:
  "\<exists>array' count'. sorted_array_add [2, 4, 8, 0, 0 :: u64] 3 5 = Some (array', count') \<and>
     take (unat count') array' = sorted_list_of_set (insert 5 {2, 4, 8})"
  using sorted_array_add_inserts [of 3 "[2, 4, 8, 0, 0 :: u64]" 5] by auto

text \<open>
  \<open>sorted_array_get_index_2\<close> and \<open>sorted_array_add_2\<close> treat the two arrays as one array of pairs in
  lexicographic order: with room for one more pair, the search finds whether the pair is there and its place,
  and the addition makes the pairs the sorted list of the old ones and the new one.
\<close>

theorem sorted_array_add_2_inserts:
  assumes "sorted_wrt (<) (pairs_of n array_1 array_2)"
    and "n < length array_1" "n < length array_2" "n \<le> 1073741824"
  shows "sorted_array_get_index_2 array_1 array_2 (int n) number_1 number_2 =
      Some ((number_1, number_2) \<in> set (pairs_of n array_1 array_2),
            int (length (filter (\<lambda>q. q < (number_1, number_2)) (pairs_of n array_1 array_2)))) \<and>
    (\<exists>a1 a2 m. sorted_array_add_2 array_1 array_2 (int n) number_1 number_2 = Some (a1, a2, int m) \<and>
      pairs_of m a1 a2 = sorted_list_of_set (insert (number_1, number_2) (set (pairs_of n array_1 array_2))))"
proof -
  let ?ps = "pairs_of n array_1 array_2" and ?v = "(number_1, number_2)"
  let ?p = "place ?v ?ps"
  have n: "n \<le> length array_1" "n \<le> length array_2" using assms by simp_all
  have len: "length ?ps = n" using n by (simp add: length_pairs)
  have pl: "?p \<le> n" using place_le [of ?v ?ps] len by simp
  note g = get_index_2_place [OF assms(1,2) n(2) assms(4), of number_1 number_2]
  have search: "sorted_array_get_index_2 array_1 array_2 (int n) number_1 number_2 =
      Some (?v \<in> set ?ps, int (length (filter (\<lambda>q. q < ?v) ?ps)))"
    unfolding g by (simp add: place_filter strictly_sorted [OF assms(1)])
  have "\<exists>a1 a2 m. sorted_array_add_2 array_1 array_2 (int n) number_1 number_2 = Some (a1, a2, int m) \<and>
      pairs_of m a1 a2 = sorted_list_of_set (insert ?v (set ?ps))"
  proof (cases "?v \<in> set ?ps")
    case True
    have "sorted_list_of_set (insert ?v (set ?ps)) = ?ps"
      using True assms(1) by (simp add: insert_absorb sorted_list_of_set.idem_if_sorted_distinct strict_sorted_iff)
    with g True show ?thesis by (auto simp: sorted_array_add_2_def)
  next
    case False
    obtain ys1 where y1: "shift_up ?p n array_1 = Some ys1" "wr ys1 ?p number_1 = Some (ins_at ?p n number_1 array_1)"
      using shift_up_store [OF pl assms(2)] .
    obtain ys2 where y2: "shift_up ?p n array_2 = Some ys2" "wr ys2 ?p number_2 = Some (ins_at ?p n number_2 array_2)"
      using shift_up_store [OF pl assms(3)] .
    have "word_of_int (int n + 1) = (word_of_nat (Suc n) :: i32)" by simp
    moreover have "sint (word_of_nat (Suc n) :: i32) = int (Suc n)"
      using assms(4) sint_eq_unat32 [of "word_of_nat (Suc n)"] by (simp add: unat_of_nat32 del: of_nat_Suc)
    ultimately have "sint (word_of_int (int n + 1) :: i32) = int (Suc n)" by (simp only:)
    then have run: "sorted_array_add_2 array_1 array_2 (int n) number_1 number_2
      = Some (ins_at ?p n number_1 array_1, ins_at ?p n number_2 array_2, int (Suc n))"
      using g False y1 y2 by (simp add: sorted_array_add_2_def)
    have "pairs_of (Suc n) (ins_at ?p n number_1 array_1) (ins_at ?p n number_2 array_2)
      = take ?p ?ps @ ?v # drop ?p ?ps"
      by (rule pairs_ins_at [OF pl assms(2,3)])
    also have "\<dots> = sorted_list_of_set (insert ?v (set ?ps))" by (rule insert_at_place [OF assms(1) False])
    finally show ?thesis using run by blast
  qed
with search show ?thesis by blast
qed

definition sample_1 :: "u64 list" where "sample_1 = [1, 3, 3, 7, 0]"
definition sample_2 :: "u64 list" where "sample_2 = [9, 2, 5, 1, 0]"

lemma sample_pairs: "sorted_wrt (<) (pairs_of 4 sample_1 sample_2)"
  "pairs_of 4 sample_1 sample_2 = [(1, 9), (3, 2), (3, 5), (7, 1)]"
  by (simp_all add: pairs_of_def sample_1_def sample_2_def less_prod_def)

lemma sorted_array_add_2_inserts_witness:
  "\<exists>a1 a2 m. sorted_array_add_2 sample_1 sample_2 (int 4) 3 4 = Some (a1, a2, int m) \<and>
     pairs_of m a1 a2 = sorted_list_of_set {(1, 9), (3, 2), (3, 4), (3, 5), (7, 1)}"
proof -
  have "insert (3, 4) (set (pairs_of 4 sample_1 sample_2)) = {(1, 9), (3, 2), (3, 4), (3, 5), (7, 1)}"
    unfolding sample_pairs(2) by auto
  moreover have "4 < length sample_1" "4 < length sample_2" "(4 :: nat) \<le> 1073741824"
    by (simp_all add: sample_1_def sample_2_def)
  note sorted_array_add_2_inserts [OF sample_pairs(1) this, of 3 4]
  ultimately show ?thesis by (simp only:)
qed

text \<open>
  Where \<open>array_1\<close> is full and a pair belongs behind the last one, which has the same first number,
  \<open>sorted_array_get_index_2\<close> reads the element after the array: the loop reads before it tests the bound.
\<close>

theorem sorted_array_get_index_2_overreads:
  assumes "sorted_wrt (<) (pairs_of n array_1 array_2)" "length array_1 = n" "length array_2 = n" "n \<le> 1073741824"
    and "0 < n" "array_1 ! (n - 1) = number_1" "array_2 ! (n - 1) < number_2"
  shows "sorted_array_get_index_2 array_1 array_2 (int n) number_1 number_2 = None"
proof -
  let ?ps = "pairs_of n array_1 array_2"
  have s1: "sorted array_1" using sorted_firsts [of n array_1 array_2] assms by simp
  have len: "length ?ps = n" using assms by (simp add: length_pairs)
  have "number_1 \<in> set array_1" using assms(2,5,6) nth_mem [of "n - 1" array_1] by simp
  then have g: "sorted_array_get_index array_1 (int n) number_1 = Some (True, int (place number_1 array_1))"
    using get_index_place [of n array_1 number_1] s1 assms(2,4) by simp
  have "array_1 ! q = number_1 \<and> array_2 ! q < number_2" if q: "place number_1 array_1 \<le> q" "q < n" for q
  proof -
    have "\<not> array_1 ! q < number_1" using less_place_iff [OF s1, of q number_1] q assms(2) by simp
    moreover have "array_1 ! q \<le> array_1 ! (n - 1)" using sorted_nth_mono [OF s1, of q "n - 1"] q assms(2) by simp
    moreover have "?ps ! q \<le> ?ps ! (n - 1)"
      using sorted_nth_mono [OF strictly_sorted [OF assms(1)], of q "n - 1"] q len by simp
    ultimately show ?thesis using assms q by (auto simp: nth_pairs less_eq_prod_def)
  qed
  then have "pair_loop array_1 array_2 (int n) number_1 number_2 (int (place number_1 array_1)) = None"
    using place_le [of number_1 array_1] assms(2,3) by (intro pair_loop_runs_off) auto
  with g show ?thesis by (simp add: sorted_array_get_index_2_def)
qed

lemma sorted_array_get_index_2_overreads_witness:
  "sorted_array_get_index_2 [1, 3 :: u64] [9, 2 :: u64] (int 2) 3 4 = None"
proof -
  have "sorted_wrt (<) (pairs_of 2 [1, 3 :: u64] [9, 2 :: u64])" by (simp add: pairs_of_def less_prod_def)
  from sorted_array_get_index_2_overreads [OF this, of 3 4] show ?thesis by simp
qed

text \<open>
  For strictly sorted arrays \<open>sorted_array_partial_compare\<close> decides whether the first is contained in
  the second: the early answers by length and the byte comparison agree with the search of every element.
\<close>

theorem sorted_array_partial_compare_subset:
  assumes "\<And>n. ltob n = 8 * n"
    and "sorted_wrt (<) (take n1 array1)" "sorted_wrt (<) (take n2 array2)"
    and "n1 \<le> length array1" "n2 \<le> length array2"
  shows "sorted_array_partial_compare ltob array1 (int n1) array2 (int n2) =
    Some (set (take n1 array1) \<subseteq> set (take n2 array2))"
proof -
  let ?xs = "take n1 array1" and ?ys = "take n2 array2"
  have card: "card (set ?xs) = n1" "card (set ?ys) = n2"
    using assms(4,5) by (simp_all add: strictly_sorted_card [OF assms(2)] strictly_sorted_card [OF assms(3)])
  consider "n2 < n1" | (eq) "n1 = n2" | (lt) "n1 < n2" by fastforce
  then show ?thesis
  proof cases
    case 1
    then have "\<not> set ?xs \<subseteq> set ?ys" using card card_mono [of "set ?ys" "set ?xs"] by auto
    with 1 show ?thesis by (simp add: sorted_array_partial_compare_def)
  next
    case eq
    have "set ?xs \<subseteq> set ?ys \<longleftrightarrow> ?xs = ?ys"
    proof
      assume "set ?xs \<subseteq> set ?ys"
      then have "set ?xs = set ?ys" using card eq by (intro card_subset_eq) simp_all
      then show "?xs = ?ys" using assms(2,3) by (intro strict_sorted_equal)
    qed simp
    moreover have "bcmp array1 array2 (ltob (int n1)) = Some (?xs \<noteq> ?ys)"
    proof -
      have "nat (8 * int n1) = 8 * n1" by simp
      then show ?thesis using rd_memory [OF assms(4)] rd_memory [OF assms(5)] eq assms(4,5)
        by (simp add: bcmp_def assms(1) memory_of_inj)
    qed
    ultimately show ?thesis using eq by (simp add: sorted_array_partial_compare_def)
  next
    case lt
    then show ?thesis using outer_loop_subset [OF assms(4,5), of 0] by (simp add: sorted_array_partial_compare_def)
  qed
qed

lemma sorted_array_partial_compare_subset_witness:
  "sorted_array_partial_compare (\<lambda>n. 8 * n) [2, 5 :: u64] (int 2) [1, 2, 5 :: u64] (int 3) = Some True"
  using sorted_array_partial_compare_subset [of "\<lambda>n. 8 * n" 2 "[2, 5 :: u64]" 3 "[1, 2, 5 :: u64]"] by simp

end
