(* ===== verification/Multimer.thy ===== *)
theory Multimer
  imports Prelude
begin

text \<open>
  \<open>src/multimer.c\<close>: many interval timers on one timeout.  The timer queue elements (TQEs) are cells
  of a store; the queue of active timers and the list of free TQEs, linked through \<open>link\<close> in the code, are
  lists of cell addresses.  \<open>None\<close> is a failed \<open>assert\<close> or an access to no cell.  The fields of a
  \<open>timeval\<close> are of type \<open>long\<close>: their sums wrap, and the properties say in which range they do not.
  The clock readings of \<open>gettimeofday\<close>, the address that \<open>malloc\<close> gives and the event handlers are arguments.
\<close>

section \<open>State\<close>

record timeval =
  tv_sec :: i64
  tv_usec :: i64

record TQE =
  expires :: timeval
  interval :: timeval
  func :: nat
  client :: nat

record timers =
  timerQ :: "nat list"
  freeTQEQ :: "nat list"
  tqes :: "nat \<rightharpoonup> TQE"

definition timeradd :: "timeval \<Rightarrow> timeval \<Rightarrow> timeval" where
  "timeradd a b =
     (let us = tv_usec a + tv_usec b
      in if 1000000 \<le> sint us then \<lparr>tv_sec = tv_sec a + tv_sec b + 1, tv_usec = us - 1000000\<rparr>
         else \<lparr>tv_sec = tv_sec a + tv_sec b, tv_usec = us\<rparr>)"

definition timerless :: "timeval \<Rightarrow> timeval \<Rightarrow> bool" where
  "timerless a b \<longleftrightarrow>
     sint (tv_sec a) < sint (tv_sec b) \<or> (tv_sec a = tv_sec b \<and> sint (tv_usec a) < sint (tv_usec b))"

text \<open>The assertions over the queue.\<close>

fun check_loop :: "(nat \<rightharpoonup> TQE) \<Rightarrow> nat list \<Rightarrow> unit option" where
  "check_loop es [] = Some ()"
| "check_loop es (np # nps) = do {
     e \<leftarrow> es np;
     if sint (tv_usec (expires e)) < 1000000 \<and> sint (tv_usec (interval e)) < 1000000 then check_loop es nps else None }"

definition timer_check :: "timers \<Rightarrow> unit option" where
  "timer_check s = check_loop (tqes s) (timerQ s)"

section \<open>Setting a timer\<close>

text \<open>The scan for a client's timer: the element found, and the queue without it.\<close>

fun find_client :: "(nat \<rightharpoonup> TQE) \<Rightarrow> nat \<Rightarrow> nat list \<Rightarrow> (nat option \<times> nat list) option" where
  "find_client es c [] = Some (None, [])"
| "find_client es c (np # nps) = do {
     e \<leftarrow> es np;
     if client e = c then Some (Some np, nps)
     else do { (r, nps) \<leftarrow> find_client es c nps; Some (r, np # nps) } }"

text \<open>The insertion in time order, behind timers of the same time.\<close>

fun insert_tqe :: "(nat \<rightharpoonup> TQE) \<Rightarrow> timeval \<Rightarrow> nat \<Rightarrow> nat list \<Rightarrow> nat list option" where
  "insert_tqe es t tp [] = Some [tp]"
| "insert_tqe es t tp (np # nps) = do {
     e \<leftarrow> es np;
     if timerless t (expires e) then Some (tp # np # nps)
     else do { nps \<leftarrow> insert_tqe es t tp nps; Some (np # nps) } }"

text \<open>\<open>malloc\<close> of a TQE when the free list is empty; only its \<open>interval\<close> is set.\<close>

definition get_tqe :: "nat option \<Rightarrow> timers \<Rightarrow> (nat \<times> timers) option" where
  "get_tqe new s =
     (case freeTQEQ s of
        tp # free \<Rightarrow> Some (tp, s\<lparr>freeTQEQ := free\<rparr>)
      | [] \<Rightarrow> do {
          tp \<leftarrow> new;
          Some (tp, s\<lparr>tqes := (tqes s)(tp \<mapsto>
            \<lparr>expires = \<lparr>tv_sec = 0, tv_usec = 0\<rparr>, interval = \<lparr>tv_sec = 0, tv_usec = 0\<rparr>, func = 0, client = 0\<rparr>)\<rparr>) })"

definition timer_set ::
  "timeval \<Rightarrow> nat option \<Rightarrow> timeval option \<Rightarrow> nat \<Rightarrow> nat \<Rightarrow> bool \<Rightarrow> timers \<Rightarrow> (nat option \<times> timers) option" where
  "timer_set now new iv f c relative s = do {
     (np, q) \<leftarrow> find_client (tqes s) c (timerQ s);
     let s = s\<lparr>timerQ := q\<rparr>;
     case iv of
       None \<Rightarrow>
         (case np of
            None \<Rightarrow> Some (None, s)
          | Some np \<Rightarrow> Some (None, s\<lparr>freeTQEQ := np # freeTQEQ s\<rparr>))
     | Some iv \<Rightarrow> do {
         (tp, s) \<leftarrow> (case np of Some np \<Rightarrow> Some (np, s) | None \<Rightarrow> get_tqe new s);
         let t = (if relative then timeradd now iv else iv);
         if relative \<and> 1000000 \<le> sint (tv_usec t) then None
         else do {
           e \<leftarrow> tqes s tp;
           let es = (tqes s)(tp \<mapsto> e\<lparr>expires := t, func := f, client := c\<rparr>);
           q \<leftarrow> insert_tqe es t tp (timerQ s);
           let s = s\<lparr>timerQ := q, tqes := es\<rparr>;
           timer_check s;
           Some (Some tp, s) } } }"

section \<open>Running the expired timers\<close>

text \<open>The time left.\<close>

definition timeout_until :: "timeval \<Rightarrow> timeval \<Rightarrow> timeval" where
  "timeout_until now t =
     (let us = tv_usec t - tv_usec now
      in if sint us < 0 then \<lparr>tv_sec = tv_sec t - tv_sec now - 1, tv_usec = us + 1000000\<rparr>
         else \<lparr>tv_sec = tv_sec t - tv_sec now, tv_usec = us\<rparr>)"

text \<open>The head of the queue has expired: free it, and restart it when it has an interval.\<close>

definition expire_head :: "nat \<Rightarrow> nat list \<Rightarrow> timers \<Rightarrow> (TQE \<times> timers) option" where
  "expire_head tp rest s = do {
     e \<leftarrow> tqes s tp;
     let s = s\<lparr>timerQ := rest, freeTQEQ := tp # freeTQEQ s\<rparr>;
     if tv_sec (interval e) \<noteq> 0 \<or> tv_usec (interval e) \<noteq> 0 then do {
       let t = timeradd (interval e) (expires e);
       let s = s\<lparr>tqes := (tqes s)(tp \<mapsto> e\<lparr>expires := t\<rparr>)\<rparr>;
       (r, s) \<leftarrow> timer_set t None (Some t) (func e) (client e) False s;
       Some (e, s) }
     else Some (e, s) }"

text \<open>
  The loop of \<open>timer_get\<close>, one clock reading per round.  A handler may change the world \<open>w\<close> and the timers.
  The result: the timeout (\<open>None\<close> for \<open>NULL\<close>), the unused readings, the world and the timers.
\<close>

fun get_loop ::
  "(nat \<Rightarrow> nat \<Rightarrow> 'w \<times> timers \<Rightarrow> ('w \<times> timers) option) \<Rightarrow> timeval list \<Rightarrow> 'w \<Rightarrow> timers \<Rightarrow>
   (timeval option \<times> timeval list \<times> 'w \<times> timers) option" where
  "get_loop handler nows w s =
     (case timerQ s of
        [] \<Rightarrow> Some (None, nows, w, s)
      | tp # rest \<Rightarrow>
          (case nows of
             [] \<Rightarrow> None
           | now # nows \<Rightarrow> do {
               e \<leftarrow> tqes s tp;
               if timerless now (expires e) then
                 (let timeout = timeout_until now (expires e)
                  in if sint (tv_usec timeout) < 1000000 then Some (Some timeout, nows, w, s) else None)
               else do {
                 (e, s) \<leftarrow> expire_head tp rest s;
                 (w, s) \<leftarrow> handler (func e) (client e) (w, s);
                 get_loop handler nows w s } }))"

declare get_loop.simps [simp del]

definition timer_get ::
  "(nat \<Rightarrow> nat \<Rightarrow> 'w \<times> timers \<Rightarrow> ('w \<times> timers) option) \<Rightarrow> timeval list \<Rightarrow> 'w \<Rightarrow> timers \<Rightarrow>
   (timeval option \<times> timeval list \<times> 'w \<times> timers) option" where
  "timer_get handler nows w s = do { timer_check s; get_loop handler nows w s }"

definition timer_pending :: "timers \<Rightarrow> bool" where
  "timer_pending s \<longleftrightarrow> timerQ s \<noteq> []"

section \<open>Times as microseconds\<close>

definition tv_ok :: "timeval \<Rightarrow> bool" where
  "tv_ok t \<longleftrightarrow> 0 \<le> sint (tv_usec t) \<and> sint (tv_usec t) < 1000000"

definition us :: "timeval \<Rightarrow> int" where
  "us t = sint (tv_sec t) * 1000000 + sint (tv_usec t)"

text \<open>A reading of the clock: not before 1970, and far from the end of \<open>long\<close>.\<close>

definition clock_ok :: "timeval \<Rightarrow> bool" where
  "clock_ok t \<longleftrightarrow> tv_ok t \<and> 0 \<le> sint (tv_sec t) \<and> sint (tv_sec t) < 4611686018427387904"

lemma timeradd_us:
  assumes "tv_ok a" "tv_ok b"
    and r: "- 9223372036854775808 \<le> sint (tv_sec a) + sint (tv_sec b)" "sint (tv_sec a) + sint (tv_sec b) < 9223372036854775807"
  shows "tv_ok (timeradd a b) \<and> us (timeradd a b) = us a + us b"
proof -
  have u: "sint (tv_usec a + tv_usec b) = sint (tv_usec a) + sint (tv_usec b)"
    using assms by (intro sint_add64) (auto simp: tv_ok_def)
  have s: "sint (tv_sec a + tv_sec b) = sint (tv_sec a) + sint (tv_sec b)" using r by (intro sint_add64) auto
  have s1: "sint (tv_sec a + tv_sec b + 1) = sint (tv_sec a) + sint (tv_sec b) + 1"
    using r by (subst sint_add64) (auto simp: s)
  have u1: "sint (tv_usec a + tv_usec b - 1000000) = sint (tv_usec a) + sint (tv_usec b) - 1000000"
    if "1000000 \<le> sint (tv_usec a) + sint (tv_usec b)"
    using that assms by (subst sint_sub64) (auto simp: u tv_ok_def)
  show ?thesis
  proof (cases "1000000 \<le> sint (tv_usec a) + sint (tv_usec b)")
    case True
    then show ?thesis using assms u s1 u1 [OF True] by (simp add: timeradd_def tv_ok_def us_def Let_def)
  next
    case False
    then show ?thesis using assms u s by (simp add: timeradd_def tv_ok_def us_def Let_def)
  qed
qed

lemma timerless_us: "tv_ok a \<Longrightarrow> tv_ok b \<Longrightarrow> timerless a b \<longleftrightarrow> us a < us b"
  unfolding timerless_def tv_ok_def us_def word_eq_iff_signed [where ?'a = int] by linarith

lemma timeout_until_us:
  assumes "clock_ok now" "tv_ok t" "us now < us t"
  shows "tv_ok (timeout_until now t) \<and> us (timeout_until now t) = us t - us now"
proof -
  have n: "tv_ok now" "0 \<le> sint (tv_sec now)" using assms(1) by (simp_all add: clock_ok_def)
  have le: "sint (tv_sec now) \<le> sint (tv_sec t)" using assms n by (simp add: us_def tv_ok_def)
  have lt: "sint (tv_sec now) < sint (tv_sec t)" if "sint (tv_usec t) - sint (tv_usec now) < 0"
    using assms that by (simp add: us_def)
  have u: "sint (tv_usec t - tv_usec now) = sint (tv_usec t) - sint (tv_usec now)"
    using assms(2) n by (intro sint_sub64) (auto simp: tv_ok_def)
  have s: "sint (tv_sec t - tv_sec now) = sint (tv_sec t) - sint (tv_sec now)"
    using le n sint_range64 [of "tv_sec t"] by (intro sint_sub64) auto
  show ?thesis
  proof (cases "sint (tv_usec t) - sint (tv_usec now) < 0")
    case True
    have "sint (tv_sec t - tv_sec now - 1) = sint (tv_sec t) - sint (tv_sec now) - 1"
      using lt [OF True] n(2) sint_range64 [of "tv_sec t"] by (subst sint_sub64) (auto simp: s)
    moreover have "sint (tv_usec t - tv_usec now + 1000000) = sint (tv_usec t) - sint (tv_usec now) + 1000000"
      using True assms(2) n(1) by (subst sint_add64) (auto simp: u tv_ok_def)
    ultimately show ?thesis using True assms(2) n(1) u by (simp add: timeout_until_def tv_ok_def us_def Let_def)
  next
    case False
    then show ?thesis using assms(2) n(1) u s by (simp add: timeout_until_def tv_ok_def us_def Let_def)
  qed
qed

lemma us_zero: "tv_ok t \<Longrightarrow> us t = 0 \<longleftrightarrow> tv_sec t = 0 \<and> tv_usec t = 0"
  unfolding us_def tv_ok_def word_eq_iff_signed [where ?'a = int]
  by (cases "sint (tv_sec t)" "0 :: int" rule: linorder_cases) auto

section \<open>Well-formed timers and what is pending\<close>

text \<open>The abstract state: the pending alarms, in the order of the queue.\<close>

record alarm =
  due :: int
  period :: int
  act :: nat
  owner :: nat

definition alarm_of :: "TQE \<Rightarrow> alarm" where
  "alarm_of e = \<lparr>due = us (expires e), period = us (interval e), act = func e, owner = client e\<rparr>"

definition cell :: "(nat \<rightharpoonup> TQE) \<Rightarrow> nat \<Rightarrow> TQE" where
  "cell es tp = the (es tp)"

definition alarms :: "(nat \<rightharpoonup> TQE) \<Rightarrow> nat list \<Rightarrow> alarm list" where
  "alarms es q = map (\<lambda>tp. alarm_of (cell es tp)) q"

definition pending :: "timers \<Rightarrow> alarm list" where
  "pending s = alarms (tqes s) (timerQ s)"

definition active :: "(nat \<rightharpoonup> TQE) \<Rightarrow> nat \<Rightarrow> bool" where
  "active es tp \<longleftrightarrow> es tp \<noteq> None \<and> tv_ok (expires (cell es tp)) \<and> tv_ok (interval (cell es tp))"

definition spare :: "(nat \<rightharpoonup> TQE) \<Rightarrow> nat \<Rightarrow> bool" where
  "spare es tp \<longleftrightarrow> es tp \<noteq> None \<and> tv_ok (interval (cell es tp))"

definition timers_wf :: "timers \<Rightarrow> bool" where
  "timers_wf s \<longleftrightarrow> distinct (timerQ s @ freeTQEQ s) \<and>
     (\<forall>tp \<in> set (timerQ s). active (tqes s) tp) \<and> (\<forall>tp \<in> set (freeTQEQ s). spare (tqes s) tp) \<and>
     sorted (map due (pending s)) \<and> distinct (map owner (pending s))"

text \<open>The abstract insertion: behind the alarms that are not later.\<close>

fun insert_alarm :: "alarm \<Rightarrow> alarm list \<Rightarrow> alarm list" where
  "insert_alarm x [] = [x]"
| "insert_alarm x (y # ys) = (if due x < due y then x # y # ys else y # insert_alarm x ys)"

lemma set_insert_alarm: "set (insert_alarm x ys) = insert x (set ys)"
  by (induction ys) auto

lemma sorted_insert_alarm: "sorted (map due ys) \<Longrightarrow> sorted (map due (insert_alarm x ys))"
  by (induction ys) (auto simp: set_insert_alarm)

lemma distinct_insert_alarm:
  "distinct (map owner ys) \<Longrightarrow> owner x \<notin> owner ` set ys \<Longrightarrow> distinct (map owner (insert_alarm x ys))"
  by (induction ys) (auto simp: set_insert_alarm)

lemma sum_insert_alarm: "sum_list (map f (insert_alarm x ys)) = f x + (sum_list (map f ys) :: nat)"
  by (induction ys) auto

section \<open>The loops over the queue\<close>

lemma cell_Some: "es tp = Some e \<Longrightarrow> cell es tp = e"
  by (simp add: cell_def)

lemma active_Some: "active es tp \<Longrightarrow> es tp = Some (cell es tp)"
  by (auto simp: active_def cell_def)

lemma check_loop_active: "\<forall>tp \<in> set q. active es tp \<Longrightarrow> check_loop es q = Some ()"
proof (induction q)
  case (Cons np q)
  then have "active es np" by simp
  then show ?case using Cons active_Some [of es np] by (simp add: active_def tv_ok_def)
qed simp

lemma find_client_spec:
  "\<forall>tp \<in> set q. active es tp \<Longrightarrow> distinct (map owner (alarms es q)) \<Longrightarrow>
   find_client es c q = Some (find (\<lambda>tp. client (cell es tp) = c) q, filter (\<lambda>tp. client (cell es tp) \<noteq> c) q)"
proof (induction q)
  case (Cons np q)
  have np: "es np = Some (cell es np)" using Cons.prems(1) active_Some by simp
  show ?case
  proof (cases "client (cell es np) = c")
    case True
    have "\<forall>tp \<in> set q. client (cell es tp) \<noteq> c"
      using Cons.prems(2) True by (auto simp: alarms_def alarm_of_def image_iff)
    then have "filter (\<lambda>tp. client (cell es tp) \<noteq> c) q = q" by (simp add: filter_id_conv)
    then show ?thesis using np True by simp
  next
    case False
    have "find_client es c q = Some (find (\<lambda>tp. client (cell es tp) = c) q, filter (\<lambda>tp. client (cell es tp) \<noteq> c) q)"
      using Cons.prems by (intro Cons.IH) (simp_all add: alarms_def)
    then show ?thesis using np False by simp
  qed
qed simp

lemma insert_tqe_spec:
  "\<forall>np \<in> set q. active es np \<Longrightarrow> active es tp \<Longrightarrow> tp \<notin> set q \<Longrightarrow> expires (cell es tp) = t \<Longrightarrow>
   \<exists>q'. insert_tqe es t tp q = Some q' \<and> set q' = insert tp (set q) \<and> (distinct q \<longrightarrow> distinct q') \<and>
     alarms es q' = insert_alarm (alarm_of (cell es tp)) (alarms es q)"
proof (induction q)
  case (Cons np q)
  have np: "es np = Some (cell es np)" "tv_ok (expires (cell es np))" using Cons.prems(1) active_Some
    by (auto simp: active_def)
  have t: "tv_ok t" using Cons.prems by (simp add: active_def)
  obtain q' where q': "insert_tqe es t tp q = Some q'" "set q' = insert tp (set q)" "distinct q \<longrightarrow> distinct q'"
    "alarms es q' = insert_alarm (alarm_of (cell es tp)) (alarms es q)"
    using Cons.IH Cons.prems by auto
  show ?case
  proof (cases "timerless t (expires (cell es np))")
    case True
    then have "us t < us (expires (cell es np))" using timerless_us t np(2) by blast
    then show ?thesis using np(1) True Cons.prems by (auto simp: alarms_def alarm_of_def)
  next
    case False
    then have "\<not> us t < us (expires (cell es np))" using timerless_us t np(2) by blast
    then show ?thesis using np(1) False q' Cons.prems by (auto simp: alarms_def alarm_of_def)
  qed
qed (simp add: alarms_def)

lemma alarms_cong: "\<forall>tp \<in> set q. es' tp = es tp \<Longrightarrow> alarms es' q = alarms es q"
  by (simp add: alarms_def cell_def)

lemma active_cong: "es' tp = es tp \<Longrightarrow> active es' tp = active es tp \<and> spare es' tp = spare es tp"
  by (simp add: active_def spare_def cell_def)


section \<open>Setting and cancelling\<close>

lemma place_alarm:
  assumes wf: "timers_wf s" and tp: "tp \<notin> set (timerQ s)" "tp \<notin> set (freeTQEQ s)" "tqes s tp = Some e" "tv_ok (interval e)"
    and t: "tv_ok t" and c: "c \<notin> owner ` set (pending s)"
    and es: "es = (tqes s)(tp \<mapsto> e\<lparr>expires := t, func := f, client := c\<rparr>)"
  shows "\<exists>q. insert_tqe es t tp (timerQ s) = Some q \<and> timers_wf (s\<lparr>timerQ := q, tqes := es\<rparr>) \<and>
    tp \<in> set q \<and> timer_check (s\<lparr>timerQ := q, tqes := es\<rparr>) = Some () \<and>
    pending (s\<lparr>timerQ := q, tqes := es\<rparr>) =
      insert_alarm \<lparr>due = us t, period = us (interval e), act = f, owner = c\<rparr> (pending s)"
proof -
  have same: "es a = tqes s a" if "a \<noteq> tp" for a using that es by simp
  have act: "active es a" if "a \<in> set (timerQ s)" for a
    using that wf tp(1) same [of a] active_cong [of es a "tqes s"] by (auto simp: timers_wf_def)
  have spr: "spare es a" if "a \<in> set (freeTQEQ s)" for a
    using that wf tp(2) same [of a] active_cong [of es a "tqes s"] by (auto simp: timers_wf_def)
  have tpc: "cell es tp = e\<lparr>expires := t, func := f, client := c\<rparr>" by (simp add: es cell_def)
  have tpa: "active es tp" using tp(4) t unfolding active_def tpc by (simp add: es)
  have al: "alarm_of (cell es tp) = \<lparr>due = us t, period = us (interval e), act = f, owner = c\<rparr>"
    unfolding tpc by (simp add: alarm_of_def)
  have old: "alarms es (timerQ s) = pending s"
    unfolding pending_def using same tp(1) by (intro alarms_cong) metis
  have "expires (cell es tp) = t" unfolding tpc by simp
  from insert_tqe_spec [OF _ tpa tp(1) this] act obtain q where
    q: "insert_tqe es t tp (timerQ s) = Some q" "set q = insert tp (set (timerQ s))" "distinct (timerQ s) \<longrightarrow> distinct q"
      "alarms es q = insert_alarm (alarm_of (cell es tp)) (pending s)" unfolding old by blast
  let ?s = "s\<lparr>timerQ := q, tqes := es\<rparr>"
  have p: "pending ?s = insert_alarm \<lparr>due = us t, period = us (interval e), act = f, owner = c\<rparr> (pending s)"
    using q(4) unfolding al by (simp add: pending_def)
  have aq: "\<forall>a \<in> set q. active es a" using act tpa q(2) by auto
  have "timers_wf ?s" unfolding timers_wf_def p
    using wf q(2,3) tp(2) aq spr sorted_insert_alarm distinct_insert_alarm c
    by (auto simp: timers_wf_def)
  moreover have "timer_check ?s = Some ()" using check_loop_active [OF aq] by (simp add: timer_check_def)
  ultimately show ?thesis using q(1,2) p by auto
qed

lemma without_client:
  assumes wf: "timers_wf s" and q_def: "q = filter (\<lambda>tp. client (cell (tqes s) tp) \<noteq> c) (timerQ s)"
  shows "timers_wf (s\<lparr>timerQ := q\<rparr>)"
    and "pending (s\<lparr>timerQ := q\<rparr>) = filter (\<lambda>a. owner a \<noteq> c) (pending s)"
proof -
  show p: "pending (s\<lparr>timerQ := q\<rparr>) = filter (\<lambda>a. owner a \<noteq> c) (pending s)"
    by (simp add: pending_def alarms_def q_def filter_map comp_def alarm_of_def)
  have "sorted (map due (filter (\<lambda>a. owner a \<noteq> c) (pending s)))" "distinct (map owner (filter (\<lambda>a. owner a \<noteq> c) (pending s)))"
    using wf by (simp_all add: timers_wf_def sorted_filter distinct_map_filter)
  then show "timers_wf (s\<lparr>timerQ := q\<rparr>)" unfolding timers_wf_def p
    using wf by (auto simp: timers_wf_def q_def)
qed

definition room :: "nat option \<Rightarrow> timers \<Rightarrow> bool" where
  "room new s \<longleftrightarrow> freeTQEQ s \<noteq> [] \<or> (\<exists>n. new = Some n \<and> tqes s n = None)"

lemma get_tqe_spec:
  assumes wf: "timers_wf s" and rm: "room new s"
  shows "\<exists>tp s' e. get_tqe new s = Some (tp, s') \<and> timers_wf s' \<and> pending s' = pending s \<and> timerQ s' = timerQ s \<and>
    tp \<notin> set (timerQ s') \<and> tp \<notin> set (freeTQEQ s') \<and> tqes s' tp = Some e \<and> tv_ok (interval e) \<and>
    us (interval e) = (case tqes s tp of None \<Rightarrow> 0 | Some e0 \<Rightarrow> us (interval e0))"
proof (cases "freeTQEQ s")
  case Nil
  then obtain n where n: "new = Some n" "tqes s n = None" using rm by (auto simp: room_def)
  let ?e = "\<lparr>expires = \<lparr>tv_sec = 0, tv_usec = 0\<rparr>, interval = \<lparr>tv_sec = 0, tv_usec = 0\<rparr>, func = 0, client = 0\<rparr>"
  let ?s = "s\<lparr>tqes := (tqes s)(n \<mapsto> ?e)\<rparr>"
  have nq: "n \<notin> set (timerQ s)" using wf n(2) by (auto simp: timers_wf_def active_def)
  have same: "tqes ?s a = tqes s a" if "a \<in> set (timerQ s)" for a using that nq by auto
  then have p: "pending ?s = pending s" unfolding pending_def by (simp add: alarms_cong)
  have "active (tqes ?s) a" if "a \<in> set (timerQ s)" for a
    using that wf same [OF that] active_cong [of "tqes ?s" a "tqes s"] by (auto simp: timers_wf_def)
  then have "timers_wf ?s" unfolding timers_wf_def p using wf Nil by (auto simp: timers_wf_def)
  with p n nq Nil show ?thesis by (simp add: get_tqe_def tv_ok_def us_def)
next
  case (Cons tp free)
  have "spare (tqes s) tp" using wf Cons by (simp add: timers_wf_def)
  then obtain e where e: "tqes s tp = Some e" "tv_ok (interval e)" by (auto simp: spare_def cell_def)
  have "timers_wf (s\<lparr>freeTQEQ := free\<rparr>)" using wf Cons by (auto simp: timers_wf_def pending_def)
  moreover have "tp \<notin> set (timerQ s)" "tp \<notin> set free" using wf Cons by (auto simp: timers_wf_def)
  ultimately show ?thesis using Cons e by (simp add: get_tqe_def pending_def)
qed


lemma find_client_some:
  assumes wf: "timers_wf s" and f: "find (\<lambda>tp. client (cell (tqes s) tp) = c) (timerQ s) = Some np"
    and q: "q = filter (\<lambda>tp. client (cell (tqes s) tp) \<noteq> c) (timerQ s)"
  shows "np \<notin> set q" "np \<notin> set (freeTQEQ s)" "\<exists>e. tqes s np = Some e \<and> tv_ok (interval e)"
proof -
  have np: "np \<in> set (timerQ s)" "client (cell (tqes s) np) = c" using f by (auto simp: find_Some_iff)
  then show "np \<notin> set q" using q by simp
  show "np \<notin> set (freeTQEQ s)" using wf np(1) by (auto simp: timers_wf_def)
  show "\<exists>e. tqes s np = Some e \<and> tv_ok (interval e)"
    using wf np(1) active_Some [of "tqes s" np] by (auto simp: timers_wf_def active_def)
qed

lemma timer_set_cancels:
  assumes wf: "timers_wf s"
  shows "\<exists>s'. timer_set now new None f c relative s = Some (None, s') \<and> timers_wf s' \<and>
    pending s' = filter (\<lambda>a. owner a \<noteq> c) (pending s)"
proof -
  let ?q = "filter (\<lambda>tp. client (cell (tqes s) tp) \<noteq> c) (timerQ s)"
  have act: "\<forall>tp \<in> set (timerQ s). active (tqes s) tp" "distinct (map owner (alarms (tqes s) (timerQ s)))"
    using wf by (auto simp: timers_wf_def pending_def)
  note fc = find_client_spec [OF act, of c] and wc = without_client [OF wf refl, of c]
  show ?thesis
  proof (cases "find (\<lambda>tp. client (cell (tqes s) tp) = c) (timerQ s)")
    case None
    then show ?thesis using fc wc by (simp add: timer_set_def)
  next
    case (Some np)
    note np = find_client_some [OF wf Some refl]
    let ?s = "s\<lparr>timerQ := ?q, freeTQEQ := np # freeTQEQ s\<rparr>"
    have p: "pending ?s = pending (s\<lparr>timerQ := ?q\<rparr>)" by (simp add: pending_def)
    have "spare (tqes s) np" using np(3) by (auto simp: spare_def cell_def)
    then have "timers_wf ?s" using wc(1) np(1,2) unfolding timers_wf_def p by auto
    then show ?thesis using fc wc(2) p Some by (simp add: timer_set_def)
  qed
qed

lemma timer_set_inserts:
  assumes wf: "timers_wf s" and t: "t = (if relative then timeradd now iv else iv)" "tv_ok t" and rm: "room new s"
  shows "\<exists>tp s'. timer_set now new (Some iv) f c relative s = Some (Some tp, s') \<and> timers_wf s' \<and>
    tp \<in> set (timerQ s') \<and> pending s' = insert_alarm
      \<lparr>due = us t, period = (case tqes s tp of None \<Rightarrow> 0 | Some e \<Rightarrow> us (interval e)), act = f, owner = c\<rparr>
      (filter (\<lambda>a. owner a \<noteq> c) (pending s))"
proof -
  let ?q = "filter (\<lambda>tp. client (cell (tqes s) tp) \<noteq> c) (timerQ s)"
  let ?s = "s\<lparr>timerQ := ?q\<rparr>"
  have act: "\<forall>tp \<in> set (timerQ s). active (tqes s) tp" "distinct (map owner (alarms (tqes s) (timerQ s)))"
    using wf by (auto simp: timers_wf_def pending_def)
  note fc = find_client_spec [OF act, of c] and wc = without_client [OF wf refl, of c]
  let ?np = "find (\<lambda>tp. client (cell (tqes s) tp) = c) (timerQ s)"
  have "\<exists>tp s1 e. (case ?np of Some np \<Rightarrow> Some (np, ?s) | None \<Rightarrow> get_tqe new ?s) = Some (tp, s1) \<and>
    timers_wf s1 \<and> pending s1 = pending ?s \<and> tp \<notin> set (timerQ s1) \<and> tp \<notin> set (freeTQEQ s1) \<and>
    tqes s1 tp = Some e \<and> tv_ok (interval e) \<and> us (interval e) = (case tqes s tp of None \<Rightarrow> 0 | Some e \<Rightarrow> us (interval e))"
  proof (cases ?np)
    case None
    have "room new ?s" using rm by (simp add: room_def)
    from get_tqe_spec [OF wc(1) this] None show ?thesis by auto
  next
    case (Some np)
    from find_client_some [OF wf Some refl] wc(1) Some show ?thesis by auto
  qed
  then obtain tp s1 e where s1: "(case ?np of Some np \<Rightarrow> Some (np, ?s) | None \<Rightarrow> get_tqe new ?s) = Some (tp, s1)"
    "timers_wf s1" "pending s1 = pending ?s" "tp \<notin> set (timerQ s1)" "tp \<notin> set (freeTQEQ s1)" "tqes s1 tp = Some e"
    "tv_ok (interval e)" "us (interval e) = (case tqes s tp of None \<Rightarrow> 0 | Some e \<Rightarrow> us (interval e))" by blast
  have "c \<notin> owner ` set (pending s1)" using s1(3) wc(2) by auto
  from place_alarm [OF s1(2,4,5,6,7) t(2) this refl, of f] obtain q where
    q: "insert_tqe ((tqes s1)(tp \<mapsto> e\<lparr>expires := t, func := f, client := c\<rparr>)) t tp (timerQ s1) = Some q"
      "timers_wf (s1\<lparr>timerQ := q, tqes := (tqes s1)(tp \<mapsto> e\<lparr>expires := t, func := f, client := c\<rparr>)\<rparr>)" "tp \<in> set q"
      "timer_check (s1\<lparr>timerQ := q, tqes := (tqes s1)(tp \<mapsto> e\<lparr>expires := t, func := f, client := c\<rparr>)\<rparr>) = Some ()"
      "pending (s1\<lparr>timerQ := q, tqes := (tqes s1)(tp \<mapsto> e\<lparr>expires := t, func := f, client := c\<rparr>)\<rparr>) =
        insert_alarm \<lparr>due = us t, period = us (interval e), act = f, owner = c\<rparr> (pending s1)" by blast
  have "sint (tv_usec t) < 1000000" using t(2) by (simp add: tv_ok_def)
  then have "timer_set now new (Some iv) f c relative s =
      Some (Some tp, s1\<lparr>timerQ := q, tqes := (tqes s1)(tp \<mapsto> e\<lparr>expires := t, func := f, client := c\<rparr>)\<rparr>)"
    using fc s1(1,6) q(1,4) by (simp add: timer_set_def t(1) [symmetric] del: fun_upd_apply)
  with q(2,3,5) s1(3,8) wc(2) show ?thesis by (simp del: fun_upd_apply)
qed


lemma timer_set_from_free:
  assumes "find_client (tqes s) c (timerQ s) = Some (None, q)" "freeTQEQ s = tp # free"
    and "timer_set now new (Some iv) f c relative s = Some (r, s')"
  shows "r = Some tp"
  using assms
  by (auto simp: timer_set_def get_tqe_def bind_Some_iff Let_def simp del: fun_upd_apply split: if_splits)

section \<open>Running\<close>

text \<open>What is pending after the head has expired.\<close>

definition restarted :: "alarm \<Rightarrow> alarm list \<Rightarrow> alarm list" where
  "restarted a as = (if period a = 0 then as else insert_alarm (a\<lparr>due := due a + period a\<rparr>) as)"

text \<open>The periods whose sums with a clock reading are in the range of \<open>long\<close>: less than \<open>2 ^ 62\<close> seconds.\<close>

definition period_ok :: "alarm \<Rightarrow> bool" where
  "period_ok a \<longleftrightarrow> 0 \<le> period a \<and> period a < 4611686018427387904 * 1000000"

lemma restart_us:
  assumes "tv_ok (expires e)" "tv_ok (interval e)" "clock_ok now" "us (expires e) \<le> us now" "period_ok (alarm_of e)"
  shows "tv_ok (timeradd (interval e) (expires e)) \<and>
    us (timeradd (interval e) (expires e)) = us (interval e) + us (expires e)"
proof (rule timeradd_us [OF assms(2,1)])
  have "0 \<le> sint (tv_sec (interval e))" "sint (tv_sec (interval e)) < 4611686018427387904"
    using assms(2,5) by (auto simp: period_ok_def alarm_of_def us_def tv_ok_def)
  moreover have "sint (tv_sec (expires e)) < 4611686018427387904"
    using assms(1,3,4) by (auto simp: clock_ok_def us_def tv_ok_def)
  ultimately show "- 9223372036854775808 \<le> sint (tv_sec (interval e)) + sint (tv_sec (expires e))"
    "sint (tv_sec (interval e)) + sint (tv_sec (expires e)) < 9223372036854775807"
    using sint_range64 [of "tv_sec (expires e)"] by linarith+
qed

lemma expire_head_spec:
  assumes wf: "timers_wf s" and q: "timerQ s = tp # rest" and e: "tqes s tp = Some e"
    and now: "clock_ok now" "us (expires e) \<le> us now" "period_ok (alarm_of e)"
  shows "\<exists>s'. expire_head tp rest s = Some (e, s') \<and> timers_wf s' \<and>
    pending s' = restarted (alarm_of e) (tl (pending s))"
proof -
  let ?s = "s\<lparr>timerQ := rest, freeTQEQ := tp # freeTQEQ s\<rparr>"
  have ok: "tv_ok (expires e)" "tv_ok (interval e)" using wf q e by (auto simp: timers_wf_def active_def cell_def)
  have pq: "pending s = alarm_of e # alarms (tqes s) rest" using q e by (simp add: pending_def alarms_def cell_def)
  have p0: "pending ?s = tl (pending s)" unfolding pq by (simp add: pending_def)
  have wf0: "timers_wf ?s" unfolding timers_wf_def p0 using wf q e ok unfolding timers_wf_def pq
    by (auto simp: spare_def cell_def)
  show ?thesis
  proof (cases "us (interval e) = 0")
    case True
    then have "tv_sec (interval e) = 0 \<and> tv_usec (interval e) = 0" using us_zero [OF ok(2)] by blast
    then show ?thesis using e wf0 p0 True by (simp add: expire_head_def restarted_def alarm_of_def)
  next
    case False
    then have nz: "tv_sec (interval e) \<noteq> 0 \<or> tv_usec (interval e) \<noteq> 0" using us_zero [OF ok(2)] by blast
    let ?t = "timeradd (interval e) (expires e)" and ?e = "e\<lparr>expires := timeradd (interval e) (expires e)\<rparr>"
    let ?s1 = "?s\<lparr>tqes := (tqes ?s)(tp \<mapsto> ?e)\<rparr>"
    note tt = restart_us [OF ok now]
    have nq: "tp \<notin> set rest" using wf q by (simp add: timers_wf_def)
    then have same: "tqes ?s1 a = tqes ?s a" if "a \<in> set rest" for a using that by auto
    have p1: "pending ?s1 = tl (pending s)" unfolding p0 [symmetric]
      using same by (simp add: pending_def alarms_cong)
    have "active (tqes ?s1) a" if "a \<in> set rest" for a
      using that wf0 same [OF that] active_cong [of "tqes ?s1" a "tqes ?s"] by (auto simp: timers_wf_def)
    moreover have "spare (tqes ?s1) a" if "a \<in> set (freeTQEQ ?s)" for a
    proof (cases "a = tp")
      case True
      then show ?thesis using ok(2) by (simp add: spare_def cell_def)
    next
      case False
      then show ?thesis using that wf0 by (auto simp: timers_wf_def spare_def cell_def)
    qed
    ultimately have wf1: "timers_wf ?s1" using wf0 unfolding timers_wf_def p1 p0 by simp
    have own: "filter (\<lambda>a. owner a \<noteq> client e) (tl (pending s)) = tl (pending s)"
      using wf unfolding timers_wf_def pq by (auto simp: alarm_of_def filter_id_conv image_iff)
    have "room None ?s1" by (simp add: room_def)
    from timer_set_inserts [OF wf1 _ _ this, of ?t False ?t ?t "func e" "client e"] tt
    obtain tp' s' where s': "timer_set ?t None (Some ?t) (func e) (client e) False ?s1 = Some (Some tp', s')" "timers_wf s'"
      "pending s' = insert_alarm \<lparr>due = us ?t, period = (case tqes ?s1 tp' of None \<Rightarrow> 0 | Some e \<Rightarrow> us (interval e)),
        act = func e, owner = client e\<rparr> (filter (\<lambda>a. owner a \<noteq> client e) (tl (pending s)))"
      unfolding p1 by auto
    have fnd: "find (\<lambda>a. client (cell (tqes ?s1) a) = client e) rest = None"
      using own nq by (auto simp: pq alarms_def alarm_of_def find_None_iff cell_def filter_id_conv)
    have act1: "\<forall>a \<in> set rest. active (tqes ?s1) a" "distinct (map owner (alarms (tqes ?s1) rest))"
      using wf1 by (auto simp: timers_wf_def pending_def)
    have "find_client (tqes ?s1) (client e) (timerQ ?s1) =
        Some (None, filter (\<lambda>tp. client (cell (tqes ?s1) tp) \<noteq> client e) rest)"
      using find_client_spec [OF act1, of "client e"] fnd by simp
    from timer_set_from_free [OF this _ s'(1)] have "tp' = tp" by simp
    then have "pending s' = restarted (alarm_of e) (tl (pending s))"
      using s'(3) tt False unfolding own by (simp add: restarted_def alarm_of_def add.commute)
    then show ?thesis using s'(1,2) e nz by (simp add: expire_head_def Let_def)
  qed
qed

text \<open>How often an alarm fires up to the time \<open>now\<close>.\<close>

definition fires :: "int \<Rightarrow> alarm \<Rightarrow> nat" where
  "fires now a =
     (if now < due a then 0 else if period a = 0 then 1 else nat ((now - due a) div period a) + 1)"

lemma fires_again:
  assumes "due a \<le> now" "0 < period a"
  shows "fires now a = Suc (fires now (a\<lparr>due := due a + period a\<rparr>))"
proof (cases "now < due a + period a")
  case True
  then have "(now - due a) div period a = 0" using assms by (simp add: div_pos_pos_trivial)
  then show ?thesis using True assms by (simp add: fires_def)
next
  case False
  have "now - due a = (now - (due a + period a)) + period a" by simp
  then have "(now - due a) div period a = (now - (due a + period a)) div period a + 1"
    using assms(2) by (simp only: div_add_self2)
  moreover have "0 \<le> (now - (due a + period a)) div period a" using False assms(2) by (simp add: pos_imp_zdiv_nonneg_iff)
  ultimately show ?thesis using False assms by (simp add: fires_def)
qed

definition firings :: "int \<Rightarrow> alarm list \<Rightarrow> nat" where
  "firings now as = sum_list (map (fires now) as)"

lemma firings_restarted:
  assumes "due a \<le> now" "0 \<le> period a"
  shows "sum_list (map (\<lambda>x. of_bool (Q (owner x)) * fires now x) (a # as)) =
    of_bool (Q (owner a)) + sum_list (map (\<lambda>x. of_bool (Q (owner x)) * fires now x) (restarted a as))"
proof (cases "period a = 0")
  case True
  then show ?thesis using assms by (simp add: restarted_def fires_def)
next
  case False
  then show ?thesis using assms fires_again [of a now]
    by (simp add: restarted_def sum_insert_alarm)
qed

lemma sum_one_owner:
  "distinct (map owner as) \<Longrightarrow> a \<in> set as \<Longrightarrow>
   sum_list (map (\<lambda>x. of_bool (owner x = owner a) * f x) as) = (f a :: nat)"
proof (induction as)
  case (Cons b as)
  show ?case
  proof (cases "a = b")
    case True
    have "sum_list (map (\<lambda>x. of_bool (owner x = owner a) * f x) as) = 0"
      using Cons.prems(1) True by (auto simp: sum_list_eq_0_iff image_iff)
    then show ?thesis using True by simp
  next
    case False
    then have "a \<in> set as" "owner b \<noteq> owner a" using Cons.prems by (auto simp: image_iff)
    then show ?thesis using Cons by simp
  qed
qed simp

text \<open>The event handler that keeps a log of what was called.\<close>

definition log_handler :: "nat \<Rightarrow> nat \<Rightarrow> (nat \<times> nat) list \<times> timers \<Rightarrow> ((nat \<times> nat) list \<times> timers) option" where
  "log_handler f c ws = Some (fst ws @ [(f, c)], snd ws)"

lemma get_loop_fires:
  assumes now: "clock_ok now"
  shows "timers_wf s \<Longrightarrow> \<forall>a \<in> set (pending s). period_ok a \<Longrightarrow> firings (us now) (pending s) = n \<Longrightarrow>
    \<exists>r left w' s'. get_loop log_handler (replicate n now @ [now]) w s = Some (r, left, w', s') \<and> timers_wf s' \<and>
      (\<forall>a \<in> set (pending s'). us now < due a) \<and>
      (case pending s' of [] \<Rightarrow> r = None | a # _ \<Rightarrow> \<exists>t. r = Some t \<and> us t = due a - us now \<and> tv_ok t) \<and>
      (\<forall>c. count_list (map snd w') c = count_list (map snd w) c +
         sum_list (map (\<lambda>x. of_bool (owner x = c) * fires (us now) x) (pending s)))"
proof (induction n arbitrary: s w)
  case 0
  have late: "us now < due a" if "a \<in> set (pending s)" for a
  proof -
    have "fires (us now) a \<in> set (map (fires (us now)) (pending s))" using that by simp
    then have "fires (us now) a = 0" using 0(3) unfolding firings_def sum_list_eq_0_iff by blast
    then show ?thesis by (auto simp: fires_def split: if_splits)
  qed
  have z: "fires (us now) a = 0" if "a \<in> set (pending s)" for a using late [OF that] by (simp add: fires_def)
  have zero: "sum_list (map (\<lambda>x. of_bool (owner x = c) * fires (us now) x) (pending s)) = 0" for c
    using z by (induction "pending s" rule: list.induct) auto
  show ?case
  proof (cases "timerQ s")
    case Nil
    then have "pending s = []" by (simp add: pending_def alarms_def)
    then show ?thesis using Nil 0(1) by (subst get_loop.simps) simp
  next
    case (Cons tp rest)
    then obtain e where e: "tqes s tp = Some e" "tv_ok (expires e)"
      using 0(1) by (auto simp: timers_wf_def active_def cell_def)
    have p: "pending s = alarm_of e # alarms (tqes s) rest" using Cons e by (simp add: pending_def alarms_def cell_def)
    have "us now < due (alarm_of e)" by (rule late) (simp add: p)
    then have "us now < us (expires e)" by (simp add: alarm_of_def)
    then have lt: "timerless now (expires e)" "us now < us (expires e)"
      using timerless_us now e(2) by (simp_all add: clock_ok_def)
    note to = timeout_until_us [OF now e(2) lt(2)]
    then have "sint (tv_usec (timeout_until now (expires e))) < 1000000" by (simp add: tv_ok_def)
    then have run: "get_loop log_handler [now] w s = Some (Some (timeout_until now (expires e)), [], w, s)"
      using Cons e lt by (subst get_loop.simps) (simp add: Let_def)
    have "case pending s of [] \<Rightarrow> Some (timeout_until now (expires e)) = None
      | a # _ \<Rightarrow> \<exists>t. Some (timeout_until now (expires e)) = Some t \<and> us t = due a - us now \<and> tv_ok t"
      using to by (simp add: p alarm_of_def)
    with run 0(1) late zero show ?thesis by auto
  qed
next
  case (Suc n)
  have "pending s \<noteq> []" using Suc.prems(3) by (auto simp: firings_def)
  then obtain tp rest where q: "timerQ s = tp # rest" by (cases "timerQ s") (auto simp: pending_def alarms_def)
  obtain e where e: "tqes s tp = Some e" "tv_ok (expires e)"
    using Suc.prems(1) q by (auto simp: timers_wf_def active_def cell_def)
  have p: "pending s = alarm_of e # alarms (tqes s) rest" using q e by (simp add: pending_def alarms_def cell_def)
  have "due (alarm_of e) \<le> us now"
  proof (rule ccontr)
    assume "\<not> due (alarm_of e) \<le> us now"
    then have "\<forall>a \<in> set (pending s). fires (us now) a = 0"
      using Suc.prems(1) unfolding timers_wf_def p by (auto simp: fires_def)
    then have "firings (us now) (pending s) = 0" by (simp add: firings_def)
    with Suc.prems(3) show False by simp
  qed
  then have hd: "due (alarm_of e) \<le> us now" "0 \<le> period (alarm_of e)" "period_ok (alarm_of e)"
    using Suc.prems(2) p by (simp_all add: period_ok_def)
  have "tv_ok now" using now by (simp add: clock_ok_def)
  from timerless_us [OF this e(2)] hd(1) have "\<not> timerless now (expires e)" by (simp add: alarm_of_def)
  moreover obtain s1 where s1: "expire_head tp rest s = Some (e, s1)" "timers_wf s1"
    "pending s1 = restarted (alarm_of e) (alarms (tqes s) rest)"
    using expire_head_spec [OF Suc.prems(1) q e(1) now _ hd(3)] hd(1) unfolding p by (auto simp: alarm_of_def)
  ultimately have step: "get_loop log_handler (replicate (Suc n) now @ [now]) w s =
      get_loop log_handler (replicate n now @ [now]) (w @ [(func e, client e)]) s1"
    using q e(1) by (subst get_loop.simps) (simp add: log_handler_def)
  note fr = firings_restarted [OF hd(1,2), where as = "alarms (tqes s) rest", folded p, folded s1(3)]
  have "firings (us now) (pending s1) = n"
    using fr [of "\<lambda>_. True"] Suc.prems(3) by (simp add: firings_def)
  moreover have "\<forall>a \<in> set (pending s1). period_ok a"
    using Suc.prems(2) hd(3) unfolding s1(3) p by (auto simp: restarted_def set_insert_alarm period_ok_def)
  ultimately obtain r left w' s' where ih: "get_loop log_handler (replicate n now @ [now]) (w @ [(func e, client e)]) s1 = Some (r, left, w', s')"
    "timers_wf s'" "\<forall>a \<in> set (pending s'). us now < due a"
    "case pending s' of [] \<Rightarrow> r = None | a # _ \<Rightarrow> \<exists>t. r = Some t \<and> us t = due a - us now \<and> tv_ok t"
    "\<forall>c. count_list (map snd w') c = count_list (map snd (w @ [(func e, client e)])) c +
         sum_list (map (\<lambda>x. of_bool (owner x = c) * fires (us now) x) (pending s1))"
    using Suc.IH [OF s1(2)] by blast
  have "count_list (map snd w') c = count_list (map snd w) c +
      sum_list (map (\<lambda>x. of_bool (owner x = c) * fires (us now) x) (pending s))" for c
    using ih(5) fr [of "\<lambda>x. x = c"] by (simp add: alarm_of_def)
  with step ih(1-4) show ?case by auto
qed


section \<open>Properties\<close>

text \<open>When the new time is in the range of \<open>long\<close>.\<close>

lemma new_time_us:
  assumes "clock_ok now" "tv_ok iv" "sint (tv_sec iv) < 4611686018427387904"
  shows "tv_ok (if relative then timeradd now iv else iv) \<and>
    us (if relative then timeradd now iv else iv) = (if relative then us now + us iv else us iv)"
proof -
  have "- 9223372036854775808 \<le> sint (tv_sec now) + sint (tv_sec iv)" "sint (tv_sec now) + sint (tv_sec iv) < 9223372036854775807"
    using assms sint_range64 [of "tv_sec iv"] by (simp_all add: clock_ok_def)
  then show ?thesis using timeradd_us [of now iv] assms by (simp add: clock_ok_def)
qed

text \<open>
  C36: \<open>timer_set\<close> keeps the timers well-formed: the queue in time order, at most one timer of a client, no
  element both active and free.  With an interval other than zero, the client's old timer is replaced by one at the
  absolute or relative time, behind those of the same time, and nothing else changes; with \<open>NULL\<close> the old timer
  is cancelled.  The clock is between 1970 and \<open>2 ^ 62\<close> seconds after it, the interval is less than \<open>2 ^ 62\<close> seconds,
  and a free element or memory for one is there.  The period of the new timer is for the caller to set.
\<close>

theorem timer_set_replaces:
  assumes "timers_wf s" "clock_ok now" "tv_ok iv" "us iv \<noteq> 0" "sint (tv_sec iv) < 4611686018427387904" "room new s"
  shows "(\<exists>tp s'. timer_set now new (Some iv) f c relative s = Some (Some tp, s') \<and> timers_wf s' \<and>
      (\<exists>p. pending s' = insert_alarm \<lparr>due = (if relative then us now + us iv else us iv), period = p, act = f, owner = c\<rparr>
         (filter (\<lambda>a. owner a \<noteq> c) (pending s)))) \<and>
    (\<exists>s'. timer_set now new None f c relative s = Some (None, s') \<and> timers_wf s' \<and>
      pending s' = filter (\<lambda>a. owner a \<noteq> c) (pending s))"
proof -
  note t = new_time_us [OF assms(2,3,5), of relative]
  from timer_set_inserts [OF assms(1) refl conjunct1 [OF t] assms(6), of f c] timer_set_cancels [OF assms(1), of now new f c relative]
  show ?thesis unfolding conjunct2 [OF t] by blast
qed

text \<open>
  An interval of zero does not cancel: it sets a timer that is due at once, against the comments at lines 126 and 148 of
  the source, which the code follows only for a null pointer.
\<close>

lemma timer_set_zero_interval:
  assumes "timers_wf s" "clock_ok now" "room new s"
  shows "\<exists>tp s' p. timer_set now new (Some \<lparr>tv_sec = 0, tv_usec = 0\<rparr>) f c True s = Some (Some tp, s') \<and>
    \<lparr>due = us now, period = p, act = f, owner = c\<rparr> \<in> set (pending s')"
proof -
  let ?z = "\<lparr>tv_sec = 0, tv_usec = 0\<rparr> :: timeval"
  have z: "tv_ok ?z" "sint (tv_sec ?z) < 4611686018427387904" "us ?z = 0" by (simp_all add: tv_ok_def us_def)
  note t = new_time_us [OF assms(2) z(1,2), of True]
  from timer_set_inserts [OF assms(1) refl conjunct1 [OF t] assms(3), of f c]
  show ?thesis unfolding conjunct2 [OF t] using z(3) by (fastforce simp: set_insert_alarm)
qed

definition demo_timers :: timers where
  "demo_timers = \<lparr>timerQ = [1, 2], freeTQEQ = [3], tqes =
     [1 \<mapsto> \<lparr>expires = \<lparr>tv_sec = 10, tv_usec = 0\<rparr>, interval = \<lparr>tv_sec = 0, tv_usec = 0\<rparr>, func = 5, client = 50\<rparr>,
      2 \<mapsto> \<lparr>expires = \<lparr>tv_sec = 11, tv_usec = 0\<rparr>, interval = \<lparr>tv_sec = 0, tv_usec = 500000\<rparr>, func = 6, client = 60\<rparr>,
      3 \<mapsto> \<lparr>expires = \<lparr>tv_sec = 9, tv_usec = 0\<rparr>, interval = \<lparr>tv_sec = 2, tv_usec = 0\<rparr>, func = 7, client = 70\<rparr>]\<rparr>"

lemma demo_timers_wf: "timers_wf demo_timers" "room None demo_timers"
  "pending demo_timers = [\<lparr>due = 10000000, period = 0, act = 5, owner = 50\<rparr>, \<lparr>due = 11000000, period = 500000, act = 6, owner = 60\<rparr>]"
  by (simp_all add: timers_wf_def demo_timers_def pending_def alarms_def alarm_of_def cell_def active_def spare_def tv_ok_def us_def room_def)

lemma timer_set_replaces_witness:
  "\<exists>tp s'. timer_set \<lparr>tv_sec = 9, tv_usec = 900000\<rparr> None (Some \<lparr>tv_sec = 0, tv_usec = 200000\<rparr>) 8 60 True demo_timers = Some (Some tp, s') \<and>
     map due (pending s') = [10000000, 10100000]"
proof -
  have "clock_ok \<lparr>tv_sec = 9, tv_usec = 900000\<rparr>" "tv_ok \<lparr>tv_sec = 0, tv_usec = 200000\<rparr>"
    "us \<lparr>tv_sec = 0, tv_usec = 200000\<rparr> \<noteq> 0" "sint (tv_sec \<lparr>tv_sec = 0, tv_usec = 200000\<rparr>) < 4611686018427387904"
    by (simp_all add: clock_ok_def tv_ok_def us_def)
  from timer_set_replaces [OF demo_timers_wf(1) this demo_timers_wf(2), of 8 60 True] show ?thesis
    by (auto simp: demo_timers_wf(3) us_def)
qed

text \<open>
  C34: While the clock stands at one time \<open>now\<close> and the handlers set no timers, \<open>timer_get\<close> returns, after as many
  readings of the clock as there are firings and one more at most, and by then every timer that is due has fired: a
  one-shot timer once, a periodic one once for every period that has passed, one that is not due not at all.  What
  remains lies in the future, and the timeout is the exact time to the first of it, or \<open>NULL\<close> when nothing remains.
  The clock is between 1970 and \<open>2 ^ 62\<close> seconds after it, and the periods are not negative and less than that.
\<close>

theorem timer_get_fires_due:
  assumes "timers_wf s" "clock_ok now" "\<forall>a \<in> set (pending s). period_ok a"
  shows "\<exists>r left w s'.
    timer_get log_handler (replicate (firings (us now) (pending s)) now @ [now]) [] s = Some (r, left, w, s') \<and>
    timers_wf s' \<and> (\<forall>a \<in> set (pending s'). us now < due a) \<and>
    (case pending s' of [] \<Rightarrow> r = None | a # _ \<Rightarrow> \<exists>t. r = Some t \<and> us t = due a - us now \<and> tv_ok t) \<and>
    (\<forall>a \<in> set (pending s). count_list (map snd w) (owner a) = fires (us now) a)"
proof -
  have "timer_check s = Some ()"
    using assms(1) check_loop_active by (auto simp: timer_check_def timers_wf_def)
  moreover obtain r left w s' where w: "get_loop log_handler (replicate (firings (us now) (pending s)) now @ [now]) [] s = Some (r, left, w, s')"
    "timers_wf s'" "\<forall>a \<in> set (pending s'). us now < due a"
    "case pending s' of [] \<Rightarrow> r = None | a # _ \<Rightarrow> \<exists>t. r = Some t \<and> us t = due a - us now \<and> tv_ok t"
    "\<forall>c. count_list (map snd w) c = sum_list (map (\<lambda>x. of_bool (owner x = c) * fires (us now) x) (pending s))"
    using get_loop_fires [OF assms(2,1,3) refl, of "[]"] by auto
  moreover have "count_list (map snd w) (owner a) = fires (us now) a" if a: "a \<in> set (pending s)" for a
  proof -
    have "distinct (map owner (pending s))" using assms(1) by (simp add: timers_wf_def)
    then have "sum_list (map (\<lambda>x. of_bool (owner x = owner a) * fires (us now) x) (pending s)) = fires (us now) a"
      using a by (rule sum_one_owner)
    with w(5) show ?thesis by simp
  qed
  ultimately show ?thesis by (auto simp: timer_get_def)
qed

lemma timer_get_fires_due_witness:
  "\<exists>r left w s'. timer_get log_handler (replicate 4 \<lparr>tv_sec = 12, tv_usec = 0\<rparr> @ [\<lparr>tv_sec = 12, tv_usec = 0\<rparr>]) [] demo_timers = Some (r, left, w, s') \<and>
     count_list (map snd w) 50 = 1 \<and> count_list (map snd w) 60 = 3"
proof -
  let ?now = "\<lparr>tv_sec = 12, tv_usec = 0\<rparr>"
  have now: "clock_ok ?now" "us ?now = 12000000" by (simp_all add: clock_ok_def tv_ok_def us_def)
  have per: "\<forall>a \<in> set (pending demo_timers). period_ok a" by (simp add: demo_timers_wf(3) period_ok_def)
  have "firings (us ?now) (pending demo_timers) = 4" by (simp add: demo_timers_wf(3) firings_def fires_def now(2))
  with timer_get_fires_due [OF demo_timers_wf(1) now(1) per] show ?thesis
    by (auto simp: demo_timers_wf(3) fires_def now(2))
qed

text \<open>
  A TQE from the free list keeps the interval of its former user: \<open>timer_set\<close> clears the interval
  only of memory from \<open>malloc\<close>.  A one-shot timer set without storing through the returned pointer inherits the
  period of the timer that was cancelled before, and fires again and again.
\<close>

theorem timer_set_stale_interval:
  assumes "timers_wf s" "clock_ok now" "tv_ok iv" "sint (tv_sec iv) < 4611686018427387904" "freeTQEQ s = tp # free"
    and "tqes s tp = Some e" "c \<notin> owner ` set (pending s)"
  shows "\<exists>s'. timer_set now new (Some iv) f c True s = Some (Some tp, s') \<and>
    \<lparr>due = us now + us iv, period = us (interval e), act = f, owner = c\<rparr> \<in> set (pending s')"
proof -
  have act: "\<forall>tp \<in> set (timerQ s). active (tqes s) tp" "distinct (map owner (alarms (tqes s) (timerQ s)))"
    using assms(1) by (auto simp: timers_wf_def pending_def)
  have fnd: "find (\<lambda>tp. client (cell (tqes s) tp) = c) (timerQ s) = None"
    using assms(7) by (auto simp: pending_def alarms_def alarm_of_def find_None_iff image_image)
  have rm: "room new s" using assms(5) by (simp add: room_def)
  have t: "tv_ok (timeradd now iv)" "us (timeradd now iv) = us now + us iv"
    using new_time_us [OF assms(2,3,4), of True] by simp_all
  obtain tp' s' where s': "timer_set now new (Some iv) f c True s = Some (Some tp', s')"
    "pending s' = insert_alarm \<lparr>due = us (timeradd now iv), period = (case tqes s tp' of None \<Rightarrow> 0 | Some e \<Rightarrow> us (interval e)),
       act = f, owner = c\<rparr> (filter (\<lambda>a. owner a \<noteq> c) (pending s))"
    using timer_set_inserts [OF assms(1) _ t(1) rm, of True now iv f c] by auto
  have "tp' = tp" using timer_set_from_free [OF _ assms(5) s'(1)] find_client_spec [OF act, of c] fnd by simp
  with s' assms(6) t(2) show ?thesis by (simp add: set_insert_alarm)
qed

lemma timer_set_stale_interval_witness:
  "\<exists>s'. timer_set \<lparr>tv_sec = 9, tv_usec = 0\<rparr> None (Some \<lparr>tv_sec = 1, tv_usec = 0\<rparr>) 8 80 True demo_timers = Some (Some 3, s') \<and>
     \<lparr>due = 10000000, period = 2000000, act = 8, owner = 80\<rparr> \<in> set (pending s')"
proof -
  let ?e = "\<lparr>expires = \<lparr>tv_sec = 9, tv_usec = 0\<rparr>, interval = \<lparr>tv_sec = 2, tv_usec = 0\<rparr>, func = 7, client = 70\<rparr>"
  have "clock_ok \<lparr>tv_sec = 9, tv_usec = 0\<rparr>" "tv_ok \<lparr>tv_sec = 1, tv_usec = 0\<rparr>"
    "sint (tv_sec \<lparr>tv_sec = 1, tv_usec = 0\<rparr>) < 4611686018427387904" "freeTQEQ demo_timers = 3 # []"
    "tqes demo_timers 3 = Some ?e" "80 \<notin> owner ` set (pending demo_timers)"
    by (simp_all add: clock_ok_def tv_ok_def demo_timers_wf(3)) (simp_all add: demo_timers_def)
  from timer_set_stale_interval [OF demo_timers_wf(1) this, of None 8] show ?thesis by (simp add: us_def)
qed

end
