(* ===== verification/NetUtils.thy ===== *)
theory NetUtils
  imports Bytes CText
begin

text \<open>
  \<open>src/netlink/utils.c\<close>: reading numbers, addresses, prefixes and command lines, and matching
  addresses.  Return codes are \<open>int\<close>; a function that may end the program returns a sum, \<open>Inl\<close>
  the exit status; \<open>None\<close> is an undefined access, unless a comment says otherwise.  The address
  formats of the socket library (\<open>inet_pton\<close> for IPv6, \<open>inet_ntop\<close>) are arguments.
\<close>

section \<open>Numbers\<close>


definition get_unsigned :: "string option \<Rightarrow> nat \<Rightarrow> u32 option" where
  "get_unsigned arg base =
     (case arg of
        None \<Rightarrow> None
      | Some s \<Rightarrow>
          if s = [] then None
          else let (res, ptr, range) = strtoul base s
               in if ptr = s \<or> ptr \<noteq> [] \<or> 4294967295 < res then None else Some (ucast res))"







section \<open>Addresses and prefixes\<close>

text \<open>\<open>data\<close> is the memory of the four words: 16 bytes.\<close>

record inet_prefix =
  family :: u8
  bytelen :: u8
  bitlen :: u16
  flags :: u32
  adata :: "u8 list"

definition AF_UNSPEC :: int where "AF_UNSPEC = 0"
definition AF_INET :: int where "AF_INET = 2"
definition AF_INET6 :: int where "AF_INET6 = 10"
definition AF_DECnet :: int where "AF_DECnet = 12"
definition AF_PACKET :: int where "AF_PACKET = 17"
definition PREFIXLEN_SPECIFIED :: u32 where "PREFIXLEN_SPECIFIED = 1"

definition zero_prefix :: inet_prefix where
  "zero_prefix = \<lparr>family = 0, bytelen = 0, bitlen = 0, flags = 0, adata = replicate 16 0\<rparr>"

text \<open>The loop over a dotted address: \<open>ap[i] = 10*ap[i] + digit\<close> in an \<open>unsigned char\<close>.\<close>

fun addr_loop :: "string \<Rightarrow> nat \<Rightarrow> u8 list \<Rightarrow> int \<times> u8 list" where
  "addr_loop [] i ap = (0, ap)"
| "addr_loop (c # cp) i ap =
     (if is_digit c then addr_loop cp i (ap[i := 10 * ap ! i + of_nat (digit_val c)])
      else if c = CHR ''.'' \<and> i + 1 \<le> 3 then addr_loop cp (i + 1) ap
      else (- 1, ap))"

definition get_addr_1 :: "(string \<Rightarrow> u8 list option) \<Rightarrow> string \<Rightarrow> int \<Rightarrow> int \<times> inet_prefix" where
  "get_addr_1 inet_pton6 name fam =
     (let a = zero_prefix
      in if name = ''default'' \<or> name = ''all'' \<or> name = ''any'' then
           if fam = AF_DECnet then (- 1, a)
           else (0, a\<lparr>family := word_of_int fam, bytelen := (if fam = AF_INET6 then 16 else 4), bitlen := - 1\<rparr>)
         else if CHR '':'' \<in> set name then
           let a = a\<lparr>family := word_of_int AF_INET6\<rparr>
           in if fam \<noteq> AF_UNSPEC \<and> fam \<noteq> AF_INET6 then (- 1, a)
              else (case inet_pton6 name of
                      None \<Rightarrow> (- 1, a)
                    | Some bs \<Rightarrow> (0, a\<lparr>adata := bs, bytelen := 16, bitlen := - 1\<rparr>))
         else
           let a = a\<lparr>family := word_of_int AF_INET\<rparr>
           in if fam \<noteq> AF_UNSPEC \<and> fam \<noteq> AF_INET then (- 1, a)
              else let (r, ap) = addr_loop name 0 (adata a)
                   in (r, a\<lparr>bytelen := 4, bitlen := - 1, adata := ap\<rparr>))"

text \<open>The text before the first slash, and behind it when there is one.\<close>

definition split_slash :: "string \<Rightarrow> string \<times> string option" where
  "split_slash s =
     (case dropWhile (\<lambda>c. c \<noteq> CHR ''/'') s of
        [] \<Rightarrow> (s, None)
      | _ # r \<Rightarrow> (takeWhile (\<lambda>c. c \<noteq> CHR ''/'') s, Some r))"

definition get_prefix_1 :: "(string \<Rightarrow> u8 list option) \<Rightarrow> string \<Rightarrow> int \<Rightarrow> int \<times> inet_prefix" where
  "get_prefix_1 inet_pton6 arg fam =
     (if arg = ''default'' \<or> arg = ''any'' \<or> arg = ''all'' then
        if fam = AF_DECnet then (- 1, zero_prefix)
        else (0, zero_prefix\<lparr>family := word_of_int fam, bytelen := 0, bitlen := 0\<rparr>)
      else
        let (name, slash) = split_slash arg;
            (err, dst) = get_addr_1 inet_pton6 name fam
        in if err \<noteq> 0 then (err, dst)
           else let dst = dst\<lparr>bitlen := (if uint (family dst) = AF_INET6 then 128
                                       else if uint (family dst) = AF_DECnet then 16 else 32)\<rparr>
                in case slash of
                     None \<Rightarrow> (0, dst)
                   | Some r \<Rightarrow>
                       (case get_unsigned (Some r) 0 of
                          None \<Rightarrow> (- 1, dst)
                        | Some plen \<Rightarrow>
                            if scast (bitlen dst) < plen then (- 1, dst)
                            else (0, dst\<lparr>flags := flags dst OR PREFIXLEN_SPECIFIED, bitlen := ucast plen\<rparr>)))"

definition get_addr :: "(string \<Rightarrow> u8 list option) \<Rightarrow> string \<Rightarrow> int \<Rightarrow> int + inet_prefix" where
  "get_addr inet_pton6 arg fam =
     (if fam = AF_PACKET then Inl 1
      else let (r, dst) = get_addr_1 inet_pton6 arg fam in if r \<noteq> 0 then Inl 1 else Inr dst)"

definition get_prefix :: "(string \<Rightarrow> u8 list option) \<Rightarrow> string \<Rightarrow> int \<Rightarrow> int + inet_prefix" where
  "get_prefix inet_pton6 arg fam =
     (if fam = AF_PACKET then Inl 1
      else let (r, dst) = get_prefix_1 inet_pton6 arg fam in if r \<noteq> 0 then Inl 1 else Inr dst)"

definition get_addr32 :: "(string \<Rightarrow> u8 list option) \<Rightarrow> string \<Rightarrow> int + u32" where
  "get_addr32 inet_pton6 name =
     (let (r, addr) = get_addr_1 inet_pton6 name AF_INET
      in if r \<noteq> 0 then Inl 1 else Inr (of_nat (le_nat (take 4 (adata addr)))))"

text \<open>The sign of \<open>memcmp\<close> over two arrays of one length.\<close>

fun memcmp :: "u8 list \<Rightarrow> u8 list \<Rightarrow> int" where
  "memcmp (x # xs) (y # ys) = (if x = y then memcmp xs ys else if x < y then - 1 else 1)"
| "memcmp _ _ = 0"

definition byte_of :: "char \<Rightarrow> u8" where
  "byte_of c = of_nat (of_char c)"

definition cmd_matches :: "string \<Rightarrow> string \<Rightarrow> int" where
  "cmd_matches cmd pattern =
     (let len = length cmd
      in if length pattern < len then - 1
         else memcmp (map byte_of (take len pattern)) (map byte_of cmd))"

text \<open>\<open>htonl\<close> on a little-endian host.\<close>

definition htonl :: "u32 \<Rightarrow> u32" where
  "htonl x = of_nat (le_nat (rev (le_bytes 4 (unat x))))"

definition inet_addr_match :: "inet_prefix \<Rightarrow> inet_prefix \<Rightarrow> int \<Rightarrow> int option" where
  "inet_addr_match a b bits =
     (let words = bits div 32; bits = nat (bits mod 32)
      in if words < 0 then None
         else do {
           xs \<leftarrow> rd_bytes (adata a) 0 (4 * nat words);
           ys \<leftarrow> rd_bytes (adata b) 0 (4 * nat words);
           if words \<noteq> 0 \<and> memcmp xs ys \<noteq> 0 then Some (- 1)
           else if bits \<noteq> 0 then do {
             w1 \<leftarrow> rd_le (adata a) (4 * nat words) 4;
             w2 \<leftarrow> rd_le (adata b) (4 * nat words) 4;
             let mk = htonl (push_bit (32 - bits) 4294967295);
             if ((of_nat w1 XOR of_nat w2) AND mk) \<noteq> 0 then Some 1 else Some 0 }
           else Some 0 })"

definition rt_addr_n2a :: "(int \<Rightarrow> u8 list \<Rightarrow> string option) \<Rightarrow> int \<Rightarrow> u8 list \<Rightarrow> string option" where
  "rt_addr_n2a inet_ntop af addr = (if af = AF_INET \<or> af = AF_INET6 then inet_ntop af addr else Some ''???'')"


section \<open>Hexadecimal strings\<close>

text \<open>\<open>%02x\<close> of a byte.\<close>

definition hex2 :: "u8 \<Rightarrow> string" where
  "hex2 b = [digit_char (unat b div 16), digit_char (unat b mod 16)]"

definition put_text :: "char list \<Rightarrow> nat \<Rightarrow> string \<Rightarrow> char list option" where
  "put_text buf p s = blit s 0 buf p (length s)"

text \<open>\<open>ptr\<close> is the position in \<open>buf\<close>.  \<open>sprintf\<close> writes the digits and a NUL.\<close>

function n2a_loop :: "u8 list \<Rightarrow> nat \<Rightarrow> nat \<Rightarrow> char list \<Rightarrow> nat \<Rightarrow> int \<Rightarrow> char list option" where
  "n2a_loop str len i buf ptr blen =
     (if len \<le> i \<or> blen < 3 then Some buf
      else do {
        b \<leftarrow> rd str i;
        buf \<leftarrow> put_text buf ptr (hex2 b @ [NUL]);
        let ptr = ptr + 2;
        let blen = blen - 2;
        if i \<noteq> len - 1 \<and> 1 < blen
        then do { buf \<leftarrow> wr buf ptr (CHR '':''); n2a_loop str len (i + 1) buf (ptr + 1) (blen - 1) }
        else n2a_loop str len (i + 1) buf ptr blen })"
  by pat_completeness auto
termination by (relation "measure (\<lambda>(str, len, i, buf, ptr, blen). len - i)") auto

declare n2a_loop.simps [simp del]

definition hexstring_n2a :: "u8 list \<Rightarrow> nat \<Rightarrow> char list \<Rightarrow> int \<Rightarrow> char list option" where
  "hexstring_n2a str len buf blen = n2a_loop str len 0 buf 0 blen"

text \<open>The digits up to a colon or the end: \<open>acc\<close> and the rest, \<open>None\<close> for the return of \<open>NULL\<close>.\<close>

fun a2n_group :: "string \<Rightarrow> u32 \<Rightarrow> (u32 \<times> string) option" where
  "a2n_group [] acc = Some (acc, [])"
| "a2n_group (ch # str) acc =
     (if ch = CHR '':'' then Some (acc, ch # str)
      else if alnum_val ch < 16 then a2n_group str (push_bit 4 acc + of_nat (alnum_val ch))
      else None)"

lemma a2n_group_shorter: "a2n_group s acc = Some (v, r) \<Longrightarrow> length r \<le> length s"
  by (induction s arbitrary: acc) (auto split: if_splits intro: le_SucI)

text \<open>The outer option is an access outside \<open>buf\<close>, the inner one \<open>NULL\<close>; \<open>blen\<close> is not negative.\<close>

function a2n_loop :: "string \<Rightarrow> u8 list \<Rightarrow> nat \<Rightarrow> nat \<Rightarrow> u8 list option option" where
  "a2n_loop str buf blen cnt =
     (case a2n_group str 0 of
        None \<Rightarrow> Some None
      | Some (acc, rest) \<Rightarrow>
          if 255 < acc then Some None
          else do {
            (buf, cnt) \<leftarrow> (if cnt < blen then do { buf \<leftarrow> wr buf cnt (ucast acc); Some (buf, cnt + 1) }
                          else Some (buf, cnt));
            if rest = []
            then (if cnt < blen then map_option Some (fill buf cnt (blen - cnt) 0) else Some (Some buf))
            else a2n_loop (tl rest) buf blen cnt })"
  by pat_completeness auto
termination
  by (relation "measure (\<lambda>(str, buf, blen, cnt). length str)")
    (auto dest!: a2n_group_shorter simp: neq_Nil_conv split: if_splits)

declare a2n_loop.simps [simp del]

definition hexstring_a2n :: "string \<Rightarrow> u8 list \<Rightarrow> nat \<Rightarrow> u8 list option option" where
  "hexstring_a2n str buf blen = a2n_loop str buf blen 0"

section \<open>Command lines\<close>

definition NL :: char where "NL = CHR 0x0A"

text \<open>
  \<open>getline\<close> on the rest of the input: the line with its newline, and what remains; \<open>None\<close> at the
  end of the input, where the line buffer keeps no defined content.
\<close>

definition getline :: "string \<Rightarrow> (string \<times> string) option" where
  "getline inp =
     (if inp = [] then None
      else let l = takeWhile (\<lambda>c. c \<noteq> NL) inp; r = dropWhile (\<lambda>c. c \<noteq> NL) inp
           in Some (case r of [] \<Rightarrow> (l, []) | c # r \<Rightarrow> (l @ [c], r)))"

lemma getline_shorter:
  assumes "getline inp = Some (l, r)"
  shows "length r < length inp"
proof -
  define t where "t = takeWhile (\<lambda>c. c \<noteq> NL) inp"
  define d where "d = dropWhile (\<lambda>c. c \<noteq> NL) inp"
  have "length (t @ d) = length inp" by (simp only: t_def d_def takeWhile_dropWhile_id)
  moreover have "inp \<noteq> []" using assms by (auto simp: getline_def)
  moreover have "(case d of [] \<Rightarrow> [] | c # r \<Rightarrow> r) = r" using assms \<open>inp \<noteq> []\<close>
    unfolding getline_def Let_def t_def [symmetric] d_def [symmetric] by (cases d) simp_all
  ultimately show ?thesis by (cases d) auto
qed

definition c_text :: "string \<Rightarrow> string" where
  "c_text s = takeWhile (\<lambda>c. c \<noteq> NUL) s"

definition cut_comment :: "string \<Rightarrow> string" where
  "cut_comment s = takeWhile (\<lambda>c. c \<noteq> CHR ''#'') s"

text \<open>\<open>strstr\<close> for a backslash and a newline: the text before the first one.\<close>

fun before_continuation :: "string \<Rightarrow> string option" where
  "before_continuation (a # b # s) =
     (if a = CHR 0x5C \<and> b = NL then Some [] else map_option ((#) a) (before_continuation (b # s)))"
| "before_continuation _ = None"

text \<open>
  The loop over continuation lines.  \<open>size_t\<close> is never negative, so that the end of the input is not
  noticed: the code goes on with a line it does not have, \<open>None\<close> here.
\<close>

function cmd_loop :: "string \<Rightarrow> u64 \<Rightarrow> i32 \<Rightarrow> string \<Rightarrow> (string \<times> u64 \<times> i32 \<times> string) option" where
  "cmd_loop linep cc cmdlineno inp =
     (case before_continuation linep of
        None \<Rightarrow> Some (linep, cc, cmdlineno, inp)
      | Some before \<Rightarrow>
          (case getline inp of
             None \<Rightarrow> None
           | Some (line1, inp) \<Rightarrow>
               cmd_loop (before @ cut_comment (c_text line1)) (cc + (of_nat (length line1) - 2)) (cmdlineno + 1) inp))"
  by pat_completeness auto
termination
  by (relation "measure (\<lambda>(linep, cc, cmdlineno, inp). length inp)") (auto dest!: getline_shorter)

declare cmd_loop.simps [simp del]

definition getcmdline :: "i32 \<Rightarrow> string \<Rightarrow> (string \<times> u64 \<times> i32 \<times> string) option" where
  "getcmdline cmdlineno inp = do {
     (line, inp) \<leftarrow> getline inp;
     cmd_loop (cut_comment (c_text line)) (of_nat (length line)) (cmdlineno + 1) inp }"

definition is_ws :: "char \<Rightarrow> bool" where
  "is_ws c \<longleftrightarrow> c = CHR '' '' \<or> c = CHR 0x09 \<or> c = CHR 0x0D \<or> c = CHR 0x0A"

text \<open>\<open>strtok\<close>: the next word and the rest of the line.\<close>

definition strtok_ws :: "string \<Rightarrow> (string \<times> string) option" where
  "strtok_ws s =
     (let t = dropWhile is_ws s
      in if t = [] then None else Some (takeWhile (\<lambda>c. \<not> is_ws c) t, tl (dropWhile (\<lambda>c. \<not> is_ws c) t)))"

lemma strtok_ws_shorter: "strtok_ws s = Some (w, r) \<Longrightarrow> length r < length s"
proof -
  assume s: "strtok_ws s = Some (w, r)"
  define t where "t = dropWhile is_ws s"
  have "length t \<le> length s" by (simp add: t_def length_dropWhile_le)
  moreover have "t \<noteq> []" and r: "r = tl (dropWhile (\<lambda>c. \<not> is_ws c) t)"
    using s by (auto simp: strtok_ws_def t_def Let_def split: if_splits)
  moreover have "length (dropWhile (\<lambda>c. \<not> is_ws c) t) \<le> length t" by (rule length_dropWhile_le)
  moreover have "0 < length t" using \<open>t \<noteq> []\<close> by simp
  ultimately show ?thesis unfolding r length_tl by linarith
qed

text \<open>\<open>argv\<close> holds the words, \<open>None\<close> for a null pointer; the result is \<open>argc\<close> and \<open>argv\<close>.\<close>

function args_loop :: "string \<Rightarrow> int \<Rightarrow> nat \<Rightarrow> string option list \<Rightarrow> (int + nat \<times> string option list) option" where
  "args_loop s maxargs argc argv =
     (case strtok_ws s of
        None \<Rightarrow> do { argv \<leftarrow> wr argv argc None; Some (Inr (argc, argv)) }
      | Some (cp, s) \<Rightarrow>
          if maxargs - 1 \<le> int argc then Some (Inl 1)
          else do { argv \<leftarrow> wr argv argc (Some cp); args_loop s maxargs (argc + 1) argv })"
  by pat_completeness auto
termination by (relation "measure (\<lambda>(s, maxargs, argc, argv). length s)") (auto dest!: strtok_ws_shorter)

declare args_loop.simps [simp del]

definition makeargs :: "string \<Rightarrow> string option list \<Rightarrow> int \<Rightarrow> (int + nat \<times> string option list) option" where
  "makeargs line argv maxargs = args_loop line maxargs 0 argv"


section \<open>Numbers read back\<close>





lemma strtoul_text:
  "fst (strtoul 10 (dec n)) = of_nat (min n ULONG_MAX)" "fst (snd (strtoul 10 (dec n))) = []"
  using scan_int_dec [of "[]" n] by (auto simp: strtoul_def Let_def min_def ULONG_MAX_def)

lemma unat_clamped: "unat (of_nat (min n ULONG_MAX) :: u64) = min n ULONG_MAX"
  by (simp add: unat_of_nat ULONG_MAX_def)

lemma nil_dec: "[] \<noteq> dec n"
  using dec_nonempty [of n] by metis


lemma get_unsigned_max:
  assumes "unat m < ULONG_MAX"
  shows "(let (res, ptr, range) = strtoul 10 (dec n)
    in if ptr = dec n \<or> ptr \<noteq> [] \<or> m < res then None else Some (ucast res :: 'a::len word)) =
    (if n \<le> unat m then Some (of_nat n) else None)"
proof -
  obtain res ptr range where r: "strtoul 10 (dec n) = (res, ptr, range)" by (metis prod_cases3)
  then have e: "res = of_nat (min n ULONG_MAX)" "ptr = []" using strtoul_text [of n] by simp_all
  then have u: "unat res = min n ULONG_MAX" using unat_clamped by simp
  show ?thesis
  proof (cases "n \<le> unat m")
    case True
    then have "\<not> m < res" "unat res = n" using u assms by (simp_all add: word_less_nat_alt)
    moreover have "(ucast res :: 'a word) = of_nat (unat res)" by simp
    ultimately show ?thesis using r e(2) True by (simp add: nil_dec)
  next
    case False
    then have "m < res" using u assms by (simp add: word_less_nat_alt)
    then show ?thesis using r e(2) False by simp
  qed
qed



section \<open>Dotted addresses\<close>

lemma addr_loop_number:
  "\<forall>d \<in> set ds. d < 10 \<Longrightarrow> i < length ap \<Longrightarrow> ap ! i = of_nat acc \<Longrightarrow>
   addr_loop (map digit_char ds @ rest) i ap = addr_loop rest i (ap[i := of_nat (digits_value 10 acc ds)])"
proof (induction ds arbitrary: ap acc)
  case Nil
  then have "ap[i := of_nat acc] = ap" by (metis list_update_id)
  then show ?case by (simp add: digits_value_def)
next
  case (Cons d ds)
  have d: "is_digit (digit_char d)" "digit_val (digit_char d) = d" using Cons.prems(1)
    by (simp_all add: is_digit_char digit_val_char)
  have e: "10 * ap ! i + of_nat d = (of_nat (acc * 10 + d) :: u8)" using Cons.prems(3) by simp
  have "addr_loop (map digit_char ds @ rest) i (ap[i := of_nat (acc * 10 + d)]) =
      addr_loop rest i (ap[i := of_nat (acc * 10 + d), i := of_nat (digits_value 10 (acc * 10 + d) ds)])"
    using Cons.prems by (intro Cons.IH) simp_all
  then show ?case using d e by (simp add: digits_value_def del: of_nat_add of_nat_mult)
qed

lemma addr_loop_dec:
  assumes "i < length ap" "ap ! i = 0"
  shows "addr_loop (dec n @ rest) i ap = addr_loop rest i (ap[i := of_nat n])"
proof -
  have d: "\<forall>d \<in> set (digits 10 n). d < 10" using digits_less [of _ 10 n] by simp
  have "addr_loop (dec n @ rest) i ap = addr_loop rest i (ap[i := of_nat (digits_value 10 0 (digits 10 n))])"
    unfolding dec_digits using assms by (intro addr_loop_number [OF d]) simp_all
  then show ?thesis by (simp add: digits_value_digits)
qed

lemma addr_loop_octet:
  "i < length ap \<Longrightarrow> ap ! i = 0 \<Longrightarrow> i < 3 \<Longrightarrow>
   addr_loop (dec n @ CHR ''.'' # rest) i ap = addr_loop rest (i + 1) (ap[i := of_nat n])"
  by (subst addr_loop_dec) (simp_all add: is_digit_def)

lemma addr_loop_last: "i < length ap \<Longrightarrow> ap ! i = 0 \<Longrightarrow> addr_loop (dec n) i ap = (0, ap[i := of_nat n])"
  using addr_loop_dec [of i ap n "[]"] by simp

definition dotted :: "nat \<Rightarrow> nat \<Rightarrow> nat \<Rightarrow> nat \<Rightarrow> string" where
  "dotted a b c d = dec a @ ''.'' @ dec b @ ''.'' @ dec c @ ''.'' @ dec d"

lemma addr_loop_dotted:
  "addr_loop (dotted a b c d) 0 (replicate 16 0) = (0, [of_nat a, of_nat b, of_nat c, of_nat d] @ replicate 12 0)"
proof -
  have r: "(replicate 16 0 :: u8 list) = [0, 0, 0, 0] @ replicate 12 0" by (simp add: numeral_eq_Suc)
  show ?thesis unfolding r dotted_def by (simp add: addr_loop_octet addr_loop_last)
qed


lemma set_dotted: "x \<in> set (dotted a b c d) \<Longrightarrow> is_digit x \<or> x = CHR ''.''"
  by (auto simp: dotted_def dest: dec_is_digit)

lemma hd_dotted: "is_digit (hd (dotted a b c d))"
  using dec_is_digit [of "hd (dec a)" a] by (simp add: dotted_def)

lemma dotted_not:
  "CHR '':'' \<notin> set (dotted a b c d)" "CHR ''/'' \<notin> set (dotted a b c d)"
  "dotted a b c d @ r \<noteq> ''default''" "dotted a b c d @ r \<noteq> ''all''" "dotted a b c d @ r \<noteq> ''any''"
proof -
  show "CHR '':'' \<notin> set (dotted a b c d)" "CHR ''/'' \<notin> set (dotted a b c d)"
    by (auto dest!: set_dotted simp: is_digit_def)
  have h: "is_digit (hd (dotted a b c d @ r))" using hd_dotted [of a b c d] by (simp add: dotted_def)
  show "dotted a b c d @ r \<noteq> ''default''" "dotted a b c d @ r \<noteq> ''all''" "dotted a b c d @ r \<noteq> ''any''"
    using h by (auto simp: is_digit_def)
qed

lemma hd_digits_pos: "0 < n \<Longrightarrow> hd (digits 10 n) \<noteq> 0"
proof (induction n rule: less_induct)
  case (less n)
  show ?case
  proof (cases "n < 10")
    case True
    then show ?thesis using less.prems by (subst digits.simps) simp
  next
    case False
    then have "hd (digits 10 (n div 10)) \<noteq> 0" by (intro less.IH) auto
    then show ?thesis using False by (subst digits.simps) (simp add: digits_nonempty)
  qed
qed

lemma no_hex_prefix:
  assumes "\<forall>x \<in> set s. is_digit x"
  shows "\<not> hex_prefix s"
proof
  assume "hex_prefix s"
  then obtain z x r where s: "s = z # x # r" "x = CHR ''x'' \<or> x = CHR ''X''"
    by (auto simp: hex_prefix_def split: list.splits)
  then show False using assms by (auto simp: is_digit_def)
qed

lemma digit_char_0: "digit_char 0 = CHR ''0''"
proof -
  have "(of_char (digit_char 0) :: nat) = of_char (CHR ''0'')" by (simp add: of_char_digit)
  then show ?thesis by (simp only: of_char_eq_iff)
qed

lemma scan_int0_dec: "scan_int 0 (dec n) = (False, n, True, [])"
proof -
  have dg: "\<forall>d \<in> set (digits 10 n). d < 10" using digits_less [of _ 10 n] by simp
  obtain e es where e: "digits 10 n = e # es" by (meson digits_nonempty neq_Nil_conv)
  then have "e < 16" "e < 10" using dg by auto
  note c = digit_char_not_space [OF \<open>e < 16\<close>] digit_char_not_sign [OF \<open>e < 16\<close>]
  have s: "dec n = digit_char e # map digit_char es" by (simp add: dec_digits e)
  have nh: "\<not> hex_prefix (dec n)" by (intro no_hex_prefix ballI dec_is_digit)
  have run: "digit_run (if hd0 (dec n) = CHR ''0'' then 8 else 10) 0 (dec n) = (n, [])"
  proof (cases "n = 0")
    case True
    have d0: "dec 0 = ''0''" by (simp add: dec_def num_str.simps digit_char_0)
    show ?thesis unfolding True d0 by (simp add: hd0_def alnum_val_def)
  next
    case False
    have "e \<noteq> 0" using hd_digits_pos [of n] False e by simp
    then have "digit_char e \<noteq> digit_char 0" using digit_char_inj [of e 0] \<open>e < 16\<close> by auto
    moreover note digit_char_0
    ultimately have "hd0 (dec n) \<noteq> CHR ''0''" by (simp add: s hd0_def)
    then show ?thesis using digit_run_digits [OF dg, of "[]" 0] digits_value_digits [of 10 n]
      by (simp add: dec_digits)
  qed
  show ?thesis using run c nh unfolding scan_int_def s by (simp add: Let_def)
qed

lemma get_unsigned_base0:
  "get_unsigned (Some (dec n)) 0 = (if n \<le> 4294967295 then Some (of_nat n) else None)"
proof -
  have "strtoul 0 (dec n) = strtoul 10 (dec n)" using scan_int_dec [of "[]" n] by (simp add: strtoul_def scan_int0_dec)
  then have "get_unsigned (Some (dec n)) 0 = get_unsigned (Some (dec n)) 10" by (simp add: get_unsigned_def)
  then show ?thesis using get_unsigned_max [of 4294967295 n] by (simp add: get_unsigned_def ULONG_MAX_def)
qed

lemma split_slash_at: "CHR ''/'' \<notin> set s \<Longrightarrow> split_slash (s @ CHR ''/'' # r) = (s, Some r)"
  by (induction s) (auto simp: split_slash_def split: list.splits)

definition quad :: "nat \<Rightarrow> nat \<Rightarrow> nat \<Rightarrow> nat \<Rightarrow> u8 list" where
  "quad a b c d = [of_nat a, of_nat b, of_nat c, of_nat d] @ replicate 12 0"

lemma get_addr_dotted:
  "get_addr_1 pton (dotted a b c d) AF_INET =
    (0, \<lparr>family = 2, bytelen = 4, bitlen = - 1, flags = 0, adata = quad a b c d\<rparr>)"
  using dotted_not [of a b c d] dotted_not(3-5) [of a b c d "[]"] addr_loop_dotted [of a b c d]
  by (simp add: get_addr_1_def zero_prefix_def AF_INET_def AF_UNSPEC_def quad_def Let_def)

text \<open>
  A prefix in the form \<open>a.b.c.d/n\<close> is read as its address, the four numbers as bytes in network order,
  and its length, and refused when the length exceeds 32.  So a prefix printed by \<open>inet_ntoa\<close> and \<open>%u\<close>
  is read back; but the numbers are taken modulo 256 without an error.
\<close>

theorem prefix_reads_back:
  "get_prefix_1 pton (dotted a b c d @ CHR ''/'' # dec n) AF_INET =
    (if n \<le> 32 then (0, \<lparr>family = 2, bytelen = 4, bitlen = of_nat n, flags = PREFIXLEN_SPECIFIED, adata = quad a b c d\<rparr>)
     else (- 1, \<lparr>family = 2, bytelen = 4, bitlen = 32, flags = 0, adata = quad a b c d\<rparr>)) \<and>
   get_addr_1 pton (ntoa x) AF_INET =
    (0, \<lparr>family = 2, bytelen = 4, bitlen = - 1, flags = 0,
       adata = [ucast (drop_bit 24 x), ucast (drop_bit 16 x), ucast (drop_bit 8 x), ucast x] @ replicate 12 0\<rparr>) \<and>
   get_addr_1 pton (dotted (a + 256) b c d) AF_INET = get_addr_1 pton (dotted a b c d) AF_INET"
proof (intro conjI)
  let ?dst = "\<lparr>family = 2, bytelen = 4, bitlen = 32, flags = 0, adata = quad a b c d\<rparr>"
  have sp: "split_slash (dotted a b c d @ CHR ''/'' # dec n) = (dotted a b c d, Some (dec n))"
    by (rule split_slash_at [OF dotted_not(2)])
  have st: "get_prefix_1 pton (dotted a b c d @ CHR ''/'' # dec n) AF_INET =
      (case get_unsigned (Some (dec n)) 0 of None \<Rightarrow> (- 1, ?dst)
       | Some plen \<Rightarrow> if scast (32 :: u16) < plen then (- 1, ?dst)
           else (0, ?dst\<lparr>flags := 0 OR PREFIXLEN_SPECIFIED, bitlen := ucast plen\<rparr>))"
    unfolding get_prefix_1_def sp using dotted_not(3-5) [of a b c d "CHR ''/'' # dec n"]
    by (simp add: get_addr_dotted AF_INET6_def AF_DECnet_def Let_def split: option.split)
  have sc: "(scast (32 :: u16) :: u32) = 32" by simp
  show "get_prefix_1 pton (dotted a b c d @ CHR ''/'' # dec n) AF_INET =
    (if n \<le> 32 then (0, \<lparr>family = 2, bytelen = 4, bitlen = of_nat n, flags = PREFIXLEN_SPECIFIED, adata = quad a b c d\<rparr>)
     else (- 1, ?dst))"
  proof (cases "n \<le> 4294967295")
    case True
    then have u: "unat (of_nat n :: u32) = n" by (simp add: unat_of_nat32)
    then have "(32 :: u32) < of_nat n \<longleftrightarrow> 32 < n" by (simp add: word_less_nat_alt)
    moreover have "(ucast (of_nat n :: u32) :: u16) = of_nat n" if "n \<le> 32"
      using that by (simp add: word_unat_eq_iff unsigned_ucast_eq unat_of_nat take_bit_nat_eq_self)
    ultimately show ?thesis unfolding st sc get_unsigned_base0 using True by simp
  next
    case False
    then show ?thesis unfolding st get_unsigned_base0 by simp
  qed
  have oc: "(of_nat (octet k x) :: u8) = ucast (drop_bit (8 * k) x)" for k
  proof -
    have "(of_nat (octet k x) :: u8) = ucast (drop_bit (8 * k) x AND 255)" by (simp add: octet_def)
    also have "\<dots> = ucast (take_bit 8 (drop_bit (8 * k) x))" by (simp add: take_bit_eq_mask mask_eq_exp_minus_1)
    also have "\<dots> = ucast (drop_bit (8 * k) x)" by (rule bit_word_eqI) (simp add: bit_simps)
    finally show ?thesis .
  qed
  have nt: "ntoa x = dotted (octet 3 x) (octet 2 x) (octet 1 x) (octet 0 x)" by (simp add: ntoa_def dotted_def)
  show "get_addr_1 pton (ntoa x) AF_INET =
    (0, \<lparr>family = 2, bytelen = 4, bitlen = - 1, flags = 0,
       adata = [ucast (drop_bit 24 x), ucast (drop_bit 16 x), ucast (drop_bit 8 x), ucast x] @ replicate 12 0\<rparr>)"
    unfolding nt get_addr_dotted quad_def oc by simp
  show "get_addr_1 pton (dotted (a + 256) b c d) AF_INET = get_addr_1 pton (dotted a b c d) AF_INET"
    unfolding get_addr_dotted quad_def by simp
qed


section \<open>Matching addresses\<close>

lemma memcmp_0: "length xs = length ys \<Longrightarrow> memcmp xs ys = 0 \<longleftrightarrow> xs = ys"
  by (induction xs ys rule: list_induct2) auto

text \<open>Bit \<open>n\<close> of an address, counted from the front in network order.\<close>

definition abit :: "inet_prefix \<Rightarrow> nat \<Rightarrow> bool" where
  "abit a n = bit (adata a ! (n div 8)) (7 - n mod 8)"

lemma bit_htonl:
  assumes "p < 32"
  shows "bit (htonl x) p \<longleftrightarrow> bit x (8 * (3 - p div 8) + p mod 8)"
proof -
  have p: "p div 8 < 4" using assms by auto
  have "bit (htonl x) p \<longleftrightarrow> bit (rev (le_bytes 4 (unat x)) ! (p div 8)) (p mod 8)"
    using assms p by (simp add: htonl_def bit_simps bit_le_nat)
  also have "\<dots> \<longleftrightarrow> bit (le_bytes 4 (unat x) ! (3 - p div 8)) (p mod 8)" using p by (simp add: rev_nth)
  also have "\<dots> \<longleftrightarrow> bit x (8 * (3 - p div 8) + p mod 8)"
    by (subst bit_le_bytes) (simp_all add: bit_unsigned_iff)
  finally show ?thesis .
qed

lemma byte_eq_iff: "(x :: u8) = y \<longleftrightarrow> (\<forall>i < 8. bit x (7 - i) = bit y (7 - i))"
proof
  assume h: "\<forall>i < 8. bit x (7 - i) = bit y (7 - i)"
  show "x = y"
  proof (rule bit_word_eqI)
    fix n assume "n < LENGTH(8)"
    then have "7 - (7 - n) = n" "7 - n < 8" by auto
    with h show "bit x n = bit y n" by metis
  qed
qed simp

lemma same_bytes_iff:
  assumes "length (adata a) = 16" "length (adata b) = 16" "w \<le> 4"
  shows "take (4 * w) (adata a) = take (4 * w) (adata b) \<longleftrightarrow> (\<forall>n < 32 * w. abit a n = abit b n)"
proof
  assume h: "take (4 * w) (adata a) = take (4 * w) (adata b)"
  show "\<forall>n < 32 * w. abit a n = abit b n"
  proof (intro allI impI)
    fix n assume "n < 32 * w"
    then have "n div 8 < 4 * w" by auto
    with h have "adata a ! (n div 8) = adata b ! (n div 8)" by (metis nth_take)
    then show "abit a n = abit b n" by (simp add: abit_def)
  qed
next
  assume h: "\<forall>n < 32 * w. abit a n = abit b n"
  show "take (4 * w) (adata a) = take (4 * w) (adata b)"
  proof (rule nth_equalityI)
    show "length (take (4 * w) (adata a)) = length (take (4 * w) (adata b))" using assms by simp
    fix k assume "k < length (take (4 * w) (adata a))"
    then have k: "k < 4 * w" by simp
    have "bit (adata a ! k) (7 - i) = bit (adata b ! k) (7 - i)" if "i < 8" for i
    proof -
      have "8 * k + i < 32 * w" "(8 * k + i) div 8 = k" "(8 * k + i) mod 8 = i" using k that by auto
      with h show ?thesis by (auto simp: abit_def)
    qed
    then show "take (4 * w) (adata a) ! k = take (4 * w) (adata b) ! k" using k by (simp add: byte_eq_iff)
  qed
qed

lemma flip_index:
  assumes "j < (32 :: nat)"
  shows "8 * (j div 8) + (7 - j mod 8) < 32" "(8 * (j div 8) + (7 - j mod 8)) div 8 = j div 8"
    "(8 * (j div 8) + (7 - j mod 8)) mod 8 = 7 - j mod 8"
proof -
  have r: "7 - j mod 8 < 8" by simp
  show "(8 * (j div 8) + (7 - j mod 8)) div 8 = j div 8" "(8 * (j div 8) + (7 - j mod 8)) mod 8 = 7 - j mod 8"
    using byte_index [OF r] by blast+
  have "j div 8 \<le> 3" using assms by auto
  with r show "8 * (j div 8) + (7 - j mod 8) < 32" by linarith
qed

lemma flip_cover:
  assumes "n < (32 :: nat)"
  obtains q where "q < 32" "n = 8 * (q div 8) + (7 - q mod 8)"
proof
  let ?q = "8 * (n div 8) + (7 - n mod 8)"
  show "?q < 32" by (rule flip_index(1) [OF assms])
  show "n = 8 * (?q div 8) + (7 - ?q mod 8)" unfolding flip_index(2,3) [OF assms] by simp
qed

lemma bit_word_at:
  assumes "length (adata a) = 16" "w < 4" "rd_le (adata a) (4 * w) 4 = Some v" "j < 32"
  shows "bit (of_nat v :: u32) (8 * (j div 8) + (7 - j mod 8)) = abit a (32 * w + j)"
proof -
  have v: "v = le_nat (take 4 (drop (4 * w) (adata a)))" using assms(3) by (auto simp: rd_le_def rd_bytes_def split: if_splits)
  let ?p = "8 * (j div 8) + (7 - j mod 8)"
  note p = flip_index [OF assms(4)]
  have j: "j div 8 < 4" using assms(4) by auto
  have "?p < 32" using p by blast
  then have "bit (of_nat v :: u32) ?p \<longleftrightarrow> bit v ?p" by (simp add: bit_simps)
  also have "\<dots> \<longleftrightarrow> bit (adata a ! (4 * w + j div 8)) (7 - j mod 8)"
    unfolding v bit_le_nat p(2,3) using j assms(1,2) by simp
  also have "\<dots> \<longleftrightarrow> abit a (32 * w + j)"
  proof -
    have "32 * w + j = j + 8 * (4 * w)" by simp
    then have "(32 * w + j) div 8 = 4 * w + j div 8" "(32 * w + j) mod 8 = j mod 8"
      by (simp_all only: div_mult_self2 mod_mult_self2 add.commute)
    then show ?thesis by (simp add: abit_def)
  qed
  finally show ?thesis .
qed

lemma masked_words_iff:
  assumes a: "length (adata a) = 16" "rd_le (adata a) (4 * w) 4 = Some v1"
    and b: "length (adata b) = 16" "rd_le (adata b) (4 * w) 4 = Some v2" and w: "w < 4" and k: "0 < k" "k < 32"
  shows "(of_nat v1 XOR of_nat v2) AND htonl (push_bit (32 - k) 4294967295) = 0 \<longleftrightarrow>
    (\<forall>j < k. abit a (32 * w + j) = abit b (32 * w + j))" (is "?m = 0 \<longleftrightarrow> _")
proof -
  let ?p = "\<lambda>j :: nat. 8 * (j div 8) + (7 - j mod 8)"
  have ones: "(4294967295 :: u32) = - 1" by simp
  have mk: "bit (htonl (push_bit (32 - k) 4294967295)) (?p j) \<longleftrightarrow> j < k" if j: "j < 32" for j
  proof -
    note q = flip_index [OF j]
    have "8 * (3 - j div 8) + (7 - j mod 8) = 31 - j"
    proof -
      have "j = 8 * (j div 8) + j mod 8" "j div 8 \<le> 3" "j mod 8 \<le> 7" using j by auto
      then show ?thesis by (simp add: diff_mult_distrib2)
    qed
    then have "bit (htonl (push_bit (32 - k) 4294967295)) (?p j) \<longleftrightarrow> bit (push_bit (32 - k) (4294967295 :: u32)) (31 - j)"
      using bit_htonl [OF q(1)] unfolding q(2,3) by simp
    also have "\<dots> = bit (push_bit (32 - k) (- 1 :: u32)) (31 - j)" unfolding ones ..
    also have "\<dots> \<longleftrightarrow> j < k" using j k by (auto simp: bit_simps)
    finally show ?thesis .
  qed
  have bits: "bit ?m (?p j) \<longleftrightarrow> j < k \<and> abit a (32 * w + j) \<noteq> abit b (32 * w + j)" if "j < 32" for j
    using mk [OF that] bit_word_at [OF a(1) w a(2) that] bit_word_at [OF b(1) w b(2) that] by (auto simp: bit_and_iff bit_xor_iff)
  show ?thesis
  proof
    assume "?m = 0"
    then have nb: "\<not> bit ?m n" for n by (simp only: bit_0_eq bot_apply) simp
    show "\<forall>j < k. abit a (32 * w + j) = abit b (32 * w + j)"
    proof (intro allI impI)
      fix j assume "j < k"
      then show "abit a (32 * w + j) = abit b (32 * w + j)" using bits [of j] nb [of "?p j"] k by simp
    qed
  next
    assume h: "\<forall>j < k. abit a (32 * w + j) = abit b (32 * w + j)"
    show "?m = 0"
    proof (rule bit_word_eqI)
      fix n assume n: "n < LENGTH(32)"
      have n32: "n < 32" using n by simp
      obtain q where q: "q < 32" "n = ?p q"
        by (rule flip_cover [OF n32])
      with bits [OF q(1)] h show "bit ?m n = bit (0 :: u32) n" by simp
    qed
  qed
qed


text \<open>
  \<open>inet_addr_match\<close> on two addresses of 16 bytes and a length of 0 to 128 reads within the addresses
  and returns 0 exactly when their first \<open>bits\<close> bits, counted in network order, agree: the comparison of
  whole words and the byte-swapped mask of the last one together are the prefix comparison.
\<close>

theorem inet_addr_match_prefix:
  assumes "length (adata a) = 16" "length (adata b) = 16" "bits \<le> 128"
  shows "\<exists>r. inet_addr_match a b (int bits) = Some r \<and> (r = 0 \<longleftrightarrow> (\<forall>n < bits. abit a n = abit b n))"
proof -
  let ?w = "bits div 32" and ?k = "bits mod 32"
  have w: "?w \<le> 4" using assms(3) by auto
  have nat: "int bits div 32 = int ?w" "int bits mod 32 = int ?k" by (simp_all add: zdiv_int zmod_int)
  have rd: "rd_bytes (adata a) 0 (4 * ?w) = Some (take (4 * ?w) (adata a))"
    "rd_bytes (adata b) 0 (4 * ?w) = Some (take (4 * ?w) (adata b))"
    using assms w by (simp_all add: rd_bytes_def)
  have len: "length (take (4 * ?w) (adata a)) = length (take (4 * ?w) (adata b))" using assms by simp
  note words = same_bytes_iff [OF assms(1,2) w]
  have split: "(\<forall>n < bits. abit a n = abit b n) \<longleftrightarrow>
      (\<forall>n < 32 * ?w. abit a n = abit b n) \<and> (\<forall>j < ?k. abit a (32 * ?w + j) = abit b (32 * ?w + j))"
    by (rule all_less_split) simp
  show ?thesis
  proof (cases "take (4 * ?w) (adata a) = take (4 * ?w) (adata b)")
    case False
    then have "?w \<noteq> 0" by (cases "?w = 0") auto
    moreover have "memcmp (take (4 * ?w) (adata a)) (take (4 * ?w) (adata b)) \<noteq> 0" using False memcmp_0 [OF len] by simp
    ultimately have "inet_addr_match a b (int bits) = Some (- 1)"
      using rd by (simp add: inet_addr_match_def Let_def nat)
    then show ?thesis using False words split by auto
  next
    case True
    then have mc: "memcmp (take (4 * ?w) (adata a)) (take (4 * ?w) (adata b)) = 0" using memcmp_0 [OF len] by simp
    have pre: "\<forall>n < 32 * ?w. abit a n = abit b n" using True words by simp
    show ?thesis
    proof (cases "?k = 0")
      case zero: True
      then have "inet_addr_match a b (int bits) = Some 0"
        using rd mc by (simp add: inet_addr_match_def Let_def nat)
      then show ?thesis using pre split zero by simp
    next
      case False
      then have "bits \<noteq> 128" by auto
      then have "bits < 4 * 32" using assms(3) by simp
      then have w4: "?w < 4" "0 < ?k" "?k < 32" using False by (simp_all add: div_less_iff_less_mult)
      obtain v1 where v1: "rd_le (adata a) (4 * ?w) 4 = Some v1" using assms(1) w4 by (auto simp: rd_le_def rd_bytes_def)
      obtain v2 where v2: "rd_le (adata b) (4 * ?w) 4 = Some v2" using assms(2) w4 by (auto simp: rd_le_def rd_bytes_def)
      have "inet_addr_match a b (int bits) =
          Some (if (of_nat v1 XOR of_nat v2) AND htonl (push_bit (32 - ?k) 4294967295) \<noteq> 0 then 1 else 0)"
        using rd mc v1 v2 False by (simp add: inet_addr_match_def Let_def nat)
      then show ?thesis using masked_words_iff [OF assms(1) v1 assms(2) v2 w4] pre split by auto
    qed
  qed
qed

lemma inet_addr_match_prefix_witness:
  "\<exists>r. inet_addr_match zero_prefix (zero_prefix\<lparr>adata := [0, 0, 1] @ replicate 13 0\<rparr>) (int 23) = Some r \<and> r = 0"
proof -
  let ?b = "zero_prefix\<lparr>adata := [0, 0, 1] @ replicate 13 0\<rparr>"
  have "abit zero_prefix n = abit ?b n" if "n < 23" for n
  proof -
    have "n div 8 = 0 \<or> n div 8 = 1 \<or> n div 8 = 2 \<and> n mod 8 < 7" using that by presburger
    then show ?thesis by (elim disjE) (simp_all add: abit_def zero_prefix_def numeral_2_eq_2 bit_1_iff)
  qed
  moreover obtain r where "inet_addr_match zero_prefix ?b (int 23) = Some r"
    "r = 0 \<longleftrightarrow> (\<forall>n < 23. abit zero_prefix n = abit ?b n)"
    using inet_addr_match_prefix [of zero_prefix ?b 23] by (auto simp: zero_prefix_def)
  ultimately show ?thesis by blast
qed


section \<open>Hexadecimal strings there and back\<close>

definition hex_text :: "u8 list \<Rightarrow> string" where
  "hex_text bs = join '':'' (map hex2 bs)"

lemma hex_text_Cons: "hex_text (b # bs) = hex2 b @ (if bs = [] then [] else CHR '':'' # hex_text bs)"
  by (simp add: hex_text_def join_Cons)

lemma put_text_in:
  "p + length s \<le> length buf \<Longrightarrow> put_text buf p s = Some (take p buf @ s @ drop (p + length s) buf)"
  by (simp add: put_text_def blit_in)

lemma n2a_loop_text:
  assumes "length str = len"
  shows "i < len \<Longrightarrow> 3 * (len - i) \<le> nat blen \<Longrightarrow> ptr + 3 * (len - i) \<le> length buf \<Longrightarrow>
    n2a_loop str len i buf ptr blen =
      Some (take ptr buf @ hex_text (drop i str) @ NUL # drop (ptr + 3 * (len - i)) buf)"
proof (induction "len - i" arbitrary: i buf ptr blen)
  case 0
  then show ?case by simp
next
  case (Suc k)
  have i: "i < length str" using Suc.prems(1) assms by simp
  have blen: "\<not> blen < 3" using Suc.prems(1,2) by linarith
  have l3: "length (hex2 (str ! i) @ [NUL]) = 3" by (simp add: hex2_def)
  have p3: "ptr + 3 \<le> length buf" using Suc.prems by linarith
  let ?b1 = "take ptr buf @ (hex2 (str ! i) @ [NUL]) @ drop (ptr + 3) buf"
  have put: "put_text buf ptr (hex2 (str ! i) @ [NUL]) = Some ?b1" using put_text_in [of ptr "hex2 (str ! i) @ [NUL]" buf] p3 unfolding l3 by simp
  have dr: "drop i str = str ! i # drop (Suc i) str" using i by (simp add: Cons_nth_drop_Suc)
  show ?case
  proof (cases "i = len - 1")
    case True
    then have one: "len - i = 1" and "drop (Suc i) str = []" using Suc.prems(1) assms by simp_all
    then have ht: "hex_text (drop i str) = hex2 (str ! i)" unfolding dr by (simp add: hex_text_Cons)
    have "n2a_loop str len (i + 1) ?b1 (ptr + 2) (blen - 2) = Some ?b1"
    proof -
      have "i + 1 = len" using True Suc.prems(1) by simp
      then show ?thesis by (subst n2a_loop.simps) simp
    qed
    then have "n2a_loop str len i buf ptr blen = Some ?b1"
      using put i blen True Suc.prems(1) by (subst n2a_loop.simps) (simp add: rd_in Let_def)
    then show ?thesis unfolding ht one by simp
  next
    case False
    then have k: "k = len - (i + 1)" "i + 1 < len" using Suc.hyps(2) Suc.prems(1) by simp_all
    let ?b2 = "take ptr buf @ hex2 (str ! i) @ CHR '':'' # drop (ptr + 3) buf"
    have lt: "length (take ptr buf) = ptr" using p3 by simp
    have "wr ?b1 (ptr + 2) (CHR '':'') = Some ?b2"
      using p3 lt by (simp add: wr_def hex2_def list_update_append)
    moreover have "1 < blen - 2" using Suc.prems(2) k(2) by linarith
    ultimately have step: "n2a_loop str len i buf ptr blen = n2a_loop str len (i + 1) ?b2 (ptr + 3) (blen - 3)"
      using put i blen False Suc.prems(1) by (subst n2a_loop.simps) (simp add: rd_in Let_def numeral_3_eq_3)
    have pre: "take (ptr + 3) ?b2 = take ptr buf @ hex2 (str ! i) @ '':''" "length ?b2 = length buf"
      using lt p3 by (simp_all add: hex2_def)
    have post: "drop (ptr + 3 + q) ?b2 = drop (ptr + 3 + q) buf" for q
      using lt by (simp add: hex2_def numeral_3_eq_3 add.commute)
    have "n2a_loop str len (i + 1) ?b2 (ptr + 3) (blen - 3) =
        Some (take (ptr + 3) ?b2 @ hex_text (drop (i + 1) str) @ NUL # drop (ptr + 3 + 3 * (len - (i + 1))) ?b2)"
      using k Suc.prems(2,3) pre(2) by (intro Suc.hyps(1)) linarith+
    moreover have "drop (ptr + 3 + 3 * (len - (i + 1))) ?b2 = drop (ptr + 3 * (len - i)) buf"
    proof -
      have "ptr + 3 + 3 * (len - (i + 1)) = ptr + 3 * (len - i)" using Suc.prems(1) by simp
      then show ?thesis using post [of "3 * (len - (i + 1))"] by (simp only:)
    qed
    moreover have "drop (Suc i) str \<noteq> []" using k(2) assms by simp
    ultimately show ?thesis unfolding step pre(1) by (simp add: dr hex_text_Cons)
  qed
qed

lemma hex_digit:
  assumes "d < 16"
  shows "digit_char d \<noteq> CHR '':''" "alnum_val (digit_char d) = d" "digit_char d \<noteq> NUL"
proof -
  show v: "alnum_val (digit_char d) = d" by (rule alnum_val_digit [OF assms])
  have "alnum_val (CHR '':'') = 36" "alnum_val NUL = 36" by (simp_all add: alnum_val_def NUL_def)
  with v assms show "digit_char d \<noteq> CHR '':''" "digit_char d \<noteq> NUL" by auto
qed

lemma nibbles: "unat (b :: u8) div 16 < 16" "unat b mod 16 < 16"
proof -
  have "unat b < 2 ^ LENGTH(8)" by (rule unsigned_less)
  then show "unat b div 16 < 16" by (simp add: div_less_iff_less_mult)
qed simp

lemma a2n_group_hex2:
  assumes "rest = [] \<or> hd rest = CHR '':''"
  shows "a2n_group (hex2 b @ rest) 0 = Some (ucast b, rest)"
proof -
  have "(of_nat (unat b div 16) :: u32) * 16 + of_nat (unat b mod 16) = of_nat (unat b div 16 * 16 + unat b mod 16)"
    by (simp only: of_nat_add of_nat_mult of_nat_numeral)
  also have "\<dots> = ucast b" by simp
  finally have v: "push_bit 4 (of_nat (unat b div 16) :: u32) + of_nat (unat b mod 16) = ucast b"
    by (simp add: push_bit_eq_mult)
  have "a2n_group rest acc = Some (acc, rest)" for acc using assms by (cases rest) auto
  then show ?thesis using hex_digit [OF nibbles(1) [of b]] hex_digit [OF nibbles(2) [of b]] v nibbles(1) [of b] by (simp add: hex2_def)
qed

lemma a2n_loop_text:
  "bs \<noteq> [] \<Longrightarrow> cnt + length bs \<le> blen \<Longrightarrow> blen \<le> length buf \<Longrightarrow>
   a2n_loop (hex_text bs) buf blen cnt =
     Some (Some (take cnt buf @ bs @ replicate (blen - (cnt + length bs)) 0 @ drop blen buf))"
proof (induction bs arbitrary: buf cnt)
  case (Cons b bs)
  have cnt: "cnt < blen" "cnt < length buf" using Cons.prems by simp_all
  have b: "\<not> (255 :: u32) < ucast b" "(ucast (ucast b :: u32) :: u8) = b"
  proof -
    have "unat b < 2 ^ LENGTH(8)" by (rule unsigned_less)
    then have "unat (ucast b :: u32) \<le> 255" by (simp add: unsigned_ucast_eq take_bit_nat_eq_self)
    then show "\<not> (255 :: u32) < ucast b" by (simp add: word_less_nat_alt)
    show "(ucast (ucast b :: u32) :: u8) = b" by (rule bit_word_eqI) (simp add: bit_simps)
  qed
  have up: "take (Suc cnt) (buf[cnt := b]) = take cnt buf @ [b]" "drop blen (buf[cnt := b]) = drop blen buf"
    using cnt by (simp add: upd_conv_take_nth_drop, simp)
  show ?case
  proof (cases "bs = []")
    case True
    have g: "a2n_group (hex_text (b # bs)) 0 = Some (ucast b, [])" using a2n_group_hex2 [of "[]" b] True by (simp add: hex_text_Cons)
    show ?thesis
    proof (cases "cnt + 1 < blen")
      case less: True
      then show ?thesis using g b cnt Cons.prems True
        by (subst a2n_loop.simps) (simp add: wr_in fill_in up del: take_update_swap)
    next
      case False
      then have "blen = Suc cnt" using cnt by simp
      then have "buf[cnt := b] = take cnt buf @ b # drop blen buf" using cnt by (simp add: upd_conv_take_nth_drop)
      then show ?thesis using g b cnt True \<open>blen = Suc cnt\<close> by (subst a2n_loop.simps) (simp add: wr_in)
    qed
  next
    case False
    have g: "a2n_group (hex_text (b # bs)) 0 = Some (ucast b, CHR '':'' # hex_text bs)"
      using a2n_group_hex2 [of "CHR '':'' # hex_text bs" b] False by (simp add: hex_text_Cons)
    have "a2n_loop (hex_text bs) (buf[cnt := b]) blen (cnt + 1) =
        Some (Some (take (cnt + 1) (buf[cnt := b]) @ bs @ replicate (blen - (cnt + 1 + length bs)) 0 @ drop blen (buf[cnt := b])))"
      using Cons.prems False by (intro Cons.IH) simp_all
    then show ?thesis using g b cnt up by (subst a2n_loop.simps) (simp add: wr_in)
  qed
qed simp

lemma no_NUL_hex_text: "NUL \<notin> set (hex_text bs)"
proof (induction bs)
  case Nil
  then show ?case by (simp add: hex_text_def)
next
  case (Cons b bs)
  have "alnum_val NUL \<noteq> 10" "(of_char NUL :: nat) \<noteq> of_char (CHR '':'')" by (simp_all add: NUL_def alnum_val_def)
  then have "NUL \<noteq> CHR '':''" by metis
  then show ?case using Cons hex_digit(3) [OF nibbles(1) [of b]] hex_digit(3) [OF nibbles(2) [of b]]
    by (auto simp: hex_text_Cons hex2_def)
qed

text \<open>
  With room for three characters a byte, \<open>hexstring_n2a\<close> writes the bytes as pairs of digits with colons
  and a terminator, all within the buffer, and \<open>hexstring_a2n\<close> reads the same bytes back and fills the rest of
  its buffer with zeros.
\<close>

theorem hexstring_roundtrip:
  assumes "bs \<noteq> []" "3 * length bs \<le> length buf" "length bs \<le> n" "n \<le> length out"
  shows "\<exists>buf'. hexstring_n2a bs (length bs) buf (int (length buf)) = Some buf' \<and> NUL \<in> set buf' \<and>
    hexstring_a2n (c_text buf') out n = Some (Some (bs @ replicate (n - length bs) 0 @ drop n out))"
proof -
  let ?buf = "hex_text bs @ NUL # drop (3 * length bs) buf"
  have "hexstring_n2a bs (length bs) buf (int (length buf)) = Some ?buf"
    using n2a_loop_text [of bs "length bs" 0 "int (length buf)" 0 buf] assms(1,2) by (simp add: hexstring_n2a_def)
  moreover have "c_text ?buf = hex_text bs"
    using no_NUL_hex_text [of bs] by (simp add: c_text_def takeWhile_append)
  moreover have "hexstring_a2n (hex_text bs) out n = Some (Some (bs @ replicate (n - length bs) 0 @ drop n out))"
    using a2n_loop_text [of bs 0 n out] assms by (simp add: hexstring_a2n_def)
  ultimately show ?thesis by auto
qed

lemma hexstring_roundtrip_witness:
  "\<exists>buf'. hexstring_n2a [1, 171] 2 (replicate 8 CHR ''?'') 8 = Some buf' \<and>
     hexstring_a2n (c_text buf') (replicate 4 7) 4 = Some (Some [1, 171, 0, 0])"
  using hexstring_roundtrip [of "[1, 171]" "replicate 8 CHR ''?''" 4 "replicate 4 7"] by (auto simp: numeral_2_eq_2)

text \<open>A buffer that is too small may end behind a colon without a terminator.\<close>

lemma hexstring_n2a_unterminated:
  "hexstring_n2a [x, y] 2 [c1, c2, c3, c4] 4 = Some (hex2 x @ [CHR '':'', c4])"
  by (simp add: hexstring_n2a_def n2a_loop.simps Let_def rd_def put_text_def blit_def wr_def hex2_def)


section \<open>Splitting a command line\<close>

text \<open>Blanks, then words that blanks follow.\<close>

fun laid_out :: "string \<Rightarrow> (string \<times> string) list \<Rightarrow> string" where
  "laid_out s [] = s"
| "laid_out s ((w, s') # ps) = s @ w @ laid_out s' ps"

definition blank :: "string \<Rightarrow> bool" where
  "blank s \<longleftrightarrow> (\<forall>c \<in> set s. is_ws c)"

definition word :: "string \<Rightarrow> bool" where
  "word w \<longleftrightarrow> w \<noteq> [] \<and> (\<forall>c \<in> set w. \<not> is_ws c)"

fun words_laid :: "(string \<times> string) list \<Rightarrow> bool" where
  "words_laid [] = True"
| "words_laid ((w, s) # ps) \<longleftrightarrow> word w \<and> blank s \<and> (ps \<noteq> [] \<longrightarrow> s \<noteq> []) \<and> words_laid ps"

lemma strtok_ws_word:
  assumes "blank s" "word w" "rest = [] \<or> is_ws (hd rest)"
  shows "strtok_ws (s @ w @ rest) = Some (w, tl rest)"
proof -
  have "dropWhile is_ws (s @ w @ rest) = w @ rest"
    using assms(1,2) by (cases w) (auto simp: blank_def word_def)
  moreover have "takeWhile (\<lambda>c. \<not> is_ws c) (w @ rest) = w" "dropWhile (\<lambda>c. \<not> is_ws c) (w @ rest) = rest"
    using assms(2,3) by (cases rest; auto simp: word_def)+
  ultimately show ?thesis using assms(2) by (simp add: strtok_ws_def Let_def word_def)
qed

lemma laid_out_blank: "words_laid ((w, s) # ps) \<Longrightarrow> laid_out s ps = [] \<or> is_ws (hd (laid_out s ps))"
  by (cases ps) (cases s; auto simp: blank_def)+

lemma args_loop_words:
  "blank s \<Longrightarrow> words_laid ps \<Longrightarrow> argc + length ps < length argv \<Longrightarrow> int (argc + length ps) \<le> maxargs - 1 \<Longrightarrow>
   args_loop (laid_out s ps) maxargs argc argv =
     Some (Inr (argc + length ps, take argc argv @ map (Some \<circ> fst) ps @ None # drop (Suc (argc + length ps)) argv))"
proof (induction ps arbitrary: s argc argv)
  case Nil
  have "dropWhile is_ws s = []" using Nil.prems(1) by (simp add: blank_def)
  then show ?case using Nil.prems(3)
    by (subst args_loop.simps) (simp add: strtok_ws_def wr_in upd_conv_take_nth_drop)
next
  case (Cons p ps)
  obtain w s' where p: "p = (w, s')" by fastforce
  have tok: "strtok_ws (laid_out s (p # ps)) = Some (w, tl (laid_out s' ps))"
    using strtok_ws_word [OF Cons.prems(1), of w "laid_out s' ps"] laid_out_blank [of w s' ps] Cons.prems(2)
    by (simp add: p)
  have rest: "tl (laid_out s' ps) = laid_out (tl s') ps" using Cons.prems(2) by (cases ps) (cases s'; auto simp: p)+
  have "blank (tl s')" using Cons.prems(2) by (cases s') (auto simp: p blank_def)
  then have "args_loop (laid_out (tl s') ps) maxargs (argc + 1) (argv[argc := Some w]) =
      Some (Inr (argc + 1 + length ps, take (argc + 1) (argv[argc := Some w]) @ map (Some \<circ> fst) ps @
        None # drop (Suc (argc + 1 + length ps)) (argv[argc := Some w])))"
    using Cons.prems by (intro Cons.IH) (simp_all add: p)
  moreover have "take (argc + 1) (argv[argc := Some w]) = take argc argv @ [Some w]"
    using Cons.prems(3) by (simp add: upd_conv_take_nth_drop)
  moreover have "\<not> maxargs - 1 \<le> int argc" "argc < length argv" using Cons.prems(3,4) by simp_all
  ultimately show ?case using tok rest by (subst args_loop.simps) (simp add: wr_in p)
qed

lemma makeargs_words:
  assumes "blank s" "words_laid ps" "length ps < length argv" "int (length ps) < maxargs"
  shows "makeargs (laid_out s ps) argv maxargs =
    Some (Inr (length ps, map (Some \<circ> fst) ps @ None # drop (Suc (length ps)) argv))"
  using args_loop_words [of s ps 0 argv maxargs] assms by (simp add: makeargs_def)

end
