(* ===== verification/NlAttr.thy ===== *)
theory NlAttr
  imports Bytes Interfaces
begin

text \<open>
  The attributes of netlink messages: \<open>addattr32\<close> to \<open>parse_rtattr_byindex\<close> of
  \<open>src/netlink/libnetlink.c\<close>.  A message or attribute is the memory it starts, as bytes; a pointer into
  it is an offset.  Lengths that the code passes as \<open>int\<close> are not negative.  The length of a message is
  its first field, of 4 bytes, the length and the type of an attribute are its first two, of 2 bytes.
  \<open>None\<close> is an access outside the memory.
\<close>

section \<open>The layout macros\<close>

text \<open>\<open>NLMSG_ALIGN\<close> on the \<open>unsigned\<close> length of a message wraps; \<open>RTA_ALIGN\<close> is on small numbers.\<close>

definition NLMSG_ALIGN :: "nat \<Rightarrow> nat" where
  "NLMSG_ALIGN n = (n + 3) mod 4294967296 div 4 * 4"

definition RTA_ALIGN :: "nat \<Rightarrow> nat" where
  "RTA_ALIGN n = (n + 3) div 4 * 4"

definition RTA_LENGTH :: "nat \<Rightarrow> nat" where
  "RTA_LENGTH n = RTA_ALIGN 4 + n"

text \<open>\<open>NLMSG_TAIL\<close>: where the next attribute of a message goes.\<close>

definition NLMSG_TAIL :: "u8 list \<Rightarrow> nat option" where
  "NLMSG_TAIL n = map_option NLMSG_ALIGN (rd_le n 0 4)"

section \<open>Adding attributes\<close>

definition put_attr :: "u8 list \<Rightarrow> nat \<Rightarrow> nat \<Rightarrow> nat \<Rightarrow> u8 list \<Rightarrow> u8 list option" where
  "put_attr m rta type len d = do {
     m \<leftarrow> wr_bytes m (rta + 2) (le_bytes 2 type);
     m \<leftarrow> wr_bytes m rta (le_bytes 2 len);
     wr_bytes m (rta + 4) d }"

definition addattr32 :: "u8 list \<Rightarrow> nat \<Rightarrow> nat \<Rightarrow> u32 \<Rightarrow> (int \<times> u8 list) option" where
  "addattr32 n maxlen type d = do {
     nlen \<leftarrow> rd_le n 0 4;
     let len = RTA_LENGTH 4;
     if maxlen < NLMSG_ALIGN nlen + len then Some (- 1, n)
     else do {
       rta \<leftarrow> NLMSG_TAIL n;
       n \<leftarrow> put_attr n rta type len (le_bytes 4 (unat d));
       n \<leftarrow> wr_bytes n 0 (le_bytes 4 (NLMSG_ALIGN nlen + len));
       Some (0, n) } }"

definition addattr_l :: "u8 list \<Rightarrow> nat \<Rightarrow> nat \<Rightarrow> u8 list \<Rightarrow> nat \<Rightarrow> (int \<times> u8 list) option" where
  "addattr_l n maxlen type d alen = do {
     nlen \<leftarrow> rd_le n 0 4;
     let len = RTA_LENGTH alen;
     if maxlen < NLMSG_ALIGN nlen + RTA_ALIGN len then Some (- 1, n)
     else do {
       rta \<leftarrow> NLMSG_TAIL n;
       d \<leftarrow> rd_bytes d 0 alen;
       n \<leftarrow> put_attr n rta type len d;
       n \<leftarrow> wr_bytes n 0 (le_bytes 4 (NLMSG_ALIGN nlen + RTA_ALIGN len));
       Some (0, n) } }"

definition addraw_l :: "u8 list \<Rightarrow> nat \<Rightarrow> u8 list \<Rightarrow> nat \<Rightarrow> (int \<times> u8 list) option" where
  "addraw_l n maxlen d len = do {
     nlen \<leftarrow> rd_le n 0 4;
     if maxlen < NLMSG_ALIGN nlen + NLMSG_ALIGN len then Some (- 1, n)
     else do {
       tail \<leftarrow> NLMSG_TAIL n;
       d \<leftarrow> rd_bytes d 0 len;
       n \<leftarrow> wr_bytes n tail d;
       tail \<leftarrow> NLMSG_TAIL n;
       n \<leftarrow> wr_bytes n (tail + len) (replicate (NLMSG_ALIGN len - len) 0);
       n \<leftarrow> wr_bytes n 0 (le_bytes 4 (NLMSG_ALIGN nlen + NLMSG_ALIGN len));
       Some (0, n) } }"

text \<open>Attributes within an attribute: the length field has 2 bytes.\<close>

definition rta_addattr32 :: "u8 list \<Rightarrow> nat \<Rightarrow> nat \<Rightarrow> u32 \<Rightarrow> (int \<times> u8 list) option" where
  "rta_addattr32 rta maxlen type d = do {
     rlen \<leftarrow> rd_le rta 0 2;
     let len = RTA_LENGTH 4;
     if maxlen < RTA_ALIGN rlen + len then Some (- 1, rta)
     else do {
       rta \<leftarrow> put_attr rta (RTA_ALIGN rlen) type len (le_bytes 4 (unat d));
       rta \<leftarrow> wr_bytes rta 0 (le_bytes 2 (NLMSG_ALIGN rlen + len));
       Some (0, rta) } }"

definition rta_addattr_l :: "u8 list \<Rightarrow> nat \<Rightarrow> nat \<Rightarrow> u8 list \<Rightarrow> nat \<Rightarrow> (int \<times> u8 list) option" where
  "rta_addattr_l rta maxlen type d alen = do {
     rlen \<leftarrow> rd_le rta 0 2;
     let len = RTA_LENGTH alen;
     if maxlen < RTA_ALIGN rlen + RTA_ALIGN len then Some (- 1, rta)
     else do {
       d \<leftarrow> rd_bytes d 0 alen;
       rta \<leftarrow> put_attr rta (RTA_ALIGN rlen) type len d;
       rta \<leftarrow> wr_bytes rta 0 (le_bytes 2 (NLMSG_ALIGN rlen + RTA_ALIGN len));
       Some (0, rta) } }"

section \<open>Parsing\<close>

text \<open>\<open>RTA_OK\<close>, with the length of the attribute when it holds.\<close>

definition RTA_OK :: "u8 list \<Rightarrow> nat \<Rightarrow> int \<Rightarrow> nat option option" where
  "RTA_OK buf rta len =
     (if len < 4 then Some None
      else do { l \<leftarrow> rd_le buf rta 2; Some (if 4 \<le> l \<and> int l \<le> len then Some l else None) })"

text \<open>
  The report of a deficit prints the length field at the place where the loop stopped, which it reads even
  when the range has no byte left there.
\<close>

definition deficit :: "u8 list \<Rightarrow> nat \<Rightarrow> int \<Rightarrow> unit option" where
  "deficit buf rta len = (if len = 0 then Some () else map_option (\<lambda>l. ()) (rd_le buf rta 2))"

text \<open>The table of offsets and the bytes left over, which are reported when they are not 0.\<close>

function parse_loop :: "u8 list \<Rightarrow> nat \<Rightarrow> nat \<Rightarrow> int \<Rightarrow> nat option list \<Rightarrow> (nat option list \<times> int) option" where
  "parse_loop buf mx rta len tb = do {
     ok \<leftarrow> RTA_OK buf rta len;
     case ok of
       None \<Rightarrow> do { deficit buf rta len; Some (tb, len) }
     | Some l \<Rightarrow> do {
         t \<leftarrow> rd_le buf (rta + 2) 2;
         let tb = (if t \<le> mx then tb[t := Some rta] else tb);
         parse_loop buf mx (rta + RTA_ALIGN l) (len - int (RTA_ALIGN l)) tb } }"
  by pat_completeness auto
termination
  by (relation "measure (\<lambda>(buf, mx, rta, len, tb). nat len)")
    (auto simp: RTA_OK_def RTA_ALIGN_def bind_Some_iff split: if_splits)

declare parse_loop.simps [simp del]

definition parse_rtattr :: "nat \<Rightarrow> u8 list \<Rightarrow> nat \<Rightarrow> int \<Rightarrow> (nat option list \<times> int) option" where
  "parse_rtattr mx buf rta len = parse_loop buf mx rta len (replicate (mx + 1) None)"

text \<open>The attributes in the order of the message, at most \<open>mx\<close> of them; the result is their number.\<close>

function byindex_loop ::
  "u8 list \<Rightarrow> nat \<Rightarrow> nat \<Rightarrow> int \<Rightarrow> nat option list \<Rightarrow> nat \<Rightarrow> (nat \<times> nat option list \<times> int) option" where
  "byindex_loop buf mx rta len tb i = do {
     ok \<leftarrow> RTA_OK buf rta len;
     case ok of
       None \<Rightarrow> do { deficit buf rta len; Some (i, tb, len) }
     | Some l \<Rightarrow> do {
         t \<leftarrow> rd_le buf (rta + 2) 2;
         let (tb, i) = (if t \<le> mx \<and> i < mx then (tb[i := Some rta], i + 1) else (tb, i));
         byindex_loop buf mx (rta + RTA_ALIGN l) (len - int (RTA_ALIGN l)) tb i } }"
  by pat_completeness auto
termination
  by (relation "measure (\<lambda>(buf, mx, rta, len, tb, i). nat len)")
    (auto simp: RTA_OK_def RTA_ALIGN_def bind_Some_iff split: if_splits)

declare byindex_loop.simps [simp del]

definition parse_rtattr_byindex :: "nat \<Rightarrow> u8 list \<Rightarrow> nat \<Rightarrow> int \<Rightarrow> (nat \<times> nat option list \<times> int) option" where
  "parse_rtattr_byindex mx buf rta len = byindex_loop buf mx rta len (replicate mx None) 0"


section \<open>Attributes in memory\<close>

text \<open>The attributes \<open>as\<close>, pairs of type and payload, lie at \<open>off\<close>.\<close>

fun attrs_at :: "u8 list \<Rightarrow> nat \<Rightarrow> (nat \<times> u8 list) list \<Rightarrow> bool" where
  "attrs_at buf off [] = True"
| "attrs_at buf off ((t, d) # as) \<longleftrightarrow>
     rd_le buf off 2 = Some (4 + length d) \<and> rd_le buf (off + 2) 2 = Some t \<and>
     rd_bytes buf (off + 4) (length d) = Some d \<and>
     attrs_at buf (off + RTA_ALIGN (4 + length d)) as"

definition attr_size :: "nat \<times> u8 list \<Rightarrow> nat" where
  "attr_size a = RTA_ALIGN (4 + length (snd a))"

definition attrs_size :: "(nat \<times> u8 list) list \<Rightarrow> nat" where
  "attrs_size as = sum_list (map attr_size as)"

definition good_attr :: "nat \<times> u8 list \<Rightarrow> bool" where
  "good_attr a \<longleftrightarrow> fst a < 65536 \<and> length (snd a) < 65532"

lemma RTA_ALIGN_bounds: "n \<le> RTA_ALIGN n" "RTA_ALIGN n < n + 4" "RTA_ALIGN n mod 4 = 0"
proof -
  have "n + 3 = (n + 3) div 4 * 4 + (n + 3) mod 4" "(n + 3) mod 4 < 4" by simp_all
  then show "n \<le> RTA_ALIGN n" "RTA_ALIGN n < n + 4" unfolding RTA_ALIGN_def by linarith+
qed (simp add: RTA_ALIGN_def)

lemma RTA_ALIGN_aligned: "n mod 4 = 0 \<Longrightarrow> RTA_ALIGN n = n"
proof -
  assume "n mod 4 = 0"
  then obtain k where "n = 4 * k" by auto
  then show ?thesis by (simp add: RTA_ALIGN_def)
qed

lemma NLMSG_ALIGN_aligned: "n mod 4 = 0 \<Longrightarrow> n < 4294967293 \<Longrightarrow> NLMSG_ALIGN n = n"
  using RTA_ALIGN_aligned [of n] by (simp add: NLMSG_ALIGN_def RTA_ALIGN_def)

lemma attr_size_mod: "attr_size a mod 4 = 0"
  by (simp add: attr_size_def RTA_ALIGN_bounds)

lemma attrs_size_simps [simp]: "attrs_size [] = 0" "attrs_size (a # as) = attr_size a + attrs_size as"
  by (simp_all add: attrs_size_def)

lemma attrs_at_append: "attrs_at buf off (as @ bs) \<longleftrightarrow> attrs_at buf off as \<and> attrs_at buf (off + attrs_size as) bs"
  by (induction as arbitrary: off) (auto simp: attr_size_def add.assoc)

lemma attrs_at_frame:
  assumes "\<And>p n. lo \<le> p \<Longrightarrow> p + n \<le> hi \<Longrightarrow> rd_bytes buf' p n = rd_bytes buf p n"
  shows "attrs_at buf off as \<Longrightarrow> lo \<le> off \<Longrightarrow> off + attrs_size as \<le> hi \<Longrightarrow> attrs_at buf' off as"
proof (induction as arbitrary: off)
  case (Cons a as)
  obtain t d where a: "a = (t, d)" by fastforce
  have sz: "4 + length d \<le> attr_size a" using RTA_ALIGN_bounds(1) by (simp add: a attr_size_def)
  then have in_hi: "off + 4 + length d \<le> hi" using Cons.prems(3) by simp
  have le: "rd_le buf' p n = rd_le buf p n" if "lo \<le> p" "p + n \<le> hi" for p n
    using assms [OF that] by (simp add: rd_le_def)
  have "attrs_at buf' (off + attr_size a) as"
    using Cons.prems by (intro Cons.IH) (simp_all add: a attr_size_def)
  then show ?case using Cons.prems(1,2) in_hi le [of off 2] le [of "off + 2" 2] assms [of "off + 4" "length d"]
    by (simp add: a attr_size_def)
qed simp

lemma put_attr_spec:
  assumes "rta + 4 + length d \<le> length m" "t < 65536" "length d < 65532"
  shows "\<exists>m'. put_attr m rta t (4 + length d) d = Some m' \<and> length m' = length m \<and> attrs_at m' rta [(t, d)] \<and>
    (\<forall>p n. p + n \<le> rta \<or> rta + 4 + length d \<le> p \<longrightarrow> rd_bytes m' p n = rd_bytes m p n)"
proof -
  obtain m1 where m1: "wr_bytes m (rta + 2) (le_bytes 2 t) = Some m1" using assms(1) by (simp add: wr_bytes_def)
  note l1 = length_wr_bytes [OF m1]
  obtain m2 where m2: "wr_bytes m1 rta (le_bytes 2 (4 + length d)) = Some m2" using assms(1) l1 by (simp add: wr_bytes_def)
  note l2 = length_wr_bytes [OF m2]
  obtain m3 where m3: "wr_bytes m2 (rta + 4) d = Some m3" using assms(1) l1 l2 by (simp add: wr_bytes_def)
  have "rd_le m3 rta 2 = Some (4 + length d)"
    using rd_le_wr_other [OF m3, of rta 2] rd_le_wr_same [OF m2] assms(3) by simp
  moreover have "rd_le m3 (rta + 2) 2 = Some t"
    using rd_le_wr_other [OF m3, of "rta + 2" 2] rd_le_wr_other [OF m2, of "rta + 2" 2] rd_le_wr_same [OF m1] assms(2) by simp
  moreover have "rd_bytes m3 (rta + 4) (length d) = Some d" by (rule rd_wr_same [OF m3])
  moreover have "rd_bytes m3 p n = rd_bytes m p n" if "p + n \<le> rta \<or> rta + 4 + length d \<le> p" for p n
    using rd_wr_other [OF m3, of p n] rd_wr_other [OF m2, of p n] rd_wr_other [OF m1, of p n] that by auto
  moreover have "put_attr m rta t (4 + length d) d = Some m3" using m1 m2 m3 by (simp add: put_attr_def)
  ultimately show ?thesis using l1 l2 length_wr_bytes [OF m3] by auto
qed

section \<open>Blocks of attributes\<close>

text \<open>
  The contract of a block of attributes that begins with a length field of \<open>w\<close> bytes, a whole message or
  an attribute with attributes inside: adding an attribute puts it behind the block, whatever lies from
  the length field to the end of the block is kept, and the new length is the sum.
\<close>

locale attr_block =
  fixes w :: nat
    and add :: "u8 list \<Rightarrow> nat \<Rightarrow> nat \<Rightarrow> u8 list \<Rightarrow> (int \<times> u8 list) option"
  assumes add_law: "rd_le m 0 w = Some n \<Longrightarrow> n mod 4 = 0 \<Longrightarrow> 4 \<le> n \<Longrightarrow> good_attr (t, d) \<Longrightarrow>
      n + attr_size (t, d) \<le> maxlen \<Longrightarrow> maxlen \<le> length m \<Longrightarrow> maxlen < 256 ^ w \<Longrightarrow>
      \<exists>m'. add m maxlen t d = Some (0, m') \<and> length m' = length m \<and> rd_le m' 0 w = Some (n + attr_size (t, d)) \<and>
        attrs_at m' n [(t, d)] \<and> (\<forall>p k. w \<le> p \<and> p + k \<le> n \<longrightarrow> rd_bytes m' p k = rd_bytes m p k)"
    and add_full: "rd_le m 0 w = Some n \<Longrightarrow> n mod 4 = 0 \<Longrightarrow> n < 4294967293 \<Longrightarrow> maxlen < n + attr_size (t, d) \<Longrightarrow>
      add m maxlen t d = Some (- 1, m)"
    and width: "w \<le> 4"
begin

text \<open>Adding a list of attributes, stopping at the first failure.\<close>

definition adds :: "nat \<Rightarrow> (nat \<times> u8 list) list \<Rightarrow> u8 list \<Rightarrow> u8 list option" where
  "adds maxlen as m = foldM (\<lambda>m a. do { (r, m) \<leftarrow> add m maxlen (fst a) (snd a); if r = 0 then Some m else None }) as m"

lemma adds_spec:
  "rd_le m 0 w = Some n \<Longrightarrow> n mod 4 = 0 \<Longrightarrow> 4 \<le> n \<Longrightarrow> \<forall>a \<in> set as. good_attr a \<Longrightarrow>
   n + attrs_size as \<le> maxlen \<Longrightarrow> maxlen \<le> length m \<Longrightarrow> maxlen < 256 ^ w \<Longrightarrow>
   \<exists>m'. adds maxlen as m = Some m' \<and> length m' = length m \<and> rd_le m' 0 w = Some (n + attrs_size as) \<and>
     attrs_at m' n as \<and> (\<forall>p k. w \<le> p \<and> p + k \<le> n \<longrightarrow> rd_bytes m' p k = rd_bytes m p k)"
proof (induction as arbitrary: m n)
  case Nil
  then show ?case by (simp add: adds_def)
next
  case (Cons a as)
  obtain t d where a: "a = (t, d)" by fastforce
  obtain m1 where m1: "add m maxlen t d = Some (0, m1)" "length m1 = length m" "rd_le m1 0 w = Some (n + attr_size a)"
    "attrs_at m1 n [a]" "\<forall>p k. w \<le> p \<and> p + k \<le> n \<longrightarrow> rd_bytes m1 p k = rd_bytes m p k"
    using add_law [of m n t d maxlen] Cons.prems by (auto simp: a)
  have "(n + attr_size a) mod 4 = 0" using Cons.prems(2) attr_size_mod [of a] by (simp add: mod_add_eq [symmetric])
  then obtain m2 where m2: "adds maxlen as m1 = Some m2" "length m2 = length m1" "rd_le m2 0 w = Some (n + attr_size a + attrs_size as)"
    "attrs_at m2 (n + attr_size a) as" "\<forall>p k. w \<le> p \<and> p + k \<le> n + attr_size a \<longrightarrow> rd_bytes m2 p k = rd_bytes m1 p k"
    using Cons.IH [OF m1(3)] Cons.prems m1(2) by auto
  have "attrs_at m2 n [a]"
    using attrs_at_frame [of w "n + attr_size a" m2 m1 n "[a]"] m1(4) m2(5) width Cons.prems(3) by auto
  then have "attrs_at m2 n (a # as)" using attrs_at_append [of m2 n "[a]" as] m2(4) by simp
  moreover have "adds maxlen (a # as) m = Some m2" using m1(1) m2(1) by (simp add: adds_def a)
  moreover have "\<forall>p k. w \<le> p \<and> p + k \<le> n \<longrightarrow> rd_bytes m2 p k = rd_bytes m p k" using m1(5) m2(5) by simp
  ultimately show ?case using m1(2) m2(2,3) by (simp add: add.assoc)
qed

end


lemma RTA_LENGTH_4: "RTA_LENGTH n = 4 + n"
  by (simp add: RTA_LENGTH_def RTA_ALIGN_def)

lemma attr_size_ge: "4 + length d \<le> attr_size (t, d)"
  using RTA_ALIGN_bounds(1) [of "4 + length d"] by (simp add: attr_size_def)

text \<open>The end of both additions: the attribute behind the block, then the new length.\<close>

lemma append_attr:
  assumes "good_attr (t, d)" "n + attr_size (t, d) \<le> length m" "4 \<le> n" "w \<le> 4" "n + attr_size (t, d) < 256 ^ w"
  shows "\<exists>m1 m2. put_attr m n t (4 + length d) d = Some m1 \<and>
    wr_bytes m1 0 (le_bytes w (n + attr_size (t, d))) = Some m2 \<and> length m2 = length m \<and>
    rd_le m2 0 w = Some (n + attr_size (t, d)) \<and> attrs_at m2 n [(t, d)] \<and>
    (\<forall>p k. w \<le> p \<and> p + k \<le> n \<longrightarrow> rd_bytes m2 p k = rd_bytes m p k)"
proof -
  obtain m1 where m1: "put_attr m n t (4 + length d) d = Some m1" "length m1 = length m" "attrs_at m1 n [(t, d)]"
    "\<forall>p k. p + k \<le> n \<or> n + 4 + length d \<le> p \<longrightarrow> rd_bytes m1 p k = rd_bytes m p k"
    using put_attr_spec [of n d m t] assms(1,2) attr_size_ge [of d t] by (auto simp: good_attr_def)
  obtain m2 where m2: "wr_bytes m1 0 (le_bytes w (n + attr_size (t, d))) = Some m2"
    using assms m1(2) by (simp add: wr_bytes_def)
  have keep: "rd_bytes m2 p k = rd_bytes m1 p k" if "w \<le> p" for p k using rd_wr_other [OF m2] that by simp
  have "attrs_at m2 n [(t, d)]"
    using attrs_at_frame [of w "n + attr_size (t, d)" m2 m1 n "[(t, d)]"] keep m1(3) assms(3,4) by auto
  moreover have "rd_le m2 0 w = Some (n + attr_size (t, d))" using rd_le_wr_same [OF m2] assms(5) by simp
  ultimately show ?thesis using m1 m2 keep length_wr_bytes [OF m2] by auto
qed

interpretation msg: attr_block 4 "\<lambda>m maxlen t d. addattr_l m maxlen t d (length d)"
proof
  fix m :: "u8 list" and n t maxlen :: nat and d :: "u8 list"
  assume n: "rd_le m 0 4 = Some n" "n mod 4 = 0"
  have al: "RTA_ALIGN (RTA_LENGTH (length d)) = attr_size (t, d)" by (simp add: RTA_LENGTH_4 attr_size_def)
  {
    assume h: "4 \<le> n" "good_attr (t, d)" "n + attr_size (t, d) \<le> maxlen" "maxlen \<le> length m" "maxlen < 256 ^ 4"
    have "n < 4294967293" using h(3,5) attr_size_ge [of d t] by simp
    then have na: "NLMSG_ALIGN n = n" using n(2) by (simp add: NLMSG_ALIGN_aligned)
    obtain m1 m2 where "put_attr m n t (4 + length d) d = Some m1" "wr_bytes m1 0 (le_bytes 4 (n + attr_size (t, d))) = Some m2"
      "length m2 = length m" "rd_le m2 0 4 = Some (n + attr_size (t, d))" "attrs_at m2 n [(t, d)]"
      "\<forall>p k. 4 \<le> p \<and> p + k \<le> n \<longrightarrow> rd_bytes m2 p k = rd_bytes m p k"
      using append_attr [of t d n m 4] h by auto
    with n na al h(3)
    show "\<exists>m'. addattr_l m maxlen t d (length d) = Some (0, m') \<and> length m' = length m \<and>
        rd_le m' 0 4 = Some (n + attr_size (t, d)) \<and> attrs_at m' n [(t, d)] \<and>
        (\<forall>p k. 4 \<le> p \<and> p + k \<le> n \<longrightarrow> rd_bytes m' p k = rd_bytes m p k)"
      by (simp add: addattr_l_def NLMSG_TAIL_def RTA_LENGTH_4 rd_bytes_def Let_def)
  }
  assume h: "n < 4294967293" "maxlen < n + attr_size (t, d)"
  then have "NLMSG_ALIGN n = n" using n(2) by (simp add: NLMSG_ALIGN_aligned)
  with n al h(2) show "addattr_l m maxlen t d (length d) = Some (- 1, m)" by (simp add: addattr_l_def Let_def)
qed simp

interpretation nested: attr_block 2 "\<lambda>m maxlen t d. rta_addattr_l m maxlen t d (length d)"
proof
  fix m :: "u8 list" and n t maxlen :: nat and d :: "u8 list"
  assume n: "rd_le m 0 2 = Some n" "n mod 4 = 0"
  have al: "RTA_ALIGN (RTA_LENGTH (length d)) = attr_size (t, d)" "RTA_ALIGN n = n"
    using n(2) by (simp_all add: RTA_LENGTH_4 attr_size_def RTA_ALIGN_aligned)
  {
    assume h: "4 \<le> n" "good_attr (t, d)" "n + attr_size (t, d) \<le> maxlen" "maxlen \<le> length m" "maxlen < 256 ^ 2"
    have "n < 4294967293" using h(3,5) by simp
    then have na: "NLMSG_ALIGN n = n" using n(2) by (simp add: NLMSG_ALIGN_aligned)
    obtain m1 m2 where "put_attr m n t (4 + length d) d = Some m1" "wr_bytes m1 0 (le_bytes 2 (n + attr_size (t, d))) = Some m2"
      "length m2 = length m" "rd_le m2 0 2 = Some (n + attr_size (t, d))" "attrs_at m2 n [(t, d)]"
      "\<forall>p k. 2 \<le> p \<and> p + k \<le> n \<longrightarrow> rd_bytes m2 p k = rd_bytes m p k"
      using append_attr [of t d n m 2] h by auto
    with n na al h(3)
    show "\<exists>m'. rta_addattr_l m maxlen t d (length d) = Some (0, m') \<and> length m' = length m \<and>
        rd_le m' 0 2 = Some (n + attr_size (t, d)) \<and> attrs_at m' n [(t, d)] \<and>
        (\<forall>p k. 2 \<le> p \<and> p + k \<le> n \<longrightarrow> rd_bytes m' p k = rd_bytes m p k)"
      by (simp add: rta_addattr_l_def RTA_LENGTH_4 rd_bytes_def Let_def)
  }
  assume "maxlen < n + attr_size (t, d)"
  with n al show "rta_addattr_l m maxlen t d (length d) = Some (- 1, m)" by (simp add: rta_addattr_l_def Let_def)
qed simp

section \<open>Parsing what was added\<close>

text \<open>The table the parser should build: for each type the last attribute of that type.\<close>

fun table_of :: "nat \<Rightarrow> nat \<Rightarrow> (nat \<times> u8 list) list \<Rightarrow> nat option list \<Rightarrow> nat option list" where
  "table_of mx off [] tb = tb"
| "table_of mx off ((t, d) # as) tb =
     table_of mx (off + attr_size (t, d)) as (if t \<le> mx then tb[t := Some off] else tb)"

lemma parse_loop_table:
  "attrs_at buf off as \<Longrightarrow>
   parse_loop buf mx off (int (attrs_size as)) tb = Some (table_of mx off as tb, 0)"
proof (induction as arbitrary: off tb)
  case Nil
  then show ?case by (subst parse_loop.simps) (simp add: RTA_OK_def deficit_def)
next
  case (Cons a as)
  obtain t d where a: "a = (t, d)" by fastforce
  have l: "RTA_ALIGN (4 + length d) = attr_size (t, d)" by (simp add: attr_size_def)
  have at: "rd_le buf off 2 = Some (4 + length d)" "rd_le buf (off + 2) 2 = Some t" "attrs_at buf (off + attr_size (t, d)) as"
    using Cons.prems by (simp_all add: a l)
  have "RTA_OK buf off (int (attrs_size (a # as))) = Some (Some (4 + length d))"
    using at(1) attr_size_ge [of d t] by (simp add: RTA_OK_def a)
  then show ?case using at(2) Cons.IH [OF at(3)]
    by (subst parse_loop.simps) (simp add: a l)
qed

lemma table_of_nth:
  "t \<le> mx \<Longrightarrow> length tb = mx + 1 \<Longrightarrow> attrs_at buf off as \<Longrightarrow>
   (case map_of (rev as) t of
      None \<Rightarrow> table_of mx off as tb ! t = tb ! t
    | Some d \<Rightarrow> \<exists>p. table_of mx off as tb ! t = Some p \<and> attrs_at buf p [(t, d)])"
proof (induction as arbitrary: off tb)
  case (Cons a as)
  obtain u d where a: "a = (u, d)" by fastforce
  let ?tb = "if u \<le> mx then tb[u := Some off] else tb"
  have at: "attrs_at buf off [(u, d)]" "attrs_at buf (off + attr_size (u, d)) as"
    using Cons.prems(3) by (simp_all add: a attr_size_def)
  have "length ?tb = mx + 1" using Cons.prems(2) by simp
  note ih = Cons.IH [OF Cons.prems(1) this at(2)]
  show ?case
  proof (cases "map_of (rev as) t")
    case None
    then show ?thesis using ih at(1) Cons.prems(1,2) by (cases "u = t") (auto simp: a map_add_def)
  next
    case (Some d')
    then show ?thesis using ih by (auto simp: a map_add_def)
  qed
qed simp

section \<open>Properties\<close>

text \<open>
  C38: What \<open>addattr_l\<close> adds, \<open>parse_rtattr\<close> finds: a list of attributes that fits, added to a message
  of aligned length, leaves the message's header and old content alone, sets its length to the end of
  the last one, and parsing from the old end gives, for every type up to the maximum, the last attribute of
  that type with its payload, and nothing for the others, with no bytes left over.
\<close>

theorem attributes_parsed_back:
  assumes "rd_le m 0 4 = Some n" "n mod 4 = 0" "4 \<le> n" "\<forall>a \<in> set as. good_attr a"
    and "n + attrs_size as \<le> maxlen" "maxlen \<le> length m" "maxlen < 4294967296"
  shows "\<exists>m' tb. foldM (\<lambda>m a. do { (r, m) \<leftarrow> addattr_l m maxlen (fst a) (snd a) (length (snd a)); if r = 0 then Some m else None }) as m = Some m' \<and>
    rd_le m' 0 4 = Some (n + attrs_size as) \<and> (\<forall>p k. 4 \<le> p \<and> p + k \<le> n \<longrightarrow> rd_bytes m' p k = rd_bytes m p k) \<and>
    parse_rtattr mx m' n (int (attrs_size as)) = Some (tb, 0) \<and>
    (\<forall>t \<le> mx. case map_of (rev as) t of
       None \<Rightarrow> tb ! t = None
     | Some d \<Rightarrow> \<exists>p. tb ! t = Some p \<and> rd_le m' p 2 = Some (4 + length d) \<and> rd_bytes m' (p + 4) (length d) = Some d)"
proof -
  obtain m' where m': "msg.adds maxlen as m = Some m'" "rd_le m' 0 4 = Some (n + attrs_size as)" "attrs_at m' n as"
    "\<forall>p k. 4 \<le> p \<and> p + k \<le> n \<longrightarrow> rd_bytes m' p k = rd_bytes m p k"
    using msg.adds_spec [OF assms(1-6)] assms(7) by auto
  let ?tb = "table_of mx n as (replicate (mx + 1) None)"
  have "parse_rtattr mx m' n (int (attrs_size as)) = Some (?tb, 0)"
    unfolding parse_rtattr_def by (rule parse_loop_table [OF m'(3)])
  moreover have "case map_of (rev as) t of None \<Rightarrow> ?tb ! t = None
      | Some d \<Rightarrow> \<exists>p. ?tb ! t = Some p \<and> rd_le m' p 2 = Some (4 + length d) \<and> rd_bytes m' (p + 4) (length d) = Some d"
    if "t \<le> mx" for t
    using table_of_nth [OF that _ m'(3), of "replicate (mx + 1) None"] that
    by (auto split: option.splits simp: nth_replicate simp del: replicate_Suc)
  ultimately show ?thesis using m'(1,2,4) unfolding msg.adds_def by blast
qed

definition sample_attrs :: "(nat \<times> u8 list) list" where
  "sample_attrs = [(1, [10, 11, 12]), (3, []), (1, [13])]"

lemma attributes_parsed_back_witness:
  "\<exists>m' tb p. foldM (\<lambda>m a. do { (r, m) \<leftarrow> addattr_l m 64 (fst a) (snd a) (length (snd a)); if r = 0 then Some m else None })
      sample_attrs (le_bytes 4 16 @ replicate 60 0) = Some m' \<and>
    parse_rtattr 3 m' 16 (int 20) = Some (tb, 0) \<and> tb ! 1 = Some p \<and> rd_bytes m' (p + 4) (length [13 :: u8]) = Some [13]"
proof -
  let ?m = "le_bytes 4 16 @ replicate 60 0"
  have sz: "attrs_size sample_attrs = 20" by (simp add: sample_attrs_def attr_size_def RTA_ALIGN_def)
  have n: "rd_le ?m 0 4 = Some 16" using rd_le_at [of "[]" 0 4 16 "replicate 60 0"] by simp
  have good: "\<forall>a \<in> set sample_attrs. good_attr a" by (simp add: good_attr_def sample_attrs_def)
  have "16 + attrs_size sample_attrs \<le> 64" "64 \<le> length ?m" unfolding sz by simp_all
  note attributes_parsed_back [OF n _ _ good this, of 3, unfolded sz]
  then obtain m' tb where m':
    "foldM (\<lambda>m a. do { (r, m) \<leftarrow> addattr_l m 64 (fst a) (snd a) (length (snd a)); if r = 0 then Some m else None }) sample_attrs ?m = Some m'"
    "parse_rtattr 3 m' 16 (int 20) = Some (tb, 0)"
    "\<forall>t \<le> 3. case map_of (rev sample_attrs) t of None \<Rightarrow> tb ! t = None
     | Some d \<Rightarrow> \<exists>p. tb ! t = Some p \<and> rd_le m' p 2 = Some (4 + length d) \<and> rd_bytes m' (p + 4) (length d) = Some d"
    by auto
  moreover have "map_of (rev sample_attrs) 1 = Some [13]" by (simp add: sample_attrs_def)
  ultimately obtain p where "tb ! 1 = Some p" "rd_bytes m' (p + 4) (length [13 :: u8]) = Some [13]"
    using m'(3) [rule_format, of 1] by auto
  with m'(1,2) show ?thesis by blast
qed

text \<open>The same for attributes inside an attribute, whose length field has two bytes.\<close>

lemma nested_parsed_back:
  assumes "rd_le m 0 2 = Some n" "n mod 4 = 0" "4 \<le> n" "\<forall>a \<in> set as. good_attr a"
    and "n + attrs_size as \<le> maxlen" "maxlen \<le> length m" "maxlen < 65536"
  shows "\<exists>m'. nested.adds maxlen as m = Some m' \<and>
    parse_rtattr mx m' n (int (attrs_size as)) = Some (table_of mx n as (replicate (mx + 1) None), 0)"
  using nested.adds_spec [OF assms(1-6)] assms(7) parse_loop_table by (fastforce simp: parse_rtattr_def)

text \<open>
  The parser stays within the bytes it is given and 5 more, whatever they are: behind an attribute whose
  padding is missing it looks 3 bytes further for the 2 bytes of the next length.
\<close>

lemma parse_loop_safe:
  "- 3 \<le> len \<Longrightarrow> int rta + len + 5 \<le> int (length buf) \<Longrightarrow> \<exists>tb' left. parse_loop buf mx rta len tb = Some (tb', left) \<and>
     length tb' = length tb \<and> left \<le> max len 0"
proof (induction "nat len" arbitrary: rta len tb rule: less_induct)
  case less
  show ?case
  proof (cases "len < 4")
    case True
    then show ?thesis using rd_le_in [of rta 2 buf] less.prems
      by (subst parse_loop.simps) (auto simp: RTA_OK_def deficit_def)
  next
    case False
    then obtain l where l: "rd_le buf rta 2 = Some l" using rd_le_in [of rta 2 buf] less.prems by auto
    obtain t where t: "rd_le buf (rta + 2) 2 = Some t" using rd_le_in [of "rta + 2" 2 buf] less.prems False by auto
    show ?thesis
    proof (cases "4 \<le> l \<and> int l \<le> len")
      case ok: True
      let ?tb = "if t \<le> mx then tb[t := Some rta] else tb" and ?len = "len - int (RTA_ALIGN l)"
      have "4 \<le> RTA_ALIGN l" "int (RTA_ALIGN l) \<le> len + 3" using ok RTA_ALIGN_bounds(1,2) [of l] by simp_all
      then obtain tb' left where "parse_loop buf mx (rta + RTA_ALIGN l) ?len ?tb = Some (tb', left)"
        "length tb' = length ?tb" "left \<le> max ?len 0"
        using less.hyps [of ?len "rta + RTA_ALIGN l" ?tb] less.prems False by auto
      then show ?thesis using l t ok False by (subst parse_loop.simps) (auto simp: RTA_OK_def)
    next
      case bad: False
      then show ?thesis using l False by (subst parse_loop.simps) (auto simp: RTA_OK_def deficit_def)
    qed
  qed
qed

end
