(* ===== verification/Rtnl.thy ===== *)
theory Rtnl
  imports NlAttr
begin

text \<open>
  The netlink socket routines of \<open>src/netlink/libnetlink.c\<close>: requests, and the loops that receive
  messages.  The outcomes of \<open>recvmsg\<close> are an argument, a list of which each turn takes one; a loop that has
  used them up is still waiting.  A callback is a function on the world \<open>'w\<close>, the port of the sender and the
  bytes of the message; its result is its return value and the new world.  \<open>None\<close> is an access
  outside a buffer.
\<close>

section \<open>State\<close>

record rtnl_handle =
  fd :: int
  local_family :: nat
  local_groups :: nat
  local_pid :: nat
  seq :: u32
  dump :: u32

text \<open>
  An outcome of \<open>recvmsg\<close>: a failure (\<open>EINTR\<close> or another, both are retried), the end, or a datagram (an empty one
  has the same result 0 as the end) with
  the sender's port, the length of its address, whether \<open>MSG_TRUNC\<close> is set, and the bytes received.
\<close>

datatype recv = Failed | Eof | Datagram nat nat bool "u8 list"

text \<open>The end of a call: it returned a value, ended the program, or waits for more.\<close>

datatype 'w outcome = Return int 'w | Exit int 'w | Waiting 'w

definition sizeof_sockaddr_nl :: nat where "sizeof_sockaddr_nl = 12"
definition sizeof_nlmsgerr :: int where "sizeof_nlmsgerr = 20"
definition NLMSG_ERROR :: nat where "NLMSG_ERROR = 2"
definition NLMSG_DONE :: nat where "NLMSG_DONE = 3"
definition AF_NETLINK :: nat where "AF_NETLINK = 16"
definition NLM_F_DUMP_REQUEST :: nat where "NLM_F_DUMP_REQUEST = 256 + 512 + 1"

definition nlmsg_type :: "u8 list \<Rightarrow> nat \<Rightarrow> nat option" where "nlmsg_type buf h = rd_le buf (h + 4) 2"
definition nlmsg_seq :: "u8 list \<Rightarrow> nat \<Rightarrow> nat option" where "nlmsg_seq buf h = rd_le buf (h + 8) 4"
definition nlmsg_pid :: "u8 list \<Rightarrow> nat \<Rightarrow> nat option" where "nlmsg_pid buf h = rd_le buf (h + 12) 4"

text \<open>\<open>recvmsg\<close> writes the bytes to the start of the buffer; the rest keeps what it held.\<close>

definition received :: "u8 list \<Rightarrow> u8 list \<Rightarrow> u8 list" where
  "received buf d = d @ drop (length d) buf"

section \<open>Opening, closing and requests\<close>

definition rtnl_close :: "rtnl_handle \<Rightarrow> rtnl_handle" where
  "rtnl_close rth = (if 0 \<le> fd rth then rth\<lparr>fd := - 1\<rparr> else rth)"

text \<open>
  The results of the system calls are arguments: \<open>socket\<close>, the two \<open>setsockopt\<close>, \<open>bind\<close>, and
  \<open>getsockname\<close> with the length, family and port it stores.  \<open>memset\<close> clears only the size of a pointer,
  the first 8 bytes, that is \<open>fd\<close> and what precedes the port, so \<open>dump\<close> keeps its old value.
\<close>

definition rtnl_open_byproto ::
  "int \<Rightarrow> int \<Rightarrow> int \<Rightarrow> int \<Rightarrow> int \<times> nat \<times> nat \<times> nat \<Rightarrow> u32 \<Rightarrow> rtnl_handle \<Rightarrow> nat \<Rightarrow> int \<times> rtnl_handle" where
  "rtnl_open_byproto sock sndbuf rcvbuf bnd name now rth subscriptions =
     (let rth = rth\<lparr>fd := sock\<rparr>
      in if sock < 0 then (- 1, rth)
         else if sndbuf < 0 then (- 1, rth)
         else if rcvbuf < 0 then (- 1, rth)
         else let rth = rth\<lparr>local_family := AF_NETLINK, local_groups := subscriptions, local_pid := 0\<rparr>
              in if bnd < 0 then (- 1, rth)
                 else let (r, addr_len, fam, pid) = name
                      in if r < 0 then (- 1, rth)
                         else let rth = rth\<lparr>local_family := fam, local_pid := pid\<rparr>
                              in if addr_len \<noteq> sizeof_sockaddr_nl then (- 1, rth)
                                 else if fam \<noteq> AF_NETLINK then (- 1, rth)
                                 else (0, rth\<lparr>seq := now\<rparr>))"

text \<open>A message header.\<close>

definition nlmsghdr :: "nat \<Rightarrow> nat \<Rightarrow> nat \<Rightarrow> nat \<Rightarrow> nat \<Rightarrow> u8 list" where
  "nlmsghdr len type flgs sq pid =
     le_bytes 4 len @ le_bytes 2 type @ le_bytes 2 flgs @ le_bytes 4 sq @ le_bytes 4 pid"

text \<open>The message that is sent, and the handle; the result of the send is returned.\<close>

definition rtnl_wilddump_request :: "(u8 list \<Rightarrow> int) \<Rightarrow> rtnl_handle \<Rightarrow> nat \<Rightarrow> nat \<Rightarrow> int \<times> rtnl_handle" where
  "rtnl_wilddump_request send rth fam type =
     (let s = seq rth + 1;
          rth = rth\<lparr>seq := s, dump := s\<rparr>
      in (send (nlmsghdr 20 type NLM_F_DUMP_REQUEST (unat s) 0 @ le_bytes 1 fam @ [0, 0, 0]), rth))"

definition rtnl_send :: "(u8 list \<Rightarrow> int) \<Rightarrow> u8 list \<Rightarrow> nat \<Rightarrow> int option" where
  "rtnl_send send buf len = do { bs \<leftarrow> rd_bytes buf 0 len; Some (send bs) }"

definition rtnl_dump_request ::
  "(u8 list \<Rightarrow> int) \<Rightarrow> rtnl_handle \<Rightarrow> nat \<Rightarrow> u8 list \<Rightarrow> nat \<Rightarrow> (int \<times> rtnl_handle) option" where
  "rtnl_dump_request send rth type req len = do {
     bs \<leftarrow> rd_bytes req 0 len;
     let s = seq rth + 1;
     Some (send (nlmsghdr (16 + len) type NLM_F_DUMP_REQUEST (unat s) 0 @ bs), rth\<lparr>seq := s, dump := s\<rparr>) }"

section \<open>Receiving a dump\<close>

text \<open>\<open>NLMSG_OK\<close> for a status that is an \<open>int\<close>, with the length of the message when it holds.\<close>

definition NLMSG_OK :: "u8 list \<Rightarrow> nat \<Rightarrow> int \<Rightarrow> nat option option" where
  "NLMSG_OK buf h status =
     (if status < 16 then Some None
      else do { l \<leftarrow> rd_le buf h 4; Some (if 16 \<le> l \<and> int l \<le> status then Some l else None) })"

text \<open>
  The messages of one datagram: \<open>Inl\<close> the value returned, \<open>Inr\<close> what is left of \<open>status\<close> when no
  message follows.  \<open>junk\<close> is \<open>None\<close> for \<open>NULL\<close>.  The length of a message is at most \<open>status\<close>, so
  that \<open>NLMSG_ALIGN\<close> does not wrap and is \<open>RTA_ALIGN\<close>.
\<close>

function dump_msgs ::
  "(nat \<Rightarrow> u8 list \<Rightarrow> 'w \<Rightarrow> int \<times> 'w) \<Rightarrow> (nat \<Rightarrow> u8 list \<Rightarrow> 'w \<Rightarrow> int \<times> 'w) option \<Rightarrow> rtnl_handle \<Rightarrow> nat \<Rightarrow>
   u8 list \<Rightarrow> nat \<Rightarrow> int \<Rightarrow> 'w \<Rightarrow> ((int + int) \<times> 'w) option" where
  "dump_msgs flt junk rth pid buf h status w = do {
     ok \<leftarrow> NLMSG_OK buf h status;
     case ok of
       None \<Rightarrow> Some (Inr status, w)
     | Some len \<Rightarrow> do {
         mpid \<leftarrow> nlmsg_pid buf h;
         mseq \<leftarrow> nlmsg_seq buf h;
         type \<leftarrow> nlmsg_type buf h;
         msg \<leftarrow> rd_bytes buf h len;
         if pid \<noteq> 0 \<or> mpid \<noteq> local_pid rth \<or> mseq \<noteq> unat (dump rth) then
           (let (err, w) = (case junk of None \<Rightarrow> (0, w) | Some j \<Rightarrow> j pid msg w)
            in if err < 0 then Some (Inl err, w)
               else dump_msgs flt junk rth pid buf (h + RTA_ALIGN len) (status - int (RTA_ALIGN len)) w)
         else if type = NLMSG_DONE then Some (Inl 0, w)
         else if type = NLMSG_ERROR then Some (Inl (- 1), w)
         else let (err, w) = flt pid msg w
              in if err < 0 then Some (Inl err, w)
                 else dump_msgs flt junk rth pid buf (h + RTA_ALIGN len) (status - int (RTA_ALIGN len)) w } }"
  by pat_completeness auto
termination
  by (relation "measure (\<lambda>(flt, junk, rth, pid, buf, h, status, w). nat status)")
    (auto simp: NLMSG_OK_def RTA_ALIGN_def bind_Some_iff split: if_splits)

declare dump_msgs.simps [simp del]

fun nl_dump_loop ::
  "(nat \<Rightarrow> u8 list \<Rightarrow> 'w \<Rightarrow> int \<times> 'w) \<Rightarrow> (nat \<Rightarrow> u8 list \<Rightarrow> 'w \<Rightarrow> int \<times> 'w) option \<Rightarrow> rtnl_handle \<Rightarrow>
   u8 list \<Rightarrow> recv list \<Rightarrow> 'w \<Rightarrow> 'w outcome option" where
  "nl_dump_loop flt junk rth buf [] w = Some (Waiting w)"
| "nl_dump_loop flt junk rth buf (Failed # rs) w = nl_dump_loop flt junk rth buf rs w"
| "nl_dump_loop flt junk rth buf (Eof # rs) w = Some (Return (- 1) w)"
| "nl_dump_loop flt junk rth buf (Datagram pid namelen trunc d # rs) w =
     (if d = [] then Some (Return (- 1) w)
      else do {
        let buf = received buf d;
        (r, w) \<leftarrow> dump_msgs flt junk rth pid buf 0 (int (length d)) w;
        case r of
          Inl err \<Rightarrow> Some (Return err w)
        | Inr status \<Rightarrow>
            if trunc then nl_dump_loop flt junk rth buf rs w
            else if status \<noteq> 0 then Some (Exit 1 w)
            else nl_dump_loop flt junk rth buf rs w })"

text \<open>The buffer of 16384 bytes is not initialised; \<open>old\<close> is what it held.\<close>

definition rtnl_dump_filter ::
  "u8 list \<Rightarrow> (nat \<Rightarrow> u8 list \<Rightarrow> 'w \<Rightarrow> int \<times> 'w) \<Rightarrow> (nat \<Rightarrow> u8 list \<Rightarrow> 'w \<Rightarrow> int \<times> 'w) option \<Rightarrow>
   rtnl_handle \<Rightarrow> recv list \<Rightarrow> 'w \<Rightarrow> 'w outcome option" where
  "rtnl_dump_filter old flt junk rth rs w = nl_dump_loop flt junk rth old rs w"

section \<open>Request and answer\<close>

text \<open>
  In \<open>rtnl_talk\<close>, \<open>rtnl_listen\<close> and \<open>rtnl_from_file\<close> the length of a message is an \<open>int\<close>, so that a large
  one is negative, and \<open>status >= sizeof(*h)\<close> compares as \<open>size_t\<close>, so that a negative \<open>status\<close> counts
  as large and the code goes on to read behind the data.  Positions are \<open>int\<close>.
\<close>

definition NLMSG_ALIGN_int :: "int \<Rightarrow> int" where
  "NLMSG_ALIGN_int n = (n + 3) div 4 * 4"

definition more_msgs :: "int \<Rightarrow> bool" where
  "more_msgs status \<longleftrightarrow> status < 0 \<or> 16 \<le> status"

definition field :: "u8 list \<Rightarrow> int \<Rightarrow> nat \<Rightarrow> nat option" where
  "field buf p n = (if p < 0 then None else rd_le buf (nat p) n)"

definition bytes_at :: "u8 list \<Rightarrow> int \<Rightarrow> nat \<Rightarrow> u8 list option" where
  "bytes_at buf p n = (if p < 0 then None else rd_bytes buf (nat p) n)"

text \<open>\<open>int len = h->nlmsg_len\<close> and \<open>int l = len - sizeof(*h)\<close>.\<close>

definition msg_len :: "nat \<Rightarrow> int" where
  "msg_len n = sint (of_nat n :: i32)"

definition body_len :: "nat \<Rightarrow> int" where
  "body_len n = sint (of_nat n - 16 :: i32)"

text \<open>
  The message a callback sees: from the header on, \<open>nlmsg_len\<close> bytes.  The answer is copied into the caller's
  memory \<open>ans\<close>, \<open>None\<close> for \<open>NULL\<close>.  The result is the outcome, or what is left of \<open>status\<close>; the world
  and the answer.
\<close>

partial_function (option) talk_msgs ::
  "(nat \<Rightarrow> u8 list \<Rightarrow> 'w \<Rightarrow> int \<times> 'w) option \<Rightarrow> nat \<Rightarrow> u32 \<Rightarrow> nat \<Rightarrow> nat \<Rightarrow> bool \<Rightarrow> u8 list \<Rightarrow>
   int \<Rightarrow> int \<Rightarrow> u8 list option \<Rightarrow> 'w \<Rightarrow> (('w outcome + int \<times> 'w) \<times> u8 list option) option" where
  "talk_msgs junk lpid sq peer pid trunc buf h status ans w =
     (if \<not> more_msgs status then Some (Inr (status, w), ans)
      else do {
        n \<leftarrow> field buf h 4;
        let len = msg_len n;
        let l = body_len n;
        if l < 0 \<or> status < len then Some (Inl (if trunc then Return (- 1) w else Exit 1 w), ans)
        else do {
          mpid \<leftarrow> field buf (h + 12) 4;
          mseq \<leftarrow> field buf (h + 8) 4;
          type \<leftarrow> field buf (h + 4) 2;
          msg \<leftarrow> bytes_at buf h n;
          if pid \<noteq> peer \<or> mpid \<noteq> lpid \<or> mseq \<noteq> unat sq then
            (let (err, w) = (case junk of None \<Rightarrow> (0, w) | Some j \<Rightarrow> j pid msg w)
             in if err < 0 then Some (Inl (Return err w), ans)
                else talk_msgs junk lpid sq peer pid trunc buf (h + NLMSG_ALIGN_int len) (status - NLMSG_ALIGN_int len) ans w)
          else if type = NLMSG_ERROR then
            (if l < sizeof_nlmsgerr then Some (Inl (Return (- 1) w), ans)
             else do {
               e \<leftarrow> field buf (h + 16) 4;
               if e = 0 then
                 (case ans of
                    None \<Rightarrow> Some (Inl (Return 0 w), None)
                  | Some a \<Rightarrow> do { a \<leftarrow> wr_bytes a 0 msg; Some (Inl (Return 0 w), Some a) })
               else Some (Inl (Return (- 1) w), ans) })
          else
            (case ans of
               Some a \<Rightarrow> do { a \<leftarrow> wr_bytes a 0 msg; Some (Inl (Return 0 w), Some a) }
             | None \<Rightarrow>
                 talk_msgs junk lpid sq peer pid trunc buf (h + NLMSG_ALIGN_int len) (status - NLMSG_ALIGN_int len) ans w) } })"

fun talk_loop ::
  "(nat \<Rightarrow> u8 list \<Rightarrow> 'w \<Rightarrow> int \<times> 'w) option \<Rightarrow> nat \<Rightarrow> u32 \<Rightarrow> nat \<Rightarrow> u8 list \<Rightarrow> recv list \<Rightarrow>
   u8 list option \<Rightarrow> 'w \<Rightarrow> ('w outcome \<times> u8 list option) option" where
  "talk_loop junk lpid sq peer buf [] ans w = Some (Waiting w, ans)"
| "talk_loop junk lpid sq peer buf (Failed # rs) ans w = talk_loop junk lpid sq peer buf rs ans w"
| "talk_loop junk lpid sq peer buf (Eof # rs) ans w = Some (Return (- 1) w, ans)"
| "talk_loop junk lpid sq peer buf (Datagram pid namelen trunc d # rs) ans w =
     (if d = [] then Some (Return (- 1) w, ans)
      else if namelen \<noteq> sizeof_sockaddr_nl then Some (Exit 1 w, ans)
      else do {
        let buf = received buf d;
        (r, ans) \<leftarrow> talk_msgs junk lpid sq peer pid trunc buf 0 (int (length d)) ans w;
        case r of
          Inl out \<Rightarrow> Some (out, ans)
        | Inr (status, w) \<Rightarrow>
            if trunc then talk_loop junk lpid sq peer buf rs ans w
            else if status \<noteq> 0 then Some (Exit 1 w, ans)
            else talk_loop junk lpid sq peer buf rs ans w })"

text \<open>
  The request \<open>n\<close> gets the next sequence number, and \<open>NLM_F_ACK\<close> when no answer is wanted; \<open>sent\<close> is the
  result of \<open>sendmsg\<close>.  The result: the outcome, the handle, the request as sent, and the answer.
\<close>

definition rtnl_talk ::
  "int \<Rightarrow> (nat \<Rightarrow> u8 list \<Rightarrow> 'w \<Rightarrow> int \<times> 'w) option \<Rightarrow> rtnl_handle \<Rightarrow> u8 list \<Rightarrow> nat \<Rightarrow> u8 list option \<Rightarrow>
   recv list \<Rightarrow> 'w \<Rightarrow> ('w outcome \<times> rtnl_handle \<times> u8 list \<times> u8 list option) option" where
  "rtnl_talk sent junk rtnl n peer ans rs w = do {
     let sq = seq rtnl + 1;
     let rtnl = rtnl\<lparr>seq := sq\<rparr>;
     n \<leftarrow> wr_bytes n 8 (le_bytes 4 (unat sq));
     flgs \<leftarrow> rd_le n 6 2;
     n \<leftarrow> (if ans = None then wr_bytes n 6 (le_bytes 2 (unat ((of_nat flgs :: u16) OR 4))) else Some n);
     if sent < 0 then Some (Return (- 1) w, rtnl, n, ans)
     else do {
       (out, ans) \<leftarrow> talk_loop junk (local_pid rtnl) sq peer (replicate 16384 0) rs ans w;
       Some (out, rtnl, n, ans) } }"

section \<open>Listening\<close>

partial_function (option) listen_msgs ::
  "(nat \<Rightarrow> u8 list \<Rightarrow> 'w \<Rightarrow> int \<times> 'w) \<Rightarrow> nat \<Rightarrow> bool \<Rightarrow> u8 list \<Rightarrow> int \<Rightarrow> int \<Rightarrow> 'w \<Rightarrow>
   ('w outcome + int \<times> 'w) option" where
  "listen_msgs handler pid trunc buf h status w =
     (if \<not> more_msgs status then Some (Inr (status, w))
      else do {
        n \<leftarrow> field buf h 4;
        let len = msg_len n;
        let l = body_len n;
        if l < 0 \<or> status < len then Some (Inl (if trunc then Return (- 1) w else Exit 1 w))
        else do {
          msg \<leftarrow> bytes_at buf h n;
          let (err, w) = handler pid msg w;
          if err < 0 then Some (Inl (Return err w))
          else listen_msgs handler pid trunc buf (h + NLMSG_ALIGN_int len) (status - NLMSG_ALIGN_int len) w } })"

fun listen_loop ::
  "(nat \<Rightarrow> u8 list \<Rightarrow> 'w \<Rightarrow> int \<times> 'w) \<Rightarrow> u8 list \<Rightarrow> recv list \<Rightarrow> 'w \<Rightarrow> 'w outcome option" where
  "listen_loop handler buf [] w = Some (Waiting w)"
| "listen_loop handler buf (Failed # rs) w = listen_loop handler buf rs w"
| "listen_loop handler buf (Eof # rs) w = Some (Return (- 1) w)"
| "listen_loop handler buf (Datagram pid namelen trunc d # rs) w =
     (if d = [] then Some (Return (- 1) w)
      else if namelen \<noteq> sizeof_sockaddr_nl then Some (Exit 1 w)
      else do {
        let buf = received buf d;
        r \<leftarrow> listen_msgs handler pid trunc buf 0 (int (length d)) w;
        case r of
          Inl out \<Rightarrow> Some out
        | Inr (status, w) \<Rightarrow>
            if trunc then listen_loop handler buf rs w
            else if status \<noteq> 0 then Some (Exit 1 w)
            else listen_loop handler buf rs w })"

definition rtnl_listen ::
  "u8 list \<Rightarrow> (nat \<Rightarrow> u8 list \<Rightarrow> 'w \<Rightarrow> int \<times> 'w) \<Rightarrow> recv list \<Rightarrow> 'w \<Rightarrow> 'w outcome option" where
  "rtnl_listen old handler rs w = listen_loop handler old rs w"

text \<open>
  The messages of a file.  \<open>fread\<close> gives what is left when that is less than asked for; its result is never
  negative.  A header that is cut short is not noticed: the rest of it is what the buffer of 8192 bytes held.
\<close>

definition fread :: "u8 list \<Rightarrow> nat \<Rightarrow> nat \<Rightarrow> u8 list \<Rightarrow> (nat \<times> u8 list \<times> u8 list) option" where
  "fread buf p n inp = do {
     buf \<leftarrow> wr_bytes buf p (take n inp);
     Some (length (take n inp), buf, drop n inp) }"

function from_file_loop ::
  "(nat \<Rightarrow> u8 list \<Rightarrow> 'w \<Rightarrow> int \<times> 'w) \<Rightarrow> u8 list \<Rightarrow> u8 list \<Rightarrow> 'w \<Rightarrow> (int \<times> 'w) option" where
  "from_file_loop handler buf inp w = do {
     (status, buf, inp1) \<leftarrow> fread buf 0 16 inp;
     if status = 0 then Some (0, w)
     else do {
       n \<leftarrow> field buf 0 4;
       let len = msg_len n;
       let l = body_len n;
       if l < 0 \<or> len < 0 \<or> 8192 < len then Some (- 1, w)
       else do {
         (status, buf, inp2) \<leftarrow> fread buf 16 (nat (NLMSG_ALIGN_int l)) inp1;
         if int status < l then Some (- 1, w)
         else do {
           msg \<leftarrow> bytes_at buf 0 n;
           let (err, w) = handler 0 msg w;
           if err < 0 then Some (err, w)
           else from_file_loop handler buf inp2 w } } } }"
  by pat_completeness auto
termination
  by (relation "measure (\<lambda>(handler, buf, inp, w). length inp)")
    (auto simp: fread_def bind_Some_iff split: if_splits)

declare from_file_loop.simps [simp del]

definition rtnl_from_file ::
  "u8 list \<Rightarrow> (nat \<Rightarrow> u8 list \<Rightarrow> 'w \<Rightarrow> int \<times> 'w) \<Rightarrow> u8 list \<Rightarrow> 'w \<Rightarrow> (int \<times> 'w) option" where
  "rtnl_from_file old handler inp w = from_file_loop handler old inp w"

declare talk_msgs.simps [code] listen_msgs.simps [code]


section \<open>Messages in a buffer\<close>

text \<open>A message whose length field is right, and the same with its padding.\<close>

definition good_msg :: "u8 list \<Rightarrow> bool" where
  "good_msg m \<longleftrightarrow> 16 \<le> length m \<and> rd_le m 0 4 = Some (length m)"

definition padded :: "u8 list \<Rightarrow> u8 list" where
  "padded m = m @ replicate (RTA_ALIGN (length m) - length m) 0"

definition datagram :: "u8 list list \<Rightarrow> u8 list" where
  "datagram ms = concat (map padded ms)"

definition type_of :: "u8 list \<Rightarrow> nat" where
  "type_of m = the (rd_le m 4 2)"

definition mine :: "rtnl_handle \<Rightarrow> u8 list \<Rightarrow> bool" where
  "mine rth m \<longleftrightarrow> rd_le m 12 4 = Some (local_pid rth) \<and> rd_le m 8 4 = Some (unat (dump rth))"

lemma length_padded: "length (padded m) = RTA_ALIGN (length m)"
  using RTA_ALIGN_bounds(1) [of "length m"] by (simp add: padded_def)

lemma good_msg_fields:
  assumes "good_msg m"
  shows "rd_le (pre @ padded m @ post) (length pre) 4 = Some (length m)"
    and "nlmsg_type (pre @ padded m @ post) (length pre) = Some (type_of m)"
    and "\<exists>p s. nlmsg_pid (pre @ padded m @ post) (length pre) = Some p \<and>
      nlmsg_seq (pre @ padded m @ post) (length pre) = Some s \<and> (mine rth m \<longleftrightarrow> p = local_pid rth \<and> s = unat (dump rth))"
    and "rd_bytes (pre @ padded m @ post) (length pre) (length m) = Some m"
proof -
  let ?b = "pre @ m @ (replicate (RTA_ALIGN (length m) - length m) 0 @ post)"
  have b: "pre @ padded m @ post = ?b" by (simp add: padded_def)
  have f: "rd_le ?b (length pre + k) n = rd_le m k n" if "k + n \<le> length m" for k n
    using that by (rule rd_le_shift)
  have m: "16 \<le> length m" "rd_le m 0 4 = Some (length m)" using assms by (simp_all add: good_msg_def)
  show "rd_le (pre @ padded m @ post) (length pre) 4 = Some (length m)" unfolding b using f [of 0 4] m by simp
  obtain t where "rd_le m 4 2 = Some t" using rd_le_in [of 4 2 m] m by auto
  then show "nlmsg_type (pre @ padded m @ post) (length pre) = Some (type_of m)"
    unfolding b nlmsg_type_def using f [of 4 2] m by (simp add: type_of_def)
  obtain p s where "rd_le m 12 4 = Some p" "rd_le m 8 4 = Some s" using rd_le_in [of 12 4 m] rd_le_in [of 8 4 m] m by auto
  then show "\<exists>p s. nlmsg_pid (pre @ padded m @ post) (length pre) = Some p \<and>
      nlmsg_seq (pre @ padded m @ post) (length pre) = Some s \<and> (mine rth m \<longleftrightarrow> p = local_pid rth \<and> s = unat (dump rth))"
    unfolding b nlmsg_pid_def nlmsg_seq_def mine_def using f [of 12 4] f [of 8 4] m by simp
  show "rd_bytes (pre @ padded m @ post) (length pre) (length m) = Some m" unfolding b by simp
qed

text \<open>One message that is not the end of the dump.\<close>

lemma dump_msgs_step:
  assumes m: "good_msg m" "mine rth m \<Longrightarrow> type_of m \<noteq> NLMSG_DONE \<and> type_of m \<noteq> NLMSG_ERROR"
    and flt: "\<And>w. mine rth m \<Longrightarrow> 0 \<le> fst (flt 0 m w)" and st: "int (length (padded m)) \<le> status"
  shows "dump_msgs flt None rth 0 (pre @ padded m @ post) (length pre) status w =
    dump_msgs flt None rth 0 (pre @ padded m @ post) (length (pre @ padded m)) (status - int (length (padded m)))
      (if mine rth m then snd (flt 0 m w) else w)"
proof -
  obtain p s where ps: "nlmsg_pid (pre @ padded m @ post) (length pre) = Some p"
    "nlmsg_seq (pre @ padded m @ post) (length pre) = Some s" "mine rth m \<longleftrightarrow> p = local_pid rth \<and> s = unat (dump rth)"
    using good_msg_fields(3) [OF m(1)] by blast
  have len: "16 \<le> length m" "length m \<le> length (padded m)" using m(1) RTA_ALIGN_bounds(1) [of "length m"]
    by (simp_all add: good_msg_def length_padded)
  then have ok: "NLMSG_OK (pre @ padded m @ post) (length pre) status = Some (Some (length m))"
    using good_msg_fields(1) [OF m(1), of pre post] st by (simp add: NLMSG_OK_def)
  obtain err w' where f: "flt 0 m w = (err, w')" by fastforce
  then have "mine rth m \<Longrightarrow> 0 \<le> err" using flt [of w] by simp
  then show ?thesis
    using ok ps good_msg_fields(2,4) [OF m(1), of pre post] m(2) f
    by (subst dump_msgs.simps) (auto simp: length_padded)
qed

definition deliver :: "(nat \<Rightarrow> u8 list \<Rightarrow> 'w \<Rightarrow> int \<times> 'w) \<Rightarrow> rtnl_handle \<Rightarrow> u8 list list \<Rightarrow> 'w \<Rightarrow> 'w" where
  "deliver flt rth ms w = fold (\<lambda>m w. snd (flt 0 m w)) (filter (mine rth) ms) w"

text \<open>The filter accepts the messages that are for it.\<close>

definition accepts :: "(nat \<Rightarrow> u8 list \<Rightarrow> 'w \<Rightarrow> int \<times> 'w) \<Rightarrow> rtnl_handle \<Rightarrow> u8 list list \<Rightarrow> bool" where
  "accepts flt rth ms \<longleftrightarrow> (\<forall>m \<in> set ms. mine rth m \<longrightarrow> (\<forall>w. 0 \<le> fst (flt 0 m w)))"

definition plain :: "rtnl_handle \<Rightarrow> u8 list \<Rightarrow> bool" where
  "plain rth m \<longleftrightarrow> good_msg m \<and> (mine rth m \<longrightarrow> type_of m \<noteq> NLMSG_DONE \<and> type_of m \<noteq> NLMSG_ERROR)"

lemma dump_msgs_deliver:
  "accepts flt rth ms \<Longrightarrow> \<forall>m \<in> set ms. plain rth m \<Longrightarrow> int (length (datagram ms)) \<le> status \<Longrightarrow>
    dump_msgs flt None rth 0 (pre @ datagram ms @ post) (length pre) status w =
    dump_msgs flt None rth 0 (pre @ datagram ms @ post) (length (pre @ datagram ms)) (status - int (length (datagram ms)))
      (deliver flt rth ms w)"
proof (induction ms arbitrary: pre status w)
  case Nil
  then show ?case by (simp add: datagram_def deliver_def)
next
  case (Cons m ms)
  have m: "good_msg m" "mine rth m \<Longrightarrow> type_of m \<noteq> NLMSG_DONE \<and> type_of m \<noteq> NLMSG_ERROR"
    using Cons.prems(2) by (simp_all add: plain_def)
  have flt: "\<And>w. mine rth m \<Longrightarrow> 0 \<le> fst (flt 0 m w)" "accepts flt rth ms"
    using Cons.prems(1) by (simp_all add: accepts_def)
  have dg: "datagram (m # ms) = padded m @ datagram ms" by (simp add: datagram_def)
  have st: "int (length (padded m)) \<le> status" "int (length (datagram ms)) \<le> status - int (length (padded m))"
    using Cons.prems(3) by (simp_all add: dg)
  let ?w = "if mine rth m then snd (flt 0 m w) else w"
  have "dump_msgs flt None rth 0 (pre @ padded m @ (datagram ms @ post)) (length pre) status w =
      dump_msgs flt None rth 0 ((pre @ padded m) @ datagram ms @ post) (length (pre @ padded m)) (status - int (length (padded m))) ?w"
    using dump_msgs_step [of m rth flt status pre "datagram ms @ post", OF m flt(1) st(1)] by simp
  also have "\<dots> = dump_msgs flt None rth 0 ((pre @ padded m) @ datagram ms @ post) (length ((pre @ padded m) @ datagram ms))
      (status - int (length (padded m)) - int (length (datagram ms))) (deliver flt rth ms ?w)"
    using Cons.prems(2) st(2) flt(2) by (intro Cons.IH) simp_all
  finally show ?case by (simp add: dg deliver_def diff_diff_eq)
qed

lemma dump_msgs_all:
  assumes "accepts flt rth ms" "\<forall>m \<in> set ms. plain rth m"
  shows "dump_msgs flt None rth 0 (datagram ms @ post) 0 (int (length (datagram ms))) w = Some (Inr 0, deliver flt rth ms w)"
  using dump_msgs_deliver [of flt rth ms "int (length (datagram ms))" "[]" post w, OF assms(1,2)]
  by (simp add: dump_msgs.simps [of _ _ _ _ _ _ 0] NLMSG_OK_def)

lemma dump_msgs_done:
  assumes "accepts flt rth ms" "\<forall>m \<in> set ms. plain rth m"
    and d: "good_msg e" "mine rth e" "type_of e = NLMSG_DONE"
  shows "dump_msgs flt None rth 0 (datagram (ms @ e # rest) @ post) 0 (int (length (datagram (ms @ e # rest)))) w =
    Some (Inl 0, deliver flt rth ms w)"
proof -
  have dg: "datagram (ms @ e # rest) = datagram ms @ padded e @ datagram rest" by (simp add: datagram_def)
  let ?pre = "datagram ms" and ?post = "datagram rest @ post"
  let ?st = "int (length (padded e)) + int (length (datagram rest))"
  obtain p s where ps: "nlmsg_pid (?pre @ padded e @ ?post) (length ?pre) = Some p"
    "nlmsg_seq (?pre @ padded e @ ?post) (length ?pre) = Some s" "p = local_pid rth" "s = unat (dump rth)"
    using good_msg_fields(3) [OF d(1), of ?pre ?post rth] d(2) by blast
  have len: "16 \<le> length e" "length e \<le> length (padded e)" using d(1) RTA_ALIGN_bounds(1) [of "length e"]
    by (simp_all add: good_msg_def length_padded)
  then have ok: "NLMSG_OK (?pre @ padded e @ ?post) (length ?pre) ?st = Some (Some (length e))"
    using good_msg_fields(1) [OF d(1), of ?pre ?post] by (simp add: NLMSG_OK_def)
  have "dump_msgs flt None rth 0 (?pre @ padded e @ ?post) (length ?pre) ?st (deliver flt rth ms w) =
      Some (Inl 0, deliver flt rth ms w)"
    using ok ps good_msg_fields(2,4) [OF d(1), of ?pre ?post] d(3) by (subst dump_msgs.simps) simp
  then show ?thesis
    using dump_msgs_deliver [of flt rth ms "int (length (datagram ms)) + ?st" "[]" "padded e @ ?post" w, OF assms(1,2)]
    by (simp add: dg)
qed


section \<open>The whole dump\<close>

definition kernel_datagram :: "u8 list list \<Rightarrow> recv" where
  "kernel_datagram ms = Datagram 0 sizeof_sockaddr_nl False (datagram ms)"

lemma deliver_append: "deliver flt rth (ms @ ns) w = deliver flt rth ns (deliver flt rth ms w)"
  by (simp add: deliver_def)

lemma datagram_nonempty: "ms \<noteq> [] \<Longrightarrow> good_msg (hd ms) \<Longrightarrow> datagram ms \<noteq> []"
  by (cases ms) (auto simp: datagram_def good_msg_def padded_def)

lemma dump_loop_deliver:
  assumes d: "\<forall>m \<in> set fin. plain rth m" "good_msg e" "mine rth e" "type_of e = NLMSG_DONE"
  shows "accepts flt rth (concat dss @ fin) \<Longrightarrow> \<forall>ms \<in> set dss. ms \<noteq> [] \<and> (\<forall>m \<in> set ms. plain rth m) \<Longrightarrow>
    filter (\<lambda>r. r \<noteq> Failed) rs = map kernel_datagram dss @ kernel_datagram (fin @ e # rest) # later \<Longrightarrow>
    nl_dump_loop flt None rth buf rs w = Some (Return 0 (deliver flt rth (concat dss @ fin) w))"
proof (induction rs arbitrary: dss buf w)
  case (Cons r rs)
  show ?case
  proof (cases "r = Failed")
    case True
    then show ?thesis using Cons by simp
  next
    case False
    note rs = Cons.prems(3)
    show ?thesis
    proof (cases dss)
      case Nil
      then have r: "r = kernel_datagram (fin @ e # rest)" using rs False by simp
      have flt: "accepts flt rth fin" using Cons.prems(1) Nil by simp
      have "good_msg (hd (fin @ e # rest))" using d(1,2) by (cases fin) (auto simp: plain_def)
      then have ne: "datagram (fin @ e # rest) \<noteq> []" by (intro datagram_nonempty) simp_all
      show ?thesis
        using dump_msgs_done [where flt = flt and rth = rth and ms = fin and e = e and rest = rest and w = w
            and post = "drop (length (datagram (fin @ e # rest))) buf", OF flt d] Nil ne
        by (simp add: r kernel_datagram_def received_def)
    next
      case (Cons ms dss')
      then have r: "r = kernel_datagram ms" and rs': "filter (\<lambda>r. r \<noteq> Failed) rs =
          map kernel_datagram dss' @ kernel_datagram (fin @ e # rest) # later" using rs False by simp_all
      have ms: "ms \<noteq> []" "\<forall>m \<in> set ms. plain rth m" using Cons.prems(2) Cons by simp_all
      then have ne: "datagram ms \<noteq> []" by (intro datagram_nonempty) (simp_all add: plain_def)
      have "\<forall>ms \<in> set dss'. ms \<noteq> [] \<and> (\<forall>m \<in> set ms. plain rth m)" using Cons.prems(2) Cons by simp
      note plain = this
      have flt: "accepts flt rth ms" "accepts flt rth (concat dss' @ fin)" using Cons.prems(1) Cons by (simp_all add: accepts_def)
      from Cons.IH [OF flt(2) plain rs'] show ?thesis
        using dump_msgs_all [where flt = flt and rth = rth and ms = ms and w = w
            and post = "drop (length (datagram ms)) buf", OF flt(1) ms(2)] Cons ne
        by (simp add: r kernel_datagram_def received_def deliver_append)
    qed
  qed
qed simp

text \<open>Whatever arrives, the loops over a dump stay within the buffer.\<close>

lemma dump_msgs_safe:
  "int h + status \<le> int (length buf) \<Longrightarrow> \<exists>r w'. dump_msgs flt junk rth pid buf h status w = Some (r, w')"
proof (induction "nat status" arbitrary: h status w rule: less_induct)
  case less
  show ?case
  proof (cases "status < 16")
    case True
    then show ?thesis by (subst dump_msgs.simps) (simp add: NLMSG_OK_def)
  next
    case False
    then have h: "h + 16 \<le> length buf" using less.prems by simp
    obtain l where l: "rd_le buf h 4 = Some l" using rd_le_in [of h 4 buf] h by auto
    obtain p where p: "nlmsg_pid buf h = Some p" using rd_le_in [of "h + 12" 4 buf] h by (auto simp: nlmsg_pid_def)
    obtain s where s: "nlmsg_seq buf h = Some s" using rd_le_in [of "h + 8" 4 buf] h by (auto simp: nlmsg_seq_def)
    obtain t where t: "nlmsg_type buf h = Some t" using rd_le_in [of "h + 4" 2 buf] h by (auto simp: nlmsg_type_def)
    show ?thesis
    proof (cases "16 \<le> l \<and> int l \<le> status")
      case bad: False
      then show ?thesis using l False by (subst dump_msgs.simps) (auto simp: NLMSG_OK_def)
    next
      case ok: True
      then have "h + l \<le> length buf" using less.prems by simp
      then obtain msg where msg: "rd_bytes buf h l = Some msg" by (auto simp: rd_bytes_def)
      have "16 \<le> RTA_ALIGN l" using ok RTA_ALIGN_bounds(1) [of l] by simp
      then have rec: "\<exists>r w'. dump_msgs flt junk rth pid buf (h + RTA_ALIGN l) (status - int (RTA_ALIGN l)) w1 = Some (r, w')" for w1
        using less.prems False by (intro less.hyps) auto
      show ?thesis
      proof (cases "pid \<noteq> 0 \<or> p \<noteq> local_pid rth \<or> s \<noteq> unat (dump rth)")
        case True
        obtain err w1 where "(case junk of None \<Rightarrow> (0, w) | Some j \<Rightarrow> j pid msg w) = (err, w1)" by fastforce
        then show ?thesis using l p s t msg ok False True rec [of w1] by (subst dump_msgs.simps) (auto simp: NLMSG_OK_def)
      next
        case mine: False
        obtain err w1 where "flt pid msg w = (err, w1)" by fastforce
        then show ?thesis using l p s t msg ok False mine rec [of w1] by (subst dump_msgs.simps) (auto simp: NLMSG_OK_def)
      qed
    qed
  qed
qed

lemma dump_loop_safe:
  "\<forall>pid nl tr d. Datagram pid nl tr d \<in> set rs \<longrightarrow> length d \<le> length buf \<Longrightarrow> nl_dump_loop flt junk rth buf rs w \<noteq> None"
proof (induction rs arbitrary: buf w)
  case (Cons r rs)
  show ?case
  proof (cases r)
    case (Datagram pid nl tr d)
    have d: "length d \<le> length buf" using Cons.prems Datagram by auto
    then have len: "length (received buf d) = length buf" by (simp add: received_def)
    obtain r1 w1 where "dump_msgs flt junk rth pid (received buf d) 0 (int (length d)) w = Some (r1, w1)"
      using dump_msgs_safe [of 0 "int (length d)" "received buf d" flt junk rth pid w] d len by auto
    moreover have "nl_dump_loop flt junk rth (received buf d) rs w1 \<noteq> None"
      using Cons.prems len by (intro Cons.IH) auto
    ultimately show ?thesis using Datagram by (auto simp: Let_def split: sum.split)
  qed (use Cons in auto)
qed simp

section \<open>Properties\<close>

text \<open>
  C39: \<open>rtnl_dump_filter\<close> hands the messages of a dump to a filter that does not refuse them, each once, in order,
  over any number of datagrams of one message or more and retried receives (an empty datagram ends the dump with
  - 1), leaves out those with another port or sequence number,
  and returns 0 at the \<open>NLMSG_DONE\<close> message.
\<close>

theorem rtnl_dump_delivers:
  assumes "\<forall>m \<in> set (concat dss @ fin). mine rth m \<longrightarrow> (\<forall>w. 0 \<le> fst (flt 0 m w))"
    and "\<forall>ms \<in> set dss. ms \<noteq> [] \<and> (\<forall>m \<in> set ms. plain rth m)" "\<forall>m \<in> set fin. plain rth m"
    and "good_msg e" "mine rth e" "type_of e = NLMSG_DONE"
    and "filter (\<lambda>r. r \<noteq> Failed) rs = map kernel_datagram dss @ kernel_datagram (fin @ e # rest) # later"
  shows "rtnl_dump_filter old flt None rth rs w =
    Some (Return 0 (fold (\<lambda>m w. snd (flt 0 m w)) (filter (mine rth) (concat dss @ fin)) w))"
  using dump_loop_deliver [of fin rth e flt dss rs rest later old w, OF assms(3-6) _ assms(2,7)] assms(1)
  by (simp add: rtnl_dump_filter_def deliver_def accepts_def)

definition sample_handle :: rtnl_handle where
  "sample_handle = \<lparr>fd = 3, local_family = 16, local_groups = 0, local_pid = 77, seq = 5, dump = 5\<rparr>"

lemma sample_msg:
  assumes "length body < 1000" "t < 65536" "s < 4294967296" "p < 4294967296"
  defines "m \<equiv> nlmsghdr (16 + length body) t 0 s p @ body"
  shows "good_msg m" "type_of m = t" "mine sample_handle m \<longleftrightarrow> p = 77 \<and> s = 5"
proof -
  have l4: "rd_le m 0 4 = Some (16 + length body)" using rd_le_at [of "[]" 0 4 "16 + length body"] assms(1) by (simp add: m_def nlmsghdr_def)
  then show "good_msg m" by (simp add: good_msg_def m_def nlmsghdr_def)
  have "rd_le (le_bytes 4 (16 + length body) @ le_bytes 2 t @ (le_bytes 2 0 @ le_bytes 4 s @ le_bytes 4 p @ body)) 4 2 = Some (t mod 256 ^ 2)"
    by (rule rd_le_at) simp
  then show "type_of m = t" using assms(2) by (simp add: type_of_def m_def nlmsghdr_def)
  have "rd_le ((le_bytes 4 (16 + length body) @ le_bytes 2 t @ le_bytes 2 0) @ le_bytes 4 s @ (le_bytes 4 p @ body)) 8 4 = Some (s mod 256 ^ 4)"
    by (rule rd_le_at) simp
  moreover have "rd_le ((le_bytes 4 (16 + length body) @ le_bytes 2 t @ le_bytes 2 0 @ le_bytes 4 s) @ le_bytes 4 p @ body) 12 4 = Some (p mod 256 ^ 4)"
    by (rule rd_le_at) simp
  ultimately show "mine sample_handle m \<longleftrightarrow> p = 77 \<and> s = 5"
    using assms(3,4) by (auto simp: mine_def m_def nlmsghdr_def sample_handle_def)
qed

lemma rtnl_dump_delivers_witness:
  "rtnl_dump_filter (replicate 16384 0) (\<lambda>pid m w. (0, w @ [drop 16 m])) None sample_handle
     [Failed, kernel_datagram [nlmsghdr (16 + length [1]) 20 0 5 77 @ [1], nlmsghdr (16 + length [2, 2]) 20 0 4 77 @ [2, 2]],
      kernel_datagram ([nlmsghdr (16 + length [3]) 20 0 5 77 @ [3]] @ (nlmsghdr (16 + length []) 3 0 5 77 @ []) # [])] [] =
   Some (Return 0 [[1], [3 :: u8]])"
proof -
  let ?a = "nlmsghdr (16 + length [1 :: u8]) 20 0 5 77 @ [1]" and ?b = "nlmsghdr (16 + length [2, 2 :: u8]) 20 0 4 77 @ [2, 2]"
  let ?c = "nlmsghdr (16 + length [3 :: u8]) 20 0 5 77 @ [3]" and ?e = "nlmsghdr (16 + length ([] :: u8 list)) 3 0 5 77 @ []"
  note a = sample_msg [of "[1]" 20 5 77] and b = sample_msg [of "[2, 2]" 20 4 77] and c = sample_msg [of "[3]" 20 5 77]
    and e = sample_msg [of "[]" 3 5 77]
  have "\<forall>ms \<in> set [[?a, ?b]]. ms \<noteq> [] \<and> (\<forall>m \<in> set ms. plain sample_handle m)" "\<forall>m \<in> set [?c]. plain sample_handle m"
    using a b c by (auto simp: plain_def NLMSG_DONE_def NLMSG_ERROR_def)
  moreover have "good_msg ?e" "mine sample_handle ?e" "type_of ?e = NLMSG_DONE" using e by (auto simp: NLMSG_DONE_def)
  ultimately have "rtnl_dump_filter (replicate 16384 0) (\<lambda>pid m w. (0, w @ [drop 16 m])) None sample_handle
     [Failed, kernel_datagram [?a, ?b], kernel_datagram ([?c] @ ?e # [])] [] =
   Some (Return 0 (fold (\<lambda>m w. snd (0 :: int, w @ [drop 16 m])) (filter (mine sample_handle) (concat [[?a, ?b]] @ [?c])) []))"
    by (intro rtnl_dump_delivers) (simp_all add: kernel_datagram_def)
  moreover have "filter (mine sample_handle) (concat [[?a, ?b]] @ [?c]) = [?a, ?c]" using a(3) b(3) c(3) by simp
  moreover have "drop 16 ?a = [1]" "drop 16 ?c = [3]" by (simp_all add: nlmsghdr_def)
  ultimately show ?thesis by simp
qed

text \<open>
  C40: Whatever bytes the kernel or a forger sends, the dump loop reads only within its buffer, and the attribute
  parser at most 5 bytes behind the range it is given, and both end: for datagrams that fit the buffer
  \<open>rtnl_dump_filter\<close> has a defined outcome, and \<open>parse_rtattr\<close> on a range with 5 readable bytes behind it
  fills its table and does not leave more than the range over.
\<close>

theorem netlink_parsers_safe:
  assumes "\<forall>pid nl tr d. Datagram pid nl tr d \<in> set rs \<longrightarrow> length d \<le> length old"
    and "0 \<le> len" "int rta + len + 5 \<le> int (length buf)"
  shows "(\<exists>out. rtnl_dump_filter old flt junk rth rs w = Some out) \<and>
    (\<exists>tb left. parse_rtattr mx buf rta len = Some (tb, left) \<and> length tb = mx + 1 \<and> left \<le> len)"
  using dump_loop_safe [OF assms(1), of flt junk rth w] parse_loop_safe [of len rta buf mx "replicate (mx + 1) None"] assms(2,3)
  by (auto simp: rtnl_dump_filter_def parse_rtattr_def)

lemma netlink_parsers_safe_witness:
  "(\<exists>out. rtnl_dump_filter (replicate 20 0) (\<lambda>pid m w. (0, w)) None sample_handle [Datagram 0 12 False [255, 255, 255, 255, 1]] () = Some out) \<and>
   (\<exists>tb left. parse_rtattr 2 [5, 0, 1, 0, 9, 0, 0, 0, 0, 0] 0 5 = Some (tb, left) \<and> length tb = 2 + 1 \<and> left \<le> 5)"
  by (rule netlink_parsers_safe) simp_all

end
