(* ===== verification/CircleQueue.thy ===== *)
theory CircleQueue
  imports Interfaces
begin

text \<open>
  The circular queues of \<open>src/bsd_hash/queue_plus.h\<close>.  The pointers of a queue lead to elements or, cast,
  to the head itself.  As in \<open>QueueMacros\<close> a macro is a function on memory; \<open>None\<close> is the use of a pointer
  that does not lead to an element as if it did.
\<close>

section \<open>Memory\<close>

datatype ('h, 'e) cptr = Null | Head 'h | Elm 'e

record ('h, 'e) cmem =
  cqh_first :: "'h \<Rightarrow> ('h, 'e) cptr"
  cqh_last :: "'h \<Rightarrow> ('h, 'e) cptr"
  cqe_next :: "'e \<Rightarrow> ('h, 'e) cptr"
  cqe_prev :: "'e \<Rightarrow> ('h, 'e) cptr"

definition set_cfirst :: "'h \<Rightarrow> ('h, 'e) cptr \<Rightarrow> ('h, 'e) cmem \<Rightarrow> ('h, 'e) cmem" where
  "set_cfirst h p s = s\<lparr>cqh_first := (cqh_first s)(h := p)\<rparr>"

definition set_clast :: "'h \<Rightarrow> ('h, 'e) cptr \<Rightarrow> ('h, 'e) cmem \<Rightarrow> ('h, 'e) cmem" where
  "set_clast h p s = s\<lparr>cqh_last := (cqh_last s)(h := p)\<rparr>"

definition set_cnext :: "'e \<Rightarrow> ('h, 'e) cptr \<Rightarrow> ('h, 'e) cmem \<Rightarrow> ('h, 'e) cmem" where
  "set_cnext e p s = s\<lparr>cqe_next := (cqe_next s)(e := p)\<rparr>"

definition set_cprev :: "'e \<Rightarrow> ('h, 'e) cptr \<Rightarrow> ('h, 'e) cmem \<Rightarrow> ('h, 'e) cmem" where
  "set_cprev e p s = s\<lparr>cqe_prev := (cqe_prev s)(e := p)\<rparr>"

text \<open>The fields of the element that a pointer leads to.\<close>

definition put_cnext :: "('h, 'e) cptr \<Rightarrow> ('h, 'e) cptr \<Rightarrow> ('h, 'e) cmem \<Rightarrow> ('h, 'e) cmem option" where
  "put_cnext p v s = (case p of Elm e \<Rightarrow> Some (set_cnext e v s) | _ \<Rightarrow> None)"

definition put_cprev :: "('h, 'e) cptr \<Rightarrow> ('h, 'e) cptr \<Rightarrow> ('h, 'e) cmem \<Rightarrow> ('h, 'e) cmem option" where
  "put_cprev p v s = (case p of Elm e \<Rightarrow> Some (set_cprev e v s) | _ \<Rightarrow> None)"

section \<open>Circular queues\<close>

definition CIRCLEQ_EMPTY :: "('h, 'e) cmem \<Rightarrow> 'h \<Rightarrow> bool" where
  "CIRCLEQ_EMPTY s head = (cqh_first s head = Head head)"

partial_function (option) cvisit :: "('h, 'e) cmem \<Rightarrow> 'h \<Rightarrow> ('h, 'e) cptr \<Rightarrow> 'e list option" where
  "cvisit s head var =
     (if var = Head head then Some []
      else case var of Elm e \<Rightarrow> do { es \<leftarrow> cvisit s head (cqe_next s e); Some (e # es) } | _ \<Rightarrow> None)"

partial_function (option) cvisit_back :: "('h, 'e) cmem \<Rightarrow> 'h \<Rightarrow> ('h, 'e) cptr \<Rightarrow> 'e list option" where
  "cvisit_back s head var =
     (if var = Head head then Some []
      else case var of Elm e \<Rightarrow> do { es \<leftarrow> cvisit_back s head (cqe_prev s e); Some (e # es) } | _ \<Rightarrow> None)"

definition CIRCLEQ_FOREACH :: "('h, 'e) cmem \<Rightarrow> 'h \<Rightarrow> 'e list option" where
  "CIRCLEQ_FOREACH s head = cvisit s head (cqh_first s head)"

definition CIRCLEQ_FOREACH_REVERSE :: "('h, 'e) cmem \<Rightarrow> 'h \<Rightarrow> 'e list option" where
  "CIRCLEQ_FOREACH_REVERSE s head = cvisit_back s head (cqh_last s head)"

definition CIRCLEQ_INIT :: "'h \<Rightarrow> ('h, 'e) cmem \<Rightarrow> ('h, 'e) cmem option" where
  "CIRCLEQ_INIT head s = do {
     let s = set_cfirst head (Head head) s;
     Some (set_clast head (Head head) s) }"

definition CIRCLEQ_INSERT_AFTER :: "'h \<Rightarrow> 'e \<Rightarrow> 'e \<Rightarrow> ('h, 'e) cmem \<Rightarrow> ('h, 'e) cmem option" where
  "CIRCLEQ_INSERT_AFTER head listelm elm s = do {
     let s = set_cnext elm (cqe_next s listelm) s;
     let s = set_cprev elm (Elm listelm) s;
     s \<leftarrow> (if cqe_next s listelm = Head head then Some (set_clast head (Elm elm) s)
           else put_cprev (cqe_next s listelm) (Elm elm) s);
     Some (set_cnext listelm (Elm elm) s) }"

definition CIRCLEQ_INSERT_BEFORE :: "'h \<Rightarrow> 'e \<Rightarrow> 'e \<Rightarrow> ('h, 'e) cmem \<Rightarrow> ('h, 'e) cmem option" where
  "CIRCLEQ_INSERT_BEFORE head listelm elm s = do {
     let s = set_cnext elm (Elm listelm) s;
     let s = set_cprev elm (cqe_prev s listelm) s;
     s \<leftarrow> (if cqe_prev s listelm = Head head then Some (set_cfirst head (Elm elm) s)
           else put_cnext (cqe_prev s listelm) (Elm elm) s);
     Some (set_cprev listelm (Elm elm) s) }"

definition CIRCLEQ_INSERT_HEAD :: "'h \<Rightarrow> 'e \<Rightarrow> ('h, 'e) cmem \<Rightarrow> ('h, 'e) cmem option" where
  "CIRCLEQ_INSERT_HEAD head elm s = do {
     let s = set_cnext elm (cqh_first s head) s;
     let s = set_cprev elm (Head head) s;
     s \<leftarrow> (if cqh_last s head = Head head then Some (set_clast head (Elm elm) s)
           else put_cprev (cqh_first s head) (Elm elm) s);
     Some (set_cfirst head (Elm elm) s) }"

definition CIRCLEQ_INSERT_TAIL :: "'h \<Rightarrow> 'e \<Rightarrow> ('h, 'e) cmem \<Rightarrow> ('h, 'e) cmem option" where
  "CIRCLEQ_INSERT_TAIL head elm s = do {
     let s = set_cnext elm (Head head) s;
     let s = set_cprev elm (cqh_last s head) s;
     s \<leftarrow> (if cqh_first s head = Head head then Some (set_cfirst head (Elm elm) s)
           else put_cnext (cqh_last s head) (Elm elm) s);
     Some (set_clast head (Elm elm) s) }"

definition CIRCLEQ_REMOVE :: "'h \<Rightarrow> 'e \<Rightarrow> ('h, 'e) cmem \<Rightarrow> ('h, 'e) cmem option" where
  "CIRCLEQ_REMOVE head elm s = do {
     s \<leftarrow> (if cqe_next s elm = Head head then Some (set_clast head (cqe_prev s elm) s)
           else put_cprev (cqe_next s elm) (cqe_prev s elm) s);
     if cqe_prev s elm = Head head then Some (set_cfirst head (cqe_next s elm) s)
     else put_cnext (cqe_prev s elm) (cqe_next s elm) s }"

declare cvisit.simps [code] cvisit_back.simps [code]

section \<open>Rings\<close>

text \<open>The next and the previous pointer of an element or a head.\<close>

fun nextp :: "('h, 'e) cmem \<Rightarrow> ('h, 'e) cptr \<Rightarrow> ('h, 'e) cptr" where
  "nextp s Null = Null"
| "nextp s (Head h) = cqh_first s h"
| "nextp s (Elm e) = cqe_next s e"

fun prevp :: "('h, 'e) cmem \<Rightarrow> ('h, 'e) cptr \<Rightarrow> ('h, 'e) cptr" where
  "prevp s Null = Null"
| "prevp s (Head h) = cqh_last s h"
| "prevp s (Elm e) = cqe_prev s e"

lemma cset_simps [simp]:
  "cqh_first (set_cfirst h v s) = (cqh_first s)(h := v)" "cqh_last (set_cfirst h v s) = cqh_last s"
  "cqe_next (set_cfirst h v s) = cqe_next s" "cqe_prev (set_cfirst h v s) = cqe_prev s"
  "cqh_first (set_clast h v s) = cqh_first s" "cqh_last (set_clast h v s) = (cqh_last s)(h := v)"
  "cqe_next (set_clast h v s) = cqe_next s" "cqe_prev (set_clast h v s) = cqe_prev s"
  "cqh_first (set_cnext e v s) = cqh_first s" "cqh_last (set_cnext e v s) = cqh_last s"
  "cqe_next (set_cnext e v s) = (cqe_next s)(e := v)" "cqe_prev (set_cnext e v s) = cqe_prev s"
  "cqh_first (set_cprev e v s) = cqh_first s" "cqh_last (set_cprev e v s) = cqh_last s"
  "cqe_next (set_cprev e v s) = cqe_next s" "cqe_prev (set_cprev e v s) = (cqe_prev s)(e := v)"
  by (simp_all add: set_cfirst_def set_clast_def set_cnext_def set_cprev_def)

lemma ptr_simps [simp]:
  "nextp (set_cfirst h v s) p = (if p = Head h then v else nextp s p)" "nextp (set_clast h v s) p = nextp s p"
  "nextp (set_cnext e v s) p = (if p = Elm e then v else nextp s p)" "nextp (set_cprev e v s) p = nextp s p"
  "prevp (set_cfirst h v s) p = prevp s p" "prevp (set_clast h v s) p = (if p = Head h then v else prevp s p)"
  "prevp (set_cnext e v s) p = prevp s p" "prevp (set_cprev e v s) p = (if p = Elm e then v else prevp s p)"
  by (cases p; simp)+

fun clinks :: "('h, 'e) cmem \<Rightarrow> ('h, 'e) cptr \<Rightarrow> 'e list \<Rightarrow> bool" where
  "clinks s p [] \<longleftrightarrow> True"
| "clinks s p (x # xs) \<longleftrightarrow> nextp s p = Elm x \<and> prevp s (Elm x) = p \<and> clinks s (Elm x) xs"

definition cend :: "('h, 'e) cptr \<Rightarrow> 'e list \<Rightarrow> ('h, 'e) cptr" where
  "cend p xs = (if xs = [] then p else Elm (last xs))"

definition cbegin :: "'e list \<Rightarrow> ('h, 'e) cptr \<Rightarrow> ('h, 'e) cptr" where
  "cbegin xs p = (case xs of [] \<Rightarrow> p | x # _ \<Rightarrow> Elm x)"

definition cqueue :: "('h, 'e) cmem \<Rightarrow> 'h \<Rightarrow> 'e list \<Rightarrow> bool" where
  "cqueue s h xs \<longleftrightarrow> clinks s (Head h) xs \<and> nextp s (cend (Head h) xs) = Head h \<and>
     prevp s (Head h) = cend (Head h) xs \<and> distinct xs"

abbreviation cholds :: "('h, 'e) cmem \<Rightarrow> ('h \<Rightarrow> 'e list option) \<Rightarrow> bool" where
  "cholds \<equiv> represents cqueue"

lemma cend_simps [simp]: "cend p [] = p" "cend p (x # xs) = cend (Elm x) xs" "cend p (xs @ ys) = cend (cend p xs) ys"
  by (simp_all add: cend_def)

lemma cbegin_simps [simp]: "cbegin [] p = p" "cbegin (x # xs) p = Elm x"
  by (simp_all add: cbegin_def)

lemma cend_eq [simp]:
  "cend (Head h) xs = Elm e \<longleftrightarrow> xs \<noteq> [] \<and> e = last xs" "cend (Head h) xs = Head h' \<longleftrightarrow> xs = [] \<and> h' = h"
  "cend (Elm x) xs \<noteq> Head h"
  "Elm e = cend (Head h) xs \<longleftrightarrow> xs \<noteq> [] \<and> e = last xs" "Head h' = cend (Head h) xs \<longleftrightarrow> xs = [] \<and> h' = h"
  by (auto simp: cend_def)

lemma clinks_append [simp]: "clinks s p (xs @ ys) \<longleftrightarrow> clinks s p xs \<and> clinks s (cend p xs) ys"
  by (induction xs arbitrary: p) auto

lemma clinks_frame:
  assumes "\<And>x. x \<in> set xs \<Longrightarrow> cqe_prev s' x = cqe_prev s x" "xs \<noteq> [] \<Longrightarrow> nextp s' p = nextp s p"
    and "\<And>x. x \<in> set (butlast xs) \<Longrightarrow> cqe_next s' x = cqe_next s x"
  shows "clinks s' p xs \<longleftrightarrow> clinks s p xs"
  using assms
proof (induction xs arbitrary: p)
  case (Cons a xs)
  have "clinks s' (Elm a) xs = clinks s (Elm a) xs"
  proof (rule Cons.IH)
    show "cqe_next s' x = cqe_next s x" if "x \<in> set (butlast xs)" for x
      using that Cons.prems(3) [of x] by (cases xs) auto
  qed (use Cons.prems(1) Cons.prems(3) [of a] in auto)
  then show ?case using Cons.prems(1) [of a] Cons.prems(2) by auto
qed simp

lemma nextp_cend: "nextp s (cend p xs) = (if xs = [] then nextp s p else cqe_next s (last xs))"
  by (simp add: cend_def)

lemma cqueue_frame:
  assumes "cqueue s h xs" "cqh_first s' h = cqh_first s h" "cqh_last s' h = cqh_last s h"
    and "\<And>x. x \<in> set xs \<Longrightarrow> cqe_next s' x = cqe_next s x" "\<And>x. x \<in> set xs \<Longrightarrow> cqe_prev s' x = cqe_prev s x"
  shows "cqueue s' h xs"
proof -
  have "clinks s' (Head h) xs"
    using assms clinks_frame [of xs s' s "Head h"] by (auto simp: cqueue_def dest: in_set_butlastD)
  moreover have "nextp s' (cend (Head h) xs) = Head h"
    using assms(1,2,4) by (auto simp: cqueue_def nextp_cend split: if_splits)
  ultimately show ?thesis using assms(1,3) by (auto simp: cqueue_def)
qed

lemma cqueue_split:
  assumes "cqueue s h (pre @ x # post)"
  shows "nextp s (cend (Head h) pre) = Elm x" "cqe_prev s x = cend (Head h) pre"
    "cqe_next s x = cbegin post (Head h)" "prevp s (cbegin post (Head h)) = Elm x"
    "x \<notin> set pre" "x \<notin> set post" "set pre \<inter> set post = {}" "distinct pre" "distinct post"
  using assms by (cases post; auto simp: cqueue_def)+

lemma cqueue_head:
  assumes "cqueue s h xs"
  shows "cqh_first s h = cbegin xs (Head h)" "cqh_last s h = cend (Head h) xs"
    "nextp s (cend (Head h) xs) = Head h" "prevp s (cbegin xs (Head h)) = Head h" "distinct xs"
  using assms by (cases xs; simp add: cqueue_def)+

text \<open>The part \<open>old\<close> of a ring is replaced by \<open>new\<close>.\<close>

definition cspliced ::
  "('h, 'e) cmem \<Rightarrow> 'h \<Rightarrow> 'e list \<Rightarrow> 'e list \<Rightarrow> 'e list \<Rightarrow> 'e list \<Rightarrow> ('h, 'e) cmem \<Rightarrow> bool" where
  "cspliced s h pre old new post s' \<longleftrightarrow>
     (\<forall>p. p \<notin> Elm ` (set old \<union> set new) \<longrightarrow> p \<noteq> cend (Head h) pre \<longrightarrow> nextp s' p = nextp s p) \<and>
     (\<forall>p. p \<notin> Elm ` (set old \<union> set new) \<longrightarrow> p \<noteq> cbegin post (Head h) \<longrightarrow> prevp s' p = prevp s p) \<and>
     clinks s' (cend (Head h) pre) new \<and>
     nextp s' (cend (cend (Head h) pre) new) = cbegin post (Head h) \<and>
     prevp s' (cbegin post (Head h)) = cend (cend (Head h) pre) new"

lemma csplice:
  assumes h: "cholds s q" "q h = Some (pre @ old @ post)" and sp: "cspliced s h pre old new post s'"
    and new: "distinct new" "\<And>e. e \<in> set new \<Longrightarrow> unqueued q e"
  shows "cholds s' (q(h \<mapsto> pre @ new @ post))"
proof -
  have q: "cqueue s h (pre @ old @ post)" using h by (simp add: represents_def)
  then have dist: "distinct (pre @ old @ post)" by (simp add: cqueue_def)
  have next_: "nextp s' p = nextp s p" if "p \<notin> Elm ` (set old \<union> set new)" "p \<noteq> cend (Head h) pre" for p
    using sp that unfolding cspliced_def by blast
  have prev: "prevp s' p = prevp s p" if "p \<notin> Elm ` (set old \<union> set new)" "p \<noteq> cbegin post (Head h)" for p
    using sp that unfolding cspliced_def by blast
  have fresh: "e \<notin> set pre" "e \<notin> set post" if "e \<in> set new" for e
    using unqueuedD [OF new(2) [OF that] h(2)] by simp_all
  have beg: "Elm e \<noteq> cbegin post (Head h)" if "e \<notin> set post" for e using that by (cases post) auto
  have other: "cqueue s' h' xs" "set xs \<inter> set (pre @ new @ post) = {}" if "h' \<noteq> h" "q h' = Some xs" for h' xs
  proof -
    have xs: "cqueue s h' xs" "set xs \<inter> set (pre @ old @ post) = {}"
      using h that unfolding represents_def by blast+
    have nw: "set xs \<inter> set new = {}" using new(2) that(2) unfolding unqueued_def by blast
    then show "set xs \<inter> set (pre @ new @ post) = {}" using xs(2) by auto
    have e: "nextp s' (Elm x) = nextp s (Elm x)" "prevp s' (Elm x) = prevp s (Elm x)" if "x \<in> set xs" for x
      using that xs(2) nw beg [of x] next_ [of "Elm x"] prev [of "Elm x"] by (auto dest: last_in_set)
    have "Head h' \<noteq> cbegin post (Head h)" using that(1) by (cases post) auto
    then have "nextp s' (Head h') = nextp s (Head h')" "prevp s' (Head h') = prevp s (Head h')"
      using that(1) next_ [of "Head h'"] prev [of "Head h'"] by auto
    then show "cqueue s' h' xs" using e by (intro cqueue_frame [OF xs(1)]) simp_all
  qed
  have pre: "clinks s' (Head h) pre"
  proof -
    have "cqe_prev s' x = cqe_prev s x" if "x \<in> set pre" for x
      using that dist fresh(1) prev [of "Elm x"] beg [of x] by auto
    moreover have "cqe_next s' x = cqe_next s x" if "x \<in> set (butlast pre)" for x
    proof -
      have "x \<in> set pre" using that by (rule in_set_butlastD)
      moreover have "x \<noteq> last pre" using that dist by (cases pre rule: rev_cases) auto
      ultimately show ?thesis using next_ [of "Elm x"] dist fresh(1) by auto
    qed
    moreover have "cqh_first s' h = cqh_first s h" if "pre \<noteq> []" using next_ [of "Head h"] that by auto
    ultimately show ?thesis using clinks_frame [of pre s' s "Head h"] q by (auto simp: cqueue_def)
  qed
  have nx: "cqe_next s' x = cqe_next s x" if "x \<in> set post" for x
    using that dist fresh(2) next_ [of "Elm x"] by (auto dest: last_in_set)
  have tail: "clinks s' (cend (Head h) (pre @ new)) post \<and> nextp s' (cend (Head h) (pre @ new @ post)) = Head h \<and>
      prevp s' (Head h) = cend (Head h) (pre @ new @ post)"
  proof (cases post)
    case Nil
    then show ?thesis using sp by (simp add: cspliced_def)
  next
    case (Cons p ps)
    have "cqe_prev s' x = cqe_prev s x" if "x \<in> set ps" for x
      using that dist fresh(2) prev [of "Elm x"] Cons by auto
    then have "clinks s' (Elm p) ps \<longleftrightarrow> clinks s (Elm p) ps"
      using nx Cons by (intro clinks_frame) (auto dest: in_set_butlastD)
    moreover have "nextp s' (cend (Elm p) ps) = nextp s (cend (Elm p) ps)"
      using nx [of p] nx [of "last ps"] Cons by (cases "ps = []") (simp_all add: cend_def)
    moreover have "prevp s' (Head h) = prevp s (Head h)" using prev [of "Head h"] Cons by auto
    ultimately show ?thesis using sp q Cons by (simp add: cspliced_def cqueue_def)
  qed
  have "cqueue s' h (pre @ new @ post)"
    using pre sp new(1) tail dist fresh unfolding cqueue_def cspliced_def by auto
  moreover have "cqueue s' h' xs" if "(q(h \<mapsto> pre @ new @ post)) h' = Some xs" "h' \<noteq> h" for h' xs
    using other(1) that by simp
  moreover have "set xs \<inter> set xs' = {}"
    if "(q(h \<mapsto> pre @ new @ post)) h1 = Some xs" "(q(h \<mapsto> pre @ new @ post)) h2 = Some xs'" "h1 \<noteq> h2" for h1 h2 xs xs'
  proof (cases "h1 = h \<or> h2 = h")
    case True
    then show ?thesis using that other(2) by (metis fun_upd_apply inf_commute option.inject)
  next
    case False
    then show ?thesis using that h(1) unfolding represents_def by (metis fun_upd_apply)
  qed
  ultimately show ?thesis unfolding represents_def by (metis fun_upd_same option.inject)
qed

lemmas cmacro_simps = cspliced_def put_cnext_def put_cprev_def nextp_cend Let_def

lemma CIRCLEQ_splice:
  "cqueue s h xs \<Longrightarrow> e \<notin> set xs \<Longrightarrow> \<exists>s'. CIRCLEQ_INSERT_HEAD h e s = Some s' \<and> cspliced s h [] [] [e] xs s'"
  "cqueue s h xs \<Longrightarrow> e \<notin> set xs \<Longrightarrow> \<exists>s'. CIRCLEQ_INSERT_TAIL h e s = Some s' \<and> cspliced s h xs [] [e] [] s'"
  "cqueue s h (pre @ x # post) \<Longrightarrow> e \<notin> set (pre @ x # post) \<Longrightarrow>
   \<exists>s'. CIRCLEQ_INSERT_AFTER h x e s = Some s' \<and> cspliced s h (pre @ [x]) [] [e] post s'"
  "cqueue s h (pre @ x # post) \<Longrightarrow> e \<notin> set (pre @ x # post) \<Longrightarrow>
   \<exists>s'. CIRCLEQ_INSERT_BEFORE h x e s = Some s' \<and> cspliced s h pre [] [e] (x # post) s'"
  "cqueue s h (pre @ x # post) \<Longrightarrow> \<exists>s'. CIRCLEQ_REMOVE h x s = Some s' \<and> cspliced s h pre [x] [] post s'"
proof -
  show "\<exists>s'. CIRCLEQ_INSERT_HEAD h e s = Some s' \<and> cspliced s h [] [] [e] xs s'"
    if "cqueue s h xs" "e \<notin> set xs"
    using cqueue_head [OF that(1)] that(2) by (cases xs) (auto simp: CIRCLEQ_INSERT_HEAD_def cmacro_simps)
  show "\<exists>s'. CIRCLEQ_INSERT_TAIL h e s = Some s' \<and> cspliced s h xs [] [e] [] s'"
    if "cqueue s h xs" "e \<notin> set xs"
    using cqueue_head [OF that(1)] that(2)
    by (cases xs rule: rev_cases; cases xs) (auto simp: CIRCLEQ_INSERT_TAIL_def cmacro_simps)
  show "\<exists>s'. CIRCLEQ_INSERT_AFTER h x e s = Some s' \<and> cspliced s h (pre @ [x]) [] [e] post s'"
    if "cqueue s h (pre @ x # post)" "e \<notin> set (pre @ x # post)"
    using cqueue_split [OF that(1)] that(2) by (cases post) (auto simp: CIRCLEQ_INSERT_AFTER_def cmacro_simps)
  show "\<exists>s'. CIRCLEQ_INSERT_BEFORE h x e s = Some s' \<and> cspliced s h pre [] [e] (x # post) s'"
    if "cqueue s h (pre @ x # post)" "e \<notin> set (pre @ x # post)"
    using cqueue_split [OF that(1)] that(2)
    by (cases pre rule: rev_cases) (auto simp: CIRCLEQ_INSERT_BEFORE_def cmacro_simps)
  show "\<exists>s'. CIRCLEQ_REMOVE h x s = Some s' \<and> cspliced s h pre [x] [] post s'"
    if "cqueue s h (pre @ x # post)"
    using cqueue_split [OF that(1)]
    by (cases pre rule: rev_cases; cases post) (auto simp: CIRCLEQ_REMOVE_def cmacro_simps)
qed

definition cemptied :: "('h, 'e) cmem \<Rightarrow> 'h \<Rightarrow> ('h, 'e) cmem \<Rightarrow> bool" where
  "cemptied s h s' \<longleftrightarrow> cqh_first s' = (cqh_first s)(h := Head h) \<and> cqh_last s' = (cqh_last s)(h := Head h) \<and>
     cqe_next s' = cqe_next s \<and> cqe_prev s' = cqe_prev s"

lemma cemptied:
  assumes "cholds s q" "cemptied s h s'"
  shows "cholds s' (q(h \<mapsto> []))"
proof -
  have "cqueue s' h []" using assms(2) by (simp add: cqueue_def cemptied_def)
  moreover have "cqueue s' h' xs" if "h' \<noteq> h" "q h' = Some xs" for h' xs
    using represents_queue [OF assms(1) that(2)] that(1) assms(2) by (auto intro: cqueue_frame simp: cemptied_def)
  ultimately show ?thesis using assms(1) unfolding represents_def by (auto split: if_splits)
qed

lemma cvisit_links:
  "clinks s p xs \<Longrightarrow> nextp s (cend p xs) = Head h \<Longrightarrow> cvisit s h (nextp s p) = Some xs"
proof (induction xs arbitrary: p)
  case (Cons x xs)
  then show ?case using Cons.IH [of "Elm x"] by (subst cvisit.simps) simp
qed (subst cvisit.simps, simp)

lemma cvisit_back_links:
  "clinks s (Head h) xs \<Longrightarrow> cvisit_back s h (cend (Head h) xs) = Some (rev xs)"
proof (induction xs rule: rev_induct)
  case (snoc x xs)
  then show ?case by (subst cvisit_back.simps) simp
qed (subst cvisit_back.simps, simp)

section \<open>The commands\<close>

fun circleq_cmd :: "('h, 'e) qcmd \<Rightarrow> bool" where
  "circleq_cmd (Remove_head h) = False"
| "circleq_cmd (Remove_head_until h e) = False"
| "circleq_cmd c = True"

fun circleq_step :: "('h, 'e) qcmd \<Rightarrow> ('h, 'e) cmem \<Rightarrow> ('h, 'e) cmem option" where
  "circleq_step (Init h) s = CIRCLEQ_INIT h s"
| "circleq_step (Insert_head h e) s = CIRCLEQ_INSERT_HEAD h e s"
| "circleq_step (Insert_tail h e) s = CIRCLEQ_INSERT_TAIL h e s"
| "circleq_step (Insert_after h x e) s = CIRCLEQ_INSERT_AFTER h x e s"
| "circleq_step (Insert_before h x e) s = CIRCLEQ_INSERT_BEFORE h x e s"
| "circleq_step (Remove h e) s = CIRCLEQ_REMOVE h e s"
| "circleq_step c s = None"

lemma circleq_does: "circleq_cmd c \<Longrightarrow> does cqueue cspliced cemptied s c (circleq_step c s)"
  using CIRCLEQ_splice [where s = s] by (cases c) (simp_all add: CIRCLEQ_INIT_def Let_def cemptied_def)

lemma cvisit_queue: "cqueue s h xs \<Longrightarrow> CIRCLEQ_FOREACH s h = Some xs"
  using cvisit_links [of s "Head h" xs h] by (simp add: CIRCLEQ_FOREACH_def cqueue_def)

lemma cvisit_back_queue: "cqueue s h xs \<Longrightarrow> CIRCLEQ_FOREACH_REVERSE s h = Some (rev xs)"
  by (simp add: cqueue_def cvisit_back_links CIRCLEQ_FOREACH_REVERSE_def)

lemma CIRCLEQ_EMPTY_queue: "cqueue s h xs \<Longrightarrow> CIRCLEQ_EMPTY s h = (xs = [])"
  by (cases xs) (simp_all add: CIRCLEQ_EMPTY_def cqueue_def)

interpretation circleq: queue_macros cqueue cspliced cemptied circleq_cmd circleq_step CIRCLEQ_FOREACH
  by unfold_locales (auto simp: cvisit_queue intro: csplice cemptied circleq_does)

section \<open>Properties\<close>

text \<open>
  C10: Whatever commands are given to circular queues in one memory, each on an initialised queue, inserting
  elements that are in no queue and naming members: no macro follows a pointer that does not lead to an
  element, and afterwards every queue visits the elements of its list in order and in reverse.
\<close>

theorem circleq_refines_lists:
  assumes "\<forall>c \<in> set cs. circleq_cmd c" "effects cs = Some q"
  shows "\<exists>s'. foldM (\<lambda>s c. circleq_step c s) cs s = Some s' \<and>
    (\<forall>h xs. q h = Some xs \<longrightarrow> CIRCLEQ_FOREACH s' h = Some xs \<and> CIRCLEQ_FOREACH_REVERSE s' h = Some (rev xs) \<and>
      CIRCLEQ_EMPTY s' h = (xs = []))"
proof -
  obtain s' where s': "foldM (\<lambda>s c. circleq_step c s) cs s = Some s'" "cholds s' q"
    "\<forall>h xs. q h = Some xs \<longrightarrow> CIRCLEQ_FOREACH s' h = Some xs" using circleq.run_start [OF assms, of s] by blast
  have "CIRCLEQ_FOREACH_REVERSE s' h = Some (rev xs)" "CIRCLEQ_EMPTY s' h = (xs = [])" if "q h = Some xs" for h xs
    by (rule cvisit_back_queue CIRCLEQ_EMPTY_queue, rule represents_queue [OF s'(2) that])+
  then show ?thesis using s'(1,3) by blast
qed

definition sample_ring :: "(nat, nat) qcmd list" where
  "sample_ring = [Init 0, Insert_head 0 1, Insert_tail 0 2, Insert_after 0 1 3, Insert_before 0 1 4, Init 5, Remove 0 3, Insert_tail 5 3]"

lemma circleq_refines_lists_witness:
  "\<exists>s'. foldM (\<lambda>s c. circleq_step c s) sample_ring
       \<lparr>cqh_first = (\<lambda>h. Null), cqh_last = (\<lambda>h. Null), cqe_next = (\<lambda>e. Null), cqe_prev = (\<lambda>e. Head 1)\<rparr> = Some s' \<and>
     CIRCLEQ_FOREACH_REVERSE s' 0 = Some [2, 1, 4] \<and> CIRCLEQ_FOREACH s' 5 = Some [3]"
proof -
  let ?q = "\<lambda>h :: nat. if h = 5 then Some [3 :: nat] else if h = 0 then Some [4, 1, 2] else None"
  have q: "?q 0 = Some [4, 1, 2]" "?q 5 = Some [3]" by simp_all
  have e: "effects sample_ring = Some ?q"
    by (auto simp: sample_ring_def effects_def unqueued_def fun_eq_iff)
  have "\<forall>c \<in> set sample_ring. circleq_cmd c" by (simp add: sample_ring_def)
  from circleq_refines_lists [OF this e] obtain s' where "foldM (\<lambda>s c. circleq_step c s) sample_ring
       \<lparr>cqh_first = (\<lambda>h. Null), cqh_last = (\<lambda>h. Null), cqe_next = (\<lambda>e. Null), cqe_prev = (\<lambda>e. Head 1)\<rparr> = Some s'"
    "\<forall>h xs. ?q h = Some xs \<longrightarrow> CIRCLEQ_FOREACH s' h = Some xs \<and> CIRCLEQ_FOREACH_REVERSE s' h = Some (rev xs) \<and>
      CIRCLEQ_EMPTY s' h = (xs = [])"
    by blast
  moreover from this(2) q have "CIRCLEQ_FOREACH_REVERSE s' 0 = Some (rev [4, 1, 2])" "CIRCLEQ_FOREACH s' 5 = Some [3]" by blast+
  ultimately show ?thesis by simp
qed

end
