(* ===== verification/QueueMacros.thy ===== *)
theory QueueMacros
  imports Interfaces
begin

text \<open>
  The linked lists of \<open>src/bsd_hash/queue_plus.h\<close>: \<open>SLIST\<close>, \<open>STAILQ\<close>, \<open>LIST\<close> and \<open>TAILQ\<close>.  The addresses
  of queue heads are \<open>'h\<close>, those of elements \<open>'e\<close>.  A macro is a function on the memory that holds their
  fields; \<open>None\<close> is the use of a null pointer.  The lemmas relate the memory to the lists of elements.
\<close>

section \<open>Memory\<close>

text \<open>The address of a pointer to an element: the first one of a head, or the next one of an element.\<close>

datatype ('h, 'e) link = First 'h | Next 'e

text \<open>
  The fields of all heads and elements.  The macros of a family use \<open>slh_first\<close>, \<open>stqh_first\<close>, \<open>lh_first\<close> or
  \<open>tqh_first\<close> and so on; a family that has no \<open>last\<close> or no \<open>prev\<close> does not touch it.
\<close>

record ('h, 'e) qmem =
  qh_first :: "'h \<Rightarrow> 'e option"
  qh_last :: "'h \<Rightarrow> ('h, 'e) link"
  qe_next :: "'e \<Rightarrow> 'e option"
  qe_prev :: "'e \<Rightarrow> ('h, 'e) link"

definition set_first :: "'h \<Rightarrow> 'e option \<Rightarrow> ('h, 'e) qmem \<Rightarrow> ('h, 'e) qmem" where
  "set_first h p s = s\<lparr>qh_first := (qh_first s)(h := p)\<rparr>"

definition set_last :: "'h \<Rightarrow> ('h, 'e) link \<Rightarrow> ('h, 'e) qmem \<Rightarrow> ('h, 'e) qmem" where
  "set_last h l s = s\<lparr>qh_last := (qh_last s)(h := l)\<rparr>"

definition set_next :: "'e \<Rightarrow> 'e option \<Rightarrow> ('h, 'e) qmem \<Rightarrow> ('h, 'e) qmem" where
  "set_next e p s = s\<lparr>qe_next := (qe_next s)(e := p)\<rparr>"

definition set_prev :: "'e \<Rightarrow> ('h, 'e) link \<Rightarrow> ('h, 'e) qmem \<Rightarrow> ('h, 'e) qmem" where
  "set_prev e l s = s\<lparr>qe_prev := (qe_prev s)(e := l)\<rparr>"

text \<open>Through a pointer to a link, and through a pointer to an element that may be null.\<close>

fun load :: "('h, 'e) qmem \<Rightarrow> ('h, 'e) link \<Rightarrow> 'e option" where
  "load s (First h) = qh_first s h"
| "load s (Next e) = qe_next s e"

fun store :: "('h, 'e) link \<Rightarrow> 'e option \<Rightarrow> ('h, 'e) qmem \<Rightarrow> ('h, 'e) qmem" where
  "store (First h) p s = set_first h p s"
| "store (Next e) p s = set_next e p s"

definition next_of :: "('h, 'e) qmem \<Rightarrow> 'e option \<Rightarrow> 'e option option" where
  "next_of s p = map_option (qe_next s) p"

definition put_prev :: "'e option \<Rightarrow> ('h, 'e) link \<Rightarrow> ('h, 'e) qmem \<Rightarrow> ('h, 'e) qmem option" where
  "put_prev p l s = map_option (\<lambda>e. set_prev e l s) p"

lemma set_simps [simp]:
  "qh_first (set_first h p s) = (qh_first s)(h := p)" "qh_last (set_first h p s) = qh_last s"
  "qe_next (set_first h p s) = qe_next s" "qe_prev (set_first h p s) = qe_prev s"
  "qh_first (set_last h l s) = qh_first s" "qh_last (set_last h l s) = (qh_last s)(h := l)"
  "qe_next (set_last h l s) = qe_next s" "qe_prev (set_last h l s) = qe_prev s"
  "qh_first (set_next e p s) = qh_first s" "qh_last (set_next e p s) = qh_last s"
  "qe_next (set_next e p s) = (qe_next s)(e := p)" "qe_prev (set_next e p s) = qe_prev s"
  "qh_first (set_prev e l s) = qh_first s" "qh_last (set_prev e l s) = qh_last s"
  "qe_next (set_prev e l s) = qe_next s" "qe_prev (set_prev e l s) = (qe_prev s)(e := l)"
  by (simp_all add: set_first_def set_last_def set_next_def set_prev_def)

lemma load_simps [simp]:
  "load (set_first h p s) l = (if l = First h then p else load s l)" "load (set_last h l' s) l = load s l"
  "load (set_next e p s) l = (if l = Next e then p else load s l)" "load (set_prev e l' s) l = load s l"
  by (cases l; simp)+

lemma store_simps [simp]:
  "load (store l p s) l' = (if l' = l then p else load s l')"
  "qh_first (store l p s) h = (if l = First h then p else qh_first s h)" "qh_last (store l p s) = qh_last s"
  "qe_next (store l p s) e = (if l = Next e then p else qe_next s e)" "qe_prev (store l p s) = qe_prev s"
  by (cases l; simp)+


text \<open>The elements from one on, along the next pointers.\<close>

partial_function (option) visit :: "('h, 'e) qmem \<Rightarrow> 'e option \<Rightarrow> 'e list option" where
  "visit s var = (case var of None \<Rightarrow> Some [] | Some e \<Rightarrow> do { es \<leftarrow> visit s (qe_next s e); Some (e # es) })"

text \<open>The element whose next one is \<open>elm\<close>, from \<open>curelm\<close> on.\<close>

partial_function (option) find_before :: "('h, 'e) qmem \<Rightarrow> 'e option \<Rightarrow> 'e \<Rightarrow> 'e option" where
  "find_before s curelm elm = do {
     c \<leftarrow> curelm;
     if qe_next s c \<noteq> Some elm then find_before s (qe_next s c) elm else Some c }"

section \<open>Singly-linked lists\<close>

definition SLIST_EMPTY :: "('h, 'e) qmem \<Rightarrow> 'h \<Rightarrow> bool" where
  "SLIST_EMPTY s head = (qh_first s head = None)"

definition SLIST_FOREACH :: "('h, 'e) qmem \<Rightarrow> 'h \<Rightarrow> 'e list option" where
  "SLIST_FOREACH s head = visit s (qh_first s head)"

definition SLIST_INIT :: "'h \<Rightarrow> ('h, 'e) qmem \<Rightarrow> ('h, 'e) qmem option" where
  "SLIST_INIT head s = Some (set_first head None s)"

definition SLIST_INSERT_AFTER :: "'e \<Rightarrow> 'e \<Rightarrow> ('h, 'e) qmem \<Rightarrow> ('h, 'e) qmem option" where
  "SLIST_INSERT_AFTER slistelm elm s = do {
     let s = set_next elm (qe_next s slistelm) s;
     Some (set_next slistelm (Some elm) s) }"

definition SLIST_INSERT_HEAD :: "'h \<Rightarrow> 'e \<Rightarrow> ('h, 'e) qmem \<Rightarrow> ('h, 'e) qmem option" where
  "SLIST_INSERT_HEAD head elm s = do {
     let s = set_next elm (qh_first s head) s;
     Some (set_first head (Some elm) s) }"

definition SLIST_REMOVE_HEAD :: "'h \<Rightarrow> ('h, 'e) qmem \<Rightarrow> ('h, 'e) qmem option" where
  "SLIST_REMOVE_HEAD head s = do {
     n \<leftarrow> next_of s (qh_first s head);
     Some (set_first head n s) }"

definition SLIST_REMOVE :: "'h \<Rightarrow> 'e \<Rightarrow> ('h, 'e) qmem \<Rightarrow> ('h, 'e) qmem option" where
  "SLIST_REMOVE head elm s =
     (if qh_first s head = Some elm then SLIST_REMOVE_HEAD head s
      else do {
        c \<leftarrow> find_before s (qh_first s head) elm;
        n \<leftarrow> next_of s (qe_next s c);
        Some (set_next c n s) })"

section \<open>Singly-linked tail queues\<close>

definition STAILQ_EMPTY :: "('h, 'e) qmem \<Rightarrow> 'h \<Rightarrow> bool" where
  "STAILQ_EMPTY s head = (qh_first s head = None)"

definition STAILQ_FOREACH :: "('h, 'e) qmem \<Rightarrow> 'h \<Rightarrow> 'e list option" where
  "STAILQ_FOREACH s head = visit s (qh_first s head)"

definition STAILQ_INIT :: "'h \<Rightarrow> ('h, 'e) qmem \<Rightarrow> ('h, 'e) qmem option" where
  "STAILQ_INIT head s = do {
     let s = set_first head None s;
     Some (set_last head (First head) s) }"

definition STAILQ_INSERT_AFTER :: "'h \<Rightarrow> 'e \<Rightarrow> 'e \<Rightarrow> ('h, 'e) qmem \<Rightarrow> ('h, 'e) qmem option" where
  "STAILQ_INSERT_AFTER head tqelm elm s = do {
     let s = set_next elm (qe_next s tqelm) s;
     let s = (if qe_next s elm = None then set_last head (Next elm) s else s);
     Some (set_next tqelm (Some elm) s) }"

definition STAILQ_INSERT_HEAD :: "'h \<Rightarrow> 'e \<Rightarrow> ('h, 'e) qmem \<Rightarrow> ('h, 'e) qmem option" where
  "STAILQ_INSERT_HEAD head elm s = do {
     let s = set_next elm (qh_first s head) s;
     let s = (if qe_next s elm = None then set_last head (Next elm) s else s);
     Some (set_first head (Some elm) s) }"

definition STAILQ_INSERT_TAIL :: "'h \<Rightarrow> 'e \<Rightarrow> ('h, 'e) qmem \<Rightarrow> ('h, 'e) qmem option" where
  "STAILQ_INSERT_TAIL head elm s = do {
     let s = set_next elm None s;
     let s = store (qh_last s head) (Some elm) s;
     Some (set_last head (Next elm) s) }"

text \<open>\<open>None\<close> when the place of the last link is not in an element although the queue is not empty.\<close>

definition STAILQ_LAST :: "('h, 'e) qmem \<Rightarrow> 'h \<Rightarrow> 'e option option" where
  "STAILQ_LAST s head =
     (if STAILQ_EMPTY s head then Some None
      else case qh_last s head of Next e \<Rightarrow> Some (Some e) | First h \<Rightarrow> None)"

definition STAILQ_REMOVE_HEAD :: "'h \<Rightarrow> ('h, 'e) qmem \<Rightarrow> ('h, 'e) qmem option" where
  "STAILQ_REMOVE_HEAD head s = do {
     n \<leftarrow> next_of s (qh_first s head);
     let s = set_first head n s;
     Some (if qh_first s head = None then set_last head (First head) s else s) }"

definition STAILQ_REMOVE :: "'h \<Rightarrow> 'e \<Rightarrow> ('h, 'e) qmem \<Rightarrow> ('h, 'e) qmem option" where
  "STAILQ_REMOVE head elm s =
     (if qh_first s head = Some elm then STAILQ_REMOVE_HEAD head s
      else do {
        c \<leftarrow> find_before s (qh_first s head) elm;
        n \<leftarrow> next_of s (qe_next s c);
        let s = set_next c n s;
        Some (if qe_next s c = None then set_last head (Next c) s else s) })"

definition STAILQ_REMOVE_HEAD_UNTIL :: "'h \<Rightarrow> 'e \<Rightarrow> ('h, 'e) qmem \<Rightarrow> ('h, 'e) qmem option" where
  "STAILQ_REMOVE_HEAD_UNTIL head elm s = do {
     let s = set_first head (qe_next s elm) s;
     Some (if qh_first s head = None then set_last head (First head) s else s) }"

section \<open>Lists\<close>

definition LIST_EMPTY :: "('h, 'e) qmem \<Rightarrow> 'h \<Rightarrow> bool" where
  "LIST_EMPTY s head = (qh_first s head = None)"

definition LIST_FOREACH :: "('h, 'e) qmem \<Rightarrow> 'h \<Rightarrow> 'e list option" where
  "LIST_FOREACH s head = visit s (qh_first s head)"

definition LIST_INIT :: "'h \<Rightarrow> ('h, 'e) qmem \<Rightarrow> ('h, 'e) qmem option" where
  "LIST_INIT head s = Some (set_first head None s)"

definition LIST_INSERT_AFTER :: "'e \<Rightarrow> 'e \<Rightarrow> ('h, 'e) qmem \<Rightarrow> ('h, 'e) qmem option" where
  "LIST_INSERT_AFTER listelm elm s = do {
     let s = set_next elm (qe_next s listelm) s;
     s \<leftarrow> (if qe_next s elm \<noteq> None then put_prev (qe_next s listelm) (Next elm) s else Some s);
     let s = set_next listelm (Some elm) s;
     Some (set_prev elm (Next listelm) s) }"

definition LIST_INSERT_BEFORE :: "'e \<Rightarrow> 'e \<Rightarrow> ('h, 'e) qmem \<Rightarrow> ('h, 'e) qmem option" where
  "LIST_INSERT_BEFORE listelm elm s = do {
     let s = set_prev elm (qe_prev s listelm) s;
     let s = set_next elm (Some listelm) s;
     let s = store (qe_prev s listelm) (Some elm) s;
     Some (set_prev listelm (Next elm) s) }"

definition LIST_INSERT_HEAD :: "'h \<Rightarrow> 'e \<Rightarrow> ('h, 'e) qmem \<Rightarrow> ('h, 'e) qmem option" where
  "LIST_INSERT_HEAD head elm s = do {
     let s = set_next elm (qh_first s head) s;
     s \<leftarrow> (if qe_next s elm \<noteq> None then put_prev (qh_first s head) (Next elm) s else Some s);
     let s = set_first head (Some elm) s;
     Some (set_prev elm (First head) s) }"

definition LIST_REMOVE :: "'e \<Rightarrow> ('h, 'e) qmem \<Rightarrow> ('h, 'e) qmem option" where
  "LIST_REMOVE elm s = do {
     s \<leftarrow> (if qe_next s elm \<noteq> None then put_prev (qe_next s elm) (qe_prev s elm) s else Some s);
     Some (store (qe_prev s elm) (qe_next s elm) s) }"

section \<open>Tail queues\<close>

definition TAILQ_EMPTY :: "('h, 'e) qmem \<Rightarrow> 'h \<Rightarrow> bool" where
  "TAILQ_EMPTY s head = (qh_first s head = None)"

definition TAILQ_FOREACH :: "('h, 'e) qmem \<Rightarrow> 'h \<Rightarrow> 'e list option" where
  "TAILQ_FOREACH s head = visit s (qh_first s head)"

text \<open>
  The pointer pair of an element, at the place of its next link, is read as a queue head: \<open>tqh_last\<close> is then
  its \<open>tqe_prev\<close>.
\<close>

definition as_head_last :: "('h, 'e) qmem \<Rightarrow> ('h, 'e) link \<Rightarrow> ('h, 'e) link" where
  "as_head_last s l = (case l of First h \<Rightarrow> qh_last s h | Next e \<Rightarrow> qe_prev s e)"

definition TAILQ_LAST :: "('h, 'e) qmem \<Rightarrow> 'h \<Rightarrow> 'e option" where
  "TAILQ_LAST s head = load s (as_head_last s (qh_last s head))"

definition TAILQ_PREV :: "('h, 'e) qmem \<Rightarrow> 'e \<Rightarrow> 'e option" where
  "TAILQ_PREV s elm = load s (as_head_last s (qe_prev s elm))"

partial_function (option) visit_back :: "('h, 'e) qmem \<Rightarrow> 'e option \<Rightarrow> 'e list option" where
  "visit_back s var = (case var of None \<Rightarrow> Some [] | Some e \<Rightarrow> do { es \<leftarrow> visit_back s (TAILQ_PREV s e); Some (e # es) })"

definition TAILQ_FOREACH_REVERSE :: "('h, 'e) qmem \<Rightarrow> 'h \<Rightarrow> 'e list option" where
  "TAILQ_FOREACH_REVERSE s head = visit_back s (TAILQ_LAST s head)"

definition TAILQ_INIT :: "'h \<Rightarrow> ('h, 'e) qmem \<Rightarrow> ('h, 'e) qmem option" where
  "TAILQ_INIT head s = do {
     let s = set_first head None s;
     Some (set_last head (First head) s) }"

definition TAILQ_INSERT_AFTER :: "'h \<Rightarrow> 'e \<Rightarrow> 'e \<Rightarrow> ('h, 'e) qmem \<Rightarrow> ('h, 'e) qmem option" where
  "TAILQ_INSERT_AFTER head listelm elm s = do {
     let s = set_next elm (qe_next s listelm) s;
     s \<leftarrow> (if qe_next s elm \<noteq> None then put_prev (qe_next s elm) (Next elm) s else Some (set_last head (Next elm) s));
     let s = set_next listelm (Some elm) s;
     Some (set_prev elm (Next listelm) s) }"

definition TAILQ_INSERT_BEFORE :: "'e \<Rightarrow> 'e \<Rightarrow> ('h, 'e) qmem \<Rightarrow> ('h, 'e) qmem option" where
  "TAILQ_INSERT_BEFORE listelm elm s = do {
     let s = set_prev elm (qe_prev s listelm) s;
     let s = set_next elm (Some listelm) s;
     let s = store (qe_prev s listelm) (Some elm) s;
     Some (set_prev listelm (Next elm) s) }"

definition TAILQ_INSERT_HEAD :: "'h \<Rightarrow> 'e \<Rightarrow> ('h, 'e) qmem \<Rightarrow> ('h, 'e) qmem option" where
  "TAILQ_INSERT_HEAD head elm s = do {
     let s = set_next elm (qh_first s head) s;
     s \<leftarrow> (if qe_next s elm \<noteq> None then put_prev (qh_first s head) (Next elm) s else Some (set_last head (Next elm) s));
     let s = set_first head (Some elm) s;
     Some (set_prev elm (First head) s) }"

definition TAILQ_INSERT_TAIL :: "'h \<Rightarrow> 'e \<Rightarrow> ('h, 'e) qmem \<Rightarrow> ('h, 'e) qmem option" where
  "TAILQ_INSERT_TAIL head elm s = do {
     let s = set_next elm None s;
     let s = set_prev elm (qh_last s head) s;
     let s = store (qh_last s head) (Some elm) s;
     Some (set_last head (Next elm) s) }"

definition TAILQ_REMOVE :: "'h \<Rightarrow> 'e \<Rightarrow> ('h, 'e) qmem \<Rightarrow> ('h, 'e) qmem option" where
  "TAILQ_REMOVE head elm s = do {
     s \<leftarrow> (if qe_next s elm \<noteq> None then put_prev (qe_next s elm) (qe_prev s elm) s
           else Some (set_last head (qe_prev s elm) s));
     Some (store (qe_prev s elm) (qe_next s elm) s) }"

declare visit.simps [code] find_before.simps [code] visit_back.simps [code]


section \<open>Representation\<close>

text \<open>
  The links from a place on, with the back pointers when \<open>b\<close> holds, and the place behind the last element.
  A queue ends with a null pointer there, which \<open>qh_last\<close> points to when \<open>t\<close> holds.
\<close>

fun links :: "bool \<Rightarrow> ('h, 'e) qmem \<Rightarrow> ('h, 'e) link \<Rightarrow> 'e list \<Rightarrow> bool" where
  "links b s l [] \<longleftrightarrow> True"
| "links b s l (x # xs) \<longleftrightarrow> load s l = Some x \<and> (b \<longrightarrow> qe_prev s x = l) \<and> links b s (Next x) xs"

definition endl :: "('h, 'e) link \<Rightarrow> 'e list \<Rightarrow> ('h, 'e) link" where
  "endl l xs = (if xs = [] then l else Next (last xs))"

lemma endl_simps [simp]: "endl l [] = l" "endl l (x # xs) = endl (Next x) xs" "endl l (xs @ ys) = endl (endl l xs) ys"
  by (simp_all add: endl_def)

lemma links_append [simp]: "links b s l (xs @ ys) \<longleftrightarrow> links b s l xs \<and> links b s (endl l xs) ys"
  by (induction xs arbitrary: l) auto

definition queue :: "bool \<Rightarrow> bool \<Rightarrow> ('h, 'e) qmem \<Rightarrow> 'h \<Rightarrow> 'e list \<Rightarrow> bool" where
  "queue b t s h xs \<longleftrightarrow> links b s (First h) xs \<and> load s (endl (First h) xs) = None \<and>
     (t \<longrightarrow> qh_last s h = endl (First h) xs) \<and> distinct xs"

abbreviation holds :: "bool \<Rightarrow> bool \<Rightarrow> ('h, 'e) qmem \<Rightarrow> ('h \<Rightarrow> 'e list option) \<Rightarrow> bool" where
  "holds b t \<equiv> represents (queue b t)"

lemma endl_eq [simp]:
  "endl l xs = First h \<longleftrightarrow> xs = [] \<and> l = First h" "endl (First h) xs = Next e \<longleftrightarrow> xs \<noteq> [] \<and> e = last xs"
  "First h = endl l xs \<longleftrightarrow> xs = [] \<and> l = First h" "Next e = endl (First h) xs \<longleftrightarrow> xs \<noteq> [] \<and> e = last xs"
  by (auto simp: endl_def)

lemma load_endl: "load s (endl l xs) = (if xs = [] then load s l else qe_next s (last xs))"
  by (simp add: endl_def)

lemma links_frame:
  assumes "\<And>x. b \<Longrightarrow> x \<in> set xs \<Longrightarrow> qe_prev s' x = qe_prev s x" "xs \<noteq> [] \<Longrightarrow> load s' l = load s l"
    and "\<And>x. x \<in> set (butlast xs) \<Longrightarrow> qe_next s' x = qe_next s x"
  shows "links b s' l xs \<longleftrightarrow> links b s l xs"
  using assms
proof (induction xs arbitrary: l)
  case (Cons a xs)
  have "links b s' (Next a) xs = links b s (Next a) xs"
  proof (rule Cons.IH)
    show "qe_next s' x = qe_next s x" if "x \<in> set (butlast xs)" for x
      using that Cons.prems(3) [of x] by (cases xs) auto
  qed (use Cons.prems(1) Cons.prems(3) [of a] in auto)
  then show ?case using Cons.prems(1) [of a] Cons.prems(2) by auto
qed simp

text \<open>The fields of a queue that another command may not touch.\<close>

lemma queue_frame:
  assumes "queue b t s h xs" "qh_first s' h = qh_first s h" "t \<Longrightarrow> qh_last s' h = qh_last s h"
    and "\<And>x. x \<in> set xs \<Longrightarrow> qe_next s' x = qe_next s x" "\<And>x. b \<Longrightarrow> x \<in> set xs \<Longrightarrow> qe_prev s' x = qe_prev s x"
  shows "queue b t s' h xs"
proof -
  have "links b s' (First h) xs"
    using assms links_frame [of b xs s' s "First h"] by (auto simp: queue_def dest: in_set_butlastD)
  moreover have "load s' (endl (First h) xs) = None"
    using assms(1,2,4) by (auto simp: queue_def load_endl)
  ultimately show ?thesis using assms(1,3) by (auto simp: queue_def)
qed

text \<open>What the memory says around one element, or around a place between two.\<close>

lemma queue_split:
  assumes "queue b t s h (pre @ x # post)"
  shows "load s (endl (First h) pre) = Some x" "b \<Longrightarrow> qe_prev s x = endl (First h) pre"
    "qe_next s x = (case post of [] \<Rightarrow> None | y # _ \<Rightarrow> Some y)"
    "b \<Longrightarrow> post \<noteq> [] \<Longrightarrow> qe_prev s (hd post) = Next x"
    "t \<Longrightarrow> post = [] \<Longrightarrow> qh_last s h = Next x"
    "x \<notin> set pre" "x \<notin> set post" "set pre \<inter> set post = {}" "distinct pre" "distinct post"
  using assms by (cases post; simp add: queue_def; blast)+

lemma queue_head:
  assumes "queue b t s h xs"
  shows "qh_first s h = (case xs of [] \<Rightarrow> None | x # _ \<Rightarrow> Some x)"
    "t \<Longrightarrow> qh_last s h = endl (First h) xs" "load s (endl (First h) xs) = None" "distinct xs"
    "b \<Longrightarrow> xs \<noteq> [] \<Longrightarrow> qe_prev s (hd xs) = First h"
  using assms by (cases xs; simp add: queue_def)+

text \<open>
  The part \<open>old\<close> of a queue, between \<open>pre\<close> and \<open>post\<close>, is replaced by \<open>new\<close>: what a macro may change, and
  what it has to set.
\<close>

definition spliced ::
  "bool \<Rightarrow> bool \<Rightarrow> ('h, 'e) qmem \<Rightarrow> 'h \<Rightarrow> 'e list \<Rightarrow> 'e list \<Rightarrow> 'e list \<Rightarrow> 'e list \<Rightarrow> ('h, 'e) qmem \<Rightarrow> bool" where
  "spliced b t s h pre old new post s' \<longleftrightarrow>
     (\<forall>h'. h' \<noteq> h \<longrightarrow> qh_first s' h' = qh_first s h' \<and> (t \<longrightarrow> qh_last s' h' = qh_last s h')) \<and>
     (pre \<noteq> [] \<longrightarrow> qh_first s' h = qh_first s h) \<and>
     (\<forall>e. e \<notin> set old \<longrightarrow> e \<notin> set new \<longrightarrow> pre = [] \<or> e \<noteq> last pre \<longrightarrow> qe_next s' e = qe_next s e) \<and>
     (\<forall>e. b \<longrightarrow> e \<notin> set old \<longrightarrow> e \<notin> set new \<longrightarrow> post = [] \<or> e \<noteq> hd post \<longrightarrow> qe_prev s' e = qe_prev s e) \<and>
     links b s' (endl (First h) pre) new \<and>
     (let l = endl (endl (First h) pre) new
      in case post of
           [] \<Rightarrow> load s' l = None \<and> (t \<longrightarrow> qh_last s' h = l)
         | p # ps \<Rightarrow> load s' l = Some p \<and> (b \<longrightarrow> qe_prev s' p = l) \<and> (t \<longrightarrow> qh_last s' h = qh_last s h))"

lemma queue_splice:
  assumes h: "holds b t s q" "q h = Some (pre @ old @ post)" and sp: "spliced b t s h pre old new post s'"
    and new: "distinct new" "\<And>e. e \<in> set new \<Longrightarrow> unqueued q e"
  shows "holds b t s' (q(h \<mapsto> pre @ new @ post))"
proof -
  have q: "queue b t s h (pre @ old @ post)" using h by (simp add: represents_def)
  then have dist: "distinct (pre @ old @ post)" by (simp add: queue_def)
  have heads: "\<And>h'. h' \<noteq> h \<Longrightarrow> qh_first s' h' = qh_first s h' \<and> (t \<longrightarrow> qh_last s' h' = qh_last s h')"
      "pre \<noteq> [] \<Longrightarrow> qh_first s' h = qh_first s h"
    and next_: "\<And>e. e \<notin> set old \<Longrightarrow> e \<notin> set new \<Longrightarrow> pre = [] \<or> e \<noteq> last pre \<Longrightarrow> qe_next s' e = qe_next s e"
    and prev: "\<And>e. b \<Longrightarrow> e \<notin> set old \<Longrightarrow> e \<notin> set new \<Longrightarrow> post = [] \<or> e \<noteq> hd post \<Longrightarrow> qe_prev s' e = qe_prev s e"
    and links: "links b s' (endl (First h) pre) new"
    and post: "post = [] \<Longrightarrow> load s' (endl (First h) (pre @ new)) = None \<and> (t \<longrightarrow> qh_last s' h = endl (First h) (pre @ new))"
      "\<And>p ps. post = p # ps \<Longrightarrow> load s' (endl (First h) (pre @ new)) = Some p \<and>
        (b \<longrightarrow> qe_prev s' p = endl (First h) (pre @ new)) \<and> (t \<longrightarrow> qh_last s' h = qh_last s h)"
    using sp unfolding spliced_def Let_def by (blast, blast, blast, blast, blast, simp, simp)
  have fresh: "e \<notin> set pre" "e \<notin> set post" if "e \<in> set new" for e
    using unqueuedD [OF new(2) [OF that] h(2)] by simp_all
  have other: "queue b t s' h' xs" "set xs \<inter> set (pre @ new @ post) = {}" if "h' \<noteq> h" "q h' = Some xs" for h' xs
  proof -
    have xs: "queue b t s h' xs" "set xs \<inter> set (pre @ old @ post) = {}"
      using h that unfolding represents_def by blast+
    have nw: "set xs \<inter> set new = {}" using new(2) that(2) unfolding unqueued_def by blast
    then show "set xs \<inter> set (pre @ new @ post) = {}" using xs(2) by auto
    show "queue b t s' h' xs"
    proof (rule queue_frame [OF xs(1)])
      show "qh_first s' h' = qh_first s h'" using heads(1) that(1) by simp
      show "qh_last s' h' = qh_last s h'" if "t" using heads(1) \<open>h' \<noteq> h\<close> that by simp
      fix x assume x: "x \<in> set xs"
      have "x \<notin> set old" "x \<notin> set new" "pre = [] \<or> x \<noteq> last pre" "post = [] \<or> x \<noteq> hd post"
        using x xs(2) nw by (auto dest: last_in_set hd_in_set)
      then show "qe_next s' x = qe_next s x" "b \<Longrightarrow> qe_prev s' x = qe_prev s x" using next_ prev by blast+
    qed
  qed
  have pre: "links b s' (First h) pre"
  proof -
    have "qe_prev s' x = qe_prev s x" if "b" "x \<in> set pre" for x
      using that dist fresh(1) by (intro prev) (auto dest: hd_in_set)
    moreover have "qe_next s' x = qe_next s x" if "x \<in> set (butlast pre)" for x
    proof (rule next_)
      have "x \<in> set pre" using that by (rule in_set_butlastD)
      then show "x \<notin> set old" "x \<notin> set new" using dist fresh(1) by auto
      show "pre = [] \<or> x \<noteq> last pre"
        using that dist by (cases pre rule: rev_cases) auto
    qed
    ultimately show ?thesis using links_frame [of b pre s' s "First h"] heads(2) q by (auto simp: queue_def)
  qed
  have tail: "links b s' (endl (First h) (pre @ new)) post \<and> load s' (endl (First h) (pre @ new @ post)) = None \<and>
      (t \<longrightarrow> qh_last s' h = endl (First h) (pre @ new @ post))"
  proof (cases post)
    case Nil
    then show ?thesis using post(1) by simp
  next
    case (Cons p ps)
    have nx: "qe_next s' x = qe_next s x" if "x \<in> set post" for x
      using that dist fresh(2) by (intro next_) (auto dest: last_in_set)
    have "qe_prev s' x = qe_prev s x" if "b" "x \<in> set ps" for x
      using that dist fresh(2) Cons by (intro prev) auto
    then have "links b s' (Next p) ps \<longleftrightarrow> links b s (Next p) ps"
      using nx Cons by (intro links_frame) (auto dest: in_set_butlastD)
    moreover have "load s' (endl (Next p) ps) = load s (endl (Next p) ps)"
      using nx [of p] nx [of "last ps"] Cons by (cases "ps = []") (simp_all add: endl_def)
    ultimately show ?thesis using post(2) [OF Cons] q Cons by (auto simp: queue_def)
  qed
  have "queue b t s' h (pre @ new @ post)"
    using pre links new(1) tail dist fresh unfolding queue_def by auto
  moreover have "queue b t s' h' xs" if "(q(h \<mapsto> pre @ new @ post)) h' = Some xs" "h' \<noteq> h" for h' xs
    using other(1) that by simp
  moreover have "set xs \<inter> set xs' = {}"
    if "(q(h \<mapsto> pre @ new @ post)) h1 = Some xs" "(q(h \<mapsto> pre @ new @ post)) h2 = Some xs'" "h1 \<noteq> h2" for h1 h2 xs xs'
  proof (cases "h1 = h \<or> h2 = h")
    case True
    then show ?thesis using that other(2) by (metis fun_upd_apply inf_commute option.inject)
  next
    case False
    then show ?thesis using that h(1) unfolding represents_def by (metis fun_upd_apply)
  qed
  ultimately show ?thesis unfolding represents_def by (metis fun_upd_same option.inject)
qed

section \<open>Commands\<close>

lemmas qmacro_simps = spliced_def put_prev_def next_of_def load_endl Let_def

text \<open>The queue is made empty, whatever the head was before.\<close>

definition emptied :: "bool \<Rightarrow> ('h, 'e) qmem \<Rightarrow> 'h \<Rightarrow> ('h, 'e) qmem \<Rightarrow> bool" where
  "emptied t s h s' \<longleftrightarrow> qh_first s' = (qh_first s)(h := None) \<and> (t \<longrightarrow> qh_last s' = (qh_last s)(h := First h)) \<and>
     qe_next s' = qe_next s \<and> qe_prev s' = qe_prev s"

lemma queue_emptied:
  assumes "holds b t s q" "emptied t s h s'"
  shows "holds b t s' (q(h \<mapsto> []))"
proof -
  have "queue b t s' h []" using assms(2) by (simp add: queue_def emptied_def)
  moreover have "queue b t s' h' xs" if "h' \<noteq> h" "q h' = Some xs" for h' xs
    using represents_queue [OF assms(1) that(2)] that(1) assms(2) by (auto intro: queue_frame simp: emptied_def)
  ultimately show ?thesis using assms(1) unfolding represents_def by (auto split: if_splits)
qed

text \<open>The search for the element before another one, and the traversals.\<close>

lemma find_before_split:
  "links b s l (pre @ [c, e]) \<Longrightarrow> distinct (pre @ [c, e]) \<Longrightarrow> find_before s (load s l) e = Some c"
proof (induction pre arbitrary: l)
  case (Cons p pre)
  have "find_before s (load s (Next p)) e = Some c" using Cons.prems by (intro Cons.IH) simp_all
  moreover have "qe_next s p \<noteq> Some e" using Cons.prems by (cases pre) auto
  ultimately show ?case using Cons.prems by (subst find_before.simps) simp
qed (subst find_before.simps, simp)

lemma visit_links: "links b s l xs \<Longrightarrow> load s (endl l xs) = None \<Longrightarrow> visit s (load s l) = Some xs"
proof (induction xs arbitrary: l)
  case (Cons x xs)
  then show ?case using Cons.IH [of "Next x"] by (subst visit.simps) simp
qed (subst visit.simps, simp)

lemma visit_queue: "queue b t s h xs \<Longrightarrow> visit s (qh_first s h) = Some xs"
  using visit_links [of b s "First h" xs] by (simp add: queue_def)

lemma queue_before:
  assumes "queue b t s h (pre @ c # x # post)"
  shows "find_before s (qh_first s h) x = Some c" "qe_next s c = Some x" "qh_first s h \<noteq> Some x"
proof -
  have d: "links b s (First h) (pre @ [c, x])" "distinct (pre @ [c, x])" using assms by (auto simp: queue_def)
  show "find_before s (qh_first s h) x = Some c" using find_before_split [OF d] by simp
  show "qe_next s c = Some x" using assms by (simp add: queue_def)
  show "qh_first s h \<noteq> Some x" using d by (cases pre) auto
qed

section \<open>What each macro changes\<close>

text \<open>The queue operations of each family, as they change the memory around the place of the operation.\<close>

lemma SLIST_splice:
  "queue False False s h xs \<Longrightarrow> e \<notin> set xs \<Longrightarrow>
   \<exists>s'. SLIST_INSERT_HEAD h e s = Some s' \<and> spliced False False s h [] [] [e] xs s'"
  "queue False False s h (pre @ x # post) \<Longrightarrow> e \<notin> set (pre @ x # post) \<Longrightarrow>
   \<exists>s'. SLIST_INSERT_AFTER x e s = Some s' \<and> spliced False False s h (pre @ [x]) [] [e] post s'"
  "queue False False s h ([] @ x # post) \<Longrightarrow>
   \<exists>s'. SLIST_REMOVE_HEAD h s = Some s' \<and> spliced False False s h [] [x] [] post s'"
  "queue False False s h (pre @ x # post) \<Longrightarrow>
   \<exists>s'. SLIST_REMOVE h x s = Some s' \<and> spliced False False s h pre [x] [] post s'"
proof -
  show "\<exists>s'. SLIST_INSERT_HEAD h e s = Some s' \<and> spliced False False s h [] [] [e] xs s'"
    if "queue False False s h xs" "e \<notin> set xs"
    using queue_head [OF that(1)] that(2) by (cases xs) (auto simp: SLIST_INSERT_HEAD_def qmacro_simps)
  show "\<exists>s'. SLIST_INSERT_AFTER x e s = Some s' \<and> spliced False False s h (pre @ [x]) [] [e] post s'"
    if "queue False False s h (pre @ x # post)" "e \<notin> set (pre @ x # post)"
    using queue_split [OF that(1)] that(2) by (cases post) (auto simp: SLIST_INSERT_AFTER_def qmacro_simps)
  have hd: "\<exists>s'. SLIST_REMOVE_HEAD h s = Some s' \<and> spliced False False s h [] [x] [] post s'"
    if "queue False False s h ([] @ x # post)" for post
    using queue_split [OF that] by (cases post) (auto simp: SLIST_REMOVE_HEAD_def qmacro_simps)
  then show "queue False False s h ([] @ x # post) \<Longrightarrow>
    \<exists>s'. SLIST_REMOVE_HEAD h s = Some s' \<and> spliced False False s h [] [x] [] post s'" .
  show "\<exists>s'. SLIST_REMOVE h x s = Some s' \<and> spliced False False s h pre [x] [] post s'"
    if q: "queue False False s h (pre @ x # post)"
  proof (cases pre rule: rev_cases)
    case Nil
    then show ?thesis using hd [of post] q queue_head(1) [OF q] by (simp add: SLIST_REMOVE_def)
  next
    case (snoc pre' c)
    then show ?thesis using queue_before [of False False s h pre' c x post] queue_split [OF q] q
      by (cases post) (auto simp: SLIST_REMOVE_def qmacro_simps)
  qed
qed

lemma STAILQ_splice:
  "queue False True s h xs \<Longrightarrow> e \<notin> set xs \<Longrightarrow>
   \<exists>s'. STAILQ_INSERT_HEAD h e s = Some s' \<and> spliced False True s h [] [] [e] xs s'"
  "queue False True s h xs \<Longrightarrow> e \<notin> set xs \<Longrightarrow>
   \<exists>s'. STAILQ_INSERT_TAIL h e s = Some s' \<and> spliced False True s h xs [] [e] [] s'"
  "queue False True s h (pre @ x # post) \<Longrightarrow> e \<notin> set (pre @ x # post) \<Longrightarrow>
   \<exists>s'. STAILQ_INSERT_AFTER h x e s = Some s' \<and> spliced False True s h (pre @ [x]) [] [e] post s'"
  "queue False True s h ([] @ x # post) \<Longrightarrow>
   \<exists>s'. STAILQ_REMOVE_HEAD h s = Some s' \<and> spliced False True s h [] [x] [] post s'"
  "queue False True s h (pre @ x # post) \<Longrightarrow>
   \<exists>s'. STAILQ_REMOVE h x s = Some s' \<and> spliced False True s h pre [x] [] post s'"
  "queue False True s h (pre @ x # post) \<Longrightarrow>
   \<exists>s'. STAILQ_REMOVE_HEAD_UNTIL h x s = Some s' \<and> spliced False True s h [] (pre @ [x]) [] post s'"
proof -
  show "\<exists>s'. STAILQ_INSERT_HEAD h e s = Some s' \<and> spliced False True s h [] [] [e] xs s'"
    if "queue False True s h xs" "e \<notin> set xs"
    using queue_head [OF that(1)] that(2) by (cases xs) (auto simp: STAILQ_INSERT_HEAD_def qmacro_simps)
  show "\<exists>s'. STAILQ_INSERT_TAIL h e s = Some s' \<and> spliced False True s h xs [] [e] [] s'"
    if "queue False True s h xs" "e \<notin> set xs"
    using queue_head [OF that(1)] that(2) by (auto simp: STAILQ_INSERT_TAIL_def qmacro_simps)
  show "\<exists>s'. STAILQ_INSERT_AFTER h x e s = Some s' \<and> spliced False True s h (pre @ [x]) [] [e] post s'"
    if "queue False True s h (pre @ x # post)" "e \<notin> set (pre @ x # post)"
    using queue_split [OF that(1)] that(2) by (cases post) (auto simp: STAILQ_INSERT_AFTER_def qmacro_simps)
  have hd: "\<exists>s'. STAILQ_REMOVE_HEAD h s = Some s' \<and> spliced False True s h [] [x] [] post s'"
    if "queue False True s h ([] @ x # post)" for post
    using queue_split [OF that] by (cases post) (auto simp: STAILQ_REMOVE_HEAD_def qmacro_simps)
  then show "queue False True s h ([] @ x # post) \<Longrightarrow>
    \<exists>s'. STAILQ_REMOVE_HEAD h s = Some s' \<and> spliced False True s h [] [x] [] post s'" .
  show "\<exists>s'. STAILQ_REMOVE h x s = Some s' \<and> spliced False True s h pre [x] [] post s'"
    if q: "queue False True s h (pre @ x # post)"
  proof (cases pre rule: rev_cases)
    case Nil
    then show ?thesis using hd [of post] q queue_head(1) [OF q] by (simp add: STAILQ_REMOVE_def)
  next
    case (snoc pre' c)
    then show ?thesis using queue_before [of False True s h pre' c x post] queue_split [OF q] q
      by (cases post) (auto simp: STAILQ_REMOVE_def qmacro_simps)
  qed
  show "\<exists>s'. STAILQ_REMOVE_HEAD_UNTIL h x s = Some s' \<and> spliced False True s h [] (pre @ [x]) [] post s'"
    if "queue False True s h (pre @ x # post)"
    using queue_split [OF that] by (cases post) (auto simp: STAILQ_REMOVE_HEAD_UNTIL_def qmacro_simps)
qed

lemma LIST_splice:
  "queue True False s h xs \<Longrightarrow> e \<notin> set xs \<Longrightarrow>
   \<exists>s'. LIST_INSERT_HEAD h e s = Some s' \<and> spliced True False s h [] [] [e] xs s'"
  "queue True False s h (pre @ x # post) \<Longrightarrow> e \<notin> set (pre @ x # post) \<Longrightarrow>
   \<exists>s'. LIST_INSERT_AFTER x e s = Some s' \<and> spliced True False s h (pre @ [x]) [] [e] post s'"
  "queue True False s h (pre @ x # post) \<Longrightarrow> e \<notin> set (pre @ x # post) \<Longrightarrow>
   \<exists>s'. LIST_INSERT_BEFORE x e s = Some s' \<and> spliced True False s h pre [] [e] (x # post) s'"
  "queue True False s h (pre @ x # post) \<Longrightarrow>
   \<exists>s'. LIST_REMOVE x s = Some s' \<and> spliced True False s h pre [x] [] post s'"
proof -
  show "\<exists>s'. LIST_INSERT_HEAD h e s = Some s' \<and> spliced True False s h [] [] [e] xs s'"
    if "queue True False s h xs" "e \<notin> set xs"
    using queue_head [OF that(1)] that(2) by (cases xs) (auto simp: LIST_INSERT_HEAD_def qmacro_simps)
  show "\<exists>s'. LIST_INSERT_AFTER x e s = Some s' \<and> spliced True False s h (pre @ [x]) [] [e] post s'"
    if "queue True False s h (pre @ x # post)" "e \<notin> set (pre @ x # post)"
    using queue_split [OF that(1)] that(2) by (cases post) (auto simp: LIST_INSERT_AFTER_def qmacro_simps)
  show "\<exists>s'. LIST_INSERT_BEFORE x e s = Some s' \<and> spliced True False s h pre [] [e] (x # post) s'"
    if "queue True False s h (pre @ x # post)" "e \<notin> set (pre @ x # post)"
    using queue_split [OF that(1)] that(2) by (auto simp: LIST_INSERT_BEFORE_def qmacro_simps)
  show "\<exists>s'. LIST_REMOVE x s = Some s' \<and> spliced True False s h pre [x] [] post s'"
    if "queue True False s h (pre @ x # post)"
    using queue_split [OF that(1)] by (cases post) (auto simp: LIST_REMOVE_def qmacro_simps)
qed

lemma TAILQ_splice:
  "queue True True s h xs \<Longrightarrow> e \<notin> set xs \<Longrightarrow>
   \<exists>s'. TAILQ_INSERT_HEAD h e s = Some s' \<and> spliced True True s h [] [] [e] xs s'"
  "queue True True s h xs \<Longrightarrow> e \<notin> set xs \<Longrightarrow>
   \<exists>s'. TAILQ_INSERT_TAIL h e s = Some s' \<and> spliced True True s h xs [] [e] [] s'"
  "queue True True s h (pre @ x # post) \<Longrightarrow> e \<notin> set (pre @ x # post) \<Longrightarrow>
   \<exists>s'. TAILQ_INSERT_AFTER h x e s = Some s' \<and> spliced True True s h (pre @ [x]) [] [e] post s'"
  "queue True True s h (pre @ x # post) \<Longrightarrow> e \<notin> set (pre @ x # post) \<Longrightarrow>
   \<exists>s'. TAILQ_INSERT_BEFORE x e s = Some s' \<and> spliced True True s h pre [] [e] (x # post) s'"
  "queue True True s h (pre @ x # post) \<Longrightarrow>
   \<exists>s'. TAILQ_REMOVE h x s = Some s' \<and> spliced True True s h pre [x] [] post s'"
proof -
  show "\<exists>s'. TAILQ_INSERT_HEAD h e s = Some s' \<and> spliced True True s h [] [] [e] xs s'"
    if "queue True True s h xs" "e \<notin> set xs"
    using queue_head [OF that(1)] that(2) by (cases xs) (auto simp: TAILQ_INSERT_HEAD_def qmacro_simps)
  show "\<exists>s'. TAILQ_INSERT_TAIL h e s = Some s' \<and> spliced True True s h xs [] [e] [] s'"
    if "queue True True s h xs" "e \<notin> set xs"
    using queue_head [OF that(1)] that(2) by (auto simp: TAILQ_INSERT_TAIL_def qmacro_simps)
  show "\<exists>s'. TAILQ_INSERT_AFTER h x e s = Some s' \<and> spliced True True s h (pre @ [x]) [] [e] post s'"
    if "queue True True s h (pre @ x # post)" "e \<notin> set (pre @ x # post)"
    using queue_split [OF that(1)] that(2) by (cases post) (auto simp: TAILQ_INSERT_AFTER_def qmacro_simps)
  show "\<exists>s'. TAILQ_INSERT_BEFORE x e s = Some s' \<and> spliced True True s h pre [] [e] (x # post) s'"
    if "queue True True s h (pre @ x # post)" "e \<notin> set (pre @ x # post)"
    using queue_split [OF that(1)] that(2) by (auto simp: TAILQ_INSERT_BEFORE_def qmacro_simps)
  show "\<exists>s'. TAILQ_REMOVE h x s = Some s' \<and> spliced True True s h pre [x] [] post s'"
    if "queue True True s h (pre @ x # post)"
    using queue_split [OF that(1)] by (cases post) (auto simp: TAILQ_REMOVE_def qmacro_simps)
qed

text \<open>Backwards: the last element, the one before another, and the traversal.\<close>

lemma TAILQ_LAST_queue: "queue True True s h xs \<Longrightarrow> TAILQ_LAST s h = (if xs = [] then None else Some (last xs))"
  by (cases xs rule: rev_cases) (auto simp: TAILQ_LAST_def as_head_last_def queue_def)

lemma TAILQ_PREV_queue:
  assumes "queue True True s h (pre @ x # post)"
  shows "TAILQ_PREV s x = (if pre = [] then None else Some (last pre))"
proof (cases pre rule: rev_cases)
  case Nil
  have "qh_last s h = Next (last (x # post))" using queue_head(2) [OF assms] Nil by (simp add: endl_def)
  moreover have "load s (First h) = Some x" "qe_prev s x = First h" using queue_split(1,2) [OF assms] Nil by simp_all
  ultimately show ?thesis using Nil queue_head(3) [OF assms] by (simp add: TAILQ_PREV_def as_head_last_def endl_def)
next
  case (snoc pre' c)
  then show ?thesis using assms by (simp add: TAILQ_PREV_def as_head_last_def queue_def)
qed

lemma visit_back_queue:
  "queue True True s h (pre @ post) \<Longrightarrow> visit_back s (if pre = [] then None else Some (last pre)) = Some (rev pre)"
proof (induction pre arbitrary: post rule: rev_induct)
  case (snoc x pre)
  then have "TAILQ_PREV s x = (if pre = [] then None else Some (last pre))" using TAILQ_PREV_queue by fastforce
  then show ?case using snoc by (subst visit_back.simps) simp
qed (subst visit_back.simps, simp)

section \<open>Every family implements its queues\<close>

fun slist_cmd :: "('h, 'e) qcmd \<Rightarrow> bool" where
  "slist_cmd (Insert_tail h e) = False"
| "slist_cmd (Insert_before h x e) = False"
| "slist_cmd (Remove_head_until h e) = False"
| "slist_cmd c = True"

fun slist_step :: "('h, 'e) qcmd \<Rightarrow> ('h, 'e) qmem \<Rightarrow> ('h, 'e) qmem option" where
  "slist_step (Init h) s = SLIST_INIT h s"
| "slist_step (Insert_head h e) s = SLIST_INSERT_HEAD h e s"
| "slist_step (Insert_after h x e) s = SLIST_INSERT_AFTER x e s"
| "slist_step (Remove_head h) s = SLIST_REMOVE_HEAD h s"
| "slist_step (Remove h e) s = SLIST_REMOVE h e s"
| "slist_step c s = None"

fun stailq_cmd :: "('h, 'e) qcmd \<Rightarrow> bool" where
  "stailq_cmd (Insert_before h x e) = False"
| "stailq_cmd c = True"

fun stailq_step :: "('h, 'e) qcmd \<Rightarrow> ('h, 'e) qmem \<Rightarrow> ('h, 'e) qmem option" where
  "stailq_step (Init h) s = STAILQ_INIT h s"
| "stailq_step (Insert_head h e) s = STAILQ_INSERT_HEAD h e s"
| "stailq_step (Insert_tail h e) s = STAILQ_INSERT_TAIL h e s"
| "stailq_step (Insert_after h x e) s = STAILQ_INSERT_AFTER h x e s"
| "stailq_step (Remove_head h) s = STAILQ_REMOVE_HEAD h s"
| "stailq_step (Remove_head_until h e) s = STAILQ_REMOVE_HEAD_UNTIL h e s"
| "stailq_step (Remove h e) s = STAILQ_REMOVE h e s"
| "stailq_step c s = None"

fun list_cmd :: "('h, 'e) qcmd \<Rightarrow> bool" where
  "list_cmd (Insert_tail h e) = False"
| "list_cmd (Remove_head h) = False"
| "list_cmd (Remove_head_until h e) = False"
| "list_cmd c = True"

fun list_step :: "('h, 'e) qcmd \<Rightarrow> ('h, 'e) qmem \<Rightarrow> ('h, 'e) qmem option" where
  "list_step (Init h) s = LIST_INIT h s"
| "list_step (Insert_head h e) s = LIST_INSERT_HEAD h e s"
| "list_step (Insert_after h x e) s = LIST_INSERT_AFTER x e s"
| "list_step (Insert_before h x e) s = LIST_INSERT_BEFORE x e s"
| "list_step (Remove h e) s = LIST_REMOVE e s"
| "list_step c s = None"

fun tailq_cmd :: "('h, 'e) qcmd \<Rightarrow> bool" where
  "tailq_cmd (Remove_head h) = False"
| "tailq_cmd (Remove_head_until h e) = False"
| "tailq_cmd c = True"

fun tailq_step :: "('h, 'e) qcmd \<Rightarrow> ('h, 'e) qmem \<Rightarrow> ('h, 'e) qmem option" where
  "tailq_step (Init h) s = TAILQ_INIT h s"
| "tailq_step (Insert_head h e) s = TAILQ_INSERT_HEAD h e s"
| "tailq_step (Insert_tail h e) s = TAILQ_INSERT_TAIL h e s"
| "tailq_step (Insert_after h x e) s = TAILQ_INSERT_AFTER h x e s"
| "tailq_step (Insert_before h x e) s = TAILQ_INSERT_BEFORE x e s"
| "tailq_step (Remove h e) s = TAILQ_REMOVE h e s"
| "tailq_step c s = None"

lemma slist_does: "slist_cmd c \<Longrightarrow> does (queue False False) (spliced False False) (emptied False) s c (slist_step c s)"
  using SLIST_splice [where s = s] by (cases c) (simp_all add: SLIST_INIT_def emptied_def)

lemma stailq_does: "stailq_cmd c \<Longrightarrow> does (queue False True) (spliced False True) (emptied True) s c (stailq_step c s)"
  using STAILQ_splice [where s = s] by (cases c) (simp_all add: STAILQ_INIT_def Let_def emptied_def)

lemma list_does: "list_cmd c \<Longrightarrow> does (queue True False) (spliced True False) (emptied False) s c (list_step c s)"
  using LIST_splice [where s = s] by (cases c) (simp_all add: LIST_INIT_def emptied_def)

lemma tailq_does: "tailq_cmd c \<Longrightarrow> does (queue True True) (spliced True True) (emptied True) s c (tailq_step c s)"
  using TAILQ_splice [where s = s] by (cases c) (simp_all add: TAILQ_INIT_def Let_def emptied_def)

interpretation slist: queue_macros "queue False False" "spliced False False" "emptied False" slist_cmd slist_step SLIST_FOREACH
  by unfold_locales (auto simp: SLIST_FOREACH_def visit_queue intro: queue_splice queue_emptied slist_does)

interpretation stailq: queue_macros "queue False True" "spliced False True" "emptied True" stailq_cmd stailq_step STAILQ_FOREACH
  by unfold_locales (auto simp: STAILQ_FOREACH_def visit_queue intro: queue_splice queue_emptied stailq_does)

interpretation lst: queue_macros "queue True False" "spliced True False" "emptied False" list_cmd list_step LIST_FOREACH
  by unfold_locales (auto simp: LIST_FOREACH_def visit_queue intro: queue_splice queue_emptied list_does)

interpretation tailq: queue_macros "queue True True" "spliced True True" "emptied True" tailq_cmd tailq_step TAILQ_FOREACH
  by unfold_locales (auto simp: TAILQ_FOREACH_def visit_queue intro: queue_splice queue_emptied tailq_does)

section \<open>Properties\<close>

text \<open>
  C4: Whatever commands are given to tail queues in one memory, each on an initialised queue, inserting
  elements that are in no queue and naming members: no macro uses a null pointer, and afterwards every queue
  visits the elements of its list in order and in reverse, and knows its last one and whether it is empty.
\<close>

theorem tailq_refines_lists:
  assumes "\<forall>c \<in> set cs. tailq_cmd c" "effects cs = Some q"
  shows "\<exists>s'. foldM (\<lambda>s c. tailq_step c s) cs s = Some s' \<and>
    (\<forall>h xs. q h = Some xs \<longrightarrow> TAILQ_FOREACH s' h = Some xs \<and> TAILQ_FOREACH_REVERSE s' h = Some (rev xs) \<and>
      TAILQ_EMPTY s' h = (xs = []) \<and> TAILQ_LAST s' h = (if xs = [] then None else Some (last xs)))"
proof -
  obtain s' where s': "foldM (\<lambda>s c. tailq_step c s) cs s = Some s'" "holds True True s' q"
    "\<forall>h xs. q h = Some xs \<longrightarrow> TAILQ_FOREACH s' h = Some xs" using tailq.run_start [OF assms, of s] by blast
  have "TAILQ_FOREACH_REVERSE s' h = Some (rev xs)" "TAILQ_EMPTY s' h = (xs = [])"
    "TAILQ_LAST s' h = (if xs = [] then None else Some (last xs))" if "q h = Some xs" for h xs
    using represents_queue [OF s'(2) that] visit_back_queue [of s' h xs "[]"] TAILQ_LAST_queue [of s' h xs] queue_head(1) [of True True s' h xs]
    by (auto simp: TAILQ_FOREACH_REVERSE_def TAILQ_EMPTY_def split: list.split)
  then show ?thesis using s'(1,3) by blast
qed

text \<open>Commands on two queues, one of which an element leaves for the other.\<close>

definition sample_cmds :: "(nat, nat) qcmd list" where
  "sample_cmds = [Init 0, Insert_head 0 1, Insert_after 0 1 2, Insert_after 0 2 3, Init 5, Remove 0 2, Insert_head 5 2, Remove 0 3]"

definition garbage :: "(nat, nat) qmem" where
  "garbage = \<lparr>qh_first = (\<lambda>h. Some 7), qh_last = (\<lambda>h. Next 8), qe_next = (\<lambda>e. Some 9), qe_prev = (\<lambda>e. First 3)\<rparr>"

lemma sample_effects: "effects sample_cmds = Some (\<lambda>h. if h = 5 then Some [2] else if h = 0 then Some [1] else None)"
  by (auto simp: sample_cmds_def effects_def unqueued_def fun_eq_iff)

lemma tailq_refines_lists_witness:
  "\<exists>s'. foldM (\<lambda>s c. tailq_step c s) (sample_cmds @ [Insert_tail 0 3, Insert_before 0 3 4]) garbage = Some s' \<and>
     TAILQ_FOREACH_REVERSE s' 0 = Some [3, 4, 1] \<and> TAILQ_LAST s' 5 = Some 2"
proof -
  have "effects (sample_cmds @ [Insert_tail 0 3, Insert_before 0 3 4]) =
      Some (\<lambda>h. if h = 0 then Some [1, 4, 3] else if h = 5 then Some [2] else None)"
    using sample_effects by (auto simp: effects_def foldM_append unqueued_def fun_eq_iff)
  from tailq_refines_lists [OF _ this, of garbage] show ?thesis by (fastforce simp: sample_cmds_def)
qed

text \<open>
  C17: The singly-linked lists, the singly-linked tail queues and the doubly-linked lists implement their
  commands in the same way, on any number of queues in one memory; a tail queue also knows its last element.
\<close>

theorem linked_lists_refine:
  assumes "effects (cs :: ('h, 'e) qcmd list) = Some q"
  shows "((\<forall>c \<in> set cs. slist_cmd c) \<longrightarrow> (\<exists>s'. foldM (\<lambda>s c. slist_step c s) cs s = Some s' \<and>
      (\<forall>h xs. q h = Some xs \<longrightarrow> SLIST_FOREACH s' h = Some xs \<and> SLIST_EMPTY s' h = (xs = [])))) \<and>
    ((\<forall>c \<in> set cs. stailq_cmd c) \<longrightarrow> (\<exists>s'. foldM (\<lambda>s c. stailq_step c s) cs s = Some s' \<and>
      (\<forall>h xs. q h = Some xs \<longrightarrow> STAILQ_FOREACH s' h = Some xs \<and> STAILQ_EMPTY s' h = (xs = []) \<and>
        STAILQ_LAST s' h = Some (if xs = [] then None else Some (last xs))))) \<and>
    ((\<forall>c \<in> set cs. list_cmd c) \<longrightarrow> (\<exists>s'. foldM (\<lambda>s c. list_step c s) cs s = Some s' \<and>
      (\<forall>h xs. q h = Some xs \<longrightarrow> LIST_FOREACH s' h = Some xs \<and> LIST_EMPTY s' h = (xs = []))))"
proof (intro conjI impI)
  have first: "qh_first s' h = None \<longleftrightarrow> xs = []" if "holds b t s' q" "q h = Some xs" for b t h xs and s' :: "('h, 'e) qmem"
    using queue_head(1) [OF represents_queue [OF that]] by (cases xs) simp_all
  show "\<exists>s'. foldM (\<lambda>s c. slist_step c s) cs s = Some s' \<and>
      (\<forall>h xs. q h = Some xs \<longrightarrow> SLIST_FOREACH s' h = Some xs \<and> SLIST_EMPTY s' h = (xs = []))"
    if "\<forall>c \<in> set cs. slist_cmd c"
    using slist.run_start [OF that assms, of s] first unfolding SLIST_EMPTY_def by blast
  show "\<exists>s'. foldM (\<lambda>s c. list_step c s) cs s = Some s' \<and>
      (\<forall>h xs. q h = Some xs \<longrightarrow> LIST_FOREACH s' h = Some xs \<and> LIST_EMPTY s' h = (xs = []))"
    if "\<forall>c \<in> set cs. list_cmd c"
    using lst.run_start [OF that assms, of s] first unfolding LIST_EMPTY_def by blast
  have last: "STAILQ_LAST s' h = Some (if xs = [] then None else Some (last xs))"
    if "holds False True s' q" "q h = Some xs" for s' :: "('h, 'e) qmem" and h xs
    using first [OF that] queue_head(2) [OF represents_queue [OF that]] by (simp add: STAILQ_LAST_def STAILQ_EMPTY_def endl_def)
  show "\<exists>s'. foldM (\<lambda>s c. stailq_step c s) cs s = Some s' \<and>
      (\<forall>h xs. q h = Some xs \<longrightarrow> STAILQ_FOREACH s' h = Some xs \<and> STAILQ_EMPTY s' h = (xs = []) \<and>
        STAILQ_LAST s' h = Some (if xs = [] then None else Some (last xs)))"
    if "\<forall>c \<in> set cs. stailq_cmd c"
    using stailq.run_start [OF that assms, of s] first last unfolding STAILQ_EMPTY_def by blast
qed

lemma linked_lists_refine_witness:
  "(\<exists>s'. foldM (\<lambda>s c. slist_step c s) sample_cmds garbage = Some s' \<and> SLIST_FOREACH s' 0 = Some [1] \<and> SLIST_FOREACH s' 5 = Some [2]) \<and>
   (\<exists>s'. foldM (\<lambda>s c. stailq_step c s) sample_cmds garbage = Some s' \<and> STAILQ_LAST s' 5 = Some (Some 2)) \<and>
   (\<exists>s'. foldM (\<lambda>s c. list_step c s) sample_cmds garbage = Some s' \<and> LIST_FOREACH s' 0 = Some [1])"
proof -
  let ?q = "\<lambda>h :: nat. if h = 5 then Some [2 :: nat] else if h = 0 then Some [1] else None"
  have q: "?q 0 = Some [1]" "?q 5 = Some [2]" by simp_all
  have c: "\<forall>c \<in> set sample_cmds. slist_cmd c" "\<forall>c \<in> set sample_cmds. stailq_cmd c" "\<forall>c \<in> set sample_cmds. list_cmd c"
    by (simp_all add: sample_cmds_def)
  note r = linked_lists_refine [OF sample_effects, of garbage]
  show ?thesis
  proof (intro conjI)
    show "\<exists>s'. foldM (\<lambda>s c. slist_step c s) sample_cmds garbage = Some s' \<and> SLIST_FOREACH s' 0 = Some [1] \<and> SLIST_FOREACH s' 5 = Some [2]"
      using mp [OF conjunct1 [OF r] c(1)] q by blast
    obtain s' where "foldM (\<lambda>s c. stailq_step c s) sample_cmds garbage = Some s'"
      "\<forall>h xs. ?q h = Some xs \<longrightarrow> STAILQ_LAST s' h = Some (if xs = [] then None else Some (last xs))"
      using mp [OF conjunct1 [OF conjunct2 [OF r]] c(2)] by blast
    moreover from this(2) q(2) have "STAILQ_LAST s' 5 = Some (if [2 :: nat] = [] then None else Some (last [2]))" by blast
    ultimately show "\<exists>s'. foldM (\<lambda>s c. stailq_step c s) sample_cmds garbage = Some s' \<and> STAILQ_LAST s' 5 = Some (Some 2)" by simp
    show "\<exists>s'. foldM (\<lambda>s c. list_step c s) sample_cmds garbage = Some s' \<and> LIST_FOREACH s' 0 = Some [1]"
      using mp [OF conjunct2 [OF conjunct2 [OF r]] c(3)] q by blast
  qed
qed

end
