(* ===== verification/Doubles.thy ===== *)
theory Doubles
  imports Prelude
begin

text \<open>
  Quotients of natural numbers as doubles: a double is \<open>m / 2 ^ e\<close> where \<open>m\<close> has at most 53 bits, and operations round
  to the nearest, ties to even.
\<close>

function scale :: "nat \<Rightarrow> nat \<Rightarrow> nat \<Rightarrow> nat" where
  "scale a b e = (if 0 < e \<and> 2 ^ 53 \<le> a * 2 ^ e div b then scale a b (e - 1) else e)"
  by pat_completeness auto
termination by (relation "measure (\<lambda>(a, b, e). e)") auto

declare scale.simps [simp del]

definition round_even :: "nat \<Rightarrow> nat \<Rightarrow> nat" where
  "round_even n d = (if 2 * (n mod d) < d \<or> 2 * (n mod d) = d \<and> even (n div d) then n div d else n div d + 1)"

text \<open>
  The double nearest to \<open>a / b\<close>, as \<open>m\<close> and \<open>e\<close>, for a quotient below \<open>2 ^ 53\<close> that is 0, is at least \<open>2 ^ 52 / 2 ^ k\<close>, or is a
  multiple of \<open>1 / 2 ^ k\<close>.
\<close>

definition nearest_double :: "nat \<Rightarrow> nat \<Rightarrow> nat \<Rightarrow> nat \<times> nat" where
  "nearest_double k a b = (let e = scale a b k in (round_even (a * 2 ^ e) b, e))"

lemma scale_least: "2 ^ 53 \<le> a * 2 ^ (scale a b e + 1) div b \<or> scale a b e = e"
proof (induction a b e rule: scale.induct)
  case (1 a b e)
  show ?case
  proof (cases "0 < e \<and> 2 ^ 53 \<le> a * 2 ^ e div b")
    case True
    have s: "scale a b e = scale a b (e - 1)" using True by (simp add: scale.simps [of a b e])
    show ?thesis
    proof (cases "scale a b (e - 1) = e - 1")
      case eq: True
      then have "scale a b e + 1 = e" using s True by simp
      then show ?thesis using True by simp
    next
      case False
      then show ?thesis using 1 [OF True] s by simp
    qed
  next
    case False
    then show ?thesis by (subst (2) scale.simps) (simp only: if_False simp_thms)
  qed
qed

lemma round_even_near:
  assumes "0 < d"
  shows "2 * (round_even n d * d) \<le> 2 * n + d" "2 * n \<le> 2 * (round_even n d * d) + d"
proof -
  obtain q r where qr: "q = n div d" "r = n mod d" by simp
  have "r < d" using assms by (simp add: qr)
  moreover have "n = q * d + r" by (simp add: qr)
  moreover have "round_even n d = q \<and> 2 * r \<le> d \<or> round_even n d = Suc q \<and> d \<le> 2 * r"
    unfolding round_even_def qr by auto
  ultimately show "2 * (round_even n d * d) \<le> 2 * n + d" "2 * n \<le> 2 * (round_even n d * d) + d" by auto
qed

lemma round_even_le:
  assumes "n \<le> k * d" "0 < d"
  shows "round_even n d \<le> k"
proof (cases "n mod d = 0")
  case True
  then show ?thesis using assms by (auto simp: round_even_def less_mult_imp_div_less div_le_mono [of n "k * d" d, simplified])
next
  case False
  have "n div d < k"
  proof (rule ccontr)
    assume "\<not> n div d < k"
    then have "k * d \<le> n div d * d" by simp
    moreover have "n = n div d * d + n mod d" by simp
    ultimately show False using False assms(1) by linarith
  qed
  then show ?thesis by (simp add: round_even_def)
qed

end
