(* ===== verification/VamTime.thy ===== *)
theory VamTime
  imports Doubles
begin

text \<open>
  The clock representations of \<open>src/vam_time.h\<close>: absolute and relative times in microseconds, their
  conversions and arithmetic, and the NTP format.  A \<open>uint64_t\<close> and an \<open>int64_t\<close> are 64-bit words;
  \<open>None\<close> is a division by zero, a shift by 64 or more, or the conversion of a double out of range.  The two
  functions on doubles as such, \<open>rel_time_mult_double\<close> and \<open>rel_divd_rel_time\<close>, are left out.
\<close>

section \<open>Types\<close>

record abs_time_t = a_usec :: u64
record rel_time_t = r_usec :: i64
record ntp64_t = upper :: u32  lower :: u32
record vam_timeval = tv_sec :: i64  tv_usec :: i64

definition sdiv64 :: "i64 \<Rightarrow> i64 \<Rightarrow> i64" where
  "sdiv64 a b = word_of_int (sint a sdiv sint b)"

section \<open>NTP time\<close>

definition SYSTEM_EPOCH_TO_NTP_EPOCH :: u32 where
  "SYSTEM_EPOCH_TO_NTP_EPOCH = 0x83AA7E80"

text \<open>The quotient of two small numbers as a double.\<close>

definition double_quot :: "nat \<Rightarrow> nat \<Rightarrow> nat \<times> nat" where
  "double_quot a b = nearest_double 67 a b"

text \<open>
  The product with \<open>0x04000000\<close> only moves the exponent; it fits an \<open>uint32_t\<close> when the microseconds are
  those of a second.  The way back, \<open>lower / 0x04000000 * 15625\<close>, has at most 46 bits and is exact.
\<close>

definition tod_to_ntp :: "vam_timeval \<Rightarrow> ntp64_t option" where
  "tod_to_ntp tod =
     (if sint (tv_usec tod) < 0 \<or> 1000000 \<le> sint (tv_usec tod) then None
      else let (m, e) = double_quot (unat (tv_usec tod)) 15625
           in Some \<lparr>upper = ucast (tv_sec tod) + SYSTEM_EPOCH_TO_NTP_EPOCH, lower = of_nat (m * 2 ^ 26 div 2 ^ e)\<rparr>)"

definition ntp_to_tod :: "ntp64_t \<Rightarrow> vam_timeval" where
  "ntp_to_tod ntptime =
     \<lparr>tv_sec = ucast (upper ntptime - SYSTEM_EPOCH_TO_NTP_EPOCH),
      tv_usec = of_nat (unat (lower ntptime) * 15625 div 2 ^ 26)\<rparr>"

text \<open>The result of \<open>gettimeofday\<close> and the time it stores are arguments.\<close>

definition get_ntp_time :: "int \<Rightarrow> vam_timeval \<Rightarrow> ntp64_t option" where
  "get_ntp_time r tv = (if r \<noteq> - 1 then tod_to_ntp tv else Some \<lparr>upper = 0, lower = 0\<rparr>)"

section \<open>Absolute time\<close>

definition sec_to_abs_time :: "u64 \<Rightarrow> abs_time_t" where
  "sec_to_abs_time sec = \<lparr>a_usec = 1000000 * sec\<rparr>"

definition msec_to_abs_time :: "u64 \<Rightarrow> abs_time_t" where
  "msec_to_abs_time msec = \<lparr>a_usec = 1000 * msec\<rparr>"

definition usec_to_abs_time :: "u64 \<Rightarrow> abs_time_t" where
  "usec_to_abs_time usec = \<lparr>a_usec = usec\<rparr>"

definition nsec_to_abs_time :: "u64 \<Rightarrow> abs_time_t" where
  "nsec_to_abs_time nsec = \<lparr>a_usec = nsec div 1000\<rparr>"

definition timeval_to_abs_time :: "vam_timeval \<Rightarrow> abs_time_t" where
  "timeval_to_abs_time tv = \<lparr>a_usec = tv_sec tv * 1000000 + tv_usec tv\<rparr>"

definition ntp_to_abs_time :: "ntp64_t \<Rightarrow> abs_time_t" where
  "ntp_to_abs_time ntp = timeval_to_abs_time (ntp_to_tod ntp)"

definition abs_time_to_sec :: "abs_time_t \<Rightarrow> u64" where
  "abs_time_to_sec t = a_usec t div 1000000"

definition abs_time_to_msec :: "abs_time_t \<Rightarrow> u64" where
  "abs_time_to_msec t = a_usec t div 1000"

definition abs_time_to_usec :: "abs_time_t \<Rightarrow> u64" where
  "abs_time_to_usec t = a_usec t"

definition abs_time_to_nsec :: "abs_time_t \<Rightarrow> u64" where
  "abs_time_to_nsec t = a_usec t * 1000"

definition abs_time_to_timeval :: "abs_time_t \<Rightarrow> vam_timeval" where
  "abs_time_to_timeval t =
     (let secs = a_usec t div 1000000 in \<lparr>tv_sec = secs, tv_usec = a_usec t - secs * 1000000\<rparr>)"

definition abs_time_to_ntp :: "abs_time_t \<Rightarrow> ntp64_t option" where
  "abs_time_to_ntp t = tod_to_ntp (abs_time_to_timeval t)"

definition abs_time_lt :: "abs_time_t \<Rightarrow> abs_time_t \<Rightarrow> bool" where
  "abs_time_lt t0 t1 = (a_usec t0 < a_usec t1)"

definition abs_time_gt :: "abs_time_t \<Rightarrow> abs_time_t \<Rightarrow> bool" where
  "abs_time_gt t0 t1 = (a_usec t0 > a_usec t1)"

definition abs_time_le :: "abs_time_t \<Rightarrow> abs_time_t \<Rightarrow> bool" where
  "abs_time_le t0 t1 = (a_usec t0 \<le> a_usec t1)"

definition abs_time_ge :: "abs_time_t \<Rightarrow> abs_time_t \<Rightarrow> bool" where
  "abs_time_ge t0 t1 = (a_usec t0 \<ge> a_usec t1)"

definition abs_time_eq :: "abs_time_t \<Rightarrow> abs_time_t \<Rightarrow> bool" where
  "abs_time_eq t0 t1 = (a_usec t0 = a_usec t1)"

definition abs_time_ne :: "abs_time_t \<Rightarrow> abs_time_t \<Rightarrow> bool" where
  "abs_time_ne t0 t1 = (a_usec t0 \<noteq> a_usec t1)"

section \<open>Relative time\<close>

definition sec_to_rel_time :: "i64 \<Rightarrow> rel_time_t" where
  "sec_to_rel_time sec = \<lparr>r_usec = 1000000 * sec\<rparr>"

definition msec_to_rel_time :: "i64 \<Rightarrow> rel_time_t" where
  "msec_to_rel_time msec = \<lparr>r_usec = 1000 * msec\<rparr>"

definition usec_to_rel_time :: "i64 \<Rightarrow> rel_time_t" where
  "usec_to_rel_time usec = \<lparr>r_usec = usec\<rparr>"

definition nsec_to_rel_time :: "i64 \<Rightarrow> rel_time_t" where
  "nsec_to_rel_time nsec = \<lparr>r_usec = sdiv64 nsec 1000\<rparr>"

definition PCR_TO_USEC_MULT :: i64 where
  "PCR_TO_USEC_MULT = sdiv64 (push_bit 25 100) 9"

definition pcr_to_rel_time :: "i64 \<Rightarrow> rel_time_t" where
  "pcr_to_rel_time pcr = \<lparr>r_usec = signed_drop_bit 25 (pcr * PCR_TO_USEC_MULT)\<rparr>"

definition timeval_to_rel_time :: "vam_timeval \<Rightarrow> rel_time_t" where
  "timeval_to_rel_time tv = \<lparr>r_usec = tv_sec tv * 1000000 + tv_usec tv\<rparr>"

definition rel_time_to_sec :: "rel_time_t \<Rightarrow> i64" where
  "rel_time_to_sec t = sdiv64 (r_usec t) 1000000"

definition rel_time_to_msec :: "rel_time_t \<Rightarrow> i64" where
  "rel_time_to_msec t = sdiv64 (r_usec t) 1000"

definition rel_time_to_usec :: "rel_time_t \<Rightarrow> i64" where
  "rel_time_to_usec t = r_usec t"

definition rel_time_to_nsec :: "rel_time_t \<Rightarrow> i64" where
  "rel_time_to_nsec t = r_usec t * 1000"

text \<open>The multiplier is unsigned, so that the product is too and the shift brings in zeros.\<close>

definition USEC_TO_PCR_MULT :: u64 where
  "USEC_TO_PCR_MULT = push_bit 27 9 div 100"

definition rel_time_to_pcr :: "rel_time_t \<Rightarrow> i64" where
  "rel_time_to_pcr t = drop_bit 27 (r_usec t * USEC_TO_PCR_MULT)"

definition rel_time_to_timeval :: "rel_time_t \<Rightarrow> vam_timeval" where
  "rel_time_to_timeval t =
     (let secs = sdiv64 (r_usec t) 1000000 in \<lparr>tv_sec = secs, tv_usec = r_usec t - secs * 1000000\<rparr>)"

definition rel_time_lt :: "rel_time_t \<Rightarrow> rel_time_t \<Rightarrow> bool" where
  "rel_time_lt t0 t1 = (sint (r_usec t0) < sint (r_usec t1))"

definition rel_time_gt :: "rel_time_t \<Rightarrow> rel_time_t \<Rightarrow> bool" where
  "rel_time_gt t0 t1 = (sint (r_usec t0) > sint (r_usec t1))"

definition rel_time_le :: "rel_time_t \<Rightarrow> rel_time_t \<Rightarrow> bool" where
  "rel_time_le t0 t1 = (sint (r_usec t0) \<le> sint (r_usec t1))"

definition rel_time_ge :: "rel_time_t \<Rightarrow> rel_time_t \<Rightarrow> bool" where
  "rel_time_ge t0 t1 = (sint (r_usec t0) \<ge> sint (r_usec t1))"

definition rel_time_eq :: "rel_time_t \<Rightarrow> rel_time_t \<Rightarrow> bool" where
  "rel_time_eq t0 t1 = (r_usec t0 = r_usec t1)"

definition rel_time_ne :: "rel_time_t \<Rightarrow> rel_time_t \<Rightarrow> bool" where
  "rel_time_ne t0 t1 = (r_usec t0 \<noteq> r_usec t1)"

section \<open>Arithmetic\<close>

definition abs_plus_rel_time :: "abs_time_t \<Rightarrow> rel_time_t \<Rightarrow> abs_time_t" where
  "abs_plus_rel_time time offset = time\<lparr>a_usec := a_usec time + r_usec offset\<rparr>"

definition abs_minus_rel_time :: "abs_time_t \<Rightarrow> rel_time_t \<Rightarrow> abs_time_t" where
  "abs_minus_rel_time time offset = time\<lparr>a_usec := a_usec time - r_usec offset\<rparr>"

definition abs_minus_abs_time :: "abs_time_t \<Rightarrow> abs_time_t \<Rightarrow> rel_time_t" where
  "abs_minus_abs_time t0 t1 = \<lparr>r_usec = a_usec t0 - a_usec t1\<rparr>"

definition rel_plus_rel_time :: "rel_time_t \<Rightarrow> rel_time_t \<Rightarrow> rel_time_t" where
  "rel_plus_rel_time t0 t1 = \<lparr>r_usec = r_usec t0 + r_usec t1\<rparr>"

definition rel_minus_rel_time :: "rel_time_t \<Rightarrow> rel_time_t \<Rightarrow> rel_time_t" where
  "rel_minus_rel_time t0 t1 = \<lparr>r_usec = r_usec t0 - r_usec t1\<rparr>"

definition rel_time_neg :: "rel_time_t \<Rightarrow> rel_time_t" where
  "rel_time_neg t = t\<lparr>r_usec := - r_usec t\<rparr>"

definition rel_time_mult_int :: "rel_time_t \<Rightarrow> i32 \<Rightarrow> rel_time_t" where
  "rel_time_mult_int t factor = t\<lparr>r_usec := r_usec t * scast factor\<rparr>"

text \<open>A signed division is defined unless the divisor is 0 or the quotient does not fit.\<close>

definition sdiv_checked :: "i64 \<Rightarrow> i64 \<Rightarrow> i64 option" where
  "sdiv_checked a b = (if b = 0 \<or> a = 0x8000000000000000 \<and> b = - 1 then None else Some (sdiv64 a b))"

definition rel_time_div_int :: "rel_time_t \<Rightarrow> i32 \<Rightarrow> rel_time_t option" where
  "rel_time_div_int t divisor = do { q \<leftarrow> sdiv_checked (r_usec t) (scast divisor); Some (t\<lparr>r_usec := q\<rparr>) }"

definition rel_div_rel_time :: "rel_time_t \<Rightarrow> rel_time_t \<Rightarrow> i32 option" where
  "rel_div_rel_time t0 t1 = do { q \<leftarrow> sdiv_checked (r_usec t0) (r_usec t1); Some (ucast q) }"

definition rel_mod_rel_time :: "rel_time_t \<Rightarrow> rel_time_t \<Rightarrow> rel_time_t option" where
  "rel_mod_rel_time t0 t1 = do {
     q \<leftarrow> sdiv_checked (r_usec t0) (r_usec t1);
     Some \<lparr>r_usec = r_usec t0 - q * r_usec t1\<rparr> }"

definition rel_time_lshift :: "rel_time_t \<Rightarrow> u8 \<Rightarrow> rel_time_t option" where
  "rel_time_lshift t shift = (if unat shift < 64 then Some (t\<lparr>r_usec := push_bit (unat shift) (r_usec t)\<rparr>) else None)"

definition rel_time_rshift :: "rel_time_t \<Rightarrow> u8 \<Rightarrow> rel_time_t option" where
  "rel_time_rshift t shift =
     (if unat shift < 64 then Some (t\<lparr>r_usec := signed_drop_bit (unat shift) (r_usec t)\<rparr>) else None)"

definition get_sys_time :: "vam_timeval \<Rightarrow> abs_time_t" where
  "get_sys_time tv = timeval_to_abs_time tv"

definition TIME_ABS_R :: "rel_time_t \<Rightarrow> rel_time_t" where
  "TIME_ABS_R t = (if rel_time_lt t \<lparr>r_usec = 0\<rparr> then rel_time_neg t else t)"

definition IS_ABS_TIME_ZERO :: "abs_time_t \<Rightarrow> bool" where
  "IS_ABS_TIME_ZERO t = abs_time_eq t \<lparr>a_usec = 0\<rparr>"

section \<open>The NTP format\<close>

text \<open>The scaled quotient is not off by the rounding of the double.\<close>

lemma truncated_quot:
  fixes a b P m :: nat
  assumes P: "b < P" and b: "0 < b" and m: "2 * (m * b) \<le> 2 * (a * P) + b" "2 * (a * P) \<le> 2 * (m * b) + b"
    and ex: "a mod b = 0 \<Longrightarrow> m = a div b * P"
  shows "m div P = a div b"
proof (cases "a mod b = 0")
  case True
  then show ?thesis using ex P by simp
next
  case False
  let ?k = "a div b" and ?r = "a mod b"
  have a: "a * P = ?k * P * b + ?r * P"
    by (metis (no_types, lifting) add_mult_distrib div_mult_mod_eq mult.assoc mult.commute)
  have r: "1 \<le> ?r" "?r + 1 \<le> b" using False b mod_less_divisor [OF b, of a] by linarith+
  have "P \<le> ?r * P" using r(1) by simp
  moreover have "(?r + 1) * P \<le> b * P" using r(2) by (rule mult_le_mono1)
  ultimately have r': "P \<le> ?r * P" "?r * P + P \<le> P * b" by (simp_all add: algebra_simps)
  have "2 * (?k * P * b) < 2 * (m * b)" using m(2) a r'(1) P by linarith
  then have "?k * P < m" by (metis mult_less_cancel2 nat_mult_less_cancel_disj)
  moreover have "2 * (m * b) < 2 * ((?k * P + P) * b)" using m(1) a r'(2) P by (simp add: algebra_simps)
  then have "m < ?k * P + P" by (metis mult_less_cancel2 nat_mult_less_cancel_disj)
  ultimately show ?thesis by (intro div_nat_eqI) (simp_all add: algebra_simps)
qed

lemma double_quot_truncated:
  assumes "a < 1000000" "double_quot a 15625 = (m, e)"
  shows "m * 2 ^ 26 div 2 ^ e = a * 2 ^ 26 div 15625"
proof (cases "a = 0")
  case True
  then show ?thesis using assms(2) by (auto simp: double_quot_def nearest_double_def round_even_def Let_def)
next
  case False
  have me: "e = scale a 15625 67" "m = round_even (a * 2 ^ e) 15625" using assms(2) by (auto simp: double_quot_def nearest_double_def Let_def)
  have e: "46 \<le> e"
  proof (rule ccontr)
    assume "\<not> 46 \<le> e"
    then have "(2 :: nat) ^ (e + 1) \<le> 2 ^ 46" by (intro power_increasing) simp_all
    then have "a * 2 ^ (e + 1) \<le> 1000000 * 2 ^ 46" using assms(1) by (intro mult_le_mono) simp_all
    then have "a * 2 ^ (e + 1) div 15625 \<le> 1000000 * 2 ^ 46 div 15625" by (rule div_le_mono)
    then show False using scale_least [of a 15625 67] me(1) \<open>\<not> 46 \<le> e\<close> by auto
  qed
  let ?P = "(2 :: nat) ^ (e - 26)"
  have p: "(2 :: nat) ^ e = 2 ^ 26 * ?P" using e by (simp only: power_add [symmetric]) simp
  have "(2 :: nat) ^ 20 \<le> ?P" using e by (intro power_increasing) simp_all
  then have P: "15625 < ?P" by simp
  have n: "a * 2 ^ e = a * 2 ^ 26 * ?P" by (simp only: p mult.assoc)
  have "m div ?P = a * 2 ^ 26 div 15625"
  proof (rule truncated_quot)
    show "2 * (m * 15625) \<le> 2 * (a * 2 ^ 26 * ?P) + 15625" "2 * (a * 2 ^ 26 * ?P) \<le> 2 * (m * 15625) + 15625"
      using round_even_near [of 15625 "a * 2 ^ e"] unfolding me(2) n by simp_all
    assume z: "a * 2 ^ 26 mod 15625 = 0"
    then have "a * 2 ^ 26 * ?P mod 15625 = 0" by (metis dvd_mult2 mod_0_imp_dvd mod_eq_0_iff_dvd)
    moreover have "a * 2 ^ 26 * ?P div 15625 = a * 2 ^ 26 div 15625 * ?P"
      using z by (metis dvd_div_mult mod_0_imp_dvd)
    ultimately show "m = a * 2 ^ 26 div 15625 * ?P" unfolding me(2) n round_even_def by simp
  qed (use P in simp_all)
  moreover have "m * 2 ^ 26 div 2 ^ e = m div ?P" unfolding p by (simp add: mult.commute [of m] div_mult_mult1)
  ultimately show ?thesis by simp
qed

lemma ntp_fraction_back:
  assumes "u < (1000000 :: nat)"
  shows "u * 2 ^ 26 div 15625 * 15625 div 2 ^ 26 = (if u mod 15625 = 0 then u else u - 1)" "u * 2 ^ 26 div 15625 < 2 ^ 32"
proof -
  let ?r = "u * 2 ^ 26 mod 15625"
  have e: "u * 2 ^ 26 div 15625 * 15625 = u * 2 ^ 26 - ?r" by (simp add: minus_mod_eq_div_mult)
  have z: "?r = 0 \<longleftrightarrow> u mod 15625 = 0"
  proof -
    have "coprime (15625 :: nat) (2 ^ 26)" by (simp add: coprime_iff_gcd_eq_1 gcd_non_0_nat)
    then show ?thesis using coprime_dvd_mult_left_iff [of 15625 "2 ^ 26" u] by (simp add: mod_eq_0_iff_dvd)
  qed
  show "u * 2 ^ 26 div 15625 * 15625 div 2 ^ 26 = (if u mod 15625 = 0 then u else u - 1)"
  proof (cases "u mod 15625 = 0")
    case True
    then show ?thesis using e z by simp
  next
    case False
    then have r: "0 < ?r" "?r < 15625" using z by simp_all
    have u: "0 < u" using False by (cases u) simp_all
    have "(u * 2 ^ 26 - ?r) div 2 ^ 26 = u - 1"
      using r u by (intro div_nat_eqI) (simp_all add: diff_mult_distrib)
    then show ?thesis unfolding e using False by simp
  qed
  have "u * 2 ^ 26 div 15625 \<le> 999999 * 2 ^ 26 div 15625" using assms by (intro div_le_mono mult_le_mono1) simp
  then show "u * 2 ^ 26 div 15625 < 2 ^ 32" by simp
qed

section \<open>Conversions\<close>

lemma sint_of_nat64: "n < 2 ^ 63 \<Longrightarrow> sint (of_nat n :: 64 word) = int n"
proof -
  assume "n < 2 ^ 63"
  then have "signed_take_bit 63 (int n) = int n" by (intro signed_take_bit_int_eq_self) simp_all
  moreover have "sint (of_nat n :: 64 word) = signed_take_bit 63 (int n)"
    by (simp add: signed_of_nat)
  ultimately show ?thesis by simp
qed

lemma unat_of_nat64: "n < 2 ^ 64 \<Longrightarrow> unat (of_nat n :: 64 word) = n"
  by (simp add: unat_of_nat)

lemma sint_nat64: "n < 2 ^ 63 \<Longrightarrow> x = of_nat n \<Longrightarrow> sint (x :: 64 word) = int n \<and> unat x = n"
  by (simp add: sint_of_nat64 unat_of_nat64)

lemma tod_ntp_back:
  assumes "secs < 2 ^ 32" "u < 1000000"
  shows "\<exists>ntp. tod_to_ntp \<lparr>tv_sec = of_nat secs, tv_usec = of_nat u\<rparr> = Some ntp \<and>
    ntp_to_tod ntp = \<lparr>tv_sec = of_nat secs, tv_usec = of_nat (if u mod 15625 = 0 then u else u - 1)\<rparr>"
proof -
  have u: "sint (of_nat u :: 64 word) = int u" "unat (of_nat u :: 64 word) = u"
    using sint_nat64 [of u "of_nat u"] assms(2) by simp_all
  obtain m e where me: "double_quot u 15625 = (m, e)" by fastforce
  note l = double_quot_truncated [OF assms(2) me]
  have low: "unat (of_nat (u * 2 ^ 26 div 15625) :: 32 word) = u * 2 ^ 26 div 15625"
    using ntp_fraction_back(2) [OF assms(2)] by (intro unat_of_nat32) simp
  have s: "unat (of_nat secs :: 64 word) = secs" using assms(1) by (intro unat_of_nat64) simp
  have s32: "unat (ucast (of_nat secs :: 64 word) :: 32 word) = secs"
    using assms(1) by (simp only: unsigned_ucast_eq s) (simp add: take_bit_nat_eq_self)
  have "unat (ucast (ucast (of_nat secs :: 64 word) :: 32 word) :: 64 word) = secs"
    using assms(1) by (simp only: unsigned_ucast_eq [where 'c = 64] s32) (simp add: take_bit_nat_eq_self)
  then have "ucast (ucast (of_nat secs :: 64 word) :: 32 word) = (of_nat secs :: 64 word)"
    by (simp only: word_unat_eq_iff s)
  then show ?thesis
    using u me l low ntp_fraction_back(1) [OF assms(2)] assms(2)
    by (simp add: tod_to_ntp_def ntp_to_tod_def)
qed

lemma abs_time_to_timeval_nat:
  "abs_time_to_timeval t = \<lparr>tv_sec = of_nat (unat (a_usec t) div 1000000), tv_usec = of_nat (unat (a_usec t) mod 1000000)\<rparr>"
proof -
  let ?n = "unat (a_usec t)"
  have "?n < 2 ^ LENGTH(64)" by (rule unsigned_less)
  then have "unat (of_nat (?n div 1000000) :: 64 word) = ?n div 1000000" by (intro unat_of_nat64) simp
  then have d: "a_usec t div 1000000 = of_nat (?n div 1000000)" by (simp add: word_unat_eq_iff unat_div)
  have "of_nat (?n div 1000000 * 1000000 + ?n mod 1000000) = a_usec t" by (simp only: div_mult_mod_eq) simp
  then have "a_usec t = of_nat (?n div 1000000) * 1000000 + of_nat (?n mod 1000000)" by (simp only: of_nat_add of_nat_mult of_nat_numeral)
  then have "a_usec t - of_nat (?n div 1000000) * 1000000 = of_nat (?n mod 1000000)" by (simp add: algebra_simps)
  then show ?thesis unfolding abs_time_to_timeval_def d Let_def by simp
qed

lemma timeval_to_abs_time_back: "timeval_to_abs_time (abs_time_to_timeval t) = t"
  by (simp add: timeval_to_abs_time_def abs_time_to_timeval_def Let_def)

lemma timeval_to_rel_time_back: "timeval_to_rel_time (rel_time_to_timeval t) = t"
  by (simp add: timeval_to_rel_time_def rel_time_to_timeval_def Let_def)

lemma abs_time_arith:
  "abs_plus_rel_time t1 (abs_minus_abs_time t0 t1) = t0" "abs_minus_rel_time (abs_plus_rel_time t r) r = t"
  "abs_minus_abs_time (abs_plus_rel_time t r) t = r" "rel_plus_rel_time r (rel_time_neg r) = \<lparr>r_usec = 0\<rparr>"
  "rel_minus_rel_time (rel_plus_rel_time r r') r' = r"
  by (simp_all add: abs_plus_rel_time_def abs_minus_abs_time_def abs_minus_rel_time_def rel_plus_rel_time_def
      rel_minus_rel_time_def rel_time_neg_def)

lemma rel_div_mod:
  assumes "rel_mod_rel_time t0 t1 = Some m"
  shows "\<exists>q. sdiv_checked (r_usec t0) (r_usec t1) = Some q \<and> r_usec t0 = q * r_usec t1 + r_usec m"
  using assms by (auto simp: rel_mod_rel_time_def bind_Some_iff)

text \<open>
  The 90 kHz ticks of a 33-bit counter: the approximation is never too large, and at most 58 microseconds too
  small; the way back loses at most 377 ticks.
\<close>

lemma pcr_to_rel_time_nat:
  assumes "p < 2 ^ 33"
  shows "r_usec (pcr_to_rel_time (of_nat p)) = of_nat (p * 372827022 div 2 ^ 25)"
proof -
  have m: "PCR_TO_USEC_MULT = of_nat 372827022" by (simp add: PCR_TO_USEC_MULT_def sdiv64_def signed_divide_int_def)
  have b: "p * 372827022 < 2 ^ 63" using assms by simp
  have "sint (signed_drop_bit 25 (of_nat p * PCR_TO_USEC_MULT)) = drop_bit 25 (sint (of_nat (p * 372827022) :: 64 word))"
    unfolding m by (simp add: sint_signed_drop_bit_eq)
  also have "\<dots> = int (p * 372827022 div 2 ^ 25)"
    using sint_of_nat64 [OF b] by (simp add: drop_bit_eq_div zdiv_int)
  also have "\<dots> = sint (of_nat (p * 372827022 div 2 ^ 25) :: 64 word)"
    using b by (subst sint_of_nat64) simp_all
  finally show ?thesis unfolding pcr_to_rel_time_def by (simp add: signed_word_eqI)
qed

lemma pcr_to_rel_time_bounds:
  assumes "p < 2 ^ 33"
  shows "\<exists>u. r_usec (pcr_to_rel_time (of_nat p)) = of_nat u \<and> u < 2 ^ 37 \<and> 9 * u \<le> 100 * p \<and> 100 * p < 9 * (u + 59)"
proof (intro exI conjI)
  let ?u = "p * 372827022 div 2 ^ 25"
  show "r_usec (pcr_to_rel_time (of_nat p)) = of_nat ?u" using assms by (rule pcr_to_rel_time_nat)
  have u: "?u * 33554432 \<le> p * 372827022" "p * 372827022 < ?u * 33554432 + 33554432"
    using div_times_less_eq_dividend [of "p * 372827022" 33554432] dividend_less_div_times [of 33554432 "p * 372827022"] by simp_all
  have p: "p < 8589934592" using assms by simp
  have "?u < 137438953472" using u(1) p by linarith
  then show "?u < 2 ^ 37" by simp
  show "9 * ?u \<le> 100 * p" using u(1) by linarith
  have "100 * p * 33554432 < 9 * (?u + 59) * 33554432" using u(2) p by simp
  then show "100 * p < 9 * (?u + 59)" by simp
qed

lemma rel_time_to_pcr_bounds:
  assumes "p < 2 ^ 33"
  shows "\<exists>p'. rel_time_to_pcr (pcr_to_rel_time (of_nat p)) = of_nat p' \<and> p' \<le> p \<and> p \<le> p' + 377"
proof -
  obtain u where u: "r_usec (pcr_to_rel_time (of_nat p)) = of_nat u" "u < 2 ^ 37" "9 * u \<le> 100 * p" "100 * p < 9 * (u + 59)"
    using pcr_to_rel_time_bounds [OF assms] by blast
  have m: "USEC_TO_PCR_MULT = of_nat 12079595" by (simp add: USEC_TO_PCR_MULT_def)
  let ?v = "u * 12079595 div 2 ^ 27"
  have "unat (of_nat (u * 12079595) :: 64 word) = u * 12079595" using u(2) by (intro unat_of_nat64) simp
  then have "unat (drop_bit 27 (of_nat (u * 12079595) :: 64 word)) = ?v"
    unfolding unat_drop_bit_eq by (simp add: drop_bit_eq_div)
  moreover have "unat (of_nat ?v :: 64 word) = ?v" using u(2) by (intro unat_of_nat64) simp
  ultimately have pcr: "rel_time_to_pcr (pcr_to_rel_time (of_nat p)) = of_nat ?v"
    unfolding rel_time_to_pcr_def u(1) m by (simp only: word_unat_eq_iff of_nat_mult)
  have v: "?v * 134217728 \<le> u * 12079595" "u * 12079595 < ?v * 134217728 + 134217728"
    using div_times_less_eq_dividend [of "u * 12079595" 134217728] dividend_less_div_times [of 134217728 "u * 12079595"] by simp_all
  have p: "p < 8589934592" using assms by simp
  have "?v \<le> p" using v(1) u(3) by linarith
  moreover have "p \<le> ?v + 377"
  proof -
    have "100 * p * 12079595 < 9 * (u + 59) * 12079595" using u(4) by simp
    moreover have "9 * (u * 12079595) < 9 * (?v * 134217728 + 134217728)" using v(2) by simp
    ultimately have "p * 1207959552 < (?v + 378) * 1207959552" using p by simp
    then show ?thesis by simp
  qed
  ultimately show ?thesis using pcr by blast
qed

text \<open>Of a negative time the conversion to ticks makes a large positive number.\<close>

lemma rel_time_to_pcr_negative: "rel_time_to_pcr \<lparr>r_usec = - 1\<rparr> = 137438953471"
  by (simp add: rel_time_to_pcr_def USEC_TO_PCR_MULT_def)

lemma rel_time_order:
  "rel_time_le t0 t1 \<longleftrightarrow> rel_time_lt t0 t1 \<or> rel_time_eq t0 t1" "rel_time_ge t0 t1 \<longleftrightarrow> rel_time_le t1 t0"
  "rel_time_gt t0 t1 \<longleftrightarrow> rel_time_lt t1 t0" "rel_time_ne t0 t1 \<longleftrightarrow> \<not> rel_time_eq t0 t1"
  "r_usec t \<noteq> 0x8000000000000000 \<Longrightarrow> \<not> rel_time_lt (TIME_ABS_R t) \<lparr>r_usec = 0\<rparr>"
proof -
  show "\<not> rel_time_lt (TIME_ABS_R t) \<lparr>r_usec = 0\<rparr>" if "r_usec t \<noteq> 0x8000000000000000"
  proof (cases "sint (r_usec t) < 0")
    case True
    have "- (2 ^ 63) \<le> sint (r_usec t)" using sint_ge [of "r_usec t"] by simp
    moreover have "sint (r_usec t) \<noteq> - (2 ^ 63)"
      using that signed_word_eqI [of "r_usec t" "0x8000000000000000"] by auto
    ultimately have "signed_take_bit 63 (- sint (r_usec t)) = - sint (r_usec t)"
      using True by (intro signed_take_bit_int_eq_self) simp_all
    then have "sint (- r_usec t) = - sint (r_usec t)" by (simp add: signed_take_bit_minus sint_word_ariths)
    then show ?thesis using True by (simp add: TIME_ABS_R_def rel_time_lt_def rel_time_neg_def)
  next
    case False
    then show ?thesis by (simp add: TIME_ABS_R_def rel_time_lt_def)
  qed
qed (auto simp: rel_time_le_def rel_time_lt_def rel_time_ge_def rel_time_gt_def rel_time_eq_def rel_time_ne_def
    signed_word_eqI order_le_less)

section \<open>Properties\<close>

text \<open>
  C31: A time before the year 2106 that is converted to the NTP format and back loses one microsecond, except when
  it is a whole multiple of 15625 microseconds, which come back unchanged; the conversion is always defined.
\<close>

theorem ntp_time_roundtrip:
  assumes "unat (a_usec t) < 4294967296 * 1000000"
  shows "\<exists>ntp. abs_time_to_ntp t = Some ntp \<and>
    ntp_to_abs_time ntp = (if unat (a_usec t) mod 15625 = 0 then t else \<lparr>a_usec = a_usec t - 1\<rparr>)"
proof -
  let ?n = "unat (a_usec t)"
  let ?s = "?n div 1000000" and ?u = "?n mod 1000000"
  have s: "?s < 2 ^ 32" using assms by (simp add: div_less_iff_less_mult)
  have m: "?u mod 15625 = ?n mod 15625" by (rule mod_mod_cancel) simp
  obtain ntp where ntp: "abs_time_to_ntp t = Some ntp"
    "ntp_to_tod ntp = \<lparr>tv_sec = of_nat ?s, tv_usec = of_nat (if ?u mod 15625 = 0 then ?u else ?u - 1)\<rparr>"
    using tod_ntp_back [OF s, of ?u] unfolding abs_time_to_ntp_def abs_time_to_timeval_nat by auto
  have t: "of_nat ?s * 1000000 + of_nat ?u = a_usec t"
    using timeval_to_abs_time_back [of t] unfolding abs_time_to_timeval_nat timeval_to_abs_time_def
    by (metis abs_time_t.select_convs(1) vam_timeval.select_convs)
  have "ntp_to_abs_time ntp = (if ?n mod 15625 = 0 then t else \<lparr>a_usec = a_usec t - 1\<rparr>)"
  proof (cases "?n mod 15625 = 0")
    case True
    then show ?thesis using ntp(2) t m by (simp add: ntp_to_abs_time_def timeval_to_abs_time_def)
  next
    case False
    then have "0 < ?u" using m by (cases "?u = 0") simp_all
    then have "of_nat (?u - 1) = (of_nat ?u - 1 :: 64 word)" by (simp add: of_nat_diff)
    then show ?thesis using ntp(2) t m False by (simp add: ntp_to_abs_time_def timeval_to_abs_time_def algebra_simps)
  qed
  with ntp(1) show ?thesis by blast
qed

lemma ntp_time_roundtrip_witness:
  "\<exists>ntp. abs_time_to_ntp \<lparr>a_usec = 1700000000000001\<rparr> = Some ntp \<and> ntp_to_abs_time ntp = \<lparr>a_usec = 1700000000000000\<rparr>"
  using ntp_time_roundtrip [of "\<lparr>a_usec = 1700000000000001\<rparr>"] by simp

end
