(* ===== verification/LlMap.thy ===== *)
theory LlMap
  imports Rtnl NetUtils
begin

text \<open>
  The table of network links of \<open>src/netlink/ll_map.c\<close>, filled from a dump of the kernel's links.  The static
  variables of the file are the state; \<open>heap\<close> is what the calls of \<open>malloc\<close> to come give, a block with the
  old contents of the memory or nothing.  \<open>None\<close> is an access outside a buffer.
\<close>

section \<open>State\<close>

record idxmap =
  index :: u32
  im_type :: nat
  alen :: nat
  flags :: u32
  addr :: "u8 list"
  name :: "u8 list"

record ll_state =
  idxmaps :: "idxmap list list"
  ncache :: "u8 list"
  icache :: u32
  heap :: "idxmap option list"

definition malloc_idxmap :: "ll_state \<Rightarrow> idxmap option \<times> ll_state" where
  "malloc_idxmap st = (case heap st of [] \<Rightarrow> (None, st) | b # bs \<Rightarrow> (b, st\<lparr>heap := bs\<rparr>))"

definition RTM_NEWLINK :: nat where "RTM_NEWLINK = 16"
definition RTM_GETLINK :: nat where "RTM_GETLINK = 18"
definition IFLA_ADDRESS :: nat where "IFLA_ADDRESS = 1"
definition IFLA_IFNAME :: nat where "IFLA_IFNAME = 3"

text \<open>The place of an index in its bucket, the length of the bucket when it is not there.\<close>

definition idx_place :: "u32 \<Rightarrow> idxmap list \<Rightarrow> nat" where
  "idx_place idx b = length (takeWhile (\<lambda>im. index im \<noteq> idx) b)"

text \<open>The entry gets the values of a message: header and attributes.\<close>

definition fill_idxmap :: "u8 list \<Rightarrow> nat option list \<Rightarrow> nat \<Rightarrow> idxmap \<Rightarrow> idxmap option" where
  "fill_idxmap n tb ifname im = do {
     t \<leftarrow> rd_le n 18 2;
     f \<leftarrow> rd_le n 24 4;
     address \<leftarrow> rd tb IFLA_ADDRESS;
     (l, ad) \<leftarrow> (case address of
        Some a \<Rightarrow> do {
          l \<leftarrow> rd_le n a 2;
          bs \<leftarrow> rd_bytes n (a + 4) (min (l - 4) 8);
          ad \<leftarrow> wr_bytes (addr im) 0 bs;
          Some (l - 4, ad) }
      | None \<Rightarrow> Some (0, replicate 8 0));
     s \<leftarrow> c_string n (ifname + 4);
     nm \<leftarrow> wr_bytes (name im) 0 (s @ [0]);
     Some (im\<lparr>im_type := t, flags := of_nat f, alen := l, addr := ad, name := nm\<rparr>) }"

text \<open>
  \<open>mx\<close> is \<open>IFLA_MAX\<close> of the kernel's headers.  The check of the length uses the size of a pointer, 8, in idx_place of
  that of the link header, 16.
\<close>

definition ll_remember_index :: "nat \<Rightarrow> u8 list \<Rightarrow> ll_state \<Rightarrow> (int \<times> ll_state) option" where
  "ll_remember_index mx n st = do {
     t \<leftarrow> nlmsg_type n 0;
     if t \<noteq> RTM_NEWLINK then Some (0, st)
     else do {
       len \<leftarrow> rd_le n 0 4;
       if len < 24 then Some (- 1, st)
       else do {
         (tb, left) \<leftarrow> parse_rtattr mx n 32 (sint (of_nat len - 32 :: i32));
         nm \<leftarrow> rd tb IFLA_IFNAME;
         case nm of
           None \<Rightarrow> Some (0, st)
         | Some ifname \<Rightarrow> do {
             idx \<leftarrow> rd_le n 20 4;
             let h = idx mod 16;
             b \<leftarrow> rd (idxmaps st) h;
             let p = idx_place (of_nat idx) b;
             let (new, st) = (if p < length b then (None, st) else malloc_idxmap st);
             if p = length b \<and> new = None then Some (0, st)
             else do {
               let b = (case new of None \<Rightarrow> b | Some im \<Rightarrow> b @ [im\<lparr>index := of_nat idx\<rparr>]);
               im \<leftarrow> rd b p;
               im \<leftarrow> fill_idxmap n tb ifname im;
               Some (0, st\<lparr>idxmaps := (idxmaps st)[h := b[p := im]]\<rparr>) } } } } }"

section \<open>Lookups\<close>

definition entry :: "u32 \<Rightarrow> ll_state \<Rightarrow> idxmap option" where
  "entry idx st = find (\<lambda>im. index im = idx) (idxmaps st ! (unat idx mod 16))"

definition ll_idx_n2a :: "u32 \<Rightarrow> ll_state \<Rightarrow> u8 list option" where
  "ll_idx_n2a idx st =
     (if idx = 0 then Some (map byte_of ''*'')
      else case entry idx st of
             Some im \<Rightarrow> c_string (name im) 0
           | None \<Rightarrow> Some (map byte_of (snprintf_cut 16 (''if'' @ fmt_d idx))))"

definition ll_index_to_name :: "u32 \<Rightarrow> ll_state \<Rightarrow> u8 list option" where
  "ll_index_to_name idx st = ll_idx_n2a idx st"

definition ll_index_to_type :: "u32 \<Rightarrow> ll_state \<Rightarrow> int" where
  "ll_index_to_type idx st =
     (if idx = 0 then - 1 else case entry idx st of Some im \<Rightarrow> int (im_type im) | None \<Rightarrow> - 1)"

definition ll_index_to_flags :: "u32 \<Rightarrow> ll_state \<Rightarrow> u32" where
  "ll_index_to_flags idx st = (if idx = 0 then 0 else case entry idx st of Some im \<Rightarrow> flags im | None \<Rightarrow> 0)"

text \<open>
  The search by name over all buckets in turn, and the cache of the last name found.  \<open>if_nametoindex\<close> asks the
  system; the name is \<open>None\<close> for \<open>NULL\<close>.
\<close>

fun find_name :: "u8 list \<Rightarrow> idxmap list \<Rightarrow> idxmap option option" where
  "find_name nm [] = Some None"
| "find_name nm (im # ims) = do {
     s \<leftarrow> c_string (name im) 0;
     if s = nm then Some (Some im) else find_name nm ims }"

definition ll_name_to_index :: "(u8 list \<Rightarrow> u32) \<Rightarrow> u8 list option \<Rightarrow> ll_state \<Rightarrow> (u32 \<times> ll_state) option" where
  "ll_name_to_index if_nametoindex nm st =
     (case nm of
        None \<Rightarrow> Some (0, st)
      | Some s \<Rightarrow> do {
          hit \<leftarrow> (if icache st = 0 then Some False else map_option (\<lambda>c. s = c) (c_string (ncache st) 0));
          if hit then Some (icache st, st)
          else do {
            found \<leftarrow> find_name s (concat (idxmaps st));
            case found of
              Some im \<Rightarrow> do {
                c \<leftarrow> wr_bytes (ncache st) 0 (s @ [0]);
                Some (index im, st\<lparr>icache := index im, ncache := c\<rparr>) }
            | None \<Rightarrow> Some (if_nametoindex s, st) } })"

section \<open>The dump\<close>

text \<open>The filter of the dump; its world is \<open>None\<close> after an access outside a buffer.\<close>

definition remember_filter :: "nat \<Rightarrow> nat \<Rightarrow> u8 list \<Rightarrow> ll_state option \<Rightarrow> int \<times> ll_state option" where
  "remember_filter mx pid m w =
     (case w of
        None \<Rightarrow> (0, None)
      | Some st \<Rightarrow> (case ll_remember_index mx m st of None \<Rightarrow> (0, None) | Some (r, st) \<Rightarrow> (r, Some st)))"

definition ll_init_map ::
  "nat \<Rightarrow> u8 list \<Rightarrow> (u8 list \<Rightarrow> int) \<Rightarrow> rtnl_handle \<Rightarrow> recv list \<Rightarrow> ll_state option \<Rightarrow>
   (ll_state option outcome \<times> rtnl_handle) option" where
  "ll_init_map mx old send rth rs w =
     (let (r, rth) = rtnl_wilddump_request send rth 0 RTM_GETLINK
      in if r < 0 then Some (Exit 1 w, rth)
         else do {
           out \<leftarrow> rtnl_dump_filter old (remember_filter mx) None rth rs w;
           Some (case out of
                   Return r w \<Rightarrow> if r < 0 then Exit 1 w else Return 0 w
                 | _ \<Rightarrow> out, rth) })"

section \<open>Buckets\<close>

lemma idx_place_le: "idx_place idx b \<le> length b"
  by (simp add: idx_place_def length_takeWhile_le)

lemma idx_place_index: "idx_place idx b < length b \<Longrightarrow> index (b ! idx_place idx b) = idx"
  unfolding idx_place_def using nth_length_takeWhile [of "\<lambda>im. index im \<noteq> idx" b] by simp

lemma find_place: "find (\<lambda>im. index im = idx) b = (if idx_place idx b < length b then Some (b ! idx_place idx b) else None)"
  by (induction b) (auto simp: idx_place_def)

lemma idx_place_length: "idx_place idx b = length b \<longleftrightarrow> idx \<notin> index ` set b"
  by (induction b) (auto simp: idx_place_def)

lemma find_update_same:
  "p \<le> length b \<Longrightarrow> idx_place idx b = p \<Longrightarrow> index im = idx \<Longrightarrow> p < length c \<Longrightarrow> take p c = take p b \<Longrightarrow>
   find (\<lambda>im. index im = idx) (c[p := im]) = Some im"
proof -
  assume a: "p \<le> length b" "idx_place idx b = p" "index im = idx" "p < length c" "take p c = take p b"
  have "takeWhile (\<lambda>im. index im \<noteq> idx) b = take p b" using a(2) unfolding idx_place_def
    by (metis takeWhile_eq_take)
  then have "\<forall>x \<in> set (take p c). index x \<noteq> idx" using a(5) by (metis set_takeWhileD)
  then have "find (\<lambda>im. index im = idx) (take p c) = None" by (simp add: find_None_iff)
  moreover have "c[p := im] = take p c @ im # drop (Suc p) c" using a(4) by (simp add: upd_conv_take_nth_drop)
  moreover have "find Q (xs @ ys) = (case find Q xs of None \<Rightarrow> find Q ys | r \<Rightarrow> r)" for Q and xs ys :: "idxmap list"
    by (induction xs) auto
  ultimately show ?thesis using a(3) by simp
qed

lemma find_update_other:
  "p < length b \<Longrightarrow> index (b ! p) \<noteq> j \<Longrightarrow> index im \<noteq> j \<Longrightarrow> find (\<lambda>im. index im = j) (b[p := im]) = find (\<lambda>im. index im = j) b"
proof (induction b arbitrary: p)
  case (Cons a b)
  then show ?case by (cases p) auto
qed simp

lemma find_append_other: "index im \<noteq> j \<Longrightarrow> find (\<lambda>im. index im = j) (b @ [im]) = find (\<lambda>im. index im = j) b"
  by (induction b) auto

section \<open>Invariant\<close>

text \<open>Every entry is in the bucket of its index, no index is there twice, and the arrays have their sizes.\<close>

definition good_entry :: "idxmap \<Rightarrow> bool" where
  "good_entry im \<longleftrightarrow> length (addr im) = 8 \<and> length (name im) = 16"

definition good_map :: "ll_state \<Rightarrow> bool" where
  "good_map st \<longleftrightarrow> length (idxmaps st) = 16 \<and>
     (\<forall>h < 16. distinct (List.map index (idxmaps st ! h)) \<and>
       (\<forall>im \<in> set (idxmaps st ! h). unat (index im) mod 16 = h \<and> good_entry im \<and> 0 \<in> set (name im))) \<and>
     (\<forall>im. Some im \<in> set (heap st) \<longrightarrow> good_entry im)"

text \<open>Where the parser finds an attribute there is one, within the range.\<close>

lemma parse_loop_positions:
  "parse_loop buf mx rta len tb = Some (tb', left) \<Longrightarrow> i < length tb' \<Longrightarrow> tb' ! i = Some a \<Longrightarrow>
   (i < length tb \<and> tb ! i = Some a) \<or>
   (\<exists>l. rd_le buf a 2 = Some l \<and> 4 \<le> l \<and> int a + int l \<le> int rta + len)"
proof (induction buf mx rta len tb rule: parse_loop.induct)
  case (1 buf mx rta len tb)
  obtain ok where ok: "RTA_OK buf rta len = Some ok" using "1.prems"(1) by (subst (asm) parse_loop.simps) (auto simp: bind_Some_iff)
  show ?case
  proof (cases ok)
    case None
    then show ?thesis using "1.prems" ok by (subst (asm) parse_loop.simps) (auto simp: bind_Some_iff)
  next
    case (Some l)
    have l: "rd_le buf rta 2 = Some l" "4 \<le> l" "int l \<le> len"
      using ok Some by (auto simp: RTA_OK_def bind_Some_iff split: if_splits)
    obtain t where t: "rd_le buf (rta + 2) 2 = Some t" using "1.prems"(1) ok Some
      by (subst (asm) parse_loop.simps) (auto simp: bind_Some_iff)
    let ?tb = "if t \<le> mx then tb[t := Some rta] else tb"
    have rec: "parse_loop buf mx (rta + RTA_ALIGN l) (len - int (RTA_ALIGN l)) ?tb = Some (tb', left)"
      using "1.prems"(1) ok Some t by (subst (asm) parse_loop.simps) simp
    from "1.IH" [OF ok Some t refl rec "1.prems"(2,3)] consider
        "i < length ?tb" "?tb ! i = Some a"
      | "\<exists>l. rd_le buf a 2 = Some l \<and> 4 \<le> l \<and> int a + int l \<le> int rta + len"
      by force
    then show ?thesis
    proof cases
      case 1
      then show ?thesis using l by (cases "t \<le> mx \<and> i = t") (auto split: if_splits)
    qed simp
  qed
qed

lemma parse_loop_length: "parse_loop buf mx rta len tb = Some (tb', left) \<Longrightarrow> length tb' = length tb"
proof (induction buf mx rta len tb rule: parse_loop.induct)
  case (1 buf mx rta len tb)
  obtain ok where ok: "RTA_OK buf rta len = Some ok" using "1.prems" by (subst (asm) parse_loop.simps) (auto simp: bind_Some_iff)
  show ?case
  proof (cases ok)
    case None
    then show ?thesis using "1.prems" ok by (subst (asm) parse_loop.simps) (auto simp: bind_Some_iff)
  next
    case (Some l)
    obtain t where t: "rd_le buf (rta + 2) 2 = Some t" using "1.prems" ok Some
      by (subst (asm) parse_loop.simps) (auto simp: bind_Some_iff)
    have rec: "parse_loop buf mx (rta + RTA_ALIGN l) (len - int (RTA_ALIGN l)) (if t \<le> mx then tb[t := Some rta] else tb) = Some (tb', left)"
      using "1.prems" ok Some t by (subst (asm) parse_loop.simps) simp
    show ?thesis using "1.IH" [OF ok Some t refl rec] by (simp split: if_splits)
  qed
qed

lemma parse_rtattr_positions:
  assumes "parse_rtattr mx buf rta len = Some (tb, left)" "i \<le> mx" "tb ! i = Some a" "int rta + len \<le> int (length buf)"
  shows "\<exists>l. rd_le buf a 2 = Some l \<and> 4 \<le> l \<and> a + l \<le> length buf"
proof -
  have p: "parse_loop buf mx rta len (replicate (mx + 1) None) = Some (tb, left)" using assms(1) by (simp add: parse_rtattr_def)
  have "i < length tb" using parse_loop_length [OF p] assms(2) by simp
  from parse_loop_positions [OF p this assms(3)] assms(2) obtain l where
    "rd_le buf a 2 = Some l" "4 \<le> l" "int a + int l \<le> int rta + len" by (auto simp del: replicate.simps)
  then show ?thesis using assms(4) by (intro exI [of _ l]) simp
qed

section \<open>Link messages\<close>

text \<open>A message about a new link: its index, type, flags and name.\<close>

type_synonym link_info = "u32 \<times> nat \<times> u32 \<times> u8 list"

definition link_msg :: "nat \<Rightarrow> u8 list \<Rightarrow> link_info \<Rightarrow> bool" where
  "link_msg mx m info \<longleftrightarrow> (case info of (idx, ty, fl, s) \<Rightarrow>
     3 \<le> mx \<and> 32 \<le> length m \<and> length m < 2147483648 \<and> rd_le m 0 4 = Some (length m) \<and>
     nlmsg_type m 0 = Some RTM_NEWLINK \<and> rd_le m 18 2 = Some ty \<and>
     rd_le m 20 4 = Some (unat idx) \<and> rd_le m 24 4 = Some (unat fl) \<and> idx \<noteq> 0 \<and> length s < 16 \<and>
     (\<exists>tb left p. parse_rtattr mx m 32 (int (length m) - 32) = Some (tb, left) \<and> tb ! IFLA_IFNAME = Some p \<and>
       c_string m (p + 4) = Some s))"

lemma c_string_stored:
  assumes "c_string m q = Some s" "length s < 16" "length old = 16"
  shows "\<exists>nm. wr_bytes old 0 (s @ [0]) = Some nm \<and> length nm = 16 \<and> 0 \<in> set nm \<and> c_string nm 0 = Some s"
proof -
  have "s = takeWhile (\<lambda>b. b \<noteq> 0) (drop q m)" using assms(1) by (auto simp: c_string_def Let_def split: if_splits)
  then have s: "0 \<notin> set s" by (auto dest: set_takeWhileD)
  have "takeWhile (\<lambda>b. b \<noteq> 0) (s @ 0 # drop (Suc (length s)) old) = s" using s by (subst takeWhile_append2) auto
  then show ?thesis using assms(2,3) by (simp add: wr_bytes_def c_string_def)
qed

lemma fill_idxmap_link:
  assumes m: "link_msg mx m (idx, ty, fl, s)" and im: "good_entry im" "index im = idx"
    and p: "parse_rtattr mx m 32 (int (length m) - 32) = Some (tb, left)" "tb ! IFLA_IFNAME = Some q"
  shows "\<exists>im'. fill_idxmap m tb q im = Some im' \<and> good_entry im' \<and> 0 \<in> set (name im') \<and>
    index im' = idx \<and> im_type im' = ty \<and> flags im' = fl \<and> c_string (name im') 0 = Some s"
proof -
  have s: "c_string m (q + 4) = Some s" "length s < 16" using m p by (auto simp: link_msg_def)
  obtain nm where nm: "wr_bytes (name im) 0 (s @ [0]) = Some nm" "length nm = 16" "0 \<in> set nm" "c_string nm 0 = Some s"
    using c_string_stored [OF s] im(1) by (auto simp: good_entry_def)
  have tb: "length tb = mx + 1" using parse_loop_length p(1) by (fastforce simp: parse_rtattr_def)
  have mx: "3 \<le> mx" using m by (simp add: link_msg_def)
  have "\<exists>l ad. (case tb ! IFLA_ADDRESS of
        Some a \<Rightarrow> do {
          l \<leftarrow> rd_le m a 2;
          bs \<leftarrow> rd_bytes m (a + 4) (min (l - 4) 8);
          ad \<leftarrow> wr_bytes (addr im) 0 bs;
          Some (l - 4, ad) }
      | None \<Rightarrow> Some (0, replicate 8 0)) = Some (l, ad) \<and> length ad = 8"
  proof (cases "tb ! IFLA_ADDRESS")
    case (Some a)
    obtain l where l: "rd_le m a 2 = Some l" "4 \<le> l" "a + l \<le> length m"
      using parse_rtattr_positions [OF p(1) _ Some] mx m by (auto simp: IFLA_ADDRESS_def link_msg_def)
    have "length (addr im) = 8" using im(1) by (simp add: good_entry_def)
    then show ?thesis using l Some by (auto simp: rd_bytes_def wr_bytes_def)
  qed simp
  then obtain l ad where ad: "(case tb ! IFLA_ADDRESS of
        Some a \<Rightarrow> do {
          l \<leftarrow> rd_le m a 2;
          bs \<leftarrow> rd_bytes m (a + 4) (min (l - 4) 8);
          ad \<leftarrow> wr_bytes (addr im) 0 bs;
          Some (l - 4, ad) }
      | None \<Rightarrow> Some (0, replicate 8 0)) = Some (l, ad)" "length ad = 8" by blast
  have "rd tb IFLA_ADDRESS = Some (tb ! IFLA_ADDRESS)" using tb mx by (simp add: rd_def IFLA_ADDRESS_def)
  then have "fill_idxmap m tb q im = Some (im\<lparr>im_type := ty, flags := fl, alen := l, addr := ad, name := nm\<rparr>)"
    using m s(1) nm(1) ad(1) by (simp add: fill_idxmap_def link_msg_def)
  then show ?thesis using nm ad(2) im(2) by (simp add: good_entry_def)
qed

definition info_index :: "link_info \<Rightarrow> u32" where "info_index info = fst info"

text \<open>The tables answer for a link what a message said.\<close>

definition answers :: "ll_state \<Rightarrow> u32 \<Rightarrow> nat \<times> u32 \<times> u8 list \<Rightarrow> bool" where
  "answers st idx v \<longleftrightarrow> (\<exists>im. entry idx st = Some im \<and> im_type im = fst v \<and> flags im = fst (snd v) \<and>
     c_string (name im) 0 = Some (snd (snd v)))"

lemma small_len: "32 \<le> n \<Longrightarrow> n < 2147483648 \<Longrightarrow> sint (of_nat n - 32 :: i32) = int n - 32"
proof -
  assume n: "32 \<le> n" "n < 2147483648"
  then have "(of_nat n - 32 :: i32) = of_nat (n - 32)" by (simp add: of_nat_diff)
  moreover have "sint (of_nat (n - 32) :: i32) = int (n - 32)"
    using n unat_of_nat32 [of "n - 32"] by (subst sint_eq_unat32) simp_all
  ultimately show ?thesis using n by (simp add: of_nat_diff)
qed

lemma remember_link:
  assumes wf: "good_map st" and m: "link_msg mx m (idx, v)"
    and mem: "entry idx st = None \<Longrightarrow> \<exists>im ims. heap st = Some im # ims"
  shows "\<exists>st'. ll_remember_index mx m st = Some (0, st') \<and> good_map st' \<and> answers st' idx v \<and>
    (\<forall>j. j \<noteq> idx \<longrightarrow> entry j st' = entry j st) \<and> heap st' = (if entry idx st = None then tl (heap st) else heap st)"
proof -
  obtain ty fl s where v: "v = (ty, fl, s)" by (cases v)
  let ?h = "unat idx mod 16"
  let ?b = "idxmaps st ! ?h"
  let ?p = "idx_place idx ?b"
  note m = m [unfolded v]
  have idx: "of_nat (unat idx) = idx" by simp
  have wfb: "length (idxmaps st) = 16" "distinct (List.map index ?b)"
    "\<forall>im \<in> set ?b. unat (index im) mod 16 = ?h \<and> good_entry im \<and> 0 \<in> set (name im)"
  proof -
    have h: "?h < 16" by simp
    then show "length (idxmaps st) = 16" "distinct (List.map index ?b)" using wf unfolding good_map_def by blast+
    show "\<forall>im \<in> set ?b. unat (index im) mod 16 = ?h \<and> good_entry im \<and> 0 \<in> set (name im)"
      using wf h unfolding good_map_def by blast
  qed
  have e: "entry idx st = None \<longleftrightarrow> ?p = length ?b"
    using idx_place_le [of idx ?b] by (auto simp: entry_def find_place)
  obtain tb left q where p: "parse_rtattr mx m 32 (int (length m) - 32) = Some (tb, left)" "tb ! IFLA_IFNAME = Some q"
    using m by (auto simp: link_msg_def)
  have nm: "rd tb IFLA_IFNAME = Some (Some q)"
    using parse_loop_length p m by (fastforce simp: rd_def parse_rtattr_def link_msg_def IFLA_IFNAME_def)
  define c im where "c = (if ?p = length ?b then ?b @ [(the (hd (heap st)))\<lparr>index := idx\<rparr>] else ?b)" and "im = c ! ?p"
  have im: "good_entry im" "index im = idx" "?p < length c" "take ?p c = take ?p ?b"
  proof -
    have "good_entry im \<and> index im = idx"
    proof (cases "?p = length ?b")
      case True
      obtain g gs where "heap st = Some g # gs" using mem [OF iffD2 [OF e True]] by blast
      moreover from this wf have "good_entry g" by (auto simp: good_map_def)
      ultimately show ?thesis using True by (simp add: im_def c_def good_entry_def nth_append)
    next
      case False
      then have p: "?p < length ?b" using idx_place_le [of idx ?b] by simp
      then show ?thesis using wfb(3) idx_place_index [OF p] False by (simp add: im_def c_def)
    qed
    then show "good_entry im" "index im = idx" by simp_all
    show "?p < length c" "take ?p c = take ?p ?b" using idx_place_le [of idx ?b] by (simp_all add: c_def)
  qed
  obtain im' where im': "fill_idxmap m tb q im = Some im'" "good_entry im'" "0 \<in> set (name im')" "index im' = idx"
    "im_type im' = ty" "flags im' = fl" "c_string (name im') 0 = Some s"
    using fill_idxmap_link [OF m im(1,2) p] by blast
  define st' where "st' = st\<lparr>heap := (if entry idx st = None then tl (heap st) else heap st),
    idxmaps := (idxmaps st)[?h := c[?p := im']]\<rparr>"
  have b: "rd (idxmaps st) ?h = Some ?b" using wfb(1) by (simp add: rd_def)
  have c_at: "rd c ?p = Some im" using im(3) by (simp add: rd_def im_def)
  have "ll_remember_index mx m st = Some (0, st')"
  proof (cases "?p = length ?b")
    case True
    obtain g gs where "heap st = Some g # gs" using mem [OF iffD2 [OF e True]] by blast
    then show ?thesis using True m p(1) small_len [of "length m"] nm b im'(1) c_at e
      by (simp add: ll_remember_index_def link_msg_def malloc_idxmap_def st'_def c_def Let_def)
  next
    case False
    then have "?p < length ?b" using idx_place_le [of idx ?b] by simp
    then show ?thesis using False m p(1) small_len [of "length m"] nm b im'(1) c_at e
      by (auto simp: ll_remember_index_def link_msg_def st'_def c_def Let_def)
  qed
  moreover have idx': "entry idx st' = Some im'"
    using find_update_same [OF idx_place_le refl im'(4) im(3,4)] wfb(1) by (simp add: entry_def st'_def)
  moreover have "entry j st' = entry j st" if "j \<noteq> idx" for j
  proof (cases "unat j mod 16 = ?h")
    case True
    have "find (\<lambda>im. index im = j) (c[?p := im']) = find (\<lambda>im. index im = j) c"
      using im(2,3) im'(4) that by (intro find_update_other) (auto simp: im_def)
    also have "\<dots> = find (\<lambda>im. index im = j) ?b" using that by (simp add: c_def find_append_other)
    finally show ?thesis using True wfb(1) by (simp add: entry_def st'_def)
  next
    case False
    then show ?thesis by (simp add: entry_def st'_def)
  qed
  moreover have "good_map st'"
  proof -
    have i: "List.map index (c[?p := im']) = List.map index c" using im(2,3) im'(4)
      by (simp add: map_update im_def list_update_same_conv)
    have d: "distinct (List.map index c)" using wfb(2) idx_place_length [of idx ?b] by (auto simp: c_def)
    have "\<forall>im \<in> set (c[?p := im']). unat (index im) mod 16 = ?h \<and> good_entry im \<and> 0 \<in> set (name im)"
    proof
      fix x assume "x \<in> set (c[?p := im'])"
      then obtain k where k: "k < length c" "x = (if k = ?p then im' else c ! k)"
        by (auto simp: in_set_conv_nth nth_list_update)
      show "unat (index x) mod 16 = ?h \<and> good_entry x \<and> 0 \<in> set (name x)"
      proof (cases "k = ?p")
        case True
        then show ?thesis using k(2) im'(2-4) by simp
      next
        case False
        then have "k < length ?b" using k(1) by (simp add: c_def split: if_splits)
        then have "x \<in> set ?b" using k(2) False by (simp add: c_def nth_append split: if_splits)
        then show ?thesis using wfb(3) by blast
      qed
    qed
    moreover have "\<forall>im. Some im \<in> set (heap st') \<longrightarrow> good_entry im"
      using wf by (cases "heap st") (auto simp: st'_def good_map_def)
    ultimately show ?thesis using wf d i unfolding good_map_def
      by (simp add: st'_def nth_list_update)
  qed
  moreover have "answers st' idx v" using idx' im'(5-7) by (simp add: answers_def v)
  ultimately show ?thesis by (simp add: st'_def)
qed

text \<open>A run of messages; each link that is new takes a block of memory.\<close>

lemma fold_remember:
  "good_map st \<Longrightarrow> list_all2 (link_msg mx) ms infos \<Longrightarrow> length ms \<le> length (heap st) \<Longrightarrow>
   None \<notin> set (take (length ms) (heap st)) \<Longrightarrow>
   \<exists>st'. fold (\<lambda>m w. snd (remember_filter mx 0 m w)) ms (Some st) = Some st' \<and> good_map st' \<and>
     (\<forall>j. case map_of (rev infos) j of None \<Rightarrow> entry j st' = entry j st | Some v \<Rightarrow> answers st' j v)"
proof (induction ms arbitrary: st infos)
  case (Cons m ms)
  obtain idx v infos' where i: "infos = (idx, v) # infos'" "link_msg mx m (idx, v)" "list_all2 (link_msg mx) ms infos'"
    using Cons.prems(2) by (auto simp: list_all2_Cons1)
  obtain g gs where h: "heap st = Some g # gs"
    using Cons.prems(3,4) by (cases "heap st"; cases "hd (heap st)") auto
  obtain st1 where st1: "ll_remember_index mx m st = Some (0, st1)" "good_map st1" "answers st1 idx v"
    "\<forall>j. j \<noteq> idx \<longrightarrow> entry j st1 = entry j st" "heap st1 = (if entry idx st = None then tl (heap st) else heap st)"
    using remember_link [OF Cons.prems(1) i(2)] h by blast
  have t: "set (take (length ms) (Some g # gs)) \<subseteq> set (take (Suc (length ms)) (Some g # gs))"
    by (rule set_take_subset_set_take) simp
  have "length ms \<le> length (heap st1)" "None \<notin> set (take (length ms) (heap st1))"
    using st1(5) h Cons.prems(3,4) t by (auto split: if_splits)
  from Cons.IH [OF st1(2) i(3) this] obtain st' where
    st': "fold (\<lambda>m w. snd (remember_filter mx 0 m w)) ms (Some st1) = Some st'" "good_map st'"
    "\<forall>j. case map_of (rev infos') j of None \<Rightarrow> entry j st' = entry j st1 | Some v \<Rightarrow> answers st' j v" by blast
  have "case map_of (rev infos) j of None \<Rightarrow> entry j st' = entry j st | Some v \<Rightarrow> answers st' j v" for j
  proof (cases "map_of (rev infos') j")
    case None
    then have e: "entry j st' = entry j st1" using st'(3) by (auto dest: spec [of _ j])
    show ?thesis
    proof (cases "j = idx")
      case True
      then have "map_of (rev infos) j = Some v" using None i(1) by (simp add: map_add_def)
      then show ?thesis using st1(3) e True by (simp add: answers_def)
    next
      case False
      then have "map_of (rev infos) j = None" using None i(1) by (simp add: map_add_def)
      then show ?thesis using st1(4) e False by simp
    qed
  next
    case (Some u)
    then have "map_of (rev infos) j = Some u" using i(1) by (simp add: map_add_def)
    moreover have "answers st' j u" using st'(3) Some by (auto dest: spec [of _ j])
    ultimately show ?thesis by simp
  qed
  moreover have "fold (\<lambda>m w. snd (remember_filter mx 0 m w)) (m # ms) (Some st) = Some st'"
    using st1(1) st'(1) by (simp add: remember_filter_def)
  ultimately show ?case using st'(2) by blast
qed simp

lemma remember_accepts: "link_msg mx m info \<Longrightarrow> 0 \<le> fst (remember_filter mx 0 m w)"
proof -
  assume m: "link_msg mx m info"
  obtain idx ty fl s where i: "info = (idx, ty, fl, s)" by (cases info)
  have "0 \<le> r" if "ll_remember_index mx m st = Some (r, st')" for st r st'
  proof -
    obtain new st2 where "malloc_idxmap st = (new, st2)" by fastforce
    then show ?thesis
      using that m unfolding i link_msg_def ll_remember_index_def
      by (cases new) (auto simp: bind_Some_iff Let_def split: if_splits option.splits)
  qed
  then show ?thesis by (auto simp: remember_filter_def split: option.splits prod.splits)
qed

section \<open>Lookup by name\<close>

lemma find_name_spec:
  "\<forall>im \<in> set ims. 0 \<in> set (name im) \<Longrightarrow> find_name s ims = Some (find (\<lambda>im. c_string (name im) 0 = Some s) ims)"
  by (induction ims) (auto simp: c_string_def)

lemma good_map_names: "good_map st \<Longrightarrow> im \<in> set (concat (idxmaps st)) \<Longrightarrow> 0 \<in> set (name im) \<and> good_entry im"
proof -
  assume st: "good_map st" and "im \<in> set (concat (idxmaps st))"
  then obtain h where "h < length (idxmaps st)" "im \<in> set (idxmaps st ! h)" by (auto simp: in_set_conv_nth [of _ "idxmaps st"])
  then show ?thesis using st unfolding good_map_def by auto
qed

text \<open>A name that is not the cached one is searched in all buckets; the system is asked when it is in none.\<close>

lemma ll_name_to_index_uncached:
  assumes "good_map st" "icache st = 0 \<or> (\<exists>c. c_string (ncache st) 0 = Some c \<and> c \<noteq> s)"
    and "length (ncache st) = 16" "length s < 16"
  shows "\<exists>st'. ll_name_to_index f (Some s) st =
      Some (case find (\<lambda>im. c_string (name im) 0 = Some s) (concat (idxmaps st)) of None \<Rightarrow> f s | Some im \<Rightarrow> index im, st') \<and>
    idxmaps st' = idxmaps st"
proof -
  have f: "find_name s (concat (idxmaps st)) = Some (find (\<lambda>im. c_string (name im) 0 = Some s) (concat (idxmaps st)))"
    using good_map_names [OF assms(1)] by (intro find_name_spec) blast
  obtain c where "wr_bytes (ncache st) 0 (s @ [0]) = Some c" using assms(3,4) by (simp add: wr_bytes_def)
  then show ?thesis using f assms(2) by (auto simp: ll_name_to_index_def split: option.split)
qed

text \<open>The cached name answers without a look at the table, whatever messages have come since.\<close>

lemma ll_name_to_index_stale:
  assumes "icache st \<noteq> 0" "c_string (ncache st) 0 = Some s"
  shows "ll_name_to_index f (Some s) (st\<lparr>idxmaps := any\<rparr>) = Some (icache st, st\<lparr>idxmaps := any\<rparr>)"
  using assms by (simp add: ll_name_to_index_def)

section \<open>Properties\<close>

text \<open>
  C20: \<open>ll_init_map\<close> on a dump of link messages returns 0 with a table that answers type, flags and name of every
  link from the last message about it, and keeps the entries of the others; the dump may come in any number
  of datagrams, none of them empty, with retried receives and messages for other handles.  This needs memory for an
  entry for each message (\<open>heap\<close> holds what \<open>malloc\<close> gives), and of each message what \<open>link_msg\<close> says: all its
  attributes in place, an index other than 0, and a terminated name of less than 16 bytes.
\<close>

theorem ll_init_map_answers:
  fixes rth
  defines "rth' \<equiv> rth\<lparr>seq := seq rth + 1, dump := seq rth + 1\<rparr>"
  assumes "good_map st" "0 \<le> send (nlmsghdr 20 RTM_GETLINK NLM_F_DUMP_REQUEST (unat (seq rth + 1)) 0 @ [0, 0, 0, 0])"
    and "\<forall>ms \<in> set dss. ms \<noteq> [] \<and> (\<forall>m \<in> set ms. plain rth' m)" "\<forall>m \<in> set fin. plain rth' m"
    and "good_msg e" "mine rth' e" "type_of e = NLMSG_DONE"
    and "filter (\<lambda>r. r \<noteq> Failed) rs = map kernel_datagram dss @ kernel_datagram (fin @ e # rest) # later"
    and "list_all2 (link_msg mx) (filter (mine rth') (concat dss @ fin)) infos"
    and "length infos \<le> length (heap st)" "None \<notin> set (take (length infos) (heap st))"
  shows "\<exists>st'. ll_init_map mx old send rth rs (Some st) = Some (Return 0 (Some st'), rth') \<and> good_map st' \<and>
    (\<forall>j v. map_of (rev infos) j = Some v \<longrightarrow> ll_index_to_type j st' = int (fst v) \<and>
      ll_index_to_flags j st' = fst (snd v) \<and> ll_index_to_name j st' = Some (snd (snd v))) \<and>
    (\<forall>j. map_of (rev infos) j = None \<longrightarrow> entry j st' = entry j st)"
proof -
  let ?ms = "filter (mine rth') (concat dss @ fin)"
  have len: "length ?ms = length infos" using assms(10) by (rule list_all2_lengthD)
  obtain st' where st': "fold (\<lambda>m w. snd (remember_filter mx 0 m w)) ?ms (Some st) = Some st'" "good_map st'"
    "\<forall>j. case map_of (rev infos) j of None \<Rightarrow> entry j st' = entry j st | Some v \<Rightarrow> answers st' j v"
    using fold_remember [OF assms(2) assms(10)] assms(11,12) unfolding len by blast
  have link: "\<exists>info \<in> set infos. link_msg mx m info" if "m \<in> set ?ms" for m
    using that assms(10) by (metis in_set_conv_nth len list_all2_nthD nth_mem)
  then have acc: "accepts (remember_filter mx) rth' (concat dss @ fin)"
    unfolding accepts_def using remember_accepts by fastforce
  have dump: "nl_dump_loop (remember_filter mx) None rth' old rs (Some st) = Some (Return 0 (Some st'))"
    using dump_loop_deliver [where flt = "remember_filter mx" and rth = rth' and dss = dss and fin = fin and e = e and rest = rest,
        OF assms(5-8) acc assms(4,9)] st'(1) by (simp add: deliver_def)
  have "ll_init_map mx old send rth rs (Some st) = Some (Return 0 (Some st'), rth')"
    using assms(3) dump by (simp add: ll_init_map_def rtnl_wilddump_request_def rtnl_dump_filter_def rth'_def Let_def)
  moreover have "ll_index_to_type j st' = int (fst v) \<and> ll_index_to_flags j st' = fst (snd v) \<and> ll_index_to_name j st' = Some (snd (snd v))"
    if "map_of (rev infos) j = Some v" for j v
  proof -
    have "answers st' j v" using st'(3) that by (auto dest: spec [of _ j])
    moreover have "j \<noteq> 0"
    proof -
      have "(j, v) \<in> set infos" using map_of_SomeD [OF that] by simp
      then obtain m where "link_msg mx m (j, v)" using assms(10) len
        by (metis in_set_conv_nth list_all2_nthD2)
      then show ?thesis by (cases v) (simp add: link_msg_def)
    qed
    ultimately show ?thesis
      by (auto simp: answers_def ll_index_to_type_def ll_index_to_flags_def ll_index_to_name_def ll_idx_n2a_def)
  qed
  moreover have "entry j st' = entry j st" if "map_of (rev infos) j = None" for j
    using st'(3) that by (auto dest: spec [of _ j])
  ultimately show ?thesis using st'(2) by blast
qed

text \<open>The link \<open>eth0\<close>, and the end of the dump.\<close>

definition sample_link :: "u8 list" where
  "sample_link = [44, 0, 0, 0, 16, 0, 0, 0, 6, 0, 0, 0, 77, 0, 0, 0, 0, 0, 1, 0, 2, 0, 0, 0, 65, 0, 0, 0, 0, 0, 0, 0,
     9, 0, 3, 0, 101, 116, 104, 48, 0, 0, 0, 0]"

definition sample_end :: "u8 list" where
  "sample_end = [16, 0, 0, 0, 3, 0, 0, 0, 6, 0, 0, 0, 77, 0, 0, 0]"

definition sample_map :: ll_state where
  "sample_map = \<lparr>idxmaps = replicate 16 [], ncache = replicate 16 0, icache = 0,
     heap = [Some \<lparr>index = 9, im_type = 9, alen = 9, flags = 9, addr = replicate 8 9, name = replicate 16 9\<rparr>]\<rparr>"

lemma sample_link_ok:
  "link_msg 3 sample_link (2, 1, 65, [101, 116, 104, 48])" "good_msg sample_link" "type_of sample_link = RTM_NEWLINK"
  "mine (sample_handle\<lparr>seq := 6, dump := 6\<rparr>) sample_link"
  "good_msg sample_end" "type_of sample_end = NLMSG_DONE" "mine (sample_handle\<lparr>seq := 6, dump := 6\<rparr>) sample_end"
proof -
  have "parse_rtattr 3 sample_link 32 12 = Some ([None, None, None, Some 32], 0)" by code_simp
  moreover have "rd_le sample_link 18 2 = Some 1" "rd_le sample_link 20 4 = Some 2" "rd_le sample_link 24 4 = Some 65"
    "c_string sample_link 36 = Some [101, 116, 104, 48]" by code_simp+
  moreover have l: "length sample_link = 44" "rd_le sample_link 0 4 = Some 44" "rd_le sample_link 4 2 = Some 16"
    "rd_le sample_link 12 4 = Some 77" "rd_le sample_link 8 4 = Some 6" by code_simp+
  ultimately show "link_msg 3 sample_link (2, 1, 65, [101, 116, 104, 48])"
    by (simp add: link_msg_def nlmsg_type_def RTM_NEWLINK_def IFLA_IFNAME_def)
  show "good_msg sample_link" "type_of sample_link = RTM_NEWLINK" "mine (sample_handle\<lparr>seq := 6, dump := 6\<rparr>) sample_link"
    using l by (simp_all add: good_msg_def type_of_def RTM_NEWLINK_def mine_def sample_handle_def)
  have "length sample_end = 16" "rd_le sample_end 0 4 = Some 16" "rd_le sample_end 4 2 = Some 3"
    "rd_le sample_end 12 4 = Some 77" "rd_le sample_end 8 4 = Some 6" by code_simp+
  then show "good_msg sample_end" "type_of sample_end = NLMSG_DONE" "mine (sample_handle\<lparr>seq := 6, dump := 6\<rparr>) sample_end"
    by (simp_all add: good_msg_def type_of_def NLMSG_DONE_def mine_def sample_handle_def)
qed

lemma ll_init_map_answers_witness:
  "\<exists>st'. ll_init_map 3 (replicate 16384 0) (\<lambda>m. 20) sample_handle
       [Failed, kernel_datagram [sample_link], kernel_datagram [sample_end]] (Some sample_map) =
       Some (Return 0 (Some st'), sample_handle\<lparr>seq := 6, dump := 6\<rparr>) \<and>
     ll_index_to_type 2 st' = 1 \<and> ll_index_to_name 2 st' = Some [101, 116, 104, 48]"
proof -
  let ?infos = "[(2, 1, 65, [101, 116, 104, 48])] :: link_info list"
  have h: "seq sample_handle + 1 = 6" by (simp add: sample_handle_def)
  have g: "good_map sample_map" by (auto simp: good_map_def sample_map_def good_entry_def)
  have p: "plain (sample_handle\<lparr>seq := 6, dump := 6\<rparr>) sample_link"
    using sample_link_ok(2,3) by (simp add: plain_def RTM_NEWLINK_def NLMSG_DONE_def NLMSG_ERROR_def)
  have "\<exists>st'. ll_init_map 3 (replicate 16384 0) (\<lambda>m. 20) sample_handle
       [Failed, kernel_datagram [sample_link], kernel_datagram [sample_end]] (Some sample_map) =
       Some (Return 0 (Some st'), sample_handle\<lparr>seq := seq sample_handle + 1, dump := seq sample_handle + 1\<rparr>) \<and> good_map st' \<and>
    (\<forall>j v. map_of (rev ?infos) j = Some v \<longrightarrow> ll_index_to_type j st' = int (fst v) \<and>
      ll_index_to_flags j st' = fst (snd v) \<and> ll_index_to_name j st' = Some (snd (snd v))) \<and>
    (\<forall>j. map_of (rev ?infos) j = None \<longrightarrow> entry j st' = entry j sample_map)"
    by (rule ll_init_map_answers [where dss = "[[sample_link]]" and fin = "[]" and e = sample_end and rest = "[]" and later = "[]"])
      (use h g p sample_link_ok in \<open>simp_all add: kernel_datagram_def sample_map_def\<close>)
  then show ?thesis unfolding h by force
qed

end
