(* ===== verification/RtmMap.thy ===== *)
theory RtmMap
  imports NetUtils
begin

text \<open>
  The names of route types and the realms of routes: \<open>src/netlink/rtm_map.c\<close>.  \<open>rtnl_rtrealm_a2n\<close> is not
  part of the sources and an argument.
\<close>

section \<open>Route types\<close>

definition RTN_UNSPEC :: int where "RTN_UNSPEC = 0"
definition RTN_UNICAST :: int where "RTN_UNICAST = 1"
definition RTN_LOCAL :: int where "RTN_LOCAL = 2"
definition RTN_BROADCAST :: int where "RTN_BROADCAST = 3"
definition RTN_ANYCAST :: int where "RTN_ANYCAST = 4"
definition RTN_MULTICAST :: int where "RTN_MULTICAST = 5"
definition RTN_BLACKHOLE :: int where "RTN_BLACKHOLE = 6"
definition RTN_UNREACHABLE :: int where "RTN_UNREACHABLE = 7"
definition RTN_PROHIBIT :: int where "RTN_PROHIBIT = 8"
definition RTN_THROW :: int where "RTN_THROW = 9"
definition RTN_NAT :: int where "RTN_NAT = 10"
definition RTN_XRESOLVE :: int where "RTN_XRESOLVE = 11"

lemmas RTN_defs = RTN_UNSPEC_def RTN_UNICAST_def RTN_LOCAL_def RTN_BROADCAST_def RTN_ANYCAST_def RTN_MULTICAST_def
  RTN_BLACKHOLE_def RTN_UNREACHABLE_def RTN_PROHIBIT_def RTN_THROW_def RTN_NAT_def RTN_XRESOLVE_def

text \<open>The name of a type; the number when it has none, cut to the buffer of \<open>len\<close> bytes.\<close>

definition rtnl_rtntype_n2a :: "i32 \<Rightarrow> nat \<Rightarrow> string" where
  "rtnl_rtntype_n2a ident len =
     (if sint ident = RTN_UNSPEC then ''none''
      else if sint ident = RTN_UNICAST then ''unicast''
      else if sint ident = RTN_LOCAL then ''local''
      else if sint ident = RTN_BROADCAST then ''broadcast''
      else if sint ident = RTN_ANYCAST then ''anycast''
      else if sint ident = RTN_MULTICAST then ''multicast''
      else if sint ident = RTN_BLACKHOLE then ''blackhole''
      else if sint ident = RTN_UNREACHABLE then ''unreachable''
      else if sint ident = RTN_PROHIBIT then ''prohibit''
      else if sint ident = RTN_THROW then ''throw''
      else if sint ident = RTN_NAT then ''nat''
      else if sint ident = RTN_XRESOLVE then ''xresolve''
      else snprintf_cut len (fmt_d ident))"

text \<open>The number of a name, of a prefix of most names, or of a numeral; \<open>None\<close> for the result \<open>-1\<close>.\<close>

definition rtnl_rtntype_a2n :: "string \<Rightarrow> int option" where
  "rtnl_rtntype_a2n arg =
     (if arg = ''local'' then Some RTN_LOCAL
      else if arg = ''nat'' then Some RTN_NAT
      else if cmd_matches arg ''broadcast'' = 0 \<or> arg = ''brd'' then Some RTN_BROADCAST
      else if cmd_matches arg ''anycast'' = 0 then Some RTN_ANYCAST
      else if cmd_matches arg ''multicast'' = 0 then Some RTN_MULTICAST
      else if cmd_matches arg ''prohibit'' = 0 then Some RTN_PROHIBIT
      else if cmd_matches arg ''unreachable'' = 0 then Some RTN_UNREACHABLE
      else if cmd_matches arg ''blackhole'' = 0 then Some RTN_BLACKHOLE
      else if cmd_matches arg ''xresolve'' = 0 then Some RTN_XRESOLVE
      else if cmd_matches arg ''unicast'' = 0 then Some RTN_UNICAST
      else if arg = ''throw'' then Some RTN_THROW
      else let (res, end', range) = strtoul 0 arg
           in if end' = arg \<or> end' \<noteq> [] \<or> 255 < res then None else Some (uint res))"

section \<open>Realms\<close>

text \<open>
  \<open>realm_a2n\<close> gets the variable's value and the text and gives the result and the new value.  The text is
  changed and restored; the result is the return value and \<open>realms\<close>.
\<close>

definition get_rt_realms :: "(u32 \<Rightarrow> string \<Rightarrow> int \<times> u32) \<Rightarrow> string \<Rightarrow> int \<times> u32" where
  "get_rt_realms realm_a2n arg =
     (let (r, realms, arg) =
        (case split_slash arg of
           (pre, Some post) \<Rightarrow>
             let (r, realms) = realm_a2n 0 pre
             in if r \<noteq> 0 then (- 1, realms, arg) else (0, push_bit 16 realms, post)
         | (pre, None) \<Rightarrow> (0, 0, arg))
      in if r \<noteq> 0 then (r, realms)
         else if arg = [] then (0, realms)
         else let (r, realm) = realm_a2n 0 arg
              in if r \<noteq> 0 then (- 1, realms) else (0, realms OR realm))"

section \<open>Lemmas\<close>

lemma digits_hd_zero: "hd (digits 10 n) = 0 \<longleftrightarrow> n = 0"
proof (induction n rule: less_induct)
  case (less n)
  show ?case
  proof (cases "n < 10")
    case True
    then show ?thesis by (subst digits.simps) simp
  next
    case False
    then have "digits 10 n = digits 10 (n div 10) @ [n mod 10]" by (subst digits.simps) simp
    then have "hd (digits 10 n) = hd (digits 10 (n div 10))" using digits_nonempty [of 10 "n div 10"] by simp
    moreover have "n div 10 < n" "n div 10 \<noteq> 0" using False by simp_all
    ultimately show ?thesis using less.IH [of "n div 10"] False by simp
  qed
qed

lemma hd_dec: "hd (dec n) = digit_char (hd (digits 10 n))" "hd (digits 10 n) < 10"
  using digits_less [of "hd (digits 10 n)" 10 n] digits_nonempty [of 10 n] by (simp_all add: dec_digits hd_map)

lemma scan_int_dec_0: "scan_int 0 (dec n) = (False, n, True, [])"
proof (cases "n = 0")
  case True
  have "scan_int 0 ''0'' = (False, 0, True, [])" by code_simp
  moreover have "dec 0 = ''0''" by code_simp
  ultimately show ?thesis using True by simp
next
  case False
  obtain c s where cs: "dec n = c # s" using dec_nonempty [of n] by (cases "dec n") auto
  then have c: "c = digit_char (hd (digits 10 n))" using hd_dec(1) [of n] by simp
  then have n0: "c \<noteq> CHR ''0''"
  proof -
    have "digit_char 0 = CHR ''0''" by code_simp
    then show ?thesis
      using c hd_dec(2) [of n] digits_hd_zero [of n] False digit_char_inj [of "hd (digits 10 n)" 0] by auto
  qed
  then have h: "\<not> hex_prefix (c # s)" by (auto simp: hex_prefix_def split: list.splits)
  have sp: "\<not> is_space c" "c \<noteq> CHR ''-''" "c \<noteq> CHR ''+''"
    using digit_char_not_space [of "hd (digits 10 n)"] digit_char_not_sign [of "hd (digits 10 n)"] hd_dec(2) [of n] c by auto
  have "scan_int 0 (c # s) = scan_int 10 (c # s)"
    using n0 h sp by (simp add: scan_int_def Let_def hd0_def)
  then show ?thesis using scan_int_dec [of "[]" n] cs by simp
qed

lemma strtoul_dec_0: "n \<le> ULONG_MAX \<Longrightarrow> strtoul 0 (dec n) = (of_nat n, [], False)"
  by (simp add: strtoul_def scan_int_dec_0)

lemma cmd_matches_hd: "c \<noteq> d \<Longrightarrow> cmd_matches (c # s) (d # p) \<noteq> 0"
proof -
  assume "c \<noteq> d"
  have u: "unat (byte_of x) = of_char x" for x
    unfolding byte_of_def by (simp add: unat_of_nat)
  have "byte_of c \<noteq> byte_of d" using u [of c] u [of d] \<open>c \<noteq> d\<close> by (metis of_char_eq_iff)
  then show ?thesis
    by (auto simp: cmd_matches_def Let_def memcmp_0 length_take)
qed

text \<open>
  Every type from 1 to 255 is read back from its printed form; 0 is printed as \<open>none\<close>, which is not read.
\<close>

lemma rtntype_named: 
  assumes "1 \<le> n" "n < 12"
  shows "rtnl_rtntype_a2n (rtnl_rtntype_n2a (of_nat n) len) = Some (int n)"
proof -
  have "n = 1 \<or> n = 2 \<or> n = 3 \<or> n = 4 \<or> n = 5 \<or> n = 6 \<or> n = 7 \<or> n = 8 \<or> n = 9 \<or> n = 10 \<or> n = 11" using assms by presburger
  then show ?thesis
    by (elim disjE; simp add: rtnl_rtntype_n2a_def RTN_defs; code_simp)
qed

lemma rtntype_number:
  assumes "12 \<le> n" "n \<le> 255" "4 \<le> len"
  shows "rtnl_rtntype_a2n (rtnl_rtntype_n2a (of_nat n) len) = Some (int n)"
proof -
  have u: "unat (of_nat n :: i32) = n" using assms(2) by (intro unat_of_nat32) simp
  then have si: "sint (of_nat n :: i32) = int n" using assms(2) by (subst sint_eq_unat32) simp_all
  have "length (dec n) \<le> 3" using assms(2) by (intro length_dec) simp_all
  then have p: "rtnl_rtntype_n2a (of_nat n) len = dec n"
    using si assms(1,3) by (simp add: rtnl_rtntype_n2a_def RTN_defs fmt_d_def snprintf_cut_def)
  obtain c s where cs: "dec n = c # s" using dec_nonempty [of n] by (cases "dec n") auto
  then have "is_digit c" using dec_is_digit [of c n] by simp
  then have c: "(of_char c :: nat) \<le> 57" by (simp add: is_digit_def)
  then have "c \<notin> {CHR ''l'', CHR ''n'', CHR ''b'', CHR ''a'', CHR ''m'', CHR ''p'', CHR ''u'', CHR ''x'', CHR ''t''}" by auto
  moreover have "unat (of_nat n :: u64) = n" using assms(2) by (simp add: unat_of_nat)
  then have "\<not> 255 < (of_nat n :: u64)" "uint (of_nat n :: u64) = int n" using assms(2)
    by (simp_all add: word_less_nat_alt) (metis of_nat_unat)
  ultimately show ?thesis
    unfolding p cs rtnl_rtntype_a2n_def
    using strtoul_dec_0 [of n] cs assms(2) by (simp add: cmd_matches_hd ULONG_MAX_def)
qed

lemma rtntype_roundtrip:
  assumes "1 \<le> n" "n \<le> 255" "4 \<le> len"
  shows "rtnl_rtntype_a2n (rtnl_rtntype_n2a (of_nat n) len) = Some (int n)"
  using assms rtntype_named [of n len] rtntype_number [of n len] by (cases "n < 12") simp_all

text \<open>The name of type 0 is not read, and the empty text is a prefix of \<open>broadcast\<close>.\<close>

lemma rtntype_oddities: "rtnl_rtntype_a2n (rtnl_rtntype_n2a 0 4) = None" "rtnl_rtntype_a2n [] = Some RTN_BROADCAST"
proof -
  have "scan_int 0 ''none'' = (False, 0, False, ''none'')" by code_simp
  then have "strtoul 0 ''none'' = (0, ''none'', False)" by (simp add: strtoul_def)
  then show "rtnl_rtntype_a2n (rtnl_rtntype_n2a 0 4) = None"
    by (simp add: rtnl_rtntype_n2a_def RTN_UNSPEC_def rtnl_rtntype_a2n_def cmd_matches_hd)
  show "rtnl_rtntype_a2n [] = Some RTN_BROADCAST" by code_simp
qed

text \<open>A pair of realms, each of 16 bits, is read into the halves of a word.\<close>

lemma get_rt_realms_pair:
  assumes "CHR ''/'' \<notin> set s" "a2n 0 s = (0, r)" "a2n 0 t = (0, r')" "t \<noteq> []" "unat r < 65536" "unat r' < 65536"
  shows "\<exists>realms. get_rt_realms a2n (s @ CHR ''/'' # t) = (0, realms) \<and> unat realms = unat r * 65536 + unat r'"
proof -
  have u: "unat (push_bit 16 r) = unat r * 65536"
    using assms(5) by (simp add: push_bit_eq_mult unat_word_ariths)
  have "\<not> bit (push_bit 16 r) n \<or> \<not> bit r' n" for n
  proof (cases "n < 16")
    case False
    then have "(2 :: nat) ^ 16 \<le> 2 ^ n" by (intro power_increasing) simp_all
    then have "unat r' < 2 ^ n" using assms(6) by simp
    then have "\<not> bit (unat r') n" by (simp add: bit_iff_odd)
    then show ?thesis by (simp add: bit_unsigned_iff)
  qed (simp add: bit_push_bit_iff)
  then have "push_bit 16 r OR r' = push_bit 16 r + r'" by (simp add: disjunctive_add)
  moreover have "unat (push_bit 16 r + r') = unat r * 65536 + unat r'"
    using u assms(5,6) by (simp add: unat_word_ariths)
  ultimately show ?thesis using assms(1-4) by (simp add: get_rt_realms_def split_slash_at)
qed

end
