(* ===== verification/Syslog.thy ===== *)
theory Syslog
  imports CText
begin

text \<open>
  The client side of the system log, \<open>src/syslog/syslog.c\<close> as it is built, with the C library's memory
  streams.  The static variables are the state; \<open>out\<close> is the trace of what has been written where.  The results
  of the system calls are arguments.  The lock is not modelled: the calls are taken one after the other.
\<close>

section \<open>State\<close>

definition LOG_PRIMASK :: u32 where "LOG_PRIMASK = 0x07"
definition LOG_FACMASK :: u32 where "LOG_FACMASK = 0x03f8"
definition LOG_PID :: u32 where "LOG_PID = 0x01"
definition LOG_CONS :: u32 where "LOG_CONS = 0x02"
definition LOG_NDELAY :: u32 where "LOG_NDELAY = 0x08"
definition LOG_PERROR :: u32 where "LOG_PERROR = 0x20"
definition LOG_ERR :: u32 where "LOG_ERR = 3"
definition LOG_USER :: u32 where "LOG_USER = 8"
definition SOCK_STREAM :: nat where "SOCK_STREAM = 1"
definition SOCK_DGRAM :: nat where "SOCK_DGRAM = 2"
definition EPROTOTYPE :: int where "EPROTOTYPE = 91"

lemmas LOG_defs = LOG_PRIMASK_def LOG_FACMASK_def LOG_PID_def LOG_CONS_def LOG_NDELAY_def LOG_PERROR_def LOG_ERR_def
  LOG_USER_def

text \<open>The macro is used as an argument, where its lack of parentheses does no harm.\<close>

definition INTERNALLOG :: u32 where
  "INTERNALLOG = LOG_ERR OR LOG_CONS OR LOG_PERROR OR LOG_PID"

text \<open>Standard output, standard error, the bytes sent on a descriptor, the console, and a descriptor closed.\<close>

datatype event = Stdout string | Stderr string | Send int string | Console string | Close int

record log_state =
  LogType :: nat
  LogFile :: int
  connected :: bool
  LogStat :: u32
  LogTag :: "string option"
  LogFacility :: u32
  LogMask :: u32
  out :: "event list"

definition initial :: log_state where
  "initial = \<lparr>LogType = SOCK_DGRAM, LogFile = - 1, connected = False, LogStat = 0, LogTag = None,
     LogFacility = LOG_USER, LogMask = 0xff, out = []\<rparr>"

text \<open>
  What the system answers: \<open>socket\<close> for a type; \<open>connect\<close> with the error when it fails; \<open>send\<close>, which may
  also raise a signal for a broken pipe; whether the console can be opened; the date, the process and the
  program's name.
\<close>

datatype send_result = Sent | Not_sent | Broken_pipe

record log_env =
  socket_result :: "nat \<Rightarrow> int"
  connect_error :: "nat \<Rightarrow> int option"
  send_result :: send_result
  console_opens :: bool
  datestring :: string
  getpid :: i32
  progname :: "string option"

definition emit :: "event \<Rightarrow> log_state \<Rightarrow> log_state" where
  "emit e st = st\<lparr>out := out st @ [e]\<rparr>"

section \<open>Opening and closing\<close>

definition closelog_internal :: "log_state \<Rightarrow> log_state" where
  "closelog_internal st = (emit (Close (LogFile st)) st)\<lparr>LogFile := - 1, connected := False\<rparr>"

text \<open>
  The loop retries with the other type of socket when the first does not fit the logger's.  The code sets
  \<open>SOCK_STREAM\<close> only from \<open>SOCK_DGRAM\<close>, so it ends.
\<close>

function connect_loop :: "log_env \<Rightarrow> log_state \<Rightarrow> log_state" where
  "connect_loop env st =
     (let (st, failed) =
        (if LogFile st = - 1 \<and> LogStat st AND LOG_NDELAY \<noteq> 0
         then (st\<lparr>LogFile := socket_result env (LogType st)\<rparr>, socket_result env (LogType st) = - 1)
         else (st, False))
      in if failed then st
         else if LogFile st \<noteq> - 1 \<and> \<not> connected st then
           (case connect_error env (LogType st) of
              Some saved_errno \<Rightarrow>
                (let st = (emit (Close (LogFile st)) st)\<lparr>LogFile := - 1\<rparr>
                 in if LogType st = SOCK_DGRAM \<and> saved_errno = EPROTOTYPE
                    then connect_loop env (st\<lparr>LogType := SOCK_STREAM\<rparr>)
                    else st)
            | None \<Rightarrow> st\<lparr>connected := True\<rparr>)
         else st)"
  by pat_completeness auto
termination
  by (relation "measure (\<lambda>(env, st). if LogType st = SOCK_DGRAM then 1 else 0)")
    (auto simp: SOCK_DGRAM_def SOCK_STREAM_def emit_def split: if_splits)

declare connect_loop.simps [simp del]

definition openlog_internal :: "log_env \<Rightarrow> string option \<Rightarrow> u32 \<Rightarrow> u32 \<Rightarrow> log_state \<Rightarrow> log_state" where
  "openlog_internal env ident logstat logfac st =
     (let st = (case ident of None \<Rightarrow> st | Some i \<Rightarrow> st\<lparr>LogTag := Some i\<rparr>);
          st = st\<lparr>LogStat := logstat\<rparr>;
          st = (if logfac \<noteq> 0 \<and> logfac AND NOT LOG_FACMASK = 0 then st\<lparr>LogFacility := logfac\<rparr> else st)
      in connect_loop env st)"

definition openlog :: "log_env \<Rightarrow> string option \<Rightarrow> u32 \<Rightarrow> u32 \<Rightarrow> log_state \<Rightarrow> log_state" where
  "openlog env ident logstat logfac st = openlog_internal env ident logstat logfac st"

definition sigpipe_handler :: "log_state \<Rightarrow> log_state" where
  "sigpipe_handler st = closelog_internal st"

definition closelog :: "log_state \<Rightarrow> log_state" where
  "closelog st = closelog_internal st"

definition setlogmask :: "u32 \<Rightarrow> log_state \<Rightarrow> u32 \<times> log_state" where
  "setlogmask pmask st = (LogMask st, if pmask \<noteq> 0 then st\<lparr>LogMask := pmask\<rparr> else st)"

section \<open>Logging\<close>

definition LOG_MASK :: "u32 \<Rightarrow> u32" where
  "LOG_MASK pri = push_bit (unat pri) 1"

definition LOG_PRI :: "u32 \<Rightarrow> u32" where
  "LOG_PRI pri = pri AND LOG_PRIMASK"

text \<open>The message: the part up to \<open>msgoff\<close>, which goes to the logger only, and the rest.\<close>

definition message_head :: "log_env \<Rightarrow> u32 \<Rightarrow> string" where
  "message_head env pri = ''<'' @ fmt_d pri @ ''>'' @ datestring env @ '' ''"

definition message_body :: "log_env \<Rightarrow> log_state \<Rightarrow> string \<Rightarrow> string" where
  "message_body env st text =
     (case LogTag st of None \<Rightarrow> [] | Some t \<Rightarrow> t) @
     (if LogStat st AND LOG_PID \<noteq> 0 then ''['' @ fmt_d (getpid env) @ '']'' else []) @
     (if LogTag st = None then [] else '': '') @ text"

text \<open>
  The body of \<open>vsyslog\<close> behind the checks: build the message, write it, and give it to the logger or the
  console.  For a stream the terminator of the buffer is sent too.
\<close>

definition log_message :: "log_env \<Rightarrow> u32 \<Rightarrow> string \<Rightarrow> log_state \<Rightarrow> log_state" where
  "log_message env pri text st =
     (let st = (if LogTag st = None then st\<lparr>LogTag := progname env\<rparr> else st);
          body = message_body env st text;
          buf = message_head env pri @ body;
          st = (if LogStat st AND LOG_PERROR \<noteq> 0 then emit (Stderr (body @ [CHR 0x0A])) st else st);
          st = (if \<not> connected st then openlog_internal env (LogTag st) (LogStat st OR LOG_NDELAY) 0 st else st);
          data = (if LogType st = SOCK_STREAM then buf @ [NUL] else buf)
      in case send_result env of
           Sent \<Rightarrow> emit (Send (LogFile st) data) st
         | r \<Rightarrow>
             let st = (if r = Broken_pipe then sigpipe_handler st else st);
                 st = closelog_internal st
             in if LogStat st AND LOG_CONS \<noteq> 0 \<and> console_opens env
                then emit (Console (body @ [CHR 0x0D, CHR 0x0A])) st else st)"

text \<open>The check of the mask, which both outcomes report on standard output, and the default facility.\<close>

definition log_checked :: "log_env \<Rightarrow> u32 \<Rightarrow> string \<Rightarrow> log_state \<Rightarrow> log_state" where
  "log_checked env pri text st =
     (let nums = ''LOG_MASK(LOG_PRI('' @ fmt_d pri @ ''))='' @ fmt_d (LOG_MASK (LOG_PRI pri)) @ '', LogMask='' @
            fmt_d (LogMask st) @ '')'' @ [CHR 0x0A]
      in if LOG_MASK (LOG_PRI pri) AND LogMask st = 0
         then emit (Stdout (''Failed logmask check, return! '' @ nums)) st
         else
           let st = emit (Stdout (''logmask check ok: '' @ nums)) st;
               pri = (if pri AND LOG_FACMASK = 0 then pri OR LogFacility st else pri)
           in log_message env pri text st)"

text \<open>
  \<open>text\<close> is the formatted message.  Unknown bits of \<open>pri\<close> are themselves logged, at the next level of \<open>env\<close>.
\<close>

function vsyslog :: "(nat \<Rightarrow> log_env) \<Rightarrow> nat \<Rightarrow> u32 \<Rightarrow> string \<Rightarrow> log_state \<Rightarrow> log_state" where
  "vsyslog env d pri text st =
     (if pri AND NOT (LOG_PRIMASK OR LOG_FACMASK) \<noteq> 0
      then let st = vsyslog env (d + 1) INTERNALLOG (''syslog: unknown facility/priority: '' @ fmt_x pri) st
           in log_checked (env d) (pri AND (LOG_PRIMASK OR LOG_FACMASK)) text st
      else log_checked (env d) pri text st)"
  by pat_completeness auto
termination
  by (relation "measure (\<lambda>(env, d, pri, text, st). if pri AND NOT (LOG_PRIMASK OR LOG_FACMASK) \<noteq> 0 then 1 else 0)")
    (auto simp: INTERNALLOG_def LOG_defs)

declare vsyslog.simps [simp del]

definition syslog :: "(nat \<Rightarrow> log_env) \<Rightarrow> u32 \<Rightarrow> string \<Rightarrow> log_state \<Rightarrow> log_state" where
  "syslog env pri text st = vsyslog env 0 pri text st"

section \<open>Runs\<close>

inductive log_step :: "log_state \<Rightarrow> log_state \<Rightarrow> bool" where
  step_openlog: "(\<And>ty. - 1 \<le> socket_result env ty) \<Longrightarrow> log_step st (openlog env ident logstat logfac st)"
| step_closelog: "log_step st (closelog st)"
| step_setlogmask: "log_step st (snd (setlogmask pmask st))"
| step_syslog: "(\<And>d ty. - 1 \<le> socket_result (env d) ty) \<Longrightarrow> log_step st (syslog env pri text st)"

inductive_cases log_step_cases: "log_step st st'"

inductive reachable :: "log_state \<Rightarrow> bool" where
  reachable_initial: "reachable initial"
| reachable_step: "reachable st \<Longrightarrow> log_step st st' \<Longrightarrow> reachable st'"



section \<open>Invariant\<close>

text \<open>A priority with a facility, and no other bits.\<close>

definition good_pri :: "u32 \<Rightarrow> bool" where
  "good_pri pri \<longleftrightarrow> pri AND NOT (LOG_PRIMASK OR LOG_FACMASK) = 0 \<and> pri AND LOG_FACMASK \<noteq> 0"

definition good_message :: "string \<Rightarrow> bool" where
  "good_message d \<longleftrightarrow> (\<exists>pri rest. d = ''<'' @ fmt_d pri @ ''>'' @ rest \<and> good_pri pri)"

definition sane :: "log_state \<Rightarrow> bool" where
  "sane st \<longleftrightarrow> (connected st \<longrightarrow> LogFile st \<noteq> - 1) \<and> - 1 \<le> LogFile st \<and> LogType st \<in> {SOCK_STREAM, SOCK_DGRAM} \<and>
     LogFacility st \<noteq> 0 \<and> LogFacility st AND NOT LOG_FACMASK = 0 \<and> LogMask st \<noteq> 0 \<and>
     (\<forall>fd d. Send fd d \<in> set (out st) \<longrightarrow> good_message d)"

lemma and_not_zero: "x AND NOT m = 0 \<longleftrightarrow> x AND m = (x :: u32)"
proof
  have "x = (x AND m) OR (x AND NOT m)" by (rule bit_word_eqI) (auto simp: bit_simps)
  then show "x AND NOT m = 0 \<Longrightarrow> x AND m = x" by simp
next
  assume "x AND m = x"
  then have "x AND NOT m = (x AND m) AND NOT m" by simp
  also have "\<dots> = 0" by (rule bit_word_eqI) (auto simp: bit_simps)
  finally show "x AND NOT m = 0" .
qed

lemma good_pri_default:
  assumes "pri AND NOT (LOG_PRIMASK OR LOG_FACMASK) = 0" "pri AND LOG_FACMASK = 0" "fac \<noteq> 0" "fac AND NOT LOG_FACMASK = 0"
  shows "good_pri (pri OR fac)"
proof -
  have f: "fac AND LOG_FACMASK = fac" using assms(4) by (simp only: and_not_zero)
  have "fac AND (LOG_PRIMASK OR LOG_FACMASK) = (fac AND LOG_PRIMASK) OR (fac AND LOG_FACMASK)" by (rule bit.conj_disj_distrib)
  also have "\<dots> = fac" unfolding f by (rule bit_word_eqI) (auto simp: bit_simps)
  finally have "(pri OR fac) AND (LOG_PRIMASK OR LOG_FACMASK) = pri OR fac"
    using assms(1) by (simp only: bit.conj_disj_distrib2 and_not_zero)
  moreover have "(pri OR fac) AND LOG_FACMASK = fac" using assms(2) f by (simp only: bit.conj_disj_distrib2 or.left_neutral)
  ultimately show ?thesis using assms(3) unfolding good_pri_def and_not_zero by simp
qed

lemma sane_emit: "sane st \<Longrightarrow> (\<And>fd d. e = Send fd d \<Longrightarrow> good_message d) \<Longrightarrow> sane (emit e st)"
  by (auto simp: sane_def emit_def)

lemma sane_closelog_internal: "sane st \<Longrightarrow> sane (closelog_internal st)"
  by (auto simp: sane_def emit_def closelog_internal_def)

text \<open>One round of the loop, with the socket it opens.\<close>

definition opened :: "log_env \<Rightarrow> log_state \<Rightarrow> log_state" where
  "opened env st =
     (if LogFile st = - 1 \<and> LogStat st AND LOG_NDELAY \<noteq> 0 then st\<lparr>LogFile := socket_result env (LogType st)\<rparr> else st)"

definition dropped :: "log_state \<Rightarrow> log_state" where
  "dropped st = (emit (Close (LogFile st)) st)\<lparr>LogFile := - 1\<rparr>"

lemma connect_loop_round:
  "connect_loop env st =
     (let st1 = opened env st
      in if LogFile st1 = - 1 \<or> connected st1 then st1
         else case connect_error env (LogType st1) of
                None \<Rightarrow> st1\<lparr>connected := True\<rparr>
              | Some e \<Rightarrow> if LogType st1 = SOCK_DGRAM \<and> e = EPROTOTYPE
                  then connect_loop env ((dropped st1)\<lparr>LogType := SOCK_STREAM\<rparr>) else dropped st1)"
  by (subst connect_loop.simps) (auto simp: opened_def dropped_def emit_def Let_def split: option.split)

lemma sane_opened: "sane st \<Longrightarrow> (\<And>ty. - 1 \<le> socket_result env ty) \<Longrightarrow> \<not> connected st \<or> LogFile st \<noteq> - 1 \<Longrightarrow> sane (opened env st)"
  by (auto simp: sane_def opened_def)

lemma sane_dropped: "sane st \<Longrightarrow> \<not> connected st \<Longrightarrow> sane (dropped st) \<and> sane ((dropped st)\<lparr>LogType := SOCK_STREAM\<rparr>)"
  by (auto simp: sane_def dropped_def emit_def)

lemma sane_connect_loop:
  assumes "sane st" and env: "\<And>ty. - 1 \<le> socket_result env ty"
  shows "sane (connect_loop env st)"
proof -
  have round: "sane (connect_loop env st)"
    if "sane st" and rec: "LogType st = SOCK_DGRAM \<Longrightarrow> \<forall>st'. sane st' \<longrightarrow> LogType st' = SOCK_STREAM \<longrightarrow> sane (connect_loop env st')" for st
  proof -
    have o: "sane (opened env st)" "LogType (opened env st) = LogType st"
      using that(1) sane_opened [OF that(1) env] by (auto simp: sane_def opened_def)
    define st1 where "st1 = opened env st"
    note o = o [folded st1_def]
    have unf: "connect_loop env st = (if LogFile st1 = - 1 \<or> connected st1 then st1
         else case connect_error env (LogType st1) of
                None \<Rightarrow> st1\<lparr>connected := True\<rparr>
              | Some e \<Rightarrow> if LogType st1 = SOCK_DGRAM \<and> e = EPROTOTYPE
                  then connect_loop env ((dropped st1)\<lparr>LogType := SOCK_STREAM\<rparr>) else dropped st1)"
      unfolding st1_def by (subst connect_loop_round) (simp only: Let_def)
    show ?thesis
    proof (cases "LogFile st1 = - 1 \<or> connected st1")
      case True
      then show ?thesis unfolding unf using o(1) by (simp only: if_True)
    next
      case False
      note d = sane_dropped [OF o(1)]
      have c: "sane (st1\<lparr>connected := True\<rparr>)" using o(1) False by (simp add: sane_def)
      have r: "sane (connect_loop env ((dropped st1)\<lparr>LogType := SOCK_STREAM\<rparr>))" if "LogType st1 = SOCK_DGRAM"
        using rec that o(2) d False by simp
      show ?thesis unfolding unf using False c d r by (simp split: option.split)
    qed
  qed
  have "sane (connect_loop env st')" if "sane st'" "LogType st' = SOCK_STREAM" for st'
    using that by (intro round) (simp_all add: SOCK_STREAM_def SOCK_DGRAM_def)
  then show ?thesis by (intro round assms(1)) blast
qed

lemma sane_openlog_internal:
  assumes "sane st" "\<And>ty. - 1 \<le> socket_result env ty"
  shows "sane (openlog_internal env ident logstat logfac st)"
  using assms(1) unfolding openlog_internal_def Let_def
  by (intro sane_connect_loop assms(2)) (auto simp: sane_def split: option.split)

lemma sane_log_message:
  assumes "sane st" "\<And>ty. - 1 \<le> socket_result env ty" "good_pri pri"
  shows "sane (log_message env pri text st)"
proof -
  define st1 where "st1 = (if LogTag st = None then st\<lparr>LogTag := progname env\<rparr> else st)"
  define body where "body = message_body env st1 text"
  define st2 where "st2 = (if LogStat st1 AND LOG_PERROR \<noteq> 0 then emit (Stderr (body @ [CHR 0x0A])) st1 else st1)"
  define st3 where "st3 = (if \<not> connected st2 then openlog_internal env (LogTag st2) (LogStat st2 OR LOG_NDELAY) 0 st2 else st2)"
  have "sane st1" using assms(1) by (auto simp: sane_def st1_def)
  then have "sane st2" by (auto simp: st2_def intro: sane_emit)
  then have s3: "sane st3" using assms(2) by (simp add: st3_def sane_openlog_internal)
  have g: "good_message (message_head env pri @ r)" for r
    using assms(3) by (auto simp: good_message_def message_head_def)
  have c: "sane (closelog_internal st3)" "sane (closelog_internal (sigpipe_handler st3))"
    using s3 by (simp_all add: sane_closelog_internal sigpipe_handler_def)
  have "log_message env pri text st = (case send_result env of
      Sent \<Rightarrow> emit (Send (LogFile st3) (if LogType st3 = SOCK_STREAM then (message_head env pri @ body) @ [NUL] else message_head env pri @ body)) st3
    | r \<Rightarrow> let st = closelog_internal (if r = Broken_pipe then sigpipe_handler st3 else st3)
        in if LogStat st AND LOG_CONS \<noteq> 0 \<and> console_opens env then emit (Console (body @ [CHR 0x0D, CHR 0x0A])) st else st)"
    unfolding log_message_def Let_def st3_def st2_def body_def st1_def by (rule refl)
  then show ?thesis using s3 c g
    by (cases "send_result env") (auto simp: Let_def intro!: sane_emit)
qed

lemma internallog_valid: "INTERNALLOG AND NOT (LOG_PRIMASK OR LOG_FACMASK) = 0"
  by (simp add: INTERNALLOG_def LOG_defs)

lemma sane_log_checked:
  assumes "sane st" "\<And>ty. - 1 \<le> socket_result env ty" "pri AND NOT (LOG_PRIMASK OR LOG_FACMASK) = 0"
  shows "sane (log_checked env pri text st)"
proof -
  have "good_pri (if pri AND LOG_FACMASK = 0 then pri OR LogFacility st else pri)"
    using assms(1,3) good_pri_default [of pri "LogFacility st"] by (auto simp: good_pri_def sane_def)
  then have m: "sane (log_message env (if pri AND LOG_FACMASK = 0 then pri OR LogFacility (emit (Stdout s) st) else pri) text (emit (Stdout s) st))" for s
    by (intro sane_log_message sane_emit assms(1,2)) (simp_all add: emit_def split: if_splits)
  have "sane (emit (Stdout s) st)" for s by (intro sane_emit assms(1)) simp
  with m show ?thesis unfolding log_checked_def Let_def by presburger
qed

lemma vsyslog_valid:
  "pri AND NOT (LOG_PRIMASK OR LOG_FACMASK) = 0 \<Longrightarrow> vsyslog env d pri s st = log_checked (env d) pri s st"
  by (subst vsyslog.simps) (simp only: simp_thms if_False)

lemma vsyslog_invalid:
  "pri AND NOT (LOG_PRIMASK OR LOG_FACMASK) \<noteq> 0 \<Longrightarrow> vsyslog env d pri s st =
    log_checked (env d) (pri AND (LOG_PRIMASK OR LOG_FACMASK)) s
      (log_checked (env (d + 1)) INTERNALLOG (''syslog: unknown facility/priority: '' @ fmt_x pri) st)"
  by (subst vsyslog.simps) (simp only: simp_thms if_True Let_def vsyslog_valid [OF internallog_valid])

lemma sane_vsyslog:
  assumes "sane st" and env: "\<And>d ty. - 1 \<le> socket_result (env d) ty"
  shows "sane (vsyslog env d pri text st)"
proof -
  have p: "(pri AND (LOG_PRIMASK OR LOG_FACMASK)) AND NOT (LOG_PRIMASK OR LOG_FACMASK) = 0" for pri :: u32
    by (rule bit_word_eqI) (auto simp: bit_simps)
  show ?thesis
  proof (cases "pri AND NOT (LOG_PRIMASK OR LOG_FACMASK) = 0")
    case True
    then show ?thesis unfolding vsyslog_valid [OF True] by (intro sane_log_checked assms)
  next
    case False
    show ?thesis unfolding vsyslog_invalid [OF False] by (intro sane_log_checked assms p internallog_valid)
  qed
qed

lemma sane_reachable: "reachable st \<Longrightarrow> sane st"
proof (induction rule: reachable.induct)
  case reachable_initial
  then show ?case by (simp add: sane_def initial_def LOG_defs SOCK_DGRAM_def SOCK_STREAM_def)
next
  case (reachable_step st st')
  from reachable_step.hyps(2) show ?case
  proof (cases rule: log_step.cases)
    case (step_openlog env ident logstat logfac)
    then show ?thesis using sane_openlog_internal [OF reachable_step.IH] by (simp add: openlog_def)
  next
    case step_closelog
    then show ?thesis using sane_closelog_internal [OF reachable_step.IH] by (simp add: closelog_def)
  next
    case (step_setlogmask pmask)
    then show ?thesis using reachable_step.IH by (simp add: setlogmask_def sane_def)
  next
    case (step_syslog env pri s)
    then show ?thesis using sane_vsyslog [OF reachable_step.IH] by (simp add: syslog_def)
  qed
qed


text \<open>
  C28: Every state of the client reached by openlog, closelog, setlogmask and syslog, whatever the system answers, has a
  descriptor when it is connected, a type of socket that exists, a default facility of facility bits only and a mask
  that is not empty; and every message sent begins with a priority of valid bits that names a facility.
\<close>

theorem syslog_reachable_sane:
  assumes "reachable st"
  shows "(connected st \<longrightarrow> 0 \<le> LogFile st) \<and> LogType st \<in> {SOCK_STREAM, SOCK_DGRAM} \<and>
    LogFacility st \<noteq> 0 \<and> LogFacility st AND NOT LOG_FACMASK = 0 \<and> LogMask st \<noteq> 0 \<and>
    (\<forall>fd d. Send fd d \<in> set (out st) \<longrightarrow>
       (\<exists>pri rest. d = ''<'' @ fmt_d pri @ ''>'' @ rest \<and>
          pri AND NOT (LOG_PRIMASK OR LOG_FACMASK) = 0 \<and> pri AND LOG_FACMASK \<noteq> 0))"
  using sane_reachable [OF assms] unfolding sane_def good_message_def good_pri_def by auto

definition quiet_env :: log_env where
  "quiet_env = \<lparr>socket_result = (\<lambda>_. 3), connect_error = (\<lambda>ty. if ty = SOCK_DGRAM then Some EPROTOTYPE else None),
     send_result = Sent, console_opens = False, datestring = ''Jan  1 00:00:00'', getpid = 7, progname = Some ''p''\<rparr>"

lemma first_message_sent:
  "last (out (syslog (\<lambda>_. quiet_env) 3 ''hello'' initial)) = Send 3 (''<11>Jan  1 00:00:00 p: hello'' @ [NUL]) \<and>
    connected (syslog (\<lambda>_. quiet_env) 3 ''hello'' initial)"
  by code_simp

text \<open>
  The options or-ed into the priority of the report fall into the facility: 0x20 is the facility auth, and no option
  is in force.
\<close>

lemma internallog_facility: "INTERNALLOG AND LOG_FACMASK = 0x20 \<and> INTERNALLOG AND LOG_PRIMASK = LOG_ERR"
  by (simp add: INTERNALLOG_def LOG_defs)

lemma syslog_reachable_sane_witness:
  "connected (syslog (\<lambda>_. quiet_env) 3 ''hello'' initial) \<and> 0 \<le> LogFile (syslog (\<lambda>_. quiet_env) 3 ''hello'' initial)"
  using syslog_reachable_sane [OF reachable_step [OF reachable_initial step_syslog]] first_message_sent
  by (simp add: quiet_env_def)

end
