(* ===== verification/Mt19937.thy ===== *)
theory Mt19937
  imports Complex_Main Doubles
begin

text \<open>
  The Mersenne twister of \<open>src/mt19937ar.c\<close>: the two ways to initialise the state, the generation of a block
  of \<open>N\<close> words in place, the tempering, and the outputs derived from a word.  \<open>unsigned long\<close> has 64 bits, so
  the code masks what it stores; the reference at the end is written with words of 32 bits and without a block.
\<close>

unbundle bit_operations_syntax

section \<open>State and initialisation\<close>

definition N :: nat where "N = 624"
definition M :: nat where "M = 397"
definition MATRIX_A :: u64 where "MATRIX_A = 0x9908b0df"
definition UPPER_MASK :: u64 where "UPPER_MASK = 0x80000000"
definition LOWER_MASK :: u64 where "LOWER_MASK = 0x7fffffff"

record mt_state =
  mt :: "u64 list"
  mti :: nat

definition mt_initial :: mt_state where
  "mt_initial = \<lparr>mt = replicate N 0, mti = N + 1\<rparr>"

definition init_step :: "nat \<Rightarrow> u64 list \<Rightarrow> u64 list" where
  "init_step i a = a[i := (1812433253 * (a ! (i - 1) XOR drop_bit 30 (a ! (i - 1))) + of_nat i) AND 0xffffffff]"

definition init_genrand :: "u64 \<Rightarrow> mt_state \<Rightarrow> mt_state" where
  "init_genrand s st = \<lparr>mt = fold init_step [1..<N] ((mt st)[0 := s AND 0xffffffff]), mti = N\<rparr>"

text \<open>The end of a round of either loop of \<open>init_by_array\<close>: the index after \<open>i\<close>, and the wrap of the array.\<close>

definition wrap_index :: "nat \<Rightarrow> u64 list \<Rightarrow> nat \<times> u64 list" where
  "wrap_index i a = (if i + 1 \<ge> N then (1, a[0 := a ! (N - 1)]) else (i + 1, a))"

text \<open>\<open>None\<close>: the key is read behind its end.\<close>

fun key_loop :: "nat \<Rightarrow> u64 list \<Rightarrow> u64 \<Rightarrow> nat \<Rightarrow> nat \<Rightarrow> u64 list \<Rightarrow> (nat \<times> u64 list) option" where
  "key_loop 0 init_key key_length i j a = Some (i, a)"
| "key_loop (Suc k) init_key key_length i j a =
     (if j < length init_key then
        let a = a[i := ((a ! i XOR ((a ! (i - 1) XOR drop_bit 30 (a ! (i - 1))) * 1664525)) + init_key ! j + of_nat j)
                   AND 0xffffffff];
            (i, a) = wrap_index i a;
            j = (if key_length \<le> of_nat (j + 1) then 0 else j + 1)
        in key_loop k init_key key_length i j a
      else None)"

fun index_loop :: "nat \<Rightarrow> nat \<Rightarrow> u64 list \<Rightarrow> u64 list" where
  "index_loop 0 i a = a"
| "index_loop (Suc k) i a =
     (let a = a[i := ((a ! i XOR ((a ! (i - 1) XOR drop_bit 30 (a ! (i - 1))) * 1566083941)) - of_nat i) AND 0xffffffff];
          (i, a) = wrap_index i a
      in index_loop k i a)"

text \<open>
  The count of rounds is an \<open>int\<close>: a key length of which the low 32 bits are a negative one makes the loop count
  down to its overflow.
\<close>

definition init_by_array :: "u64 list \<Rightarrow> u64 \<Rightarrow> mt_state \<Rightarrow> mt_state option" where
  "init_by_array init_key key_length st =
     (let st = init_genrand 19650218 st;
          k = (if of_nat N > key_length then int N else sint (ucast key_length :: 32 word))
      in if k < 0 then None
         else case key_loop (nat k) init_key key_length 1 0 (mt st) of
                None \<Rightarrow> None
              | Some (i, a) \<Rightarrow> Some (st\<lparr>mt := (index_loop (N - 1) i a)[0 := 0x80000000]\<rparr>))"

section \<open>Generation\<close>

definition mag01 :: "u64 list" where "mag01 = [0, MATRIX_A]"

text \<open>The word made of \<open>mt[kk]\<close>, its successor and the word \<open>M\<close> further on.\<close>

definition twist :: "u64 \<Rightarrow> u64 \<Rightarrow> u64 \<Rightarrow> u64" where
  "twist cur next far =
     (let y = (cur AND UPPER_MASK) OR (next AND LOWER_MASK) in far XOR drop_bit 1 y XOR (mag01 ! unat (y AND 1)))"

definition generate :: "u64 list \<Rightarrow> u64 list" where
  "generate a =
     (let a = fold (\<lambda>kk a. a[kk := twist (a ! kk) (a ! (kk + 1)) (a ! (kk + M))]) [0..<N - M] a;
          a = fold (\<lambda>kk a. a[kk := twist (a ! kk) (a ! (kk + 1)) (a ! nat (int kk + (int M - int N)))]) [N - M..<N - 1] a
      in a[N - 1 := twist (a ! (N - 1)) (a ! 0) (a ! (M - 1))])"

definition temper :: "u64 \<Rightarrow> u64" where
  "temper y =
     (let y = y XOR drop_bit 11 y;
          y = y XOR (push_bit 7 y AND 0x9d2c5680);
          y = y XOR (push_bit 15 y AND 0xefc60000)
      in y XOR drop_bit 18 y)"

definition genrand_int32 :: "mt_state \<Rightarrow> u64 \<times> mt_state" where
  "genrand_int32 st =
     (let st = (if mti st \<ge> N
                then let st = (if mti st = N + 1 then init_genrand 5489 st else st)
                     in st\<lparr>mt := generate (mt st), mti := 0\<rparr>
                else st)
      in (temper (mt st ! mti st), st\<lparr>mti := mti st + 1\<rparr>))"

definition genrand_int31 :: "mt_state \<Rightarrow> i64 \<times> mt_state" where
  "genrand_int31 st = (let (y, st) = genrand_int32 st in (drop_bit 1 y, st))"

text \<open>
  The number in \<open>[0,1]\<close>: the factor \<open>1.0/4294967295.0\<close> is rounded to a double, and so is the product with it.
\<close>

definition genrand_real1 :: "mt_state \<Rightarrow> rat \<times> mt_state" where
  "genrand_real1 st =
     (let (y, st) = genrand_int32 st;
          (m, e) = nearest_double 84 1 4294967295;
          (n, f) = nearest_double e (unat y * m) (2 ^ e)
      in (of_nat n / 2 ^ f, st))"

text \<open>
  The numbers in \<open>[0,1)\<close> and \<open>(0,1)\<close>: the numerators have at most 53 bits and the factors are powers of two, so
  the doubles are these rationals.
\<close>

definition genrand_real2 :: "mt_state \<Rightarrow> rat \<times> mt_state" where
  "genrand_real2 st = (let (y, st) = genrand_int32 st in (of_nat (unat y) * (1 / 4294967296), st))"

definition genrand_real3 :: "mt_state \<Rightarrow> rat \<times> mt_state" where
  "genrand_real3 st = (let (y, st) = genrand_int32 st in ((of_nat (unat y) + 1 / 2) * (1 / 4294967296), st))"

definition genrand_res53 :: "mt_state \<Rightarrow> rat \<times> mt_state" where
  "genrand_res53 st =
     (let (y, st) = genrand_int32 st; a = drop_bit 5 y;
          (y, st) = genrand_int32 st; b = drop_bit 6 y
      in ((of_nat (unat a) * 67108864 + of_nat (unat b)) * (1 / 9007199254740992), st))"



section \<open>Reference in 32 bits\<close>

text \<open>The recurrence of the generator on an infinite sequence of 32-bit words, with no block and no masks.\<close>

fun mt_seq :: "(nat \<Rightarrow> u32) \<Rightarrow> nat \<Rightarrow> u32" where
  "mt_seq s k =
     (if k < 624 then s k
      else let y = (mt_seq s (k - 624) AND 0x80000000) OR (mt_seq s (k - 623) AND 0x7fffffff)
           in mt_seq s (k - 227) XOR drop_bit 1 y XOR (if bit y 0 then 0x9908b0df else 0))"

declare mt_seq.simps [simp del]

primrec seed_seq :: "u32 \<Rightarrow> nat \<Rightarrow> u32" where
  "seed_seq s 0 = s"
| "seed_seq s (Suc i) = 1812433253 * (seed_seq s i XOR drop_bit 30 (seed_seq s i)) + of_nat (Suc i)"

definition temper_ref :: "u32 \<Rightarrow> u32" where
  "temper_ref y =
     (let y = y XOR drop_bit 11 y;
          y = y XOR (push_bit 7 y AND 0x9d2c5680);
          y = y XOR (push_bit 15 y AND 0xefc60000)
      in y XOR drop_bit 18 y)"

text \<open>The words of 32 bits inside those of 64.\<close>

abbreviation wide :: "u32 \<Rightarrow> u64" where "wide \<equiv> ucast"
abbreviation narrow :: "u64 \<Rightarrow> u32" where "narrow \<equiv> ucast"

named_theorems wide_simps \<open>operations on 64-bit words that stay within 32 bits\<close>

lemma bit_wide: "bit (wide x) n \<longleftrightarrow> n < 32 \<and> bit x n"
  by (auto simp: bit_ucast_iff dest: bit_imp_le_length)

lemma narrow_wide [simp]: "narrow (wide x) = x"
  by (rule bit_word_eqI) (simp add: bit_ucast_iff)

lemma wide_inj [simp]: "wide x = wide y \<longleftrightarrow> x = y"
  by (metis narrow_wide)

lemma wide_narrow: "wide (narrow w) = w AND 0xffffffff"
proof (rule bit_word_eqI)
  fix n assume "n < LENGTH(64)"
  have m: "(0xffffffff :: u64) = mask 32" by (simp add: mask_eq_exp_minus_1)
  show "bit (wide (narrow w)) n = bit (w AND 0xffffffff) n"
    unfolding m by (auto simp: bit_ucast_iff bit_and_iff bit_mask_iff dest: bit_imp_le_length)
qed

lemma wide_xor [wide_simps]: "wide x XOR wide y = wide (x XOR y)"
  by (rule bit_word_eqI) (auto simp: bit_ucast_iff bit_xor_iff)

lemma wide_or [wide_simps]: "wide x OR wide y = wide (x OR y)"
  by (rule bit_word_eqI) (auto simp: bit_ucast_iff bit_or_iff)

lemma wide_and [wide_simps]: "wide x AND wide y = wide (x AND y)"
  by (rule bit_word_eqI) (auto simp: bit_ucast_iff bit_and_iff)

lemma wide_drop [wide_simps]: "drop_bit n (wide x) = wide (drop_bit n x)"
  by (rule bit_word_eqI) (auto simp: bit_ucast_iff bit_drop_bit_eq dest: bit_imp_le_length)

lemma and_narrow: "w AND wide m = wide (narrow w AND m)"
  by (rule bit_word_eqI) (auto simp: bit_ucast_iff bit_and_iff dest: bit_imp_le_length)

lemma narrow_push: "narrow (push_bit n (wide x)) = push_bit n x"
  by (rule bit_word_eqI) (auto simp: bit_ucast_iff bit_push_bit_iff)

lemma wide_push_and [wide_simps]: "push_bit n (wide x) AND wide m = wide (push_bit n x AND m)"
  by (simp add: and_narrow narrow_push)

lemma narrow_mult: "narrow (x * y) = narrow x * narrow y"
  by (transfer, simp add: take_bit_eq_mod mod_mod_cancel, rule mod_mult_cong) (simp_all add: mod_mod_cancel)

lemma narrow_add: "narrow (x + y) = narrow x + narrow y"
  by (transfer, simp add: take_bit_eq_mod mod_mod_cancel, rule mod_add_cong) (simp_all add: mod_mod_cancel)

lemma narrow_of_nat: "narrow (of_nat n) = of_nat n"
  by transfer (simp add: take_bit_eq_mod mod_mod_cancel)

lemmas narrow_hom = narrow_mult narrow_add narrow_of_nat

lemma wide_consts: "(0x9d2c5680 :: u64) = wide 0x9d2c5680" "(0xefc60000 :: u64) = wide 0xefc60000"
  "UPPER_MASK = wide 0x80000000" "LOWER_MASK = wide 0x7fffffff" "MATRIX_A = wide 0x9908b0df"
  by (simp_all add: UPPER_MASK_def LOWER_MASK_def MATRIX_A_def)

lemma temper_wide: "temper (wide y) = wide (temper_ref y)"
  unfolding temper_def temper_ref_def Let_def wide_consts by (simp only: wide_simps)

section \<open>The state\<close>

text \<open>An array of \<open>N\<close> words of 32 bits, and an index to it or the mark that it is not initialised.\<close>

definition narrow_array :: "u64 list \<Rightarrow> bool" where
  "narrow_array a \<longleftrightarrow> length a = N \<and> (\<forall>w \<in> set a. w AND 0xffffffff = w)"

definition mt_ok :: "mt_state \<Rightarrow> bool" where
  "mt_ok st \<longleftrightarrow> narrow_array (mt st) \<and> mti st \<le> N + 1"

text \<open>The array is the window of a sequence of 32-bit words from \<open>b\<close> on.\<close>

definition window :: "(nat \<Rightarrow> u32) \<Rightarrow> nat \<Rightarrow> u64 list \<Rightarrow> bool" where
  "window x b a \<longleftrightarrow> length a = N \<and> (\<forall>i < N. a ! i = wide (x (b + i)))"

lemma narrow_array_update: "narrow_array a \<Longrightarrow> narrow_array (a[i := w AND 0xffffffff])"
  by (auto simp: narrow_array_def dest!: set_update_subset_insert [THEN subsetD] simp: and.assoc)

lemma narrow_array_window: "narrow_array a \<Longrightarrow> window (\<lambda>i. narrow (a ! i)) 0 a"
  by (auto simp: narrow_array_def window_def wide_narrow)

lemma window_narrow_array: "window x b a \<Longrightarrow> narrow_array a"
  by (auto simp: narrow_array_def window_def in_set_conv_nth simp flip: wide_narrow)

section \<open>Initialisation from a seed\<close>

lemma init_step_seed:
  assumes "0 < i" "a ! (i - 1) = wide (seed_seq s (i - 1))"
  shows "init_step i a = a[i := wide (seed_seq s i)]"
proof -
  have "seed_seq s i = narrow (1812433253 * (a ! (i - 1) XOR drop_bit 30 (a ! (i - 1))) + of_nat i)"
    using assms(1) unfolding assms(2) wide_simps narrow_hom narrow_wide by (cases i) simp_all
  then show ?thesis unfolding init_step_def by (simp only: wide_narrow)
qed

lemma init_loop_seed:
  assumes "length a = N" "a ! 0 = wide s" "1 \<le> n" "n \<le> N"
  shows "length (fold init_step [1..<n] a) = N \<and> (\<forall>i < n. fold init_step [1..<n] a ! i = wide (seed_seq s i))"
  using assms(3,4)
proof (induction n rule: nat_induct_at_least)
  case base
  then show ?case using assms by simp
next
  case (Suc n)
  then have "fold init_step [1..<Suc n] a = (fold init_step [1..<n] a)[n := wide (seed_seq s n)]"
    by (simp add: init_step_seed)
  with Suc show ?case by (simp add: nth_list_update less_Suc_eq)
qed

lemma init_genrand_window:
  assumes "length (mt st) = N"
  shows "window (seed_seq (narrow s)) 0 (mt (init_genrand s st))" "mti (init_genrand s st) = N"
  using assms init_loop_seed [of "(mt st)[0 := s AND 0xffffffff]" "narrow s" N]
  by (simp_all add: init_genrand_def window_def wide_narrow N_def)


section \<open>Generation of a block\<close>

lemma mag01_wide: "mag01 ! unat (wide y AND 1) = wide (if bit y 0 then 0x9908b0df else 0)"
proof -
  have "wide y AND 1 = (if bit y 0 then 1 else 0)"
    by (rule bit_word_eqI) (auto simp: bit_ucast_iff bit_and_iff bit_1_iff intro: gr0I)
  then show ?thesis by (simp add: mag01_def wide_consts)
qed

lemma twist_seq:
  assumes "x = mt_seq s"
  shows "twist (wide (x k)) (wide (x (k + 1))) (wide (x (k + M))) = wide (x (k + N))"
proof -
  define y where "y = (x k AND 0x80000000) OR (x (k + 1) AND 0x7fffffff)"
  have i: "k + 624 - 623 = k + 1" "k + 624 - 227 = k + 397" by simp_all
  have "x (k + N) = x (k + M) XOR drop_bit 1 y XOR (if bit y 0 then 0x9908b0df else 0)"
    unfolding assms y_def by (subst mt_seq.simps) (simp add: N_def M_def i Let_def)
  moreover have "twist (wide (x k)) (wide (x (k + 1))) (wide (x (k + M)))
      = wide (x (k + M)) XOR drop_bit 1 (wide y) XOR mag01 ! unat (wide y AND 1)"
    unfolding twist_def Let_def wide_consts wide_simps y_def by (rule refl)
  ultimately show ?thesis unfolding mag01_wide by (simp only: wide_simps)
qed

text \<open>The three parts of the code as one loop with indices modulo \<open>N\<close>.\<close>

definition ring_step :: "nat \<Rightarrow> u64 list \<Rightarrow> u64 list" where
  "ring_step kk a = a[kk := twist (a ! kk) (a ! ((kk + 1) mod N)) (a ! ((kk + M) mod N))]"

lemma generate_ring: "generate a = fold ring_step [0..<N] a"
proof -
  have "N - 1 = N - M + 396" "Suc (N - 1) = N" by (simp_all add: N_def M_def)
  then have "[0..<N - 1] = [0..<N - M] @ [N - M..<N - 1]" "[0..<N] = [0..<N - 1] @ [N - 1]"
    using upt_add_eq_append [of 0 "N - M" 396] upt_Suc_append [of 0 "N - 1"] by (simp_all only: le0)
  then have u: "[0..<N] = [0..<N - M] @ [N - M..<N - 1] @ [N - 1]" by simp
  have 1: "fold (\<lambda>kk a. a[kk := twist (a ! kk) (a ! (kk + 1)) (a ! (kk + M))]) [0..<N - M] b = fold ring_step [0..<N - M] b" for b
    by (rule fold_cong) (auto simp: ring_step_def N_def M_def fun_eq_iff)
  have 2: "fold (\<lambda>kk a. a[kk := twist (a ! kk) (a ! (kk + 1)) (a ! nat (int kk + (int M - int N)))]) [N - M..<N - 1] b
      = fold ring_step [N - M..<N - 1] b" for b
  proof (rule fold_cong)
    fix kk assume "kk \<in> set [N - M..<N - 1]"
    then have "N - M \<le> kk" "kk < N - 1" by simp_all
    then have "227 \<le> kk" "kk < 623" by (simp_all add: N_def M_def)
    then have "nat (int kk + (int M - int N)) = kk - 227" "(kk + M) mod N = kk - 227" "(kk + 1) mod N = kk + 1"
      by - (simp add: N_def M_def nat_diff_distrib', simp_all add: N_def M_def mod_if)
    then show "(\<lambda>a. a[kk := twist (a ! kk) (a ! (kk + 1)) (a ! nat (int kk + (int M - int N)))]) = ring_step kk"
      by (simp add: fun_eq_iff ring_step_def)
  qed simp_all
  have 3: "b[N - 1 := twist (b ! (N - 1)) (b ! 0) (b ! (M - 1))] = ring_step (N - 1) b" for b
    by (simp add: ring_step_def N_def M_def)
  show ?thesis unfolding generate_def Let_def 1 2 3 u by simp
qed

lemma ring_loop_window:
  assumes "x = mt_seq s" "window x b a" "n \<le> N"
  shows "length (fold ring_step [0..<n] a) = N \<and>
    (\<forall>i < N. fold ring_step [0..<n] a ! i = wide (x (if i < n then b + N + i else b + i)))"
  using assms(3)
proof (induction n)
  case 0
  then show ?case using assms(2) by (simp add: window_def)
next
  case (Suc n)
  define c where "c = fold ring_step [0..<n] a"
  have l: "length c = N" and c: "\<And>i. i < N \<Longrightarrow> c ! i = wide (x (if i < n then b + N + i else b + i))"
    using Suc by (simp_all add: c_def)
  have ring: "c ! ((n + d) mod N) = wide (x (b + n + d))" if "d < N" for d
  proof (cases "n + d < N")
    case True
    then show ?thesis using c [of "n + d"] by (simp add: add.assoc)
  next
    case False
    then have "(n + d) mod N = n + d - N" "n + d - N < n" "b + N + (n + d - N) = b + n + d"
      using that Suc.prems by (simp_all add: mod_if)
    then show ?thesis using c [of "n + d - N"] Suc.prems by (simp add: add.assoc)
  qed
  have "ring_step n c = c[n := wide (x (b + n + N))]"
    using ring [of 0] ring [of 1] ring [of M] twist_seq [OF assms(1), of "b + n"] Suc.prems
    by (simp add: ring_step_def N_def M_def)
  then have "fold ring_step [0..<Suc n] a = c[n := wide (x (b + n + N))]" by (simp add: c_def)
  then show ?case using l c Suc.prems by (auto simp: nth_list_update ac_simps)
qed

lemma generate_window:
  assumes "x = mt_seq s" "window x b a"
  shows "window x (b + N) (generate a)"
  using ring_loop_window [OF assms order.refl] by (simp add: window_def generate_ring)

section \<open>The outputs\<close>

text \<open>The next output is the \<open>p\<close>-th word of the sequence.\<close>

definition at_word :: "(nat \<Rightarrow> u32) \<Rightarrow> nat \<Rightarrow> mt_state \<Rightarrow> bool" where
  "at_word x p st \<longleftrightarrow> mti st \<le> N \<and> mti st \<le> p \<and> window x (p - mti st) (mt st)"

lemma genrand_at_word:
  assumes "x = mt_seq s" "at_word x p st" "genrand_int32 st = (y, st')"
  shows "y = wide (temper_ref (x p)) \<and> at_word x (p + 1) st'"
proof -
  have w: "window x (p - mti st) (mt st)" and m: "mti st \<le> N" "mti st \<le> p" using assms(2) by (simp_all add: at_word_def)
  define st1 where "st1 = (if mti st \<ge> N then st\<lparr>mt := generate (mt st), mti := 0\<rparr> else st)"
  have g: "genrand_int32 st = (temper (mt st1 ! mti st1), st1\<lparr>mti := mti st1 + 1\<rparr>)"
    using m by (simp add: genrand_int32_def st1_def Let_def)
  have "window x (p - mti st1) (mt st1) \<and> mti st1 < N \<and> mti st1 \<le> p"
  proof (cases "mti st \<ge> N")
    case True
    then have "mti st = N" using m by simp
    then show ?thesis using generate_window [OF assms(1) w] m by (simp add: st1_def N_def)
  next
    case False
    then show ?thesis using w m by (simp add: st1_def)
  qed
  then have "mt st1 ! mti st1 = wide (x p)" "at_word x (p + 1) (st1\<lparr>mti := mti st1 + 1\<rparr>)"
    by (auto simp: window_def at_word_def)
  then show ?thesis using assms(3) g by (auto simp: temper_wide)
qed

primrec genrand_outputs :: "nat \<Rightarrow> mt_state \<Rightarrow> u64 list" where
  "genrand_outputs 0 st = []"
| "genrand_outputs (Suc n) st = (let (y, st) = genrand_int32 st in y # genrand_outputs n st)"

lemma outputs_at_word:
  assumes "x = mt_seq s" "at_word x p st"
  shows "genrand_outputs n st = map (\<lambda>k. wide (temper_ref (x (p + k)))) [0..<n]"
  using assms(2)
proof (induction n arbitrary: p st)
  case (Suc n)
  obtain y st' where g: "genrand_int32 st = (y, st')" by fastforce
  note 1 = genrand_at_word [OF assms(1) Suc.prems g]
  have "map (\<lambda>k. wide (temper_ref (x (p + k)))) [0..<Suc n]
      = wide (temper_ref (x p)) # map (\<lambda>k. wide (temper_ref (x (p + 1 + k)))) [0..<n]"
    unfolding map_upt_Suc by simp
  then show ?case using 1 Suc.IH [of "p + 1" st'] g by (simp only: genrand_outputs.simps Let_def prod.case)
qed simp

lemma at_word_start:
  assumes "narrow_array (mt st)" "mti st = N"
  shows "at_word (mt_seq (\<lambda>i. narrow (mt st ! i))) N st"
  using narrow_array_window [OF assms(1)] assms(2)
  by (simp add: at_word_def window_def mt_seq.simps N_def)

lemma genrand_outputs_start:
  assumes "narrow_array (mt st)" "mti st = N"
  shows "genrand_outputs n st = map (\<lambda>k. wide (temper_ref (mt_seq (\<lambda>i. narrow (mt st ! i)) (N + k)))) [0..<n]"
  by (rule outputs_at_word [OF refl at_word_start [OF assms]])



section \<open>Initialisation from a key\<close>

lemma wrap_index_ok:
  assumes "narrow_array a" "1 \<le> i" "i < N" "wrap_index i a = (i', a')"
  shows "narrow_array a' \<and> 1 \<le> i' \<and> i' < N"
proof (cases "i + 1 \<ge> N")
  case True
  have "a ! (N - 1) = a ! (N - 1) AND 0xffffffff" using assms(1) by (auto simp: narrow_array_def N_def)
  then have "narrow_array (a[0 := a ! (N - 1)])" using narrow_array_update [OF assms(1), of 0 "a ! (N - 1)"] by simp
  then show ?thesis using assms(4) True by (auto simp: wrap_index_def N_def)
next
  case False
  then show ?thesis using assms by (auto simp: wrap_index_def)
qed

lemma key_loop_ok:
  assumes "narrow_array a" "1 \<le> i" "i < N" "key_loop k key len i j a = Some (i', a')"
  shows "narrow_array a' \<and> 1 \<le> i' \<and> i' < N"
  using assms
proof (induction k arbitrary: i j a)
  case (Suc k)
  define b where "b = a[i := ((a ! i XOR ((a ! (i - 1) XOR drop_bit 30 (a ! (i - 1))) * 1664525)) + key ! j + of_nat j) AND 0xffffffff]"
  have n: "narrow_array b" unfolding b_def by (rule narrow_array_update [OF Suc.prems(1)])
  obtain i1 a1 where w: "wrap_index i b = (i1, a1)" by fastforce
  have "key_loop k key len i1 (if len \<le> of_nat (j + 1) then 0 else j + 1) a1 = Some (i', a')"
    using Suc.prems(4) w unfolding key_loop.simps Let_def b_def [symmetric] by (simp split: if_splits)
  then show ?case using Suc.IH wrap_index_ok [OF n Suc.prems(2,3) w] by blast
qed simp

lemma index_loop_ok: "narrow_array a \<Longrightarrow> 1 \<le> i \<Longrightarrow> i < N \<Longrightarrow> narrow_array (index_loop k i a)"
proof (induction k arbitrary: i a)
  case (Suc k)
  define b where "b = a[i := ((a ! i XOR ((a ! (i - 1) XOR drop_bit 30 (a ! (i - 1))) * 1566083941)) - of_nat i) AND 0xffffffff]"
  have n: "narrow_array b" unfolding b_def by (rule narrow_array_update [OF Suc.prems(1)])
  obtain i1 a1 where w: "wrap_index i b = (i1, a1)" by fastforce
  have "index_loop (Suc k) i a = index_loop k i1 a1"
    using w unfolding index_loop.simps Let_def b_def [symmetric] by simp
  then show ?case using Suc.IH wrap_index_ok [OF n Suc.prems(2,3) w] by simp
qed simp

text \<open>The key is read from \<open>j\<close> on and again from its beginning.\<close>

lemma key_index:
  assumes "j < 4294967296"
  shows "(len \<le> of_nat (j + 1)) \<longleftrightarrow> unat (len :: u64) \<le> j + 1"
proof -
  have "unat (of_nat (j + 1) :: u64) = j + 1" using assms by (simp only: unat_of_nat) simp
  then show ?thesis by (simp only: word_le_nat_alt)
qed

lemma key_loop_defined:
  assumes "max 1 (unat len) \<le> length key" "unat len < 4294967296" "j < max 1 (unat len)"
  shows "\<exists>r. key_loop k key len i j a = Some r"
  using assms(3)
proof (induction k arbitrary: i j a)
  case (Suc k)
  define b where "b = a[i := ((a ! i XOR ((a ! (i - 1) XOR drop_bit 30 (a ! (i - 1))) * 1664525)) + key ! j + of_nat j) AND 0xffffffff]"
  obtain i1 a1 where w: "wrap_index i b = (i1, a1)" by fastforce
  have "j < length key" using Suc.prems assms(1) by linarith
  then have "key_loop (Suc k) key len i j a = key_loop k key len i1 (if len \<le> of_nat (j + 1) then 0 else j + 1) a1"
    using w unfolding key_loop.simps Let_def b_def [symmetric] by simp
  moreover have "(if len \<le> of_nat (j + 1) then 0 else j + 1) < max 1 (unat len)"
    using key_index [of j len] Suc.prems assms(2) by (auto simp: max_def split: if_splits)
  ultimately show ?case using Suc.IH by metis
qed simp

lemma key_loop_undefined:
  assumes "length key < max 1 (unat len)" "unat len < 4294967296" "j \<le> length key" "length key - j < k"
  shows "key_loop k key len i j a = None"
  using assms(3,4)
proof (induction k arbitrary: i j a)
  case (Suc k)
  show ?case
  proof (cases "j < length key")
    case True
    have "\<not> len \<le> of_nat (j + 1)"
      using key_index [of j len] True assms(1,2) by (auto simp: max_def split: if_splits)
    then show ?thesis using Suc True by (simp add: Let_def split: prod.split)
  qed (use Suc in simp)
qed simp

lemma init_genrand_ok: "length (mt st) = N \<Longrightarrow> mt_ok (init_genrand s st)"
  using window_narrow_array [OF init_genrand_window(1)] by (simp add: mt_ok_def init_genrand_window)

lemma init_by_array_ok:
  assumes "length (mt st) = N" "init_by_array key len st = Some st'"
  shows "narrow_array (mt st') \<and> mti st' = N \<and> mt st' ! 0 = 0x80000000"
proof -
  define st1 where "st1 = init_genrand 19650218 st"
  have st1: "narrow_array (mt st1)" "mti st1 = N" using init_genrand_ok [OF assms(1)] init_genrand_window [OF assms(1)]
    by (simp_all add: st1_def mt_ok_def)
  define k where "k = (if of_nat N > len then int N else sint (ucast len :: 32 word))"
  obtain i a where "key_loop (nat k) key len 1 0 (mt st1) = Some (i, a)" and st': "st' = st1\<lparr>mt := (index_loop (N - 1) i a)[0 := 0x80000000]\<rparr>"
    using assms(2) unfolding init_by_array_def Let_def st1_def [symmetric] k_def [symmetric] by (auto split: option.splits if_splits)
  then have "narrow_array (index_loop (N - 1) i a)"
    using key_loop_ok [OF st1(1)] index_loop_ok by (metis N_def le_refl one_less_numeral_iff semiring_norm(76))
  then have "narrow_array ((index_loop (N - 1) i a)[0 := 0x80000000])" using narrow_array_update [of _ 0 "0x80000000"] by simp
  then show ?thesis using st' st1(2) \<open>narrow_array (index_loop (N - 1) i a)\<close> by (auto simp: narrow_array_def N_def)
qed

lemma key_rounds:
  assumes "unat (len :: u64) < 2147483648"
  shows "(if of_nat N > len then int N else sint (ucast len :: 32 word)) = int (max N (unat len))"
proof -
  have u: "unat (ucast len :: 32 word) = unat len" using assms by (simp only: unsigned_ucast_eq) (simp add: take_bit_nat_eq_self)
  have "sint (ucast len :: 32 word) = int (unat len)" using sint_eq_unat32 [of "ucast len"] assms unfolding u by blast
  moreover have "of_nat N > len \<longleftrightarrow> unat len < N" by (simp add: word_less_nat_alt N_def)
  ultimately show ?thesis by (auto simp: max_def)
qed

lemma init_by_array_defined:
  assumes "unat len < 2147483648"
  shows "(\<exists>st'. init_by_array key len st = Some st') \<longleftrightarrow> max 1 (unat len) \<le> length key"
proof -
  have d: "(\<exists>st'. init_by_array key len st = Some st') \<longleftrightarrow>
      (\<exists>r. key_loop (max N (unat len)) key len 1 0 (mt (init_genrand 19650218 st)) = Some r)"
    unfolding init_by_array_def Let_def key_rounds [OF assms] by (auto split: option.split)
  have "key_loop (max N (unat len)) key len 1 0 a = None" if "length key < max 1 (unat len)" for a
    using that assms by (intro key_loop_undefined) (auto simp: N_def)
  moreover have "\<exists>r. key_loop (max N (unat len)) key len 1 0 a = Some r" if "max 1 (unat len) \<le> length key" for a
    using that assms by (intro key_loop_defined) auto
  ultimately show ?thesis unfolding d by (metis not_less option.distinct(1))
qed



section \<open>Runs\<close>

inductive mt_reachable :: "mt_state \<Rightarrow> bool" where
  mt_start: "mt_reachable mt_initial"
| mt_seed: "mt_reachable st \<Longrightarrow> mt_reachable (init_genrand s st)"
| mt_key: "mt_reachable st \<Longrightarrow> init_by_array key len st = Some st' \<Longrightarrow> mt_reachable st'"
| mt_draw: "mt_reachable st \<Longrightarrow> mt_reachable (snd (genrand_int32 st))"

lemma narrow_generate: "narrow_array a \<Longrightarrow> narrow_array (generate a)"
proof -
  assume a: "narrow_array a"
  define x where "x = mt_seq (\<lambda>i. narrow (a ! i))"
  have "window x 0 a" using narrow_array_window [OF a] by (simp add: window_def x_def mt_seq.simps N_def)
  then show ?thesis using window_narrow_array generate_window [OF x_def] by blast
qed

lemma genrand_ok:
  assumes "mt_ok st"
  shows "mt_ok (snd (genrand_int32 st)) \<and> 1 \<le> mti (snd (genrand_int32 st)) \<and> mti (snd (genrand_int32 st)) \<le> N \<and>
    (\<exists>w. fst (genrand_int32 st) = wide w)"
proof -
  define st1 where "st1 = (if mti st \<ge> N
                then let st = (if mti st = N + 1 then init_genrand 5489 st else st)
                     in st\<lparr>mt := generate (mt st), mti := 0\<rparr>
                else st)"
  have "narrow_array (mt st1) \<and> mti st1 < N"
    using assms init_genrand_ok [of st 5489] narrow_generate
    by (auto simp: st1_def Let_def mt_ok_def narrow_array_def N_def)
  moreover have "genrand_int32 st = (temper (mt st1 ! mti st1), st1\<lparr>mti := mti st1 + 1\<rparr>)"
    unfolding genrand_int32_def Let_def st1_def by (rule refl)
  moreover have "\<exists>w. temper v = wide w" if "v AND 0xffffffff = v" for v
    using temper_wide [of "narrow v"] that by (metis wide_narrow)
  ultimately show ?thesis by (auto simp: mt_ok_def narrow_array_def)
qed

lemma mt_ok_reachable: "mt_reachable st \<Longrightarrow> mt_ok st"
proof (induction rule: mt_reachable.induct)
  case mt_start
  show ?case by (simp add: mt_ok_def mt_initial_def narrow_array_def)
next
  case (mt_seed st s)
  then show ?case by (intro init_genrand_ok) (simp add: mt_ok_def narrow_array_def)
next
  case (mt_key st key len st')
  then show ?case using init_by_array_ok [of st key len st'] by (simp add: mt_ok_def narrow_array_def)
next
  case (mt_draw st)
  then show ?case using genrand_ok by blast
qed

lemma unat_wide: "unat (wide w) = unat w"
proof -
  have "unat w < 2 ^ LENGTH(32)" by (rule unsigned_less)
  then show ?thesis by (simp only: unsigned_ucast_eq) (simp add: take_bit_nat_eq_self)
qed

lemma sint_eq_unat64: "unat (x :: u64) < 2 ^ 63 \<Longrightarrow> sint x = int (unat x)"
proof -
  assume b: "unat x < 2 ^ 63"
  obtain n where n: "unat x = n" "uint x = int n" by (metis uint_nat)
  have "signed_take_bit 63 (int n) = int n" using b n(1) by (intro signed_take_bit_int_eq_self) simp_all
  then show "sint x = int (unat x)" unfolding sint_uint n by simp
qed

lemma wide_shift_bound: "n \<le> 32 \<Longrightarrow> unat (drop_bit n (wide w)) < 2 ^ (32 - n)"
proof -
  assume n: "n \<le> 32"
  have "unat w < 2 ^ LENGTH(32)" by (rule unsigned_less)
  then have "unat w < 2 ^ (32 - n) * 2 ^ n" using n by (simp flip: power_add)
  then have "unat w div 2 ^ n < 2 ^ (32 - n)" by (simp add: less_mult_imp_div_less)
  then show ?thesis unfolding unat_drop_bit_eq unat_wide by (simp only: drop_bit_eq_div)
qed

section \<open>The tempering is reversible\<close>

lemma xor_zero_imp_eq: "x XOR y = 0 \<Longrightarrow> x = (y :: u32)"
  by (metis xor.assoc xor.right_neutral xor_self_eq)

lemma xor_swap: "a XOR b = c XOR d \<Longrightarrow> a XOR c = b XOR (d :: u32)"
proof (rule bit_word_eqI)
  fix i assume e: "a XOR b = c XOR d" and "i < LENGTH(32)"
  have "bit (a XOR b) i \<longleftrightarrow> bit (c XOR d) i" using e by (rule arg_cong)
  then show "bit (a XOR c) i \<longleftrightarrow> bit (b XOR d) i" by (auto simp: bit_xor_iff)
qed

lemma drop_bit_fixpoint: "0 < n \<Longrightarrow> d = drop_bit n d \<Longrightarrow> d = (0 :: u32)"
proof -
  assume n: "0 < n" and d: "d = drop_bit n d"
  have "unat d = unat d div 2 ^ n" using arg_cong [OF d, of unat] unfolding unat_drop_bit_eq by (simp only: drop_bit_eq_div)
  moreover have "1 < (2 :: nat) ^ n" by (rule one_less_power) (simp_all add: n)
  ultimately have "unat d = 0" by (metis div_less_dividend gr0I less_irrefl)
  then show "d = 0" by (simp add: unsigned_eq_0_iff)
qed

lemma push_bit_fixpoint: "0 < n \<Longrightarrow> d = push_bit n d AND m \<Longrightarrow> d = (0 :: u32)"
proof (rule bit_word_eqI)
  fix i assume n: "0 < n" and d: "d = push_bit n d AND m" and "i < LENGTH(32)"
  have "\<not> bit d i"
  proof (induction i rule: less_induct)
    case (less i)
    have "bit d i \<longleftrightarrow> bit (push_bit n d AND m) i" using d by simp
    then show ?case using less n by (auto simp: bit_and_iff bit_push_bit_iff)
  qed
  then show "bit d i \<longleftrightarrow> bit (0 :: u32) i" by simp
qed

lemma xor_shift_right_inj: "0 < n \<Longrightarrow> x XOR drop_bit n x = y XOR drop_bit n y \<Longrightarrow> x = (y :: u32)"
proof -
  assume n: "0 < n" and e: "x XOR drop_bit n x = y XOR drop_bit n y"
  have "x XOR y = drop_bit n (x XOR y)"
    unfolding drop_bit_xor by (rule xor_swap [OF e])
  then show "x = y" by (rule xor_zero_imp_eq [OF drop_bit_fixpoint [OF n]])
qed

lemma xor_shift_left_inj: "0 < n \<Longrightarrow> x XOR (push_bit n x AND m) = y XOR (push_bit n y AND m) \<Longrightarrow> x = (y :: u32)"
proof -
  assume n: "0 < n" and e: "x XOR (push_bit n x AND m) = y XOR (push_bit n y AND m)"
  have "x XOR y = (push_bit n x AND m) XOR (push_bit n y AND m)"
    by (rule xor_swap [OF e])
  also have "\<dots> = push_bit n (x XOR y) AND m" by (rule bit_word_eqI) (auto simp: bit_simps)
  finally show "x = y" by (rule xor_zero_imp_eq [OF push_bit_fixpoint [OF n]])
qed

lemma temper_ref_inj: "temper_ref x = temper_ref y \<Longrightarrow> x = y"
proof -
  assume e: "temper_ref x = temper_ref y"
  have p: "0 < (11 :: nat)" "0 < (7 :: nat)" "0 < (15 :: nat)" "0 < (18 :: nat)" by simp_all
  from e [unfolded temper_ref_def Let_def, THEN xor_shift_right_inj [OF p(4)], THEN xor_shift_left_inj [OF p(3)],
      THEN xor_shift_left_inj [OF p(2)], THEN xor_shift_right_inj [OF p(1)]]
  show "x = y" .
qed

section \<open>Properties\<close>

text \<open>
  C16: The outputs after a seeding are the tempered words of the linear recurrence over 32-bit words whose first 624
  words are the seeds, those after a key are the same with the words the key left in the array, and those of the
  generator that was never seeded are those of the seed 5489.
\<close>

theorem genrand_recurrence:
  assumes "length (mt st) = N"
  shows "genrand_outputs n (init_genrand s st) = map (\<lambda>k. wide (temper_ref (mt_seq (seed_seq (narrow s)) (624 + k)))) [0..<n] \<and>
    (init_by_array key len st = Some st' \<longrightarrow>
      genrand_outputs n st' = map (\<lambda>k. wide (temper_ref (mt_seq (\<lambda>i. narrow (mt st' ! i)) (624 + k)))) [0..<n]) \<and>
    genrand_outputs n mt_initial = map (\<lambda>k. wide (temper_ref (mt_seq (seed_seq 5489) (624 + k)))) [0..<n]"
proof -
  have seeded: "genrand_outputs n (init_genrand s st) = map (\<lambda>k. wide (temper_ref (mt_seq (seed_seq (narrow s)) (624 + k)))) [0..<n]"
    if "length (mt st) = N" for s st
  proof -
    have "window (mt_seq (seed_seq (narrow s))) 0 (mt (init_genrand s st))"
      using init_genrand_window(1) [OF that] by (simp add: window_def mt_seq.simps N_def)
    then have "at_word (mt_seq (seed_seq (narrow s))) N (init_genrand s st)"
      using init_genrand_window(2) [OF that, of s] by (simp add: at_word_def)
    from outputs_at_word [OF refl this] show ?thesis by (simp add: N_def)
  qed
  have "genrand_int32 mt_initial = genrand_int32 (init_genrand 5489 mt_initial)"
    by (simp add: genrand_int32_def Let_def init_genrand_window(2)) (simp add: mt_initial_def init_genrand_def)
  then have "genrand_outputs n mt_initial = genrand_outputs n (init_genrand 5489 mt_initial)" by (cases n) simp_all
  also have "\<dots> = map (\<lambda>k. wide (temper_ref (mt_seq (seed_seq 5489) (624 + k)))) [0..<n]"
    using seeded [of mt_initial 5489] by (simp add: mt_initial_def)
  finally show ?thesis
    using seeded [OF assms] genrand_outputs_start [of st' n] init_by_array_ok [OF assms, of key len st'] by (simp add: N_def)
qed

lemma genrand_recurrence_witness:
  "genrand_outputs 2 (init_genrand 1 mt_initial) = map (\<lambda>k. wide (temper_ref (mt_seq (seed_seq 1) (624 + k)))) [0..<2] \<and>
   length (mt mt_initial) = N"
  using genrand_recurrence [of mt_initial 2 1] by (simp add: mt_initial_def)

text \<open>The factor, as a double, is \<open>2 ^ -32 + 2 ^ -64\<close>, a little less than the quotient.\<close>

lemma real1_factor: "nearest_double 84 1 4294967295 = (2 ^ 52 + 2 ^ 20, 84)"
  by (simp add: nearest_double_def scale.simps round_even_def)

lemma genrand_real1_range:
  assumes "unat (fst (genrand_int32 st)) < 2 ^ 32"
  shows "0 \<le> fst (genrand_real1 st) \<and> fst (genrand_real1 st) \<le> 1"
proof -
  obtain y st1 where y: "genrand_int32 st = (y, st1)" by fastforce
  let ?p = "unat y * (2 ^ 52 + 2 ^ 20)"
  define f where "f = scale ?p (2 ^ 84) 84"
  define n where "n = round_even (?p * 2 ^ f) (2 ^ 84)"
  have r: "fst (genrand_real1 st) = of_nat n / 2 ^ f"
    by (simp only: genrand_real1_def y real1_factor nearest_double_def [of 84 ?p] Let_def prod.case fst_conv n_def f_def)
  have "unat y \<le> 2 ^ 32 - 1" using assms y by simp
  then have "?p \<le> (2 ^ 32 - 1) * (2 ^ 52 + 2 ^ 20)" by (rule mult_le_mono1)
  then have "?p \<le> 2 ^ 84" by simp
  then have "?p * 2 ^ f \<le> 2 ^ f * 2 ^ 84" by (simp add: mult.commute mult_le_mono1)
  then have "n \<le> 2 ^ f" unfolding n_def by (rule round_even_le) simp
  then have "(of_nat n :: rat) \<le> of_nat (2 ^ f)" by (simp only: of_nat_le_iff)
  then show ?thesis unfolding r by simp
qed

text \<open>
  C32: Every state of the generator is an array of 624 words below $2^{32}$ with an index into it, behind its end, or the
  mark; a draw leaves an index that it has just used, and its results lie in the ranges the comments state.
\<close>

theorem genrand_types:
  assumes "mt_reachable st"
  shows "length (mt st) = 624 \<and> (\<forall>w \<in> set (mt st). unat w < 2 ^ 32) \<and> mti st \<le> 625 \<and>
    mti (snd (genrand_int32 st)) \<in> {1..624} \<and> unat (fst (genrand_int32 st)) < 2 ^ 32 \<and>
    0 \<le> sint (fst (genrand_int31 st)) \<and> sint (fst (genrand_int31 st)) < 2 ^ 31 \<and>
    0 \<le> fst (genrand_real1 st) \<and> fst (genrand_real1 st) \<le> 1 \<and>
    0 \<le> fst (genrand_real2 st) \<and> fst (genrand_real2 st) < 1 \<and>
    0 < fst (genrand_real3 st) \<and> fst (genrand_real3 st) < 1 \<and>
    0 \<le> fst (genrand_res53 st) \<and> fst (genrand_res53 st) < 1"
proof -
  note ok = mt_ok_reachable [OF assms]
  obtain w where w: "fst (genrand_int32 st) = wide w" using genrand_ok [OF ok] by blast
  define st1 where "st1 = snd (genrand_int32 st)"
  obtain v where v: "fst (genrand_int32 st1) = wide v" using genrand_ok [of st1] genrand_ok [OF ok] by (auto simp: st1_def)
  have w32: "unat w < 4294967296" using unsigned_less [of w] by simp
  have "unat (x AND 0xffffffff) < 2 ^ 32" for x :: u64
    using unsigned_less [of "narrow x"] unat_wide [of "narrow x"] unfolding wide_narrow by simp
  then have a: "\<forall>w \<in> set (mt st). unat w < 2 ^ 32" using ok unfolding mt_ok_def narrow_array_def by metis
  have s: "unat (drop_bit 1 (wide w)) < 2 ^ 31" "unat (drop_bit 5 (wide w)) < 2 ^ 27" "unat (drop_bit 6 (wide v)) < 2 ^ 26"
    using wide_shift_bound [of 1 w] wide_shift_bound [of 5 w] wide_shift_bound [of 6 v] by simp_all
  have i: "sint (drop_bit 1 (wide w)) = int (unat (drop_bit 1 (wide w)))"
    using s(1) by (intro sint_eq_unat64) simp
  obtain st2 where r: "genrand_int32 st = (wide w, st1)" "genrand_int32 st1 = (wide v, st2)"
    using w v unfolding st1_def by (metis prod.collapse)
  define A where "A = unat (drop_bit 5 (wide w))"
  define B where "B = unat (drop_bit 6 (wide v))"
  have nat53: "A * 67108864 + B < 9007199254740992" using s by (simp add: A_def B_def)
  have rat53: "(of_nat A * 67108864 + of_nat B :: rat) < 9007199254740992"
    using nat53 by (metis of_nat_add of_nat_less_iff of_nat_mult of_nat_numeral)
  have rat32: "(of_nat (unat w) :: rat) + 1 \<le> 4294967296"
    using w32 by (metis Suc_leI of_nat_Suc of_nat_le_iff of_nat_numeral add.commute)
  have q: "(unsigned (wide w) :: rat) = unsigned w" using arg_cong [OF unat_wide [of w], of "of_nat :: nat \<Rightarrow> rat"] by simp
  have f: "fst (genrand_int31 st) = drop_bit 1 (wide w)"
    "fst (genrand_real2 st) = of_nat (unat w) / 4294967296"
    "fst (genrand_real3 st) = (of_nat (unat w) + 1 / 2) / 4294967296"
    "fst (genrand_res53 st) = (of_nat A * 67108864 + of_nat B) / 9007199254740992"
    by (simp_all add: genrand_int31_def genrand_real2_def genrand_real3_def genrand_res53_def r q A_def B_def)
  have int31: "0 \<le> sint (fst (genrand_int31 st))" "sint (fst (genrand_int31 st)) < 2 ^ 31"
  proof -
    have "0 \<le> int n \<and> int n < 2 ^ 31" if "n < 2 ^ 31" for n :: nat using that by simp
    from this [OF s(1)] show "0 \<le> sint (fst (genrand_int31 st))" "sint (fst (genrand_int31 st)) < 2 ^ 31"
      unfolding f(1) i by (rule conjunct1, rule conjunct2)
  qed
  have reals: "0 \<le> fst (genrand_real2 st)" "fst (genrand_real2 st) < 1" "0 < fst (genrand_real3 st)" "fst (genrand_real3 st) < 1"
    "0 \<le> fst (genrand_res53 st)" "fst (genrand_res53 st) < 1"
  proof -
    have "0 \<le> (unsigned w :: rat)" using of_nat_0_le_iff [of "unat w", where 'a=rat] by simp
    then show "0 \<le> fst (genrand_real2 st)" "fst (genrand_real2 st) < 1" "0 < fst (genrand_real3 st)" "fst (genrand_real3 st) < 1"
      "0 \<le> fst (genrand_res53 st)" "fst (genrand_res53 st) < 1"
      unfolding f using rat32 rat53 by (simp_all add: field_simps)
  qed
  have "unat (fst (genrand_int32 st)) < 2 ^ 32" using w w32 by (simp add: unat_wide)
  moreover have "length (mt st) = 624" "mti st \<le> 625" using ok by (simp_all add: mt_ok_def narrow_array_def N_def)
  moreover have "mti (snd (genrand_int32 st)) \<in> {1..624}" using genrand_ok [OF ok] by (simp add: N_def)
  ultimately show ?thesis using a int31 reals genrand_real1_range [of st] by blast
qed

lemma genrand_types_witness:
  "0 \<le> sint (fst (genrand_int31 mt_initial)) \<and> fst (genrand_res53 (init_genrand 7 mt_initial)) < 1"
  using genrand_types [OF mt_start] genrand_types [OF mt_seed [OF mt_start]] by blast

text \<open>
  The initialisation by a key below $2^{31}$ words is defined exactly when the array has the words that are read,
  one at least, and then the first word of the state is the one that keeps it from being zero.
\<close>

theorem init_by_array_safe:
  assumes "unat key_length < 2 ^ 31" "length (mt st) = N"
  shows "(\<exists>st'. init_by_array init_key key_length st = Some st' \<and> mt st' ! 0 = 0x80000000 \<and> mti st' = 624 \<and> length (mt st') = 624) \<longleftrightarrow>
    max 1 (unat key_length) \<le> length init_key"
  using init_by_array_defined [of key_length init_key st] init_by_array_ok [OF assms(2), of init_key key_length] assms(1)
  by (auto simp: narrow_array_def N_def)

lemma init_by_array_safe_witness:
  "(\<exists>st'. init_by_array [0x123, 0x234, 0x345, 0x456] 4 mt_initial = Some st' \<and> mt st' ! 0 = 0x80000000) \<and>
   init_by_array [] 0 mt_initial = None"
  using init_by_array_safe [of 4 mt_initial "[0x123, 0x234, 0x345, 0x456]"] init_by_array_safe [of 0 mt_initial "[]"]
    init_by_array_defined [of 0 "[]" mt_initial]
  by (auto simp: mt_initial_def)

end
