(* ===== verification/DList.thy ===== *)
theory DList
  imports CircleQueue
begin

text \<open>
  The doubly linked list of \<open>src/DList-test/MyDList.hpp\<close>: a ring through nodes embedded in the objects and one in
  the list itself.  A node is that of a list (\<open>Head\<close>) or of an object (\<open>Elm\<close>), as in \<open>CircleQueue\<close>, whose rings
  describe these lists too.  \<open>None\<close> is a step through a null pointer.
\<close>

section \<open>Nodes and objects\<close>

record ('h, 'e) dmem =
  m_next :: "('h, 'e) cptr \<Rightarrow> ('h, 'e) cptr"
  m_prev :: "('h, 'e) cptr \<Rightarrow> ('h, 'e) cptr"

text \<open>
  Pointers to objects: an object, the one that a list's own node would be in, which \<open>Null\<close> yields, and the null
  pointer moved by the offset of the node.
\<close>

datatype ('h, 'e) tptr = Object 'e | No_object 'h | Below_null

fun getNode :: "('h, 'e) tptr \<Rightarrow> ('h, 'e) cptr" where
  "getNode (Object e) = Elm e"
| "getNode (No_object h) = Head h"
| "getNode Below_null = Null"

fun getObject :: "('h, 'e) cptr \<Rightarrow> ('h, 'e) tptr" where
  "getObject (Elm e) = Object e"
| "getObject (Head h) = No_object h"
| "getObject Null = Below_null"

definition get_mnext :: "('h, 'e) dmem \<Rightarrow> ('h, 'e) cptr \<Rightarrow> ('h, 'e) cptr option" where
  "get_mnext s n = (if n = Null then None else Some (m_next s n))"

definition get_mprev :: "('h, 'e) dmem \<Rightarrow> ('h, 'e) cptr \<Rightarrow> ('h, 'e) cptr option" where
  "get_mprev s n = (if n = Null then None else Some (m_prev s n))"

definition put_mnext :: "('h, 'e) cptr \<Rightarrow> ('h, 'e) cptr \<Rightarrow> ('h, 'e) dmem \<Rightarrow> ('h, 'e) dmem option" where
  "put_mnext n v s = (if n = Null then None else Some (s\<lparr>m_next := (m_next s)(n := v)\<rparr>))"

definition put_mprev :: "('h, 'e) cptr \<Rightarrow> ('h, 'e) cptr \<Rightarrow> ('h, 'e) dmem \<Rightarrow> ('h, 'e) dmem option" where
  "put_mprev n v s = (if n = Null then None else Some (s\<lparr>m_prev := (m_prev s)(n := v)\<rparr>))"

section \<open>The class DList\<close>

definition DListNode_init :: "'e \<Rightarrow> ('h, 'e) dmem \<Rightarrow> ('h, 'e) dmem" where
  "DListNode_init e s = s\<lparr>m_next := (m_next s)(Elm e := Null)\<rparr>"

definition isOnList :: "('h, 'e) dmem \<Rightarrow> ('h, 'e) cptr \<Rightarrow> bool option" where
  "isOnList s n = do { next \<leftarrow> get_mnext s n; Some (next \<noteq> Null) }"

definition endOfList :: "'h \<Rightarrow> ('h, 'e) cptr" where "endOfList h = Head h"

definition getHeadNode :: "('h, 'e) dmem \<Rightarrow> 'h \<Rightarrow> ('h, 'e) cptr" where "getHeadNode s h = m_next s (Head h)"
definition getTailNode :: "('h, 'e) dmem \<Rightarrow> 'h \<Rightarrow> ('h, 'e) cptr" where "getTailNode s h = m_prev s (Head h)"

definition DList_init :: "'h \<Rightarrow> ('h, 'e) dmem \<Rightarrow> ('h, 'e) dmem option" where
  "DList_init h s = do { s \<leftarrow> put_mnext (Head h) (endOfList h) s; put_mprev (Head h) (endOfList h) s }"

definition isEmpty :: "('h, 'e) dmem \<Rightarrow> 'h \<Rightarrow> bool" where
  "isEmpty s h \<longleftrightarrow> m_next s (Head h) = endOfList h"

text \<open>The destructor: \<open>None\<close> is the failure of its assertion.\<close>

definition DList_destroy :: "'h \<Rightarrow> ('h, 'e) dmem \<Rightarrow> ('h, 'e) dmem option" where
  "DList_destroy h s = (if isEmpty s h then Some s else None)"

definition insertAfter_node :: "('h, 'e) cptr \<Rightarrow> ('h, 'e) cptr \<Rightarrow> ('h, 'e) dmem \<Rightarrow> ('h, 'e) dmem option" where
  "insertAfter_node afterHere n s = do {
     next \<leftarrow> get_mnext s afterHere;
     s \<leftarrow> put_mnext n next s;
     s \<leftarrow> put_mprev n afterHere s;
     s \<leftarrow> put_mnext afterHere n s;
     put_mprev next n s }"

definition insertBefore_node :: "('h, 'e) cptr \<Rightarrow> ('h, 'e) cptr \<Rightarrow> ('h, 'e) dmem \<Rightarrow> ('h, 'e) dmem option" where
  "insertBefore_node beforeHere n s = do {
     prev \<leftarrow> get_mprev s beforeHere;
     s \<leftarrow> put_mnext n beforeHere s;
     s \<leftarrow> put_mprev n prev s;
     s \<leftarrow> put_mnext prev n s;
     put_mprev beforeHere n s }"

definition remove_node :: "('h, 'e) cptr \<Rightarrow> ('h, 'e) dmem \<Rightarrow> ('h, 'e) dmem option" where
  "remove_node n s = do {
     next \<leftarrow> get_mnext s n;
     prev \<leftarrow> get_mprev s n;
     s \<leftarrow> put_mprev next prev s;
     s \<leftarrow> put_mnext prev next s;
     put_mnext n Null s }"

definition addHead :: "'h \<Rightarrow> ('h, 'e) tptr \<Rightarrow> ('h, 'e) dmem \<Rightarrow> ('h, 'e) dmem option" where
  "addHead h t s = insertAfter_node (Head h) (getNode t) s"

definition addTail :: "'h \<Rightarrow> ('h, 'e) tptr \<Rightarrow> ('h, 'e) dmem \<Rightarrow> ('h, 'e) dmem option" where
  "addTail h t s = insertBefore_node (Head h) (getNode t) s"

definition insertAfter :: "('h, 'e) tptr \<Rightarrow> ('h, 'e) tptr \<Rightarrow> ('h, 'e) dmem \<Rightarrow> ('h, 'e) dmem option" where
  "insertAfter afterHere newObject s = insertAfter_node (getNode afterHere) (getNode newObject) s"

definition insertBefore :: "('h, 'e) tptr \<Rightarrow> ('h, 'e) tptr \<Rightarrow> ('h, 'e) dmem \<Rightarrow> ('h, 'e) dmem option" where
  "insertBefore beforeHere newObject s = insertBefore_node (getNode beforeHere) (getNode newObject) s"

definition DList_remove :: "('h, 'e) tptr \<Rightarrow> ('h, 'e) dmem \<Rightarrow> ('h, 'e) dmem option" where
  "DList_remove t s = remove_node (getNode t) s"

definition getHead :: "('h, 'e) dmem \<Rightarrow> 'h \<Rightarrow> ('h, 'e) tptr" where "getHead s h = getObject (m_next s (Head h))"
definition getTail :: "('h, 'e) dmem \<Rightarrow> 'h \<Rightarrow> ('h, 'e) tptr" where "getTail s h = getObject (m_prev s (Head h))"

definition getNext :: "('h, 'e) dmem \<Rightarrow> ('h, 'e) tptr \<Rightarrow> ('h, 'e) tptr option" where
  "getNext s t = do { n \<leftarrow> get_mnext s (getNode t); Some (getObject n) }"

definition getPrev :: "('h, 'e) dmem \<Rightarrow> ('h, 'e) tptr \<Rightarrow> ('h, 'e) tptr option" where
  "getPrev s t = do { n \<leftarrow> get_mprev s (getNode t); Some (getObject n) }"

definition DList_Null :: "'h \<Rightarrow> ('h, 'e) tptr" where "DList_Null h = getObject (Head h)"

definition removeHead :: "'h \<Rightarrow> ('h, 'e) dmem \<Rightarrow> (('h, 'e) tptr \<times> ('h, 'e) dmem) option" where
  "removeHead h s =
     (let t = getObject (m_next s (Head h))
      in if t \<noteq> DList_Null h then do { s \<leftarrow> remove_node (m_next s (Head h)) s; Some (t, s) }
         else Some (t, s))"

partial_function (option) removeAll_loop :: "'h \<Rightarrow> ('h, 'e) cptr \<Rightarrow> ('h, 'e) dmem \<Rightarrow> ('h, 'e) dmem option" where
  "removeAll_loop h n s =
     (if n = endOfList h then Some s
      else do {
        next \<leftarrow> get_mnext s n;
        s \<leftarrow> remove_node n s;
        removeAll_loop h next s })"

definition DList_removeAll :: "'h \<Rightarrow> ('h, 'e) dmem \<Rightarrow> ('h, 'e) dmem option" where
  "DList_removeAll h s = removeAll_loop h (m_next s (Head h)) s"

text \<open>The objects deleted, in order; the memory of a deleted object is not used again.\<close>

partial_function (option) deleteItems_loop :: "'h \<Rightarrow> ('h, 'e) cptr \<Rightarrow> ('h, 'e) dmem \<Rightarrow> ('h, 'e) tptr list option" where
  "deleteItems_loop h n s =
     (if n = endOfList h then Some []
      else do {
        next \<leftarrow> get_mnext s n;
        ts \<leftarrow> deleteItems_loop h next s;
        Some (getObject n # ts) })"

definition deleteItems :: "'h \<Rightarrow> ('h, 'e) dmem \<Rightarrow> (('h, 'e) tptr list \<times> ('h, 'e) dmem) option" where
  "deleteItems h s = do {
     ts \<leftarrow> deleteItems_loop h (m_next s (Head h)) s;
     s \<leftarrow> put_mnext (Head h) (endOfList h) s;
     s \<leftarrow> put_mprev (Head h) (endOfList h) s;
     Some (ts, s) }"

text \<open>The function called may change its context, not the list.\<close>

partial_function (option) foreach_loop ::
  "'h \<Rightarrow> (('h, 'e) tptr \<Rightarrow> 'c \<Rightarrow> int \<times> 'c) \<Rightarrow> ('h, 'e) cptr \<Rightarrow> 'c \<Rightarrow> ('h, 'e) dmem \<Rightarrow> (int \<times> 'c) option" where
  "foreach_loop h f n c s =
     (if n = endOfList h then Some (0, c)
      else let (result, c) = f (getObject n) c
           in if result \<noteq> 0 then Some (result, c)
              else do { next \<leftarrow> get_mnext s n; foreach_loop h f next c s })"

definition DList_foreach :: "'h \<Rightarrow> (('h, 'e) tptr \<Rightarrow> 'c \<Rightarrow> int \<times> 'c) \<Rightarrow> 'c \<Rightarrow> ('h, 'e) dmem \<Rightarrow> (int \<times> 'c) option" where
  "DList_foreach h f c s = foreach_loop h f (getHeadNode s h) c s"

partial_function (option) isMember_loop :: "'h \<Rightarrow> ('h, 'e) tptr \<Rightarrow> ('h, 'e) cptr \<Rightarrow> ('h, 'e) dmem \<Rightarrow> bool option" where
  "isMember_loop h t n s =
     (if n = endOfList h then Some False
      else if getObject n = t then Some True
      else do { next \<leftarrow> get_mnext s n; isMember_loop h t next s })"

definition isMember :: "('h, 'e) dmem \<Rightarrow> 'h \<Rightarrow> ('h, 'e) tptr \<Rightarrow> bool option" where
  "isMember s h t = isMember_loop h t (getHeadNode s h) s"

definition DList_swap :: "('h, 'e) tptr \<Rightarrow> ('h, 'e) tptr \<Rightarrow> ('h, 'e) dmem \<Rightarrow> ('h, 'e) dmem option" where
  "DList_swap item1 item2 s =
     (if item1 = item2 then Some s
      else do {
        prev1 \<leftarrow> getPrev s item1;
        prev2 \<leftarrow> getPrev s item2;
        if prev1 = item2 then do { s \<leftarrow> DList_remove item2 s; insertAfter item1 item2 s }
        else if prev2 = item1 then do { s \<leftarrow> DList_remove item1 s; insertAfter item2 item1 s }
        else do {
          s \<leftarrow> DList_remove item1 s;
          s \<leftarrow> DList_remove item2 s;
          s \<leftarrow> insertAfter prev1 item2 s;
          insertAfter prev2 item1 s } })"

definition moveList :: "'h \<Rightarrow> 'h \<Rightarrow> ('h, 'e) dmem \<Rightarrow> ('h, 'e) dmem option" where
  "moveList h sourceList s =
     (let sourceHead = getHeadNode s sourceList
      in if sourceHead \<noteq> endOfList sourceList
         then let sourceTail = getTailNode s sourceList;
                  beforeHere = Head h;
                  prev = m_prev s beforeHere
              in do {
                s \<leftarrow> put_mnext sourceTail beforeHere s;
                s \<leftarrow> put_mprev sourceHead prev s;
                s \<leftarrow> put_mnext prev sourceHead s;
                put_mprev beforeHere sourceTail s }
         else Some s)"

section \<open>The class CountedDList\<close>

record ('h, 'e) counted =
  mem :: "('h, 'e) dmem"
  m_nodeCount :: "'h \<Rightarrow> u32"

definition CountedDList_init :: "'h \<Rightarrow> ('h, 'e) counted \<Rightarrow> ('h, 'e) counted option" where
  "CountedDList_init h c = do { s \<leftarrow> DList_init h (mem c); Some (c\<lparr>mem := s, m_nodeCount := (m_nodeCount c)(h := 0)\<rparr>) }"

definition Counted_addHead :: "'h \<Rightarrow> ('h, 'e) tptr \<Rightarrow> ('h, 'e) counted \<Rightarrow> ('h, 'e) counted option" where
  "Counted_addHead h t c = do {
     s \<leftarrow> addHead h t (mem c); Some (c\<lparr>mem := s, m_nodeCount := (m_nodeCount c)(h := m_nodeCount c h + 1)\<rparr>) }"

definition Counted_addTail :: "'h \<Rightarrow> ('h, 'e) tptr \<Rightarrow> ('h, 'e) counted \<Rightarrow> ('h, 'e) counted option" where
  "Counted_addTail h t c = do {
     s \<leftarrow> addTail h t (mem c); Some (c\<lparr>mem := s, m_nodeCount := (m_nodeCount c)(h := m_nodeCount c h + 1)\<rparr>) }"

declare removeAll_loop.simps [code] deleteItems_loop.simps [code] foreach_loop.simps [code] isMember_loop.simps [code]



section \<open>Rings of nodes\<close>

definition as_ring :: "('h, 'e) dmem \<Rightarrow> ('h, 'e) cmem" where
  "as_ring s = \<lparr>cqh_first = (\<lambda>h. m_next s (Head h)), cqh_last = (\<lambda>h. m_prev s (Head h)),
     cqe_next = (\<lambda>e. m_next s (Elm e)), cqe_prev = (\<lambda>e. m_prev s (Elm e))\<rparr>"

lemma as_ring_simps [simp]:
  "cqh_first (as_ring s) h = m_next s (Head h)" "cqh_last (as_ring s) h = m_prev s (Head h)"
  "cqe_next (as_ring s) e = m_next s (Elm e)" "cqe_prev (as_ring s) e = m_prev s (Elm e)"
  by (simp_all add: as_ring_def)

lemma ring_ptr: "nextp (as_ring s) p = (if p = Null then Null else m_next s p)"
  "prevp (as_ring s) p = (if p = Null then Null else m_prev s p)"
  by (cases p; simp)+

lemma cend_not_Null [simp]: "cend (Head h) xs \<noteq> Null" "cend (Elm x) xs \<noteq> Null"
  "cbegin xs (Head h) \<noteq> Null" "Null \<noteq> cend (Head h) xs" "Null \<noteq> cbegin xs (Head h)"
  by (auto simp: cend_def cbegin_def split: list.splits)

definition dqueue :: "('h, 'e) dmem \<Rightarrow> 'h \<Rightarrow> 'e list \<Rightarrow> bool" where
  "dqueue s = cqueue (as_ring s)"

definition dspliced :: "('h, 'e) dmem \<Rightarrow> 'h \<Rightarrow> 'e list \<Rightarrow> 'e list \<Rightarrow> 'e list \<Rightarrow> 'e list \<Rightarrow> ('h, 'e) dmem \<Rightarrow> bool" where
  "dspliced s h pre old new post s' \<longleftrightarrow> cspliced (as_ring s) h pre old new post (as_ring s')"

definition demptied :: "('h, 'e) dmem \<Rightarrow> 'h \<Rightarrow> ('h, 'e) dmem \<Rightarrow> bool" where
  "demptied s h s' \<longleftrightarrow> cemptied (as_ring s) h (as_ring s')"

lemma represents_ring: "represents dqueue s q \<longleftrightarrow> cholds (as_ring s) q"
  by (simp add: represents_def dqueue_def)

lemmas node_simps = get_mnext_def get_mprev_def put_mnext_def put_mprev_def

lemma dspliced_iff:
  "dspliced s h pre old new post s' \<longleftrightarrow>
     (\<forall>p. p \<noteq> Null \<longrightarrow> p \<notin> Elm ` (set old \<union> set new) \<longrightarrow> p \<noteq> cend (Head h) pre \<longrightarrow> m_next s' p = m_next s p) \<and>
     (\<forall>p. p \<noteq> Null \<longrightarrow> p \<notin> Elm ` (set old \<union> set new) \<longrightarrow> p \<noteq> cbegin post (Head h) \<longrightarrow> m_prev s' p = m_prev s p) \<and>
     clinks (as_ring s') (cend (Head h) pre) new \<and>
     m_next s' (cend (cend (Head h) pre) new) = cbegin post (Head h) \<and>
     m_prev s' (cbegin post (Head h)) = cend (cend (Head h) pre) new"
proof -
  have "cend (cend (Head h) pre) new \<noteq> Null" by (simp add: cend_def)
  then show ?thesis by (auto simp: dspliced_def cspliced_def ring_ptr)
qed

text \<open>The neighbours of a position in a list.\<close>

lemma dqueue_at:
  assumes "dqueue s h (pre @ post)"
  shows "m_next s (cend (Head h) pre) = cbegin post (Head h)" "m_prev s (cbegin post (Head h)) = cend (Head h) pre"
proof -
  show "m_next s (cend (Head h) pre) = cbegin post (Head h)"
    using assms by (cases post) (simp_all add: dqueue_def cqueue_def ring_ptr)
  show "m_prev s (cbegin post (Head h)) = cend (Head h) pre"
    using assms by (cases post) (simp_all add: dqueue_def cqueue_def ring_ptr)
qed

lemma dqueue_distinct: "dqueue s h xs \<Longrightarrow> distinct xs"
  by (simp add: dqueue_def cqueue_def)

text \<open>Insertion between two neighbours and removal of a node, wherever they are.\<close>

lemma insertAfter_splice:
  assumes "dqueue s h (pre @ post)" "e \<notin> set (pre @ post)"
  shows "\<exists>s'. insertAfter_node (cend (Head h) pre) (Elm e) s = Some s' \<and> dspliced s h pre [] [e] post s'"
proof -
  have n: "Elm e \<noteq> cend (Head h) pre" "Elm e \<noteq> cbegin post (Head h)"
    using assms(2) by (auto simp: cbegin_def dest: last_in_set split: list.splits)
  show ?thesis using dqueue_at [OF assms(1)] n
    by (auto simp add: insertAfter_node_def node_simps dspliced_iff ring_ptr)
qed

lemma insertBefore_splice:
  assumes "dqueue s h (pre @ post)" "e \<notin> set (pre @ post)"
  shows "\<exists>s'. insertBefore_node (cbegin post (Head h)) (Elm e) s = Some s' \<and> dspliced s h pre [] [e] post s'"
proof -
  have n: "Elm e \<noteq> cend (Head h) pre" "Elm e \<noteq> cbegin post (Head h)"
    using assms(2) by (auto simp: cbegin_def dest: last_in_set split: list.splits)
  show ?thesis using dqueue_at [OF assms(1)] n
    by (auto simp add: insertBefore_node_def node_simps dspliced_iff ring_ptr)
qed

lemma remove_splice:
  assumes "dqueue s h (pre @ x # post)"
  shows "\<exists>s'. remove_node (Elm x) s = Some s' \<and> dspliced s h pre [x] [] post s' \<and> m_next s' (Elm x) = Null \<and>
    m_prev s' (Elm x) = m_prev s (Elm x)"
proof -
  have d: "x \<notin> set pre" "x \<notin> set post" using dqueue_distinct [OF assms] by auto
  then have n: "Elm x \<noteq> cend (Head h) pre" "Elm x \<noteq> cbegin post (Head h)"
    by (auto simp: cbegin_def dest: last_in_set split: list.splits)
  have "dqueue s h ((pre @ [x]) @ post)" using assms by simp
  from dqueue_at [OF assms] dqueue_at [OF this] n
  show ?thesis by (simp add: remove_node_def node_simps dspliced_iff ring_ptr)
qed

lemma dlist_splice:
  "dqueue s h xs \<Longrightarrow> e \<notin> set xs \<Longrightarrow> \<exists>s'. addHead h (Object e) s = Some s' \<and> dspliced s h [] [] [e] xs s'"
  "dqueue s h xs \<Longrightarrow> e \<notin> set xs \<Longrightarrow> \<exists>s'. addTail h (Object e) s = Some s' \<and> dspliced s h xs [] [e] [] s'"
  "dqueue s h (pre @ x # post) \<Longrightarrow> e \<notin> set (pre @ x # post) \<Longrightarrow>
   \<exists>s'. insertAfter (Object x) (Object e) s = Some s' \<and> dspliced s h (pre @ [x]) [] [e] post s'"
  "dqueue s h (pre @ x # post) \<Longrightarrow> e \<notin> set (pre @ x # post) \<Longrightarrow>
   \<exists>s'. insertBefore (Object x) (Object e) s = Some s' \<and> dspliced s h pre [] [e] (x # post) s'"
  "dqueue s h (pre @ x # post) \<Longrightarrow> \<exists>s'. DList_remove (Object x) s = Some s' \<and> dspliced s h pre [x] [] post s'"
  "dqueue s h ([] @ x # post) \<Longrightarrow> \<exists>s'. removeHead h s = Some (Object x, s') \<and> dspliced s h [] [x] [] post s'"
proof -
  show "dqueue s h xs \<Longrightarrow> e \<notin> set xs \<Longrightarrow> \<exists>s'. addHead h (Object e) s = Some s' \<and> dspliced s h [] [] [e] xs s'"
    using insertAfter_splice [of s h "[]" xs e] by (simp add: addHead_def)
  show "dqueue s h xs \<Longrightarrow> e \<notin> set xs \<Longrightarrow> \<exists>s'. addTail h (Object e) s = Some s' \<and> dspliced s h xs [] [e] [] s'"
    using insertBefore_splice [of s h xs "[]" e] by (simp add: addTail_def)
  show "dqueue s h (pre @ x # post) \<Longrightarrow> e \<notin> set (pre @ x # post) \<Longrightarrow>
   \<exists>s'. insertAfter (Object x) (Object e) s = Some s' \<and> dspliced s h (pre @ [x]) [] [e] post s'"
    using insertAfter_splice [of s h "pre @ [x]" post e] by (simp add: insertAfter_def)
  show "dqueue s h (pre @ x # post) \<Longrightarrow> e \<notin> set (pre @ x # post) \<Longrightarrow>
   \<exists>s'. insertBefore (Object x) (Object e) s = Some s' \<and> dspliced s h pre [] [e] (x # post) s'"
    using insertBefore_splice [of s h pre "x # post" e] by (simp add: insertBefore_def)
  show "dqueue s h (pre @ x # post) \<Longrightarrow> \<exists>s'. DList_remove (Object x) s = Some s' \<and> dspliced s h pre [x] [] post s'"
    using remove_splice [of s h pre x post] by (auto simp: DList_remove_def)
  show "\<exists>s'. removeHead h s = Some (Object x, s') \<and> dspliced s h [] [x] [] post s'" if "dqueue s h ([] @ x # post)"
    using remove_splice [OF that] dqueue_at(1) [OF that]
    by (auto simp: removeHead_def DList_Null_def)
qed

section \<open>The commands\<close>

fun dlist_cmd :: "('h, 'e) qcmd \<Rightarrow> bool" where
  "dlist_cmd (Remove_head_until h e) = False"
| "dlist_cmd c = True"

fun dlist_step :: "('h, 'e) qcmd \<Rightarrow> ('h, 'e) dmem \<Rightarrow> ('h, 'e) dmem option" where
  "dlist_step (Init h) s = DList_init h s"
| "dlist_step (Insert_head h e) s = addHead h (Object e) s"
| "dlist_step (Insert_tail h e) s = addTail h (Object e) s"
| "dlist_step (Insert_after h x e) s = insertAfter (Object x) (Object e) s"
| "dlist_step (Insert_before h x e) s = insertBefore (Object x) (Object e) s"
| "dlist_step (Remove_head h) s = do { (t, s) \<leftarrow> removeHead h s; Some s }"
| "dlist_step (Remove h e) s = DList_remove (Object e) s"
| "dlist_step (Remove_head_until h e) s = None"

lemma dlist_does: "dlist_cmd c \<Longrightarrow> does dqueue dspliced demptied s c (dlist_step c s)"
  using dlist_splice [where s = s]
  by (cases c) (fastforce simp: DList_init_def node_simps demptied_def cemptied_def as_ring_def endOfList_def fun_eq_iff)+

text \<open>The objects from the head on, as a caller collects them with \<open>foreach\<close>.\<close>

definition collect :: "('h, 'e) tptr \<Rightarrow> 'e list \<Rightarrow> int \<times> 'e list" where
  "collect t acc = (case t of Object e \<Rightarrow> (0, acc @ [e]) | _ \<Rightarrow> (1, acc))"

definition dlist_objects :: "('h, 'e) dmem \<Rightarrow> 'h \<Rightarrow> 'e list option" where
  "dlist_objects s h = do { (r, xs) \<leftarrow> DList_foreach h collect [] s; if r = 0 then Some xs else None }"

lemma foreach_suffix:
  assumes "dqueue s h (pre @ post)"
  shows "foreach_loop h f (cbegin post (Head h)) c s = Some (fold (\<lambda>e (r, c). if r \<noteq> 0 then (r, c) else f (Object e) c) post (0, c))"
  using assms
proof (induction post arbitrary: pre c)
  case Nil
  show ?case by (subst foreach_loop.simps) (simp add: endOfList_def)
next
  case (Cons x post)
  have q: "dqueue s h ((pre @ [x]) @ post)" using Cons.prems by simp
  obtain r c' where f: "f (Object x) c = (r, c')" by fastforce
  have skip: "r \<noteq> 0 \<Longrightarrow> fold (\<lambda>e (r, c). if r \<noteq> 0 then (r, c) else f (Object e) c) xs (r, c') = (r, c')" for xs
    by (induction xs) simp_all
  show ?case using Cons.IH [OF q] dqueue_at(1) [OF q] f skip
    by (subst foreach_loop.simps) (simp add: endOfList_def node_simps)
qed

lemma collect_fold: "fold (\<lambda>e (r, c). if r \<noteq> 0 then (r, c) else collect (Object e) c) xs (0, acc) = (0, acc @ xs)"
  by (induction xs arbitrary: acc) (simp_all add: collect_def)

lemma dlist_objects_queue: "dqueue s h xs \<Longrightarrow> dlist_objects s h = Some xs"
  using foreach_suffix [of s h "[]" xs collect "[]"] dqueue_at(1) [of s h "[]" xs]
  by (simp add: dlist_objects_def DList_foreach_def getHeadNode_def collect_fold)

interpretation dlist: queue_macros dqueue dspliced demptied dlist_cmd dlist_step dlist_objects
proof
  show "represents dqueue s' (q(h \<mapsto> pre @ new @ post))"
    if "represents dqueue s q" "q h = Some (pre @ old @ post)" "dspliced s h pre old new post s'" "distinct new"
      "\<And>e. e \<in> set new \<Longrightarrow> unqueued q e" for s q h pre old new post s'
    using csplice [OF that(1,2) [unfolded represents_ring]] that(3-5) by (simp add: represents_ring dspliced_def)
  show "represents dqueue s' (q(h \<mapsto> []))" if "represents dqueue s q" "demptied s h s'" for s q h s'
    using cemptied that by (simp add: represents_ring demptied_def)
qed (use dlist_does dlist_objects_queue in auto)



section \<open>The other operations\<close>

lemma getNode_getObject [simp]: "getNode (getObject n) = n" "getObject (getNode t) = t"
  by (cases n; simp) (cases t; simp)

lemma getObject_eq [simp]: "getObject n = Object e \<longleftrightarrow> n = Elm e" "Object e = getObject n \<longleftrightarrow> n = Elm e"
  by (cases n; auto)+

lemma rep_remove:
  assumes "represents dqueue s q" "q h = Some (pre @ x # post)"
  shows "\<exists>s'. remove_node (Elm x) s = Some s' \<and> represents dqueue s' (q(h \<mapsto> pre @ post)) \<and> m_next s' (Elm x) = Null \<and>
    (\<forall>e. e \<noteq> x \<longrightarrow> m_next s (Elm e) = Null \<longrightarrow> m_next s' (Elm e) = Null)"
proof -
  note q = represents_queue [OF assms]
  obtain s' where s': "remove_node (Elm x) s = Some s'" "dspliced s h pre [x] [] post s'" "m_next s' (Elm x) = Null"
    using remove_splice [OF q] by blast
  have qh: "q h = Some (pre @ [x] @ post)" using assms(2) by simp
  have "represents dqueue s' (q(h \<mapsto> pre @ [] @ post))"
    by (rule dlist.splice [OF assms(1) qh s'(2)]) simp_all
  then have r: "represents dqueue s' (q(h \<mapsto> pre @ post))" by simp
  have qx: "dqueue s h (pre @ (x # post))" using q by simp
  have "m_next s' (Elm e) = m_next s (Elm e)" if "e \<noteq> x" "m_next s (Elm e) = Null" for e
  proof -
    have "Elm e \<noteq> cend (Head h) pre" 
    proof
      assume "Elm e = cend (Head h) pre"
      with dqueue_at(1) [OF qx] that(2) show False by (simp del: cend_eq)
    qed
    then show ?thesis using s'(2) that(1) by (auto simp: dspliced_iff)
  qed
  then show ?thesis using s'(1,3) r by auto
qed

lemma rep_insertAfter:
  assumes "represents dqueue s q" "q h = Some (pre @ post)" "unqueued q e"
  shows "\<exists>s'. insertAfter_node (cend (Head h) pre) (Elm e) s = Some s' \<and> represents dqueue s' (q(h \<mapsto> pre @ e # post))"
proof -
  note q = represents_queue [OF assms(1,2)]
  have "e \<notin> set (pre @ post)" by (rule unqueuedD [OF assms(3,2)])
  with insertAfter_splice [OF q] obtain s' where
    s': "insertAfter_node (cend (Head h) pre) (Elm e) s = Some s'" "dspliced s h pre [] [e] post s'" by blast
  have qh: "q h = Some (pre @ [] @ post)" using assms(2) by simp
  have "represents dqueue s' (q(h \<mapsto> pre @ [e] @ post))"
    by (rule dlist.splice [OF assms(1) qh s'(2)]) (use assms(3) in auto)
  then show ?thesis using s'(1) by auto
qed

lemma rep_disjoint: "represents queue s q \<Longrightarrow> q h = Some xs \<Longrightarrow> x \<in> set xs \<Longrightarrow> q h' = Some ys \<Longrightarrow> h' \<noteq> h \<Longrightarrow> x \<notin> set ys"
  unfolding represents_def by blast

lemma unqueued_removed:
  "represents dqueue s q \<Longrightarrow> q h = Some xs \<Longrightarrow> e \<in> set xs \<Longrightarrow> e \<notin> set ys \<Longrightarrow> unqueued (q(h \<mapsto> ys)) e"
  unfolding unqueued_def by (auto dest: rep_disjoint)

lemma rep_prev:
  assumes "represents dqueue s q" "q h = Some (pre @ x # post)"
  shows "getPrev s (Object x) = Some (getObject (cend (Head h) pre))"
  using dqueue_at(2) [of s h pre "x # post"] represents_queue [OF assms] by (simp add: getPrev_def node_simps)

lemma swap_adjacent:
  assumes r: "represents dqueue s q" "q h = Some (pre @ x # y # post)"
  shows "\<exists>s'. do { s \<leftarrow> DList_remove (Object x) s; insertAfter (Object y) (Object x) s } = Some s' \<and>
    represents dqueue s' (q(h \<mapsto> pre @ y # x # post))"
proof -
  have d: "distinct (pre @ x # y # post)" by (rule dqueue_distinct [OF represents_queue [OF r]])
  obtain s1 where s1: "remove_node (Elm x) s = Some s1" "represents dqueue s1 (q(h \<mapsto> pre @ y # post))"
    using rep_remove [OF r] by auto
  have u: "unqueued (q(h \<mapsto> pre @ y # post)) x" by (rule unqueued_removed [OF r]) (use d in auto)
  have q1: "(q(h \<mapsto> pre @ y # post)) h = Some ((pre @ [y]) @ post)" by simp
  from rep_insertAfter [OF s1(2) q1 u] s1(1) show ?thesis by (simp add: DList_remove_def insertAfter_def)
qed

lemma swap_apart:
  assumes r: "represents dqueue s q" "q h = Some (pre @ x # mid @ y # post)"
  shows "\<exists>s1 s2. remove_node (Elm x) s = Some s1 \<and> remove_node (Elm y) s1 = Some s2 \<and>
      represents dqueue s2 (q(h \<mapsto> pre @ mid @ post))"
    and "\<exists>s1 s2. remove_node (Elm y) s = Some s1 \<and> remove_node (Elm x) s1 = Some s2 \<and>
      represents dqueue s2 (q(h \<mapsto> pre @ mid @ post))"
proof -
  have q2: "q h = Some ((pre @ x # mid) @ y # post)" using r(2) by simp
  obtain s1 where s1: "remove_node (Elm x) s = Some s1" "represents dqueue s1 (q(h \<mapsto> pre @ mid @ y # post))"
    using rep_remove [OF r] by blast
  have "(q(h \<mapsto> pre @ mid @ y # post)) h = Some ((pre @ mid) @ y # post)" by simp
  from rep_remove [OF s1(2) this]
  have "\<exists>s2. remove_node (Elm y) s1 = Some s2 \<and> represents dqueue s2 (q(h \<mapsto> (pre @ mid) @ post))"
    unfolding fun_upd_upd by blast
  with s1(1) show "\<exists>s1 s2. remove_node (Elm x) s = Some s1 \<and> remove_node (Elm y) s1 = Some s2 \<and>
      represents dqueue s2 (q(h \<mapsto> pre @ mid @ post))" by auto
  obtain t1 where t1: "remove_node (Elm y) s = Some t1" "represents dqueue t1 (q(h \<mapsto> pre @ x # mid @ post))"
    using rep_remove [OF r(1) q2] by auto
  have "(q(h \<mapsto> pre @ x # mid @ post)) h = Some (pre @ x # mid @ post)" by simp
  from rep_remove [OF t1(2) this]
  have "\<exists>s2. remove_node (Elm x) t1 = Some s2 \<and> represents dqueue s2 (q(h \<mapsto> pre @ mid @ post))"
    unfolding fun_upd_upd by blast
  with t1(1) show "\<exists>s1 s2. remove_node (Elm y) s = Some s1 \<and> remove_node (Elm x) s1 = Some s2 \<and>
      represents dqueue s2 (q(h \<mapsto> pre @ mid @ post))" by auto
qed

text \<open>Both insertions, at the places of the two elements removed.\<close>

lemma swap_insert:
  assumes r: "represents dqueue s q" "q h = Some (pre @ mid @ post)" and u: "unqueued q x" "unqueued q y" "x \<noteq> y"
  shows "mid \<noteq> [] \<Longrightarrow> \<exists>s'. do { s \<leftarrow> insertAfter_node (cend (Head h) pre) (Elm y) s; insertAfter_node (cend (Head h) (pre @ mid)) (Elm x) s } = Some s' \<and>
      represents dqueue s' (q(h \<mapsto> pre @ y # mid @ x # post))"
    and "\<exists>s'. do { s \<leftarrow> insertAfter_node (cend (Head h) (pre @ mid)) (Elm y) s; insertAfter_node (cend (Head h) pre) (Elm x) s } = Some s' \<and>
      represents dqueue s' (q(h \<mapsto> pre @ x # mid @ y # post))"
proof -
  have q2: "q h = Some ((pre @ mid) @ post)" using r(2) by simp
  have frame: "unqueued (q(h \<mapsto> zs)) x" if "x \<notin> set zs" for zs using u(1) that by (auto simp: unqueued_def)
  have nx: "x \<notin> set (pre @ mid @ post)" by (rule unqueuedD [OF u(1) r(2)])
  show "\<exists>s'. do { s \<leftarrow> insertAfter_node (cend (Head h) pre) (Elm y) s; insertAfter_node (cend (Head h) (pre @ mid)) (Elm x) s } = Some s' \<and>
      represents dqueue s' (q(h \<mapsto> pre @ y # mid @ x # post))" if m: "mid \<noteq> []"
  proof -
    obtain s1 where s1: "insertAfter_node (cend (Head h) pre) (Elm y) s = Some s1" "represents dqueue s1 (q(h \<mapsto> pre @ y # mid @ post))"
      using rep_insertAfter [OF r u(2)] by blast
    have q1: "(q(h \<mapsto> pre @ y # mid @ post)) h = Some ((pre @ y # mid) @ post)" by simp
    have "cend (Head h) (pre @ y # mid) = cend (Head h) (pre @ mid)" using m by (simp add: cend_def)
    with rep_insertAfter [OF s1(2) q1 frame] s1(1) nx u(3)
    show ?thesis by auto
  qed
  obtain s1 where s1: "insertAfter_node (cend (Head h) (pre @ mid)) (Elm y) s = Some s1" "represents dqueue s1 (q(h \<mapsto> pre @ mid @ y # post))"
    using rep_insertAfter [OF r(1) q2 u(2)] by auto
  have q1: "(q(h \<mapsto> pre @ mid @ y # post)) h = Some (pre @ mid @ y # post)" by simp
  from rep_insertAfter [OF s1(2) q1 frame] s1(1) nx u(3)
  show "\<exists>s'. do { s \<leftarrow> insertAfter_node (cend (Head h) (pre @ mid)) (Elm y) s; insertAfter_node (cend (Head h) pre) (Elm x) s } = Some s' \<and>
      represents dqueue s' (q(h \<mapsto> pre @ x # mid @ y # post))" by auto
qed

definition exchange :: "'e \<Rightarrow> 'e \<Rightarrow> 'e \<Rightarrow> 'e" where
  "exchange x y e = (if e = x then y else if e = y then x else e)"

lemma exchange_list:
  "distinct (pre @ x # mid @ y # post) \<Longrightarrow> map (exchange x y) (pre @ x # mid @ y # post) = pre @ y # mid @ x # post"
  "exchange x y = exchange y x"
proof -
  have m: "map (exchange x y) zs = zs" if "x \<notin> set zs" "y \<notin> set zs" for zs
    using that by (intro map_idI) (auto simp: exchange_def)
  assume "distinct (pre @ x # mid @ y # post)"
  then show "map (exchange x y) (pre @ x # mid @ y # post) = pre @ y # mid @ x # post"
    using m [of pre] m [of mid] m [of post] by (auto simp: exchange_def)
next
  show "exchange x y = exchange y x" by (auto simp: exchange_def fun_eq_iff)
qed

lemma swap_first_last:
  assumes r: "represents dqueue s q" "q h = Some (pre @ x # mid @ y # post)"
  shows "(\<exists>s'. DList_swap (Object x) (Object y) s = Some s' \<and> represents dqueue s' (q(h \<mapsto> pre @ y # mid @ x # post))) \<and>
    (\<exists>s'. DList_swap (Object y) (Object x) s = Some s' \<and> represents dqueue s' (q(h \<mapsto> pre @ y # mid @ x # post)))"
proof -
  have d: "distinct (pre @ x # mid @ y # post)" by (rule dqueue_distinct [OF represents_queue [OF r]])
  have q2: "q h = Some ((pre @ x # mid) @ y # post)" using r(2) by simp
  have px: "getPrev s (Object x) = Some (getObject (cend (Head h) pre))" by (rule rep_prev [OF r])
  have py: "getPrev s (Object y) = Some (getObject (cend (Head h) (pre @ x # mid)))" by (rule rep_prev [OF r(1) q2])
  have nx: "cend (Head h) pre \<noteq> Elm y" "x \<noteq> y" using d by (auto dest: last_in_set)
  show ?thesis
  proof (cases "mid = []")
    case True
    then show ?thesis using swap_adjacent [of s q h pre x y post] r px py nx by (auto simp add: DList_swap_def)
  next
    case False
    have e: "cend (Head h) (pre @ x # mid) = cend (Head h) (pre @ mid)" using False by (simp add: cend_def)
    have ny: "cend (Head h) (pre @ mid) \<noteq> Elm x" "cend (Head h) (pre @ mid) \<noteq> Elm y" "cend (Head h) pre \<noteq> Elm x"
    proof -
      have m: "cend (Head h) (pre @ mid) = Elm (last mid)" "last mid \<in> set mid" using False by (simp_all add: cend_def)
      then show "cend (Head h) (pre @ mid) \<noteq> Elm x" "cend (Head h) (pre @ mid) \<noteq> Elm y" using d unfolding m(1) by auto
      show "cend (Head h) pre \<noteq> Elm x" using d by (auto dest: last_in_set)
    qed
    have u: "unqueued (q(h \<mapsto> pre @ mid @ post)) x" "unqueued (q(h \<mapsto> pre @ mid @ post)) y"
      by (rule unqueued_removed [OF r]; use d in auto)+
    have qm: "(q(h \<mapsto> pre @ mid @ post)) h = Some (pre @ mid @ post)" by simp
    obtain s1 s2 where s: "remove_node (Elm x) s = Some s1" "remove_node (Elm y) s1 = Some s2"
      "represents dqueue s2 (q(h \<mapsto> pre @ mid @ post))" using swap_apart(1) [OF r] by blast
    obtain t1 t2 where t: "remove_node (Elm y) s = Some t1" "remove_node (Elm x) t1 = Some t2"
      "represents dqueue t2 (q(h \<mapsto> pre @ mid @ post))" using swap_apart(2) [OF r] by blast
    have 1: "DList_swap (Object x) (Object y) s = do { s \<leftarrow> insertAfter_node (cend (Head h) pre) (Elm y) s2;
        insertAfter_node (cend (Head h) (pre @ mid)) (Elm x) s }"
      unfolding DList_swap_def px py e using nx ny s(1,2) by (simp add: DList_remove_def insertAfter_def [abs_def] del: cend_simps cend_eq)
    have 2: "DList_swap (Object y) (Object x) s = do { s \<leftarrow> insertAfter_node (cend (Head h) (pre @ mid)) (Elm x) t2;
        insertAfter_node (cend (Head h) pre) (Elm y) s }"
      unfolding DList_swap_def px py e using nx ny t(1,2) by (simp add: DList_remove_def insertAfter_def [abs_def] del: cend_simps cend_eq)
    show ?thesis unfolding 1 2
      using swap_insert(1) [OF s(3) qm u nx(2) False] swap_insert(2) [OF t(3) qm u(2,1) nx(2) [symmetric]] by simp
  qed
qed

lemma swap_exchanges:
  assumes "represents dqueue s q" "q h = Some xs" "x \<in> set xs" "y \<in> set xs"
  shows "\<exists>s'. DList_swap (Object x) (Object y) s = Some s' \<and> represents dqueue s' (q(h \<mapsto> map (exchange x y) xs))"
proof (cases "x = y")
  case True
  then have "map (exchange x y) xs = xs" by (intro map_idI) (simp add: exchange_def)
  then have "q(h \<mapsto> map (exchange x y) xs) = q" using assms(2) by auto
  then show ?thesis using True assms(1) by (simp add: DList_swap_def)
next
  case False
  have d: "distinct xs" by (rule dqueue_distinct [OF represents_queue [OF assms(1,2)]])
  obtain pre rest where p: "xs = pre @ x # rest" using assms(3) by (meson split_list)
  consider "y \<in> set rest" | "y \<in> set pre" using assms(4) p False by auto
  then show ?thesis
  proof cases
    case 1
    then obtain mid post where "rest = mid @ y # post" by (meson split_list)
    then have xs: "xs = pre @ x # mid @ y # post" using p by simp
    show ?thesis using swap_first_last [OF assms(1), of h pre x mid y post] assms(2) exchange_list(1) [of pre x mid y post] d xs by simp
  next
    case 2
    then obtain a mid where "pre = a @ y # mid" by (meson split_list)
    then have xs: "xs = a @ y # mid @ x # rest" using p by simp
    show ?thesis using swap_first_last [OF assms(1), of h a y mid x rest] assms(2) exchange_list(1) [of a y mid x rest] d xs
      by (simp add: exchange_list(2) [of x y])
  qed
qed

text \<open>The list that is moved is not made empty: its node still leads to the objects.\<close>

lemma moveList_moves:
  assumes r: "represents dqueue s q" "q h = Some xs" "q src = Some ys" and ne: "h \<noteq> src"
  shows "\<exists>s'. moveList h src s = Some s' \<and> represents dqueue s' (q(src := None, h \<mapsto> xs @ ys)) \<and>
    (isEmpty s' src \<longleftrightarrow> ys = [])"
proof -
  have qx: "dqueue s h (xs @ [])" "dqueue s src ([] @ ys)" "dqueue s src (ys @ [])"
    using represents_queue [OF r(1)] r(2,3) by simp_all
  note x = dqueue_at [OF qx(1)] and y = dqueue_at [OF qx(2)] and z = dqueue_at [OF qx(3)]
  have disj: "set xs \<inter> set ys = {}" using r ne unfolding represents_def by blast
  have q1: "represents dqueue s (q(src := None))" using r(1) unfolding represents_def by (auto split: if_splits)
  show ?thesis
  proof (cases ys)
    case Nil
    then have "moveList h src s = Some s" using y(1) by (simp add: moveList_def getHeadNode_def endOfList_def)
    moreover have "q(src := None, h \<mapsto> xs @ ys) = q(src := None)" using Nil r(2) ne by (auto simp: fun_eq_iff)
    moreover have "isEmpty s src" using y(1) Nil by (simp add: isEmpty_def endOfList_def)
    ultimately show ?thesis using q1 Nil by simp
  next
    case (Cons a as)
    have d: "distinct (a # as)" using dqueue_distinct [OF qx(3)] Cons by simp
    have links: "clinks (as_ring s) (Elm a) as" using qx(3) Cons by (simp add: dqueue_def cqueue_def)
    define l where "l = last (a # as)"
    have nodes: "m_next s (Head src) = Elm a" "m_prev s (Head src) = Elm l" "m_prev s (Head h) = cend (Head h) xs"
      "m_next s (cend (Head h) xs) = Head h"
      using x y z Cons by (simp_all add: l_def cend_def)
    define s' where "s' = s\<lparr>m_next := (m_next s)(Elm l := Head h, cend (Head h) xs := Elm a),
       m_prev := (m_prev s)(Elm a := cend (Head h) xs, Head h := Elm l)\<rparr>"
    have move: "moveList h src s = Some s'"
      using nodes by (simp add: moveList_def getHeadNode_def getTailNode_def endOfList_def Let_def node_simps s'_def)
    have lx: "Elm l \<noteq> cend (Head h) xs" "l \<in> set (a # as)"
    proof -
      show "l \<in> set (a # as)" unfolding l_def by (rule last_in_set) simp
      then show "Elm l \<noteq> cend (Head h) xs" using disj Cons by (auto dest: last_in_set)
    qed
    have "clinks (as_ring s') (Elm a) as"
    proof -
      have "clinks (as_ring s') (Elm a) as \<longleftrightarrow> clinks (as_ring s) (Elm a) as"
      proof (rule clinks_frame)
        show "cqe_prev (as_ring s') v = cqe_prev (as_ring s) v" if "v \<in> set as" for v
          using that d by (auto simp: s'_def)
        show "cqe_next (as_ring s') v = cqe_next (as_ring s) v" if "v \<in> set (butlast as)" for v
        proof -
          have "v \<in> set as" using that by (rule in_set_butlastD)
          moreover have "v \<noteq> l" using that d by (cases as rule: rev_cases) (auto simp: l_def)
          ultimately show ?thesis using disj Cons by (auto simp: s'_def dest: last_in_set)
        qed
        show "nextp (as_ring s') (Elm a) = nextp (as_ring s) (Elm a)" if "as \<noteq> []"
        proof -
          have "a \<noteq> l" using that d by (auto simp: l_def)
          then show ?thesis using disj Cons by (auto simp: s'_def dest: last_in_set)
        qed
      qed
      then show ?thesis using links by simp
    qed
    moreover have "cend (Elm a) as = Elm l" by (simp add: l_def cend_def)
    ultimately have sp: "dspliced s h xs [] ys [] s'"
      using lx Cons unfolding dspliced_iff by (auto simp: s'_def ring_ptr)
    have "(q(src := None)) h = Some (xs @ [] @ [])" using r(2) ne by simp
    moreover have "unqueued (q(src := None)) e" if "e \<in> set ys" for e
      using rep_disjoint [OF r(1,3) that] by (auto simp: unqueued_def)
    moreover have "distinct ys" using d Cons by simp
    ultimately have "represents dqueue s' ((q(src := None))(h \<mapsto> xs @ ys @ []))"
      by (intro dlist.splice [OF q1 _ sp])
    moreover have "\<not> isEmpty s' src"
      using nodes(1) ne by (auto simp: isEmpty_def endOfList_def s'_def)
    ultimately show ?thesis using move Cons by simp
  qed
qed

lemma removeAll_loop_empties:
  "represents dqueue s q \<Longrightarrow> q h = Some xs \<Longrightarrow>
   \<exists>s'. removeAll_loop h (cbegin xs (Head h)) s = Some s' \<and> represents dqueue s' (q(h \<mapsto> [])) \<and>
     (\<forall>e \<in> set xs. m_next s' (Elm e) = Null) \<and> (\<forall>e. m_next s (Elm e) = Null \<longrightarrow> m_next s' (Elm e) = Null)"
proof (induction xs arbitrary: s q)
  case Nil
  then show ?case by (subst removeAll_loop.simps) (simp add: endOfList_def map_upd_triv)
next
  case (Cons x xs)
  have qx: "q h = Some ([] @ x # xs)" using Cons.prems(2) by simp
  obtain s1 where s1: "remove_node (Elm x) s = Some s1" "represents dqueue s1 (q(h \<mapsto> xs))" "m_next s1 (Elm x) = Null"
    "\<forall>e. e \<noteq> x \<longrightarrow> m_next s (Elm e) = Null \<longrightarrow> m_next s1 (Elm e) = Null"
    using rep_remove [OF Cons.prems(1) qx] by auto
  have q1: "(q(h \<mapsto> xs)) h = Some xs" by simp
  from Cons.IH [OF s1(2) q1] obtain s2 where s2: "removeAll_loop h (cbegin xs (Head h)) s1 = Some s2"
    "represents dqueue s2 (q(h \<mapsto> []))" "\<forall>e \<in> set xs. m_next s2 (Elm e) = Null"
    "\<forall>e. m_next s1 (Elm e) = Null \<longrightarrow> m_next s2 (Elm e) = Null" unfolding fun_upd_upd by blast
  have "dqueue s h ([x] @ xs)" using represents_queue [OF Cons.prems] by simp
  from dqueue_at(1) [OF this] have "m_next s (Elm x) = cbegin xs (Head h)" by simp
  then have "removeAll_loop h (cbegin (x # xs) (Head h)) s = Some s2"
    using s1(1) s2(1) by (subst removeAll_loop.simps) (simp add: endOfList_def node_simps)
  moreover have "m_next s2 (Elm e) = Null" if "m_next s (Elm e) = Null" for e
    using s1(3,4) s2(4) that by (cases "e = x") auto
  moreover have "\<forall>e \<in> set (x # xs). m_next s2 (Elm e) = Null" using s2(3,4) s1(3) by simp
  ultimately show ?case using s2(2) by blast
qed

lemma DList_removeAll_empties:
  assumes "represents dqueue s q" "q h = Some xs"
  shows "\<exists>s'. DList_removeAll h s = Some s' \<and> represents dqueue s' (q(h \<mapsto> [])) \<and> (\<forall>e \<in> set xs. isOnList s' (Elm e) = Some False)"
proof -
  have "dqueue s h ([] @ xs)" using represents_queue [OF assms] by simp
  from dqueue_at(1) [OF this] have "m_next s (Head h) = cbegin xs (Head h)" by simp
  with removeAll_loop_empties [OF assms] show ?thesis by (auto simp: DList_removeAll_def isOnList_def node_simps)
qed

lemma isMember_suffix:
  assumes "dqueue s h (pre @ post)"
  shows "isMember_loop h (Object e) (cbegin post (Head h)) s = Some (e \<in> set post)"
  using assms
proof (induction post arbitrary: pre)
  case Nil
  show ?case by (subst isMember_loop.simps) (simp add: endOfList_def)
next
  case (Cons x post)
  have q: "dqueue s h ((pre @ [x]) @ post)" using Cons.prems by simp
  show ?case using Cons.IH [OF q] dqueue_at(1) [OF q]
    by (subst isMember_loop.simps) (auto simp: endOfList_def node_simps)
qed

lemma deleteItems_suffix:
  assumes "dqueue s h (pre @ post)"
  shows "deleteItems_loop h (cbegin post (Head h)) s = Some (map Object post)"
  using assms
proof (induction post arbitrary: pre)
  case Nil
  show ?case by (subst deleteItems_loop.simps) (simp add: endOfList_def)
next
  case (Cons x post)
  have q: "dqueue s h ((pre @ [x]) @ post)" using Cons.prems by simp
  show ?case using Cons.IH [OF q] dqueue_at(1) [OF q]
    by (subst deleteItems_loop.simps) (auto simp: endOfList_def node_simps)
qed

lemma dlist_queries:
  assumes "dqueue s h xs"
  shows "isMember s h (Object e) = Some (e \<in> set xs)" "isEmpty s h \<longleftrightarrow> xs = []"
    "getHead s h = (if xs = [] then DList_Null h else Object (hd xs))"
    "getTail s h = (if xs = [] then DList_Null h else Object (last xs))"
proof -
  have q: "dqueue s h ([] @ xs)" "dqueue s h (xs @ [])" using assms by simp_all
  show "isMember s h (Object e) = Some (e \<in> set xs)"
    using isMember_suffix [OF q(1), of e] dqueue_at(1) [OF q(1)] by (simp add: isMember_def getHeadNode_def)
  show "isEmpty s h \<longleftrightarrow> xs = []" "getHead s h = (if xs = [] then DList_Null h else Object (hd xs))"
    using dqueue_at(1) [OF q(1)] by (cases xs; simp add: isEmpty_def endOfList_def getHead_def DList_Null_def)+
  show "getTail s h = (if xs = [] then DList_Null h else Object (last xs))"
    using dqueue_at(2) [OF q(2)] by (simp add: getTail_def DList_Null_def cend_def)
qed

lemma deleteItems_deletes:
  assumes "represents dqueue s q" "q h = Some xs"
  shows "\<exists>s'. deleteItems h s = Some (map Object xs, s') \<and> represents dqueue s' (q(h \<mapsto> []))"
proof -
  have q: "dqueue s h ([] @ xs)" using represents_queue [OF assms] by simp
  define s' where "s' = s\<lparr>m_next := (m_next s)(Head h := Head h), m_prev := (m_prev s)(Head h := Head h)\<rparr>"
  have "deleteItems h s = Some (map Object xs, s')"
    using deleteItems_suffix [OF q] dqueue_at(1) [OF q] by (simp add: deleteItems_def endOfList_def node_simps s'_def)
  moreover have "demptied s h s'" by (simp add: s'_def demptied_def cemptied_def as_ring_def fun_eq_iff)
  ultimately show ?thesis using dlist.emptied [OF assms(1)] by blast
qed

section \<open>Properties\<close>

text \<open>
  C13: Whatever commands of the class are given to lists in one memory, each on a constructed list, inserting objects
  that are in no list and naming members: no null pointer is followed, and afterwards every list visits the
  objects of its sequence in order, knows its ends, its members and whether it is empty.
\<close>

theorem dlist_refines_lists:
  assumes "\<forall>c \<in> set cs. dlist_cmd c" "effects cs = Some q"
  shows "\<exists>s'. foldM (\<lambda>s c. dlist_step c s) cs s = Some s' \<and>
    (\<forall>h xs. q h = Some xs \<longrightarrow> dlist_objects s' h = Some xs \<and> (\<forall>e. isMember s' h (Object e) = Some (e \<in> set xs)) \<and>
      isEmpty s' h = (xs = []) \<and> (xs \<noteq> [] \<longrightarrow> getHead s' h = Object (hd xs) \<and> getTail s' h = Object (last xs)))"
proof -
  obtain s' where s': "foldM (\<lambda>s c. dlist_step c s) cs s = Some s'" "represents dqueue s' q"
    "\<forall>h xs. q h = Some xs \<longrightarrow> dlist_objects s' h = Some xs" using dlist.run_start [OF assms, of s] by blast
  then show ?thesis using dlist_queries [OF represents_queue [OF s'(2)]] by auto
qed

definition no_nodes :: "(nat, nat) dmem" where
  "no_nodes = \<lparr>m_next = (\<lambda>_. Null), m_prev = (\<lambda>_. Null)\<rparr>"

definition sample_dlists :: "(nat, nat) qcmd list" where
  "sample_dlists = [Init 0, Insert_head 0 1, Insert_tail 0 2, Insert_after 0 1 3, Insert_before 0 1 4, Init 5, Insert_tail 5 6]"

lemma sample_dlists_effect: "effects sample_dlists = Some ([0 \<mapsto> [4, 1, 3, 2], 5 \<mapsto> [6]])"
  by (auto simp: sample_dlists_def effects_def unqueued_def fun_eq_iff)

lemma dlist_refines_lists_witness:
  "\<exists>s'. foldM (\<lambda>s c. dlist_step c s) sample_dlists no_nodes = Some s' \<and> dlist_objects s' 0 = Some [4, 1, 3, 2] \<and>
     getTail s' 5 = Object 6"
proof -
  have "\<forall>c \<in> set sample_dlists. dlist_cmd c" by (simp add: sample_dlists_def)
  from dlist_refines_lists [OF this sample_dlists_effect, of no_nodes] obtain s' where
    s': "foldM (\<lambda>s c. dlist_step c s) sample_dlists no_nodes = Some s'"
    "\<forall>h xs. [0 \<mapsto> [4, 1, 3, 2], 5 \<mapsto> [6]] h = Some xs \<longrightarrow> dlist_objects s' h = Some xs \<and> (\<forall>e. isMember s' h (Object e) = Some (e \<in> set xs)) \<and>
      isEmpty s' h = (xs = []) \<and> (xs \<noteq> [] \<longrightarrow> getHead s' h = Object (hd xs) \<and> getTail s' h = Object (last xs))" by blast
  from spec [OF spec [OF s'(2), of 0], of "[4, 1, 3, 2]"] spec [OF spec [OF s'(2), of 5], of "[6]"] s'(1)
  show ?thesis by auto
qed

text \<open>
  C30: In lists that hold sequences of objects, \<open>swap\<close> exchanges two members of a list wherever they are, \<open>moveList\<close>
  appends one list to another but leaves the first one leading to the objects, \<open>DList_removeAll\<close> empties a list and takes
  every object off it, and \<open>deleteItems\<close> deletes every object once; the other lists are not changed.
\<close>

theorem dlist_whole_list_operations:
  assumes "represents dqueue s q" "q h = Some xs"
  shows "(x \<in> set xs \<longrightarrow> y \<in> set xs \<longrightarrow> (\<exists>s'. DList_swap (Object x) (Object y) s = Some s' \<and>
      represents dqueue s' (q(h \<mapsto> map (\<lambda>e. if e = x then y else if e = y then x else e) xs)))) \<and>
    (q src = Some ys \<longrightarrow> h \<noteq> src \<longrightarrow> (\<exists>s'. moveList h src s = Some s' \<and>
      represents dqueue s' (q(src := None, h \<mapsto> xs @ ys)) \<and> (isEmpty s' src \<longleftrightarrow> ys = []))) \<and>
    (\<exists>s'. DList_removeAll h s = Some s' \<and> represents dqueue s' (q(h \<mapsto> [])) \<and> (\<forall>e \<in> set xs. isOnList s' (Elm e) = Some False)) \<and>
    (\<exists>s'. deleteItems h s = Some (map Object xs, s') \<and> represents dqueue s' (q(h \<mapsto> [])))"
  using swap_exchanges [OF assms] moveList_moves [OF assms] DList_removeAll_empties [OF assms] deleteItems_deletes [OF assms]
  unfolding exchange_def by auto

lemma dlist_whole_list_operations_witness:
  "\<exists>s s'. foldM (\<lambda>s c. dlist_step c s) sample_dlists no_nodes = Some s \<and> DList_swap (Object 4) (Object 1) s = Some s' \<and>
    dlist_objects s' 0 = Some [1, 4, 3, 2]"
proof -
  have "\<forall>c \<in> set sample_dlists. dlist_cmd c" by (simp add: sample_dlists_def)
  from dlist.run_start [OF this sample_dlists_effect, of no_nodes] obtain s where
    s: "foldM (\<lambda>s c. dlist_step c s) sample_dlists no_nodes = Some s" "represents dqueue s [0 \<mapsto> [4, 1, 3, 2], 5 \<mapsto> [6]]" by blast
  define q :: "nat \<Rightarrow> nat list option" where "q = [0 \<mapsto> [4, 1, 3, 2], 5 \<mapsto> [6]]"
  have q: "represents dqueue s q" "q 0 = Some [4, 1, 3, 2]" using s(2) by (simp_all add: q_def)
  from dlist_whole_list_operations [OF q, of 4 1] obtain s' where
    s': "DList_swap (Object 4) (Object 1) s = Some s'" "represents dqueue s' (q(0 \<mapsto> [1, 4, 3, 2]))" by auto
  have "(q(0 \<mapsto> [1, 4, 3, 2])) 0 = Some [1, 4, 3, 2]" by simp
  from dlist_objects_queue [OF represents_queue [OF s'(2) this]] s(1) s'(1) show ?thesis by blast
qed

end
