(* ===== verification/RouteTable.thy ===== *)
theory RouteTable
  imports Rtnl CText
begin

text \<open>
  The three programs of \<open>src/netlink\<close> that talk to the kernel's routing table without the library: \<open>get_routing_table.c\<close>
  prints it, \<open>mon_routing_table.c\<close> prints a change and \<open>set_routing_table.c\<close> adds a route.  The results of the receive
  calls are an argument; what is sent and the lines printed are results.  \<open>None\<close> is an access outside a buffer.
\<close>

section \<open>Constants of the kernel interface\<close>

definition RTM_NEWROUTE :: nat where "RTM_NEWROUTE = 24"
definition RTM_GETROUTE :: nat where "RTM_GETROUTE = 26"
definition RT_TABLE_MAIN :: nat where "RT_TABLE_MAIN = 254"
definition RTA_DST :: nat where "RTA_DST = 1"
definition RTA_OIF :: nat where "RTA_OIF = 4"
definition RTA_GATEWAY :: nat where "RTA_GATEWAY = 5"
definition RTMGRP_NOTIFY :: u32 where "RTMGRP_NOTIFY = 1"
definition RTMGRP_IPV4_ROUTE :: u32 where "RTMGRP_IPV4_ROUTE = 0x40"

text \<open>The service header: family, prefix length, a source length and a type of service that stay 0, table, protocol,
  scope, type, and 4 bytes of flags.\<close>

definition rtmsg :: "nat \<Rightarrow> nat \<Rightarrow> nat \<Rightarrow> nat \<Rightarrow> nat \<Rightarrow> nat \<Rightarrow> u8 list" where
  "rtmsg family dst_len table protocol scope type =
     map of_nat [family, dst_len, 0, 0, table, protocol, scope, type, 0, 0, 0, 0]"

section \<open>Requests\<close>

text \<open>The message sent: the first \<open>nlmsg_len\<close> bytes of the request.\<close>

definition send_request :: "u8 list \<Rightarrow> u8 list option" where
  "send_request req = do { len \<leftarrow> rd_le req 0 4; rd_bytes req 0 len }"

definition get_form_request :: "u8 list" where
  "get_form_request = nlmsghdr (16 + 12) RTM_GETROUTE (1 + 0x300) 0 0 @ rtmsg 2 0 RT_TABLE_MAIN 0 0 0 @ replicate 8192 0"

text \<open>\<open>inet_pton\<close> of the text in the code gives these four bytes.\<close>

definition set_dsts :: "u8 list" where "set_dsts = [134, 102, 155, 14]"

definition set_form_request :: "u8 list" where
  "set_form_request =
     (let ifcn = 2; pn = 32;
          rtl = 12;
          a1 = le_bytes 2 (4 + 4) @ le_bytes 2 RTA_DST @ set_dsts;
          rtl = rtl + (4 + 4);
          a2 = le_bytes 2 (4 + 4) @ le_bytes 2 RTA_OIF @ le_bytes 4 ifcn;
          rtl = rtl + (4 + 4)
      in nlmsghdr (16 + rtl) RTM_NEWROUTE (1 + 0x400) 0 0 @ rtmsg 2 pn RT_TABLE_MAIN 4 0 1 @
           a1 @ a2 @ replicate (8192 - 16) 0)"

section \<open>Receiving\<close>

datatype reply = Recv_error | Recv "u8 list"

text \<open>
  The loop puts the datagrams one behind the other; \<open>p\<close> is \<open>buf + nll\<close> throughout.  The result is the buffer and
  \<open>nll\<close>, or \<open>None\<close> inside when the loop waits for more.
\<close>

fun recv_loop :: "u32 \<Rightarrow> reply list \<Rightarrow> u8 list \<Rightarrow> int \<Rightarrow> (u8 list \<times> int) option option" where
  "recv_loop groups [] buf nll = Some None"
| "recv_loop groups (r # rs) buf nll =
     (if nll < 0 then None
      else do {
        (rtn, buf) \<leftarrow> (case r of
            Recv_error \<Rightarrow> Some (- 1, buf)
          | Recv d \<Rightarrow> (let d = take (8192 - nat nll) d
                     in do { buf \<leftarrow> wr_bytes buf (nat nll) d; Some (int (length d), buf) }));
        type \<leftarrow> nlmsg_type buf (nat nll);
        if type = NLMSG_DONE then Some (Some (buf, nll))
        else let nll = nll + rtn
             in if groups AND RTMGRP_IPV4_ROUTE = RTMGRP_IPV4_ROUTE then Some (Some (buf, nll))
                else recv_loop groups rs buf nll })"

definition recv_reply :: "u32 \<Rightarrow> reply list \<Rightarrow> (u8 list \<times> int) option option" where
  "recv_reply groups rs = recv_loop groups rs (replicate 8192 0) 0"

text \<open>The same function in \<open>mon_routing_table.c\<close>.\<close>

definition mon_recv_reply :: "u32 \<Rightarrow> reply list \<Rightarrow> (u8 list \<times> int) option option" where
  "mon_recv_reply groups rs = recv_reply groups rs"

section \<open>Printing\<close>

record route_text =
  dsts :: string
  gws :: string
  ifs :: string

definition inet_ntop :: "u8 list \<Rightarrow> string" where
  "inet_ntop a = join ''.'' (map (\<lambda>b. dec (unat b)) a)"

text \<open>One attribute; \<open>dflt\<close> is what the program prints for a type it does not know.\<close>

definition route_attr ::
  "(nat \<Rightarrow> string list) \<Rightarrow> u8 list \<Rightarrow> nat \<Rightarrow> route_text \<times> string list \<Rightarrow> (route_text \<times> string list) option" where
  "route_attr dflt buf rta = (\<lambda>(t, lines). do {
     type \<leftarrow> rd_le buf (rta + 2) 2;
     if type = RTA_DST then do { a \<leftarrow> rd_bytes buf (rta + 4) 4; Some (t\<lparr>dsts := inet_ntop a\<rparr>, lines) }
     else if type = RTA_GATEWAY then do { a \<leftarrow> rd_bytes buf (rta + 4) 4; Some (t\<lparr>gws := inet_ntop a\<rparr>, lines) }
     else if type = RTA_OIF then do { v \<leftarrow> rd_le buf (rta + 4) 4; Some (t\<lparr>ifs := fmt_d (of_nat v)\<rparr>, lines) }
     else Some (t, lines @ dflt type) })"

function route_attrs ::
  "(nat \<Rightarrow> string list) \<Rightarrow> u8 list \<Rightarrow> nat \<Rightarrow> int \<Rightarrow> route_text \<times> string list \<Rightarrow> (route_text \<times> string list) option" where
  "route_attrs dflt buf rta rtl st = do {
     ok \<leftarrow> RTA_OK buf rta rtl;
     case ok of
       None \<Rightarrow> Some st
     | Some l \<Rightarrow> do {
         st \<leftarrow> route_attr dflt buf rta st;
         route_attrs dflt buf (rta + RTA_ALIGN l) (rtl - int (RTA_ALIGN l)) st } }"
  by pat_completeness auto
termination
  by (relation "measure (\<lambda>(dflt, buf, rta, rtl, st). nat rtl)")
    (auto simp: RTA_OK_def RTA_ALIGN_def bind_Some_iff split: if_splits)

declare route_attrs.simps [simp del]

definition route_line :: "route_text \<Rightarrow> nat \<Rightarrow> string" where
  "route_line t dst_len = ''dst '' @ dsts t @ ''/'' @ dec dst_len @ '' gw '' @ gws t @ '' if '' @ ifs t"

definition no_text :: route_text where
  "no_text = \<lparr>dsts = [], gws = [], ifs = []\<rparr>"

text \<open>The attributes follow the two headers; their length is computed unsigned and read as an \<open>int\<close>.\<close>

function read_msgs :: "(nat \<Rightarrow> string list) \<Rightarrow> u8 list \<Rightarrow> nat \<Rightarrow> int \<Rightarrow> string list \<Rightarrow> string list option" where
  "read_msgs dflt buf h nll lines = do {
     ok \<leftarrow> NLMSG_OK buf h nll;
     case ok of
       None \<Rightarrow> Some lines
     | Some len \<Rightarrow> do {
         table \<leftarrow> rd_le buf (h + 20) 1;
         lines \<leftarrow> (if table \<noteq> RT_TABLE_MAIN then Some lines
           else do {
             (t, lines) \<leftarrow> route_attrs dflt buf (h + 28) (int len - 28) (no_text, lines);
             dst_len \<leftarrow> rd_le buf (h + 17) 1;
             Some (lines @ [route_line t dst_len]) });
         read_msgs dflt buf (h + RTA_ALIGN len) (nll - int (RTA_ALIGN len)) lines } }"
  by pat_completeness auto
termination
  by (relation "measure (\<lambda>(dflt, buf, h, nll, lines). nat nll)")
    (auto simp: NLMSG_OK_def RTA_ALIGN_def bind_Some_iff split: if_splits)

declare read_msgs.simps [simp del]

definition get_unknown :: "nat \<Rightarrow> string list" where
  "get_unknown type = [''rta_type = '' @ dec type]"

definition get_read_reply :: "u8 list \<Rightarrow> int \<Rightarrow> string list option" where
  "get_read_reply buf nll = read_msgs get_unknown buf 0 nll []"

definition mon_read_reply :: "u8 list \<Rightarrow> int \<Rightarrow> string list option" where
  "mon_read_reply buf nll = read_msgs (\<lambda>type. []) buf 0 nll []"

section \<open>The programs\<close>

text \<open>What is sent, and what is printed unless the program waits.\<close>

definition get_main :: "reply list \<Rightarrow> (u8 list \<times> string list option) option" where
  "get_main rs = do {
     sent \<leftarrow> send_request get_form_request;
     r \<leftarrow> recv_reply RTMGRP_IPV4_ROUTE rs;
     case r of None \<Rightarrow> Some (sent, None)
     | Some (buf, nll) \<Rightarrow> do { lines \<leftarrow> get_read_reply buf nll; Some (sent, Some lines) } }"

definition mon_main :: "reply list \<Rightarrow> string list option option" where
  "mon_main rs = do {
     r \<leftarrow> mon_recv_reply (RTMGRP_IPV4_ROUTE OR RTMGRP_NOTIFY) rs;
     case r of None \<Rightarrow> Some None
     | Some (buf, nll) \<Rightarrow> do { lines \<leftarrow> mon_read_reply buf nll; Some (Some lines) } }"

definition set_main :: "u8 list option" where
  "set_main = send_request set_form_request"

section \<open>What is printed for a message\<close>

text \<open>A route message: table, prefix length and attributes; the addresses and the interface have 4 bytes at least.\<close>

definition route_msg :: "u8 list \<Rightarrow> nat \<Rightarrow> nat \<Rightarrow> (nat \<times> u8 list) list \<Rightarrow> bool" where
  "route_msg m table dst_len as \<longleftrightarrow> good_msg m \<and> length m = 28 + attrs_size as \<and> rd_le m 20 1 = Some table \<and>
     rd_le m 17 1 = Some dst_len \<and> attrs_at m 28 as \<and>
     (\<forall>a \<in> set as. fst a \<in> {RTA_DST, RTA_GATEWAY, RTA_OIF} \<longrightarrow> 4 \<le> length (snd a))"

definition shown :: "(nat \<times> u8 list) list \<Rightarrow> route_text" where
  "shown as =
     \<lparr>dsts = (case map_of (rev as) RTA_DST of None \<Rightarrow> [] | Some d \<Rightarrow> inet_ntop (take 4 d)),
      gws = (case map_of (rev as) RTA_GATEWAY of None \<Rightarrow> [] | Some d \<Rightarrow> inet_ntop (take 4 d)),
      ifs = (case map_of (rev as) RTA_OIF of None \<Rightarrow> [] | Some d \<Rightarrow> fmt_d (of_nat (le_nat (take 4 d))))\<rparr>"

definition route_lines :: "(nat \<Rightarrow> string list) \<Rightarrow> nat \<Rightarrow> nat \<Rightarrow> (nat \<times> u8 list) list \<Rightarrow> string list" where
  "route_lines dflt table dst_len as =
     (if table \<noteq> RT_TABLE_MAIN then []
      else concat (map (\<lambda>a. if fst a \<in> {RTA_DST, RTA_GATEWAY, RTA_OIF} then [] else dflt (fst a)) as) @
        [route_line (shown as) dst_len])"

lemmas RTA_defs = RTA_DST_def RTA_OIF_def RTA_GATEWAY_def

lemma attrs_at_shift:
  "attrs_at xs off as \<Longrightarrow> off + attrs_size as \<le> length xs \<Longrightarrow> attrs_at (pre @ xs @ post) (length pre + off) as"
proof (induction as arbitrary: off)
  case (Cons a as)
  obtain t d where a: "a = (t, d)" by fastforce
  have sz: "4 + length d \<le> attr_size a" using attr_size_ge by (simp add: a)
  then have "off + 4 + length d \<le> length xs" using Cons.prems(2) by simp
  moreover have "attrs_at (pre @ xs @ post) (length pre + (off + attr_size a)) as"
    using Cons.prems by (intro Cons.IH) (simp_all add: a attr_size_def)
  ultimately show ?case using Cons.prems(1) rd_le_shift [of off 2 xs pre post] rd_le_shift [of "off + 2" 2 xs pre post]
      rd_bytes_shift [of "off + 4" "length d" xs pre post]
    by (simp add: a attr_size_def add.assoc)
qed simp

lemma rd_bytes_prefix: "rd_bytes buf p n = Some d \<Longrightarrow> k \<le> n \<Longrightarrow> rd_bytes buf p k = Some (take k d)"
  by (auto simp: rd_bytes_def take_take split: if_splits)

text \<open>The effect of an attribute that is there.\<close>

definition apply_attr :: "(nat \<Rightarrow> string list) \<Rightarrow> nat \<times> u8 list \<Rightarrow> route_text \<times> string list \<Rightarrow> route_text \<times> string list" where
  "apply_attr dflt a st =
     (if fst a = RTA_DST then ((fst st)\<lparr>dsts := inet_ntop (take 4 (snd a))\<rparr>, snd st)
      else if fst a = RTA_GATEWAY then ((fst st)\<lparr>gws := inet_ntop (take 4 (snd a))\<rparr>, snd st)
      else if fst a = RTA_OIF then ((fst st)\<lparr>ifs := fmt_d (of_nat (le_nat (take 4 (snd a))))\<rparr>, snd st)
      else (fst st, snd st @ dflt (fst a)))"

lemma route_attr_applies:
  assumes "rd_le buf (off + 2) 2 = Some t" "rd_bytes buf (off + 4) (length d) = Some d"
    and "t \<in> {RTA_DST, RTA_GATEWAY, RTA_OIF} \<longrightarrow> 4 \<le> length d"
  shows "route_attr dflt buf off st = Some (apply_attr dflt (t, d) st)"
proof -
  have r: "rd_bytes buf (off + 4) 4 = Some (take 4 d)" "rd_le buf (off + 4) 4 = Some (le_nat (take 4 d))" if "4 \<le> length d"
    using rd_bytes_prefix [OF assms(2) that] by (simp_all add: rd_le_def)
  obtain tx lines where st: "st = (tx, lines)" by fastforce
  consider "t = RTA_DST" | "t = RTA_GATEWAY" | "t = RTA_OIF" | "t \<notin> {RTA_DST, RTA_GATEWAY, RTA_OIF}" by blast
  then show ?thesis
    by cases (use assms(1,3) r in \<open>simp_all add: st route_attr_def apply_attr_def RTA_defs\<close>)
qed

lemma route_attrs_fold:
  "attrs_at buf off as \<Longrightarrow> \<forall>a \<in> set as. fst a \<in> {RTA_DST, RTA_GATEWAY, RTA_OIF} \<longrightarrow> 4 \<le> length (snd a) \<Longrightarrow>
   route_attrs dflt buf off (int (attrs_size as)) st = Some (fold (apply_attr dflt) as st)"
proof (induction as arbitrary: off st)
  case Nil
  then show ?case by (subst route_attrs.simps) (simp add: RTA_OK_def)
next
  case (Cons a as)
  obtain t d where a: "a = (t, d)" by fastforce
  have sz: "4 + length d \<le> attr_size (t, d)" by (rule attr_size_ge)
  have at: "rd_le buf off 2 = Some (4 + length d)" "rd_le buf (off + 2) 2 = Some t"
    "rd_bytes buf (off + 4) (length d) = Some d" "attrs_at buf (off + attr_size (t, d)) as"
    using Cons.prems(1) by (simp_all add: a attr_size_def)
  have ok: "RTA_OK buf off (int (attrs_size (a # as))) = Some (Some (4 + length d))"
    using at(1) sz by (simp add: RTA_OK_def a)
  have one: "route_attr dflt buf off st = Some (apply_attr dflt a st)"
    using route_attr_applies [OF at(2,3)] Cons.prems(2) by (simp add: a)
  have "int (attrs_size (a # as)) - int (RTA_ALIGN (4 + length d)) = int (attrs_size as)"
    by (simp add: a attr_size_def)
  moreover have "route_attrs dflt buf (off + attr_size (t, d)) (int (attrs_size as)) (apply_attr dflt a st)
      = Some (fold (apply_attr dflt) as (apply_attr dflt a st))"
    using Cons.prems(2) at(4) by (intro Cons.IH) simp_all
  ultimately show ?case using ok one by (subst route_attrs.simps) (simp add: attr_size_def)
qed

lemma fold_apply_attr:
  "fold (apply_attr dflt) as (no_text, lines) =
     (shown as, lines @ concat (map (\<lambda>a. if fst a \<in> {RTA_DST, RTA_GATEWAY, RTA_OIF} then [] else dflt (fst a)) as))"
proof (induction as rule: rev_induct)
  case Nil
  show ?case by (simp add: shown_def no_text_def)
next
  case (snoc a as)
  then show ?case by (cases a) (auto simp: apply_attr_def shown_def RTA_defs)
qed

lemma read_msgs_lists:
  "list_all2 (\<lambda>m (table, dst_len, as). route_msg m table dst_len as) ms rs \<Longrightarrow>
   read_msgs dflt (pre @ datagram ms @ post) (length pre) (int (length (datagram ms))) lines =
     Some (lines @ concat (map (\<lambda>(table, dst_len, as). route_lines dflt table dst_len as) rs))"
proof (induction ms rs arbitrary: pre lines rule: list_all2_induct)
  case Nil
  then show ?case by (subst read_msgs.simps) (simp add: NLMSG_OK_def datagram_def)
next
  case (Cons m ms r rs)
  obtain table dst_len as where r: "r = (table, dst_len, as)" by (cases r)
  have m: "good_msg m" "length m = 28 + attrs_size as" "rd_le m 20 1 = Some table" "rd_le m 17 1 = Some dst_len"
    "attrs_at m 28 as" "\<forall>a \<in> set as. fst a \<in> {RTA_DST, RTA_GATEWAY, RTA_OIF} \<longrightarrow> 4 \<le> length (snd a)"
    using Cons.hyps(1) by (simp_all add: r route_msg_def)
  define b where "b = pre @ padded m @ datagram ms @ post"
  define p where "p = length pre"
  have dg: "datagram (m # ms) = padded m @ datagram ms" by (simp add: datagram_def)
  have buf: "b = pre @ m @ (replicate (RTA_ALIGN (length m) - length m) 0 @ datagram ms @ post)" by (simp add: b_def padded_def)
  have len: "length m \<le> length (padded m)" using RTA_ALIGN_bounds(1) [of "length m"] by (simp add: length_padded)
  have ok: "NLMSG_OK b p (int (length (datagram (m # ms)))) = Some (Some (length m))"
    using good_msg_fields(1) [OF m(1), of pre "datagram ms @ post"] m(1,2) len
    by (simp add: NLMSG_OK_def b_def p_def dg good_msg_def)
  have f: "rd_le b (p + 20) 1 = Some table" "rd_le b (p + 17) 1 = Some dst_len"
    using rd_le_shift [of 20 1 m pre] rd_le_shift [of 17 1 m pre] m(2-4) by (simp_all add: buf p_def)
  have "attrs_at b (p + 28) as" unfolding buf p_def using m(2,5) by (intro attrs_at_shift) simp_all
  from route_attrs_fold [OF this m(6), of dflt "(no_text, lines)"]
  have at: "route_attrs dflt b (p + 28) (int (length m) - 28) (no_text, lines) =
      Some (shown as, lines @ concat (map (\<lambda>a. if fst a \<in> {RTA_DST, RTA_GATEWAY, RTA_OIF} then [] else dflt (fst a)) as))"
    by (simp add: m(2) fold_apply_attr)
  have "read_msgs dflt b p (int (length (datagram (m # ms)))) lines =
      read_msgs dflt b (p + RTA_ALIGN (length m)) (int (length (datagram ms))) (lines @ route_lines dflt table dst_len as)"
    using ok f at by (subst read_msgs.simps) (simp add: dg length_padded route_lines_def)
  also have "\<dots> = Some ((lines @ route_lines dflt table dst_len as) @ concat (map (\<lambda>(table, dst_len, as). route_lines dflt table dst_len as) rs))"
    using Cons.IH [of "pre @ padded m" "lines @ route_lines dflt table dst_len as"] by (simp add: b_def p_def length_padded)
  finally show ?case by (simp add: r b_def p_def dg)
qed

section \<open>The loops stay near the data\<close>

lemma route_attr_defined:
  assumes "rta + 8 \<le> length buf"
  shows "\<exists>st'. route_attr dflt buf rta st = Some st'"
proof -
  obtain t where "rd_le buf (rta + 2) 2 = Some t" using rd_le_in [of "rta + 2" 2 buf] assms by auto
  moreover obtain v where "rd_le buf (rta + 4) 4 = Some v" using rd_le_in [of "rta + 4" 4 buf] assms by auto
  moreover obtain a where "rd_bytes buf (rta + 4) 4 = Some a" using rd_bytes_in [of "rta + 4" 4 buf] assms by auto
  ultimately show ?thesis by (cases st) (simp add: route_attr_def)
qed

lemma route_attrs_defined:
  "int rta + max len 0 + 4 \<le> int (length buf) \<Longrightarrow> \<exists>st'. route_attrs dflt buf rta len st = Some st'"
proof (induction "nat len" arbitrary: rta len st rule: less_induct)
  case less
  show ?case
  proof (cases "len < 4")
    case True
    then show ?thesis by (subst route_attrs.simps) (simp add: RTA_OK_def)
  next
    case False
    then obtain l where l: "rd_le buf rta 2 = Some l" using rd_le_in [of rta 2 buf] less.prems by auto
    show ?thesis
    proof (cases "4 \<le> l \<and> int l \<le> len")
      case ok: True
      have "rta + 8 \<le> length buf" using less.prems False by linarith
      then obtain st1 where st1: "route_attr dflt buf rta st = Some st1" using route_attr_defined by blast
      let ?len = "len - int (RTA_ALIGN l)"
      have "4 \<le> RTA_ALIGN l" "int (RTA_ALIGN l) \<le> int l + 3" using ok RTA_ALIGN_bounds(1,2) [of l] by simp_all
      then have "nat ?len < nat len" "len - 3 \<le> ?len + int l" using ok by simp_all
      show ?thesis
      proof (cases "?len < 4")
        case True
        then have "route_attrs dflt buf (rta + RTA_ALIGN l) ?len st1 = Some st1"
          by (subst route_attrs.simps) (simp add: RTA_OK_def)
        then show ?thesis using l ok st1 False by (subst route_attrs.simps) (simp add: RTA_OK_def)
      next
        case f2: False
        then have "\<exists>st'. route_attrs dflt buf (rta + RTA_ALIGN l) ?len st1 = Some st'"
          using less.prems \<open>nat ?len < nat len\<close> by (intro less.hyps) simp_all
        then show ?thesis using l ok st1 False by (subst route_attrs.simps) (simp add: RTA_OK_def)
      qed
    next
      case bad: False
      then show ?thesis using l False by (subst route_attrs.simps) (auto simp: RTA_OK_def)
    qed
  qed
qed

lemma read_msgs_defined:
  "int h + max nll 0 + 8 \<le> int (length buf) \<Longrightarrow> \<exists>out. read_msgs dflt buf h nll lines = Some out"
proof (induction "nat nll" arbitrary: h nll lines rule: less_induct)
  case less
  show ?case
  proof (cases "nll < 16")
    case True
    then show ?thesis by (subst read_msgs.simps) (simp add: NLMSG_OK_def)
  next
    case False
    then obtain l where l: "rd_le buf h 4 = Some l" using rd_le_in [of h 4 buf] less.prems by auto
    show ?thesis
    proof (cases "16 \<le> l \<and> int l \<le> nll")
      case ok: True
      obtain table where t: "rd_le buf (h + 20) 1 = Some table" using rd_le_in [of "h + 20" 1 buf] less.prems False by auto
      obtain dl where d: "rd_le buf (h + 17) 1 = Some dl" using rd_le_in [of "h + 17" 1 buf] less.prems False by auto
      have "\<exists>st'. route_attrs dflt buf (h + 28) (int l - 28) (no_text, lines) = Some st'"
      proof (cases "int l - 28 < 4")
        case True
        then show ?thesis by (subst route_attrs.simps) (simp add: RTA_OK_def)
      next
        case f: False
        then show ?thesis using ok less.prems by (intro route_attrs_defined) simp
      qed
      then obtain tx ls where a: "route_attrs dflt buf (h + 28) (int l - 28) (no_text, lines) = Some (tx, ls)" by auto
      let ?nll = "nll - int (RTA_ALIGN l)"
      have b: "16 \<le> RTA_ALIGN l" using ok RTA_ALIGN_bounds(1) [of l] by simp
      have next_: "\<exists>out. read_msgs dflt buf (h + RTA_ALIGN l) ?nll ls = Some out" for ls
      proof (cases "?nll < 16")
        case True
        then show ?thesis by (subst read_msgs.simps) (simp add: NLMSG_OK_def)
      next
        case f: False
        then show ?thesis using less.prems b False by (intro less.hyps) simp_all
      qed
      show ?thesis using l ok t d a next_ False by (subst read_msgs.simps) (simp add: NLMSG_OK_def)
    next
      case bad: False
      then show ?thesis using l False by (subst read_msgs.simps) (auto simp: NLMSG_OK_def)
    qed
  qed
qed

section \<open>The programs\<close>

lemma send_request_prefix:
  assumes "length h = 4 + k" "length x = n" "h = le_bytes 4 n @ h'" "n < 256 ^ 4" "x = h @ y"
  shows "send_request (x @ rest) = Some x"
proof -
  have "rd_le (x @ rest) 0 4 = Some n" using rd_le_at [of "[]" 0 4 n "h' @ y @ rest"] assms(3-5) by simp
  moreover have "rd_bytes (x @ rest) 0 n = Some x" using assms(2) by simp
  ultimately show ?thesis by (simp add: send_request_def)
qed

definition get_request :: "u8 list" where
  "get_request = nlmsghdr 28 RTM_GETROUTE 0x301 0 0 @ rtmsg 2 0 RT_TABLE_MAIN 0 0 0"

definition set_request :: "u8 list" where
  "set_request = nlmsghdr 44 RTM_NEWROUTE 0x401 0 0 @ rtmsg 2 32 RT_TABLE_MAIN 4 0 1 @
     le_bytes 2 8 @ le_bytes 2 RTA_DST @ set_dsts @ le_bytes 2 8 @ le_bytes 2 RTA_OIF @ le_bytes 4 2"

lemma get_sent: "send_request get_form_request = Some get_request"
proof -
  define z where "z = replicate 8192 (0 :: u8)"
  have "get_form_request = get_request @ z" unfolding get_form_request_def get_request_def z_def by simp
  moreover have "send_request (get_request @ z) = Some get_request"
    by (rule send_request_prefix [of "nlmsghdr 28 RTM_GETROUTE 0x301 0 0" 12 _ 28])
      (simp_all add: get_request_def nlmsghdr_def rtmsg_def)
  ultimately show ?thesis by simp
qed

lemma set_sent: "set_main = Some set_request"
proof -
  define z where "z = replicate (8192 - 16) (0 :: u8)"
  have "set_form_request = set_request @ z"
    unfolding set_form_request_def set_request_def z_def Let_def append_assoc by simp
  moreover have "send_request (set_request @ z) = Some set_request"
    by (rule send_request_prefix [of "nlmsghdr 44 RTM_NEWROUTE 0x401 0 0" 12 _ 44])
      (simp_all add: set_request_def nlmsghdr_def rtmsg_def set_dsts_def)
  ultimately show ?thesis by (simp add: set_main_def)
qed

text \<open>One datagram is received, and with the groups of both programs no more.\<close>

lemma recv_one:
  assumes "length d \<le> 8192" "groups AND RTMGRP_IPV4_ROUTE = RTMGRP_IPV4_ROUTE"
  shows "\<exists>z t. length z = 8192 - length d \<and> nlmsg_type (d @ z) 0 = Some t \<and> (d = [] \<longrightarrow> t = 0) \<and>
    recv_reply groups (Recv d # later) = Some (Some (d @ z, if t = NLMSG_DONE then 0 else int (length d)))"
proof -
  define z0 where "z0 = replicate 8192 (0 :: u8)"
  have z0: "length z0 = 8192" unfolding z0_def by (rule length_replicate)
  define z where "z = drop (length d) z0"
  have lz: "length z = 8192 - length d" by (simp add: z_def z0)
  have w: "wr_bytes z0 0 d = Some (d @ z)" using assms(1) z0 by (simp add: wr_bytes_def z_def)
  obtain t where t: "nlmsg_type (d @ z) 0 = Some t" using rd_le_in [of 4 2 "d @ z"] lz assms(1) by (auto simp: nlmsg_type_def)
  have "t = 0" if "d = []"
  proof -
    have "take 2 (drop 4 z0) = [0, 0]" unfolding z0_def take_replicate drop_replicate by (simp add: numeral_2_eq_2)
    then show ?thesis using that t z0 by (simp add: nlmsg_type_def rd_le_def rd_bytes_def z_def)
  qed
  moreover have "recv_loop groups (Recv d # later) z0 0 = Some (Some (d @ z, if t = NLMSG_DONE then 0 else int (length d)))"
    using assms w t by simp
  ultimately show ?thesis using lz t unfolding recv_reply_def z0_def [symmetric] by blast
qed

lemma notify_groups: "(RTMGRP_IPV4_ROUTE OR RTMGRP_NOTIFY) AND RTMGRP_IPV4_ROUTE = RTMGRP_IPV4_ROUTE"
  by (simp add: RTMGRP_IPV4_ROUTE_def RTMGRP_NOTIFY_def)

text \<open>
  C18: When the kernel's first answer is a datagram of route messages, \<open>get_routing_table\<close> sends its request and prints,
  for every route of the main table in order, a line for each attribute it does not know and the line of the route
  with the last destination, gateway and interface it names; \<open>mon_routing_table\<close> prints the lines of the
  routes.  Later datagrams of the answer are not read.
\<close>

theorem routing_table_printed:
  assumes "list_all2 (\<lambda>m (table, dst_len, as). route_msg m table dst_len as) ms rs" "length (datagram ms) \<le> 8192"
    and "ms \<noteq> [] \<longrightarrow> type_of (hd ms) \<noteq> NLMSG_DONE"
  shows "get_main (Recv (datagram ms) # later) = Some (get_request, Some (concat (map (\<lambda>(table, dst_len, as). route_lines get_unknown table dst_len as) rs))) \<and>
    mon_main (Recv (datagram ms) # later) = Some (Some (concat (map (\<lambda>(table, dst_len, as). route_lines (\<lambda>t. []) table dst_len as) rs)))"
proof -
  have notdone: "t \<noteq> NLMSG_DONE" if "nlmsg_type (datagram ms @ z) 0 = Some t" "datagram ms = [] \<longrightarrow> t = 0" for z t
  proof (cases ms)
    case Nil
    then show ?thesis using that by (simp add: datagram_def NLMSG_DONE_def)
  next
    case (Cons m ms')
    have "good_msg m" using assms(1) Cons by (auto simp: list_all2_Cons1 route_msg_def)
    from good_msg_fields(2) [OF this, of "[]" "datagram ms' @ z"] that(1) assms(3) Cons show ?thesis by (simp add: datagram_def)
  qed
  have r: "\<exists>z. recv_reply groups (Recv (datagram ms) # later) = Some (Some (datagram ms @ z, int (length (datagram ms))))"
    if "groups AND RTMGRP_IPV4_ROUTE = RTMGRP_IPV4_ROUTE" for groups
  proof -
    from recv_one [OF assms(2) that] obtain z t where "nlmsg_type (datagram ms @ z) 0 = Some t" "datagram ms = [] \<longrightarrow> t = 0"
      "recv_reply groups (Recv (datagram ms) # later) = Some (Some (datagram ms @ z, if t = NLMSG_DONE then 0 else int (length (datagram ms))))"
      by blast
    with notdone [of z t] show ?thesis by simp
  qed
  have p: "read_msgs dflt (datagram ms @ z) 0 (int (length (datagram ms))) [] =
      Some (concat (map (\<lambda>(table, dst_len, as). route_lines dflt table dst_len as) rs))" for dflt z
    using read_msgs_lists [OF assms(1), of dflt "[]" z "[]"] by simp
  obtain z1 z2 where "recv_reply RTMGRP_IPV4_ROUTE (Recv (datagram ms) # later) = Some (Some (datagram ms @ z1, int (length (datagram ms))))"
    "recv_reply (RTMGRP_IPV4_ROUTE OR RTMGRP_NOTIFY) (Recv (datagram ms) # later) = Some (Some (datagram ms @ z2, int (length (datagram ms))))"
    using r [of RTMGRP_IPV4_ROUTE] r [OF notify_groups] by auto
  then show ?thesis using p get_sent by (simp add: get_main_def mon_main_def mon_recv_reply_def get_read_reply_def mon_read_reply_def)
qed

text \<open>The route that \<open>set_routing_table\<close> sends, seen by the other two.\<close>

lemma set_route_msg: "list_all2 (\<lambda>m (table, dst_len, as). route_msg m table dst_len as) [set_request]
    [(RT_TABLE_MAIN, 32, [(RTA_DST, set_dsts), (RTA_OIF, [2, 0, 0, 0])])]"
  by code_simp

lemma set_route_datagram: "datagram [set_request] = set_request \<and> length set_request = 44 \<and> type_of set_request = RTM_NEWROUTE"
  by code_simp

lemma routing_table_printed_witness:
  "set_main = Some set_request \<and> mon_main [Recv set_request] = Some (Some [''dst 134.102.155.14/32 gw  if 2''])"
proof -
  have "type_of (hd [set_request]) \<noteq> NLMSG_DONE" using set_route_datagram by (simp add: RTM_NEWROUTE_def NLMSG_DONE_def)
  then have "mon_main (Recv (datagram [set_request]) # []) =
      Some (Some (concat (map (\<lambda>(table, dst_len, as). route_lines (\<lambda>t. []) table dst_len as)
        [(RT_TABLE_MAIN, 32, [(RTA_DST, set_dsts), (RTA_OIF, [2, 0, 0, 0])])])))"
    using routing_table_printed [OF set_route_msg] set_route_datagram by simp
  moreover have "concat (map (\<lambda>(table, dst_len, as). route_lines (\<lambda>t. []) table dst_len as)
        [(RT_TABLE_MAIN, 32, [(RTA_DST, set_dsts), (RTA_OIF, [2, 0, 0, 0])])]) = [''dst 134.102.155.14/32 gw  if 2'']"
    by code_simp
  ultimately show ?thesis using set_sent set_route_datagram by simp
qed

text \<open>
  C35: Whatever bytes the answer has, the two readers stay within their buffer as long as the answer leaves 8 bytes of it
  free, and end; a failed receive prints nothing.
\<close>

theorem routing_table_safe:
  assumes "r = Recv_error \<or> (\<exists>d. r = Recv d \<and> length d \<le> 8184)"
  shows "(\<exists>lines. get_main (r # later) = Some (get_request, Some lines)) \<and> (\<exists>lines. mon_main (r # later) = Some (Some lines)) \<and>
    (r = Recv_error \<longrightarrow> get_main (r # later) = Some (get_request, Some []))"
proof -
  have s: "\<exists>buf nll. recv_reply groups (r # later) = Some (Some (buf, nll)) \<and> length buf = 8192 \<and> nll \<le> 8184 \<and> (r = Recv_error \<longrightarrow> nll < 0)"
    if g: "groups AND RTMGRP_IPV4_ROUTE = RTMGRP_IPV4_ROUTE" for groups
  proof (cases r)
    case (Recv d)
    then have d: "length d \<le> 8184" using assms by auto
    then have "length d \<le> 8192" by simp
    from recv_one [OF this g, of later] obtain z t where "length z = 8192 - length d"
      "recv_reply groups (Recv d # later) = Some (Some (d @ z, if t = NLMSG_DONE then 0 else int (length d)))" by blast
    then show ?thesis using Recv d by auto
  next
    case Recv_error
    define z where "z = replicate 8192 (0 :: u8)"
    have z: "length z = 8192" unfolding z_def by (rule length_replicate)
    have "take 2 (drop 4 z) = [0, 0]" unfolding z_def take_replicate drop_replicate by (simp add: numeral_2_eq_2)
    then have "nlmsg_type z 0 = Some 0" using z by (simp add: nlmsg_type_def rd_le_def rd_bytes_def)
    then have "recv_loop groups (Recv_error # later) z 0 = Some (Some (z, - 1))"
      using g by (simp add: NLMSG_DONE_def)
    then show ?thesis using Recv_error z unfolding recv_reply_def z_def [symmetric] by auto
  qed
  have p: "\<exists>lines. read_msgs dflt buf 0 nll [] = Some lines" if "length buf = 8192" "nll \<le> 8184" for dflt buf nll
    using read_msgs_defined [of 0 nll buf dflt "[]"] that by simp
  have e: "read_msgs dflt buf 0 nll [] = Some []" if "nll < 0" for dflt buf nll
    using that by (subst read_msgs.simps) (simp add: NLMSG_OK_def)
  obtain b1 n1 where r1: "recv_reply RTMGRP_IPV4_ROUTE (r # later) = Some (Some (b1, n1))" "length b1 = 8192" "n1 \<le> 8184" "r = Recv_error \<longrightarrow> n1 < 0"
    using s [of RTMGRP_IPV4_ROUTE] by auto
  obtain b2 n2 where r2: "recv_reply (RTMGRP_IPV4_ROUTE OR RTMGRP_NOTIFY) (r # later) = Some (Some (b2, n2))" "length b2 = 8192" "n2 \<le> 8184"
    using s [OF notify_groups] by blast
  show ?thesis using r1(1,4) r2(1) p [OF r1(2,3), of get_unknown] p [OF r2(2,3), of "\<lambda>t. []"] e [of n1 get_unknown b1] get_sent
    by (auto simp: get_main_def mon_main_def mon_recv_reply_def get_read_reply_def mon_read_reply_def)
qed

lemma routing_table_safe_witness: "get_main [Recv_error] = Some (get_request, Some [])"
  using routing_table_safe [of Recv_error "[]"] by simp

end
