(* ===== verification/Lwnfs.thy ===== *)
theory Lwnfs
  imports CText
begin

text \<open>
  The file system of counters, \<open>src/module/lwnfs.c\<close>.  The kernel's allocators are an argument: \<open>alloc n\<close> tells whether
  the \<open>n\<close>-th allocation succeeds.  A directory entry is named by its path.  \<open>simple_strtol\<close> and whether the user's
  buffer can be copied are arguments too.
\<close>

section \<open>Objects\<close>

datatype counter_id = Counter | Subcounter

datatype file_ops = No_ops | Simple_dir_ops | Lfs_file_ops

record lfs_inode =
  i_ino :: nat
  i_mode :: nat
  i_fop :: file_ops
  generic_ip :: "counter_id option"

datatype lfs_object = Inode nat | Dentry "string list"

text \<open>The kernel's state: the number of allocations so far, the objects that are alive, and the entries added.\<close>

record lfs_mem =
  calls :: nat
  live :: "lfs_object list"
  tree :: "(string list \<times> lfs_inode) list"
  counters :: "counter_id \<Rightarrow> i32"

definition S_IFREG :: nat where "S_IFREG = 32768"
definition S_IFDIR :: nat where "S_IFDIR = 16384"
definition EINVAL :: i64 where "EINVAL = 22"
definition EFAULT :: i64 where "EFAULT = 14"
definition ENOMEM :: i32 where "ENOMEM = 12"
definition TMPSIZE :: nat where "TMPSIZE = 20"

section \<open>Inodes and entries\<close>

definition lfs_make_inode :: "(nat \<Rightarrow> bool) \<Rightarrow> nat \<Rightarrow> lfs_mem \<Rightarrow> lfs_inode option \<times> lfs_mem" where
  "lfs_make_inode alloc mode s =
     (let n = calls s; s = s\<lparr>calls := n + 1\<rparr>
      in if alloc n then (Some \<lparr>i_ino = n, i_mode = mode, i_fop = No_ops, generic_ip = None\<rparr>, s\<lparr>live := Inode n # live s\<rparr>)
         else (None, s))"

definition d_alloc :: "(nat \<Rightarrow> bool) \<Rightarrow> string list \<Rightarrow> string \<Rightarrow> lfs_mem \<Rightarrow> string list option \<times> lfs_mem" where
  "d_alloc alloc dir name s =
     (let n = calls s; s = s\<lparr>calls := n + 1\<rparr>
      in if alloc n then (Some (dir @ [name]), s\<lparr>live := Dentry (dir @ [name]) # live s\<rparr>) else (None, s))"

definition d_alloc_root :: "(nat \<Rightarrow> bool) \<Rightarrow> lfs_mem \<Rightarrow> string list option \<times> lfs_mem" where
  "d_alloc_root alloc s =
     (let n = calls s; s = s\<lparr>calls := n + 1\<rparr>
      in if alloc n then (Some [], s\<lparr>live := Dentry [] # live s\<rparr>) else (None, s))"

definition put :: "lfs_object \<Rightarrow> lfs_mem \<Rightarrow> lfs_mem" where
  "put ob s = s\<lparr>live := remove1 ob (live s)\<rparr>"

definition d_add :: "string list \<Rightarrow> lfs_inode \<Rightarrow> lfs_mem \<Rightarrow> lfs_mem" where
  "d_add dentry inode s = s\<lparr>tree := tree s @ [(dentry, inode)]\<rparr>"

definition lfs_create_file ::
  "(nat \<Rightarrow> bool) \<Rightarrow> string list \<Rightarrow> string \<Rightarrow> counter_id \<Rightarrow> lfs_mem \<Rightarrow> string list option \<times> lfs_mem" where
  "lfs_create_file alloc dir name counter s =
     (case d_alloc alloc dir name s of
        (None, s) \<Rightarrow> (None, s)
      | (Some dentry, s) \<Rightarrow>
          (case lfs_make_inode alloc (S_IFREG + 420) s of
             (None, s) \<Rightarrow> (None, put (Dentry dentry) s)
           | (Some inode, s) \<Rightarrow>
               (Some dentry, d_add dentry (inode\<lparr>i_fop := Lfs_file_ops, generic_ip := Some counter\<rparr>) s)))"

definition lfs_create_dir :: "(nat \<Rightarrow> bool) \<Rightarrow> string list \<Rightarrow> string \<Rightarrow> lfs_mem \<Rightarrow> string list option \<times> lfs_mem" where
  "lfs_create_dir alloc parent name s =
     (case d_alloc alloc parent name s of
        (None, s) \<Rightarrow> (None, s)
      | (Some dentry, s) \<Rightarrow>
          (case lfs_make_inode alloc (S_IFDIR + 420) s of
             (None, s) \<Rightarrow> (None, put (Dentry dentry) s)
           | (Some inode, s) \<Rightarrow> (Some dentry, d_add dentry (inode\<lparr>i_fop := Simple_dir_ops\<rparr>) s)))"

definition atomic_set :: "counter_id \<Rightarrow> i32 \<Rightarrow> lfs_mem \<Rightarrow> lfs_mem" where
  "atomic_set c v s = s\<lparr>counters := (counters s)(c := v)\<rparr>"

definition lfs_create_files :: "(nat \<Rightarrow> bool) \<Rightarrow> string list \<Rightarrow> lfs_mem \<Rightarrow> lfs_mem" where
  "lfs_create_files alloc root s =
     (let s = atomic_set Counter 0 s;
          s = snd (lfs_create_file alloc root ''counter'' Counter s);
          s = atomic_set Subcounter 0 s
      in case lfs_create_dir alloc root ''subdir'' s of
           (None, s) \<Rightarrow> s
         | (Some subdir, s) \<Rightarrow> snd (lfs_create_file alloc subdir ''subcounter'' Subcounter s))"

text \<open>The result, and the root inode when there is one.\<close>

definition lfs_fill_super :: "(nat \<Rightarrow> bool) \<Rightarrow> lfs_mem \<Rightarrow> i32 \<times> lfs_inode option \<times> lfs_mem" where
  "lfs_fill_super alloc s =
     (case lfs_make_inode alloc (S_IFDIR + 493) s of
        (None, s) \<Rightarrow> (- ENOMEM, None, s)
      | (Some root, s) \<Rightarrow>
          let root = root\<lparr>i_fop := Simple_dir_ops\<rparr>
          in case d_alloc_root alloc s of
               (None, s) \<Rightarrow> (- ENOMEM, None, put (Inode (i_ino root)) s)
             | (Some root_dentry, s) \<Rightarrow> (0, Some root, lfs_create_files alloc root_dentry s))"

section \<open>Files\<close>

text \<open>An open file is the counter it leads to.\<close>

definition lfs_open :: "lfs_inode \<Rightarrow> i32 \<times> counter_id option" where
  "lfs_open inode = (0, generic_ip inode)"

text \<open>
  The result, the bytes copied to the user, the new offset and the counters; \<open>fault\<close> tells that the user's buffer
  cannot be written.  \<open>None\<close> is an access before the text.
\<close>

definition lfs_read_file ::
  "bool \<Rightarrow> counter_id \<Rightarrow> u64 \<Rightarrow> i64 \<Rightarrow> lfs_mem \<Rightarrow> (i64 \<times> string \<times> i64 \<times> lfs_mem) option" where
  "lfs_read_file fault counter count offset s =
     (let v = counters s counter;
          (v, s) = (if sint offset > 0 then (v - 1, s) else (v, atomic_set counter (v + 1) s));
          tmp = snprintf_cut TMPSIZE (fmt_d v @ [CHR 0x0A]);
          len = length (fmt_d v @ [CHR 0x0A])
      in if sint offset > int len then Some (0, [], offset, s)
         else if sint offset < 0 then None
         else let count = (if count > of_int (int len - sint offset) then of_int (int len - sint offset) else count)
              in if fault then Some (- EFAULT, [], offset, s)
                 else Some (count, take (unat count) (drop (nat (sint offset)) tmp), offset + count, s))"

definition lfs_write_file ::
  "(string \<Rightarrow> i64) \<Rightarrow> bool \<Rightarrow> counter_id \<Rightarrow> string \<Rightarrow> u64 \<Rightarrow> i64 \<Rightarrow> lfs_mem \<Rightarrow> i64 \<times> lfs_mem" where
  "lfs_write_file simple_strtol fault counter buf count offset s =
     (if offset \<noteq> 0 then (- EINVAL, s)
      else if count \<ge> of_nat TMPSIZE then (- EINVAL, s)
      else if fault then (- EFAULT, s)
      else (count, atomic_set counter (ucast (simple_strtol (take (unat count) buf))) s))"

section \<open>Reading in pieces\<close>

definition file_text :: "i32 \<Rightarrow> string" where
  "file_text v = fmt_d v @ [CHR 0x0A]"

lemma file_text_length: "length (file_text v) \<le> 12"
proof -
  have "- 2147483648 \<le> sint v" "sint v < 2147483648" using sint_ge [of v] sint_lt [of v] by simp_all
  then have "nat (sint v) < 10 ^ 10" "nat (- sint v) < 10 ^ 10" by simp_all
  from this [THEN length_dec] show ?thesis by (simp add: file_text_def fmt_d_def)
qed

lemma file_text_nonempty: "0 < length (file_text v)"
  by (simp add: file_text_def)

lemma sint_small: "n \<le> 12 \<Longrightarrow> sint (of_nat n :: i64) = int n \<and> unat (of_nat n :: i64) = n"
proof -
  assume n: "n \<le> 12"
  have "unat (of_nat n :: i64) = n" using n by (simp add: unat_of_nat)
  moreover have "sint (of_nat n :: i64) = int n"
    using n by (simp add: signed_of_nat signed_take_bit_int_eq_self)
  ultimately show ?thesis by simp
qed

text \<open>A read at an offset within the text of the value \<open>v\<close>.\<close>

lemma read_at:
  assumes "o' \<le> length (file_text v)" "counters s c = (if o' = 0 then v else v + 1)"
  shows "lfs_read_file False c count (of_nat o') s =
    Some (of_nat (min (unat count) (length (file_text v) - o')), take (unat count) (drop o' (file_text v)),
      of_nat (o' + min (unat count) (length (file_text v) - o')), if o' = 0 then atomic_set c (v + 1) s else s)"
proof -
  define L where "L = length (file_text v)"
  have b: "o' \<le> 12" "L \<le> 12" "o' \<le> L" "L - o' \<le> 12" using assms(1) file_text_length [of v] by (simp_all add: L_def)
  have so: "sint (of_nat o' :: i64) = int o'" using sint_small [OF b(1)] by blast
  have cut: "snprintf_cut TMPSIZE (file_text v) = file_text v"
    using file_text_length [of v] by (simp add: snprintf_cut_def TMPSIZE_def)
  have d: "(of_int (int L - int o') :: u64) = of_nat (L - o')" using b(3) by (metis of_int_of_nat_eq of_nat_diff)
  have u: "unat (of_nat (L - o') :: u64) = L - o'" using sint_small [OF b(4)] by blast
  have m: "(if count > of_nat (L - o') then of_nat (L - o') else count) = of_nat (min (unat count) (L - o'))"
    using u by (auto simp: word_less_nat_alt min_def)
  have um: "unat (of_nat (min (unat count) (L - o')) :: u64) = min (unat count) (L - o')"
    using sint_small [of "min (unat count) (L - o')"] b(4) by simp
  have t: "take (min (unat count) (L - o')) (drop o' (file_text v)) = take (unat count) (drop o' (file_text v))"
    by (simp add: L_def min_def)
  define s1 where "s1 = (if o' = 0 then atomic_set c (v + 1) s else s)"
  have v: "(if int o' > 0 then (counters s c - 1, s) else (counters s c, atomic_set c (counters s c + 1) s)) = (v, s1)"
    using assms(2) by (simp add: so s1_def)
  have "lfs_read_file False c count (of_nat o') s =
      (if int o' > int L then Some (0, [], of_nat o', s1)
         else if int o' < 0 then None
         else let count = (if count > of_int (int L - int o') then of_int (int L - int o') else count)
              in if False then Some (- EFAULT, [], of_nat o', s1)
                 else Some (count, take (unat count) (drop (nat (int o')) (file_text v)), of_nat o' + count, s1))"
    unfolding lfs_read_file_def Let_def v prod.case so file_text_def [symmetric] cut L_def by (rule refl)
  also have "\<dots> = Some (of_nat (min (unat count) (L - o')), take (unat count) (drop o' (file_text v)),
      of_nat (o' + min (unat count) (L - o')), s1)"
    unfolding d m Let_def using b(3) by (simp add: um t)
  finally show ?thesis by (simp add: L_def s1_def)
qed

fun read_all :: "counter_id \<Rightarrow> u64 list \<Rightarrow> i64 \<Rightarrow> lfs_mem \<Rightarrow> (string \<times> i64 \<times> lfs_mem) option" where
  "read_all c [] offset s = Some ([], offset, s)"
| "read_all c (count # counts) offset s =
     (case lfs_read_file False c count offset s of
        None \<Rightarrow> None
      | Some (n, bytes, offset, s) \<Rightarrow>
          (case read_all c counts offset s of None \<Rightarrow> None | Some (rest, offset, s) \<Rightarrow> Some (bytes @ rest, offset, s)))"

definition total :: "u64 list \<Rightarrow> nat" where
  "total counts = sum_list (map unat counts)"

lemma read_all_rest:
  "0 < o' \<Longrightarrow> o' \<le> length (file_text v) \<Longrightarrow> counters s c = v + 1 \<Longrightarrow>
   read_all c counts (of_nat o') s = Some (take (total counts) (drop o' (file_text v)),
     of_nat (min (o' + total counts) (length (file_text v))), s)"
proof (induction counts arbitrary: o')
  case Nil
  then show ?case by (simp add: total_def)
next
  case (Cons count counts)
  let ?n = "min (unat count) (length (file_text v) - o')"
  have r: "lfs_read_file False c count (of_nat o') s =
      Some (of_nat ?n, take (unat count) (drop o' (file_text v)), of_nat (o' + ?n), s)"
    using read_at [OF Cons.prems(2), of s c count] Cons.prems(1,3) by simp
  have ih: "read_all c counts (of_nat (o' + ?n)) s = Some (take (total counts) (drop (o' + ?n) (file_text v)),
     of_nat (min (o' + ?n + total counts) (length (file_text v))), s)"
    using Cons.prems by (intro Cons.IH) simp_all
  have "take (unat count) (drop o' (file_text v)) @ take (total counts) (drop (o' + ?n) (file_text v)) =
      take (total (count # counts)) (drop o' (file_text v))"
    by (cases "unat count \<le> length (file_text v) - o'") (simp_all add: total_def take_add ac_simps)
  moreover have "min (o' + ?n + total counts) (length (file_text v)) = min (o' + total (count # counts)) (length (file_text v))"
    using Cons.prems(2) by (auto simp: total_def)
  ultimately show ?case unfolding read_all.simps r option.case prod.case ih by simp
qed

lemma read_all_start:
  assumes "counts \<noteq> []" "0 < unat (hd counts)"
  shows "read_all c counts 0 s = Some (take (total counts) (file_text (counters s c)),
    of_nat (min (total counts) (length (file_text (counters s c)))), atomic_set c (counters s c + 1) s)"
proof -
  obtain count rest where cs: "counts = count # rest" using assms(1) by (cases counts) auto
  define v where "v = counters s c"
  let ?n = "min (unat count) (length (file_text v))"
  let ?s = "atomic_set c (v + 1) s"
  have r: "lfs_read_file False c count 0 s = Some (of_nat ?n, take (unat count) (file_text v), of_nat ?n, ?s)"
  proof -
    have "counters s c = (if (0 :: nat) = 0 then v else v + 1)" by (simp only: v_def if_True simp_thms)
    from read_at [OF le0 this, of count] show ?thesis
      by (simp only: semiring_1_class.of_nat_0 drop_0 diff_zero add_0 if_True simp_thms)
  qed
  have n: "0 < ?n" "?n \<le> length (file_text v)" using assms(2) file_text_nonempty [of v] by (simp_all add: cs)
  have "counters ?s c = v + 1" by (simp add: atomic_set_def)
  note ih = read_all_rest [OF n this, of rest]
  have "take (unat count) (file_text v) @ take (total rest) (drop ?n (file_text v)) = take (total counts) (file_text v)"
    by (cases "unat count \<le> length (file_text v)") (simp_all add: total_def take_add cs)
  moreover have "min (?n + total rest) (length (file_text v)) = min (total counts) (length (file_text v))"
    by (auto simp: total_def cs)
  ultimately show ?thesis unfolding cs read_all.simps r option.case prod.case ih by (simp add: cs v_def)
qed

section \<open>Building the tree\<close>

text \<open>Every live object is the root or belongs to an entry, and every entry to two live objects.\<close>

definition owned :: "lfs_mem \<Rightarrow> lfs_object list" where
  "owned s = concat (map (\<lambda>(path, inode). [Dentry path, Inode (i_ino inode)]) (tree s))"

lemma lfs_create_file_cases:
  "\<exists>r s'. lfs_create_file alloc dir name c s = (r, s') \<and> counters s' = counters s \<and>
     (r = None \<and> tree s' = tree s \<and> live s' = live s \<or>
      r = Some (dir @ [name]) \<and> (\<exists>n. tree s' = tree s @ [(dir @ [name], \<lparr>i_ino = n, i_mode = S_IFREG + 420, i_fop = Lfs_file_ops, generic_ip = Some c\<rparr>)] \<and>
        live s' = Inode n # Dentry (dir @ [name]) # live s))"
  by (auto simp: lfs_create_file_def d_alloc_def lfs_make_inode_def put_def d_add_def Let_def)

lemma lfs_create_dir_cases:
  "\<exists>r s'. lfs_create_dir alloc dir name s = (r, s') \<and> counters s' = counters s \<and>
     (r = None \<and> tree s' = tree s \<and> live s' = live s \<or>
      r = Some (dir @ [name]) \<and> (\<exists>n. tree s' = tree s @ [(dir @ [name], \<lparr>i_ino = n, i_mode = S_IFDIR + 420, i_fop = Simple_dir_ops, generic_ip = None\<rparr>)] \<and>
        live s' = Inode n # Dentry (dir @ [name]) # live s))"
  by (auto simp: lfs_create_dir_def d_alloc_def lfs_make_inode_def put_def d_add_def Let_def)

definition lfs_paths :: "lfs_mem \<Rightarrow> (string list \<times> nat \<times> file_ops \<times> counter_id option) list" where
  "lfs_paths s = map (\<lambda>(path, inode). (path, i_mode inode, i_fop inode, generic_ip inode)) (tree s)"

text \<open>A file that leads to a counter, and a directory.\<close>

definition lfs_file :: "string list \<Rightarrow> counter_id \<Rightarrow> string list \<times> nat \<times> file_ops \<times> counter_id option" where
  "lfs_file path c = (path, S_IFREG + 420, Lfs_file_ops, Some c)"

definition lfs_dir :: "string list \<Rightarrow> string list \<times> nat \<times> file_ops \<times> counter_id option" where
  "lfs_dir path = (path, S_IFDIR + 420, Simple_dir_ops, None)"

text \<open>
  The entries that the allocations from number \<open>k\<close> on allow: each entry takes one allocation for itself and, if that
  succeeds, one for its inode; \<open>subcounter\<close> is tried only in \<open>subdir\<close>.
\<close>

definition lfs_entries :: "(nat \<Rightarrow> bool) \<Rightarrow> nat \<Rightarrow> (string list \<times> nat \<times> file_ops \<times> counter_id option) list" where
  "lfs_entries alloc k =
     (let j = (if alloc k then k + 2 else k + 1)
      in (if alloc k \<and> alloc (k + 1) then [lfs_file [''counter''] Counter] else []) @
         (if alloc j \<and> alloc (j + 1)
          then lfs_dir [''subdir''] #
            (if alloc (j + 2) \<and> alloc (j + 3) then [lfs_file [''subdir'', ''subcounter''] Subcounter] else [])
          else []))"

lemma lfs_entries_all: "lfs_entries (\<lambda>n. True) k =
    [lfs_file [''counter''] Counter, lfs_dir [''subdir''], lfs_file [''subdir'', ''subcounter''] Subcounter]"
  by (simp add: lfs_entries_def)

lemma lfs_create_files_tree:
  assumes "lfs_paths s = []"
  shows "lfs_paths (lfs_create_files alloc [] s) = lfs_entries alloc (calls s)"
  using assms
  by (simp add: lfs_paths_def lfs_create_files_def lfs_create_file_def lfs_create_dir_def lfs_make_inode_def d_alloc_def d_add_def
      put_def atomic_set_def lfs_entries_def lfs_file_def lfs_dir_def Let_def numeral_eq_Suc)

text \<open>The objects alive are \<open>base\<close> and those of the entries.\<close>

definition balanced :: "lfs_object list \<Rightarrow> lfs_mem \<Rightarrow> bool" where
  "balanced base s \<longleftrightarrow> live s = rev (owned s) @ base"

lemma balanced_create:
  assumes "balanced base s"
  shows "balanced base (snd (lfs_create_file alloc dir name c s))" "balanced base (snd (lfs_create_dir alloc dir name s))"
  using assms lfs_create_file_cases [of alloc dir name c s] lfs_create_dir_cases [of alloc dir name s]
  by (auto simp: balanced_def owned_def)

lemma paths_create:
  "lfs_paths (snd (lfs_create_file alloc dir name c s)) =
     lfs_paths s @ (if fst (lfs_create_file alloc dir name c s) = None then [] else [lfs_file (dir @ [name]) c])"
  "lfs_paths (snd (lfs_create_dir alloc dir name s)) =
     lfs_paths s @ (if fst (lfs_create_dir alloc dir name s) = None then [] else [lfs_dir (dir @ [name])])"
  "fst (lfs_create_dir alloc dir name s) = Some p \<Longrightarrow> p = dir @ [name]"
  "counters (snd (lfs_create_file alloc dir name c s)) = counters s"
  "counters (snd (lfs_create_dir alloc dir name s)) = counters s"
  using lfs_create_file_cases [of alloc dir name c s] lfs_create_dir_cases [of alloc dir name s]
  by (auto simp: lfs_paths_def lfs_file_def lfs_dir_def)

lemma atomic_set_frame: "balanced base (atomic_set c v s) = balanced base s" "lfs_paths (atomic_set c v s) = lfs_paths s"
  "counters (atomic_set c v s) = (counters s)(c := v)"
  by (simp_all add: balanced_def owned_def lfs_paths_def atomic_set_def)

lemma lfs_create_files_unfold:
  "lfs_create_files alloc root s =
     (let s1 = snd (lfs_create_file alloc root ''counter'' Counter (atomic_set Counter 0 s));
          r = lfs_create_dir alloc root ''subdir'' (atomic_set Subcounter 0 s1)
      in case fst r of None \<Rightarrow> snd r | Some subdir \<Rightarrow> snd (lfs_create_file alloc subdir ''subcounter'' Subcounter (snd r)))"
  by (simp add: lfs_create_files_def Let_def split: prod.split option.split)

lemma lfs_create_files_result:
  assumes "balanced base s"
  shows "balanced base (lfs_create_files alloc [] s)"
    and "counters (lfs_create_files alloc [] s) Counter = 0" "counters (lfs_create_files alloc [] s) Subcounter = 0"
proof -
  define s1 where "s1 = snd (lfs_create_file alloc [] ''counter'' Counter (atomic_set Counter 0 s))"
  define r where "r = lfs_create_dir alloc [] ''subdir'' (atomic_set Subcounter 0 s1)"
  have unf: "lfs_create_files alloc [] s = (case fst r of None \<Rightarrow> snd r
      | Some subdir \<Rightarrow> snd (lfs_create_file alloc subdir ''subcounter'' Subcounter (snd r)))"
    unfolding lfs_create_files_unfold s1_def r_def Let_def by (rule refl)
  have b: "balanced base s1" "balanced base (snd r)"
    unfolding s1_def r_def by (intro balanced_create | simp only: atomic_set_frame assms(1))+
  have c: "counters (snd r) Counter = 0" "counters (snd r) Subcounter = 0"
    unfolding s1_def r_def by (simp_all add: paths_create atomic_set_frame)
  show "balanced base (lfs_create_files alloc [] s)"
    "counters (lfs_create_files alloc [] s) Counter = 0" "counters (lfs_create_files alloc [] s) Subcounter = 0"
    using b c balanced_create(1) [OF b(2)] by (auto simp: unf paths_create split: option.split)
qed


section \<open>Properties\<close>

text \<open>
  Reading a file from its beginning in pieces of any sizes, of which the first is not empty, yields the decimal text of
  the counter and a line end as far as the sizes reach, counts once, and leaves the offset behind what was read; writing
  a number at offset 0 makes a reading yield that number, for a \<open>simple_strtol\<close> that reads decimal texts.
\<close>

theorem lfs_read_write:
  assumes "counts \<noteq> []" "0 < unat (hd counts)" "n < 2 ^ 31" "simple_strtol (dec n) = of_nat n"
  shows "read_all c counts 0 s = Some (take (sum_list (map unat counts)) (fmt_d (counters s c) @ [CHR 0x0A]),
      of_nat (min (sum_list (map unat counts)) (length (fmt_d (counters s c)) + 1)), s\<lparr>counters := (counters s)(c := counters s c + 1)\<rparr>) \<and>
    (\<exists>s'. lfs_write_file simple_strtol False c (dec n) (of_nat (length (dec n))) 0 s = (of_nat (length (dec n)), s') \<and>
      (\<exists>offset s''. read_all c counts 0 s' = Some (take (sum_list (map unat counts)) (dec n @ [CHR 0x0A]), offset, s'')))"
proof -
  have l: "length (dec n) \<le> 10" using assms(3) by (intro length_dec) simp_all
  have u: "unat (of_nat (length (dec n)) :: u64) = length (dec n)" using sint_small [of "length (dec n)"] l by simp
  have "(of_nat (length (dec n)) :: u64) < of_nat TMPSIZE" unfolding word_less_nat_alt u using l by (simp add: TMPSIZE_def)
  then have w: "lfs_write_file simple_strtol False c (dec n) (of_nat (length (dec n))) 0 s =
      (of_nat (length (dec n)), atomic_set c (of_nat n) s)"
  proof -
    assume "(of_nat (length (dec n)) :: u64) < of_nat TMPSIZE"
    then have "\<not> of_nat TMPSIZE \<le> (of_nat (length (dec n)) :: u64)" by (simp only: not_le simp_thms)
    moreover have "(ucast (of_nat n :: i64) :: i32) = of_nat n" by transfer (simp add: take_bit_eq_mod mod_mod_cancel)
    ultimately show ?thesis unfolding lfs_write_file_def u by (simp add: assms(4))
  qed
  have "fmt_d (of_nat n) = dec n"
    using assms(3) sint_eq_unat32 [of "of_nat n"] by (simp add: fmt_d_def unat_of_nat32)
  with read_all_start [OF assms(1,2), of c "atomic_set c (of_nat n) s"]
  have "\<exists>offset s''. read_all c counts 0 (atomic_set c (of_nat n) s) = Some (take (sum_list (map unat counts)) (dec n @ [CHR 0x0A]), offset, s'')"
    by (simp add: total_def file_text_def atomic_set_def)
  with w read_all_start [OF assms(1,2), of c s] show ?thesis
    by (simp add: total_def file_text_def atomic_set_def)
qed

lemma lfs_read_write_witness:
  "\<exists>offset s'. read_all Counter [1, 5] 0 \<lparr>calls = 0, live = [], tree = [], counters = (\<lambda>c. 42)\<rparr> = Some (''42'' @ [CHR 0x0A], offset, s')"
proof -
  have t: "take (sum_list (map unat [1, 5 :: u64])) (fmt_d 42 @ [CHR 0x0A]) = ''42'' @ [CHR 0x0A]" by code_simp
  show ?thesis
    using lfs_read_write [of "[1, 5]" 7 "\<lambda>_. of_nat 7" Counter "\<lparr>calls = 0, live = [], tree = [], counters = (\<lambda>c. 42)\<rparr>"] t
    by simp
qed

text \<open>
  C33: Filling the superblock of an empty system, whichever allocations fail: the result is 0 exactly when the root inode
  and the root entry were allocated; otherwise nothing is left alive.  After success the tree has exactly the entries whose
  allocations succeeded, \<open>counter\<close> in the root and \<open>subcounter\<close> in \<open>subdir\<close>, with their modes and operations, each
  file leading to its counter; in particular all three when no allocation fails.  The live objects are those of the root and
  of the entries, and the counters are 0.
\<close>

theorem lfs_fill_super_balanced:
  assumes "live s = []" "tree s = []" "lfs_fill_super alloc s = (r, root, s')"
  shows "(r = 0 \<longleftrightarrow> alloc (calls s) \<and> alloc (calls s + 1)) \<and>
    (r \<noteq> 0 \<longrightarrow> r = - ENOMEM \<and> root = None \<and> live s' = [] \<and> tree s' = []) \<and>
    (r = 0 \<longrightarrow> (\<exists>i. root = Some i \<and> i_fop i = Simple_dir_ops \<and> i_mode i = S_IFDIR + 493 \<and>
        live s' = rev (concat (map (\<lambda>(path, inode). [Dentry path, Inode (i_ino inode)]) (tree s'))) @ [Dentry [], Inode (i_ino i)]) \<and>
      map (\<lambda>(path, inode). (path, i_mode inode, i_fop inode, generic_ip inode)) (tree s') = lfs_entries alloc (calls s + 2) \<and>
      counters s' Counter = 0 \<and> counters s' Subcounter = 0)"
proof (cases "alloc (calls s) \<and> alloc (calls s + 1)")
  case False
  have F: "r = - ENOMEM \<and> root = None \<and> live s' = [] \<and> tree s' = []"
    using assms False by (auto simp: lfs_fill_super_def lfs_make_inode_def d_alloc_root_def put_def Let_def split: if_splits)
  then have "r \<noteq> 0" by (simp add: ENOMEM_def)
  with F False show ?thesis by blast
next
  case True
  define i where "i = \<lparr>i_ino = calls s, i_mode = S_IFDIR + 493, i_fop = Simple_dir_ops, generic_ip = None\<rparr>"
  define s1 where "s1 = s\<lparr>calls := calls s + 2, live := [Dentry [], Inode (calls s)]\<rparr>"
  have f: "lfs_fill_super alloc s = (0, Some i, lfs_create_files alloc [] s1)"
    using True assms(1) by (simp add: lfs_fill_super_def lfs_make_inode_def d_alloc_root_def Let_def i_def s1_def)
  then have eqs: "r = 0" "root = Some i" "s' = lfs_create_files alloc [] s1" using assms(3) by simp_all
  have s1: "balanced [Dentry [], Inode (i_ino i)] s1" "lfs_paths s1 = []" "calls s1 = calls s + 2"
    using assms(2) by (simp_all add: balanced_def owned_def lfs_paths_def s1_def i_def)
  have "balanced [Dentry [], Inode (i_ino i)] s'" unfolding eqs(3) by (rule lfs_create_files_result(1) [OF s1(1)])
  moreover have "lfs_paths s' = lfs_entries alloc (calls s + 2)"
    using lfs_create_files_tree [OF s1(2), of alloc] unfolding s1(3) eqs(3) .
  moreover have "counters s' Counter = 0" "counters s' Subcounter = 0"
    using lfs_create_files_result(2,3) [OF s1(1), of alloc] unfolding eqs(3) by blast+
  moreover have "i_fop i = Simple_dir_ops" "i_mode i = S_IFDIR + 493" by (simp_all add: i_def)
  ultimately show ?thesis using True eqs(1,2) unfolding balanced_def owned_def lfs_paths_def by blast
qed

lemma lfs_fill_super_balanced_witness:
  "map fst (tree (snd (snd (lfs_fill_super (\<lambda>n. n \<noteq> 3) \<lparr>calls = 0, live = [], tree = [], counters = (\<lambda>c. 5)\<rparr>)))) =
     [[''subdir''], [''subdir'', ''subcounter'']] \<and>
   fst (lfs_fill_super (\<lambda>n. n \<noteq> 3) \<lparr>calls = 0, live = [], tree = [], counters = (\<lambda>c. 5)\<rparr>) = 0"
proof -
  let ?s = "\<lparr>calls = 0, live = [], tree = [], counters = (\<lambda>c. 5)\<rparr>"
  obtain r root s' where f: "lfs_fill_super (\<lambda>n. n \<noteq> 3) ?s = (r, root, s')" by (metis prod_cases3)
  have r: "r = 0" using lfs_fill_super_balanced [OF _ _ f] by simp
  have "map (\<lambda>(path, inode). (path, i_mode inode, i_fop inode, generic_ip inode)) (tree s') = lfs_entries (\<lambda>n. n \<noteq> 3) 2"
    using lfs_fill_super_balanced [OF _ _ f] r by (simp add: numeral_2_eq_2)
  then have "map fst (map (\<lambda>(path, inode). (path, i_mode inode, i_fop inode, generic_ip inode)) (tree s')) =
      [[''subdir''], [''subdir'', ''subcounter'']]"
    by (simp add: lfs_entries_def lfs_file_def lfs_dir_def)
  then have "map fst (tree s') = [[''subdir''], [''subdir'', ''subcounter'']]" by (simp add: comp_def case_prod_beta)
  then show ?thesis using f r by simp
qed

end
