(* ===== verification/Rtpqual.thy ===== *)
theory Rtpqual
  imports CText Bytes
begin

text \<open>
  The multicast quality meter, \<open>src/rtpqual.c\<close>: the circular list of senders, the accounting of
  each packet, the statistics printed when a new second begins, and the opening of the socket.  The allocated senders
  are the cells of an array, named by their position; the outcomes of system calls are arguments.
\<close>

section \<open>Senders\<close>

text \<open>\<open>ss_from\<close> holds the twelve bytes of \<open>from\<close> after its family and port: the address and the padding.\<close>

record senderstat =
  ss_next :: nat
  ss_flags :: i32
  ss_from :: "u8 list"
  ss_from_name :: string
  ss_seq :: i32
  ss_spkts :: i32
  ss_slost :: i32
  ss_npkts :: i32
  ss_bytes :: i32
  ss_Tspkts :: i32
  ss_Tslost :: i32
  ss_Tnpkts :: i32
  ss_Tbytes :: i32

record qual =
  cells :: "senderstat list"
  senders :: "nat option"
  g_Tspkts :: i32
  g_Tslost :: i32
  g_Tnpkts :: i32
  g_Tbytes :: i32
  q_tick :: i32
  q_minute :: i32
  q_buff :: "u8 list"

definition MAXB :: nat where "MAXB = 1500"
definition K :: int where "K = 1024"
definition HEADER_FUDGE :: i32 where "HEADER_FUDGE = 40"

text \<open>\<open>strncmp\<close> of at most \<open>n\<close> bytes; \<open>None\<close> when it reads past the arrays.\<close>

fun strn_equal :: "nat \<Rightarrow> u8 list \<Rightarrow> u8 list \<Rightarrow> bool option" where
  "strn_equal 0 xs ys = Some True"
| "strn_equal (Suc n) (x # xs) (y # ys) =
     (if x \<noteq> y then Some False else if x = 0 then Some True else strn_equal n xs ys)"
| "strn_equal (Suc n) xs ys = None"

text \<open>The loop \<open>DO_SENDERS ... UNTIL_SENDERS\<close> of \<open>findfrom\<close>: the sender found, if any.\<close>

partial_function (option) find_sender_loop :: "senderstat list \<Rightarrow> u8 list \<Rightarrow> nat \<Rightarrow> nat \<Rightarrow> nat option option" where
  "find_sender_loop h f start s = do {
     c \<leftarrow> rd h s;
     e \<leftarrow> strn_equal 16 f (ss_from c);
     if e then Some (Some s)
     else if ss_next c = start then Some None else find_sender_loop h f start (ss_next c) }"

declare find_sender_loop.simps [code]

text \<open>
  The sixteen bytes \<open>bcopy\<close> moves are the twelve above and the four that follow the structure; those land in
  \<open>from_name\<close>, which \<open>sprintf\<close> overwrites at once.  The outer \<open>None\<close> is an undefined access, the
  inner one the exit when \<open>malloc\<close> fails.
\<close>

definition from_name :: "u8 list \<Rightarrow> string" where
  "from_name f = join ''.'' (map (\<lambda>b. dec (unat b)) (take 4 f))"

definition new_sender :: "u8 list \<Rightarrow> nat \<Rightarrow> senderstat" where
  "new_sender f nxt =
     \<lparr>ss_next = nxt, ss_flags = 0, ss_from = f, ss_from_name = from_name f, ss_seq = - 1,
      ss_spkts = 0, ss_slost = 0, ss_npkts = 0, ss_bytes = 0, ss_Tspkts = 0, ss_Tslost = 0, ss_Tnpkts = 0, ss_Tbytes = 0\<rparr>"

definition findfrom :: "bool \<Rightarrow> u8 list \<Rightarrow> qual \<Rightarrow> (nat \<times> qual) option option" where
  "findfrom malloc f q = do {
     found \<leftarrow> (case senders q of None \<Rightarrow> Some None | Some start \<Rightarrow> find_sender_loop (cells q) f start start);
     case found of
       Some s \<Rightarrow> Some (Some (s, q))
     | None \<Rightarrow>
         if \<not> malloc then Some None
         else let s = length (cells q)
              in case senders q of
                   None \<Rightarrow> Some (Some (s, q\<lparr>cells := cells q @ [new_sender f s], senders := Some s\<rparr>))
                 | Some c \<Rightarrow> do {
                     old \<leftarrow> rd (cells q) c;
                     Some (Some (s, q\<lparr>cells := (cells q)[c := old\<lparr>ss_next := s\<rparr>] @ [new_sender f (ss_next old)]\<rparr>)) } }"

section \<open>One packet\<close>

definition getRTPseq :: "u8 list \<Rightarrow> u32 option" where
  "getRTPseq b = map_option ucast (rd b 3)"

text \<open>The accounting of a packet of \<open>len\<close> bytes whose sequence number is \<open>sq\<close>.\<close>

definition tabulate :: "i32 \<Rightarrow> i32 \<Rightarrow> senderstat \<Rightarrow> senderstat" where
  "tabulate sq len ss =
     (let ss = (if sint sq \<ge> 0
                then let ss = ss\<lparr>ss_flags := 1, ss_spkts := ss_spkts ss + 1\<rparr>
                     in if sint (ss_seq ss) \<ge> 0
                        then if 128 AND (sq - ss_seq ss - 1) \<noteq> 0 then ss\<lparr>ss_npkts := ss_npkts ss + 1\<rparr>
                             else ss\<lparr>ss_slost := ss_slost ss + (255 AND (sq - ss_seq ss - 1)), ss_seq := sq\<rparr>
                        else ss\<lparr>ss_seq := sq\<rparr>
                else ss\<lparr>ss_npkts := ss_npkts ss + 1\<rparr>)
      in ss\<lparr>ss_bytes := ss_bytes ss + (len + HEADER_FUDGE)\<rparr>)"

section \<open>The display\<close>

definition pad_left :: "nat \<Rightarrow> string \<Rightarrow> string" where
  "pad_left n s = replicate (n - length s) (CHR '' '') @ s"

definition c_div :: "i32 \<Rightarrow> i32 \<Rightarrow> i32" where
  "c_div a b = word_of_int (sint a sdiv sint b)"

definition c_mod :: "i32 \<Rightarrow> i32 \<Rightarrow> i32" where
  "c_mod a b = word_of_int (sint a smod sint b)"

text \<open>The quotient is one of integers; \<open>%5.2f\<close> prints it with two zero decimals.\<close>

definition loss_rate :: "i32 \<Rightarrow> i32 \<Rightarrow> i32" where
  "loss_rate lost pkts = (if pkts + lost \<noteq> 0 then c_div (lost * 100) (pkts + lost) else 0)"

definition fmt_rate :: "i32 \<Rightarrow> string" where
  "fmt_rate f = pad_left 5 (fmt_d f @ ''.00'')"

definition fmt_wd :: "nat \<Rightarrow> i32 \<Rightarrow> string" where
  "fmt_wd n v = pad_left n (fmt_d v)"

definition header_text :: string where
  "header_text = ''T Pkts Loss %  Late Bytes |  Pkts Loss   %    Late     kB Sender'' @ [CHR 0x0A]"

definition all_senders_line :: "qual \<Rightarrow> string" where
  "all_senders_line q =
     ''                          |'' @ fmt_wd 6 (g_Tspkts q) @ '' '' @ fmt_wd 4 (g_Tslost q) @ '' '' @
     fmt_rate (loss_rate (g_Tslost q) (g_Tspkts q)) @ '' '' @ fmt_wd 4 (g_Tnpkts q) @ '' '' @
     fmt_wd 7 (c_div (g_Tbytes q) (of_int K)) @ '' (All Senders)'' @ [CHR 0x0A]"

text \<open>What is printed at the start of a minute; \<open>None\<close> for a dangling \<open>senders\<close>.\<close>

definition minute_text :: "qual \<Rightarrow> (string \<times> qual) option" where
  "minute_text q =
     (let cmin = c_div (q_tick q) 60
      in if cmin \<noteq> q_minute q then
           case senders q of
             None \<Rightarrow> Some (header_text, q\<lparr>q_minute := cmin\<rparr>)
           | Some s \<Rightarrow> do {
               c \<leftarrow> rd (cells q) s;
               Some (header_text @ (if ss_next c \<noteq> s then all_senders_line q else []), q\<lparr>q_minute := cmin\<rparr>) }
         else Some ([], q))"

definition add_totals :: "senderstat \<Rightarrow> senderstat" where
  "add_totals s = s\<lparr>ss_Tspkts := ss_Tspkts s + ss_spkts s, ss_Tslost := ss_Tslost s + ss_slost s,
     ss_Tnpkts := ss_Tnpkts s + ss_npkts s, ss_Tbytes := ss_Tbytes s + ss_bytes s\<rparr>"

definition clear_second :: "senderstat \<Rightarrow> senderstat" where
  "clear_second s = s\<lparr>ss_flags := 0, ss_spkts := 0, ss_slost := 0, ss_bytes := 0\<rparr>"

definition sender_line :: "senderstat \<Rightarrow> string" where
  "sender_line s =
     fmt_wd 3 (ss_spkts s) @ '' '' @ fmt_wd 2 (ss_slost s) @ '' '' @ fmt_rate (loss_rate (ss_slost s) (ss_spkts s)) @ '' '' @
     fmt_wd 2 (ss_npkts s) @ '' '' @ fmt_wd 6 (ss_bytes s) @ '' |'' @
     fmt_wd 6 (ss_Tspkts s) @ '' '' @ fmt_wd 4 (ss_Tslost s) @ '' '' @ fmt_rate (loss_rate (ss_Tslost s) (ss_Tspkts s)) @ '' '' @
     fmt_wd 4 (ss_Tnpkts s) @ '' '' @ fmt_wd 7 (c_div (ss_Tbytes s) (of_int K)) @ '' '' @ ss_from_name s @ [CHR 0x0A]"

definition line_head :: "bool \<Rightarrow> i32 \<Rightarrow> string" where
  "line_head first tick = (if first then fmt_wd 2 (c_mod tick 60) @ '' '' else ''   '')"

definition add_grand :: "senderstat \<Rightarrow> qual \<Rightarrow> qual" where
  "add_grand s q = q\<lparr>g_Tspkts := g_Tspkts q + ss_spkts s, g_Tslost := g_Tslost q + ss_slost s,
     g_Tnpkts := g_Tnpkts q + ss_npkts s, g_Tbytes := g_Tbytes q + ss_bytes s\<rparr>"

text \<open>The loop over the senders at the start of a second: \<open>first\<close> tells that no line has been printed yet.\<close>

partial_function (option) display_loop :: "nat \<Rightarrow> nat \<Rightarrow> bool \<Rightarrow> string \<Rightarrow> qual \<Rightarrow> (string \<times> qual) option" where
  "display_loop start s first out q = do {
     c \<leftarrow> rd (cells q) s;
     let q = add_grand c q;
         c = add_totals c;
         active = (ss_flags c \<noteq> 0);
         out = (if active then out @ line_head first (q_tick q) @ sender_line c else out);
         q = q\<lparr>cells := (cells q)[s := clear_second c]\<rparr>
     in if ss_next c = start then Some (out, q) else display_loop start (ss_next c) (first \<and> \<not> active) out q }"

declare display_loop.simps [code]

definition display :: "qual \<Rightarrow> (string \<times> qual) option" where
  "display q = do {
     (head, q) \<leftarrow> minute_text q;
     case senders q of
       None \<Rightarrow> Some (head, q)
     | Some start \<Rightarrow> display_loop start start True head q }"

section \<open>The main loop\<close>

text \<open>
  A packet as received: its bytes, at most \<open>MAXB\<close>, the sender's twelve bytes, and the time.  The
  result is what was printed and the new state, or no state when the program has left.
\<close>

record packet =
  p_data :: "u8 list"
  p_from :: "u8 list"
  p_time :: i64

definition receive :: "bool \<Rightarrow> packet \<Rightarrow> qual \<Rightarrow> (string \<times> qual option) option" where
  "receive malloc p q = do {
     let q = q\<lparr>q_buff := p_data p @ drop (length (p_data p)) (q_buff q)\<rparr>;
     (out, q) \<leftarrow> (if scast (q_tick q) \<noteq> p_time p then display q else Some ([], q));
     let q = q\<lparr>q_tick := ucast (p_time p)\<rparr>;
     r \<leftarrow> findfrom malloc (p_from p) q;
     case r of
       None \<Rightarrow> Some (out, None)
     | Some (ss, q) \<Rightarrow> do {
         sq \<leftarrow> getRTPseq (q_buff q);
         c \<leftarrow> rd (cells q) ss;
         Some (out, Some (q\<lparr>cells := (cells q)[ss := tabulate sq (of_nat (length (p_data p))) c], senders := Some ss\<rparr>)) } }"

definition rtp_start :: "i64 \<Rightarrow> i32 \<Rightarrow> u8 list \<Rightarrow> qual" where
  "rtp_start now minute0 buff =
     \<lparr>cells = [], senders = None, g_Tspkts = 0, g_Tslost = 0, g_Tnpkts = 0, g_Tbytes = 0, q_tick = ucast now,
      q_minute = minute0, q_buff = buff\<rparr>"

text \<open>The packets of a run, every allocation successful.\<close>

fun rtp_run :: "packet list \<Rightarrow> string \<times> qual \<Rightarrow> (string \<times> qual) option" where
  "rtp_run [] st = Some st"
| "rtp_run (p # ps) (out, q) =
     (case receive True p q of
        Some (o1, Some q1) \<Rightarrow> rtp_run ps (out @ o1, q1)
      | _ \<Rightarrow> None)"

section \<open>The socket\<close>

text \<open>The arguments of \<open>main\<close>: what is printed, and the session name and port, or no result when the format is unknown.\<close>

definition rtp_args :: "(string \<Rightarrow> i32) \<Rightarrow> string \<Rightarrow> string list \<Rightarrow> string \<times> (string \<times> i32) option" where
  "rtp_args atoi prog args =
     (let name = (case args of a # _ \<Rightarrow> a | [] \<Rightarrow> ''224.2.1.1'');
          port = (case args of _ # a # _ \<Rightarrow> atoi a | _ \<Rightarrow> 4444);
          form = (case args of _ # _ # a # _ \<Rightarrow> a | _ \<Rightarrow> ''rtp'');
          out = (if length args < 3
                 then ''Defaulting to: '' @ prog @ '' '' @ name @ '' '' @ fmt_d port @ '' '' @ form @ [CHR 0x0A] else [])
      in if form = ''rtp'' then (out, Some (name, port))
         else (out @ ''Currently only rtp is supported'' @ [CHR 0x0A], None))"

text \<open>The calls of \<open>openMC\<close>; addresses and ports are the bytes the structures hold.\<close>

datatype mc_call =
    Mc_socket
  | Mc_reuse i32
  | Mc_bind i32 "u8 list" "u8 list"
  | Mc_join i32 "u8 list"

definition in_multicast :: "u8 list \<Rightarrow> bool" where
  "in_multicast a \<longleftrightarrow> (of_nat (be_nat a) AND 0xf0000000 :: u32) = 0xe0000000"

text \<open>
  The calls made and the descriptor, or the message of the exit (\<open>perror\<close> names the call that failed).
  \<open>inet_addr\<close> gives four bytes, \<open>gethostbyname\<close> the bytes of the first address; more than twelve do not fit.
\<close>

definition openMC ::
  "(string \<Rightarrow> u8 list) \<Rightarrow> (string \<Rightarrow> u8 list option) \<Rightarrow> (mc_call \<Rightarrow> i32) \<Rightarrow> string \<Rightarrow> u8 list \<Rightarrow>
   (mc_call list \<times> (string + i32)) option" where
  "openMC inet_addr gethostbyname sys name port =
     (let host = (if is_digit (hd0 name) then Some (inet_addr name) else gethostbyname name)
      in case host of
           None \<Rightarrow> Some ([], Inl (''I Don't understand session name '' @ name @ [CHR 0x0A]))
         | Some h \<Rightarrow>
             if length h > 12 then None
             else let addr = take 4 (h @ replicate 4 0)
                  in if \<not> in_multicast addr then Some ([], Inl (name @ '' is not a multicast session'' @ [CHR 0x0A]))
                     else let fd = sys Mc_socket
                          in if sint fd < 0 then Some ([Mc_socket], Inl ''socket'')
                             else if sint (sys (Mc_reuse fd)) < 0 then Some ([Mc_socket, Mc_reuse fd], Inl ''SO_REUSEADDR'')
                             else let b1 = Mc_bind fd addr port; b2 = Mc_bind fd [0, 0, 0, 0] port;
                                      bs = (if sys b1 = - 1 then [b1, b2] else [b1]);
                                      log = [Mc_socket, Mc_reuse fd] @ bs
                                  in if sys b1 = - 1 \<and> sint (sys b2) < 0 then Some (log, Inl ''bind'')
                                     else if sint (sys (Mc_join fd addr)) < 0 then Some (log @ [Mc_join fd addr], Inl ''IP_ADD_MEMBERSHIP'')
                                     else Some (log @ [Mc_join fd addr], Inr fd))"

lemma openMC_joined:
  assumes "openMC inet_addr gethostbyname sys name port = Some (log, Inr fd)"
  shows "\<exists>addr. last log = Mc_join fd addr \<and> in_multicast addr \<and> 0 \<le> sint fd \<and> hd log = Mc_socket \<and>
    (Mc_bind fd addr port \<in> set log) \<and> (\<forall>a p. Mc_bind fd a p \<in> set log \<longrightarrow> p = port \<and> (a = addr \<or> a = [0, 0, 0, 0]))"
  using assms by (auto simp: openMC_def Let_def split: if_splits option.splits)

section \<open>The ring of senders\<close>

text \<open>Following \<open>next\<close> through \<open>xs\<close> leads to \<open>y\<close>.\<close>

fun linked :: "senderstat list \<Rightarrow> nat list \<Rightarrow> nat \<Rightarrow> bool" where
  "linked h [] y = True"
| "linked h (x # xs) y \<longleftrightarrow> x < length h \<and> ss_next (h ! x) = hd (xs @ [y]) \<and> linked h xs y"

definition sender_ring :: "qual \<Rightarrow> nat list \<Rightarrow> bool" where
  "sender_ring q xs \<longleftrightarrow>
     distinct xs \<and> set xs = {..<length (cells q)} \<and> senders q = (if xs = [] then None else Some (hd xs)) \<and>
     linked (cells q) xs (hd xs)"

lemma linked_append: "linked h (xs @ ys) z \<longleftrightarrow> linked h xs (hd (ys @ [z])) \<and> linked h ys z"
  by (induction xs) (auto simp: hd_append)

lemma linked_cong:
  "linked h xs y \<Longrightarrow> (\<And>x. x \<in> set xs \<Longrightarrow> x < length h' \<and> ss_next (h' ! x) = ss_next (h ! x)) \<Longrightarrow> linked h' xs y"
  by (induction xs) auto

lemma linked_rotate:
  assumes "linked h (xs @ s # ys) (hd (xs @ s # ys))"
  shows "linked h (s # ys @ xs) s"
proof -
  have "linked h (s # ys) (hd (xs @ [s]))" "linked h xs s"
    using assms by (cases xs; simp only: linked_append hd_append list.sel append_Nil append_Cons; simp)+
  then have "linked h ((s # ys) @ xs) s" unfolding linked_append by (cases xs) simp_all
  then show ?thesis by simp
qed

lemma linked_in: "linked h xs y \<Longrightarrow> x \<in> set xs \<Longrightarrow> x < length h"
  by (induction xs) auto

text \<open>A cell outside the list may change its link.\<close>

lemma linked_insert:
  assumes "linked h (s # ys) s" "distinct (s # ys)" "n = length h" "s < length h"
  shows "linked (h[s := (h ! s)\<lparr>ss_next := n\<rparr>] @ [new_sender f (ss_next (h ! s))]) (s # n # ys) s"
proof -
  let ?h = "h[s := (h ! s)\<lparr>ss_next := n\<rparr>] @ [new_sender f (ss_next (h ! s))]"
  have in_h: "\<And>x. x \<in> set ys \<Longrightarrow> x < length h" using assms(1) linked_in [of h ys s] by simp
  have "linked ?h ys s"
  proof (rule linked_cong)
    show "linked h ys s" using assms(1) by simp
    fix x assume "x \<in> set ys"
    then have "x < length h" "x \<noteq> s" using in_h assms(2) by auto
    then show "x < length ?h \<and> ss_next (?h ! x) = ss_next (h ! x)" by (simp add: nth_append)
  qed
  then show ?thesis using assms by (simp add: nth_append new_sender_def)
qed

section \<open>Finding a sender\<close>

text \<open>What tells senders apart: the bytes of the address before the first zero.\<close>

definition addr_key :: "u8 list \<Rightarrow> u8 list" where
  "addr_key f = takeWhile (\<lambda>b. b \<noteq> 0) f"

definition terminated :: "u8 list \<Rightarrow> bool" where
  "terminated f \<longleftrightarrow> length f = 12 \<and> 0 \<in> set f"

lemma strn_equal_key:
  "length f \<le> n \<Longrightarrow> length g \<le> n \<Longrightarrow> 0 \<in> set f \<Longrightarrow> 0 \<in> set g \<Longrightarrow> strn_equal n f g = Some (addr_key f = addr_key g)"
proof (induction n f g rule: strn_equal.induct)
  case (2 n x xs y ys)
  then show ?case by (auto simp: addr_key_def)
qed auto

lemma find_sender_loop_linked:
  assumes "linked h (s # ys) start" "start \<notin> set ys" "terminated f" "\<forall>c \<in> set h. terminated (ss_from c)"
  shows "find_sender_loop h f start s = Some (find (\<lambda>i. addr_key (ss_from (h ! i)) = addr_key f) (s # ys))"
  using assms
proof (induction ys arbitrary: s)
  case Nil
  then have "strn_equal 16 f (ss_from (h ! s)) = Some (addr_key f = addr_key (ss_from (h ! s)))"
    by (intro strn_equal_key) (auto simp: terminated_def)
  with Nil show ?case by (subst find_sender_loop.simps) (auto simp: arr_simps)
next
  case (Cons y ys)
  then have "strn_equal 16 f (ss_from (h ! s)) = Some (addr_key f = addr_key (ss_from (h ! s)))"
    by (intro strn_equal_key) (auto simp: terminated_def)
  with Cons show ?case by (subst find_sender_loop.simps) (auto simp: arr_simps)
qed

section \<open>The display\<close>

fun report_lines :: "bool \<Rightarrow> i32 \<Rightarrow> senderstat list \<Rightarrow> string" where
  "report_lines first tick [] = []"
| "report_lines first tick (c # cs) =
     (if ss_flags c \<noteq> 0 then line_head first tick @ sender_line (add_totals c) @ report_lines False tick cs
      else report_lines first tick cs)"

definition close_second :: "senderstat \<Rightarrow> senderstat" where
  "close_second c = clear_second (add_totals c)"

lemma close_second_simps [simp]:
  "ss_next (close_second c) = ss_next c" "ss_from (close_second c) = ss_from c"
  by (simp_all add: close_second_def clear_second_def add_totals_def)

lemma add_grand_simps [simp]:
  "cells (add_grand c q) = cells q" "senders (add_grand c q) = senders q" "q_tick (add_grand c q) = q_tick q"
  "q_buff (add_grand c q) = q_buff q"
  by (simp_all add: add_grand_def)

lemma sender_line_flags: "ss_flags (add_totals c) = ss_flags c"
  by (simp add: add_totals_def)

definition close_cells :: "nat list \<Rightarrow> senderstat list \<Rightarrow> senderstat list" where
  "close_cells xs h = fold (\<lambda>x h. h[x := close_second (h ! x)]) xs h"

lemma length_close_cells [simp]: "length (close_cells xs h) = length h"
  by (induction xs arbitrary: h) (auto simp: close_cells_def)

lemma nth_close_cells:
  "distinct xs \<Longrightarrow> i < length h \<Longrightarrow> close_cells xs h ! i = (if i \<in> set xs then close_second (h ! i) else h ! i)"
proof (induction xs arbitrary: h)
  case (Cons x xs)
  have "close_cells (x # xs) h = close_cells xs (h[x := close_second (h ! x)])" by (simp add: close_cells_def)
  with Cons show ?case by (cases "i = x") simp_all
qed (simp add: close_cells_def)

lemma fold_grand_cells: "fold add_grand cs (q\<lparr>cells := h\<rparr>) = (fold add_grand cs q)\<lparr>cells := h\<rparr>"
proof (induction cs arbitrary: q)
  case (Cons c cs)
  have "add_grand c (q\<lparr>cells := h\<rparr>) = (add_grand c q)\<lparr>cells := h\<rparr>" by (simp add: add_grand_def)
  with Cons show ?case by simp
qed simp

lemma display_loop_linked:
  assumes "linked (cells q) (s # ys) start" "start \<notin> set ys" "distinct (s # ys)"
  shows "display_loop start s first out q =
    Some (out @ report_lines first (q_tick q) (map (nth (cells q)) (s # ys)),
          (fold add_grand (map (nth (cells q)) (s # ys)) q)\<lparr>cells := close_cells (s # ys) (cells q)\<rparr>)"
  using assms
proof (induction ys arbitrary: s first out q)
  case Nil
  then show ?case
    by (subst display_loop.simps)
      (auto simp: arr_simps Let_def sender_line_flags close_cells_def close_second_def add_totals_def clear_second_def)
next
  case (Cons y ys)
  let ?c = "cells q ! s"
  let ?q = "(add_grand ?c q)\<lparr>cells := (cells q)[s := close_second ?c]\<rparr>"
  let ?out = "if ss_flags ?c \<noteq> 0 then out @ line_head first (q_tick q) @ sender_line (add_totals ?c) else out"
  have s: "s < length (cells q)" "ss_next ?c = y" "linked (cells q) (y # ys) start" using Cons.prems(1) by auto
  have ne: "ss_next (add_totals ?c) = y" using s(2) by (simp add: add_totals_def)
  have "y \<noteq> start" using Cons.prems(2) by auto
  then have step: "display_loop start s first out q = display_loop start y (first \<and> ss_flags ?c = 0) ?out ?q"
    using s ne by (subst display_loop.simps) (simp add: arr_simps Let_def sender_line_flags close_second_def clear_second_def)
  have l: "linked (cells ?q) (y # ys) start"
  proof (rule linked_cong [OF s(3)])
    fix x assume "x \<in> set (y # ys)"
    then have "x \<noteq> s" "x < length (cells q)" using Cons.prems(3) linked_in [OF s(3)] by auto
    then show "x < length (cells ?q) \<and> ss_next (cells ?q ! x) = ss_next (cells q ! x)" by simp
  qed
  have same: "map (nth (cells ?q)) (y # ys) = map (nth (cells q)) (y # ys)"
    using Cons.prems(3) by (auto intro!: nth_list_update_neq)
  have "display_loop start y (first \<and> ss_flags ?c = 0) ?out ?q =
    Some (?out @ report_lines (first \<and> ss_flags ?c = 0) (q_tick ?q) (map (nth (cells ?q)) (y # ys)),
      (fold add_grand (map (nth (cells ?q)) (y # ys)) ?q)\<lparr>cells := close_cells (y # ys) (cells ?q)\<rparr>)"
    by (rule Cons.IH [OF l]) (use Cons.prems in auto)
  moreover have "fold add_grand (map (nth (cells q)) (y # ys)) ?q =
    (fold add_grand (map (nth (cells q)) (y # ys)) (add_grand ?c q))\<lparr>cells := (cells q)[s := close_second ?c]\<rparr>"
    by (rule fold_grand_cells)
  ultimately show ?case unfolding step same by (simp add: close_cells_def)
qed


section \<open>Accounts\<close>

text \<open>What a sender's packets amount to, as numbers: the last sequence byte in order, and the counts.\<close>

record account =
  a_last :: "u8 option"
  a_pkts :: nat
  a_lost :: nat
  a_late :: nat
  a_bytes :: nat

definition no_account :: account where
  "no_account = \<lparr>a_last = None, a_pkts = 0, a_lost = 0, a_late = 0, a_bytes = 0\<rparr>"

definition account_step :: "u8 \<Rightarrow> nat \<Rightarrow> account \<Rightarrow> account" where
  "account_step b len a =
     (let a = a\<lparr>a_pkts := a_pkts a + 1, a_bytes := a_bytes a + (len + 40)\<rparr>
      in case a_last a of
           None \<Rightarrow> a\<lparr>a_last := Some b\<rparr>
         | Some l \<Rightarrow>
             let gap = unat (b - l - 1)
             in if 128 \<le> gap then a\<lparr>a_late := a_late a + 1\<rparr> else a\<lparr>a_lost := a_lost a + gap, a_last := Some b\<rparr>)"

text \<open>A cell holds an account: the totals and the current second add up, modulo the width of the counters.\<close>

definition holds_account :: "senderstat \<Rightarrow> account \<Rightarrow> bool" where
  "holds_account c a \<longleftrightarrow>
     ss_seq c = (case a_last a of None \<Rightarrow> - 1 | Some l \<Rightarrow> ucast l) \<and>
     ss_Tspkts c + ss_spkts c = of_nat (a_pkts a) \<and> ss_Tslost c + ss_slost c = of_nat (a_lost a) \<and>
     ss_npkts c = of_nat (a_late a) \<and> ss_Tbytes c + ss_bytes c = of_nat (a_bytes a)"

lemma gap_low_byte: "(255 :: u32) AND (ucast b - ucast l - 1) = ucast (b - l - 1 :: u8)"
proof -
  have m: "(255 :: u32) = Bit_Operations.mask 8" by (simp add: mask_eq_exp_minus_1)
  have w: "uint (ucast b - ucast l - 1 :: u32) = (uint b - uint l - 1) mod 2 ^ 32"
    by (simp add: uint_word_ariths mod_simps uint_up_ucast is_up)
  have "(ucast (ucast b - ucast l - 1 :: u32) :: u8) = word_of_int (uint (ucast b - ucast l - 1 :: u32))"
    by simp
  also have "\<dots> = word_of_int (uint b - uint l - 1)"
    unfolding w by (subst word_of_int_eq_iff) (simp add: take_bit_eq_mod mod_mod_cancel)
  also have "\<dots> = b - l - 1" by simp
  finally have u: "(ucast (ucast b - ucast l - 1 :: u32) :: u8) = b - l - 1" .
  have "take_bit 8 (ucast b - ucast l - 1 :: u32) = ucast (ucast (ucast b - ucast l - 1 :: u32) :: u8)"
    by (rule bit_word_eqI) (auto simp: bit_simps)
  then show ?thesis unfolding u m by (simp add: take_bit_eq_mask and.commute)
qed

lemma late_bit: "(128 :: u32) AND (ucast b - ucast l - 1) \<noteq> 0 \<longleftrightarrow> 128 \<le> unat (b - l - 1 :: u8)"
proof -
  have "(128 :: u32) AND w = 128 AND (255 AND w)" for w by (simp flip: and.assoc)
  from this [of "ucast b - ucast l - 1"]
  have e: "(128 :: u32) AND (ucast b - ucast l - 1) = 128 AND ucast (b - l - 1 :: u8)" by (simp only: gap_low_byte)
  define x :: u8 where "x = b - l - 1"
  have "(128 :: u32) = push_bit 7 1" by simp
  then have "((128 :: u32) AND ucast x \<noteq> 0) \<longleftrightarrow> bit (ucast x :: u32) 7"
    by (simp only: bit_iff_and_push_bit_not_eq_0 and.commute)
  also have "\<dots> \<longleftrightarrow> bit (unat x) 7" by (simp add: bit_unsigned_iff)
  also have "\<dots> \<longleftrightarrow> odd (unat x div 128)" by (simp add: bit_iff_odd)
  also have "\<dots> \<longleftrightarrow> 128 \<le> unat x"
  proof -
    have "unat x < 2 ^ LENGTH(8)" by (rule unsigned_less)
    then have "unat x div 128 < 2" by simp
    moreover have "128 \<le> unat x \<longleftrightarrow> 1 \<le> unat x div 128" by (simp add: Suc_le_eq div_greater_zero_iff)
    ultimately show ?thesis by (cases "unat x div 128 = 0") auto
  qed
  finally show ?thesis unfolding e x_def .
qed

lemma seq_nonneg: "0 \<le> sint (ucast (b :: u8) :: i32)"
proof -
  have "unat b < 2 ^ LENGTH(8)" by (rule unsigned_less)
  then have "unat (ucast b :: i32) = unat b" by (simp add: unsigned_ucast_eq take_bit_nat_eq_self)
  with \<open>unat b < 2 ^ LENGTH(8)\<close> have "unat (ucast b :: i32) < 2147483648" by simp
  then show ?thesis by (simp add: sint_eq_unat32)
qed

lemma tabulate_account:
  assumes "holds_account c a"
  shows "holds_account (tabulate (ucast b) (of_nat len) c) (account_step b len a)"
proof (cases "a_last a")
  case None
  then show ?thesis using assms seq_nonneg [of b]
    by (simp add: holds_account_def tabulate_def account_step_def Let_def HEADER_FUDGE_def algebra_simps)
next
  case (Some l)
  have "(255 AND (ucast b - ucast l - 1) :: i32) = of_nat (unat (b - l - 1))" by (simp add: gap_low_byte)
  then show ?thesis using assms Some seq_nonneg [of b] seq_nonneg [of l] late_bit [of b l]
    by (simp add: holds_account_def tabulate_def account_step_def Let_def HEADER_FUDGE_def algebra_simps)
qed

lemma close_second_account: "holds_account (close_second c) a \<longleftrightarrow> holds_account c a"
  by (simp add: holds_account_def close_second_def clear_second_def add_totals_def)

lemma new_sender_account: "holds_account (new_sender f n) no_account"
  by (simp add: holds_account_def new_sender_def no_account_def)

section \<open>The state and what has been heard\<close>

definition cell_key :: "senderstat list \<Rightarrow> nat \<Rightarrow> u8 list" where
  "cell_key h i = addr_key (ss_from (h ! i))"

definition books :: "senderstat list \<Rightarrow> (u8 list \<rightharpoonup> account) \<Rightarrow> bool" where
  "books h m \<longleftrightarrow>
     (\<forall>i < length h. terminated (ss_from (h ! i)) \<and> (\<exists>a. m (cell_key h i) = Some a \<and> holds_account (h ! i) a)) \<and>
     inj_on (cell_key h) {..<length h} \<and> dom m = cell_key h ` {..<length h}"

definition grand_totals :: "qual \<Rightarrow> bool" where
  "grand_totals q \<longleftrightarrow>
     g_Tspkts q = sum_list (map ss_Tspkts (cells q)) \<and> g_Tslost q = sum_list (map ss_Tslost (cells q)) \<and>
     g_Tnpkts q = sum_list (map ss_Tnpkts (cells q)) \<and> g_Tbytes q = sum_list (map ss_Tbytes (cells q))"

definition meter :: "qual \<Rightarrow> nat list \<Rightarrow> u8 \<Rightarrow> (u8 list \<rightharpoonup> account) \<Rightarrow> bool" where
  "meter q xs b m \<longleftrightarrow>
     sender_ring q xs \<and> books (cells q) m \<and> grand_totals q \<and> length (q_buff q) = MAXB \<and> q_buff q ! 3 = b"

lemma map_list_update_same: "i < length h \<Longrightarrow> f c = f (h ! i) \<Longrightarrow> map f (h[i := c]) = map f h"
  by (metis list_update_id length_map map_update nth_map)

lemma books_cong:
  assumes "books h m" "length h' = length h"
    "\<And>i. i < length h \<Longrightarrow> ss_from (h' ! i) = ss_from (h ! i) \<and> (\<forall>a. holds_account (h ! i) a \<longrightarrow> holds_account (h' ! i) a)"
  shows "books h' m"
proof -
  have k: "cell_key h' i = cell_key h i" if "i < length h" for i using assms(3) [OF that] by (simp add: cell_key_def)
  have "cell_key h' ` {..<length h} = cell_key h ` {..<length h}" "inj_on (cell_key h') {..<length h} = inj_on (cell_key h) {..<length h}"
    using k by (auto intro!: image_cong inj_on_cong)
  with assms k show ?thesis by (auto simp: books_def)
qed

subsection \<open>The display keeps the accounts\<close>

lemma close_cells_all: "distinct xs \<Longrightarrow> set xs = {..<length h} \<Longrightarrow> close_cells xs h = map close_second h"
  by (rule nth_equalityI) (simp_all add: nth_close_cells)

lemma sum_over_ring:
  fixes f :: "senderstat \<Rightarrow> i32"
  assumes "distinct xs" "set xs = {..<length h}"
  shows "sum_list (map f (map (nth h) xs)) = sum_list (map f h)"
proof -
  have "sum_list (map f (map (nth h) xs)) = (\<Sum>i \<in> set xs. f (h ! i))"
    using assms(1) by (simp add: sum_list_distinct_conv_sum_set comp_def)
  also have "\<dots> = sum_list (map f h)" by (simp add: assms(2) sum_list_sum_nth atLeast0LessThan)
  finally show ?thesis .
qed

lemma fold_add_grand:
  "g_Tspkts (fold add_grand cs q) = g_Tspkts q + sum_list (map ss_spkts cs)"
  "g_Tslost (fold add_grand cs q) = g_Tslost q + sum_list (map ss_slost cs)"
  "g_Tnpkts (fold add_grand cs q) = g_Tnpkts q + sum_list (map ss_npkts cs)"
  "g_Tbytes (fold add_grand cs q) = g_Tbytes q + sum_list (map ss_bytes cs)"
  "senders (fold add_grand cs q) = senders q" "q_buff (fold add_grand cs q) = q_buff q"
  "q_tick (fold add_grand cs q) = q_tick q"
  by (induction cs arbitrary: q) (simp_all add: add_grand_def)

lemma sum_close_second:
  "sum_list (map ss_Tspkts (map close_second h)) = sum_list (map ss_Tspkts h) + sum_list (map ss_spkts h)"
  "sum_list (map ss_Tslost (map close_second h)) = sum_list (map ss_Tslost h) + sum_list (map ss_slost h)"
  "sum_list (map ss_Tnpkts (map close_second h)) = sum_list (map ss_Tnpkts h) + sum_list (map ss_npkts h)"
  "sum_list (map ss_Tbytes (map close_second h)) = sum_list (map ss_Tbytes h) + sum_list (map ss_bytes h)"
  by (induction h) (simp_all add: close_second_def clear_second_def add_totals_def)

lemma minute_text_ring:
  assumes "sender_ring q xs"
  obtains head where "minute_text q = Some (head, q\<lparr>q_minute := c_div (q_tick q) 60\<rparr>)"
proof (cases xs)
  case Nil
  then have "minute_text q = Some (if c_div (q_tick q) 60 \<noteq> q_minute q then header_text else [], q\<lparr>q_minute := c_div (q_tick q) 60\<rparr>)"
    using assms by (simp add: sender_ring_def minute_text_def Let_def)
  then show ?thesis by (rule that)
next
  case (Cons x ys)
  then have x: "senders q = Some x" "x < length (cells q)" using assms by (auto simp: sender_ring_def)
  have "minute_text q = Some (if c_div (q_tick q) 60 \<noteq> q_minute q
      then header_text @ (if ss_next (cells q ! x) \<noteq> x then all_senders_line q else []) else [],
    q\<lparr>q_minute := c_div (q_tick q) 60\<rparr>)"
    using x by (simp add: minute_text_def Let_def arr_simps)
  then show ?thesis by (rule that)
qed

lemma display_meter:
  assumes "meter q xs b m"
  shows "\<exists>head q'. display q = Some (head @ report_lines True (q_tick q) (map (nth (cells q)) xs), q') \<and>
    meter q' xs b m \<and> cells q' = map close_second (cells q)"
proof -
  have r: "sender_ring q xs" using assms by (simp add: meter_def)
  obtain head where head: "minute_text q = Some (head, q\<lparr>q_minute := c_div (q_tick q) 60\<rparr>)"
    by (rule minute_text_ring [OF r])
  let ?q = "q\<lparr>q_minute := c_div (q_tick q) 60\<rparr>"
  show ?thesis
  proof (cases xs)
    case Nil
    then have "{..<length (cells q)} = {}" "senders q = None" using r by (auto simp: sender_ring_def)
    then have "display q = Some (head, ?q)" "cells q = []" using head by (simp_all add: display_def lessThan_empty_iff bot_nat_def)
    moreover have "meter ?q xs b m" using assms by (simp add: meter_def sender_ring_def grand_totals_def)
    ultimately show ?thesis using Nil by simp
  next
    case (Cons x ys)
    let ?q' = "(fold add_grand (map (nth (cells q)) xs) ?q)\<lparr>cells := map close_second (cells q)\<rparr>"
    have x: "senders q = Some x" "distinct xs" "set xs = {..<length (cells q)}" "linked (cells q) (x # ys) x"
      using r Cons by (auto simp: sender_ring_def)
    have "display_loop x x True head ?q = Some (head @ report_lines True (q_tick q) (map (nth (cells q)) xs), ?q')"
      using display_loop_linked [of ?q x ys x True head] x Cons close_cells_all [OF x(2,3)] by simp
    then have d: "display q = Some (head @ report_lines True (q_tick q) (map (nth (cells q)) xs), ?q')"
      using head x(1) by (simp add: display_def)
    have "linked (map close_second (cells q)) xs (hd xs)"
      by (rule linked_cong) (use r in \<open>auto simp: sender_ring_def\<close>)
    then have "sender_ring ?q' xs" using r by (simp add: sender_ring_def fold_add_grand)
    moreover have "books (map close_second (cells q)) m"
      by (rule books_cong) (use assms in \<open>auto simp: meter_def close_second_account\<close>)
    moreover have "grand_totals ?q'"
      using assms by (simp only: meter_def grand_totals_def fold_add_grand sum_close_second sum_over_ring [OF x(2,3)]) (simp add: fold_add_grand sum_over_ring [OF x(2,3), simplified] sum_close_second [simplified])
    ultimately have "meter ?q' xs b m" using assms by (simp add: meter_def fold_add_grand)
    with d show ?thesis by (intro exI [of _ head] exI [of _ ?q']) simp
  qed
qed


subsection \<open>The sender of a packet\<close>

text \<open>The order in which the senders are shown, after a packet from \<open>k\<close>.\<close>

definition hear :: "'k \<Rightarrow> 'k list \<Rightarrow> 'k list" where
  "hear k ks =
     (if k \<in> set ks then dropWhile (\<lambda>x. x \<noteq> k) ks @ takeWhile (\<lambda>x. x \<noteq> k) ks
      else case ks of [] \<Rightarrow> [k] | k0 # rest \<Rightarrow> k # rest @ [k0])"

definition with_sender :: "qual \<Rightarrow> nat \<Rightarrow> senderstat \<Rightarrow> qual" where
  "with_sender q s c = q\<lparr>cells := (cells q)[s := c], senders := Some s\<rparr>"

lemma linked_update:
  assumes "linked h xs y" "i < length h" "ss_next c = ss_next (h ! i)"
  shows "linked (h[i := c]) xs y"
  by (rule linked_cong [OF assms(1)]) (use assms linked_in in \<open>auto simp: nth_list_update\<close>)

lemma ring_rotate:
  assumes "sender_ring q (as @ s # bs)" "ss_next c = ss_next (cells q ! s)"
  shows "sender_ring (with_sender q s c) (s # bs @ as)"
proof -
  have l: "linked (cells q) (as @ s # bs) (hd (as @ s # bs))" and s: "s < length (cells q)"
    using assms(1) by (auto simp: sender_ring_def)
  have "linked (cells q) (s # bs @ as) s" using linked_rotate [OF l] .
  then have "linked ((cells q)[s := c]) (s # bs @ as) s" by (rule linked_update) (use s assms(2) in simp_all)
  then show ?thesis using assms(1) by (auto simp: sender_ring_def with_sender_def)
qed

lemma hear_found:
  assumes "distinct (as @ k # bs)"
  shows "hear k (as @ k # bs) = k # bs @ as"
proof -
  have "takeWhile (\<lambda>x. x \<noteq> k) (as @ k # bs) = as" "dropWhile (\<lambda>x. x \<noteq> k) (as @ k # bs) = k # bs"
    using assms by (induction as) auto
  then show ?thesis by (simp add: hear_def)
qed

lemma findfrom_known:
  assumes "meter q xs b m" "terminated f" "i \<in> set xs" "cell_key (cells q) i = addr_key f"
  shows "findfrom malloc f q = Some (Some (i, q))"
proof -
  obtain x ys where x: "xs = x # ys" using assms(3) by (cases xs) auto
  have r: "sender_ring q xs" and bk: "books (cells q) m" using assms(1) by (auto simp: meter_def)
  have q: "senders q = Some x" "linked (cells q) (x # ys) x" "distinct (x # ys)" "set (x # ys) = {..<length (cells q)}"
    using r x by (auto simp: sender_ring_def)
  have "\<forall>c \<in> set (cells q). terminated (ss_from c)" using bk by (auto simp: books_def in_set_conv_nth)
  then have "find_sender_loop (cells q) f x x = Some (find (\<lambda>i. addr_key (ss_from (cells q ! i)) = addr_key f) (x # ys))"
    using q by (intro find_sender_loop_linked assms) auto
  moreover have "find (\<lambda>i. addr_key (ss_from (cells q ! i)) = addr_key f) (x # ys) = Some i"
  proof -
    let ?P = "\<lambda>i. addr_key (ss_from (cells q ! i)) = addr_key f"
    have "?P i" using assms(4) by (simp add: cell_key_def)
    then have "find ?P (x # ys) \<noteq> None" using assms(3) unfolding x find_None_iff by blast
    then obtain j where j: "find ?P (x # ys) = Some j" by blast
    then have "?P j" "j \<in> set (x # ys)" unfolding find_Some_iff using nth_mem by blast+
    moreover have "inj_on (cell_key (cells q)) (set (x # ys))" using bk unfolding q(4) by (simp add: books_def)
    moreover have "cell_key (cells q) j = cell_key (cells q) i" using \<open>?P j\<close> \<open>?P i\<close> by (simp add: cell_key_def)
    ultimately have "j = i" using assms(3) unfolding x by (meson inj_onD)
    then show ?thesis using j by simp
  qed
  ultimately show ?thesis using q(1) by (simp add: findfrom_def)
qed

lemma books_add:
  assumes "books h m" "length h1 = Suc (length h)" "terminated (ss_from (h1 ! length h))" "addr_key (ss_from (h1 ! length h)) = k"
    "k \<notin> dom m" "holds_account (h1 ! length h) no_account"
    "\<And>i. i < length h \<Longrightarrow> \<exists>n. h1 ! i = (h ! i)\<lparr>ss_next := n\<rparr>"
  shows "books h1 (m(k \<mapsto> no_account))"
proof -
  have old: "cell_key h1 i = cell_key h i \<and> ss_from (h1 ! i) = ss_from (h ! i) \<and> (\<forall>a. holds_account (h1 ! i) a = holds_account (h ! i) a)"
    if "i < length h" for i
    using assms(7) [OF that] by (auto simp: cell_key_def holds_account_def)
  have new: "cell_key h1 (length h) = k" using assms(4) by (simp add: cell_key_def)
  have keys: "cell_key h1 ` {..<length h} = dom m"
    using assms(1) old unfolding books_def by (metis (no_types, lifting) image_cong lessThan_iff)
  have inj: "inj_on (cell_key h1) {..<length h}"
    using assms(1) old inj_on_cong [of "{..<length h}" "cell_key h1" "cell_key h"] by (auto simp: books_def)
  have set: "{..<length h1} = insert (length h) {..<length h}" using assms(2) by auto
  have "\<forall>i < length h1. terminated (ss_from (h1 ! i)) \<and> (\<exists>a. (m(k \<mapsto> no_account)) (cell_key h1 i) = Some a \<and> holds_account (h1 ! i) a)"
  proof (intro allI impI)
    fix i assume "i < length h1"
    then consider "i < length h" | "i = length h" using assms(2) by linarith
    then show "terminated (ss_from (h1 ! i)) \<and> (\<exists>a. (m(k \<mapsto> no_account)) (cell_key h1 i) = Some a \<and> holds_account (h1 ! i) a)"
    proof cases
      case 1
      then have "cell_key h1 i \<in> dom m" using keys by auto
      then have "cell_key h1 i \<noteq> k" using assms(5) by auto
      then show ?thesis using 1 old [OF 1] assms(1) by (auto simp: books_def)
    qed (use new assms(3,6) in auto)
  qed
  moreover have "inj_on (cell_key h1) {..<length h1}"
    using inj new keys assms(5) by (simp only: set inj_on_insert) auto
  moreover have "dom (m(k \<mapsto> no_account)) = cell_key h1 ` {..<length h1}" using keys new by (simp add: set)
  ultimately show ?thesis by (simp add: books_def)
qed

lemma findfrom_new:
  assumes "meter q xs b m" "terminated f" "addr_key f \<notin> dom m"
  defines "n \<equiv> length (cells q)"
  shows "\<exists>q1. findfrom True f q = Some (Some (n, q1)) \<and> meter q1 (take 1 xs @ n # tl xs) b (m(addr_key f \<mapsto> no_account)) \<and>
    map (cell_key (cells q1)) xs = map (cell_key (cells q)) xs \<and> cell_key (cells q1) n = addr_key f"
proof -
  have r: "sender_ring q xs" and bk: "books (cells q) m" and g: "grand_totals q" using assms(1) by (auto simp: meter_def)
  show ?thesis
  proof (cases xs)
    case Nil
    let ?q1 = "q\<lparr>cells := cells q @ [new_sender f n], senders := Some n\<rparr>"
    have q: "senders q = None" "{..<length (cells q)} = {}" using r Nil by (auto simp: sender_ring_def)
    then have e: "cells q = []" "n = 0" by (simp_all add: n_def lessThan_empty_iff bot_nat_def)
    have "findfrom True f q = Some (Some (n, ?q1))" using q by (simp add: findfrom_def n_def Let_def)
    moreover have "books (cells q @ [new_sender f n]) (m(addr_key f \<mapsto> no_account))"
      by (rule books_add [OF bk]) (use assms(2,3) e in \<open>simp_all add: new_sender_account, simp_all add: new_sender_def\<close>)
    moreover have "sender_ring ?q1 [n]" using e by (auto simp: sender_ring_def new_sender_def)
    moreover have "grand_totals ?q1" using g e by (simp add: grand_totals_def new_sender_def)
    ultimately show ?thesis using assms(1) Nil e by (auto simp: meter_def cell_key_def new_sender_def)
  next
    case (Cons s ys)
    let ?h = "cells q"
    let ?h1 = "?h[s := (?h ! s)\<lparr>ss_next := n\<rparr>] @ [new_sender f (ss_next (?h ! s))]"
    let ?q1 = "q\<lparr>cells := ?h1\<rparr>"
    have q: "senders q = Some s" "linked ?h (s # ys) s" "distinct (s # ys)" "set (s # ys) = {..<n}" "s < n"
      using r Cons by (auto simp: sender_ring_def n_def)
    have none: "find (\<lambda>i. addr_key (ss_from (?h ! i)) = addr_key f) (s # ys) = None"
    proof -
      have "addr_key (ss_from (?h ! i)) \<noteq> addr_key f" if "i \<in> set (s # ys)" for i
      proof -
        have "cell_key ?h i \<in> dom m" using that bk unfolding q(4) by (auto simp: books_def n_def)
        with assms(3) show ?thesis by (auto simp: cell_key_def)
      qed
      then show ?thesis unfolding find_None_iff by blast
    qed
    have "\<forall>c \<in> set ?h. terminated (ss_from c)" using bk by (auto simp: books_def in_set_conv_nth)
    then have "find_sender_loop ?h f s s = Some None"
      using q assms(2) none by (subst find_sender_loop_linked) auto
    then have "findfrom True f q = Some (Some (n, ?q1))" using q by (simp add: findfrom_def n_def arr_simps Let_def)
    moreover have "books ?h1 (m(addr_key f \<mapsto> no_account))"
    proof (rule books_add [OF bk])
      have c: "?h1 ! length ?h = new_sender f (ss_next (?h ! s))" by (simp add: nth_append)
      show "terminated (ss_from (?h1 ! length ?h))" "addr_key (ss_from (?h1 ! length ?h)) = addr_key f"
        "holds_account (?h1 ! length ?h) no_account"
        unfolding c by (simp_all add: new_sender_account, simp_all add: new_sender_def assms(2))
      fix i assume "i < length ?h"
      then have "?h1 ! i = (if i = s then (?h ! s)\<lparr>ss_next := n\<rparr> else ?h ! i)" by (simp add: nth_append)
      then have "?h1 ! i = (?h ! i)\<lparr>ss_next := n\<rparr> \<or> ?h1 ! i = (?h ! i)\<lparr>ss_next := ss_next (?h ! i)\<rparr>" by (cases "i = s") simp_all
      then show "\<exists>n. ?h1 ! i = (?h ! i)\<lparr>ss_next := n\<rparr>" by blast
    qed (use assms(3) in simp_all)
    moreover have "sender_ring ?q1 (s # n # ys)"
    proof -
      have "set (s # n # ys) = insert n (set (s # ys))" by auto
      also have "\<dots> = {..<Suc n}" unfolding q(4) by (simp add: lessThan_Suc)
      finally have "set (s # n # ys) = {..<length ?h1}" by (simp add: n_def)
      moreover have "n \<notin> set (s # ys)" unfolding q(4) by simp
      then have "distinct (s # n # ys)" using q(3) by auto
      moreover have "linked ?h1 (s # n # ys) s" by (rule linked_insert [OF q(2,3)]) (use q(5) in \<open>simp_all add: n_def\<close>)
      ultimately show ?thesis using q(1) by (simp add: sender_ring_def)
    qed
    moreover have "map F ?h1 = map F ?h @ [F (new_sender f (ss_next (?h ! s)))]" if "F ((?h ! s)\<lparr>ss_next := n\<rparr>) = F (?h ! s)" for F :: "senderstat \<Rightarrow> i32"
      using map_list_update_same [of s ?h F] q(5) that by (simp add: n_def)
    then have "grand_totals ?q1" using g by (simp add: grand_totals_def new_sender_def)
    moreover have "map (cell_key ?h1) xs = map (cell_key ?h) xs"
      using q Cons by (auto simp: cell_key_def nth_append nth_list_update n_def)
    moreover have "cell_key ?h1 n = addr_key f" by (simp add: cell_key_def nth_append new_sender_def n_def)
    ultimately show ?thesis using assms(1) Cons by (auto simp: meter_def)
  qed
qed


subsection \<open>One packet\<close>

definition credit :: "u8 list \<Rightarrow> u8 \<Rightarrow> nat \<Rightarrow> (u8 list \<rightharpoonup> account) \<Rightarrow> (u8 list \<rightharpoonup> account)" where
  "credit k b len m = m(k \<mapsto> account_step b len (case m k of None \<Rightarrow> no_account | Some a \<Rightarrow> a))"

lemma tabulate_fixes [simp]:
  "ss_next (tabulate sq len c) = ss_next c" "ss_from (tabulate sq len c) = ss_from c"
  "ss_Tspkts (tabulate sq len c) = ss_Tspkts c" "ss_Tslost (tabulate sq len c) = ss_Tslost c"
  "ss_Tnpkts (tabulate sq len c) = ss_Tnpkts c" "ss_Tbytes (tabulate sq len c) = ss_Tbytes c"
  by (simp_all add: tabulate_def Let_def)

lemma books_credit:
  assumes "books h m" "s < length h"
  shows "books (h[s := tabulate (ucast b) (of_nat len) (h ! s)]) (credit (cell_key h s) b len m)"
proof -
  let ?h = "h[s := tabulate (ucast b) (of_nat len) (h ! s)]" and ?k = "cell_key h s"
  obtain a where a: "m ?k = Some a" "holds_account (h ! s) a" using assms by (auto simp: books_def)
  have key: "cell_key ?h i = cell_key h i" if "i < length h" for i
    using that by (cases "i = s") (simp_all add: cell_key_def)
  have "cell_key ?h ` {..<length h} = cell_key h ` {..<length h}" "inj_on (cell_key ?h) {..<length h}"
    using assms(1) key inj_on_cong [of "{..<length h}" "cell_key ?h" "cell_key h"] by (auto simp: books_def intro!: image_cong)
  moreover have "?k \<in> dom m" using a by auto
  moreover have "terminated (ss_from (?h ! i)) \<and> (\<exists>a. credit ?k b len m (cell_key ?h i) = Some a \<and> holds_account (?h ! i) a)"
    if i: "i < length h" for i
  proof (cases "i = s")
    case True
    then show ?thesis using assms a key [OF assms(2)] tabulate_account [OF a(2)] by (auto simp: books_def credit_def)
  next
    case False
    then have "cell_key h i \<noteq> ?k" using assms i by (auto simp: books_def inj_on_def)
    then show ?thesis using assms(1) False i key [OF i] by (auto simp: books_def credit_def)
  qed
  ultimately show ?thesis using assms(1) by (auto simp: books_def credit_def)
qed

lemma meter_credit:
  fixes len :: nat
  assumes "meter q (as @ s # bs) b m"
  defines "q' \<equiv> with_sender q s (tabulate (ucast b) (of_nat len) (cells q ! s))"
  shows "meter q' (s # bs @ as) b (credit (cell_key (cells q) s) b len m)"
    and "map (cell_key (cells q')) (s # bs @ as) = map (cell_key (cells q)) (s # bs @ as)"
proof -
  have r: "sender_ring q (as @ s # bs)" and bk: "books (cells q) m" using assms(1) by (auto simp: meter_def)
  then have s: "s < length (cells q)" by (auto simp: sender_ring_def)
  have "sender_ring q' (s # bs @ as)" unfolding q'_def by (rule ring_rotate [OF r]) simp
  moreover have "books (cells q') (credit (cell_key (cells q) s) b len m)"
    using books_credit [OF bk s] by (simp add: q'_def with_sender_def)
  moreover have "grand_totals q'"
    using assms(1) s by (simp add: meter_def grand_totals_def q'_def with_sender_def map_list_update_same)
  ultimately show "meter q' (s # bs @ as) b (credit (cell_key (cells q) s) b len m)"
    using assms(1) by (simp add: meter_def q'_def with_sender_def)
  have "cell_key (cells q') i = cell_key (cells q) i" for i
    using s by (cases "i = s") (simp_all add: cell_key_def q'_def with_sender_def)
  then show "map (cell_key (cells q')) (s # bs @ as) = map (cell_key (cells q)) (s # bs @ as)" by simp
qed

text \<open>A packet as \<open>recvfrom\<close> delivers it: the padding of the address is zero.\<close>

definition good_packet :: "packet \<Rightarrow> bool" where
  "good_packet p \<longleftrightarrow> length (p_data p) \<le> MAXB \<and> terminated (p_from p)"

definition seq_byte :: "u8 \<Rightarrow> packet \<Rightarrow> u8" where
  "seq_byte b p = (if 3 < length (p_data p) then p_data p ! 3 else b)"

lemma meter_buffer:
  assumes "meter q xs b m" "length buff = MAXB" "buff ! 3 = b'"
  shows "meter (q\<lparr>q_buff := buff\<rparr>) xs b' m"
  using assms by (simp add: meter_def sender_ring_def grand_totals_def)

lemma meter_tick: "meter (q\<lparr>q_tick := t\<rparr>) xs b m \<longleftrightarrow> meter q xs b m"
  by (simp add: meter_def sender_ring_def grand_totals_def)

lemma receive_meter:
  assumes "meter q xs b m" "good_packet p"
  defines "k \<equiv> addr_key (p_from p)" and "b' \<equiv> seq_byte b p"
  shows "\<exists>out q' xs'. receive True p q = Some (out, Some q') \<and>
    meter q' xs' b' (credit k b' (length (p_data p)) m) \<and>
    map (cell_key (cells q')) xs' = hear k (map (cell_key (cells q)) xs)"
proof -
  let ?b = "p_data p @ drop (length (p_data p)) (q_buff q)"
  let ?q0 = "q\<lparr>q_buff := ?b\<rparr>"
  have len: "length ?b = MAXB" using assms(1,2) by (simp add: meter_def good_packet_def)
  have "?b ! 3 = b'" using assms(1,2) by (auto simp: b'_def seq_byte_def nth_append meter_def MAXB_def good_packet_def)
  with len have m0: "meter ?q0 xs b' m" using assms(1) by (intro meter_buffer) auto
  obtain out q1 where q1: "(if scast (q_tick ?q0) \<noteq> p_time p then display ?q0 else Some ([], ?q0)) = Some (out, q1)"
    and m1: "meter q1 xs b' m" and k1: "map (cell_key (cells q1)) xs = map (cell_key (cells q)) xs"
  proof (cases "scast (q_tick ?q0) \<noteq> p_time p")
    case True
    obtain head q1 where d: "display ?q0 = Some (head @ report_lines True (q_tick ?q0) (map (nth (cells ?q0)) xs), q1)"
      "meter q1 xs b' m" "cells q1 = map close_second (cells ?q0)" using display_meter [OF m0] by auto
    have "\<And>i. i \<in> set xs \<Longrightarrow> i < length (cells q)" using assms(1) by (auto simp: meter_def sender_ring_def)
    then have "map (cell_key (cells q1)) xs = map (cell_key (cells q)) xs" using d(3) by (auto simp: cell_key_def)
    with d True show thesis by (intro that [of _ q1]) auto
  next
    case False
    with m0 show thesis by (intro that [of "[]" ?q0]) auto
  qed
  let ?q2 = "q1\<lparr>q_tick := ucast (p_time p)\<rparr>"
  have m2: "meter ?q2 xs b' m" using m1 by (simp add: meter_tick)
  have f: "terminated (p_from p)" using assms(2) by (simp add: good_packet_def)
  obtain s q3 as bs mm where q3: "findfrom True (p_from p) ?q2 = Some (Some (s, q3))" "meter q3 (as @ s # bs) b' mm"
    "cell_key (cells q3) s = k" "hear k (map (cell_key (cells q)) xs) = map (cell_key (cells q3)) (s # bs @ as)"
    "credit k b' (length (p_data p)) mm = credit k b' (length (p_data p)) m"
  proof (cases "k \<in> dom m")
    case True
    have "books (cells q1) m" "sender_ring q1 xs" using m1 by (auto simp: meter_def)
    then obtain s where s: "s \<in> set xs" "cell_key (cells q1) s = k" using True by (auto simp: books_def sender_ring_def)
    then obtain as bs where ab: "xs = as @ s # bs" by (meson split_list)
    have "findfrom True (p_from p) ?q2 = Some (Some (s, ?q2))"
      using findfrom_known [OF m2 f s(1)] s(2) by (simp add: k_def)
    moreover have "distinct (map (cell_key (cells q1)) xs)"
      using \<open>books (cells q1) m\<close> \<open>sender_ring q1 xs\<close> by (auto simp: books_def sender_ring_def distinct_map)
    then have "hear k (map (cell_key (cells q1)) xs) = map (cell_key (cells q1)) (s # bs @ as)"
      using hear_found [of "map (cell_key (cells q1)) as" k "map (cell_key (cells q1)) bs"] s(2) by (simp add: ab)
    then have "hear k (map (cell_key (cells q)) xs) = map (cell_key (cells q1)) (s # bs @ as)" by (simp only: k1)
    ultimately show thesis using m2 s(2) ab by (intro that [of s ?q2 as bs m]) auto
  next
    case False
    let ?n = "length (cells ?q2)"
    obtain q3 where q3: "findfrom True (p_from p) ?q2 = Some (Some (?n, q3))"
      "meter q3 (take 1 xs @ ?n # tl xs) b' (m(k \<mapsto> no_account))"
      "map (cell_key (cells q3)) xs = map (cell_key (cells ?q2)) xs" "cell_key (cells q3) ?n = k"
      using findfrom_new [OF m2 f] False by (auto simp: k_def)
    have "books (cells q1) m" "sender_ring q1 xs" using m1 by (auto simp: meter_def)
    then have "k \<notin> set (map (cell_key (cells q1)) xs)" using False by (auto simp: books_def sender_ring_def)
    moreover have "map (cell_key (cells q3)) xs = map (cell_key (cells q)) xs" using q3(3) k1 by simp
    ultimately have "hear k (map (cell_key (cells q)) xs) = map (cell_key (cells q3)) (?n # tl xs @ take 1 xs)"
      using q3(4) k1 by (cases xs) (auto simp: hear_def)
    moreover have "credit k b' (length (p_data p)) (m(k \<mapsto> no_account)) = credit k b' (length (p_data p)) m"
      using False by (auto simp: credit_def split: option.splits)
    ultimately show thesis using q3 by (intro that [of ?n q3 "take 1 xs" "tl xs" "m(k \<mapsto> no_account)"]) auto
  qed
  have s: "s < length (cells q3)" "3 < length (q_buff q3)" "q_buff q3 ! 3 = b'"
    using q3(2) by (auto simp: meter_def sender_ring_def MAXB_def)
  have "receive True p q = Some (out, Some (with_sender q3 s (tabulate (ucast b') (of_nat (length (p_data p))) (cells q3 ! s))))"
    using q1 q3(1) s by (simp add: receive_def Let_def arr_simps getRTPseq_def with_sender_def)
  with meter_credit [OF q3(2), of "length (p_data p)"] q3(3-5) show ?thesis by metis
qed


section \<open>A run of packets\<close>

text \<open>The senders in the order of the display and their accounts, computed without the list of cells.\<close>

fun rtp_accounts :: "packet list \<Rightarrow> u8 \<Rightarrow> u8 list list \<times> (u8 list \<rightharpoonup> account) \<Rightarrow> u8 list list \<times> (u8 list \<rightharpoonup> account)" where
  "rtp_accounts [] b st = st"
| "rtp_accounts (p # ps) b (ks, m) =
     (let k = addr_key (p_from p); b' = seq_byte b p
      in rtp_accounts ps b' (hear k ks, credit k b' (length (p_data p)) m))"

lemma meter_start: "length buff = MAXB \<Longrightarrow> meter (rtp_start now minute0 buff) [] (buff ! 3) Map.empty"
  by (simp add: meter_def rtp_start_def sender_ring_def books_def grand_totals_def)

lemma rtp_run_meter:
  assumes "meter q xs b m" "\<forall>p \<in> set ps. good_packet p"
  shows "\<exists>out' q' xs' b' ks m'. rtp_run ps (out, q) = Some (out', q') \<and>
    rtp_accounts ps b (map (cell_key (cells q)) xs, m) = (ks, m') \<and> meter q' xs' b' m' \<and> map (cell_key (cells q')) xs' = ks"
  using assms
proof (induction ps arbitrary: q xs b m out)
  case Nil
  then show ?case by auto
next
  case (Cons p ps)
  then have "good_packet p" by simp
  from receive_meter [OF Cons.prems(1) this] obtain o1 q1 xs1 where r: "receive True p q = Some (o1, Some q1)"
    "meter q1 xs1 (seq_byte b p) (credit (addr_key (p_from p)) (seq_byte b p) (length (p_data p)) m)"
    "map (cell_key (cells q1)) xs1 = hear (addr_key (p_from p)) (map (cell_key (cells q)) xs)" by blast
  have "\<forall>p \<in> set ps. good_packet p" using Cons.prems(2) by simp
  from Cons.IH [OF r(2) this, of "out @ o1"] show ?case using r(1,3) by (simp add: Let_def)
qed

lemma meter_ring_books:
  assumes "meter q xs b m"
  shows "dom m = set (map (cell_key (cells q)) xs)" "distinct (map (cell_key (cells q)) xs)"
    "i \<in> set xs \<Longrightarrow> \<exists>a. m (cell_key (cells q) i) = Some a \<and> holds_account (cells q ! i) a"
  using assms by (auto simp: meter_def sender_ring_def books_def distinct_map)

text \<open>
  Whatever packets arrive, in whatever order and with whatever lengths, \<open>rtpqual\<close> never makes an undefined access, its cells
  stay one ring, and they hold the books of what tells senders apart for the code: the bytes of the address before its
  first zero.  So 10.0.0.1 and 10.0.0.2 share one cell.
\<close>

lemma rtp_run_books:
  assumes "length buff = MAXB" "\<forall>p \<in> set ps. good_packet p"
  shows "\<exists>out q xs. rtp_run ps ([], rtp_start now minute0 buff) = Some (out, q) \<and> sender_ring q xs \<and> grand_totals q \<and>
    map (cell_key (cells q)) xs = fst (rtp_accounts ps (buff ! 3) ([], Map.empty)) \<and>
    distinct (map (cell_key (cells q)) xs) \<and>
    dom (snd (rtp_accounts ps (buff ! 3) ([], Map.empty))) = set (map (cell_key (cells q)) xs) \<and>
    (\<forall>i \<in> set xs. \<exists>a. snd (rtp_accounts ps (buff ! 3) ([], Map.empty)) (cell_key (cells q) i) = Some a \<and>
      holds_account (cells q ! i) a)"
proof -
  from rtp_run_meter [OF meter_start [OF assms(1)] assms(2), of "[]" now minute0]
  obtain out q xs b ks m where r: "rtp_run ps ([], rtp_start now minute0 buff) = Some (out, q)"
    "rtp_accounts ps (buff ! 3) ([], Map.empty) = (ks, m)" "meter q xs b m" "map (cell_key (cells q)) xs = ks" by auto
  then have "sender_ring q xs" "grand_totals q" by (simp_all add: meter_def)
  with r meter_ring_books [OF r(3)] show ?thesis by auto
qed

subsection \<open>Where the addresses in the cells come from\<close>

lemma display_loop_from:
  assumes run: "display_loop start s first out q = Some r"
  shows "map ss_from (cells (snd r)) = map ss_from (cells q)"
proof (rule display_loop.raw_induct [where P = "\<lambda>start s first out q r. map ss_from (cells (snd r)) = map ss_from (cells q)", OF _ run])
  fix loop :: "nat \<Rightarrow> nat \<Rightarrow> bool \<Rightarrow> string \<Rightarrow> qual \<Rightarrow> (string \<times> qual) option"
    and start s :: nat and first :: bool and out :: string and q :: qual and r :: "string \<times> qual"
  assume ih: "\<And>start s first out q r. loop start s first out q = Some r \<Longrightarrow> map ss_from (cells (snd r)) = map ss_from (cells q)"
  assume body: "do {
     c \<leftarrow> rd (cells q) s;
     let q = add_grand c q;
         c = add_totals c;
         active = (ss_flags c \<noteq> 0);
         out = (if active then out @ line_head first (q_tick q) @ sender_line c else out);
         q = q\<lparr>cells := (cells q)[s := clear_second c]\<rparr>
     in if ss_next c = start then Some (out, q) else loop start (ss_next c) (first \<and> \<not> active) out q } = Some r"
  then obtain c where c: "rd (cells q) s = Some c" by (auto simp: bind_Some_iff)
  let ?c = "add_totals c"
  let ?q = "(add_grand c q)\<lparr>cells := (cells (add_grand c q))[s := clear_second ?c]\<rparr>"
  have "map ss_from ((cells q)[s := clear_second ?c]) = map ss_from (cells q)"
    using c by (intro map_list_update_same) (auto simp: rd_Some_iff clear_second_def add_totals_def)
  then have same: "map ss_from (cells ?q) = map ss_from (cells q)" by (simp add: add_grand_def)
  show "map ss_from (cells (snd r)) = map ss_from (cells q)"
  proof (cases "ss_next ?c = start")
    case True
    then have "snd r = ?q" using body c by (auto simp: Let_def)
    with same show ?thesis by simp
  next
    case False
    then obtain fi o' where "loop start (ss_next ?c) fi o' ?q = Some r" using body c by (auto simp: Let_def)
    from ih [OF this] same show ?thesis by simp
  qed
qed

lemma display_from:
  assumes "display q = Some (out, q')"
  shows "map ss_from (cells q') = map ss_from (cells q)"
proof -
  obtain head q1 where h: "minute_text q = Some (head, q1)" using assms by (auto simp: display_def bind_Some_iff)
  then have "cells q1 = cells q" by (auto simp: minute_text_def Let_def bind_Some_iff split: if_splits option.splits)
  then show ?thesis using assms h by (auto simp: display_def split: option.splits dest: display_loop_from)
qed

lemma set_map_update: "i < length h \<Longrightarrow> f c = f (h ! i) \<Longrightarrow> f ` set (h[i := c]) = f ` set h"
  by (metis image_set map_list_update_same)

lemma findfrom_from:
  assumes "findfrom malloc f q = Some (Some (s, q'))"
  shows "ss_from ` set (cells q') \<subseteq> insert f (ss_from ` set (cells q))"
proof -
  have new: "ss_from (new_sender f n) = f" for n by (simp add: new_sender_def)
  consider "q' = q" | "cells q' = cells q @ [new_sender f s]"
    | c old where "rd (cells q) c = Some old" "cells q' = (cells q)[c := old\<lparr>ss_next := s\<rparr>] @ [new_sender f (ss_next old)]"
    using assms by (auto simp: findfrom_def Let_def bind_Some_iff split: option.splits if_splits)
  then show ?thesis
  proof cases
    case 3
    then have "ss_from ` set ((cells q)[c := old\<lparr>ss_next := s\<rparr>]) = ss_from ` set (cells q)"
      by (intro set_map_update) (auto simp: rd_Some_iff)
    with 3 new show ?thesis by simp
  qed (auto simp: new)
qed

lemma receive_from:
  assumes "receive True p q = Some (out, Some q')"
  shows "ss_from ` set (cells q') \<subseteq> insert (p_from p) (ss_from ` set (cells q))"
proof -
  let ?q0 = "q\<lparr>q_buff := p_data p @ drop (length (p_data p)) (q_buff q)\<rparr>"
  obtain o1 q1 s q2 sq c where r: "(if scast (q_tick ?q0) \<noteq> p_time p then display ?q0 else Some ([], ?q0)) = Some (o1, q1)"
    "findfrom True (p_from p) (q1\<lparr>q_tick := ucast (p_time p)\<rparr>) = Some (Some (s, q2))" "rd (cells q2) s = Some c"
    "cells q' = (cells q2)[s := tabulate sq (of_nat (length (p_data p))) c]"
    using assms by (auto simp: receive_def Let_def bind_Some_iff split: option.splits)
  have "map ss_from (cells q1) = map ss_from (cells q)" using r(1) display_from by (auto split: if_splits)
  then have "ss_from ` set (cells q1) = ss_from ` set (cells q)" by (metis image_set)
  moreover have "ss_from ` set (cells q') = ss_from ` set (cells q2)"
    unfolding r(4) using r(3) by (intro set_map_update) (auto simp: rd_Some_iff)
  ultimately show ?thesis using findfrom_from [OF r(2)] by simp
qed

lemma rtp_run_from:
  "rtp_run ps (out, q) = Some (out', q') \<Longrightarrow> ss_from ` set (cells q') \<subseteq> p_from ` set ps \<union> ss_from ` set (cells q)"
proof (induction ps arbitrary: out q)
  case (Cons p ps)
  then obtain o1 q1 where r: "receive True p q = Some (o1, Some q1)" "rtp_run ps (out @ o1, q1) = Some (out', q')"
    by (auto split: option.splits prod.splits)
  show ?case using Cons.IH [OF r(2)] receive_from [OF r(1)] by auto
qed simp

text \<open>
  Transmitters that the code tells apart: no two of the addresses agree up to a zero byte.  The code compares addresses
  with \<open>strncmp\<close>.
\<close>

definition told_apart :: "packet list \<Rightarrow> bool" where
  "told_apart ps \<longleftrightarrow> (\<forall>p \<in> set ps. \<forall>p' \<in> set ps. addr_key (p_from p) = addr_key (p_from p') \<longrightarrow> p_from p = p_from p')"

lemma accounts_of_key:
  assumes "\<forall>p \<in> set ps. 3 < length (p_data p)"
  shows "snd (rtp_accounts ps b (ks, m)) k =
    (let qs = filter (\<lambda>p. addr_key (p_from p) = k) ps
     in if qs = [] then m k
        else Some (fold (\<lambda>p. account_step (p_data p ! 3) (length (p_data p))) qs (case m k of None \<Rightarrow> no_account | Some a \<Rightarrow> a)))"
  using assms
proof (induction ps arbitrary: b ks m)
  case (Cons p ps)
  then show ?case by (auto simp: Let_def seq_byte_def credit_def split: option.splits)
qed simp


text \<open>The account of the packets from one address.\<close>

definition account_of :: "packet list \<Rightarrow> u8 list \<Rightarrow> account" where
  "account_of ps f =
     fold (\<lambda>p. account_step (p_data p ! 3) (length (p_data p))) (filter (\<lambda>p. p_from p = f) ps) no_account"

lemma account_by_key:
  assumes "told_apart ps" "f \<in> p_from ` set ps" "\<forall>p \<in> set ps. 3 < length (p_data p)"
  shows "snd (rtp_accounts ps b ([], Map.empty)) (addr_key f) = Some (account_of ps f)"
proof -
  have "filter (\<lambda>p. addr_key (p_from p) = addr_key f) ps = filter (\<lambda>p. p_from p = f) ps"
    using assms(1,2) by (auto simp: told_apart_def intro!: filter_cong)
  moreover have "filter (\<lambda>p. p_from p = f) ps \<noteq> []" using assms(2) by (auto simp: filter_empty_conv)
  ultimately show ?thesis using accounts_of_key [OF assms(3)] by (simp add: Let_def account_of_def)
qed






definition sample_packet :: "u8 list \<Rightarrow> u8 \<Rightarrow> i64 \<Rightarrow> packet" where
  "sample_packet a b t = \<lparr>p_data = [128, 0, 0, b, 7], p_from = a @ replicate 8 0, p_time = t\<rparr>"


text \<open>10.0.0.1 and 10.0.0.2 are taken for one transmitter.\<close>

lemma rtp_run_merges_senders:
  "\<exists>out q xs. rtp_run [sample_packet [10, 0, 0, 1] 5 100, sample_packet [10, 0, 0, 2] 9 101] ([], rtp_start 100 0 (replicate MAXB 0)) =
    Some (out, q) \<and> sender_ring q xs \<and> length xs = 1"
proof -
  let ?ps = "[sample_packet [10, 0, 0, 1] 5 100, sample_packet [10, 0, 0, 2] 9 101]"
  have "\<forall>p \<in> set ?ps. good_packet p" by (simp add: good_packet_def sample_packet_def terminated_def MAXB_def)
  moreover have "length (replicate MAXB (0 :: u8)) = MAXB" by simp
  ultimately obtain out q xs where r: "rtp_run ?ps ([], rtp_start 100 0 (replicate MAXB 0)) = Some (out, q)" "sender_ring q xs"
    "map (cell_key (cells q)) xs = fst (rtp_accounts ?ps (replicate MAXB 0 ! 3) ([], Map.empty))"
    using rtp_run_books [of "replicate MAXB 0" ?ps 100 0] by blast
  have "fst (rtp_accounts ?ps (replicate MAXB 0 ! 3) ([], Map.empty)) = [[10]]"
    by (simp add: Let_def sample_packet_def addr_key_def hear_def)
  then have "length xs = 1" using r(3) by (metis length_map length_Cons list.size(3) One_nat_def)
  with r show ?thesis by blast
qed

section \<open>What the counts mean\<close>

text \<open>Sequence numbers that grow by at most 128 from one packet to the next.\<close>

fun gaps :: "nat \<Rightarrow> nat list \<Rightarrow> bool" where
  "gaps n0 [] \<longleftrightarrow> True"
| "gaps n0 (n # ns) \<longleftrightarrow> n0 < n \<and> n \<le> n0 + 128 \<and> gaps n ns"

lemma gaps_span: "gaps n0 ns \<Longrightarrow> n0 + length ns \<le> last (n0 # ns)"
  by (induction ns arbitrary: n0) fastforce+

lemma byte_gap: "n0 < n \<Longrightarrow> n \<le> n0 + 128 \<Longrightarrow> unat (of_nat n - of_nat n0 - 1 :: u8) = n - n0 - 1"
proof -
  assume n: "n0 < n" "n \<le> n0 + 128"
  then have "(of_nat n - of_nat n0 - 1 :: u8) = of_nat (n - n0 - 1)" by (simp add: of_nat_diff)
  moreover have "n - n0 - 1 < 128" using n by simp
  ultimately show ?thesis by (simp add: unat_of_nat)
qed

lemma fold_gaps:
  assumes "a_last a = Some (of_nat n0)" "map (\<lambda>p. p_data p ! 3) qs = map of_nat ns" "gaps n0 ns"
  defines "a' \<equiv> fold (\<lambda>p. account_step (p_data p ! 3) (length (p_data p))) qs a"
  shows "a_pkts a' = a_pkts a + length ns \<and> a_lost a' = a_lost a + (last (n0 # ns) - n0 - length ns) \<and> a_late a' = a_late a"
  using assms(1-3) unfolding a'_def
proof (induction ns arbitrary: n0 qs a)
  case (Cons n ns)
  then obtain p ps where qs: "qs = p # ps" "p_data p ! 3 = of_nat n" "map (\<lambda>p. p_data p ! 3) ps = map of_nat ns"
    by (cases qs) auto
  have n: "n0 < n" "n \<le> n0 + 128" "gaps n ns" using Cons.prems(3) by auto
  let ?a = "account_step (of_nat n) (length (p_data p)) a"
  have "unat (of_nat n - of_nat n0 - 1 :: u8) = n - n0 - 1" using n byte_gap by blast
  then have a: "a_last ?a = Some (of_nat n)" "a_pkts ?a = a_pkts a + 1" "a_lost ?a = a_lost a + (n - n0 - 1)" "a_late ?a = a_late a"
    using Cons.prems(1) n by (simp_all add: account_step_def Let_def del: of_nat_diff) linarith+
  show ?case using Cons.IH [OF a(1) qs(3) n(3)] a(2-4) qs(1,2) n gaps_span [OF n(3)] by simp
qed simp

text \<open>
  C19: However the packets of several transmitters are interleaved, if no two of their addresses agree up to a zero byte and the
  sequence bytes of one of them come from numbers that grow by at most 128 at each packet, then the cell of its address counts
  exactly its packets, counts as lost exactly the numbers that are missing between its first and its last packet, and counts
  none as late.
\<close>

theorem rtp_loss_is_gap:
  assumes "length buff = MAXB" "\<forall>p \<in> set ps. good_packet p \<and> 3 < length (p_data p)" "told_apart ps"
    "map (\<lambda>p. p_data p ! 3) (filter (\<lambda>p. p_from p = f) ps) = map of_nat (n0 # ns)" "gaps n0 ns"
  shows "\<exists>out q. rtp_run ps ([], rtp_start now minute0 buff) = Some (out, q) \<and>
    (\<exists>c \<in> set (cells q). ss_from c = f \<and> ss_Tspkts c + ss_spkts c = of_nat (length (n0 # ns)) \<and>
      ss_Tslost c + ss_slost c = of_nat (last (n0 # ns) - n0 - length ns) \<and> ss_npkts c = 0)"
proof -
  have "\<forall>p \<in> set ps. good_packet p" using assms(2) by blast
  from rtp_run_books [OF assms(1) this, of now minute0] obtain out q xs where
    r: "rtp_run ps ([], rtp_start now minute0 buff) = Some (out, q)" "sender_ring q xs"
      "dom (snd (rtp_accounts ps (buff ! 3) ([], Map.empty))) = set (map (cell_key (cells q)) xs)"
      "\<forall>i \<in> set xs. \<exists>a. snd (rtp_accounts ps (buff ! 3) ([], Map.empty)) (cell_key (cells q) i) = Some a \<and> holds_account (cells q ! i) a"
    by blast
  obtain p qs where p: "filter (\<lambda>p. p_from p = f) ps = p # qs" "p_data p ! 3 = of_nat n0"
    "map (\<lambda>p. p_data p ! 3) qs = map of_nat ns" using assms(4) by auto
  then have "p \<in> set (filter (\<lambda>p. p_from p = f) ps)" by simp
  then have f: "f \<in> p_from ` set ps" by auto
  let ?first = "account_step (of_nat n0) (length (p_data p)) no_account"
  have "a_last ?first = Some (of_nat n0)" "a_pkts ?first = 1" "a_lost ?first = 0" "a_late ?first = 0"
    by (simp_all add: account_step_def no_account_def)
  note sums = fold_gaps [OF this(1) p(3) assms(5)] this
  have acc: "snd (rtp_accounts ps (buff ! 3) ([], Map.empty)) (addr_key f) = Some (account_of ps f)"
    using assms(2,3) f by (intro account_by_key) auto
  then obtain i where i: "i \<in> set xs" "cell_key (cells q) i = addr_key f" using r(3) by force
  then have c: "cells q ! i \<in> set (cells q)" using r(2) by (auto simp: sender_ring_def)
  then have "ss_from (cells q ! i) \<in> p_from ` set ps" using rtp_run_from [OF r(1)] by (auto simp: rtp_start_def)
  moreover have "inj_on addr_key (p_from ` set ps)" using assms(3) by (auto simp: told_apart_def inj_on_def)
  ultimately have "ss_from (cells q ! i) = f" using i(2) f unfolding cell_key_def by (metis inj_onD)
  moreover have "holds_account (cells q ! i) (account_of ps f)" using bspec [OF r(4) i(1)] unfolding i(2) acc by blast
  ultimately have "ss_from (cells q ! i) = f \<and> ss_Tspkts (cells q ! i) + ss_spkts (cells q ! i) = of_nat (length (n0 # ns)) \<and>
      ss_Tslost (cells q ! i) + ss_slost (cells q ! i) = of_nat (last (n0 # ns) - n0 - length ns) \<and> ss_npkts (cells q ! i) = 0"
    using sums p(1,2) by (simp add: holds_account_def account_of_def)
  with r(1) c show ?thesis by blast
qed

lemma rtp_loss_is_gap_witness:
  "\<exists>out q. rtp_run [sample_packet [10, 9, 0, 1] 254 100, sample_packet [11, 0, 0, 2] 9 100, sample_packet [10, 9, 0, 1] 3 102]
      ([], rtp_start 100 0 (replicate MAXB 0)) = Some (out, q) \<and>
    (\<exists>c \<in> set (cells q). take 4 (ss_from c) = [10, 9, 0, 1] \<and> ss_Tspkts c + ss_spkts c = 2 \<and> ss_Tslost c + ss_slost c = 4)"
proof -
  let ?ps = "[sample_packet [10, 9, 0, 1] 254 100, sample_packet [11, 0, 0, 2] 9 100, sample_packet [10, 9, 0, 1] 3 102]"
  let ?f = "[10, 9, 0, 1] @ replicate 8 0 :: u8 list"
  have "\<forall>p \<in> set ?ps. good_packet p \<and> 3 < length (p_data p)" "told_apart ?ps"
    by (simp_all add: good_packet_def sample_packet_def terminated_def MAXB_def told_apart_def addr_key_def)
  moreover have "map (\<lambda>p. p_data p ! 3) (filter (\<lambda>p. p_from p = ?f) ?ps) = map of_nat [254, 259]"
    by (simp add: sample_packet_def)
  ultimately obtain out q c where r: "rtp_run ?ps ([], rtp_start 100 0 (replicate MAXB 0)) = Some (out, q)" "c \<in> set (cells q)"
    "ss_from c = ?f" "ss_Tspkts c + ss_spkts c = of_nat (length [254 :: nat, 259])"
    "ss_Tslost c + ss_slost c = of_nat (last [254 :: nat, 259] - 254 - length [259 :: nat])"
    using rtp_loss_is_gap [of "replicate MAXB 0" ?ps ?f 254 "[259]" 100 0] by auto
  have "take 4 (ss_from c) = [10, 9, 0, 1] \<and> ss_Tspkts c + ss_spkts c = 2 \<and> ss_Tslost c + ss_slost c = 4"
    using r(4,5) by (simp add: r(3))
  then show ?thesis using r(1,2) by blast
qed

end
