(* ===== verification/PacketCheck.thy ===== *)
theory PacketCheck
  imports CText Bytes
begin

text \<open>
  The check of a captured STUN request, \<open>src/test_packet.c\<close>, and the packet printer \<open>src/sniff_stun.c\<close>.
  A frame is the list of bytes in memory; a read outside it is undefined.  The functions return what they print with
  their result.
\<close>

section \<open>Raw bytes\<close>

definition newline :: string where
  "newline = [CHR 0x0A]"

text \<open>\<open> %02x\<close>\<close>

definition hex_byte :: "u8 \<Rightarrow> string" where
  "hex_byte b = '' '' @ [digit_char (unat b div 16), digit_char (unat b mod 16)]"

fun raw_loop :: "u8 list \<Rightarrow> nat \<Rightarrow> nat \<Rightarrow> string option" where
  "raw_loop buf i 0 = Some []"
| "raw_loop buf i (Suc n) = do {
     b \<leftarrow> rd buf i;
     rest \<leftarrow> raw_loop buf (i + 1) n;
     Some ((if 0 < i \<and> i mod 16 = 0 then newline else if 0 < i \<and> i mod 8 = 0 then '' '' else []) @ hex_byte b @ rest) }"

definition log_raw :: "string \<Rightarrow> u8 list \<Rightarrow> nat \<Rightarrow> string option" where
  "log_raw title buf len = do {
     s \<leftarrow> raw_loop buf 0 len;
     Some (title @ '':'' @ newline @ s @ newline) }"

definition dump_raw :: "u8 list \<Rightarrow> nat \<Rightarrow> string option" where
  "dump_raw buf len = do { s \<leftarrow> raw_loop buf 0 len; Some (s @ newline) }"

section \<open>Checksums\<close>

text \<open>\<open>htons\<close> on a little-endian host.\<close>

definition htons :: "u16 \<Rightarrow> u16" where
  "htons x = push_bit 8 x OR drop_bit 8 x"

fun cksum_loop :: "u8 list \<Rightarrow> nat \<Rightarrow> nat \<Rightarrow> i32 \<Rightarrow> i32 option" where
  "cksum_loop mem w 0 acc = Some acc"
| "cksum_loop mem w (Suc 0) acc = do { b \<leftarrow> rd mem w; Some (acc + ucast (htons (push_bit 8 (ucast b)))) }"
| "cksum_loop mem w (Suc (Suc n)) acc = do { v \<leftarrow> rd_le mem w 2; cksum_loop mem (w + 2) n (acc + of_nat v) }"

definition fold_sum :: "i32 \<Rightarrow> u16" where
  "fold_sum acc =
     (let acc = signed_drop_bit 16 acc + (acc AND 65535); acc = acc + signed_drop_bit 16 acc
      in ucast (NOT acc))"

definition in_cksum :: "u8 list \<Rightarrow> nat \<Rightarrow> u16 \<Rightarrow> i32 \<Rightarrow> u16 option" where
  "in_cksum mem addr len csum = map_option fold_sum (cksum_loop mem addr (unat len) csum)"

text \<open>\<open>ihl\<close> is the low half of the first byte.\<close>

definition ihl :: "u8 \<Rightarrow> nat" where
  "ihl b = unat (b AND 15)"

definition udp_cksum :: "u8 list \<Rightarrow> nat \<Rightarrow> nat \<Rightarrow> u16 \<Rightarrow> u16 option" where
  "udp_cksum mem ip up udp_len = do {
     src \<leftarrow> rd_bytes mem (ip + 12) 4;
     b \<leftarrow> rd mem ip;
     if ihl b = 5 then do {
       dst \<leftarrow> rd_bytes mem (ip + 16) 4;
       let pa = src @ dst @ [0, 17] @ le_bytes 2 (unat (htons udp_len));
       s0 \<leftarrow> rd_le pa 0 2; s1 \<leftarrow> rd_le pa 2 2; s2 \<leftarrow> rd_le pa 4 2;
       s3 \<leftarrow> rd_le pa 6 2; s4 \<leftarrow> rd_le pa 8 2; s5 \<leftarrow> rd_le pa 10 2;
       in_cksum mem up udp_len (of_nat s0 + of_nat s1 + of_nat s2 + of_nat s3 + of_nat s4 + of_nat s5) }
     else Some 0 }"

section \<open>The check\<close>

definition req_data :: "u8 list" where
  "req_data =
     [0x45, 0x00, 0x00, 0x44, 0x00, 0x00, 0x40, 0x00, 0x40, 0x11, 0xfe, 0x9f, 0x05, 0x03, 0x19, 0x02,
      0x05, 0x03, 0x19, 0x02, 0x2c, 0x64, 0x36, 0xc6, 0x00, 0x30, 0x3c, 0x4b, 0x00, 0x01, 0x00, 0x14,
      0x21, 0x12, 0xa4, 0x42, 0x73, 0x4f, 0x65, 0x4e, 0x73, 0x49, 0x48, 0x4e, 0x63, 0x77, 0x70, 0x00,
      0x00, 0x06, 0x00, 0x10, 0xb1, 0x97, 0xfb, 0xc9, 0x41, 0xad, 0x3e, 0x27, 0x72, 0x9c, 0x05, 0x0f,
      0xd8, 0xbe, 0xfb, 0xf9]"

definition stun_header_size :: nat where "stun_header_size = 2 + 2 + 4 + 12"

definition sanity_check_packet_frame :: "u8 list option \<Rightarrow> u16 \<Rightarrow> (string \<times> int) option" where
  "sanity_check_packet_frame frame flen =
     (case frame of
        None \<Rightarrow> Some ([], - 1)
      | Some mem \<Rightarrow> do {
          let len = unat flen;
          out \<leftarrow> log_raw ''passed in frame'' mem len;
          if len < 20 then Some (out @ ''Packet is too small to contain an ip header: '' @ dec (length req_data) @ newline, - 1)
          else do {
            protocol \<leftarrow> rd mem 9;
            if protocol \<noteq> 17 then Some (out @ ''Not a UDP packet: '' @ dec (unat protocol) @ newline, - 1)
            else do {
              b \<leftarrow> rd mem 0;
              let iphdr_len = ihl b * 4;
              if len < iphdr_len then
                Some (out @ ''Packet ('' @ dec (length req_data) @ '') is too small to contain the complete IP header. '' @
                      ''Whole IP header length is '' @ dec iphdr_len @ ''.'' @ newline, - 1)
              else let ptr = iphdr_len; len = len - iphdr_len
                   in if len < 8 then
                        Some (out @ ''Packet is too small to contain a udp header: '' @ dec (length req_data) @ newline, - 1)
                      else do {
                        ulen \<leftarrow> map_option be_nat (rd_bytes mem (ptr + 4) 2);
                        if ulen \<noteq> len then
                          Some (out @ ''The length of '' @ dec ulen @ '' in udp header is wrong: should be '' @ dec len @ newline, - 1)
                        else let len = len - 8
                             in if len < stun_header_size then
                                  Some (out @ ''Packet is too small to contain a stun header: '' @ dec len @ newline, - 1)
                                else do {
                                  check \<leftarrow> rd_le mem (ptr + 6) 2;
                                  if check \<noteq> 0 then do {
                                    udp_csum \<leftarrow> udp_cksum mem 0 ptr (of_nat ulen);
                                    if udp_csum \<noteq> 0 then Some (out @ ''Invalid udp checksum: 0x'' @ hex check @ newline, - 1)
                                    else Some (out, 0) }
                                  else Some (out, 0) } } } } })"

text \<open>The program: its output and status.  The buffer holds the sample first and is otherwise uninitialised.\<close>

definition packet_main :: "u8 list \<Rightarrow> (string \<times> int) option" where
  "packet_main junk = do {
     let buf = req_data @ drop (length req_data) junk;
     let n = length req_data;
     (out, r) \<leftarrow> sanity_check_packet_frame (Some buf) (of_nat n);
     if r = - 1 then Some (out @ ''Sanity check failed'' @ newline, - 1)
     else do {
       b \<leftarrow> rd buf 0;
       let hdr = ihl b * 4;
       let ip_udp_hdr_len = hdr + 8;
       let stun_msg_len = n - ip_udp_hdr_len;
       s1 \<leftarrow> log_raw ''stun payload'' (drop ip_udp_hdr_len buf) stun_msg_len;
       s2 \<leftarrow> log_raw ''udp header'' (drop hdr buf) 8;
       s3 \<leftarrow> log_raw ''ip header'' buf hdr;
       Some (out @ newline @ ''Sanity checking passed'' @ newline @
             ''stun payload length: '' @ dec stun_msg_len @ newline @ s1 @ s2 @ s3, 0) } }"

section \<open>The packet printer\<close>

definition mac_text :: "string \<Rightarrow> u8 list \<Rightarrow> nat \<Rightarrow> string option" where
  "mac_text title mem off = do {
     bs \<leftarrow> rd_bytes mem off 6;
     Some (title @ join '':'' (map (\<lambda>b. drop 1 (hex_byte b)) bs) @ newline) }"

definition host_text :: "string \<Rightarrow> u8 list \<Rightarrow> nat \<Rightarrow> string option" where
  "host_text title mem off = do {
     bs \<leftarrow> rd_bytes mem off 4;
     Some (title @ join ''.'' (map (\<lambda>b. dec (unat b)) bs) @ newline) }"

text \<open>
  One turn of the loop on a buffer of which the first \<open>n\<close> bytes were received: what is printed, and whether the
  loop goes on.
\<close>

definition sniff_packet :: "i32 \<Rightarrow> u8 list \<Rightarrow> int \<Rightarrow> (string \<times> bool) option" where
  "sniff_packet errno buffer n =
     (let head = replicate 10 (CHR ''-'') @ newline @ (if n < 0 then CHR ''-'' # dec (nat (- n)) else dec (nat n)) @ '' bytes read'' @ newline
      in if n < 42 then Some (head @ ''Incomplete packet (errno is '' @ fmt_d errno @ '')'' @ newline, False)
         else do {
           m1 \<leftarrow> mac_text ''Source MAC address: '' buffer 0;
           m2 \<leftarrow> mac_text ''Destination MAC address: '' buffer 6;
           v \<leftarrow> rd buffer 14;
           if v = 0x45 then do {
             h1 \<leftarrow> host_text ''Source host '' buffer 26;
             h2 \<leftarrow> host_text ''Dest host '' buffer 30;
             p1 \<leftarrow> map_option be_nat (rd_bytes buffer 34 2);
             p2 \<leftarrow> map_option be_nat (rd_bytes buffer 36 2);
             proto \<leftarrow> rd buffer 23;
             let out = head @ m1 @ m2 @ h1 @ h2 @ ''Source,Dest ports '' @ dec p1 @ '','' @ dec p2 @ newline @
                       ''Layer-4 protocol '' @ dec (unat proto) @ newline;
             if proto = 17 then do {
               s \<leftarrow> dump_raw (drop 42 buffer) (nat n - 42);
               Some (out @ ''UDP payload '' @ dec (nat n - 42) @ '' bytes:'' @ newline @ s, True) }
             else Some (out, True) }
           else Some (head @ m1 @ m2, True) })"

text \<open>The loop on a sequence of results of \<open>recvfrom\<close>, each with the value of \<open>errno\<close>.\<close>

fun sniff_loop :: "u8 list \<Rightarrow> (u8 list option \<times> i32) list \<Rightarrow> string option" where
  "sniff_loop buffer [] = Some []"
| "sniff_loop buffer ((r, errno) # rs) =
     (let (buffer, n) = (case r of Some d \<Rightarrow> (d @ drop (length d) buffer, int (length d)) | None \<Rightarrow> (buffer, - 1))
      in do {
        (out, go) \<leftarrow> sniff_packet errno buffer n;
        if go then do { rest \<leftarrow> sniff_loop buffer rs; Some (out @ rest) } else Some out })"

section \<open>Sums of 16-bit words\<close>

text \<open>The sum of the words of a byte list, in host and in network order; a last odd byte is padded with zero.\<close>

fun le_sum :: "u8 list \<Rightarrow> nat" where
  "le_sum [] = 0"
| "le_sum [b] = unat b"
| "le_sum (b # c # bs) = unat b + 256 * unat c + le_sum bs"

fun be_sum :: "u8 list \<Rightarrow> nat" where
  "be_sum [] = 0"
| "be_sum [b] = 256 * unat b"
| "be_sum (b # c # bs) = 256 * unat b + unat c + be_sum bs"

lemma unat_byte: "unat (b :: u8) < 256"
proof -
  have "unat b < 2 ^ LENGTH(8)" by (rule unsigned_less)
  then show ?thesis by simp
qed

lemma le_sum_append: "even (length xs) \<Longrightarrow> le_sum (xs @ ys) = le_sum xs + le_sum ys"
  by (induction xs rule: le_sum.induct) auto

lemma be_sum_append: "even (length xs) \<Longrightarrow> be_sum (xs @ ys) = be_sum xs + be_sum ys"
  by (induction xs rule: be_sum.induct) auto

lemma le_sum_bound: "le_sum bs \<le> 65535 * ((length bs + 1) div 2)"
proof (induction bs rule: le_sum.induct)
  case (2 b)
  then show ?case using unat_byte [of b] by simp
next
  case (3 b c bs)
  then show ?case using unat_byte [of b] unat_byte [of c] by simp
qed simp

text \<open>Multiplying by 256 exchanges the byte orders, modulo 65535.\<close>

lemma le_be_sum: "\<exists>k. 256 * le_sum bs = be_sum bs + 65535 * k"
proof (induction bs rule: le_sum.induct)
  case (3 b c bs)
  then obtain k where "256 * le_sum bs = be_sum bs + 65535 * k" by blast
  then have "256 * le_sum (b # c # bs) = be_sum (b # c # bs) + 65535 * (k + unat c)" by (simp add: algebra_simps)
  then show ?case by blast
qed auto

lemma byte_order_dvd: "65535 dvd le_sum bs \<longleftrightarrow> 65535 dvd be_sum bs"
proof -
  obtain k where k: "256 * le_sum bs = be_sum bs + 65535 * k" using le_be_sum by blast
  have "65535 dvd be_sum bs \<longleftrightarrow> 65535 dvd 256 * le_sum bs" unfolding k using dvd_add_left_iff [of 65535 "65535 * k" "be_sum bs"] by simp
  also have "\<dots> \<longleftrightarrow> 65535 dvd le_sum bs"
  proof
    assume "65535 dvd 256 * le_sum bs"
    then have "65535 dvd 256 * (256 * le_sum bs)" by (rule dvd_mult)
    moreover have "256 * (256 * le_sum bs) = le_sum bs + 65535 * le_sum bs" by simp
    ultimately show "65535 dvd le_sum bs" by (metis dvd_add_left_iff dvd_triv_left)
  qed (rule dvd_mult)
  finally show ?thesis by blast
qed

section \<open>The checksum loop\<close>

lemma htons_high_byte: "htons (push_bit 8 (ucast b)) = ucast (b :: u8)"
  by (rule bit_word_eqI) (auto simp: htons_def bit_simps dest: bit_imp_le_length)

lemma cksum_loop_sum:
  "w + n \<le> length mem \<Longrightarrow> cksum_loop mem w n acc = Some (acc + of_nat (le_sum (take n (drop w mem))))"
proof (induction mem w n acc rule: cksum_loop.induct)
  case (2 mem w acc)
  then have "take 1 (drop w mem) = [mem ! w]" by (simp add: take_Suc_conv_app_nth)
  moreover have "(ucast (ucast (mem ! w) :: u16) :: i32) = ucast (mem ! w)"
    by (rule bit_word_eqI) (auto simp: bit_simps dest: bit_imp_le_length)
  ultimately show ?case using 2 by (simp add: arr_simps htons_high_byte)
next
  case (3 mem w n acc)
  have d: "drop w mem = mem ! w # mem ! (w + 1) # drop (w + 2) mem"
    using 3(2) by (simp add: Cons_nth_drop_Suc)
  have r: "rd_le mem w 2 = Some (unat (mem ! w) + 256 * unat (mem ! (w + 1)))"
    using 3(2) by (simp add: rd_le_def rd_bytes_def d numeral_2_eq_2)
  show ?case using 3 unfolding d by (simp add: r algebra_simps)
qed simp

section \<open>Folding the sum\<close>

lemma fold_sum_zero:
  assumes "s < 2147483648"
  shows "fold_sum (of_nat s) = 0 \<longleftrightarrow> 0 < s \<and> 65535 dvd s"
proof -
  have shift: "signed_drop_bit 16 (of_nat n :: i32) = of_nat (n div 65536)" if "n < 2147483648" for n
  proof -
    have u: "unat (of_nat m :: i32) = m" if "m < 2147483648" for m using that by (simp add: unat_of_nat)
    have "sint (of_nat n :: i32) = int n" using sint_eq_unat32 [of "of_nat n"] u [OF that] that by simp
    moreover have "n div 65536 < 2147483648" using that by simp
    then have "sint (of_nat (n div 65536) :: i32) = int (n div 65536)" using sint_eq_unat32 [of "of_nat (n div 65536)"] u by simp
    ultimately have "sint (signed_drop_bit 16 (of_nat n :: i32)) = sint (of_nat (n div 65536) :: i32)"
      by (simp add: sint_signed_drop_bit_eq drop_bit_eq_div zdiv_int)
    then show ?thesis by (simp only: signed_word_eqI)
  qed
  have low: "(of_nat n :: i32) AND 65535 = of_nat (n mod 65536)" for n
  proof -
    have "(65535 :: i32) = Bit_Operations.mask 16" by (simp add: mask_eq_exp_minus_1)
    then have "(of_nat n :: i32) AND 65535 = take_bit 16 (of_nat n)" by (simp only: take_bit_eq_mask)
    also have "\<dots> = of_nat (n mod 65536)" by (simp only: take_bit_of_nat) (simp add: take_bit_eq_mod)
    finally show ?thesis .
  qed
  define a where "a = s div 65536"
  define b where "b = s mod 65536"
  have s: "s = 65536 * a + b" "a < 32768" "b < 65536" using assms by (simp_all add: a_def b_def)
  define t where "t = a + b"
  define u where "u = t + t div 65536"
  have "signed_drop_bit 16 (of_nat s) + (of_nat s AND 65535 :: i32) = of_nat t"
    using assms by (simp add: shift low t_def a_def b_def)
  moreover have "t < 2147483648" using s by (simp add: t_def)
  ultimately have "fold_sum (of_nat s) = ucast (NOT (of_nat u :: i32))"
    by (simp add: fold_sum_def Let_def shift u_def)
  also have "\<dots> = NOT (of_nat u :: u16)" by (rule bit_word_eqI) (simp add: bit_simps)
  finally have "fold_sum (of_nat s) = 0 \<longleftrightarrow> (of_nat u :: u16) = - 1" by (metis bit.compl_zero bit.double_compl)
  also have "\<dots> \<longleftrightarrow> u mod 65536 = 65535"
  proof -
    have "(- 1 :: u16) = 65535" by simp
    then have "(of_nat u :: u16) = - 1 \<longleftrightarrow> unat (of_nat u :: u16) = unat (65535 :: u16)" by (simp only: word_unat_eq_iff)
    then show ?thesis by (simp add: unat_of_nat)
  qed
  also have "\<dots> \<longleftrightarrow> 0 < t \<and> 65535 dvd t"
  proof (cases "t < 65536")
    case True
    then have "u = t" by (simp add: u_def)
    moreover have "0 < t \<and> 65535 dvd t \<longleftrightarrow> t = 65535"
    proof
      assume t: "0 < t \<and> 65535 dvd t"
      then obtain k where k: "t = 65535 * k" by (auto elim: dvdE)
      with t True have "k = 1" by (cases k) auto
      with k show "t = 65535" by simp
    qed simp
    ultimately show ?thesis using True by simp
  next
    case False
    have "t < 98304" using s by (simp add: t_def)
    then have "t div 65536 = 1" using False by (simp add: div_nat_eqI)
    then have "u = t + 1" by (simp add: u_def)
    moreover have "(t + 1) mod 65536 = t - 65535" using False \<open>t < 98304\<close> by (simp add: mod_nat_eqI)
    ultimately have "u mod 65536 \<noteq> 65535" using \<open>t < 98304\<close> by simp
    moreover have "\<not> 65535 dvd t"
    proof
      assume "65535 dvd t"
      then obtain k where "t = 65535 * k" by (auto elim: dvdE)
      then show False using False \<open>t < 98304\<close> by (cases "k \<le> 1"; cases k) auto
    qed
    ultimately show ?thesis by simp
  qed
  also have "\<dots> \<longleftrightarrow> 0 < s \<and> 65535 dvd s"
  proof -
    have "s = t + 65535 * a" using s by (simp add: t_def)
    then have "65535 dvd s \<longleftrightarrow> 65535 dvd t" using dvd_add_left_iff [of 65535 "65535 * a" t] by simp
    moreover have "0 < s \<longleftrightarrow> 0 < t" using s by (auto simp: t_def)
    ultimately show ?thesis by simp
  qed
  finally show ?thesis .
qed


section \<open>The checksum of a datagram\<close>

definition pseudo_header :: "u8 list \<Rightarrow> nat \<Rightarrow> u8 list" where
  "pseudo_header mem n = take 4 (drop 12 mem) @ take 4 (drop 16 mem) @ [0, 17] @ be_bytes 2 n"

lemma bit_htons: "bit (htons x) p \<longleftrightarrow> p < 16 \<and> bit x (if p < 8 then p + 8 else p - 8)"
  by (auto simp: htons_def bit_simps add.commute dest: bit_imp_le_length)

lemma htons_network: "le_bytes 2 (unat (htons x)) = be_bytes 2 (unat x)"
proof (rule nth_equalityI)
  fix k assume "k < length (le_bytes 2 (unat (htons x)))"
  then consider "k = 0" | "k = 1" by fastforce
  then show "le_bytes 2 (unat (htons x)) ! k = be_bytes 2 (unat x) ! k"
  proof cases
    case 1
    then show ?thesis unfolding be_bytes_def
      by (intro bit_word_eqI) (simp add: rev_nth bit_le_bytes bit_unsigned_iff bit_htons add.commute)
  next
    case 2
    then show ?thesis unfolding be_bytes_def
      by (intro bit_word_eqI) (simp add: rev_nth bit_le_bytes bit_unsigned_iff bit_htons add.commute)
  qed
qed (simp add: be_bytes_def)

lemma list12: "length xs = 12 \<Longrightarrow>
  (of_nat (the (rd_le xs 0 2)) + of_nat (the (rd_le xs 2 2)) + of_nat (the (rd_le xs 4 2)) + of_nat (the (rd_le xs 6 2)) +
   of_nat (the (rd_le xs 8 2)) + of_nat (the (rd_le xs 10 2)) :: i32) = of_nat (le_sum xs)"
  by (auto simp: length_Suc_conv numeral_eq_Suc rd_le_def rd_bytes_def)

lemma rd_le2: "n + 2 \<le> length xs \<Longrightarrow> rd_le xs n 2 = Some (the (rd_le xs n 2))"
  by (simp add: rd_le_def rd_bytes_def)

lemma udp_cksum_plain:
  assumes "20 \<le> length mem" "ihl (mem ! 0) = 5" "up + unat n \<le> length mem"
  shows "udp_cksum mem 0 up n = Some (fold_sum (of_nat (le_sum (pseudo_header mem (unat n) @ take (unat n) (drop up mem)))))"
proof -
  let ?pa = "pseudo_header mem (unat n)"
  have len: "length ?pa = 12" using assms(1) by (simp add: pseudo_header_def be_bytes_def)
  have p: "take 4 (drop (0 + 12) mem) @ take 4 (drop (0 + 16) mem) @ [0, 17] @ le_bytes 2 (unat (htons n)) = ?pa"
    by (simp add: pseudo_header_def htons_network)
  have r: "rd_bytes mem (0 + 12) 4 = Some (take 4 (drop (0 + 12) mem))" "rd_bytes mem (0 + 16) 4 = Some (take 4 (drop (0 + 16) mem))"
    "rd mem 0 = Some (mem ! 0)" using assms(1) by (auto simp: rd_bytes_def rd_def)
  have w: "rd_le ?pa 0 2 = Some (the (rd_le ?pa 0 2))" "rd_le ?pa 2 2 = Some (the (rd_le ?pa 2 2))"
    "rd_le ?pa 4 2 = Some (the (rd_le ?pa 4 2))" "rd_le ?pa 6 2 = Some (the (rd_le ?pa 6 2))"
    "rd_le ?pa 8 2 = Some (the (rd_le ?pa 8 2))" "rd_le ?pa 10 2 = Some (the (rd_le ?pa 10 2))"
    using len by (intro rd_le2; simp)+
  have "udp_cksum mem 0 up n = in_cksum mem up n (of_nat (le_sum ?pa))"
    unfolding udp_cksum_def r Option.bind.simps assms(2) Let_def p list12 [OF len, symmetric]
    by (subst w, simp only: Option.bind.simps)+ (simp only: refl if_True)
  also have "\<dots> = Some (fold_sum (of_nat (le_sum ?pa + le_sum (take (unat n) (drop up mem)))))"
    using assms(3) by (simp add: in_cksum_def cksum_loop_sum)
  finally show ?thesis using len by (simp add: le_sum_append)
qed

lemma udp_cksum_zero:
  assumes "20 \<le> length mem" "ihl (mem ! 0) = 5" "up + unat n \<le> length mem" "unat n \<le> 65515"
  defines "bs \<equiv> pseudo_header mem (unat n) @ take (unat n) (drop up mem)"
  shows "\<exists>c. udp_cksum mem 0 up n = Some c \<and> (c = 0 \<longleftrightarrow> 65535 dvd be_sum bs)"
proof -
  have len: "length (pseudo_header mem (unat n)) = 12" using assms(1) by (simp add: pseudo_header_def be_bytes_def)
  then have "length bs = 12 + unat n" using assms(3) by (simp add: bs_def)
  then have "(length bs + 1) div 2 \<le> 32764" using assms(4) by simp
  then have "le_sum bs \<le> 65535 * 32764" using le_sum_bound [of bs] by (meson le_trans mult_le_mono2)
  then have "le_sum bs < 2147483648" by simp
  moreover have "0 < le_sum bs"
  proof -
    have "le_sum (pseudo_header mem (unat n)) = le_sum (take 4 (drop 12 mem) @ take 4 (drop 16 mem)) + le_sum (0 # 17 # be_bytes 2 (unat n))"
      unfolding pseudo_header_def using assms(1) by (simp add: le_sum_append flip: append_assoc)
    then show ?thesis using len by (simp add: bs_def le_sum_append)
  qed
  ultimately show ?thesis using udp_cksum_plain [OF assms(1-3)] fold_sum_zero [of "le_sum bs"] byte_order_dvd [of bs]
    by (simp add: bs_def)
qed

section \<open>What the check accepts\<close>

lemma raw_loop_defined: "i + n \<le> length buf \<Longrightarrow> \<exists>s. raw_loop buf i n = Some s"
  by (induction buf i n rule: raw_loop.induct) (auto simp: arr_simps)

lemma log_raw_defined: "n \<le> length buf \<Longrightarrow> \<exists>s. log_raw title buf n = Some s"
  using raw_loop_defined [of 0 n buf] by (auto simp: log_raw_def)

text \<open>The checksum of the datagram at \<open>h\<close> of a frame is right: the sum with the pseudo header is zero in one's complement.\<close>

definition checksum_right :: "u8 list \<Rightarrow> nat \<Rightarrow> bool" where
  "checksum_right frame h \<longleftrightarrow> 65535 dvd be_sum (pseudo_header frame (length frame - h) @ drop h frame)"

definition accepted :: "u8 list \<Rightarrow> bool" where
  "accepted frame \<longleftrightarrow>
     20 \<le> length frame \<and> frame ! 9 = 17 \<and>
     (let h = ihl (frame ! 0) * 4
      in h + 28 \<le> length frame \<and> be_nat (take 2 (drop (h + 4) frame)) = length frame - h \<and>
         (le_nat (take 2 (drop (h + 6) frame)) = 0 \<or> ihl (frame ! 0) \<noteq> 5 \<or> checksum_right frame h))"

lemma take_drop_within: "k + n \<le> m \<Longrightarrow> take n (drop k (take m xs)) = take n (drop k xs)"
  by (simp add: drop_take)

lemma rd_within: "i < n \<Longrightarrow> n \<le> length mem \<Longrightarrow> rd mem i = Some (take n mem ! i)"
  by (simp add: rd_def)

lemma rd_bytes_within: "i + k \<le> n \<Longrightarrow> n \<le> length mem \<Longrightarrow> rd_bytes mem i k = Some (take k (drop i (take n mem)))"
  by (simp add: rd_bytes_def take_drop_within)

text \<open>A frame of \<open>flen\<close> bytes in a buffer that may be longer.\<close>

lemma sanity_check_frame:
  fixes mem :: "u8 list" and flen :: u16
  assumes "unat flen \<le> length mem"
  defines "frame \<equiv> take (unat flen) mem"
  shows "\<exists>out r. sanity_check_packet_frame (Some mem) flen = Some (out, r) \<and> (r = 0 \<or> r = - 1) \<and> (r = 0 \<longleftrightarrow> accepted frame)"
proof -
  define n where "n = unat flen"
  have n: "n \<le> length mem" "length frame = n" "frame = take n mem" using assms by (simp_all add: n_def frame_def)
  have n16: "n < 65536" using unsigned_less [of flen] by (simp add: n_def)
  obtain out where out: "log_raw ''passed in frame'' mem n = Some out" using log_raw_defined n(1) by blast
  have rd9: "rd mem 9 = Some (frame ! 9)" and rd0: "rd mem 0 = Some (frame ! 0)" if "20 \<le> n"
    using that n by (auto simp: rd_def)
  define h where "h = ihl (frame ! 0) * 4"
  have ulen: "rd_bytes mem (h + 4) 2 = Some (take 2 (drop (h + 4) frame))" and chk: "rd_le mem (h + 6) 2 = Some (le_nat (take 2 (drop (h + 6) frame)))"
    if "h + 8 \<le> n" using that n rd_bytes_within [of "h + 4" 2 n mem] rd_bytes_within [of "h + 6" 2 n mem] by (simp_all add: rd_le_def)
  show ?thesis
  proof (cases "20 \<le> n \<and> frame ! 9 = 17 \<and> h + 28 \<le> n \<and> be_nat (take 2 (drop (h + 4) frame)) = n - h")
    case False
    then have "\<not> accepted frame" using n by (auto simp: accepted_def Let_def h_def)
    moreover have "\<exists>o1. sanity_check_packet_frame (Some mem) flen = Some (o1, - 1)"
      using False out rd9 rd0 ulen
      by (auto simp: sanity_check_packet_frame_def Let_def stun_header_size_def simp flip: n_def h_def)
    ultimately show ?thesis by auto
  next
    case True
    then have ok: "20 \<le> n" "frame ! 9 = 17" "h + 28 \<le> n" "be_nat (take 2 (drop (h + 4) frame)) = n - h" by auto
    let ?check = "le_nat (take 2 (drop (h + 6) frame))"
    have c: "\<exists>c. udp_cksum mem 0 h (of_nat (n - h)) = Some c \<and> (c = 0 \<longleftrightarrow> ihl (frame ! 0) \<noteq> 5 \<or> checksum_right frame h)"
    proof (cases "ihl (frame ! 0) = 5")
      case True
      then have h: "h = 20" by (simp add: h_def)
      have u: "unat (of_nat (n - h) :: u16) = n - h" using n16 by (simp add: unat_of_nat)
      have m0: "mem ! 0 = frame ! 0" using ok n by simp
      have p: "pseudo_header mem (n - h) = pseudo_header frame (n - h)" using ok n by (simp add: pseudo_header_def take_drop_within)
      have d: "take (n - h) (drop h mem) = drop h frame" using n by (simp add: drop_take)
      have "20 \<le> length mem" using ok(1) n(1) by linarith
      moreover have "ihl (mem ! 0) = 5" using True m0 by simp
      moreover have "h + unat (of_nat (n - h) :: u16) \<le> length mem" unfolding u using ok(3) n(1) by linarith
      moreover have "unat (of_nat (n - h) :: u16) \<le> 65515" unfolding u using n16 h by linarith
      ultimately have "\<exists>c. udp_cksum mem 0 h (of_nat (n - h)) = Some c \<and>
        (c = 0 \<longleftrightarrow> 65535 dvd be_sum (pseudo_header frame (n - h) @ drop h frame))"
        using udp_cksum_zero [of mem h "of_nat (n - h)"] unfolding u p d by blast
      then obtain c where "udp_cksum mem 0 h (of_nat (n - h)) = Some c"
        "c = 0 \<longleftrightarrow> 65535 dvd be_sum (pseudo_header frame (n - h) @ drop h frame)" by blast
      moreover have "checksum_right frame h \<longleftrightarrow> 65535 dvd be_sum (pseudo_header frame (n - h) @ drop h frame)"
        by (simp only: checksum_right_def n(2))
      ultimately show ?thesis using True by blast
    next
      case False
      then show ?thesis using ok n by (simp add: udp_cksum_def rd_bytes_def rd0)
    qed
    then obtain c where c: "udp_cksum mem 0 h (of_nat (n - h)) = Some c" "c = 0 \<longleftrightarrow> ihl (frame ! 0) \<noteq> 5 \<or> checksum_right frame h" by blast
    have "accepted frame \<longleftrightarrow> ?check = 0 \<or> c = 0" unfolding accepted_def Let_def h_def [symmetric] n(2) using ok c(2) by blast
    moreover have "\<exists>o1. sanity_check_packet_frame (Some mem) flen = Some (o1, if ?check = 0 \<or> c = 0 then 0 else - 1)"
      using ok out rd9 rd0 ulen chk c(1)
      by (auto simp: sanity_check_packet_frame_def Let_def stun_header_size_def simp flip: n_def h_def)
    ultimately show ?thesis by auto
  qed
qed


text \<open>
  What the comment on \<open>sanity_check_packet_frame\<close> asks of a frame: a complete IP header, with or without options, a UDP
  header whose length field tells the rest of the frame, room for a STUN header, and a checksum that is right or not given.
  For a frame with options the code does not look at the checksum (\<open>udp_cksum\<close> returns 0), so there \<open>accepted\<close> is weaker.
\<close>

definition good_request :: "u8 list \<Rightarrow> bool" where
  "good_request frame \<longleftrightarrow>
     20 \<le> length frame \<and> 5 \<le> ihl (frame ! 0) \<and> frame ! 9 = 17 \<and>
     (let h = ihl (frame ! 0) * 4
      in h + 28 \<le> length frame \<and> be_nat (take 2 (drop (h + 4) frame)) = length frame - h \<and>
         (le_nat (take 2 (drop (h + 6) frame)) = 0 \<or> checksum_right frame h))"

lemma good_request_accepted: "good_request frame \<Longrightarrow> accepted frame"
  by (auto simp: good_request_def accepted_def Let_def)

lemma accepted_good_request: "accepted frame \<Longrightarrow> ihl (frame ! 0) = 5 \<Longrightarrow> good_request frame"
  by (auto simp: good_request_def accepted_def Let_def)

text \<open>
  C21: On every frame, of any length and with any contents, in a buffer at least as long, the check ends without reading
  outside the buffer and returns 0 or -1.  It returns 0 on every good request: a frame with a UDP header behind a complete
  IP header, a length field that tells the rest of the frame, room for a STUN header, and a checksum that is zero or right:
  the words of the datagram and the pseudo header, read in network order, add up to zero in one's complement.  Among the
  frames without IP options it returns 0 on the good requests only.
\<close>

theorem sanity_check_accepts:
  fixes mem :: "u8 list" and flen :: u16
  assumes "unat flen \<le> length mem"
  shows "\<exists>out r. sanity_check_packet_frame (Some mem) flen = Some (out, r) \<and> (r = 0 \<or> r = - 1) \<and>
    (good_request (take (unat flen) mem) \<longrightarrow> r = 0) \<and>
    (ihl (take (unat flen) mem ! 0) = 5 \<and> r = 0 \<longrightarrow> good_request (take (unat flen) mem))"
  using sanity_check_frame [OF assms] good_request_accepted accepted_good_request by blast

text \<open>The sample of \<open>main\<close>: its checksum field holds the sum of the pseudo header only.\<close>

lemma req_data_rejected: "\<not> accepted req_data"
proof -
  have i: "ihl (req_data ! 0) = 5" by (simp add: req_data_def ihl_def)
  have "length req_data - 20 = 48" "take 4 (drop 12 req_data) = [5, 3, 0x19, 2]" "take 4 (drop 16 req_data) = [5, 3, 0x19, 2]"
    by (simp_all add: req_data_def)
  moreover have "be_bytes 2 48 = [0, 48]" by (simp add: be_bytes_def numeral_2_eq_2)
  ultimately have p: "pseudo_header req_data (length req_data - 20) = [5, 3, 0x19, 2, 5, 3, 0x19, 2, 0, 17, 0, 48]"
    by (simp add: pseudo_header_def)
  have d: "be_sum (drop 20 req_data) = 542309" by (simp add: req_data_def)
  have "be_sum (pseudo_header req_data (length req_data - 20) @ drop 20 req_data) = 557744"
    unfolding p using be_sum_append [of "[5, 3, 0x19, 2, 5, 3, 0x19, 2, 0, 17, 0, 48]" "drop 20 req_data"] d by simp
  then have "\<not> checksum_right req_data 20" by (simp add: checksum_right_def)
  moreover have "le_nat (take 2 (drop 26 req_data)) \<noteq> 0" by (simp add: req_data_def)
  ultimately show ?thesis by (simp add: accepted_def Let_def i)
qed

lemma sanity_check_accepts_witness:
  "\<exists>out. sanity_check_packet_frame (Some req_data) 68 = Some (out, - 1)"
proof -
  have u: "unat (68 :: u16) = 68" "length req_data = 68" by (simp_all add: req_data_def)
  moreover have "ihl (req_data ! 0) = 5" by (simp add: req_data_def ihl_def)
  ultimately obtain out r where "sanity_check_packet_frame (Some req_data) 68 = Some (out, r)" "r = 0 \<or> r = - 1"
    "r = 0 \<longrightarrow> good_request req_data" using sanity_check_accepts [of 68 req_data] by auto
  with req_data_rejected good_request_accepted show ?thesis by auto
qed

lemma packet_main_rejects: "\<exists>out. packet_main junk = Some (out, - 1)"
proof -
  let ?buf = "req_data @ drop (length req_data) junk"
  have u: "unat (of_nat (length req_data) :: u16) = length req_data" by (simp add: req_data_def unat_of_nat)
  then obtain out r where "sanity_check_packet_frame (Some ?buf) (of_nat (length req_data)) = Some (out, r)" "r = 0 \<or> r = - 1"
    "r = 0 \<longleftrightarrow> accepted req_data" using sanity_check_frame [of "of_nat (length req_data)" ?buf] by auto
  with req_data_rejected show ?thesis by (auto simp: packet_main_def Let_def)
qed

section \<open>Corrupted words\<close>

lemma be_sum_update:
  assumes "2 * k + 1 < length bs"
  shows "be_sum (bs[2 * k := b, 2 * k + 1 := c]) + (256 * unat (bs ! (2 * k)) + unat (bs ! (2 * k + 1))) =
    be_sum bs + (256 * unat b + unat c)"
  using assms
proof (induction k arbitrary: bs)
  case 0
  then obtain x y r where "bs = x # y # r" by (cases bs; cases "tl bs") auto
  then show ?case by simp
next
  case (Suc k)
  then obtain x y r where bs: "bs = x # y # r" by (cases bs; cases "tl bs") auto
  then show ?case using Suc.IH [of r] Suc.prems by simp
qed

lemma one_word_changes_sum:
  fixes s s' v v' :: nat
  assumes "s' + v = s + v'" "65535 dvd s" "v < 65536" "v' < 65536" "v \<noteq> v'" "\<not> (v mod 65535 = 0 \<and> v' mod 65535 = 0)"
  shows "\<not> 65535 dvd s'"
proof
  assume "65535 dvd s'"
  then have "(s' + v) mod 65535 = v mod 65535" "(s + v') mod 65535 = v' mod 65535" using assms(2) by (auto elim!: dvdE)
  then have m: "v mod 65535 = v' mod 65535" using assms(1) by simp
  show False
  proof (cases "v = 65535 \<or> v' = 65535")
    case True
    then show ?thesis using m assms(6) by auto
  next
    case False
    then have "v < 65535" "v' < 65535" using assms(3,4) by auto
    then show ?thesis using m assms(5) by simp
  qed
qed

lemma take_two: "i + 2 \<le> length m \<Longrightarrow> take 2 (drop i m) = [m ! i, m ! (i + 1)]"
  by (simp add: numeral_2_eq_2 take_Suc_conv_app_nth)

lemma base256: "y < 256 \<Longrightarrow> c < 256 \<Longrightarrow> 256 * x + y = 256 * b + c \<longleftrightarrow> x = b \<and> y = c" for x y b c :: nat
proof (safe)
  assume y: "y < 256" "c < 256" and e: "256 * x + y = 256 * b + c"
  have "(256 * x + y) div 256 = x" "(256 * b + c) div 256 = b" using y by simp_all
  then show "x = b" using e by simp
  then show "y = c" using e by simp
qed

lemma word_value:
  fixes x y b c :: u8
  shows "256 * unat x + unat y = 256 * unat b + unat c \<longleftrightarrow> x = b \<and> y = c"
    and "(256 * unat x + unat y) mod 65535 = 0 \<longleftrightarrow> x = y \<and> x \<in> {0, 255}"
    and "256 * unat x + unat y < 65536"
proof -
  note lt = unat_byte [of x] unat_byte [of y] unat_byte [of b] unat_byte [of c]
  have "256 * unat x + unat y = 256 * unat b + unat c \<longleftrightarrow> unat x = unat b \<and> unat y = unat c" using lt by (intro base256)
  then show "256 * unat x + unat y = 256 * unat b + unat c \<longleftrightarrow> x = b \<and> y = c" by (simp add: word_unat_eq_iff)
  have "unat (255 :: u8) = 255" by simp
  moreover have "(256 * unat x + unat y) mod 65535 = 0 \<longleftrightarrow> unat x = 0 \<and> unat y = 0 \<or> unat x = 255 \<and> unat y = 255"
  proof -
    define v where "v = 256 * unat x + unat y"
    have "v < 65536" using lt by (simp add: v_def)
    then have "v mod 65535 = 0 \<longleftrightarrow> v = 0 \<or> v = 65535" by (cases "v = 65535") auto
    also have "v = 0 \<longleftrightarrow> unat x = 0 \<and> unat y = 0" by (simp add: v_def)
    also have "v = 65535 \<longleftrightarrow> unat x = 255 \<and> unat y = 255" using lt(1,2) unfolding v_def by presburger
    finally show ?thesis unfolding v_def .
  qed
  ultimately show "(256 * unat x + unat y) mod 65535 = 0 \<longleftrightarrow> x = y \<and> x \<in> {0, 255}" by (auto simp: word_unat_eq_iff)
  show "256 * unat x + unat y < 65536" using lt by simp
qed

lemma accepted_plain:
  assumes "ihl (mem ! 0) = 5" "48 \<le> length mem"
  shows "accepted mem \<longleftrightarrow> mem ! 9 = 17 \<and> be_nat [mem ! 24, mem ! 25] = length mem - 20 \<and>
    (mem ! 26 = 0 \<and> mem ! 27 = 0 \<or> checksum_right mem 20)"
proof -
  have "take 2 (drop 24 mem) = [mem ! 24, mem ! 25]" "take 2 (drop 26 mem) = [mem ! 26, mem ! 27]"
    using assms(2) take_two [of 24 mem] take_two [of 26 mem] by simp_all
  moreover have "le_nat [mem ! 26, mem ! 27] = 0 \<longleftrightarrow> mem ! 26 = 0 \<and> mem ! 27 = 0" by (simp add: unat_eq_0)
  ultimately show ?thesis using assms unfolding accepted_def Let_def by (simp del: be_nat.simps le_nat.simps)
qed

lemma checksum_right_change:
  assumes "20 \<le> length mem" "2 * k + 1 < length mem - 20" "checksum_right mem 20"
    "mem' = mem[20 + 2 * k := b, 21 + 2 * k := c]" "mem' \<noteq> mem"
    "\<not> (mem ! (20 + 2 * k) = mem ! (21 + 2 * k) \<and> mem ! (20 + 2 * k) \<in> {0, 255} \<and> b = c \<and> b \<in> {0, 255})"
  shows "\<not> checksum_right mem' 20"
proof -
  define P where "P = take 20 mem"
  define D where "D = drop 20 mem"
  have mem: "mem = P @ D" "length P = 20" "length D = length mem - 20" using assms(1) by (simp_all add: P_def D_def)
  let ?D = "D[2 * k := b, 2 * k + 1 := c]"
  have mem': "mem' = P @ ?D" unfolding assms(4) using mem(1,2) by (simp add: list_update_append)
  let ?ph = "pseudo_header mem (length mem - 20)"
  have ph: "pseudo_header mem' (length mem' - 20) = ?ph" using mem mem' by (simp add: pseudo_header_def)
  have ev: "even (length ?ph)" using assms(1) by (simp add: pseudo_header_def be_bytes_def)
  have x: "mem ! (20 + 2 * k) = D ! (2 * k)" "mem ! (21 + 2 * k) = D ! (2 * k + 1)" using mem(1,2) by (simp_all add: nth_append)
  have "be_sum (?ph @ ?D) + (256 * unat (D ! (2 * k)) + unat (D ! (2 * k + 1))) = be_sum (?ph @ D) + (256 * unat b + unat c)"
    using be_sum_update [of k D b c] assms(2) mem(3) be_sum_append [OF ev] by simp
  moreover have "65535 dvd be_sum (?ph @ D)" using assms(3) by (simp add: checksum_right_def D_def)
  moreover have "256 * unat (D ! (2 * k)) + unat (D ! (2 * k + 1)) \<noteq> 256 * unat b + unat c"
  proof
    assume "256 * unat (D ! (2 * k)) + unat (D ! (2 * k + 1)) = 256 * unat b + unat c"
    then have "b = D ! (2 * k)" "c = D ! (2 * k + 1)" by (simp_all add: word_value(1))
    then have "?D = D" by simp
    then show False using mem(1) mem' assms(5) by simp
  qed
  moreover have "\<not> ((256 * unat (D ! (2 * k)) + unat (D ! (2 * k + 1))) mod 65535 = 0 \<and> (256 * unat b + unat c) mod 65535 = 0)"
    unfolding word_value(2) using assms(6) x by auto
  ultimately have "\<not> 65535 dvd be_sum (?ph @ ?D)"
    using one_word_changes_sum [of "be_sum (?ph @ ?D)" _ "be_sum (?ph @ D)"] word_value(3) by blast
  moreover have "drop 20 mem' = ?D" using mem' mem(2) by simp
  ultimately show ?thesis unfolding checksum_right_def ph by simp
qed

text \<open>
  C23: if a frame without IP options is accepted with a checksum, then after any change of one aligned 16-bit word of its
  datagram, other than one that exchanges 0 and 65535, that alters the length or that erases the checksum, the frame is refused.
\<close>

theorem corrupted_word_refused:
  fixes mem :: "u8 list" and flen :: u16
  assumes "unat flen = length mem" "accepted mem" "ihl (mem ! 0) = 5" "mem ! 26 \<noteq> 0 \<or> mem ! 27 \<noteq> 0"
    and k: "2 * k + 1 < length mem - 20" "k \<noteq> 2"
    and change: "mem' = mem[20 + 2 * k := b, 21 + 2 * k := c]" "mem' \<noteq> mem" "k = 3 \<longrightarrow> b \<noteq> 0 \<or> c \<noteq> 0"
      "\<not> (mem ! (20 + 2 * k) = mem ! (21 + 2 * k) \<and> mem ! (20 + 2 * k) \<in> {0, 255} \<and> b = c \<and> b \<in> {0, 255})"
  shows "\<exists>out. sanity_check_packet_frame (Some mem') flen = Some (out, - 1)"
proof -
  have len: "48 \<le> length mem" "length mem' = length mem" using assms(2,3) change(1) by (simp_all add: accepted_def Let_def)
  have same: "mem' ! i = mem ! i" if "i \<noteq> 20 + 2 * k" "i \<noteq> 21 + 2 * k" for i using that by (simp add: change(1))
  have "checksum_right mem 20" using assms(2,4) accepted_plain [OF assms(3) len(1)] by auto
  then have "\<not> checksum_right mem' 20" using checksum_right_change [OF _ k(1) _ change(1,2,4)] len(1) by simp
  moreover have "mem' ! 26 \<noteq> 0 \<or> mem' ! 27 \<noteq> 0"
  proof (cases "k = 3")
    case True
    then have "mem' ! 26 = b" "mem' ! 27 = c" using k(1) by (simp_all add: change(1))
    then show ?thesis using True change(3) by simp
  next
    case False
    then have "26 \<noteq> 20 + 2 * k" "26 \<noteq> 21 + 2 * k" "27 \<noteq> 20 + 2 * k" "27 \<noteq> 21 + 2 * k" by presburger+
    then have "mem' ! 26 = mem ! 26" "mem' ! 27 = mem ! 27" using same [of 26] same [of 27] by blast+
    then show ?thesis using assms(4) by simp
  qed
  ultimately have "\<not> accepted mem'" using accepted_plain [of mem'] assms(3) same [of 0] len by (simp del: be_nat.simps)
  then show ?thesis using sanity_check_frame [of flen mem'] assms(1) len(2) by auto
qed

text \<open>The sample with the right checksum.\<close>

definition sample_frame :: "u8 list" where
  "sample_frame = req_data[26 := 0xb9, 27 := 0x92]"

lemma sample_frame_accepted: "accepted sample_frame" "ihl (sample_frame ! 0) = 5" "length sample_frame = 68"
proof -
  show i: "ihl (sample_frame ! 0) = 5" and l: "length sample_frame = 68" by (simp_all add: sample_frame_def req_data_def ihl_def)
  have "length sample_frame - 20 = 48" "take 4 (drop 12 sample_frame) = [5, 3, 0x19, 2]" "take 4 (drop 16 sample_frame) = [5, 3, 0x19, 2]"
    by (simp_all add: sample_frame_def req_data_def)
  moreover have "be_bytes 2 48 = [0, 48]" by (simp add: be_bytes_def numeral_2_eq_2)
  ultimately have p: "pseudo_header sample_frame (length sample_frame - 20) = [5, 3, 0x19, 2, 5, 3, 0x19, 2, 0, 17, 0, 48]"
    by (simp add: pseudo_header_def)
  have d: "be_sum (drop 20 sample_frame) = 574380" by (simp add: sample_frame_def req_data_def)
  have "be_sum (pseudo_header sample_frame (length sample_frame - 20) @ drop 20 sample_frame) = 9 * 65535"
    unfolding p using be_sum_append [of "[5, 3, 0x19, 2, 5, 3, 0x19, 2, 0, 17, 0, 48]" "drop 20 sample_frame"] d by simp
  then have "checksum_right sample_frame 20" unfolding checksum_right_def by (metis dvd_triv_right)
  moreover have "sample_frame ! 9 = 17" "be_nat [sample_frame ! 24, sample_frame ! 25] = 48" by (simp_all add: sample_frame_def req_data_def)
  ultimately show "accepted sample_frame" using accepted_plain [OF i] l by (simp del: be_nat.simps)
qed

lemma corrupted_word_refused_witness:
  "\<exists>out. sanity_check_packet_frame (Some (sample_frame[30 := 0, 31 := 0x15])) 68 = Some (out, - 1)"
proof -
  have "unat (68 :: u16) = length sample_frame" "2 * 5 + 1 < length sample_frame - 20" by (simp_all add: sample_frame_accepted(3))
  moreover have "sample_frame ! 26 \<noteq> 0 \<or> sample_frame ! 27 \<noteq> 0" "sample_frame ! 31 = 0x14" by (simp_all add: sample_frame_def req_data_def)
  moreover from this(2) have "sample_frame[30 := 0, 31 := 0x15] \<noteq> sample_frame"
  proof -
    assume "sample_frame ! 31 = 0x14"
    moreover have "sample_frame[30 := 0, 31 := 0x15] ! 31 = 0x15" by (simp add: sample_frame_accepted(3))
    ultimately show ?thesis by auto
  qed
  ultimately show ?thesis
    using corrupted_word_refused [where flen = 68 and mem = sample_frame and k = 5 and b = 0 and c = "0x15", OF _ _ _ _ _ _ refl]
      sample_frame_accepted by simp
qed

section \<open>The packet printer\<close>

lemma sniff_packet_safe:
  assumes "n \<le> int (length buffer)"
  shows "sniff_packet errno buffer n \<noteq> None"
proof (cases "n < 42")
  case True
  then show ?thesis by (simp add: sniff_packet_def)
next
  case False
  have texts: "i + 6 \<le> length buffer \<Longrightarrow> \<exists>t. mac_text s buffer i = Some t"
    "i + 4 \<le> length buffer \<Longrightarrow> \<exists>t. host_text s buffer i = Some t" for i s
    by (simp_all add: mac_text_def host_text_def rd_bytes_def)
  have l: "42 \<le> length buffer" using False assms by linarith
  then obtain m1 m2 h1 h2 where t: "mac_text ''Source MAC address: '' buffer 0 = Some m1"
    "mac_text ''Destination MAC address: '' buffer 6 = Some m2" "host_text ''Source host '' buffer 26 = Some h1"
    "host_text ''Dest host '' buffer 30 = Some h2"
    using texts [of 0] texts [of 6] texts [of 26] texts [of 30] by fastforce
  obtain p1 p2 where p: "rd_bytes buffer 34 2 = Some p1" "rd_bytes buffer 36 2 = Some p2" using l by (simp add: rd_bytes_def)
  obtain v proto where v: "rd buffer 14 = Some v" "rd buffer 23 = Some proto" using l by (simp add: rd_def)
  obtain s where s: "dump_raw (drop 42 buffer) (nat n - 42) = Some s"
  proof -
    have "nat n - 42 \<le> length buffer - 42" using assms by linarith
    then obtain t where "raw_loop (drop 42 buffer) 0 (nat n - 42) = Some t"
      using raw_loop_defined [of 0 "nat n - 42" "drop 42 buffer"] by auto
    then show thesis by (intro that) (simp add: dump_raw_def)
  qed
  show ?thesis using False unfolding sniff_packet_def Let_def t p v s option.map Option.bind.simps by (auto simp del: append.simps)
qed

lemma sniff_loop_safe:
  "\<forall>d e. (Some d, e) \<in> set rs \<longrightarrow> length d \<le> length buffer \<Longrightarrow> sniff_loop buffer rs \<noteq> None"
proof (induction rs arbitrary: buffer)
  case (Cons re rs)
  obtain r errno where re: "re = (r, errno)" by (cases re)
  define buf where "buf = (case r of Some d \<Rightarrow> d @ drop (length d) buffer | None \<Rightarrow> buffer)"
  define n where "n = (case r of Some d \<Rightarrow> int (length d) | None \<Rightarrow> - 1)"
  have l: "length buf = length buffer" "n \<le> int (length buf)" using Cons.prems by (auto simp: buf_def n_def re split: option.splits)
  then obtain out go where o: "sniff_packet errno buf n = Some (out, go)" using sniff_packet_safe by fastforce
  have "sniff_loop buf rs \<noteq> None" using Cons.IH [of buf] Cons.prems l(1) by auto
  then show ?case using o by (cases r) (auto simp: buf_def n_def re)
qed simp

end
