(* ===== verification/NlAddr.thy ===== *)
theory NlAddr
  imports RouteTable
begin

text \<open>
  The listing of the addresses of the interfaces, \<open>src/nl_addr_get.c\<close>: the names of message types and flags, the receive
  loop, the report of each address and the program.  The results of the receive calls and the kernel's \<open>RTM_MAX\<close> are
  arguments; what is sent and what is printed are results.  \<open>None\<close> is an access outside the buffer.
\<close>

section \<open>Names\<close>

definition eol :: string where
  "eol = [CHR 0x0A]"

definition tab :: string where
  "tab = [CHR 0x09]"

definition nlmsg_type_table :: "nat \<Rightarrow> (nat \<times> string) list" where
  "nlmsg_type_table rtm_max =
     [(1, ''NLMSG_NOOP''), (2, ''NLMSG_ERROR''), (3, ''NLMSG_DONE''), (4, ''NLMSG_OVERRUN''),
      (16, ''RTM_NEWLINK''), (17, ''RTM_DELLINK''), (18, ''RTM_GETLINK''),
      (20, ''RTM_NEWADDR''), (21, ''RTM_DELADDR''), (22, ''RTM_GETADDR''),
      (24, ''RTM_NEWROUTE''), (25, ''RTM_DELROUTE''), (26, ''RTM_GETROUTE''),
      (28, ''RTM_NEWNEIGH''), (29, ''RTM_DELNEIGH''), (30, ''RTM_GETNEIGH''),
      (32, ''RTM_NEWRULE''), (33, ''RTM_DELRULE''), (34, ''RTM_GETRULE''),
      (36, ''RTM_NEWQDISC''), (37, ''RTM_DELQDISC''), (38, ''RTM_GETQDISC''),
      (40, ''RTM_NEWTCLASS''), (41, ''RTM_DELTCLASS''), (42, ''RTM_GETTCLASS''),
      (44, ''RTM_NEWTFILTER''), (45, ''RTM_DELTFILTER''), (46, ''RTM_GETTFILTER''),
      (rtm_max, ''RTM_MAX'')]"

definition lookup_nlmsg_type :: "nat \<Rightarrow> nat \<Rightarrow> string" where
  "lookup_nlmsg_type rtm_max type =
     (case find (\<lambda>e. fst e = type) (nlmsg_type_table rtm_max) of Some e \<Rightarrow> snd e | None \<Rightarrow> ''unknown nlmsg_type'')"

definition nlmsg_flags_table :: "(u16 \<times> string) list" where
  "nlmsg_flags_table =
     [(0x1, ''NLM_F_REQUEST''), (0x2, ''NLM_F_MULTI''), (0x4, ''NLM_F_ACK''), (0x8, ''NLM_F_ECHO''),
      (0x100, ''NLM_F_ROOT''), (0x200, ''NLM_F_MATCH''), (0x400, ''NLM_F_ATOMIC''),
      (0x100, ''NLM_F_REPLACE''), (0x200, ''NLM_F_EXCL''), (0x400, ''NLM_F_CREATE''), (0x800, ''NLM_F_APPEND'')]"

text \<open>The loop over the flags that are still set: the text and the flags left.\<close>

lemma clear_bits_less: "f AND x \<noteq> 0 \<Longrightarrow> unat (x AND NOT f) < unat (x :: u16)"
proof -
  assume f: "f AND x \<noteq> 0"
  have "x AND NOT f \<noteq> x"
  proof
    assume "x AND NOT f = x"
    then have "f AND x = f AND (x AND NOT f)" by simp
    also have "\<dots> = 0" by (rule bit_word_eqI) (auto simp: bit_simps)
    finally show False using f by simp
  qed
  moreover have "x AND NOT f \<le> x" by (rule word_and_le2)
  ultimately have "x AND NOT f < x" by (rule order_neq_le_trans)
  then show ?thesis by (simp add: word_less_nat_alt)
qed

function flags_loop :: "(u16 \<times> string) list \<Rightarrow> u16 \<Rightarrow> string \<times> u16" where
  "flags_loop table flags =
     (if flags = 0 then ([], flags)
      else case find (\<lambda>e. fst e AND flags \<noteq> 0) table of
             None \<Rightarrow> ([], flags)
           | Some e \<Rightarrow> (let (s, r) = flags_loop table (flags AND NOT (fst e)) in (snd e @ '' '' @ s, r)))"
  by pat_completeness auto
termination
  by (relation "measure (\<lambda>(table, flags). unat flags)") (auto simp: find_Some_iff intro: clear_bits_less)

declare flags_loop.simps [simp del]

definition print_nlmsg_flags :: "u16 \<Rightarrow> string \<times> u16" where
  "print_nlmsg_flags flags =
     (let (s, r) = flags_loop nlmsg_flags_table flags
      in (s @ (if r \<noteq> 0 then ''mystery flags 0x'' @ hex (unat r) else []), r))"

section \<open>Receiving\<close>

definition head_text :: "nat \<Rightarrow> nat \<Rightarrow> nat \<Rightarrow> string" where
  "head_text rtm_max type flags =
     ''nlmsg_type = '' @ dec type @ '' '' @ lookup_nlmsg_type rtm_max type @ eol @
     ''nlmsg_flags = 0x'' @ hex flags @ '' '' @ fst (print_nlmsg_flags (of_nat flags)) @ eol"

text \<open>
  Each datagram is put behind the ones before, and its first message looked at; the loop ends at a message
  \<open>NLMSG_DONE\<close> or an error, as \<open>flag\<close> is set nowhere else.  The result is what was printed, and the
  buffer and the value returned unless the program waits.
\<close>

fun readSock :: "nat \<Rightarrow> reply list \<Rightarrow> u8 list \<Rightarrow> nat \<Rightarrow> string \<Rightarrow> (string \<times> (u8 list \<times> int) option) option" where
  "readSock rtm_max [] buf msgLen out = Some (out, None)"
| "readSock rtm_max (Recv_error # rs) buf msgLen out = Some (out, Some (buf, - 1))"
| "readSock rtm_max (Recv d # rs) buf msgLen out = do {
     let d = take (8192 - msgLen) d;
     buf \<leftarrow> wr_bytes buf msgLen d;
     ok \<leftarrow> NLMSG_OK buf msgLen (int (length d));
     case ok of
       None \<Rightarrow> Some (out, Some (buf, - 1))
     | Some l \<Rightarrow> do {
         type \<leftarrow> nlmsg_type buf msgLen;
         if type = NLMSG_ERROR then Some (out, Some (buf, - 1))
         else do {
           flags \<leftarrow> rd_le buf (msgLen + 6) 2;
           let out = out @ head_text rtm_max type flags;
           if type = NLMSG_DONE then Some (out, Some (buf, int msgLen))
           else readSock rtm_max rs buf (msgLen + length d) out } } }"

section \<open>The report of an address\<close>

definition IFA_ADDRESS :: nat where "IFA_ADDRESS = 1"
definition IFA_LOCAL :: nat where "IFA_LOCAL = 2"
definition IFA_LABEL :: nat where "IFA_LABEL = 3"
definition IFA_BROADCAST :: nat where "IFA_BROADCAST = 4"

text \<open>The flags with a name, in the order of the tests.\<close>

definition ifa_flags_text :: "u8 \<Rightarrow> string" where
  "ifa_flags_text flags =
     (let (s, flags) = (if flags AND 0x01 \<noteq> 0 then (''IFA_F_SECONDARY, '', flags AND NOT 0x01) else ([], flags));
          (s, flags) = (if flags AND 0x20 \<noteq> 0 then (s @ ''IFA_F_DEPRECATED, '', flags AND NOT 0x20) else (s, flags));
          (s, flags) = (if flags AND 0x40 \<noteq> 0 then (s @ ''IFA_F_TENTATIVE, '', flags AND NOT 0x40) else (s, flags));
          (s, flags) = (if flags AND 0x80 \<noteq> 0 then (s @ ''IFA_F_PERMANENT, '', flags AND NOT 0x80) else (s, flags))
      in s @ ''mystery flags 0x'' @ hex (unat flags) @ eol)"

definition scope_text :: "nat \<Rightarrow> string" where
  "scope_text scope =
     (if scope = 0 then ''RT_SCOPE_UNIVERSE'' else if scope = 200 then ''RT_SCOPE_SITE'' else if scope = 253 then ''RT_SCOPE_LINK''
      else if scope = 254 then ''RT_SCOPE_HOST'' else if scope = 255 then ''RT_SCOPE_NOWHERE'' else ''mystery scope'') @ eol"

definition ifaddr_head :: "nat \<Rightarrow> nat \<Rightarrow> nat \<Rightarrow> nat \<Rightarrow> nat \<Rightarrow> string" where
  "ifaddr_head family prefixlen flags scope index =
     replicate 45 (CHR ''='') @ eol @ ''ifaddrmsg:ifa_family '' @ dec family @ eol @
     tab @ (if family = 2 then ''AF_INET'' else ''mystery family'') @ eol @
     ''ifaddrmsg:ifa_prefixlen '' @ dec prefixlen @ eol @
     ''ifaddrmsg:ifa_flags 0x'' @ hex flags @ eol @ tab @ ifa_flags_text (of_nat flags) @
     ''ifaddrmsg:ifa_scope '' @ dec scope @ eol @ tab @ scope_text scope @
     ''ifaddrmsg:ifa_index '' @ fmt_d (of_nat index) @ eol"

definition char_of_byte :: "u8 \<Rightarrow> char" where
  "char_of_byte b = char_of (unat b)"

definition ifa_attr :: "u8 list \<Rightarrow> nat \<Rightarrow> string option" where
  "ifa_attr buf rta = do {
     type \<leftarrow> rd_le buf (rta + 2) 2;
     s \<leftarrow> (if type = IFA_ADDRESS then do { a \<leftarrow> rd_bytes buf (rta + 4) 4; Some (''IFA_ADDRESS: '' @ inet_ntop a) }
          else if type = IFA_LABEL then do { c \<leftarrow> c_string buf (rta + 4); Some (''IFA_LABEL: '' @ map char_of_byte c) }
          else if type = IFA_BROADCAST then do { a \<leftarrow> rd_bytes buf (rta + 4) 4; Some (''IFA_BROADCAST: '' @ inet_ntop a) }
          else if type = IFA_LOCAL then do { a \<leftarrow> rd_bytes buf (rta + 4) 4; Some (''IFA_LOCAL: '' @ inet_ntop a) }
          else Some []);
     Some (''rta_type '' @ dec type @ '':'' @ s @ eol) }"

function ifa_attrs :: "u8 list \<Rightarrow> nat \<Rightarrow> int \<Rightarrow> string \<Rightarrow> string option" where
  "ifa_attrs buf rta len out = do {
     ok \<leftarrow> RTA_OK buf rta len;
     case ok of
       None \<Rightarrow> Some out
     | Some l \<Rightarrow> do { s \<leftarrow> ifa_attr buf rta; ifa_attrs buf (rta + RTA_ALIGN l) (len - int (RTA_ALIGN l)) (out @ s) } }"
  by pat_completeness auto
termination
  by (relation "measure (\<lambda>(buf, rta, len, out). nat len)")
    (auto simp: RTA_OK_def RTA_ALIGN_def bind_Some_iff split: if_splits)

declare ifa_attrs.simps [simp del]

text \<open>The report of the message at \<open>h\<close>, whose length field is \<open>len\<close>.\<close>

definition parseIfAddr :: "u8 list \<Rightarrow> nat \<Rightarrow> nat \<Rightarrow> string option" where
  "parseIfAddr buf h len = do {
     family \<leftarrow> rd_le buf (h + 16) 1;
     prefixlen \<leftarrow> rd_le buf (h + 17) 1;
     flags \<leftarrow> rd_le buf (h + 18) 1;
     scope \<leftarrow> rd_le buf (h + 19) 1;
     index \<leftarrow> rd_le buf (h + 20) 4;
     ifa_attrs buf (h + 24) (int len - 24) (ifaddr_head family prefixlen flags scope index) }"

section \<open>The program\<close>

function if_addr_msgs :: "u8 list \<Rightarrow> nat \<Rightarrow> int \<Rightarrow> string \<Rightarrow> string option" where
  "if_addr_msgs buf h len out = do {
     ok \<leftarrow> NLMSG_OK buf h len;
     case ok of
       None \<Rightarrow> Some out
     | Some l \<Rightarrow> do { s \<leftarrow> parseIfAddr buf h l; if_addr_msgs buf (h + RTA_ALIGN l) (len - int (RTA_ALIGN l)) (out @ s) } }"
  by pat_completeness auto
termination
  by (relation "measure (\<lambda>(buf, h, len, out). nat len)")
    (auto simp: NLMSG_OK_def RTA_ALIGN_def bind_Some_iff split: if_splits)

declare if_addr_msgs.simps [simp del]

definition addr_request :: "nat \<Rightarrow> u8 list" where
  "addr_request pid = nlmsghdr (16 + 8) 22 (0x100 + 1) 0 pid @ replicate (8192 - 16) 0"

text \<open>What is sent, what is printed, and the status unless the program waits; \<open>written\<close> tells whether the write succeeds.\<close>

definition nl_addr_main :: "nat \<Rightarrow> nat \<Rightarrow> bool \<Rightarrow> reply list \<Rightarrow> (u8 list \<times> string \<times> int option) option" where
  "nl_addr_main rtm_max pid written rs = do {
     let msgBuf = addr_request pid;
     sent \<leftarrow> send_request msgBuf;
     if \<not> written then Some (sent, ''Write To Socket Failed...'' @ eol, Some (- 1))
     else do {
       (out, r) \<leftarrow> readSock rtm_max rs msgBuf 0 [];
       case r of
         None \<Rightarrow> Some (sent, out, None)
       | Some (buf, len) \<Rightarrow>
           if len < 0 then Some (sent, out @ ''Read From Socket Failed...'' @ eol, Some (- 1))
           else do { out \<leftarrow> if_addr_msgs buf 0 len out; Some (sent, out, Some 0) } } }"

section \<open>The flags\<close>

text \<open>One pass over a table: each entry that matches what is left is named and cleared.\<close>

fun name_flags :: "(u16 \<times> string) list \<Rightarrow> u16 \<Rightarrow> string \<times> u16" where
  "name_flags [] flags = ([], flags)"
| "name_flags (e # es) flags =
     (if fst e AND flags \<noteq> 0 then (let (s, r) = name_flags es (flags AND NOT (fst e)) in (snd e @ '' '' @ s, r))
      else name_flags es flags)"

lemma cleared_stays: "f AND flags = 0 \<Longrightarrow> f AND (flags AND NOT g) = (0 :: u16)"
  by (simp flip: and.assoc)

lemma name_flags_zero: "name_flags es 0 = ([], 0)"
  by (induction es) simp_all

lemma flags_loop_name_flags:
  "\<forall>e \<in> set pre. fst e AND flags = 0 \<Longrightarrow> flags_loop (pre @ es) flags = name_flags es flags"
proof (induction es arbitrary: pre flags)
  case Nil
  then have "find (\<lambda>e. fst e AND flags \<noteq> 0) pre = None" unfolding find_None_iff by blast
  then show ?case by (subst flags_loop.simps) simp
next
  case (Cons e es)
  show ?case
  proof (cases "fst e AND flags = 0")
    case True
    then show ?thesis using Cons.IH [of "pre @ [e]" flags] Cons.prems by auto
  next
    case False
    have "find (\<lambda>e. fst e AND flags \<noteq> 0) (pre @ e # es) = Some e"
    proof -
      have "find (\<lambda>e. fst e AND flags \<noteq> 0) pre = None" using Cons.prems unfolding find_None_iff by blast
      then show ?thesis using False by (induction pre) (auto split: if_splits)
    qed
    moreover have "\<forall>x \<in> set (pre @ [e]). fst x AND (flags AND NOT (fst e)) = 0"
    proof
      fix x assume x: "x \<in> set (pre @ [e])"
      show "fst x AND (flags AND NOT (fst e)) = 0"
      proof (cases "x = e")
        case True
        then show ?thesis by (intro bit_word_eqI) (auto simp: bit_simps)
      next
        case f: False
        then have "fst x AND flags = 0" using x Cons.prems by auto
        then show ?thesis by (rule cleared_stays)
      qed
    qed
    then have "flags_loop (pre @ e # es) (flags AND NOT (fst e)) = name_flags es (flags AND NOT (fst e))"
      using Cons.IH [of "pre @ [e]"] by simp
    moreover have "flags \<noteq> 0" using False by auto
    ultimately show ?thesis using False by (subst flags_loop.simps) simp
  qed
qed

text \<open>The same with the flags cleared so far as a mask.\<close>

fun names_of :: "(u16 \<times> string) list \<Rightarrow> u16 \<Rightarrow> u16 \<Rightarrow> string" where
  "names_of [] m flags = []"
| "names_of (e # es) m flags =
     (if (fst e AND NOT m) AND flags \<noteq> 0 then snd e @ '' '' else []) @ names_of es (m OR fst e) flags"

fun all_flags :: "(u16 \<times> string) list \<Rightarrow> u16 \<Rightarrow> u16" where
  "all_flags [] m = m"
| "all_flags (e # es) m = all_flags es (m OR fst e)"

lemma name_flags_names_of: "name_flags es (flags AND NOT m) = (names_of es m flags, flags AND NOT (all_flags es m))"
proof (induction es arbitrary: m)
  case (Cons e es)
  have c: "fst e AND (flags AND NOT m) = (fst e AND NOT m) AND flags" by (simp add: ac_simps)
  show ?case
  proof (cases "(fst e AND NOT m) AND flags = 0")
    case True
    have "flags AND NOT m = flags AND NOT (m OR fst e)"
    proof (rule bit_word_eqI)
      fix i assume "i < LENGTH(16)"
      then have "\<not> bit ((fst e AND NOT m) AND flags) i" by (simp add: True)
      then show "bit (flags AND NOT m) i \<longleftrightarrow> bit (flags AND NOT (m OR fst e)) i"
        using \<open>i < LENGTH(16)\<close> by (auto simp: bit_simps)
    qed
    then show ?thesis using Cons.IH [of "m OR fst e"] True c by simp
  next
    case False
    have "(flags AND NOT m) AND NOT (fst e) = flags AND NOT (m OR fst e)" by (simp add: and.assoc)
    then have n: "name_flags es ((flags AND NOT m) AND NOT (fst e)) =
        (names_of es (m OR fst e) flags, flags AND NOT (all_flags es (m OR fst e)))"
      by (simp only: Cons.IH)
    show ?thesis using False by (simp only: name_flags.simps c n Let_def prod.case names_of.simps all_flags.simps) simp
  qed
qed simp

definition known_flags :: "(u16 \<times> string) list" where
  "known_flags =
     [(0x1, ''NLM_F_REQUEST''), (0x2, ''NLM_F_MULTI''), (0x4, ''NLM_F_ACK''), (0x8, ''NLM_F_ECHO''),
      (0x100, ''NLM_F_ROOT''), (0x200, ''NLM_F_MATCH''), (0x400, ''NLM_F_ATOMIC''), (0x800, ''NLM_F_APPEND'')]"

text \<open>Every set flag is named once; the second names of the values 0x100, 0x200 and 0x400 are never printed.\<close>

lemma print_nlmsg_flags_names:
  "print_nlmsg_flags flags =
     (let r = flags AND NOT 0xF0F;
          s = concat (map (\<lambda>e. if fst e AND flags \<noteq> 0 then snd e @ '' '' else []) known_flags)
      in (s @ (if r \<noteq> 0 then ''mystery flags 0x'' @ hex (unat r) else []), r))"
proof -
  have "flags_loop nlmsg_flags_table flags = name_flags nlmsg_flags_table (flags AND NOT 0)"
    using flags_loop_name_flags [of "[]" flags nlmsg_flags_table] by simp
  also have "\<dots> = (names_of nlmsg_flags_table 0 flags, flags AND NOT (all_flags nlmsg_flags_table 0))"
    by (rule name_flags_names_of)
  also have "all_flags nlmsg_flags_table 0 = 0xF0F" by (simp add: nlmsg_flags_table_def)
  also have "names_of nlmsg_flags_table 0 flags = concat (map (\<lambda>e. if fst e AND flags \<noteq> 0 then snd e @ '' '' else []) known_flags)"
    by (simp add: nlmsg_flags_table_def known_flags_def)
  finally show ?thesis by (simp add: print_nlmsg_flags_def Let_def)
qed

section \<open>The report of a message\<close>

text \<open>Family, prefix length, flags, scope, index and attributes.\<close>

type_synonym addr_info = "nat \<times> nat \<times> nat \<times> nat \<times> nat \<times> (nat \<times> u8 list) list"

definition ifa_addresses :: "nat set" where
  "ifa_addresses = {IFA_ADDRESS, IFA_LOCAL, IFA_BROADCAST}"

definition readable_attr :: "nat \<times> u8 list \<Rightarrow> bool" where
  "readable_attr a \<longleftrightarrow> (fst a \<in> ifa_addresses \<longrightarrow> 4 \<le> length (snd a)) \<and> (fst a = IFA_LABEL \<longrightarrow> 0 \<in> set (snd a))"

definition addr_msg :: "u8 list \<Rightarrow> addr_info \<Rightarrow> bool" where
  "addr_msg m = (\<lambda>(family, prefixlen, flags, scope, index, as).
     good_msg m \<and> length m = 24 + attrs_size as \<and> rd_le m 16 1 = Some family \<and> rd_le m 17 1 = Some prefixlen \<and>
     rd_le m 18 1 = Some flags \<and> rd_le m 19 1 = Some scope \<and> rd_le m 20 4 = Some index \<and> attrs_at m 24 as \<and>
     (\<forall>a \<in> set as. readable_attr a))"

definition attr_line :: "nat \<times> u8 list \<Rightarrow> string" where
  "attr_line a =
     ''rta_type '' @ dec (fst a) @ '':'' @
     (if fst a = IFA_ADDRESS then ''IFA_ADDRESS: '' @ inet_ntop (take 4 (snd a))
      else if fst a = IFA_LABEL then ''IFA_LABEL: '' @ map char_of_byte (takeWhile (\<lambda>b. b \<noteq> 0) (snd a))
      else if fst a = IFA_BROADCAST then ''IFA_BROADCAST: '' @ inet_ntop (take 4 (snd a))
      else if fst a = IFA_LOCAL then ''IFA_LOCAL: '' @ inet_ntop (take 4 (snd a)) else []) @ eol"

definition addr_report :: "addr_info \<Rightarrow> string" where
  "addr_report = (\<lambda>(family, prefixlen, flags, scope, index, as).
     ifaddr_head family prefixlen flags scope index @ concat (map attr_line as))"

lemmas IFA_defs = IFA_ADDRESS_def IFA_LOCAL_def IFA_LABEL_def IFA_BROADCAST_def

lemma c_string_payload:
  assumes "rd_bytes buf off (length d) = Some d" "0 \<in> set d"
  shows "c_string buf off = Some (takeWhile (\<lambda>b. b \<noteq> 0) d)"
proof -
  have "take (length d) (drop off buf) = d" using assms(1) by (simp add: rd_bytes_def split: if_splits)
  then obtain r where "drop off buf = d @ r" by (metis append_take_drop_id)
  then show ?thesis using assms(2) by (auto simp: c_string_def Let_def takeWhile_append1)
qed

lemma ifa_attr_line:
  assumes "rd_le buf (off + 2) 2 = Some t" "rd_bytes buf (off + 4) (length d) = Some d" "readable_attr (t, d)"
  shows "ifa_attr buf off = Some (attr_line (t, d))"
proof -
  have a: "rd_bytes buf (off + 4) 4 = Some (take 4 d)" if "t \<in> ifa_addresses"
    using rd_bytes_prefix [OF assms(2), of 4] assms(3) that by (simp add: readable_attr_def)
  have c: "c_string buf (off + 4) = Some (takeWhile (\<lambda>b. b \<noteq> 0) d)" if "t = IFA_LABEL"
    using c_string_payload [OF assms(2)] assms(3) that by (simp add: readable_attr_def)
  consider "t = IFA_ADDRESS" | "t = IFA_LABEL" | "t = IFA_BROADCAST" | "t = IFA_LOCAL"
    | "t \<notin> {IFA_ADDRESS, IFA_LABEL, IFA_BROADCAST, IFA_LOCAL}" by blast
  then show ?thesis
    by cases (use assms(1) a c in \<open>simp_all add: ifa_attr_def attr_line_def ifa_addresses_def IFA_defs\<close>)
qed

lemma ifa_attrs_lines:
  "attrs_at buf off as \<Longrightarrow> \<forall>a \<in> set as. readable_attr a \<Longrightarrow>
   ifa_attrs buf off (int (attrs_size as)) out = Some (out @ concat (map attr_line as))"
proof (induction as arbitrary: off out)
  case Nil
  then show ?case by (subst ifa_attrs.simps) (simp add: RTA_OK_def)
next
  case (Cons a as)
  obtain t d where a: "a = (t, d)" by fastforce
  have sz: "4 + length d \<le> attr_size (t, d)" by (rule attr_size_ge)
  have at: "rd_le buf off 2 = Some (4 + length d)" "rd_le buf (off + 2) 2 = Some t"
    "rd_bytes buf (off + 4) (length d) = Some d" "attrs_at buf (off + attr_size (t, d)) as"
    using Cons.prems(1) by (simp_all add: a attr_size_def)
  have ok: "RTA_OK buf off (int (attrs_size (a # as))) = Some (Some (4 + length d))"
    using at(1) sz by (simp add: RTA_OK_def a)
  have one: "ifa_attr buf off = Some (attr_line a)"
    using ifa_attr_line [OF at(2,3)] Cons.prems(2) by (simp add: a)
  have "int (attrs_size (a # as)) - int (RTA_ALIGN (4 + length d)) = int (attrs_size as)"
    by (simp add: a attr_size_def)
  moreover have "ifa_attrs buf (off + attr_size (t, d)) (int (attrs_size as)) (out @ attr_line a)
      = Some ((out @ attr_line a) @ concat (map attr_line as))"
    using Cons.prems(2) at(4) by (intro Cons.IH) simp_all
  ultimately show ?case using ok one by (subst ifa_attrs.simps) (simp add: attr_size_def)
qed

lemma parseIfAddr_report:
  assumes "addr_msg m info" "buf = pre @ m @ post"
  shows "parseIfAddr buf (length pre) (length m) = Some (addr_report info)"
proof -
  obtain family prefixlen flags scope index as where i: "info = (family, prefixlen, flags, scope, index, as)" by (cases info)
  have m: "length m = 24 + attrs_size as" "rd_le m 16 1 = Some family" "rd_le m 17 1 = Some prefixlen"
    "rd_le m 18 1 = Some flags" "rd_le m 19 1 = Some scope" "rd_le m 20 4 = Some index" "attrs_at m 24 as" "\<forall>a \<in> set as. readable_attr a"
    using assms(1) by (simp_all add: addr_msg_def i)
  have f: "rd_le buf (length pre + k) n = rd_le m k n" if "k + n \<le> length m" for k n
    unfolding assms(2) using that by (rule rd_le_shift)
  have "attrs_at buf (length pre + 24) as" unfolding assms(2) using m(1,7) by (intro attrs_at_shift) simp_all
  from ifa_attrs_lines [OF this m(8)] show ?thesis
    using m f [of 16 1] f [of 17 1] f [of 18 1] f [of 19 1] f [of 20 4] by (simp add: parseIfAddr_def addr_report_def i)
qed

lemma if_addr_msgs_reports:
  "list_all2 addr_msg ms infos \<Longrightarrow>
   if_addr_msgs (pre @ datagram ms @ post) (length pre) (int (length (datagram ms))) out = Some (out @ concat (map addr_report infos))"
proof (induction ms infos arbitrary: pre out rule: list_all2_induct)
  case Nil
  then show ?case by (subst if_addr_msgs.simps) (simp add: NLMSG_OK_def datagram_def)
next
  case (Cons m ms r rs)
  have m: "good_msg m" using Cons.hyps(1) by (cases r) (simp add: addr_msg_def)
  define b where "b = pre @ padded m @ datagram ms @ post"
  define p where "p = length pre"
  have dg: "datagram (m # ms) = padded m @ datagram ms" by (simp add: datagram_def)
  have buf: "b = pre @ m @ (replicate (RTA_ALIGN (length m) - length m) 0 @ datagram ms @ post)" by (simp add: b_def padded_def)
  have len: "length m \<le> length (padded m)" using RTA_ALIGN_bounds(1) [of "length m"] by (simp add: length_padded)
  have ok: "NLMSG_OK b p (int (length (datagram (m # ms)))) = Some (Some (length m))"
    using good_msg_fields(1) [OF m, of pre "datagram ms @ post"] m len
    by (simp add: NLMSG_OK_def b_def p_def dg good_msg_def)
  have one: "parseIfAddr b p (length m) = Some (addr_report r)" unfolding p_def by (rule parseIfAddr_report [OF Cons.hyps(1) buf])
  have "if_addr_msgs b p (int (length (datagram (m # ms)))) out =
      if_addr_msgs b (p + RTA_ALIGN (length m)) (int (length (datagram ms))) (out @ addr_report r)"
    using ok one by (subst if_addr_msgs.simps) (simp add: dg length_padded)
  also have "\<dots> = Some ((out @ addr_report r) @ concat (map addr_report rs))"
    using Cons.IH [of "pre @ padded m" "out @ addr_report r"] by (simp add: b_def p_def length_padded)
  finally show ?case by (simp add: b_def p_def dg)
qed

section \<open>The receive loop on a dump\<close>

definition flags_of :: "u8 list \<Rightarrow> nat" where
  "flags_of m = the (rd_le m 6 2)"

definition msg_head :: "nat \<Rightarrow> u8 list \<Rightarrow> string" where
  "msg_head rtm_max m = head_text rtm_max (type_of m) (flags_of m)"

lemma flags_of_field:
  assumes "good_msg m"
  shows "rd_le (pre @ padded m @ post) (length pre + 6) 2 = Some (flags_of m)"
proof -
  have "16 \<le> length m" using assms by (simp add: good_msg_def)
  moreover from this obtain f where "rd_le m 6 2 = Some f" using rd_le_in [of 6 2 m] by auto
  ultimately show ?thesis
    using rd_le_shift [of 6 2 m pre "replicate (RTA_ALIGN (length m) - length m) 0 @ post"] by (simp add: padded_def flags_of_def)
qed

text \<open>One datagram whose first message is no error.\<close>

lemma readSock_step:
  assumes "good_msg m" "type_of m \<noteq> NLMSG_ERROR" "length pre + length (datagram (m # ms)) \<le> 8192" "length pre + length post = 8192"
  defines "d \<equiv> datagram (m # ms)"
  defines "buf \<equiv> pre @ d @ drop (length d) post"
  shows "readSock rtm_max (Recv d # rs) (pre @ post) (length pre) out =
    (if type_of m = NLMSG_DONE then Some (out @ msg_head rtm_max m, Some (buf, int (length pre)))
     else readSock rtm_max rs buf (length (pre @ d)) (out @ msg_head rtm_max m))"
proof -
  have d: "d = padded m @ datagram ms" by (simp add: d_def datagram_def)
  have t: "take (8192 - length pre) d = d" using assms(3) by (simp add: d_def)
  have w: "wr_bytes (pre @ post) (length pre) d = Some buf" using assms(3,4) by (simp add: wr_bytes_def buf_def d_def)
  have len: "length m \<le> length (padded m)" "16 \<le> length m"
    using assms(1) RTA_ALIGN_bounds(1) [of "length m"] by (simp_all add: length_padded good_msg_def)
  have b: "buf = pre @ padded m @ (datagram ms @ drop (length d) post)" by (simp add: buf_def d)
  have "NLMSG_OK buf (length pre) (int (length d)) = Some (Some (length m))"
    using good_msg_fields(1) [OF assms(1), of pre "datagram ms @ drop (length d) post"] len by (simp add: NLMSG_OK_def b d)
  moreover have "nlmsg_type buf (length pre) = Some (type_of m)" unfolding b by (rule good_msg_fields(2) [OF assms(1)])
  moreover have "rd_le buf (length pre + 6) 2 = Some (flags_of m)" unfolding b by (rule flags_of_field [OF assms(1)])
  ultimately show ?thesis using t w assms(2) by (simp add: Let_def msg_head_def)
qed

lemma readSock_dump:
  assumes "\<forall>ms \<in> set dss. ms \<noteq> [] \<and> good_msg (hd ms) \<and> type_of (hd ms) \<noteq> NLMSG_ERROR \<and> type_of (hd ms) \<noteq> NLMSG_DONE"
    "good_msg e" "type_of e = NLMSG_DONE" "length pre + length (datagram (concat dss)) + length (datagram (e # rest)) \<le> 8192"
    "length pre + length post = 8192"
  shows "\<exists>junk. readSock rtm_max (map (Recv \<circ> datagram) dss @ Recv (datagram (e # rest)) # later) (pre @ post) (length pre) out =
    Some (out @ concat (map (msg_head rtm_max \<circ> hd) dss) @ msg_head rtm_max e,
      Some (pre @ datagram (concat dss) @ junk, int (length (pre @ datagram (concat dss)))))"
  using assms
proof (induction dss arbitrary: pre post out)
  case Nil
  have "NLMSG_DONE \<noteq> NLMSG_ERROR" by (simp add: NLMSG_DONE_def NLMSG_ERROR_def)
  then show ?case using readSock_step [of e pre rest post rtm_max later out] Nil.prems(2-5) by (simp add: datagram_def)
next
  case (Cons ms dss)
  obtain m ms' where ms: "ms = m # ms'" using Cons.prems(1) by (cases ms) auto
  have m: "good_msg m" "type_of m \<noteq> NLMSG_ERROR" "type_of m \<noteq> NLMSG_DONE" using Cons.prems(1) ms by auto
  let ?d = "datagram ms"
  let ?post = "drop (length ?d) post"
  have split: "datagram (concat (ms # dss)) = ?d @ datagram (concat dss)" by (simp add: datagram_def)
  have fits: "length pre + length ?d \<le> 8192" using Cons.prems(4) unfolding split by simp
  have "readSock rtm_max (Recv ?d # map (Recv \<circ> datagram) dss @ Recv (datagram (e # rest)) # later) (pre @ post) (length pre) out =
    readSock rtm_max (map (Recv \<circ> datagram) dss @ Recv (datagram (e # rest)) # later) ((pre @ ?d) @ ?post) (length (pre @ ?d)) (out @ msg_head rtm_max m)"
    using readSock_step [OF m(1,2), of pre ms' post] fits Cons.prems(5) m(3) by (simp add: ms)
  moreover have "\<exists>junk. readSock rtm_max (map (Recv \<circ> datagram) dss @ Recv (datagram (e # rest)) # later) ((pre @ ?d) @ ?post)
      (length (pre @ ?d)) (out @ msg_head rtm_max m) =
    Some ((out @ msg_head rtm_max m) @ concat (map (msg_head rtm_max \<circ> hd) dss) @ msg_head rtm_max e,
      Some ((pre @ ?d) @ datagram (concat dss) @ junk, int (length ((pre @ ?d) @ datagram (concat dss)))))"
  proof (rule Cons.IH)
    show "length (pre @ ?d) + length (datagram (concat dss)) + length (datagram (e # rest)) \<le> 8192"
      using Cons.prems(4) unfolding split by simp
    show "length (pre @ ?d) + length ?post = 8192" using fits Cons.prems(5) by simp
  qed (use Cons.prems in simp_all)
  ultimately show ?case using split ms by (simp add: comp_def del: readSock.simps)
qed


section \<open>The program on a dump\<close>

definition addr_sent :: "nat \<Rightarrow> u8 list" where
  "addr_sent pid = nlmsghdr 24 22 0x101 0 pid @ replicate 8 0"

lemma addr_request_split: "\<exists>z. addr_request pid = addr_sent pid @ z \<and> length (addr_request pid) = 8192"
proof -
  have l: "length (addr_request pid) = 8192" by (simp only: addr_request_def length_append length_replicate) (simp add: nlmsghdr_def)
  have n: "(8192 - 16 :: nat) = 8 + 8168" "(16 + 8 :: nat) = 24" "(0x100 + 1 :: nat) = 0x101" by simp_all
  have "addr_request pid = addr_sent pid @ replicate 8168 0"
    unfolding addr_request_def addr_sent_def n by (simp only: replicate_add append_assoc)
  with l show ?thesis by blast
qed

lemma addr_sent: "send_request (addr_request pid) = Some (addr_sent pid)"
proof -
  obtain z where z: "addr_request pid = addr_sent pid @ z" using addr_request_split by blast
  show ?thesis unfolding z
    by (rule send_request_prefix [of "nlmsghdr 24 22 0x101 0 pid" 12 _ 24]) (simp_all add: addr_sent_def nlmsghdr_def)
qed

text \<open>
  C25: when the kernel answers with datagrams of address messages and then \<open>NLMSG_DONE\<close>, at most 8192 bytes in all, the
  program sends its request, prints the head of the first message of each datagram, and then for every message in order
  the report of its address: the header, and a line for each attribute with its address or label.
\<close>

theorem nl_addr_reports:
  assumes "\<forall>ms \<in> set dss. ms \<noteq> [] \<and> type_of (hd ms) \<noteq> NLMSG_ERROR \<and> type_of (hd ms) \<noteq> NLMSG_DONE"
    "list_all2 addr_msg (concat dss) infos" "good_msg e" "type_of e = NLMSG_DONE"
    "length (datagram (concat dss)) + length (datagram (e # rest)) \<le> 8192"
  shows "nl_addr_main rtm_max pid True (map (Recv \<circ> datagram) dss @ Recv (datagram (e # rest)) # later) =
    Some (addr_sent pid, concat (map (msg_head rtm_max \<circ> hd) dss) @ msg_head rtm_max e @ concat (map addr_report infos), Some 0)"
proof -
  obtain z where z: "addr_request pid = addr_sent pid @ z" "length (addr_request pid) = 8192" using addr_request_split by blast
  have good: "\<forall>ms \<in> set dss. ms \<noteq> [] \<and> good_msg (hd ms) \<and> type_of (hd ms) \<noteq> NLMSG_ERROR \<and> type_of (hd ms) \<noteq> NLMSG_DONE"
  proof
    fix ms assume ms: "ms \<in> set dss"
    then have "hd ms \<in> set ms" using assms(1) by simp
    then have "hd ms \<in> set (concat dss)" using ms by auto
    then obtain info where "addr_msg (hd ms) info" using assms(2) by (metis list_all2_iff in_set_impl_in_set_zip1 case_prodD)
    then have "good_msg (hd ms)" by (cases info) (simp add: addr_msg_def)
    then show "ms \<noteq> [] \<and> good_msg (hd ms) \<and> type_of (hd ms) \<noteq> NLMSG_ERROR \<and> type_of (hd ms) \<noteq> NLMSG_DONE" using assms(1) ms by blast
  qed
  obtain junk where r: "readSock rtm_max (map (Recv \<circ> datagram) dss @ Recv (datagram (e # rest)) # later) (addr_request pid) 0 [] =
    Some (concat (map (msg_head rtm_max \<circ> hd) dss) @ msg_head rtm_max e, Some (datagram (concat dss) @ junk, int (length (datagram (concat dss)))))"
    using readSock_dump [OF good assms(3,4), of "[]" rest "addr_request pid" rtm_max later "[]"] assms(5) z(2) by auto
  have m: "if_addr_msgs (datagram (concat dss) @ junk) 0 (int (length (datagram (concat dss)))) out = Some (out @ concat (map addr_report infos))" for out
    using if_addr_msgs_reports [OF assms(2), of "[]" junk out] by simp
  show ?thesis by (simp add: nl_addr_main_def addr_sent r m Let_def)
qed

definition sample_addr :: "u8 list" where
  "sample_addr = nlmsghdr 40 20 2 0 0 @ [2, 8, 0x80, 254, 1, 0, 0, 0] @ [8, 0, 1, 0, 127, 0, 0, 1] @ [7, 0, 3, 0, 108, 111, 0, 0]"

definition sample_done :: "u8 list" where
  "sample_done = nlmsghdr 16 3 2 0 0"

lemma sample_addr_msg: "addr_msg sample_addr (2, 8, 0x80, 254, 1, [(IFA_ADDRESS, [127, 0, 0, 1]), (IFA_LABEL, [108, 111, 0])])"
  by code_simp

lemma sample_types: "type_of sample_addr = 20 \<and> good_msg sample_done \<and> type_of sample_done = NLMSG_DONE \<and>
    length (datagram [sample_addr]) + length (datagram [sample_done]) = 56"
  by code_simp

lemma nl_addr_reports_witness:
  "nl_addr_main 95 7 True [Recv (datagram [sample_addr]), Recv (datagram [sample_done])] =
    Some (addr_sent 7, msg_head 95 sample_addr @ msg_head 95 sample_done @
      addr_report (2, 8, 0x80, 254, 1, [(IFA_ADDRESS, [127, 0, 0, 1]), (IFA_LABEL, [108, 111, 0])]), Some 0)"
proof -
  have "list_all2 addr_msg (concat [[sample_addr]]) [(2, 8, 0x80, 254, 1, [(IFA_ADDRESS, [127, 0, 0, 1]), (IFA_LABEL, [108, 111, 0])])]"
    using sample_addr_msg by simp
  moreover have "\<forall>ms \<in> set [[sample_addr]]. ms \<noteq> [] \<and> type_of (hd ms) \<noteq> NLMSG_ERROR \<and> type_of (hd ms) \<noteq> NLMSG_DONE"
    using sample_types by (simp add: NLMSG_ERROR_def NLMSG_DONE_def)
  ultimately show ?thesis
    using nl_addr_reports [of "[[sample_addr]]" "[(2, 8, 0x80, 254, 1, [(IFA_ADDRESS, [127, 0, 0, 1]), (IFA_LABEL, [108, 111, 0])])]"
        sample_done "[]" 95 7 "[]"] sample_types by simp
qed

text \<open>The lines of the sample's attributes.\<close>

lemma sample_attr_lines:
  "map attr_line [(IFA_ADDRESS, [127, 0, 0, 1]), (IFA_LABEL, [108, 111, 0])] =
    [''rta_type 1:IFA_ADDRESS: 127.0.0.1'' @ eol, ''rta_type 3:IFA_LABEL: lo'' @ eol]"
  by code_simp

text \<open>A header that ends with the buffer: the program reads the service header behind it.\<close>

lemma parseIfAddr_overrun: "length buf < h + 17 \<Longrightarrow> parseIfAddr buf h 16 = None"
  by (simp add: parseIfAddr_def rd_le_def rd_bytes_def)

end
