(* ===== verification/StunServer.thy ===== *)
theory StunServer
  imports PacketCheck
begin

text \<open>
  The main program of the STUN server, \<open>src/ss_main_csumnotready.c\<close>: the callback that receives a request and keeps the
  statistics, and the start of the server.  The frame check, the request handler and the other modules are not in the
  repository: their results are arguments, and what is called is a result.  The width of the counters is declared there
  too, so the counters have any type with addition.
\<close>

section \<open>The statistics\<close>


datatype raw_packet_error =
    RAW_PACKET_OK
  | RAW_PACKET_ERR_INVALIDARGS
  | RAW_PACKET_ERR_REQTOOSHORTIP
  | RAW_PACKET_ERR_REQTOOSHORTUDP
  | RAW_PACKET_ERR_NOTUDP
  | RAW_PACKET_ERR_UDPHEADERTOOLARGE
  | RAW_PACKET_ERR_INVALIDUDPCHKSUM

section \<open>The callback\<close>

text \<open>Whether the kernel marked the checksum as not computed yet: the last message of the right kind decides.\<close>

definition SOL_PACKET :: int where "SOL_PACKET = 263"
definition PACKET_AUXDATA :: int where "PACKET_AUXDATA = 8"
definition TP_STATUS_CSUMNOTREADY :: u32 where "TP_STATUS_CSUMNOTREADY = 8"

record cmsg =
  cmsg_level :: int
  cmsg_type :: int
  tp_status :: u32

definition cmsg_nocsum :: "cmsg list \<Rightarrow> u32" where
  "cmsg_nocsum cs =
     fold (\<lambda>c nocsum. if cmsg_level c = SOL_PACKET \<and> cmsg_type c = PACKET_AUXDATA
                      then tp_status c AND TP_STATUS_CSUMNOTREADY else nocsum) cs 0"



text \<open>
  \<open>n - iphdrlen - udphdrlen\<close> is signed and is compared with an unsigned size, so it is compared as a 64-bit
  unsigned number.
\<close>

definition stun_hdr_missing :: "u64 \<Rightarrow> i64 \<Rightarrow> nat \<Rightarrow> bool" where
  "stun_hdr_missing stun_hdr n hl = (n - of_nat (hl * 4) - 8 < stun_hdr)"




section \<open>The start of the server\<close>








section \<open>What is counted\<close>

text \<open>A datagram cut to the buffer, the outcome of its check, and whether its STUN header is missing.\<close>

definition rx_check :: "nat \<Rightarrow> (u8 list \<Rightarrow> nat \<Rightarrow> raw_packet_error) \<Rightarrow> u8 list \<Rightarrow> raw_packet_error" where
  "rx_check bsize check d = (let d = take bsize d in check (d @ replicate (bsize - length d) 0) (length d))"

definition rx_short :: "nat \<Rightarrow> u64 \<Rightarrow> u8 list \<Rightarrow> bool" where
  "rx_short bsize stun_hdr d =
     (let d = take bsize d in stun_hdr_missing stun_hdr (of_nat (length d)) (ihl (hd (d @ replicate (bsize - length d) 0))))"









definition handled :: "nat \<Rightarrow> u64 \<Rightarrow> (u8 list \<Rightarrow> nat \<Rightarrow> raw_packet_error) \<Rightarrow> u8 list \<Rightarrow> bool" where
  "handled bsize stun_hdr check d \<longleftrightarrow> rx_check bsize check d = RAW_PACKET_OK \<and> \<not> rx_short bsize stun_hdr d"







text \<open>The length of a datagram that ends before its UDP header does is taken for a large one.\<close>

lemma stun_hdr_missing_value:
  assumes "n < 2 ^ 32" "hl \<le> 15" "unat stun_hdr < 2 ^ 32"
  shows "stun_hdr_missing stun_hdr (of_nat n) hl \<longleftrightarrow> hl * 4 + 8 \<le> n \<and> n - (hl * 4 + 8) < unat stun_hdr"
proof (cases "hl * 4 + 8 \<le> n")
  case True
  define k where "k = n - (hl * 4 + 8)"
  have "(of_nat n - of_nat (hl * 4) - 8 :: u64) = of_nat k" using True by (simp add: k_def of_nat_diff)
  then have "stun_hdr_missing stun_hdr (of_nat n) hl \<longleftrightarrow> of_nat k < stun_hdr" by (simp only: stun_hdr_missing_def)
  moreover have "unat (of_nat k :: u64) = k" using assms(1) by (simp add: k_def unat_of_nat)
  ultimately show ?thesis using True by (simp add: word_less_nat_alt k_def)
next
  case False
  define k where "k = hl * 4 + 8 - n"
  have k: "0 < k" "k \<le> 68" using False assms(2) by (auto simp: k_def)
  have "(of_nat n - of_nat (hl * 4) - 8 :: u64) = - of_nat k" using False by (simp add: k_def of_nat_diff)
  also have "\<dots> = of_nat (2 ^ 64 - k)"
  proof -
    have "2 ^ 64 - k + k = (2 ^ 64 :: nat)" using k by simp
    then have "(of_nat (2 ^ 64 - k) + of_nat k :: u64) = of_nat (2 ^ 64)" by (simp only: of_nat_add [symmetric])
    then have "of_nat (2 ^ 64 - k) + of_nat k = (0 :: u64)" by simp
    then show ?thesis by (metis add.commute eq_neg_iff_add_eq_0)
  qed
  finally have e: "(of_nat n - of_nat (hl * 4) - 8 :: u64) = of_nat (2 ^ 64 - k)" .
  define j where "j = 2 ^ 64 - k"
  have j: "j < 2 ^ 64" "2 ^ 32 \<le> j" using k by (simp_all add: j_def)
  then have "unat (of_nat j :: u64) = j" by (simp add: unat_of_nat)
  then have "\<not> (of_nat j :: u64) < stun_hdr" using assms(3) j(2) by (simp add: word_less_nat_alt)
  moreover have "stun_hdr_missing stun_hdr (of_nat n) hl \<longleftrightarrow> of_nat j < stun_hdr" by (simp only: stun_hdr_missing_def e j_def)
  ultimately show ?thesis using False by simp
qed

section \<open>The start of the server\<close>








section \<open>With the check of the packet test\<close>

text \<open>
  The check of \<open>test_packet.c\<close> in the place of the server's: the sample, whose checksum the kernel left to the hardware,
  is dropped although the control message says so, since \<open>nocsum\<close> is not used.
\<close>

definition test_check :: "u8 list \<Rightarrow> nat \<Rightarrow> raw_packet_error" where
  "test_check mem n =
     (case sanity_check_packet_frame (Some mem) (of_nat n) of
        Some (out, r) \<Rightarrow> if r = 0 then RAW_PACKET_OK else RAW_PACKET_ERR_INVALIDUDPCHKSUM
      | None \<Rightarrow> RAW_PACKET_ERR_INVALIDARGS)"

lemma test_check_accepted:
  assumes "n \<le> length mem" "n < 65536"
  shows "test_check mem n = RAW_PACKET_OK \<longleftrightarrow> accepted (take n mem)"
proof -
  have n: "unat (of_nat n :: u16) = n" using assms(2) by (simp add: unat_of_nat)
  then obtain out r where "sanity_check_packet_frame (Some mem) (of_nat n) = Some (out, r)" "r = 0 \<or> r = - 1"
    "r = 0 \<longleftrightarrow> accepted (take n mem)" using sanity_check_frame [of "of_nat n" mem] assms(1) by auto
  then show ?thesis by (auto simp: test_check_def)
qed

lemma sample_dropped:
  assumes "68 \<le> bsize" "bsize < 65536"
  shows "\<not> handled bsize stun_hdr test_check req_data"
proof -
  have l: "length req_data = 68" by (simp add: req_data_def)
  then have "\<not> accepted (take 68 (req_data @ replicate (bsize - 68) 0))" using req_data_rejected by simp
  then have "test_check (req_data @ replicate (bsize - 68) 0) 68 \<noteq> RAW_PACKET_OK" using l test_check_accepted by simp
  then show ?thesis using assms(1) l by (simp add: handled_def rx_check_def Let_def)
qed

lemma sample_marked: "cmsg_nocsum [\<lparr>cmsg_level = 263, cmsg_type = 8, tp_status = 9\<rparr>] = 8"
  by (simp add: cmsg_nocsum_def SOL_PACKET_def PACKET_AUXDATA_def TP_STATUS_CSUMNOTREADY_def)

end
