(* ===== verification/Pmsft.thy ===== *)
theory Pmsft
  imports CText Bytes
begin

text \<open>
  The tester of multicast source filters, \<open>src/mcast/pmsft.c\<close>: the interpreter of its commands, files of commands and the
  interactive loop.  A stream is the text still to be read.  \<open>inet_addr\<close>, \<open>qsort\<close>, the files and the answers of the
  kernel are arguments; the calls made and the text printed are results.  \<open>None\<close> is an access outside an array or
  to a variable without a value.
\<close>

section \<open>Reading\<close>

definition is_blank :: "char \<Rightarrow> bool" where
  "is_blank c \<longleftrightarrow> c = CHR '' '' \<or> c = CHR 0x09"

text \<open>\<open>fgets\<close> into an array of \<open>n + 1\<close> characters: the text read and the rest, or nothing at the end of the stream.\<close>

fun fgets_chars :: "nat \<Rightarrow> string \<Rightarrow> string \<times> string" where
  "fgets_chars 0 s = ([], s)"
| "fgets_chars (Suc n) [] = ([], [])"
| "fgets_chars (Suc n) (c # s) =
     (if c = CHR 0x0A then ([c], s) else let (t, r) = fgets_chars n s in (c # t, r))"

definition fgets :: "nat \<Rightarrow> string \<Rightarrow> (string \<times> string) option" where
  "fgets n s = (if s = [] then None else Some (fgets_chars (n - 1) s))"

text \<open>\<open>%s\<close>, \<open>%d\<close> and \<open>%u\<close> of \<open>sscanf\<close>; the inner \<open>None\<close> of the first is a token that does not fit its array.\<close>

definition scan_s :: "nat \<Rightarrow> string \<Rightarrow> (string option \<times> string) option" where
  "scan_s room s =
     (let t = dropWhile is_space s; w = takeWhile (\<lambda>c. \<not> is_space c) t
      in if w = [] then None else Some (if length w < room then Some w else None, dropWhile (\<lambda>c. \<not> is_space c) t))"

definition scan_d :: "string \<Rightarrow> (i32 \<times> string) option" where
  "scan_d s =
     (case scan_int 10 s of
        (neg, n, ok, rest) \<Rightarrow> if ok then Some (word_of_int (fst (strtol 10 s)), rest) else None)"

definition scan_u :: "string \<Rightarrow> (u32 \<times> string) option" where
  "scan_u s =
     (case scan_int 10 s of
        (neg, n, ok, rest) \<Rightarrow> if ok then Some (ucast (fst (strtoul 10 s)), rest) else None)"

section \<open>The kernel\<close>

datatype pm_opt =
    MCAST_JOIN_GROUP | MCAST_LEAVE_GROUP
  | MCAST_UNBLOCK_SOURCE | MCAST_BLOCK_SOURCE | MCAST_JOIN_SOURCE_GROUP | MCAST_LEAVE_SOURCE_GROUP

datatype pm_mode = MCAST_INCLUDE | MCAST_EXCLUDE

text \<open>Addresses are in network order; a byte of a hardware address that was not set is \<open>None\<close>.\<close>

datatype pm_call =
    Sleep
  | Close_socket
  | Set_group pm_opt i32 u32
  | Set_source pm_opt i32 u32 u32
  | Multi_addr bool "u8 option list"
  | Get_flags string
  | Set_flags string u16
  | Set_filter i32 u32 pm_mode u32 "u32 list"
  | Get_filter i32 u32 u32

text \<open>An answer is an error number or success; reading calls have a result too.\<close>

record pm_env =
  inet_addr :: "string \<Rightarrow> u32"
  qsort :: "(u32 \<Rightarrow> u32 \<Rightarrow> i32) \<Rightarrow> u32 list \<Rightarrow> u32 list"
  answer :: "pm_call \<Rightarrow> nat option"
  flags_of_if :: "string \<Rightarrow> u16"
  filter_of :: "pm_call \<Rightarrow> pm_mode \<times> u32 \<times> u32 list"

definition INADDR_NONE :: u32 where "INADDR_NONE = 0xFFFFFFFF"
definition MAX_ADDRS :: nat where "MAX_ADDRS = 500"
definition IFF_PROMISC :: u16 where "IFF_PROMISC = 0x100"
definition IFF_ALLMULTI :: u16 where "IFF_ALLMULTI = 0x200"

definition err_map :: "(nat \<times> string) list" where
  "err_map = [(22, ''EINVAL''), (2, ''ENOENT''), (12, ''ENOMEM''), (99, ''EADDRNOTAVAIL''), (0, ''ENOERR'')]"

fun error_loop :: "(nat \<times> string) list \<Rightarrow> nat \<Rightarrow> string" where
  "error_loop [] err = (if err \<noteq> 0 then ''UNKNOWN'' else ''ENOERR'')"
| "error_loop (e # es) err =
     (if fst e = 0 then (if err \<noteq> 0 then ''UNKNOWN'' else ''ENOERR'')
      else if fst e = err then snd e else error_loop es err)"

definition error_2_name :: "nat \<Rightarrow> string" where
  "error_2_name err = error_loop err_map err"

definition say :: "string \<Rightarrow> string" where
  "say s = s @ [CHR 0x0A]"

text \<open>The report of a call that is the last of its command.\<close>

definition report_call :: "pm_env \<Rightarrow> pm_call \<Rightarrow> string" where
  "report_call env c = say (error_2_name (case answer env c of None \<Rightarrow> 0 | Some e \<Rightarrow> e))"

definition comp_sas :: "u32 \<Rightarrow> u32 \<Rightarrow> i32" where
  "comp_sas a b = a - b"

definition inet_ntoa :: "u32 \<Rightarrow> string" where
  "inet_ntoa a = join ''.'' (map (\<lambda>b. dec (unat b)) (le_bytes 4 (unat a)))"

section \<open>Commands\<close>

record pm_result =
  pm_out :: string
  pm_calls :: "pm_call list"
  pm_rest :: string
  pm_quit :: bool

definition done_with :: "string \<Rightarrow> pm_call list \<Rightarrow> string \<Rightarrow> pm_result" where
  "done_with out cs rest = \<lparr>pm_out = out, pm_calls = cs, pm_rest = rest, pm_quit = False\<rparr>"

definition minus_one :: string where
  "minus_one = say ''-1''"

definition usage_text :: string where
  "usage_text =
     say ''j g.g.g.g i                - join IP multicast group'' @
     say ''l g.g.g.g i                - leave IP multicast group'' @
     say ''a ifname e.e.e.e.e.e       - add ether multicast address'' @
     say ''d ifname e.e.e.e.e.e       - delete ether multicast address'' @
     say ''m ifname 1/0               - set/clear ether allmulti flag'' @
     say ''p ifname 1/0               - set/clear ether promisc flag'' @
     say ''i g.g.g.g i n              - set n include mode src filters'' @
     say ''e g.g.g.g i n              - set n exclude mode src filters'' @
     say ''t g.g.g.g i s.s.s.s        - allow traffic from src'' @
     say ''b g.g.g.g i s.s.s.s        - block traffic from src'' @
     say ''g g.g.g.g i n              - get and show (max n) src filters'' @
     say ''f filename                 - read command(s) from file'' @
     say ''s seconds                  - sleep for some time'' @
     say ''q                          - quit''"

text \<open>The address of a group or source; the outer \<open>None\<close> is a token that does not fit.\<close>

definition cmd_sleep :: "string \<Rightarrow> string \<Rightarrow> pm_result" where
  "cmd_sleep line fp =
     (case scan_d line of
        None \<Rightarrow> done_with minus_one [] fp
      | Some (n, r) \<Rightarrow> if sint n < 1 then done_with minus_one [] fp else done_with [] (replicate (nat (sint n)) Sleep) fp)"

definition cmd_group :: "pm_env \<Rightarrow> bool \<Rightarrow> string \<Rightarrow> string \<Rightarrow> pm_result option" where
  "cmd_group env joining line fp =
     (case scan_s 20 line of
        None \<Rightarrow> Some (done_with minus_one [] fp)
      | Some (str1, r) \<Rightarrow> do {
          str1 \<leftarrow> str1;
          Some (case scan_d r of
            None \<Rightarrow> done_with minus_one [] fp
          | Some (n, r) \<Rightarrow>
              if inet_addr env str1 = INADDR_NONE then done_with minus_one [] fp
              else let c = Set_group (if joining then MCAST_JOIN_GROUP else MCAST_LEAVE_GROUP) n (inet_addr env str1)
                   in done_with (report_call env c) [c] fp) })"

text \<open>\<open>strtok\<close> on a new string gives its first token; the next call starts at the token's second character.\<close>

definition strtok_dot :: "string \<Rightarrow> string option" where
  "strtok_dot p = (let t = takeWhile (\<lambda>c. c \<noteq> CHR ''.'') (dropWhile (\<lambda>c. c = CHR ''.'') p) in if t = [] then None else Some t)"

definition atoi_byte :: "string \<Rightarrow> u8" where
  "atoi_byte s = word_of_int (fst (strtol 10 s))"

fun ether_loop :: "nat \<Rightarrow> string \<Rightarrow> u8 option list" where
  "ether_loop 0 p = []"
| "ether_loop (Suc n) p =
     (case strtok_dot p of None \<Rightarrow> replicate (Suc n) None | Some t \<Rightarrow> Some (atoi_byte t) # ether_loop n (drop 1 t))"

definition cmd_ether :: "pm_env \<Rightarrow> bool \<Rightarrow> string \<Rightarrow> string \<Rightarrow> pm_result option" where
  "cmd_ether env adding line fp = do {
     (str1, r) \<leftarrow> scan_s 20 line;
     str1 \<leftarrow> str1;
     (str2, r) \<leftarrow> scan_s 20 r;
     str2 \<leftarrow> str2;
     let c = Multi_addr adding (ether_loop 6 str2);
     Some (done_with (report_call env c) [c] fp) }"

definition cmd_flag :: "pm_env \<Rightarrow> string \<Rightarrow> string \<Rightarrow> pm_result option" where
  "cmd_flag env line fp =
     (case scan_s 16 line of
        None \<Rightarrow> Some (done_with minus_one [] fp)
      | Some (name, r) \<Rightarrow> do {
          name \<leftarrow> name;
          Some (case scan_u r of
            None \<Rightarrow> done_with minus_one [] fp
          | Some (f, r) \<Rightarrow>
              (case answer env (Get_flags name) of
                 Some e \<Rightarrow> done_with (say (error_2_name e)) [Get_flags name] fp
               | None \<Rightarrow>
                   let opt = IFF_ALLMULTI;
                       flags = (if f \<noteq> 0 then flags_of_if env name OR opt else flags_of_if env name AND NOT opt);
                       c = Set_flags name flags
                   in done_with (report_call env c) [Get_flags name, c] fp)) })"

text \<open>The lines with the sources: \<open>Inl\<close> the rest of the stream behind a bad one.  At the end of the stream \<open>str1\<close> keeps its text.\<close>

fun source_loop :: "pm_env \<Rightarrow> nat \<Rightarrow> string \<Rightarrow> string \<Rightarrow> u32 list \<Rightarrow> string + (u32 list \<times> string)" where
  "source_loop env 0 str1 fp acc = Inr (acc, fp)"
| "source_loop env (Suc n) str1 fp acc =
     (let (str1, fp) = (case fgets 20 fp of None \<Rightarrow> (str1, fp) | Some (l, r) \<Rightarrow> (l, r))
      in if inet_addr env str1 = INADDR_NONE then Inl fp
         else source_loop env n str1 fp (acc @ [inet_addr env str1]))"

definition cmd_filter :: "pm_env \<Rightarrow> bool \<Rightarrow> string \<Rightarrow> string \<Rightarrow> pm_result option" where
  "cmd_filter env including line fp =
     (case scan_s 20 line of
        None \<Rightarrow> Some (done_with minus_one [] fp)
      | Some (str1, r) \<Rightarrow> do {
          str1 \<leftarrow> str1;
          Some (case scan_d r of
            None \<Rightarrow> done_with minus_one [] fp
          | Some (i, r) \<Rightarrow>
              (case scan_d r of
                 None \<Rightarrow> done_with minus_one [] fp
               | Some (n, r) \<Rightarrow>
                   if inet_addr env str1 = INADDR_NONE \<or> sint n > int MAX_ADDRS then done_with minus_one [] fp
                   else case source_loop env (nat (sint n)) str1 fp [] of
                          Inl fp \<Rightarrow> done_with minus_one [] fp
                        | Inr (srcs, fp) \<Rightarrow>
                            let c = Set_filter i (inet_addr env str1) (if including then MCAST_INCLUDE else MCAST_EXCLUDE) n srcs
                            in done_with (report_call env c) [c] fp)) })"

definition delta_opt :: "bool \<Rightarrow> pm_mode \<Rightarrow> pm_opt" where
  "delta_opt allow mode =
     (if mode = MCAST_EXCLUDE then (if allow then MCAST_UNBLOCK_SOURCE else MCAST_BLOCK_SOURCE)
      else (if allow then MCAST_JOIN_SOURCE_GROUP else MCAST_LEAVE_SOURCE_GROUP))"

definition cmd_delta :: "pm_env \<Rightarrow> bool \<Rightarrow> string \<Rightarrow> string \<Rightarrow> pm_result option" where
  "cmd_delta env allow line fp =
     (case scan_s 20 line of
        None \<Rightarrow> Some (done_with minus_one [] fp)
      | Some (str1, r) \<Rightarrow> do {
          str1 \<leftarrow> str1;
          case scan_d r of
            None \<Rightarrow> Some (done_with minus_one [] fp)
          | Some (i, r) \<Rightarrow>
              (case scan_s 20 r of
                 None \<Rightarrow> Some (done_with minus_one [] fp)
               | Some (str2, r) \<Rightarrow> do {
                   str2 \<leftarrow> str2;
                   let group = inet_addr env str1;
                   let src = inet_addr env str2;
                   let get = Get_filter i group 0;
                   Some (if group = INADDR_NONE \<or> src = INADDR_NONE then done_with minus_one [] fp
                     else case (case answer env get of
                                  None \<Rightarrow> Inr (fst (filter_of env get))
                                | Some e \<Rightarrow> if \<not> allow then Inl e else Inr MCAST_INCLUDE) of
                            Inl e \<Rightarrow> done_with (say (error_2_name e)) [get] fp
                          | Inr mode \<Rightarrow>
                              let c = Set_source (delta_opt allow mode) i group src
                              in done_with (report_call env c) [get, c] fp) }) })"

text \<open>The sources the kernel writes must fit the buffer, and those printed must have been written.\<close>

definition cmd_show :: "pm_env \<Rightarrow> string \<Rightarrow> string \<Rightarrow> pm_result option" where
  "cmd_show env line fp =
     (case scan_s 20 line of
        None \<Rightarrow> Some (done_with minus_one [] fp)
      | Some (str1, r) \<Rightarrow> do {
          str1 \<leftarrow> str1;
          case scan_d r of
            None \<Rightarrow> Some (done_with minus_one [] fp)
          | Some (i, r) \<Rightarrow>
              (case scan_d r of
                 None \<Rightarrow> Some (done_with minus_one [] fp)
               | Some (n, r) \<Rightarrow>
                   let group = inet_addr env str1; get = Get_filter i group n
                   in if group = INADDR_NONE then Some (done_with minus_one [] fp)
                      else case answer env get of
                             Some e \<Rightarrow> Some (done_with (say (error_2_name e)) [get] fp)
                           | None \<Rightarrow>
                               let (mode, numsrc, slist) = filter_of env get;
                                   head = say (if mode = MCAST_INCLUDE then ''include'' else ''exclude'')
                               in if length slist > MAX_ADDRS then None
                                  else if n > numsrc then
                                    (if length slist < unat numsrc then None
                                     else Some (done_with (head @ concat (map (say \<circ> inet_ntoa) (qsort env comp_sas (take (unat numsrc) slist)))) [get] fp))
                                  else Some (done_with head [get] fp)) })"

text \<open>\<open>process_cmd\<close>: the command is the text of \<open>cmd\<close>, which has at least one character.\<close>

definition process_cmd :: "pm_env \<Rightarrow> string \<Rightarrow> string \<Rightarrow> pm_result option" where
  "process_cmd env cmd fp =
     (case cmd of
        [] \<Rightarrow> None
      | c # rest \<Rightarrow>
          let line = dropWhile is_blank rest
          in if c = CHR ''?'' then Some (done_with usage_text [] fp)
             else if c = CHR ''q'' then Some \<lparr>pm_out = [], pm_calls = [Close_socket], pm_rest = fp, pm_quit = True\<rparr>
             else if c = CHR ''s'' then Some (cmd_sleep line fp)
             else if c = CHR ''j'' \<or> c = CHR ''l'' then cmd_group env (c = CHR ''j'') line fp
             else if c = CHR ''a'' \<or> c = CHR ''d'' then cmd_ether env (c = CHR ''a'') line fp
             else if c = CHR ''m'' \<or> c = CHR ''p'' then cmd_flag env line fp
             else if c = CHR ''i'' \<or> c = CHR ''e'' then cmd_filter env (c = CHR ''i'') line fp
             else if c = CHR ''t'' \<or> c = CHR ''b'' then cmd_delta env (c = CHR ''t'') line fp
             else if c = CHR ''g'' then cmd_show env line fp
             else Some (done_with [] [] fp))"

section \<open>Files and the interactive loop\<close>

lemma fgets_chars_length: "length (fst (fgets_chars n s)) + length (snd (fgets_chars n s)) = length s"
  by (induction n s rule: fgets_chars.induct) (simp_all add: split_def Let_def)

lemma fgets_chars_shrinks: "0 < n \<Longrightarrow> s \<noteq> [] \<Longrightarrow> length (snd (fgets_chars n s)) < length s"
proof (cases n; cases s)
  fix k c s' assume "n = Suc k" "s = c # s'"
  then show ?thesis using fgets_chars_length [of k s'] by (simp add: split_def Let_def)
qed simp_all

lemma fgets_less: "1 < n \<Longrightarrow> fgets n s = Some p \<Longrightarrow> length (snd p) < length s"
  using fgets_chars_shrinks [of "n - 1" s] by (auto simp: fgets_def split: if_split_asm)

lemma fgets_le: "fgets n s = Some p \<Longrightarrow> length (snd p) \<le> length s"
  using fgets_chars_length [of "n - 1" s] by (auto simp: fgets_def split: if_split_asm)

definition shrinks :: "string \<Rightarrow> pm_result \<Rightarrow> bool" where
  "shrinks fp r \<longleftrightarrow> length (pm_rest r) \<le> length fp"

lemma done_with_shrinks [simp, intro]: "shrinks fp (done_with out cs fp)"
  by (simp add: done_with_def shrinks_def)

lemma source_loop_le:
  fixes env n str1 fp acc
  shows "case source_loop env n str1 fp acc of Inl r \<Rightarrow> length r \<le> length fp | Inr (xs, r) \<Rightarrow> length r \<le> length fp"
proof (induction n arbitrary: fp str1 acc)
  case (Suc n)
  obtain l r where lr: "(case fgets 20 fp of None \<Rightarrow> (str1, fp) | Some (l, r) \<Rightarrow> (l, r)) = (l, r)" by fastforce
  then have le: "length r \<le> length fp" using fgets_le [of 20 fp] by (auto split: option.split_asm)
  show ?case using Suc [of r l "acc @ [inet_addr env l]"] le
    by (simp add: lr split: sum.splits prod.splits)
qed simp

definition all_shrink :: "string \<Rightarrow> pm_result option \<Rightarrow> bool" where
  "all_shrink fp r \<longleftrightarrow> (\<forall>x. r = Some x \<longrightarrow> shrinks fp x)"

lemma all_shrink_simps [simp]:
  "all_shrink fp None" "all_shrink fp (Some r) \<longleftrightarrow> shrinks fp r"
  by (simp_all add: all_shrink_def)

lemma all_shrink_bind [intro!]: "(\<And>x. m = Some x \<Longrightarrow> all_shrink fp (f x)) \<Longrightarrow> all_shrink fp (m \<bind> f)"
  by (cases m) auto

lemma shrink_cases [intro!]:
  "\<lbrakk>all_shrink fp x; \<And>p. all_shrink fp (f p)\<rbrakk> \<Longrightarrow> all_shrink fp (case m of None \<Rightarrow> x | Some p \<Rightarrow> f p)"
  "\<lbrakk>shrinks fp y; \<And>p. shrinks fp (g p)\<rbrakk> \<Longrightarrow> shrinks fp (case m of None \<Rightarrow> y | Some p \<Rightarrow> g p)"
  "(\<And>a b. all_shrink fp (h a b)) \<Longrightarrow> all_shrink fp (case q of (a, b) \<Rightarrow> h a b)"
  "(\<And>a b. shrinks fp (k a b)) \<Longrightarrow> shrinks fp (case q of (a, b) \<Rightarrow> k a b)"
  "\<lbrakk>b \<Longrightarrow> all_shrink fp x; \<not> b \<Longrightarrow> all_shrink fp x'\<rbrakk> \<Longrightarrow> all_shrink fp (if b then x else x')"
  "\<lbrakk>b \<Longrightarrow> shrinks fp y; \<not> b \<Longrightarrow> shrinks fp y'\<rbrakk> \<Longrightarrow> shrinks fp (if b then y else y')"
  "\<lbrakk>\<And>l. shrinks fp (u l); \<And>r. shrinks fp (v r)\<rbrakk> \<Longrightarrow> shrinks fp (case e of Inl l \<Rightarrow> u l | Inr r \<Rightarrow> v r)"
  by (simp_all split: option.split prod.split sum.split)

lemmas shrink_rules = shrink_cases all_shrink_bind all_shrink_simps(2) [THEN iffD2] done_with_shrinks all_shrink_simps(1)

lemma cmd_sleep_shrinks: "shrinks fp (cmd_sleep line fp)"
  unfolding cmd_sleep_def by (intro shrink_cases done_with_shrinks)

lemma cmd_group_shrinks: "all_shrink fp (cmd_group env b line fp)"
  unfolding cmd_group_def Let_def by (intro shrink_rules)

lemma cmd_ether_shrinks: "all_shrink fp (cmd_ether env b line fp)"
  unfolding cmd_ether_def Let_def by (intro shrink_rules)

lemma cmd_flag_shrinks: "all_shrink fp (cmd_flag env line fp)"
  unfolding cmd_flag_def Let_def by (intro shrink_rules)

lemma cmd_delta_shrinks: "all_shrink fp (cmd_delta env b line fp)"
  unfolding cmd_delta_def Let_def by (intro shrink_rules)

lemma cmd_show_shrinks: "all_shrink fp (cmd_show env line fp)"
  unfolding cmd_show_def Let_def by (intro shrink_rules)

lemma source_loop_shrinks:
  "shrinks fp (case source_loop env k str1 fp [] of Inl r \<Rightarrow> done_with a c r | Inr (srcs, r) \<Rightarrow> done_with (f srcs) (g srcs) r)"
  using source_loop_le [of fp env k str1 "[]"]
  by (auto simp: shrinks_def done_with_def split: sum.splits prod.splits)

lemma cmd_filter_shrinks: "all_shrink fp (cmd_filter env b line fp)"
  unfolding cmd_filter_def Let_def
  by (intro shrink_cases(1-4,6) all_shrink_bind all_shrink_simps(2) [THEN iffD2] done_with_shrinks all_shrink_simps(1) source_loop_shrinks)

lemma process_cmd_shrinks: "all_shrink fp (process_cmd env cmd fp)"
proof (cases cmd)
  case (Cons c rest)
  show ?thesis unfolding process_cmd_def Let_def Cons list.case
    by (intro shrink_cases(5) cmd_sleep_shrinks [THEN all_shrink_simps(2) [THEN iffD2]] cmd_group_shrinks cmd_ether_shrinks
        cmd_flag_shrinks cmd_delta_shrinks cmd_show_shrinks cmd_filter_shrinks all_shrink_simps(2) [THEN iffD2, OF done_with_shrinks])
      (simp_all add: shrinks_def)
qed (simp add: process_cmd_def)

lemma process_cmd_rest: "process_cmd env cmd fp = Some r \<Longrightarrow> length (pm_rest r) \<le> length fp"
  using process_cmd_shrinks [of fp env cmd] by (simp add: shrinks_def)

text \<open>
  The commands of a file; the \<open>k\<close>-th command of the run meets the kernel \<open>envs k\<close>.  The result is what is printed, the
  calls, the number of commands so far and whether the program has left.
\<close>

type_synonym pm_run = "string \<times> pm_call list \<times> nat \<times> bool"

definition then_run :: "pm_result \<Rightarrow> pm_run \<Rightarrow> pm_run" where
  "then_run r = (\<lambda>(out, cs, k, quit). (pm_out r @ out, pm_calls r @ cs, k, quit))"

function process_lines :: "(nat \<Rightarrow> pm_env) \<Rightarrow> nat \<Rightarrow> string \<Rightarrow> pm_run option" where
  "process_lines envs k fp =
     (case fgets 80 fp of
        None \<Rightarrow> Some ([], [], k, False)
      | Some (line, fp) \<Rightarrow>
          let lineptr = dropWhile is_blank line
          in if hd0 lineptr \<noteq> CHR ''#'' \<and> hd0 lineptr \<noteq> CHR 0x0A
             then (case process_cmd (envs k) lineptr fp of
                     None \<Rightarrow> None
                   | Some r \<Rightarrow> if pm_quit r then Some (pm_out r, pm_calls r, k + 1, True)
                               else map_option (then_run r) (process_lines envs (k + 1) (pm_rest r)))
             else process_lines envs k fp)"
  by pat_completeness auto
termination
  by (relation "measure (\<lambda>(envs, k, fp). length fp)")
    (use process_cmd_rest fgets_less [of 80] in \<open>fastforce+\<close>)

declare process_lines.simps [simp del]

definition process_file :: "(string \<Rightarrow> string option) \<Rightarrow> (nat \<Rightarrow> pm_env) \<Rightarrow> nat \<Rightarrow> string \<Rightarrow> pm_run option" where
  "process_file files envs k fname =
     (case files fname of Some fp \<Rightarrow> process_lines envs k fp | None \<Rightarrow> Some (say (error_2_name 2), [], k, False))"

text \<open>The files named by the arguments, one after the other.\<close>

fun pmsft_files :: "(string \<Rightarrow> string option) \<Rightarrow> (nat \<Rightarrow> pm_env) \<Rightarrow> nat \<Rightarrow> string list \<Rightarrow> pm_run option" where
  "pmsft_files files envs k [] = Some ([], [], k, False)"
| "pmsft_files files envs k (a # as) = do {
     (out, cs, k, quit) \<leftarrow> process_file files envs k a;
     if quit then Some (out, cs, k, True)
     else do { (o1, c1, k, quit) \<leftarrow> pmsft_files files envs k as; Some (out @ o1, cs @ c1, k, quit) } }"

text \<open>The interactive loop; at the end of the input it reads for ever, and the result is what happened until then.\<close>

function pmsft_loop :: "(string \<Rightarrow> string option) \<Rightarrow> (nat \<Rightarrow> pm_env) \<Rightarrow> nat \<Rightarrow> string \<Rightarrow> pm_run option" where
  "pmsft_loop files envs k inp =
     (case fgets 80 inp of
        None \<Rightarrow> Some ([], [], k, False)
      | Some (line, inp) \<Rightarrow>
          if hd0 line \<noteq> CHR ''f''
          then (case process_cmd (envs k) line inp of
                  None \<Rightarrow> None
                | Some r \<Rightarrow> if pm_quit r then Some (pm_out r, pm_calls r, k + 1, True)
                            else map_option (then_run r) (pmsft_loop files envs (k + 1) (pm_rest r)))
          else (case process_file files envs k (takeWhile (\<lambda>c. c \<noteq> CHR 0x0A) (dropWhile is_blank (tl line))) of
                  None \<Rightarrow> None
                | Some (out, cs, k, quit) \<Rightarrow>
                    if quit then Some (out, cs, k, True)
                    else map_option (\<lambda>(o1, c1, k, quit). (out @ o1, cs @ c1, k, quit)) (pmsft_loop files envs k inp)))"
  by pat_completeness auto
termination
  by (relation "measure (\<lambda>(files, envs, k, inp). length inp)")
    (use process_cmd_rest fgets_less [of 80] in \<open>fastforce+\<close>)

declare pmsft_loop.simps [simp del]

definition pmsft_main :: "(string \<Rightarrow> string option) \<Rightarrow> (nat \<Rightarrow> pm_env) \<Rightarrow> string list \<Rightarrow> string \<Rightarrow> pm_run option" where
  "pmsft_main files envs args inp =
     (if args = [] then map_option (\<lambda>(out, cs, k, quit). (''> '' @ out, cs, k, quit)) (pmsft_loop files envs 0 inp)
      else pmsft_files files envs 0 args)"

section \<open>The lines of a filter\<close>

text \<open>Source lines that \<open>fgets\<close> reads one by one.\<close>

definition source_lines :: "string list \<Rightarrow> string" where
  "source_lines ss = concat (map say ss)"

definition short_line :: "string \<Rightarrow> bool" where
  "short_line s \<longleftrightarrow> CHR 0x0A \<notin> set s \<and> length s \<le> 18"

definition good_source :: "pm_env \<Rightarrow> string \<Rightarrow> bool" where
  "good_source env s \<longleftrightarrow> inet_addr env (say s) \<noteq> INADDR_NONE"

lemma fgets_chars_line: "\<lbrakk>CHR 0x0A \<notin> set s; length s < n\<rbrakk> \<Longrightarrow> fgets_chars n (say s @ rest) = (say s, rest)"
  by (induction s arbitrary: n) (auto simp: say_def neq_Nil_conv gr0_conv_Suc less_Suc_eq_0_disj Suc_less_eq2)

lemma fgets_line: "short_line s \<Longrightarrow> fgets 20 (say s @ rest) = Some (say s, rest)"
  using fgets_chars_line [of s 19 rest] by (simp add: fgets_def short_line_def say_def)

lemma source_loop_lines:
  "\<forall>s\<in>set ss. short_line s \<Longrightarrow>
     source_loop env (length ss) str1 (source_lines ss @ rest) acc =
       (if \<forall>s\<in>set ss. good_source env s then Inr (acc @ map (inet_addr env \<circ> say) ss, rest)
        else Inl (source_lines (tl (dropWhile (good_source env) ss)) @ rest))"
proof (induction ss arbitrary: str1 acc)
  case (Cons s ss)
  have f: "fgets 20 (source_lines (s # ss) @ rest) = Some (say s, source_lines ss @ rest)"
    using fgets_line [of s "source_lines ss @ rest"] Cons.prems by (simp add: source_lines_def)
  show ?case
  proof (cases "good_source env s")
    case True
    then have "inet_addr env (say s) \<noteq> INADDR_NONE" by (simp add: good_source_def)
    then show ?thesis using Cons True by (simp add: f)
  next
    case False
    then show ?thesis by (simp add: f good_source_def)
  qed
qed (simp add: source_lines_def)

text \<open>
  C27: An \<open>i\<close> or \<open>e\<close> command with a group, an interface and \<open>n\<close> at most \<open>MAX_ADDRS\<close>, followed by \<open>n\<close> source lines: when
  every line is an address, there is exactly one call, which sets the filter of that mode with exactly those sources in
  order, and the stream is left behind them.  When one is not, no call is made and \<open>-1\<close> is printed; the
  stream is left behind the first bad line, so that the source lines after it are then taken as commands.
\<close>

theorem pmsft_filter_lines:
  assumes "c = CHR ''i'' \<or> c = CHR ''e''"
    and "scan_s 20 (dropWhile is_blank line) = Some (Some g, r1)" "scan_d r1 = Some (i, r2)" "scan_d r2 = Some (n, r3)"
    and "inet_addr env g \<noteq> INADDR_NONE" "sint n = int (length srcs)" "length srcs \<le> MAX_ADDRS" "\<forall>s\<in>set srcs. short_line s"
  shows "process_cmd env (c # line) (source_lines srcs @ rest) =
      Some (if \<forall>s\<in>set srcs. good_source env s
            then let call = Set_filter i (inet_addr env g) (if c = CHR ''i'' then MCAST_INCLUDE else MCAST_EXCLUDE) n
                              (map (inet_addr env \<circ> say) srcs)
                 in done_with (report_call env call) [call] rest
            else done_with minus_one [] (source_lines (tl (dropWhile (good_source env) srcs)) @ rest))"
proof -
  have loop: "source_loop env (nat (sint n)) g (source_lines srcs @ rest) [] =
      (if \<forall>s\<in>set srcs. good_source env s then Inr (map (inet_addr env \<circ> say) srcs, rest)
       else Inl (source_lines (tl (dropWhile (good_source env) srcs)) @ rest))"
    using source_loop_lines [of srcs env g rest "[]"] assms(6,8) by simp
  have room: "\<not> int MAX_ADDRS < sint n" using assms(6,7) by simp
  have "process_cmd env (c # line) fp = cmd_filter env (c = CHR ''i'') (dropWhile is_blank line) fp" for fp
    using assms(1) by (auto simp: process_cmd_def)
  then show ?thesis
    using assms(5) room by (simp add: cmd_filter_def assms(2-4) loop Let_def)
qed

definition pm_sample :: pm_env where
  "pm_sample = \<lparr>inet_addr = (\<lambda>s. if s = ''bad'' @ [CHR 0x0A] then INADDR_NONE else 7), qsort = (\<lambda>f xs. xs),
     answer = (\<lambda>c. None), flags_of_if = (\<lambda>s. 0), filter_of = (\<lambda>c. (MCAST_INCLUDE, 0, []))\<rparr>"

theorem pmsft_filter_lines_witness:
  "process_cmd pm_sample ''i 224.1.1.1 2 3'' (source_lines [''1.1.1.1'', ''bad'', ''q''] @ ''m'') =
     Some (done_with minus_one [] (source_lines [''q''] @ ''m''))"
proof -
  have s: "scan_s 20 (dropWhile is_blank '' 224.1.1.1 2 3'') = Some (Some ''224.1.1.1'', '' 2 3'')"
      "scan_d '' 2 3'' = Some (2, '' 3'')" "scan_d '' 3'' = Some (3, [])"
    by code_simp+
  have g: "inet_addr pm_sample ''224.1.1.1'' \<noteq> INADDR_NONE" by code_simp
  have l: "sint (3 :: i32) = int (length [''1.1.1.1'', ''bad'', ''q''])" by simp
  have "\<forall>s\<in>set [''1.1.1.1'', ''bad'', ''q'']. short_line s" by code_simp
  note r = pmsft_filter_lines [OF disjI1 [OF refl] s g l _ this, of "''m''"]
  have "\<not> good_source pm_sample ''bad''" "good_source pm_sample ''1.1.1.1''" by code_simp+
  then show ?thesis using r by (simp add: MAX_ADDRS_def)
qed

end
