(* ===== verification/PacketFilter.thy ===== *)
theory PacketFilter
  imports PacketCheck
begin

text \<open>
  The packet filters of \<open>src/sniff_stun.c\<close>, \<open>raw_pf_stun.c\<close>, \<open>mylpf5.c\<close>, \<open>raw_pf_igmp.c\<close>, \<open>pf_udprecv.c\<close>,
  \<open>raw_pf_udprecv.c\<close> and \<open>udprecv.c\<close>, and the programs that receive through them.  A filter is a program of the
  packet filter machine that the file holds as an array; the instructions the arrays use are defined below.  The
  packets, their senders and \<open>errno\<close> are arguments, the text printed is the result, and \<open>None\<close> is an access outside
  an array.  The sockets are taken to be made.
\<close>

section \<open>The filter machine\<close>

text \<open>The operation code, the two jump offsets and the constant.\<close>

datatype sock_filter = Sock_filter nat nat nat u32

text \<open>\<open>n\<close> bytes at an offset in network order.\<close>

definition ld :: "u8 list \<Rightarrow> nat \<Rightarrow> nat \<Rightarrow> u32 option" where
  "ld p off n = map_option (of_nat \<circ> be_nat) (rd_bytes p off n)"

text \<open>
  A program on a packet with the accumulator and the index register: the number of bytes to keep.  A load outside the
  packet rejects it.  \<open>None\<close> is a program with another instruction or without an end, which cannot be attached.
\<close>

function bpf :: "sock_filter list \<Rightarrow> u8 list \<Rightarrow> u32 \<Rightarrow> u32 \<Rightarrow> u32 option" where
  "bpf [] p a x = None"
| "bpf (Sock_filter code jt jf k # prog) p a x =
     (if code = 0x06 then Some k
      else if code = 0x15 then bpf (drop (if a = k then jt else jf) prog) p a x
      else if code = 0x35 then bpf (drop (if k \<le> a then jt else jf) prog) p a x
      else if code = 0x45 then bpf (drop (if a AND k \<noteq> 0 then jt else jf) prog) p a x
      else if code = 0x30 then (case ld p (unat k) 1 of None \<Rightarrow> Some 0 | Some v \<Rightarrow> bpf prog p v x)
      else if code = 0x28 then (case ld p (unat k) 2 of None \<Rightarrow> Some 0 | Some v \<Rightarrow> bpf prog p v x)
      else if code = 0x50 then (case ld p (unat (x + k)) 1 of None \<Rightarrow> Some 0 | Some v \<Rightarrow> bpf prog p v x)
      else if code = 0x48 then (case ld p (unat (x + k)) 2 of None \<Rightarrow> Some 0 | Some v \<Rightarrow> bpf prog p v x)
      else if code = 0x40 then (case ld p (unat (x + k)) 4 of None \<Rightarrow> Some 0 | Some v \<Rightarrow> bpf prog p v x)
      else if code = 0xb1 then (case ld p (unat k) 1 of None \<Rightarrow> Some 0 | Some v \<Rightarrow> bpf prog p a (4 * (v AND 0xf)))
      else None)"
  by pat_completeness auto
termination
  by (relation "measure (\<lambda>(prog, p, a, x). length prog)") auto

section \<open>The filters\<close>

text \<open>\<open>sniff_stun.c\<close>: STUN requests in Ethernet frames.\<close>

definition stun_frame_filter :: "sock_filter list" where
  "stun_frame_filter =
     [Sock_filter 0x28 0 0 0x0000000c,
      Sock_filter 0x15 0 14 0x00000800,
      Sock_filter 0x30 0 0 0x0000001e,
      Sock_filter 0x35 12 0 0x000000e0,
      Sock_filter 0x30 0 0 0x00000017,
      Sock_filter 0x15 0 10 0x00000011,
      Sock_filter 0x28 0 0 0x00000014,
      Sock_filter 0x45 8 0 0x00001fff,
      Sock_filter 0xb1 0 0 0x0000000e,
      Sock_filter 0x50 0 0 0x00000016,
      Sock_filter 0x15 0 5 0x00000000,
      Sock_filter 0x48 0 0 0x00000018,
      Sock_filter 0x45 3 0 0x00000003,
      Sock_filter 0x40 0 0 0x0000001a,
      Sock_filter 0x15 0 1 0x2112a442,
      Sock_filter 0x6 0 0 0x000005ea,
      Sock_filter 0x6 0 0 0x00000000]"

text \<open>\<open>raw_pf_stun.c\<close>: STUN requests on a raw UDP socket.\<close>

definition stun_raw_filter :: "sock_filter list" where
  "stun_raw_filter =
     [Sock_filter 0x30 0 0 0x00000010,
      Sock_filter 0x35 10 0 0x000000e0,
      Sock_filter 0x28 0 0 0x00000006,
      Sock_filter 0x45 8 0 0x00001fff,
      Sock_filter 0xb1 0 0 0x00000000,
      Sock_filter 0x50 0 0 0x00000008,
      Sock_filter 0x15 0 5 0x00000000,
      Sock_filter 0x48 0 0 0x0000000a,
      Sock_filter 0x45 3 0 0x00000003,
      Sock_filter 0x40 0 0 0x0000000c,
      Sock_filter 0x15 0 1 0x2112a442,
      Sock_filter 0x6 0 0 0x00000100,
      Sock_filter 0x6 0 0 0x00000000]"

text \<open>\<open>mylpf5.c\<close>: datagrams of port 6600, not to a multicast address.\<close>

definition port_filter :: "sock_filter list" where
  "port_filter =
     [Sock_filter 0x28 0 0 0x0000000c,
      Sock_filter 0x15 0 11 0x00000800,
      Sock_filter 0x30 0 0 0x0000001e,
      Sock_filter 0x35 17 0 0x000000e0,
      Sock_filter 0x30 0 0 0x00000017,
      Sock_filter 0x15 0 15 0x00000011,
      Sock_filter 0x28 0 0 0x00000014,
      Sock_filter 0x45 13 0 0x00001fff,
      Sock_filter 0xb1 0 0 0x0000000e,
      Sock_filter 0x48 0 0 0x0000000e,
      Sock_filter 0x15 9 0 0x000019c8,
      Sock_filter 0x48 0 0 0x00000010,
      Sock_filter 0x15 7 8 0x000019c8,
      Sock_filter 0x15 0 7 0x000086dd,
      Sock_filter 0x30 0 0 0x00000014,
      Sock_filter 0x15 0 5 0x00000011,
      Sock_filter 0x28 0 0 0x00000036,
      Sock_filter 0x15 2 0 0x000019c8,
      Sock_filter 0x28 0 0 0x00000038,
      Sock_filter 0x15 0 1 0x000019c8,
      Sock_filter 0x6 0 0 0x00000100,
      Sock_filter 0x6 0 0 0x00000000]"

text \<open>\<open>pf_udprecv.c\<close>: datagrams of port 6600.\<close>

definition udp_port_filter :: "sock_filter list" where
  "udp_port_filter =
     [Sock_filter 0x28 0 0 0x0000000c,
      Sock_filter 0x15 0 6 0x000086dd,
      Sock_filter 0x30 0 0 0x00000014,
      Sock_filter 0x15 0 15 0x00000011,
      Sock_filter 0x28 0 0 0x00000036,
      Sock_filter 0x15 12 0 0x000019c8,
      Sock_filter 0x28 0 0 0x00000038,
      Sock_filter 0x15 10 11 0x000019c8,
      Sock_filter 0x15 0 10 0x00000800,
      Sock_filter 0x30 0 0 0x00000017,
      Sock_filter 0x15 0 8 0x00000011,
      Sock_filter 0x28 0 0 0x00000014,
      Sock_filter 0x45 6 0 0x00001fff,
      Sock_filter 0xb1 0 0 0x0000000e,
      Sock_filter 0x48 0 0 0x0000000e,
      Sock_filter 0x15 2 0 0x000019c8,
      Sock_filter 0x48 0 0 0x00000010,
      Sock_filter 0x15 0 1 0x000019c8,
      Sock_filter 0x6 0 0 0x00000060,
      Sock_filter 0x6 0 0 0x00000000]"

text \<open>\<open>raw_pf_igmp.c\<close>: IGMP.\<close>

definition igmp_filter :: "sock_filter list" where
  "igmp_filter =
     [Sock_filter 0x28 0 0 0x0000000c,
      Sock_filter 0x15 0 3 0x00000800,
      Sock_filter 0x30 0 0 0x00000017,
      Sock_filter 0x15 0 1 0x00000002,
      Sock_filter 0x6 0 0 0x00000060,
      Sock_filter 0x6 0 0 0x00000000]"

text \<open>\<open>raw_pf_udprecv.c\<close> and \<open>udprecv.c\<close>: datagrams that begin with \<open>lj\<close>, with and without the IP header.\<close>

definition lj_raw_filter :: "sock_filter list" where
  "lj_raw_filter =
     [Sock_filter 0x28 0 0 0x0000001c,
      Sock_filter 0x15 0 1 0x00006c6a,
      Sock_filter 0x06 0 0 0x100,
      Sock_filter 0x06 0 0 0x00]"

definition lj_filter :: "sock_filter list" where
  "lj_filter =
     [Sock_filter 0x28 0 0 0x00000008,
      Sock_filter 0x15 0 1 0x00006c6a,
      Sock_filter 0x06 0 0 0x100,
      Sock_filter 0x06 0 0 0x00]"

section \<open>Receiving\<close>

text \<open>
  A sender is what \<open>%s\<close> prints for its address, and its port; a failed receive has the value of \<open>errno\<close>.  A filter drops
  the packets it keeps nothing of and cuts the others.
\<close>

type_synonym sender = "string \<times> u16"

definition cut :: "sock_filter list \<Rightarrow> u8 list \<Rightarrow> u8 list option" where
  "cut prog d = (case bpf prog d 0 0 of None \<Rightarrow> None | Some k \<Rightarrow> if k = 0 then None else Some (take (unat k) d))"

definition through :: "sock_filter list \<Rightarrow> ((sender \<times> u8 list) option \<times> i32) list \<Rightarrow> ((sender \<times> u8 list) option \<times> i32) list" where
  "through prog rs =
     concat (map (\<lambda>(r, e). case r of
        None \<Rightarrow> [(None, e)]
      | Some (s, d) \<Rightarrow> (case cut prog d of None \<Rightarrow> [] | Some d \<Rightarrow> [(Some (s, d), e)])) rs)"

definition from_text :: "sender \<Rightarrow> nat \<Rightarrow> string" where
  "from_text s n = ''Received from '' @ fst s @ '':'' @ dec (unat (snd s)) @ '': '' @ dec n @ '' bytes'' @ newline"

text \<open>
  The loop that five of the programs share: it ends at an empty packet and at an error; otherwise the buffer of \<open>room\<close>
  bytes holds the packet, and \<open>show_packet\<close> prints it and may change the buffer.
\<close>

fun packet_loop ::
  "nat \<Rightarrow> (sender \<Rightarrow> u8 list \<Rightarrow> nat \<Rightarrow> (u8 list \<times> string) option) \<Rightarrow> u8 list \<Rightarrow>
   ((sender \<times> u8 list) option \<times> i32) list \<Rightarrow> string option" where
  "packet_loop room show_packet buffer [] = Some []"
| "packet_loop room show_packet buffer ((None, errno) # rs) = Some []"
| "packet_loop room show_packet buffer ((Some (s, d), errno) # rs) =
     (let d = take room d; n = length d; buffer = d @ drop n buffer
      in if n = 0 then Some []
         else do {
           (buffer, out) \<leftarrow> show_packet s buffer n;
           rest \<leftarrow> packet_loop room show_packet buffer rs;
           Some (out @ rest) })"

text \<open>\<open>raw_pf_stun.c\<close>\<close>

definition raw_stun_packet :: "sender \<Rightarrow> u8 list \<Rightarrow> nat \<Rightarrow> (u8 list \<times> string) option" where
  "raw_stun_packet s buffer n = do { t \<leftarrow> dump_raw buffer n; Some (buffer, from_text s n @ t) }"

definition raw_pf_stun :: "u8 list \<Rightarrow> ((sender \<times> u8 list) option \<times> i32) list \<Rightarrow> string option" where
  "raw_pf_stun buffer rs = packet_loop 1000 raw_stun_packet buffer (through stun_raw_filter rs)"

text \<open>The text up to the null byte written behind the packet.\<close>

definition data_text :: "u8 list \<Rightarrow> string option" where
  "data_text buffer = do {
     t \<leftarrow> c_string buffer 0;
     Some (''Data: <'' @ map (\<lambda>b. char_of (unat b)) t @ ''>'' @ newline) }"

text \<open>\<open>pf_udprecv.c\<close>\<close>

definition pf_udp_packet :: "sender \<Rightarrow> u8 list \<Rightarrow> nat \<Rightarrow> (u8 list \<times> string) option" where
  "pf_udp_packet s buffer n = do {
     buffer \<leftarrow> wr buffer n 0;
     t \<leftarrow> data_text buffer;
     Some (buffer, from_text s n @ t) }"

definition pf_udprecv :: "u8 list \<Rightarrow> ((sender \<times> u8 list) option \<times> i32) list \<Rightarrow> string option" where
  "pf_udprecv buffer rs = packet_loop 1000 pf_udp_packet buffer (through udp_port_filter rs)"

text \<open>\<open>raw_pf_udprecv.c\<close>\<close>

definition raw_udp_packet :: "sender \<Rightarrow> u8 list \<Rightarrow> nat \<Rightarrow> (u8 list \<times> string) option" where
  "raw_udp_packet s buffer n = do {
     buffer \<leftarrow> wr buffer n 0;
     t \<leftarrow> dump_raw buffer n;
     Some (buffer, from_text s n @ t) }"

definition raw_pf_udprecv :: "u8 list \<Rightarrow> ((sender \<times> u8 list) option \<times> i32) list \<Rightarrow> string option" where
  "raw_pf_udprecv buffer rs = packet_loop 1000 raw_udp_packet buffer (through lj_raw_filter rs)"

text \<open>\<open>udprecv.c\<close>: the filter sees the UDP header, the program the bytes behind it.  The own port is zero.\<close>

definition udp_packet :: "sender \<Rightarrow> u8 list \<Rightarrow> nat \<Rightarrow> (u8 list \<times> string) option" where
  "udp_packet s buffer n = do {
     buffer \<leftarrow> wr buffer n 0;
     t \<leftarrow> data_text buffer;
     Some (buffer, ''Received from '' @ fst s @ '' (ports '' @ dec (unat (snd s)) @ '',0) '' @ dec n @ '' bytes'' @ newline @ t) }"

definition udp_payload :: "(sender \<times> u8 list) option \<times> i32 \<Rightarrow> (sender \<times> u8 list) option \<times> i32" where
  "udp_payload r = (case r of (None, e) \<Rightarrow> (None, e) | (Some (s, d), e) \<Rightarrow> (Some (s, drop 8 d), e))"

definition udprecv :: "u8 list \<Rightarrow> ((sender \<times> u8 list) option \<times> i32) list \<Rightarrow> string option" where
  "udprecv buffer rs = packet_loop 1000 udp_packet buffer (map udp_payload (through lj_filter rs))"

text \<open>\<open>raw_pf_igmp.c\<close>: a packet with four bytes of IP options, and what is taken for its ports.\<close>

definition igmp_packet :: "i32 \<Rightarrow> u8 list \<Rightarrow> int \<Rightarrow> (string \<times> bool) option" where
  "igmp_packet errno buffer n =
     (let head = (if n < 0 then CHR ''-'' # dec (nat (- n)) else dec (nat n)) @ '' bytes read'' @ newline
      in if n < 42 then Some (head @ ''Incomplete packet (errno is '' @ fmt_d errno @ '')'' @ newline, False)
         else do {
           m1 \<leftarrow> mac_text ''Source MAC address: '' buffer 0;
           m2 \<leftarrow> mac_text ''Destination MAC address: '' buffer 6;
           v \<leftarrow> rd buffer 14;
           hosts \<leftarrow> (if v = 0x46 then do {
               h1 \<leftarrow> host_text ''Source host '' buffer 26;
               h2 \<leftarrow> host_text ''Dest host '' buffer 30;
               p1 \<leftarrow> map_option be_nat (rd_bytes buffer 34 2);
               p2 \<leftarrow> map_option be_nat (rd_bytes buffer 36 2);
               proto \<leftarrow> rd buffer 23;
               Some (h1 @ h2 @ ''Source,Dest ports '' @ dec p1 @ '','' @ dec p2 @ newline @
                     ''Layer-4 protocol '' @ dec (unat proto) @ newline) }
             else Some []);
           t \<leftarrow> dump_raw buffer (nat n);
           Some (head @ m1 @ m2 @ hosts @ t, True) })"

fun igmp_loop :: "u8 list \<Rightarrow> ((sender \<times> u8 list) option \<times> i32) list \<Rightarrow> string option" where
  "igmp_loop buffer [] = Some []"
| "igmp_loop buffer ((r, errno) # rs) =
     (let (buffer, n) = (case r of Some (s, d) \<Rightarrow> let d = take 100 d in (d @ drop (length d) buffer, int (length d)) | None \<Rightarrow> (buffer, - 1))
      in if n = 0 then Some []
         else do {
           (out, go) \<leftarrow> igmp_packet errno buffer n;
           if go then do { rest \<leftarrow> igmp_loop buffer rs; Some (out @ rest) } else Some out })"

definition raw_pf_igmp :: "u8 list \<Rightarrow> ((sender \<times> u8 list) option \<times> i32) list \<Rightarrow> string option" where
  "raw_pf_igmp buffer rs = igmp_loop buffer (through igmp_filter rs)"

text \<open>\<open>sniff_stun.c\<close> and \<open>mylpf5.c\<close> do not ask for the sender; their loops are the same.\<close>

definition sniffed :: "(sender \<times> u8 list) option \<times> i32 \<Rightarrow> u8 list option \<times> i32" where
  "sniffed r = (map_option (take 2048 \<circ> snd) (fst r), snd r)"

definition sniff_stun :: "u8 list \<Rightarrow> ((sender \<times> u8 list) option \<times> i32) list \<Rightarrow> string option" where
  "sniff_stun buffer rs = sniff_loop buffer (map sniffed (through stun_frame_filter rs))"

definition mylpf5 :: "u8 list \<Rightarrow> ((sender \<times> u8 list) option \<times> i32) list \<Rightarrow> string option" where
  "mylpf5 buffer rs = sniff_loop buffer (map sniffed (through port_filter rs))"

section \<open>What the filters accept\<close>

definition holds :: "u8 list \<Rightarrow> nat \<Rightarrow> nat \<Rightarrow> (u32 \<Rightarrow> bool) \<Rightarrow> bool" where
  "holds p off n P \<longleftrightarrow> (case ld p off n of None \<Rightarrow> False | Some v \<Rightarrow> P v)"

lemma load_then: "(case ld p off n of None \<Rightarrow> Some 0 | Some v \<Rightarrow> if P v then Some k else Some 0) = Some (if holds p off n P then k else 0)"
  by (simp add: holds_def split: option.split)

text \<open>The length of the IP header.\<close>

definition hlen :: "u32 \<Rightarrow> nat" where
  "hlen v = 4 * unat (v AND 15)"

lemma hlen_le: "hlen v \<le> 60"
proof -
  have "v AND 15 \<le> 15" by (rule word_and_le1)
  then have "unat (v AND 15) \<le> 15" by (simp add: word_le_nat_alt)
  then show ?thesis by (simp add: hlen_def)
qed

lemma index_off: "unat k < 1000 \<Longrightarrow> unat (4 * (v AND 15) + k :: u32) = hlen v + unat k"
proof -
  assume k: "unat k < 1000"
  have le: "unat (v AND 15) \<le> 15" using hlen_le [of v] by (simp add: hlen_def)
  have "unat (4 * (v AND 15)) = hlen v" using le by (simp add: unat_word_ariths hlen_def)
  then show ?thesis using k hlen_le [of v] by (simp add: unat_word_ariths)
qed

text \<open>An IP packet that is not for a multicast address and not a later fragment, and holds the start of a STUN request.\<close>

definition stun_packet :: "u8 list \<Rightarrow> bool" where
  "stun_packet q \<longleftrightarrow>
     holds q 16 1 (\<lambda>d. d < 0xe0) \<and> holds q 6 2 (\<lambda>f. f AND 0x1fff = 0) \<and>
     holds q 0 1 (\<lambda>v. holds q (hlen v + 8) 1 (\<lambda>t. t = 0) \<and> holds q (hlen v + 10) 2 (\<lambda>l. l AND 3 = 0) \<and>
                      holds q (hlen v + 12) 4 (\<lambda>c. c = 0x2112a442))"

lemma holds_None: "ld p off n = None \<Longrightarrow> \<not> holds p off n P"
  by (simp add: holds_def)

lemma holds_Some: "ld p off n = Some v \<Longrightarrow> holds p off n P = P v"
  by (simp add: holds_def)

lemma stun_raw_filter_keeps: "bpf stun_raw_filter q 0 0 = Some (if stun_packet q then 256 else 0)"
  unfolding stun_raw_filter_def stun_packet_def
  by (simp add: index_off holds_None holds_Some linorder_not_le split: option.split)

lemma stun_frame_filter_keeps:
  "bpf stun_frame_filter p 0 0 =
     Some (if holds p 12 2 (\<lambda>t. t = 0x800) \<and> holds p 30 1 (\<lambda>d. d < 0xe0) \<and> holds p 23 1 (\<lambda>t. t = 17) \<and>
              holds p 20 2 (\<lambda>f. f AND 0x1fff = 0) \<and>
              holds p 14 1 (\<lambda>v. holds p (hlen v + 22) 1 (\<lambda>t. t = 0) \<and> holds p (hlen v + 24) 2 (\<lambda>l. l AND 3 = 0) \<and>
                      holds p (hlen v + 26) 4 (\<lambda>c. c = 0x2112a442))
           then 1514 else 0)"
  unfolding stun_frame_filter_def
  by (simp add: index_off holds_None holds_Some linorder_not_le split: option.split)


lemma ld_behind: "length h = m \<Longrightarrow> ld (h @ q) (m + i) n = ld q i n"
  by (auto simp: ld_def rd_bytes_def)

lemma holds_behind: "length h = m \<Longrightarrow> holds (h @ q) (m + i) n P = holds q i n P"
  by (simp add: holds_def ld_behind)

lemma holds_before: "off + n \<le> length h \<Longrightarrow> holds (h @ q) off n P = holds h off n P"
  by (simp add: holds_def ld_def rd_bytes_def)

text \<open>
  C22: On an Ethernet frame the filter of \<open>sniff_stun.c\<close> keeps up to 1514 bytes exactly when the frame carries IPv4 and UDP and
  the packet behind the header is one the filter of \<open>raw_pf_stun.c\<close> keeps; that filter, which
  leaves these tests to the raw UDP socket, keeps up to 256 bytes of exactly the packets with the start of a STUN request.
\<close>

theorem stun_filters:
  assumes "length h = 14"
  shows "bpf stun_frame_filter (h @ q) 0 0 =
      Some (if holds h 12 2 (\<lambda>t. t = 0x800) \<and> holds q 9 1 (\<lambda>t. t = 17) \<and> stun_packet q then 1514 else 0) \<and>
    bpf stun_raw_filter q 0 0 = Some (if stun_packet q then 256 else 0)"
proof -
  have b: "holds (h @ q) 30 1 P = holds q 16 1 P" "holds (h @ q) 23 1 P = holds q 9 1 P" "holds (h @ q) 20 2 P = holds q 6 2 P"
    "holds (h @ q) 14 1 P = holds q 0 1 P" "holds (h @ q) (k + 22) 1 P = holds q (k + 8) 1 P"
    "holds (h @ q) (k + 24) 2 P = holds q (k + 10) 2 P" "holds (h @ q) (k + 26) 4 P = holds q (k + 12) 4 P" for P k
    using holds_behind [OF assms, of q 16 1 P] holds_behind [OF assms, of q 9 1 P] holds_behind [OF assms, of q 6 2 P]
      holds_behind [OF assms, of q 0 1 P] holds_behind [OF assms, of q "k + 8" 1 P]
      holds_behind [OF assms, of q "k + 10" 2 P] holds_behind [OF assms, of q "k + 12" 4 P]
    by (simp_all add: ac_simps)
  show ?thesis
    unfolding stun_frame_filter_keeps b stun_packet_def stun_raw_filter_keeps using assms by (auto simp: holds_before)
qed

text \<open>A STUN request from port 3478 with a zero fragment offset.\<close>

definition sample_request :: "u8 list" where
  "sample_request = [0x45, 0, 0, 48, 0, 0, 0, 0, 64, 17, 0, 0, 10, 0, 0, 1, 10, 0, 0, 2] @ [0xd, 0x96, 0xd, 0x96, 0, 28, 0, 0] @
     [0, 1, 0, 0, 0x21, 0x12, 0xa4, 0x42]"

lemma sample_request_loads:
  "ld sample_request 16 1 = Some 10" "ld sample_request 6 2 = Some 0" "ld sample_request 0 1 = Some 0x45"
  "ld sample_request 28 1 = Some 0" "ld sample_request 30 2 = Some 0" "ld sample_request 32 4 = Some 0x2112a442"
  "ld sample_request 9 1 = Some 17" "ld [0, 0, 0, 0, 0, 0, 0, 0, 0, 0, 0, 0, 8, 0] 12 2 = Some 0x800"
  by (simp_all add: sample_request_def ld_def rd_bytes_def)

lemma stun_packet_sample: "stun_packet sample_request"
  by (simp add: stun_packet_def holds_def sample_request_loads [unfolded One_nat_def] hlen_def)

theorem stun_filters_witness:
  "bpf stun_frame_filter ([0, 0, 0, 0, 0, 0, 0, 0, 0, 0, 0, 0, 8, 0] @ sample_request) 0 0 = Some 1514 \<and>
   bpf stun_raw_filter sample_request 0 0 = Some 256"
  using stun_filters [of "[0, 0, 0, 0, 0, 0, 0, 0, 0, 0, 0, 0, 8, 0]" sample_request] stun_packet_sample
  by (simp add: holds_def sample_request_loads [unfolded One_nat_def] del: append.simps)

text \<open>Such a packet with a whole IP header has the UDP header and the first eight bytes of STUN.\<close>

lemma holds_length: "holds p off n P \<Longrightarrow> off + n \<le> length p"
  by (auto simp: holds_def ld_def rd_bytes_def split: option.split_asm if_split_asm)

lemma stun_packet_length: "stun_packet q \<Longrightarrow> holds q 0 1 (\<lambda>v. hlen v + 16 \<le> length q)"
  using holds_length [of q "hlen v + 12" 4 "\<lambda>c. c = 0x2112a442" for v]
  by (auto simp: stun_packet_def holds_def [of q 0] add.commute split: option.split_asm)

section \<open>Datagrams of a port\<close>

definition port_pair :: "u8 list \<Rightarrow> nat \<Rightarrow> nat \<Rightarrow> bool" where
  "port_pair p src dst \<longleftrightarrow> holds p src 2 (\<lambda>s. s = 6600 \<or> holds p dst 2 (\<lambda>d. d = 6600))"

definition udp4_port :: "u8 list \<Rightarrow> bool" where
  "udp4_port p \<longleftrightarrow> holds p 23 1 (\<lambda>t. t = 17) \<and> holds p 20 2 (\<lambda>f. f AND 0x1fff = 0) \<and>
     holds p 14 1 (\<lambda>v. port_pair p (hlen v + 14) (hlen v + 16))"

definition udp6_port :: "u8 list \<Rightarrow> bool" where
  "udp6_port p \<longleftrightarrow> holds p 20 1 (\<lambda>t. t = 17) \<and> port_pair p 54 56"

lemmas port_defs = udp4_port_def udp6_port_def port_pair_def index_off holds_None holds_Some linorder_not_le

lemma ethertype_cases [case_names short ip ip6 other]:
  "\<lbrakk>ld p 12 2 = None \<Longrightarrow> R; ld p 12 2 = Some 0x800 \<Longrightarrow> R; ld p 12 2 = Some 0x86dd \<Longrightarrow> R;
    \<And>t. \<lbrakk>ld p 12 2 = Some t; t \<noteq> 0x800; t \<noteq> 0x86dd\<rbrakk> \<Longrightarrow> R\<rbrakk> \<Longrightarrow> R"
  by (cases "ld p 12 2") auto

lemma udp_port_filter_keeps:
  "bpf udp_port_filter p 0 0 =
     Some (if holds p 12 2 (\<lambda>t. t = 0x86dd \<and> udp6_port p \<or> t = 0x800 \<and> udp4_port p) then 96 else 0)"
proof (cases p rule: ethertype_cases)
  case short
  then show ?thesis by (simp add: udp_port_filter_def port_defs)
next
  case ip
  then show ?thesis unfolding udp_port_filter_def by (simp add: port_defs split: option.split)
next
  case ip6
  then show ?thesis unfolding udp_port_filter_def by (simp add: port_defs split: option.split)
next
  case (other t)
  then show ?thesis unfolding udp_port_filter_def by (simp add: port_defs)
qed

lemma port_filter_keeps:
  "bpf port_filter p 0 0 =
     Some (if holds p 12 2 (\<lambda>t. t = 0x86dd \<and> udp6_port p \<or> t = 0x800 \<and> holds p 30 1 (\<lambda>d. d < 0xe0) \<and> udp4_port p) then 256 else 0)"
proof (cases p rule: ethertype_cases)
  case short
  then show ?thesis by (simp add: port_filter_def port_defs)
next
  case ip
  then show ?thesis unfolding port_filter_def by (simp add: port_defs split: option.split)
next
  case ip6
  then show ?thesis unfolding port_filter_def by (simp add: port_defs split: option.split)
next
  case (other t)
  then show ?thesis unfolding port_filter_def by (simp add: port_defs)
qed

lemma igmp_filter_keeps:
  "bpf igmp_filter p 0 0 = Some (if holds p 12 2 (\<lambda>t. t = 0x800) \<and> holds p 23 1 (\<lambda>t. t = 2) then 96 else 0)"
  unfolding igmp_filter_def by (simp add: holds_None holds_Some split: option.split)

lemma lj_filters_keep:
  "bpf lj_raw_filter p 0 0 = Some (if holds p 28 2 (\<lambda>t. t = 0x6c6a) then 256 else 0)"
  "bpf lj_filter p 0 0 = Some (if holds p 8 2 (\<lambda>t. t = 0x6c6a) then 256 else 0)"
  unfolding lj_raw_filter_def lj_filter_def by (simp_all add: holds_None holds_Some split: option.split)

text \<open>The two filters of port 6600 differ in the multicast addresses only.\<close>

lemma port_filters_agree:
  "(bpf port_filter p 0 0 = Some 256) =
   (bpf udp_port_filter p 0 0 = Some 96 \<and> \<not> (holds p 12 2 (\<lambda>t. t = 0x800) \<and> \<not> holds p 30 1 (\<lambda>d. d < 0xe0)))"
  by (cases p rule: ethertype_cases) (auto simp: udp_port_filter_keeps port_filter_keeps holds_None holds_Some)

section \<open>The receivers stay within their buffers\<close>

definition lengths_le :: "nat \<Rightarrow> ((sender \<times> u8 list) option \<times> i32) list \<Rightarrow> bool" where
  "lengths_le m rs \<longleftrightarrow> (\<forall>s d e. (Some (s, d), e) \<in> set rs \<longrightarrow> length d \<le> m)"

lemma lengths_le_Cons:
  "lengths_le m (r # rs) \<longleftrightarrow> (case fst r of None \<Rightarrow> True | Some (s, d) \<Rightarrow> length d \<le> m) \<and> lengths_le m rs"
  by (cases r) (auto simp: lengths_le_def split: option.split)

lemma through_bound:
  assumes "\<And>p. \<exists>b. bpf prog p 0 0 = Some (if b then k else 0)"
  shows "lengths_le (unat k) (through prog rs)"
proof -
  have "length d' \<le> unat k" if "cut prog d = Some d'" for d d'
    using assms [of d] that by (auto simp: cut_def split: if_splits)
  then show ?thesis by (auto simp: lengths_le_def through_def split: option.splits)
qed

lemma udp_payload_bound: "lengths_le m rs \<Longrightarrow> lengths_le m (map udp_payload rs)"
  by (fastforce simp: lengths_le_def udp_payload_def split: option.splits prod.splits dest: le_trans [OF diff_le_self])

text \<open>The output of a packet of at most \<open>m\<close> bytes is defined and keeps the size of the buffer.\<close>

definition shows_up_to :: "nat \<Rightarrow> (sender \<Rightarrow> u8 list \<Rightarrow> nat \<Rightarrow> (u8 list \<times> string) option) \<Rightarrow> bool" where
  "shows_up_to m f \<longleftrightarrow> (\<forall>s buffer n. length buffer = 1000 \<longrightarrow> n \<le> m \<longrightarrow> (\<exists>b t. f s buffer n = Some (b, t) \<and> length b = 1000))"

lemma packet_loop_defined:
  "\<lbrakk>shows_up_to m f; lengths_le m rs; m \<le> 1000; length buffer = 1000\<rbrakk> \<Longrightarrow> packet_loop 1000 f buffer rs \<noteq> None"
proof (induction rs arbitrary: buffer)
  case (Cons r rs)
  obtain x e where r: "r = (x, e)" by (cases r)
  show ?case
  proof (cases x)
    case None
    then show ?thesis by (simp add: r)
  next
    case (Some sd)
    obtain s d where sd: "sd = (s, d)" by (cases sd)
    have d: "length d \<le> m" "lengths_le m rs" using Cons.prems(2) by (simp_all add: lengths_le_Cons r Some sd)
    have "length (d @ drop (length d) buffer) = 1000" using d Cons.prems(3,4) by simp
    then obtain b t where b: "f s (d @ drop (length d) buffer) (length d) = Some (b, t)" "length b = 1000"
      using Cons.prems(1) d(1) unfolding shows_up_to_def by blast
    have "packet_loop 1000 f b rs \<noteq> None" by (rule Cons.IH [OF Cons.prems(1) d(2) Cons.prems(3) b(2)])
    then show ?thesis using d(1) Cons.prems(3) b(1) by (auto simp: r Some sd Let_def)
  qed
qed simp

lemma c_string_defined: "0 \<in> set bs \<Longrightarrow> \<exists>t. c_string bs 0 = Some t"
  by (simp add: c_string_def)

lemma dump_raw_defined: "n \<le> length buf \<Longrightarrow> \<exists>t. dump_raw buf n = Some t"
  using raw_loop_defined [of 0 n buf] by (auto simp: dump_raw_def)

lemma data_text_defined: "n < length buffer \<Longrightarrow> \<exists>t. data_text (buffer[n := 0]) = Some t"
  using c_string_defined [of "buffer[n := 0]"] set_update_memI [of n buffer 0] by (auto simp: data_text_def)

lemma packets_shown:
  "shows_up_to 1000 raw_stun_packet" "shows_up_to 999 pf_udp_packet" "shows_up_to 999 raw_udp_packet" "shows_up_to 999 udp_packet"
proof -
  have w: "wr buffer n 0 = Some (buffer[n := 0])" if "length buffer = 1000" "n \<le> 999" for buffer :: "u8 list" and n
    using that by (simp add: arr_simps)
  show "shows_up_to 1000 raw_stun_packet"
    unfolding shows_up_to_def
  proof (intro allI impI)
    fix s :: sender and buffer and n :: nat assume a: "length (buffer :: u8 list) = 1000" "n \<le> 1000"
    then obtain t where "dump_raw buffer n = Some t" using dump_raw_defined [of n buffer] by auto
    then show "\<exists>b t. raw_stun_packet s buffer n = Some (b, t) \<and> length b = 1000" by (simp add: raw_stun_packet_def a)
  qed
  show "shows_up_to 999 raw_udp_packet"
    unfolding shows_up_to_def
  proof (intro allI impI)
    fix s :: sender and buffer and n :: nat assume a: "length (buffer :: u8 list) = 1000" "n \<le> 999"
    then obtain t where "dump_raw (buffer[n := 0]) n = Some t" using dump_raw_defined [of n "buffer[n := 0]"] by auto
    then show "\<exists>b t. raw_udp_packet s buffer n = Some (b, t) \<and> length b = 1000" by (simp add: raw_udp_packet_def w a)
  qed
  have d: "\<exists>t. data_text (buffer[n := 0]) = Some t" if "length buffer = 1000" "n \<le> 999" for buffer n
    using that data_text_defined [of n buffer] by simp
  show "shows_up_to 999 pf_udp_packet" "shows_up_to 999 udp_packet"
    unfolding shows_up_to_def
  proof (safe, goal_cases)
    case (1 a b buffer n)
    then show ?case using d [of buffer n] by (auto simp: pf_udp_packet_def w)
  next
    case (2 a b buffer n)
    then show ?case using d [of buffer n] by (auto simp: udp_packet_def w)
  qed
qed

lemma shows_up_to_le: "shows_up_to m f \<Longrightarrow> n \<le> m \<Longrightarrow> shows_up_to n f"
  unfolding shows_up_to_def by (blast intro: le_trans)

text \<open>Without its filter a datagram of 1000 bytes would be ended behind the buffer.\<close>

lemma packet_overrun: "length buffer = 1000 \<Longrightarrow> pf_udp_packet s buffer 1000 = None \<and> udp_packet s buffer 1000 = None"
proof -
  assume "length buffer = 1000"
  then have "wr buffer 1000 0 = None" by (simp add: wr_def)
  then show ?thesis unfolding pf_udp_packet_def udp_packet_def by (simp only: Option.bind.simps)
qed

lemma recv_through:
  assumes "\<And>p. \<exists>b. bpf prog p 0 0 = Some (if b then k else 0)" "unat k \<le> m" "m \<le> 1000" "shows_up_to m f" "length buffer = 1000"
  shows "packet_loop 1000 f buffer (through prog rs) \<noteq> None" "packet_loop 1000 f buffer (map udp_payload (through prog rs)) \<noteq> None"
proof -
  have b: "lengths_le (unat k) (through prog rs)" using assms(1) by (rule through_bound)
  then have b': "lengths_le (unat k) (map udp_payload (through prog rs))" by (rule udp_payload_bound)
  have f: "shows_up_to (unat k) f" using assms(4,2) by (rule shows_up_to_le)
  have k: "unat k \<le> 1000" using assms(2,3) by linarith
  show "packet_loop 1000 f buffer (through prog rs) \<noteq> None" "packet_loop 1000 f buffer (map udp_payload (through prog rs)) \<noteq> None"
    using packet_loop_defined [OF f b k assms(5)] packet_loop_defined [OF f b' k assms(5)] by blast+
qed

lemma igmp_packet_safe:
  assumes "n \<le> int (length buffer)"
  shows "igmp_packet errno buffer n \<noteq> None"
proof (cases "n < 42")
  case True
  then show ?thesis by (simp add: igmp_packet_def)
next
  case False
  have texts: "i + 6 \<le> length buffer \<Longrightarrow> \<exists>t. mac_text s buffer i = Some t"
    "i + 4 \<le> length buffer \<Longrightarrow> \<exists>t. host_text s buffer i = Some t" for i s
    by (simp_all add: mac_text_def host_text_def rd_bytes_def)
  have l: "42 \<le> length buffer" using False assms by linarith
  then obtain m1 m2 h1 h2 where t: "mac_text ''Source MAC address: '' buffer 0 = Some m1"
    "mac_text ''Destination MAC address: '' buffer 6 = Some m2" "host_text ''Source host '' buffer 26 = Some h1"
    "host_text ''Dest host '' buffer 30 = Some h2"
    using texts [of 0] texts [of 6] texts [of 26] texts [of 30] by fastforce
  obtain p1 p2 where p: "rd_bytes buffer 34 2 = Some p1" "rd_bytes buffer 36 2 = Some p2" using l by (simp add: rd_bytes_def)
  obtain v proto where v: "rd buffer 14 = Some v" "rd buffer 23 = Some proto" using l by (simp add: rd_def)
  obtain s where s: "dump_raw buffer (nat n) = Some s" using dump_raw_defined [of "nat n" buffer] assms by fastforce
  show ?thesis using False unfolding igmp_packet_def Let_def t p v s option.map Option.bind.simps by (auto simp del: append.simps)
qed

lemma igmp_loop_safe: "lengths_le 96 rs \<Longrightarrow> length buffer = 100 \<Longrightarrow> igmp_loop buffer rs \<noteq> None"
proof (induction rs arbitrary: buffer)
  case (Cons re rs)
  obtain r e where re: "re = (r, e)" by (cases re)
  define buf where "buf = (case r of Some (s, d) \<Rightarrow> take 100 d @ drop (length (take 100 d)) buffer | None \<Rightarrow> buffer)"
  define n where "n = (case r of Some (s, d) \<Rightarrow> int (length (take 100 d)) | None \<Rightarrow> - 1)"
  have l: "length buf = 100" "n \<le> int (length buf)" using Cons.prems by (auto simp: buf_def n_def re split: option.splits)
  then obtain out go where o: "igmp_packet e buf n = Some (out, go)" using igmp_packet_safe by fastforce
  have "igmp_loop buf rs \<noteq> None" using Cons.IH [of buf] Cons.prems l(1) by (simp add: lengths_le_Cons)
  then show ?case using o by (cases r) (auto simp: buf_def n_def re Let_def)
qed simp

lemma sniff_through_safe: "length buffer = 2048 \<Longrightarrow> sniff_loop buffer (map sniffed rs) \<noteq> None"
proof (rule sniff_loop_safe, intro allI impI)
  fix d e assume l: "length buffer = 2048" and "(Some d, e) \<in> set (map sniffed rs)"
  then have "length d \<le> 2048" by (auto simp: sniffed_def map_option_case split: option.split_asm)
  then show "length d \<le> length buffer" using l by simp
qed

text \<open>
  Whatever packets and errors arrive, none of the programs reads or writes outside its buffer.  For \<open>pf_udprecv.c\<close>,
  \<open>raw_pf_udprecv.c\<close> and \<open>udprecv.c\<close>, which end the packet with a zero behind it, this rests on the filter: it keeps at
  most 256 bytes, while a packet that fills the buffer would be ended behind it.
\<close>

theorem receivers_in_bounds:
  "raw_pf_stun (map junk [0..<1000]) rs \<noteq> None \<and> pf_udprecv (map junk [0..<1000]) rs \<noteq> None \<and>
   raw_pf_udprecv (map junk [0..<1000]) rs \<noteq> None \<and> udprecv (map junk [0..<1000]) rs \<noteq> None \<and>
   raw_pf_igmp (map junk [0..<100]) rs \<noteq> None \<and>
   sniff_stun (map junk [0..<2048]) rs \<noteq> None \<and> mylpf5 (map junk [0..<2048]) rs \<noteq> None"
proof -
  have l: "length (map junk [0..<n]) = n" for n by simp
  have keep: "\<exists>b. bpf stun_raw_filter p 0 0 = Some (if b then 256 else 0)" "\<exists>b. bpf udp_port_filter p 0 0 = Some (if b then 96 else 0)"
    "\<exists>b. bpf lj_raw_filter p 0 0 = Some (if b then 256 else 0)" "\<exists>b. bpf lj_filter p 0 0 = Some (if b then 256 else 0)"
    "\<exists>b. bpf igmp_filter p 0 0 = Some (if b then 96 else 0)" for p
    using stun_raw_filter_keeps udp_port_filter_keeps lj_filters_keep igmp_filter_keeps by blast+
  have "raw_pf_stun (map junk [0..<1000]) rs \<noteq> None"
    unfolding raw_pf_stun_def by (rule recv_through(1) [OF keep(1) _ _ packets_shown(1) l]) simp_all
  moreover have "pf_udprecv (map junk [0..<1000]) rs \<noteq> None"
    unfolding pf_udprecv_def by (rule recv_through(1) [OF keep(2) _ _ packets_shown(2) l]) simp_all
  moreover have "raw_pf_udprecv (map junk [0..<1000]) rs \<noteq> None"
    unfolding raw_pf_udprecv_def by (rule recv_through(1) [OF keep(3) _ _ packets_shown(3) l]) simp_all
  moreover have "udprecv (map junk [0..<1000]) rs \<noteq> None"
    unfolding udprecv_def by (rule recv_through(2) [OF keep(4) _ _ packets_shown(4) l]) simp_all
  moreover have "raw_pf_igmp (map junk [0..<100]) rs \<noteq> None"
    unfolding raw_pf_igmp_def using through_bound [OF keep(5)] l by (intro igmp_loop_safe) simp_all
  moreover have "sniff_stun (map junk [0..<2048]) rs \<noteq> None" "mylpf5 (map junk [0..<2048]) rs \<noteq> None"
    unfolding sniff_stun_def mylpf5_def by (rule sniff_through_safe [OF l])+
  ultimately show ?thesis by blast
qed

end
