(* ===== verification/Layout.thy ===== *)
theory Layout
  imports PacketCheck
begin

text \<open>
  The layouts of the packet headers in \<open>src/sizeof_hdr.cpp\<close> and \<open>src/cds_tcp_hdr.cpp\<close>: each class is a value of a type of
  C types, with the packing in force where it is declared, and \<open>sizeof\<close> is computed as on the LP64 machine.  The two programs
  print the sizes, and the second checks them.  \<open>CONFIG_AVSM\<close> is an argument where the source tests it.  \<open>None\<close> is a
  read outside the test packet or a failed assertion.
\<close>

section \<open>Types and their sizes\<close>

text \<open>
  A scalar has its size; a class its packing and members, its base first; a union its members.  A bit field has the size of
  its type and its width.  The packing without a pragma is 16, above all alignments.
\<close>

datatype ctype =
    Scalar nat
  | Arr ctype nat
  | Class nat "cfield list"
  | Union nat "cfield list"
and cfield =
    Field string ctype
  | Bits string nat nat

abbreviation (input) no_pack :: nat where "no_pack \<equiv> 16"
abbreviation (input) uchar :: ctype where "uchar \<equiv> Scalar 1"
abbreviation (input) ushort :: ctype where "ushort \<equiv> Scalar 2"
abbreviation (input) uint :: ctype where "uint \<equiv> Scalar 4"
abbreviation (input) uint64 :: ctype where "uint64 \<equiv> Scalar 8"

fun align_of :: "ctype \<Rightarrow> nat" and aligns :: "nat \<Rightarrow> cfield list \<Rightarrow> nat" where
  "align_of (Scalar n) = n"
| "align_of (Arr t n) = align_of t"
| "align_of (Class p fs) = aligns p fs"
| "align_of (Union p fs) = aligns p fs"
| "aligns p [] = 1"
| "aligns p (Field s t # fs) = max (min p (align_of t)) (aligns p fs)"
| "aligns p (Bits s u w # fs) = max (min p u) (aligns p fs)"

text \<open>The next multiple.\<close>

definition up :: "nat \<Rightarrow> nat \<Rightarrow> nat" where
  "up a n = (n + a - 1) div a * a"

text \<open>Where a member starts, in bits, when the members before it end at bit \<open>pos\<close>: a bit field does not cross a unit of its type.\<close>

definition field_at :: "nat \<Rightarrow> nat \<Rightarrow> nat \<Rightarrow> nat" where
  "field_at p a pos = 8 * up (min p a) (up 8 pos div 8)"

definition bits_at :: "nat \<Rightarrow> nat \<Rightarrow> nat \<Rightarrow> nat \<Rightarrow> nat" where
  "bits_at p u w pos = (if u \<le> p \<and> 8 * u < pos mod (8 * u) + w then up (8 * u) pos else pos)"

fun size_of :: "ctype \<Rightarrow> nat" and class_end :: "nat \<Rightarrow> nat \<Rightarrow> cfield list \<Rightarrow> nat" and union_end :: "cfield list \<Rightarrow> nat" where
  "size_of (Scalar n) = n"
| "size_of (Arr t n) = n * size_of t"
| "size_of (Class p fs) = up (aligns p fs) (up 8 (class_end p 0 fs) div 8)"
| "size_of (Union p fs) = up (aligns p fs) (up 8 (union_end fs) div 8)"
| "class_end p pos [] = pos"
| "class_end p pos (Field s t # fs) = class_end p (field_at p (align_of t) pos + 8 * size_of t) fs"
| "class_end p pos (Bits s u w # fs) = class_end p (bits_at p u w pos + w) fs"
| "union_end [] = 0"
| "union_end (Field s t # fs) = max (8 * size_of t) (union_end fs)"
| "union_end (Bits s u w # fs) = max w (union_end fs)"

text \<open>The names of the members with the bits at which they start.\<close>

fun starts :: "nat \<Rightarrow> nat \<Rightarrow> cfield list \<Rightarrow> (string \<times> nat) list" where
  "starts p pos [] = []"
| "starts p pos (Field s t # fs) = (let i = field_at p (align_of t) pos in (s, i) # starts p (i + 8 * size_of t) fs)"
| "starts p pos (Bits s u w # fs) = (let i = bits_at p u w pos in (s, i) # starts p (i + w) fs)"

section \<open>The headers of \<open>sizeof_hdr.cpp\<close>\<close>

definition AvsmHeader :: ctype where
  "AvsmHeader = Class 1 [Field ''m_avsmHeader'' (Arr uchar 32)]"

definition EthernetHeader :: ctype where
  "EthernetHeader = Class 1
     [Field ''m_destinationMacAddress'' (Arr uchar 6), Field ''m_sourceMacAddress'' (Arr uchar 6),
      Field ''m_ethernetProtocolType'' ushort]"

definition IpHeader :: ctype where
  "IpHeader = Class 1
     [Bits ''m_ipHeaderLength'' 1 4, Bits ''m_ipVersion'' 1 4,
      Field [] (Union 1
        [Field [] (Class 1 [Bits ''m_explicitCongestionNotification'' 1 2, Bits ''m_differentiatedServicesCodePoint'' 1 6]),
         Field ''m_diffServField'' uchar]),
      Field ''m_totalLength'' ushort, Field ''m_fragmentId'' ushort, Field ''m_fragmentOffsetAndFlags'' ushort,
      Field ''m_timeToLive'' uchar, Field ''m_ipProtocolType'' uchar, Field ''m_ipHeaderChecksum'' ushort,
      Field ''m_sourceIpAddress'' uint, Field ''m_destinationIpAddress'' uint]"

definition UdpHeader :: ctype where
  "UdpHeader = Class 1
     [Field ''m_sourcePort'' ushort, Field ''m_destinationPort'' ushort, Field ''m_lengthInBytes'' ushort, Field ''m_checksum'' ushort]"

definition StandardPacketHeader :: "bool \<Rightarrow> ctype" where
  "StandardPacketHeader avsm = Class 1
     [if avsm then Field ''m_avsmHeader'' AvsmHeader else Field ''m_ethernetHeader'' EthernetHeader,
      Field ''m_ipHeader'' IpHeader, Field ''m_udpHeader'' UdpHeader]"

definition PADDING_SIZE :: nat where
  "PADDING_SIZE = 2"

definition AlignedStandardPacketHeader :: "bool \<Rightarrow> ctype" where
  "AlignedStandardPacketHeader avsm = Class 1
     [Field ''StandardPacketHeader'' (StandardPacketHeader avsm), Field ''m_padToAlignCalypsoHeader'' (Arr uchar PADDING_SIZE)]"

definition CalypsoHeader :: ctype where
  "CalypsoHeader = Class no_pack
     [Field ''m_opcode'' uint, Field ''m_messageId'' uint,
      Field [] (Union no_pack
        [Field [] (Class no_pack [Bits ''m_pathSequence'' 4 16, Bits ''m_pathIndex'' 4 8, Bits ''m_unused'' 4 8]),
         Field ''m_pathFields'' uint]),
      Field ''m_length'' uint]"

definition CalypsoPacketHeader :: "bool \<Rightarrow> ctype" where
  "CalypsoPacketHeader avsm = Class 1
     [Field ''AlignedStandardPacketHeader'' (AlignedStandardPacketHeader avsm), Field ''m_calypsoHeader'' CalypsoHeader]"

definition AdapterInfo :: ctype where
  "AdapterInfo = Class 4
     [Field ''m_macAddress'' uint64, Field ''m_ipAddress'' uint, Field ''m_streamUdpPort'' ushort,
      Field ''m_fillUdpPort'' ushort, Field ''m_activeBandwidthInMegabits'' uint]"

definition MAX_NICS :: nat where
  "MAX_NICS = 16"

definition mp_hdr :: ctype where
  "mp_hdr = Class 1 [Field ''m_version'' uchar, Field ''m_revision'' uchar]"

definition L3mp_hdr :: ctype where
  "L3mp_hdr = Class 1
     [Field ''mp_hdr'' mp_hdr, Field ''m_groupId'' ushort, Field ''m_serverId'' ushort,
      Field [] (Union 1
        [Field [] (Class 1 [Bits ''m_isVault'' 2 1, Bits ''m_isStreamer'' 2 1, Bits ''m_isCache'' 2 1,
           Bits ''m_isGoingOffline'' 2 1, Bits ''m_discardsUnsupportedRequests'' 2 1]),
         Field ''m_flags'' ushort]),
      Field ''m_arrayId'' uint, Field ''m_masterGoid'' uint64,
      Field ''m_numberOfAdapters'' uint, Field ''m_adapterInfo'' (Arr AdapterInfo MAX_NICS),
      Field ''m_firstSecondsSince1970'' uint, Field ''m_startSecondsSince1970'' uint,
      Field ''m_lastStartSecondsSince1970'' uint, Field ''m_lastLastSecondsSince1970'' uint]"

definition L3monitor_packet :: "bool \<Rightarrow> ctype" where
  "L3monitor_packet avsm = Class 1 [Field ''CalypsoPacketHeader'' (CalypsoPacketHeader avsm), Field ''mpheader'' L3mp_hdr]"

definition DataHeader :: ctype where
  "DataHeader = Class 4
     [Field ''m_goid'' uint64, Field ''m_sectorOffset'' uint, Field ''m_lengthInSectors'' uint, Field ''m_handle'' uint,
      Bits ''m_raidSize'' 4 4, Bits ''m_raidSequence'' 4 4, Bits ''m_unusedFlagBits'' 4 8, Bits ''m_serverID'' 4 16]"

definition DataPacketHeader :: "bool \<Rightarrow> ctype" where
  "DataPacketHeader avsm = Class 1 [Field ''CalypsoPacketHeader'' (CalypsoPacketHeader avsm), Field ''m_dataHeader'' DataHeader]"

text \<open>A member of class type \<open>WrappingUint\<close> has its one value.\<close>

definition WrappingUint :: ctype where
  "WrappingUint = Class no_pack [Field ''m_value'' uint]"

definition ControlPacket :: "bool \<Rightarrow> ctype" where
  "ControlPacket avsm = Class 1
     [Field ''AlignedStandardPacketHeader'' (AlignedStandardPacketHeader avsm),
      Field ''m_legacyOpcode'' uchar, Field ''m_protocolLevel'' uchar,
      Field [] (Union 1
        [Field [] (Class 1 [Bits ''m_isAckOnly'' 2 1, Bits ''m_killPartnerRequested'' 2 1]), Field ''m_flags'' ushort]),
      Field ''m_payloadOffset'' ushort, Field ''m_packetLength'' ushort,
      Field ''m_sourceGroupId'' uint, Field ''m_sourceServerId'' uint, Field ''m_sourceEpoch'' uint, Field ''m_destEpoch'' uint,
      Field ''m_packetSequence'' WrappingUint, Field ''m_myDataAck'' WrappingUint, Field ''m_remoteDataAck'' WrappingUint,
      Field ''m_reserved1'' uint, Field ''m_reserved2'' uint]"

definition ccp_flags1 :: ctype where
  "ccp_flags1 = Class 4
     [Bits ''extendedStreamPriority'' 4 4, Bits ''isDataDownload'' 4 1, Bits ''isDecommissioned'' 4 1,
      Bits ''adjustStartOffsetToAllocationUnitBoundaries'' 4 1, Bits ''adjustEndOffsetToAllocationUnitBoundaries'' 4 1,
      Bits ''isCannotBeRepaired'' 4 1, Bits ''verifyObjectAvailable'' 4 1, Bits ''objectAvailableRemotely'' 4 1,
      Bits ''isIGate'' 4 1, Bits ''skipBits'' 4 4, Bits ''fillFromServerId'' 4 16]"

definition ccp_flags :: ctype where
  "ccp_flags = Class 4
     [Bits ''raidSize'' 4 4, Bits ''raidSequence'' 4 4, Bits ''raidFinalSectors'' 4 6, Bits ''streamPriority'' 4 2,
      Bits ''lastByteOffset'' 4 9, Bits ''reverse'' 4 1, Bits ''isLengthOfObject'' 4 1, Bits ''isCanceled'' 4 1,
      Bits ''noCapacity'' 4 1, Bits ''isDamaged'' 4 1, Bits ''isBeingFilled'' 4 1, Bits ''killYourself'' 4 1]"

text \<open>The members of the structure inside; an unnamed union goes by its first member.\<close>

definition ccp_fields :: "cfield list" where
  "ccp_fields =
     [Field ''offset'' uint, Field ''length'' uint, Field ''deadline'' uint, Field ''minbw'' uint, Field ''maxbw'' uint,
      Field ''startTime'' (Union 4 [Field ''startTime'' uint, Field ''outgoingCapacity'' uint]),
      Field ''maximumStartDelayTime'' (Union 4 [Field ''maximumStartDelayTime'' uint, Field ''currentEndOffset'' uint]),
      Field ''burstAheadTime'' (Union 4 [Field ''burstAheadTime'' uint, Field ''bitrate'' uint]),
      Field ''burstTransferRate'' uint,
      Field ''target'' (Union 4 [Field ''target'' uint64, Field ''lengthOfObject'' uint]),
      Field ''zeroFlags1'' (Union 4 [Field [] ccp_flags1, Field ''zeroFlags1'' uint]),
      Field ''realbitrate'' uint,
      Field ''zeroFlags'' (Union 4 [Field [] ccp_flags, Field ''zeroFlags'' uint])]"

definition ccp_data :: ctype where
  "ccp_data = Class 4
     [Field ''m_opcode'' ushort, Field ''__padding'' ushort, Field [] (Union 4 [Field [] (Class 4 ccp_fields)])]"

definition ccp_hdr :: ctype where
  "ccp_hdr = Class 1
     [Field ''transfer_id'' uint, Field ''sequence_id'' uint, Field ''offset'' uint64, Field ''length'' uint,
      Field ''response_id'' uint, Field ''server_id'' ushort, Field ''__padding'' ushort, Field ''flags'' uint]"

definition OldControlPacketHeader :: "bool \<Rightarrow> ctype" where
  "OldControlPacketHeader avsm = Class no_pack
     [Field ''CalypsoPacketHeader'' (CalypsoPacketHeader avsm), Field ''m_ccpHeader'' ccp_hdr, Field ''m_ccpData'' ccp_data]"

definition kfa_rbih_hdr_t :: ctype where
  "kfa_rbih_hdr_t = Class 1
     [Field ''ecpu_mcast'' uchar, Field ''vqi'' uchar, Field ''mgid'' ushort,
      Field ''de_cos'' uchar, Field ''rsvd1_23_16'' uchar, Field ''nph_type'' uchar, Field ''flags_and_len'' uchar,
      Field ''rsvd2'' uint,
      Field ''ethertype'' ushort, Field ''usr_pri'' uchar, Field ''fpga_flags'' uchar,
      Field ''rsvd4'' (Arr uchar 7)]"

section \<open>The headers of \<open>cds_tcp_hdr.cpp\<close>\<close>

definition MACAddress :: ctype where
  "MACAddress = Class no_pack [Field ''addr'' (Arr uchar 6)]"

definition MACHeader :: ctype where
  "MACHeader = Class 1 [Field ''destination'' MACAddress, Field ''source'' MACAddress, Field ''type'' ushort]"

definition MACOVERHEAD :: nat where "MACOVERHEAD = 22"
definition CHUNKHEADERSIZE :: nat where "CHUNKHEADERSIZE = 8"
definition CACHELINESIZE :: nat where "CACHELINESIZE = 64"
definition PAGESIZE :: nat where "PAGESIZE = 8192"

definition MACHEADERSIZE :: "bool \<Rightarrow> nat" where
  "MACHEADERSIZE avsm = (if \<not> avsm then size_of MACHeader else size_of AvsmHeader)"

definition MACTOTAL :: "bool \<Rightarrow> nat" where
  "MACTOTAL avsm = MACOVERHEAD + MACHEADERSIZE avsm"

definition UNUSEDPADSIZE :: "bool \<Rightarrow> nat" where
  "UNUSEDPADSIZE avsm = (if avsm then 46 else 0)"

definition IPv4Header :: ctype where
  "IPv4Header = Class 1
     [Field ''version_ihl'' uchar, Field ''tos'' uchar, Field ''length'' ushort, Field ''identification'' ushort,
      Field ''flags_offset'' ushort, Field ''ttl'' uchar, Field ''protocol'' uchar, Field ''checksum'' ushort,
      Field ''source'' uint, Field ''destination'' uint]"

definition TCPHeader :: ctype where
  "TCPHeader = Class 1
     [Field ''source'' ushort, Field ''destination'' ushort, Field ''sequence'' uint, Field ''acknowledge'' uint,
      Field ''offset_res'' uchar, Field ''flags'' uchar, Field ''window'' ushort, Field ''checksum'' ushort,
      Field ''urgent_ptr'' ushort]"

definition Header :: "bool \<Rightarrow> ctype" where
  "Header avsm = Class 1
     [if avsm then Field ''RBEH'' AvsmHeader else Field ''MAC'' MACHeader, Field ''IPv4'' IPv4Header, Field ''TCP'' TCPHeader]"

definition AlignedHeader :: "bool \<Rightarrow> ctype" where
  "AlignedHeader avsm = Class 1
     [Field ''header'' (Header avsm), Field ''chunk'' (Arr uchar CHUNKHEADERSIZE), Field ''pad'' uchar, Field ''pad2'' uchar,
      Field ''unused'' (Arr uchar (UNUSEDPADSIZE avsm))]"

definition HTTPSIZE :: "bool \<Rightarrow> nat" where
  "HTTPSIZE avsm = size_of (Header avsm) + CHUNKHEADERSIZE"

definition HEADERSPERPAGE :: "bool \<Rightarrow> nat" where
  "HEADERSPERPAGE avsm = PAGESIZE div size_of (AlignedHeader avsm)"

definition HeaderPage :: "bool \<Rightarrow> ctype" where
  "HeaderPage avsm = Class 1 [Field ''headers'' (Arr (AlignedHeader avsm) (HEADERSPERPAGE avsm))]"

definition HTTPBuffer :: "bool \<Rightarrow> ctype" where
  "HTTPBuffer avsm = Class 1
     [Field ''hdr'' (AlignedHeader avsm), Field ''http'' (Arr uchar (1536 - size_of (AlignedHeader avsm))),
      Field ''sent'' uchar, Field ''formatted'' uchar, Field ''pad'' (Arr uchar 510)]"

definition HTTPPERPAGE :: "bool \<Rightarrow> nat" where
  "HTTPPERPAGE avsm = PAGESIZE div size_of (HTTPBuffer avsm)"

definition HTTPPage :: "bool \<Rightarrow> ctype" where
  "HTTPPage avsm = Class 1 [Field ''headers'' (Arr (HTTPBuffer avsm) (HTTPPERPAGE avsm))]"

definition PACKETOVERHEAD :: "bool \<Rightarrow> nat" where
  "PACKETOVERHEAD avsm = size_of (Header avsm) + MACOVERHEAD"

definition MAXTCPDATA :: "bool \<Rightarrow> nat" where
  "MAXTCPDATA avsm = PAGESIZE - size_of (AlignedHeader avsm)"

section \<open>The programs\<close>

definition value_line :: "string \<Rightarrow> nat \<Rightarrow> string" where
  "value_line what n = what @ dec n @ newline"

text \<open>The printed text, if all assertions hold.\<close>

definition cds_asserts :: "bool \<Rightarrow> bool list" where
  "cds_asserts avsm =
     [size_of MACHeader = 14, size_of IPv4Header = 20, size_of TCPHeader = 20] @
     (if avsm then [size_of (Header avsm) = 72]
      else [size_of (Header avsm) = 54, size_of (Header avsm) \<le> CACHELINESIZE, size_of (AlignedHeader avsm) = CACHELINESIZE]) @
     [size_of (HTTPBuffer avsm) = PAGESIZE div 4, size_of (HeaderPage avsm) = PAGESIZE, size_of (HTTPPage avsm) = PAGESIZE]"

definition cds_text :: "bool \<Rightarrow> string" where
  "cds_text avsm =
     value_line ''CONFIG_AVSM = '' (of_bool avsm) @
     value_line ''CHUNKHEADERSIZE = '' CHUNKHEADERSIZE @
     value_line ''MACOVERHEAD = '' MACOVERHEAD @
     value_line ''MACTOTAL = '' (MACTOTAL avsm) @
     value_line ''PACKETOVERHEAD = '' (PACKETOVERHEAD avsm) @
     newline @
     value_line ''sizeof MACHeader  = '' (size_of MACHeader) @
     value_line ''sizeof IPv4Header = '' (size_of IPv4Header) @
     value_line ''sizeof TCPHeader  = '' (size_of TCPHeader) @
     value_line ''sizeof AvsmHeader = '' (size_of AvsmHeader) @
     newline @
     value_line ''sizeof Header  = '' (size_of (Header avsm)) @
     value_line ''sizeof AlignedHeader  = '' (size_of (AlignedHeader avsm)) @
     value_line ''PAGESIZE = '' PAGESIZE @
     value_line ''HEADERSPERPAGE (PAGESIZE / sizeof(AlignedHeader)) = '' (HEADERSPERPAGE avsm) @
     value_line ''MAXTCPDATA = PAGESIZE - sizeof(AlignedHeader) = '' (MAXTCPDATA avsm) @
     value_line ''sizeof(HTTPBuffer) = '' (size_of (HTTPBuffer avsm)) @
     value_line ''HTTPPERPAG = (PAGESIZE / sizeof(HTTPBuffer)) = '' (HTTPPERPAGE avsm) @
     value_line ''HTTPSIZE = (sizeof(Header) + CHUNKHEADERSIZE) = '' (HTTPSIZE avsm)"

definition cds_main :: "bool \<Rightarrow> (string \<times> int) option" where
  "cds_main avsm = (if list_all (\<lambda>a. a) (cds_asserts avsm) then Some (cds_text avsm, 0) else None)"

text \<open>\<open>%03x\<close>, and the dump of the bytes of the test packet in rows of 16.\<close>

definition hex3 :: "nat \<Rightarrow> string" where
  "hex3 n = (let s = hex n in replicate (3 - length s) (CHR ''0'') @ s)"

fun dump_rows :: "u8 list \<Rightarrow> nat \<Rightarrow> nat \<Rightarrow> string option" where
  "dump_rows mem i 0 = Some []"
| "dump_rows mem i (Suc n) = do {
     b \<leftarrow> rd mem i;
     rest \<leftarrow> dump_rows mem (i + 1) n;
     Some ((if i mod 16 = 0 then (if i = 0 then [] else newline) @ ''   '' @ hex3 i @ '': '' else []) @
           drop 1 (hex_byte b) @ '' '' @ rest) }"

definition dumpFirst64Bytes :: "u8 list \<Rightarrow> string \<Rightarrow> string option" where
  "dumpFirst64Bytes this name = do {
     s \<leftarrow> dump_rows this 0 64;
     Some (newline @ ''Dump first 64 bytes for '' @ name @ '':'' @ newline @ s) }"

definition testPacket :: "u8 list" where
  "testPacket =
     [0x01, 0x02, 0x03, 0x05, 0x04, 0, 0, 0x02, 0, 0x01, 0x0c, 0, 0, 0, 0,
      0x81, 0, 0x80, 0x40, 0, 0, 0, 0, 0, 0x02, 0xc0, 0, 0, 0, 0, 0,
      0x45, 0, 0x01, 0x96, 0, 0, 0x40, 0, 0x0e, 0x11, 0x30, 0x4f, 0x0d, 0x04, 0x1d, 0x02,
      0x10, 0x01, 0x01, 0x02, 0xbe, 0xef, 0xbe, 0xdf, 0x01, 0x82, 0, 0, 0x12, 0x12, 0xc5, 0xc0, 0xff]"

definition sizeof_text :: "bool \<Rightarrow> string" where
  "sizeof_text avsm =
     value_line ''CONFIG_AVSM = '' (of_bool avsm) @
     value_line ''sizeof EthernetHeader = '' (size_of EthernetHeader) @
     value_line ''sizeof IpHeader       = '' (size_of IpHeader) @
     value_line ''sizeof UdpHeader      = '' (size_of UdpHeader) @
     value_line ''sizeof AvsmHeader     = '' (size_of AvsmHeader) @
     value_line ''sizeof StandardPacketHeader        = '' (size_of (StandardPacketHeader avsm)) @
     value_line ''sizeof AlignedStandardPacketHeader = '' (size_of (AlignedStandardPacketHeader avsm)) @
     value_line ''sizeof CalypsoHeader       = '' (size_of CalypsoHeader) @
     value_line ''sizeof CalypsoPacketHeader = '' (size_of (CalypsoPacketHeader avsm)) @
     value_line ''sizeof L3mp_hdr = '' (size_of L3mp_hdr) @
     value_line ''sizeof L3monitor_packet = '' (size_of (L3monitor_packet avsm)) @
     value_line ''sizeof DataHeader = '' (size_of DataHeader) @
     value_line ''sizeof DataPacketHeader = '' (size_of (DataPacketHeader avsm)) @
     value_line ''sizeof ControlPacket = '' (size_of (ControlPacket avsm)) @
     value_line ''sizeof ccp_hdr = '' (size_of ccp_hdr) @
     value_line ''sizeof ccp_data = '' (size_of ccp_data) @
     value_line ''sizeof OldControlPacketHeader = '' (size_of (OldControlPacketHeader avsm)) @
     ''sizeof(char) = 1, aligned padding size='' @ dec PADDING_SIZE @ newline @
     ''sizeof(signed char) = 1, sizeof(unsigned char)=1, sizeof(int)=4'' @ newline @
     ''sizeof(signed int) = 4, sizeof(unsigned int)=4, sizeof(long)=8, sizeof(ulong)=8'' @ newline @
     newline @
     value_line ''sizeof(struct kfa_rbih_hdr_t) = '' (size_of kfa_rbih_hdr_t)"

definition sizeof_main :: "bool \<Rightarrow> string option" where
  "sizeof_main avsm = do {
     s \<leftarrow> dump_rows testPacket 0 (length testPacket);
     d1 \<leftarrow> dumpFirst64Bytes testPacket ''StandardPacketHeader'';
     d2 \<leftarrow> dumpFirst64Bytes testPacket ''L3monitor_packet'';
     d3 \<leftarrow> dumpFirst64Bytes testPacket ''DataPacket'';
     Some (sizeof_text avsm @ newline @ ''Test packet:'' @ newline @ s @ d1 @ d2 @ d3) }"

section \<open>Numbers compared by the shorter way\<close>

definition diff :: "u32 \<Rightarrow> u32 \<Rightarrow> i32" where
  "diff a b = a - b"

definition lessThan :: "u32 \<Rightarrow> u32 \<Rightarrow> bool" where
  "lessThan a b = (sint (diff a b) < 0)"

definition greaterThan :: "u32 \<Rightarrow> u32 \<Rightarrow> bool" where
  "greaterThan a b = (0 < sint (diff a b))"

definition wrapping_le :: "u32 \<Rightarrow> u32 \<Rightarrow> bool" where
  "wrapping_le a b = (sint (diff a b) \<le> 0)"

definition wrapping_ge :: "u32 \<Rightarrow> u32 \<Rightarrow> bool" where
  "wrapping_ge a b = (0 \<le> sint (diff a b))"

section \<open>Results\<close>

lemmas cds_defs = MACAddress_def MACHeader_def MACOVERHEAD_def CHUNKHEADERSIZE_def CACHELINESIZE_def PAGESIZE_def MACHEADERSIZE_def
  MACTOTAL_def UNUSEDPADSIZE_def IPv4Header_def TCPHeader_def Header_def AlignedHeader_def HTTPSIZE_def HEADERSPERPAGE_def
  HeaderPage_def HTTPBuffer_def HTTPPERPAGE_def HTTPPage_def PACKETOVERHEAD_def MAXTCPDATA_def AvsmHeader_def

text \<open>In both configurations all the assertions hold, and the values are those recorded at the end of the file.\<close>

lemma cds_sizes:
  "size_of MACHeader = 14" "size_of IPv4Header = 20" "size_of TCPHeader = 20" "size_of AvsmHeader = 32"
  "size_of (Header True) = 72" "size_of (AlignedHeader True) = 128" "size_of (HTTPBuffer True) = 2048"
  "size_of (Header False) = 54" "size_of (AlignedHeader False) = 64" "size_of (HTTPBuffer False) = 2048"
  by (simp_all add: cds_defs up_def field_at_def)

lemma cds_pages: "size_of (HeaderPage avsm) = 8192" "size_of (HTTPPage avsm) = 8192"
  by (cases avsm; simp add: HeaderPage_def HTTPPage_def HEADERSPERPAGE_def HTTPPERPAGE_def PAGESIZE_def cds_sizes up_def field_at_def;
      simp add: cds_defs up_def field_at_def)+

lemma cds_recorded:
  "map MACTOTAL [True, False] = [54, 36]" "map PACKETOVERHEAD [True, False] = [94, 76]"
  "map HEADERSPERPAGE [True, False] = [64, 128]" "map MAXTCPDATA [True, False] = [8064, 8128]"
  "map HTTPPERPAGE [True, False] = [4, 4]" "map HTTPSIZE [True, False] = [80, 62]"
  by (simp_all add: MACTOTAL_def MACHEADERSIZE_def PACKETOVERHEAD_def HEADERSPERPAGE_def MAXTCPDATA_def HTTPPERPAGE_def HTTPSIZE_def
      cds_sizes MACOVERHEAD_def PAGESIZE_def CHUNKHEADERSIZE_def)

lemma cds_main_succeeds: "cds_main avsm = Some (cds_text avsm, 0)"
  by (cases avsm) (simp_all add: cds_main_def cds_asserts_def cds_sizes cds_pages PAGESIZE_def CACHELINESIZE_def)

lemmas sizeof_defs = AvsmHeader_def EthernetHeader_def IpHeader_def UdpHeader_def StandardPacketHeader_def AlignedStandardPacketHeader_def
  PADDING_SIZE_def CalypsoHeader_def CalypsoPacketHeader_def AdapterInfo_def MAX_NICS_def mp_hdr_def L3mp_hdr_def L3monitor_packet_def
  DataHeader_def DataPacketHeader_def WrappingUint_def ControlPacket_def ccp_flags1_def ccp_flags_def ccp_fields_def ccp_data_def
  ccp_hdr_def OldControlPacketHeader_def kfa_rbih_hdr_t_def

lemma sizeof_sizes:
  "size_of (StandardPacketHeader True) = 60" "size_of (AlignedStandardPacketHeader True) = 62" "size_of CalypsoHeader = 16"
  "size_of (CalypsoPacketHeader True) = 78" "size_of L3mp_hdr = 360" "size_of DataHeader = 24" "size_of (ControlPacket True) = 106"
  "size_of ccp_hdr = 32" "size_of ccp_data = 60" "size_of kfa_rbih_hdr_t = 23"
  by (simp_all add: sizeof_defs up_def field_at_def bits_at_def)

text \<open>The last header of \<open>sizeof_hdr.cpp\<close> is declared without packing, so two bytes are lost before its data.\<close>

lemma old_header_gap:
  "size_of (OldControlPacketHeader True) = 172"
  "size_of (CalypsoPacketHeader True) + size_of ccp_hdr + size_of ccp_data = 170"
  by (simp_all add: sizeof_defs up_def field_at_def bits_at_def)

text \<open>The offsets written beside the members of \<open>ccp_data\<close> are right except for one, which is 0x1c and not 0x0c.\<close>

lemma ccp_offsets:
  "map (\<lambda>(s, i). i div 8) (starts 4 32 ccp_fields) =
     [0x04, 0x08, 0x0c, 0x10, 0x14, 0x18, 0x1c, 0x20, 0x24, 0x28, 0x30, 0x34, 0x38]"
  by code_simp

text \<open>The test packet is long enough for the dumps.\<close>

lemma dump_rows_defined: "i + n \<le> length mem \<Longrightarrow> dump_rows mem i n \<noteq> None"
  by (induction mem i n rule: dump_rows.induct) (auto simp: arr_simps)

lemma sizeof_main_defined: "sizeof_main avsm \<noteq> None"
proof -
  have "length testPacket = 64" by (simp add: testPacket_def)
  then obtain s where "dump_rows testPacket 0 64 = Some s" using dump_rows_defined [of 0 64 testPacket] by auto
  then show ?thesis by (simp add: sizeof_main_def dumpFirst64Bytes_def \<open>length testPacket = 64\<close>)
qed

text \<open>Numbers less than half the range apart are compared as the counters they come from.\<close>

lemma wrapping_order:
  assumes "\<bar>i - j\<bar> < 2147483648"
  shows "lessThan (word_of_int i) (word_of_int j) \<longleftrightarrow> i < j" "greaterThan (word_of_int i) (word_of_int j) \<longleftrightarrow> j < i"
    "wrapping_le (word_of_int i) (word_of_int j) \<longleftrightarrow> i \<le> j" "wrapping_ge (word_of_int i) (word_of_int j) \<longleftrightarrow> j \<le> i"
proof -
  have "sint (diff (word_of_int i) (word_of_int j)) = sint (word_of_int (i - j) :: i32)" by (simp add: diff_def)
  also have "\<dots> = signed_take_bit 31 (i - j)" by (simp only: signed_of_int) simp
  also have "\<dots> = i - j" using assms by (intro signed_take_bit_int_eq_self) auto
  finally show "lessThan (word_of_int i) (word_of_int j) \<longleftrightarrow> i < j" "greaterThan (word_of_int i) (word_of_int j) \<longleftrightarrow> j < i"
    "wrapping_le (word_of_int i) (word_of_int j) \<longleftrightarrow> i \<le> j" "wrapping_ge (word_of_int i) (word_of_int j) \<longleftrightarrow> j \<le> i"
    by (auto simp: lessThan_def greaterThan_def wrapping_le_def wrapping_ge_def)
qed

text \<open>Half the range apart each is less than the other, and none is greater.\<close>

lemma wrapping_half: "lessThan (a + 0x80000000) a \<and> lessThan a (a + 0x80000000) \<and> \<not> greaterThan a (a + 0x80000000)"
  by (simp add: lessThan_def greaterThan_def diff_def)

end
