(* ===== verification/BitUtils.thy ===== *)
theory BitUtils
  imports CText
begin

text \<open>
  Small programs on bits: the bit buffer of \<open>src/bit-test.cpp\<close>, the bit set of \<open>src/bitset.c\<close>, the conversion of
  \<open>src/baseconv.c\<close> and the bit position of \<open>src/bit-pos-loop.c\<close>.  \<open>None\<close> is an access outside an array, a failed
  assertion, or a shift by at least the width of \<open>int\<close>.
\<close>

definition shl_int :: "i32 \<Rightarrow> nat \<Rightarrow> i32 option" where
  "shl_int x k = (if k < 32 then Some (push_bit k x) else None)"

section \<open>The bit buffer\<close>

text \<open>The bytes of the buffer.\<close>

type_synonym BitBuffer = "u8 list"

definition bb_get :: "BitBuffer \<Rightarrow> nat \<Rightarrow> bool option" where
  "bb_get m_data bitpos = do {
     b \<leftarrow> rd m_data (bitpos div 8);
     Some ((ucast b :: i32) AND push_bit (bitpos mod 8) 1 \<noteq> 0) }"

definition bb_set :: "BitBuffer \<Rightarrow> nat \<Rightarrow> bool \<Rightarrow> BitBuffer option" where
  "bb_set m_data bitpos val = do {
     b \<leftarrow> rd m_data (bitpos div 8);
     wr m_data (bitpos div 8)
       (if val then ucast ((ucast b :: i32) OR push_bit (bitpos mod 8) 1)
        else ucast ((ucast b :: i32) AND NOT (push_bit (bitpos mod 8) 1))) }"

definition bb_reset :: "BitBuffer \<Rightarrow> nat \<Rightarrow> BitBuffer option" where
  "bb_reset m_data bitpos = bb_set m_data bitpos False"

definition bb_flip :: "BitBuffer \<Rightarrow> nat \<Rightarrow> BitBuffer option" where
  "bb_flip m_data bitpos = do { v \<leftarrow> bb_get m_data bitpos; bb_set m_data bitpos (\<not> v) }"

definition bb_clear :: "BitBuffer \<Rightarrow> BitBuffer" where
  "bb_clear m_data = map (\<lambda>b. 0) m_data"

definition bit_size :: "BitBuffer \<Rightarrow> nat" where
  "bit_size m_data = length m_data * 8"

text \<open>The loops with \<open>n\<close> bits left to do.\<close>

fun bb_get_loop :: "BitBuffer \<Rightarrow> nat \<Rightarrow> nat \<Rightarrow> u32 \<Rightarrow> u32 option" where
  "bb_get_loop buffer pos 0 bits = Some bits"
| "bb_get_loop buffer pos (Suc n) bits = do {
     v \<leftarrow> bb_get buffer pos;
     s \<leftarrow> shl_int (of_bool v) n;
     bb_get_loop buffer (pos + 1) n (bits OR s) }"

definition get_bits :: "BitBuffer \<Rightarrow> nat \<Rightarrow> nat \<Rightarrow> u32 option" where
  "get_bits buffer offset n = bb_get_loop buffer offset n 0"

fun bb_set_loop :: "BitBuffer \<Rightarrow> nat \<Rightarrow> nat \<Rightarrow> u32 \<Rightarrow> BitBuffer option" where
  "bb_set_loop buffer pos 0 bits = Some buffer"
| "bb_set_loop buffer pos (Suc n) bits = do {
     s \<leftarrow> shl_int 1 n;
     buffer \<leftarrow> bb_set buffer pos (bits AND s \<noteq> 0);
     bb_set_loop buffer (pos + 1) n bits }"

definition set_bits :: "BitBuffer \<Rightarrow> nat \<Rightarrow> nat \<Rightarrow> u32 \<Rightarrow> BitBuffer option" where
  "set_bits buffer offset n bits = bb_set_loop buffer offset n bits"

fun bb_dump_loop :: "BitBuffer \<Rightarrow> nat \<Rightarrow> nat \<Rightarrow> string option" where
  "bb_dump_loop buffer i 0 = Some [CHR 0x0A]"
| "bb_dump_loop buffer i (Suc n) = do {
     v \<leftarrow> bb_get buffer i;
     rest \<leftarrow> bb_dump_loop buffer (i + 1) n;
     Some ((if v then CHR ''1'' else CHR ''0'') # rest) }"

definition dump_buffer :: "BitBuffer \<Rightarrow> string option" where
  "dump_buffer buffer = bb_dump_loop buffer 0 (bit_size buffer)"

section \<open>The bit set\<close>

definition BS_SIZE :: nat where "BS_SIZE = 1024"
definition BS_NBITS :: nat where "BS_NBITS = 64"

type_synonym bitset = "i64 list"

definition BS_ZERO :: bitset where
  "BS_ZERO = replicate (BS_SIZE div BS_NBITS + 1) 0"

definition BS_SET :: "nat \<Rightarrow> bitset \<Rightarrow> bitset option" where
  "BS_SET n p = do {
     s \<leftarrow> shl_int 1 (n mod BS_NBITS);
     b \<leftarrow> rd p (n div BS_NBITS);
     wr p (n div BS_NBITS) (b OR scast s) }"

definition BS_CLR :: "nat \<Rightarrow> bitset \<Rightarrow> bitset option" where
  "BS_CLR n p = do {
     s \<leftarrow> shl_int 1 (n mod BS_NBITS);
     b \<leftarrow> rd p (n div BS_NBITS);
     wr p (n div BS_NBITS) (b AND scast (NOT s)) }"

definition BS_ISSET :: "nat \<Rightarrow> bitset \<Rightarrow> i64 option" where
  "BS_ISSET n p = do {
     s \<leftarrow> shl_int 1 (n mod BS_NBITS);
     b \<leftarrow> rd p (n div BS_NBITS);
     Some (b AND scast s) }"

text \<open>The two loops of the test, with \<open>k\<close> rounds left.\<close>

fun zero_test :: "bitset \<Rightarrow> nat \<Rightarrow> nat \<Rightarrow> bool option" where
  "zero_test x i 0 = Some True"
| "zero_test x i (Suc k) = do { v \<leftarrow> BS_ISSET i x; if v \<noteq> 0 then Some False else zero_test x (i + 1) k }"

fun set_test :: "bitset \<Rightarrow> nat \<Rightarrow> nat \<Rightarrow> string option" where
  "set_test x i 0 = Some ''test ok.''"
| "set_test x i (Suc k) = do {
     x \<leftarrow> BS_SET i x;
     v \<leftarrow> BS_ISSET i x;
     if v = 0 then Some ''test failed (BS_SET).''
     else do {
       x \<leftarrow> BS_CLR i x;
       v \<leftarrow> BS_ISSET i x;
       if v \<noteq> 0 then Some ''test failed (BS_CLR).'' else set_test x (i + 1) k } }"

definition bitset_main :: "string option" where
  "bitset_main = do {
     ok \<leftarrow> zero_test BS_ZERO 0 BS_SIZE;
     if \<not> ok then Some ''test failed (BS_ZERO).'' else set_test BS_ZERO 0 BS_SIZE }"

section \<open>Base conversion\<close>

text \<open>\<open>p\<close> is the number of free characters before the text; a null pointer is \<open>Some None\<close>.\<close>

fun conv_loop :: "u32 \<Rightarrow> u32 \<Rightarrow> nat \<Rightarrow> string \<Rightarrow> string option" where
  "conv_loop num base 0 s = None"
| "conv_loop num base (Suc p) s =
     (let s = digit_char (unat (num mod base)) # s; num = num div base
      in if num \<noteq> 0 then conv_loop num base p s else Some s)"

definition baseconv :: "u32 \<Rightarrow> i32 \<Rightarrow> string option option" where
  "baseconv num base =
     (if sint base < 2 \<or> 16 < sint base then Some None else map_option Some (conv_loop num base (4 * 8) []))"

definition baseconv_line :: "i32 \<Rightarrow> nat \<Rightarrow> string option" where
  "baseconv_line d base = do {
     r \<leftarrow> baseconv d (of_nat base);
     s \<leftarrow> r;
     Some (''d='' @ fmt_d d @ '', convert to base-'' @ dec base @ '' = '' @ s @ [CHR 0x0A]) }"

definition baseconv_main :: "string option \<Rightarrow> string option" where
  "baseconv_main arg =
     (let d = (case arg of None \<Rightarrow> 1234 | Some a \<Rightarrow> word_of_int (fst (strtol 10 a)))
      in map_option concat (those (map (baseconv_line d) [2..<17])))"

section \<open>The highest bit\<close>

text \<open>The number of shifts until \<open>i\<close>, which is not negative, is zero.\<close>

fun shifts :: "nat \<Rightarrow> nat" where
  "shifts i = (if i = 0 then 0 else Suc (shifts (i div 2)))"

declare shifts.simps [simp del]

definition bit_position :: "nat \<Rightarrow> nat" where
  "bit_position number = shifts (number div 2)"

section \<open>Fields of bits\<close>

definition buf_bit :: "BitBuffer \<Rightarrow> nat \<Rightarrow> bool" where
  "buf_bit bs j = bit (bs ! (j div 8)) (j mod 8)"

lemma bb_get_bit: "j < 8 * length bs \<Longrightarrow> bb_get bs j = Some (buf_bit bs j)"
proof -
  assume "j < 8 * length bs"
  then have "rd bs (j div 8) = Some (bs ! (j div 8))" by (simp add: arr_simps)
  moreover have "(ucast (bs ! (j div 8)) :: i32) AND push_bit (j mod 8) 1 \<noteq> 0 \<longleftrightarrow> bit (ucast (bs ! (j div 8)) :: i32) (j mod 8)"
    by (simp add: bit_iff_and_push_bit_not_eq_0)
  moreover have "j mod 8 < 32" by (rule less_le_trans [of _ 8]) simp_all
  ultimately show ?thesis by (simp add: bb_get_def buf_bit_def bit_ucast_iff)
qed

lemma bb_set_bit:
  assumes "i < 8 * length bs"
  shows "\<exists>bs'. bb_set bs i v = Some bs' \<and> length bs' = length bs \<and> (\<forall>j. buf_bit bs' j = (if j = i then v else buf_bit bs j))"
proof -
  let ?b = "bs ! (i div 8)"
  define b' :: u8 where "b' = (if v then ucast ((ucast ?b :: i32) OR push_bit (i mod 8) 1)
    else ucast ((ucast ?b :: i32) AND NOT (push_bit (i mod 8) 1)))"
  have in_range: "i div 8 < length bs" using assms by auto
  have b: "bit b' m = (if m = i mod 8 then v else bit ?b m)" if "m < 8" for m
    using that by (auto simp: b'_def bit_simps)
  have "buf_bit (bs[i div 8 := b']) j = (if j = i then v else buf_bit bs j)" for j
  proof (cases "j div 8 = i div 8")
    case True
    then have "j = i \<longleftrightarrow> j mod 8 = i mod 8" by (metis div_mult_mod_eq)
    then show ?thesis using True in_range b [of "j mod 8"] by (simp add: buf_bit_def)
  next
    case False
    then show ?thesis by (auto simp: buf_bit_def)
  qed
  then show ?thesis using in_range by (auto simp: bb_set_def arr_simps b'_def)
qed

lemma bb_set_loop_bits:
  "\<lbrakk>n \<le> 32; pos + n \<le> 8 * length bs\<rbrakk> \<Longrightarrow>
     \<exists>bs'. bb_set_loop bs pos n v = Some bs' \<and> length bs' = length bs \<and>
       (\<forall>j. buf_bit bs' j = (if pos \<le> j \<and> j < pos + n then bit v (pos + n - 1 - j) else buf_bit bs j))"
proof (induction n arbitrary: bs pos)
  case (Suc n)
  have s: "shl_int 1 n = Some (push_bit n 1)" using Suc.prems(1) by (simp add: shl_int_def)
  obtain b1 where b1: "bb_set bs pos (v AND push_bit n 1 \<noteq> 0) = Some b1" "length b1 = length bs"
    "\<And>j. buf_bit b1 j = (if j = pos then v AND push_bit n 1 \<noteq> 0 else buf_bit bs j)"
    using bb_set_bit [of pos bs] Suc.prems(2) by force
  obtain b2 where b2: "bb_set_loop b1 (pos + 1) n v = Some b2" "length b2 = length b1"
    "\<And>j. buf_bit b2 j = (if pos + 1 \<le> j \<and> j < pos + 1 + n then bit v (pos + 1 + n - 1 - j) else buf_bit b1 j)"
    using Suc.IH [of "pos + 1" b1] Suc.prems b1(2) by auto
  have "buf_bit b2 j = (if pos \<le> j \<and> j < pos + Suc n then bit v (pos + Suc n - 1 - j) else buf_bit bs j)" for j
    using b2(3) [of j] b1(3) [of j] by (auto simp: bit_iff_and_push_bit_not_eq_0)
  then show ?case using s b1(1,2) b2(1,2) by simp
qed auto

lemma bb_get_loop_bits:
  "\<lbrakk>n \<le> 32; pos + n \<le> 8 * length bs\<rbrakk> \<Longrightarrow>
     \<exists>r. bb_get_loop bs pos n acc = Some r \<and> (\<forall>m. bit r m \<longleftrightarrow> bit acc m \<or> m < n \<and> buf_bit bs (pos + n - 1 - m))"
proof (induction n arbitrary: pos acc)
  case (Suc n)
  have g: "bb_get bs pos = Some (buf_bit bs pos)" using Suc.prems(2) by (intro bb_get_bit) simp
  let ?s = "push_bit n (of_bool (buf_bit bs pos)) :: i32"
  have s: "shl_int (of_bool (buf_bit bs pos)) n = Some ?s" using Suc.prems(1) by (simp add: shl_int_def)
  obtain r where r: "bb_get_loop bs (pos + 1) n (acc OR ?s) = Some r"
    "\<And>m. bit r m \<longleftrightarrow> bit (acc OR ?s) m \<or> m < n \<and> buf_bit bs (pos + 1 + n - 1 - m)"
    using Suc.IH [of "pos + 1" "acc OR ?s"] Suc.prems by auto
  have "bit ?s m \<longleftrightarrow> m = n \<and> buf_bit bs pos" for m using Suc.prems(1) by (auto simp: bit_simps)
  then have "bit r m \<longleftrightarrow> bit acc m \<or> m < Suc n \<and> buf_bit bs (pos + Suc n - 1 - m)" for m
    using r(2) [of m] by (auto simp: bit_or_iff less_Suc_eq)
  then show ?case using g s r(1) by simp
qed simp

text \<open>
  A field of at most 32 bits inside the buffer: writing a number and reading the field gives the number, cut to the
  width of the field; no other bit of the buffer changes, and neither does its size.
\<close>

lemma bit_field_roundtrip:
  assumes "n \<le> 32" "offset + n \<le> bit_size buffer"
  shows "\<exists>buffer'. set_bits buffer offset n v = Some buffer' \<and> length buffer' = length buffer \<and>
    get_bits buffer' offset n = Some (take_bit n v) \<and>
    (\<forall>j. j < bit_size buffer \<and> (j < offset \<or> offset + n \<le> j) \<longrightarrow> bb_get buffer' j = bb_get buffer j)"
proof -
  have len: "offset + n \<le> 8 * length buffer" using assms(2) by (simp add: bit_size_def)
  obtain b where b: "bb_set_loop buffer offset n v = Some b" "length b = length buffer"
    "\<And>j. buf_bit b j = (if offset \<le> j \<and> j < offset + n then bit v (offset + n - 1 - j) else buf_bit buffer j)"
    using bb_set_loop_bits [OF assms(1) len] by blast
  obtain r where r: "bb_get_loop b offset n 0 = Some r" "\<And>m. bit r m \<longleftrightarrow> m < n \<and> buf_bit b (offset + n - 1 - m)"
    using bb_get_loop_bits [OF assms(1), of offset b 0] len b(2) by auto
  have "r = take_bit n v" by (rule bit_word_eqI) (auto simp: r(2) b(3) bit_take_bit_iff)
  moreover have "bb_get b j = bb_get buffer j" if "j < bit_size buffer" "j < offset \<or> offset + n \<le> j" for j
    using that b(2,3) by (auto simp: bb_get_bit bit_size_def)
  ultimately show ?thesis using b(1,2) r(1) by (auto simp: set_bits_def get_bits_def)
qed

lemma bit_field_roundtrip_witness:
  "\<exists>buffer'. set_bits [0xFF, 0xFF] 6 4 5 = Some buffer' \<and> get_bits buffer' 6 4 = Some 5"
  using bit_field_roundtrip [of 4 6 "[0xFF, 0xFF]" 5] by (auto simp: bit_size_def take_bit_eq_mod)

text \<open>A wider field shifts by 32 and more, as the program does with all 64 bits of its buffer.\<close>

lemma wide_field: "32 < n \<Longrightarrow> set_bits buffer offset n v = None"
  by (cases n) (simp_all add: set_bits_def shl_int_def)

section \<open>What the other programs do\<close>

text \<open>
  The bit set works for the first 31 bits of each word.  Bit 31 is the sign of the \<open>int\<close> that is shifted, so setting
  it sets the 32 bits above as well; the shift for the next is undefined, and the test comes to it first.
\<close>

lemma scast_shl: "k < 31 \<Longrightarrow> (scast (push_bit k 1 :: i32) :: i64) = push_bit k 1"
  by (rule bit_word_eqI) (auto simp: bit_simps)

lemma bitset_low:
  assumes "n mod 64 < 31" "n div 64 < length p"
  shows "BS_SET n p = Some (p[n div 64 := set_bit (n mod 64) (p ! (n div 64))])"
    "BS_CLR n p = Some (p[n div 64 := unset_bit (n mod 64) (p ! (n div 64))])"
    "\<exists>v. BS_ISSET n p = Some v \<and> (v \<noteq> 0 \<longleftrightarrow> bit (p ! (n div 64)) (n mod 64))"
proof -
  have s: "shl_int 1 (n mod 64) = Some (push_bit (n mod 64) 1)" using assms(1) by (simp add: shl_int_def)
  have c: "(scast (push_bit (n mod 64) 1 :: i32) :: i64) = push_bit (n mod 64) 1" using assms(1) by (rule scast_shl)
  have "(scast (NOT (push_bit (n mod 64) 1 :: i32)) :: i64) = NOT (push_bit (n mod 64) 1)"
    using assms(1) by (intro bit_word_eqI) (auto simp: bit_simps)
  then show "BS_CLR n p = Some (p[n div 64 := unset_bit (n mod 64) (p ! (n div 64))])"
    using assms(2) by (simp add: BS_CLR_def BS_NBITS_def s arr_simps unset_bit_eq_and_not)
  show "BS_SET n p = Some (p[n div 64 := set_bit (n mod 64) (p ! (n div 64))])"
    using assms(2) by (simp add: BS_SET_def BS_NBITS_def s c arr_simps set_bit_eq_or del: push_bit_of_1)
  show "\<exists>v. BS_ISSET n p = Some v \<and> (v \<noteq> 0 \<longleftrightarrow> bit (p ! (n div 64)) (n mod 64))"
    using assms(2) unfolding BS_ISSET_def BS_NBITS_def s bit_iff_and_push_bit_not_eq_0
    by (simp add: c arr_simps del: push_bit_of_1)
qed

lemma bitset_sign: "BS_SET 31 [0] = Some [0xFFFFFFFF80000000]"
  by code_simp

lemma bitset_undefined: "32 \<le> n mod 64 \<Longrightarrow> BS_SET n p = None \<and> BS_CLR n p = None \<and> BS_ISSET n p = None"
  by (simp add: BS_SET_def BS_CLR_def BS_ISSET_def BS_NBITS_def shl_int_def)

lemma bitset_main_undefined: "bitset_main = None"
  by code_simp

text \<open>The conversion is the one of the numbers printed everywhere, in each of its bases, and stays in its 33 characters.\<close>

lemma conv_loop_num_str:
  assumes "2 \<le> unat base"
  shows "unat num < 2 ^ p \<Longrightarrow> 0 < p \<Longrightarrow> conv_loop num base p s = Some (num_str (unat base) (unat num) @ s)"
proof (induction p arbitrary: num s)
  case (Suc p)
  have d: "unat (num mod base) = unat num mod unat base" "unat (num div base) = unat num div unat base"
    by (simp_all add: unat_mod_distrib unat_div_distrib)
  show ?case
  proof (cases "unat num < unat base")
    case True
    then have "num div base = 0" using d(2) by (simp add: unat_eq_0 [symmetric])
    then show ?thesis using True assms d(1) by (subst num_str.simps) (simp add: Let_def)
  next
    case False
    have "unat num div unat base \<le> unat num div 2" using assms by (rule div_le_mono2 [rotated]) simp
    also have "\<dots> < 2 ^ p" using Suc.prems(1) by simp
    finally have lt: "unat (num div base) < 2 ^ p" by (simp add: d(2))
    have pos: "0 < unat (num div base)" using False assms by (simp add: d(2) div_greater_zero_iff)
    then have nz: "num div base \<noteq> 0" by auto
    have "0 < p" using lt pos by (cases p) auto
    then show ?thesis using Suc.IH [OF lt] nz False assms d
      by (subst num_str.simps) (simp add: Let_def max_def)
  qed
qed simp

lemma baseconv_num_str:
  assumes "2 \<le> sint base" "sint base \<le> 16"
  shows "baseconv num base = Some (Some (num_str (nat (sint base)) (unat num)))"
proof -
  have "uint base = uint (word_of_int (sint base) :: u32)" by simp
  also have "\<dots> = sint base" using assms by (simp only: uint_word_of_int) simp
  finally have u: "unat base = nat (sint base)" by (simp add: unat_eq_nat_uint)
  have "unat num < 2 ^ 32" using unsigned_less [of num] by simp
  then have "conv_loop num base 32 [] = Some (num_str (unat base) (unat num) @ [])"
    using assms u by (intro conv_loop_num_str) auto
  then show ?thesis using assms by (simp add: baseconv_def u)
qed

lemma baseconv_null: "sint base < 2 \<or> 16 < sint base \<Longrightarrow> baseconv num base = Some None"
  by (simp add: baseconv_def)

text \<open>The bit position is that of the highest bit.\<close>

lemma shifts_power: "i \<noteq> 0 \<Longrightarrow> 2 ^ (shifts i - 1) \<le> i \<and> i < 2 ^ shifts i \<and> 0 < shifts i"
proof (induction i rule: shifts.induct)
  case (1 i)
  show ?case
  proof (cases "i div 2 = 0")
    case True
    then have "i = 1" using 1(2) by simp
    then show ?thesis by (simp add: shifts.simps)
  next
    case False
    obtain k where k: "shifts (i div 2) = Suc k" using 1 False by (cases "shifts (i div 2)") auto
    have "2 ^ k \<le> i div 2 \<and> i div 2 < 2 ^ Suc k" using 1(1) [OF 1(2) False] by (simp add: k)
    then show ?thesis using 1(2) by (subst (1 2 3) shifts.simps) (auto simp: k)
  qed
qed

lemma bit_position_highest: "0 < n \<Longrightarrow> 2 ^ bit_position n \<le> n \<and> n < 2 ^ (bit_position n + 1)"
proof -
  assume n: "0 < n"
  then have "shifts n = Suc (bit_position n)" by (subst shifts.simps) (simp add: bit_position_def)
  then show ?thesis using shifts_power [of n] n by simp
qed

end
