(* ===== verification/NetMisc.thy ===== *)
theory NetMisc
  imports NetUtils
begin

text \<open>
  The rest of \<open>src/netlink/utils.c\<close> and \<open>utils.h\<close>: the messages about wrong arguments, the clock rates, host names and
  time stamps.  The environment, the files and \<open>sysconf\<close> are arguments.
\<close>

section \<open>Messages\<close>

text \<open>A function that prints a message and exits is the text of the message and the status.\<close>

definition line_end :: string where
  "line_end = [CHR 0x0A]"

definition incomplete_command :: "string \<times> int" where
  "incomplete_command = (''Command line is not complete. Try option '' @ [CHR 0x22] @ ''help'' @ [CHR 0x22] @ line_end, - 1)"

definition quoted :: "string \<Rightarrow> string" where
  "quoted s = [CHR 0x22] @ s @ [CHR 0x22]"

definition missarg :: "string \<Rightarrow> string \<times> int" where
  "missarg key' = (''Error: argument '' @ quoted key' @ '' is required'' @ line_end, - 1)"

definition invarg :: "string \<Rightarrow> string \<Rightarrow> string \<times> int" where
  "invarg msg arg = (''Error: argument '' @ quoted arg @ '' is wrong: '' @ msg @ line_end, - 1)"

definition duparg :: "string \<Rightarrow> string \<Rightarrow> string \<times> int" where
  "duparg key' arg = (''Error: duplicate '' @ quoted key' @ '': '' @ quoted arg @ '' is the second value.'' @ line_end, - 1)"

definition duparg2 :: "string \<Rightarrow> string \<Rightarrow> string \<times> int" where
  "duparg2 key' arg = (''Error: either '' @ quoted key' @ '' is duplicate, or '' @ quoted arg @ '' is a garbage.'' @ line_end, - 1)"

section \<open>Clock rates\<close>

definition HZ :: i32 where
  "HZ = 100"

text \<open>\<open>%08x\<close> reads at most eight characters.\<close>

definition scan_x8 :: "string \<Rightarrow> (u32 \<times> string) option" where
  "scan_x8 s =
     (let t = dropWhile is_space s
      in case scan_int 16 (take 8 t) of
           (neg, n, ok, rest) \<Rightarrow> if ok then Some (ucast (fst (strtoul 16 (take 8 t))), rest @ drop 8 t) else None)"

text \<open>The third and the fourth number of the file.\<close>

definition scan_psched :: "string \<Rightarrow> (u32 \<times> u32) option" where
  "scan_psched s = do {
     (x, s) \<leftarrow> scan_x8 s;
     (y, s) \<leftarrow> scan_x8 s;
     (nom, s) \<leftarrow> scan_x8 s;
     (denom, s) \<leftarrow> scan_x8 s;
     Some (nom, denom) }"

definition get_hz_env :: "(string \<Rightarrow> string option) \<Rightarrow> (string \<Rightarrow> string option) \<Rightarrow> i32" where
  "get_hz_env getenv fopen =
     (case getenv ''HZ'' of
        Some s \<Rightarrow> let n = word_of_int (fst (strtol 10 s)) in if n \<noteq> 0 then n else HZ
      | None \<Rightarrow>
          let name = (case getenv ''PROC_NET_PSCHED'' of
                        Some s \<Rightarrow> snprintf_cut 1023 s
                      | None \<Rightarrow> (case getenv ''PROC_ROOT'' of
                                  Some s \<Rightarrow> snprintf_cut 1023 (s @ ''/net/psched'')
                                | None \<Rightarrow> ''/proc/net/psched''));
              hz = (case fopen name of
                      None \<Rightarrow> 0
                    | Some text \<Rightarrow> (case scan_psched text of
                                     Some (nom, denom) \<Rightarrow> if nom = 1000000 then denom else 0
                                   | None \<Rightarrow> 0))
          in if hz \<noteq> 0 then hz else HZ)"

text \<open>The rate is asked for as long as the stored one is zero: the result and the stored rate.\<close>

definition get_hz :: "(string \<Rightarrow> string option) \<Rightarrow> (string \<Rightarrow> string option) \<Rightarrow> i32 \<Rightarrow> i32 \<times> i32" where
  "get_hz getenv fopen hz_internal =
     (let hz_internal = (if hz_internal = 0 then get_hz_env getenv fopen else hz_internal) in (hz_internal, hz_internal))"

definition get_user_hz_env :: "i64 \<Rightarrow> i32" where
  "get_user_hz_env clk_tck = ucast clk_tck"

definition get_user_hz :: "i64 \<Rightarrow> i32 \<Rightarrow> i32 \<times> i32" where
  "get_user_hz clk_tck hz_internal =
     (let hz_internal = (if hz_internal = 0 then get_user_hz_env clk_tck else hz_internal) in (hz_internal, hz_internal))"

section \<open>Hosts and time stamps\<close>

text \<open>Without \<open>RESOLVE_HOSTNAMES\<close> a host is its address.\<close>

definition format_host :: "(int \<Rightarrow> u8 list \<Rightarrow> string option) \<Rightarrow> int \<Rightarrow> u8 list \<Rightarrow> string option" where
  "format_host ntop af addr = rt_addr_n2a ntop af addr"

text \<open>\<open>asctime\<close> ends with a newline, which is cut; of the empty string nothing can be cut.\<close>

definition print_timestamp :: "(i64 \<Rightarrow> string) \<Rightarrow> i64 \<Rightarrow> u64 \<Rightarrow> string option" where
  "print_timestamp asctime tv_sec tv_usec =
     (let tstr = asctime tv_sec
      in if tstr = [] then None
         else Some (''Timestamp: '' @ butlast tstr @ '' '' @ dec (unat tv_usec) @ '' usec'' @ line_end))"

section \<open>The stored rate\<close>

text \<open>The rate is never zero, so it is found once, whatever happens to the environment and the files later.\<close>

lemma get_hz_env_nonzero: "get_hz_env getenv fopen \<noteq> 0"
  unfolding get_hz_env_def Let_def by (cases "getenv ''HZ''") (simp_all add: HZ_def)

lemma get_hz_once: "snd (get_hz getenv' fopen' (snd (get_hz getenv fopen hz))) = snd (get_hz getenv fopen hz)"
  using get_hz_env_nonzero [of getenv fopen] by (auto simp: get_hz_def Let_def)

lemma get_hz_psched:
  "\<lbrakk>getenv ''HZ'' = None; getenv ''PROC_NET_PSCHED'' = None; getenv ''PROC_ROOT'' = None;
    fopen ''/proc/net/psched'' = Some text; scan_psched text = Some (1000000, d); d \<noteq> 0\<rbrakk> \<Longrightarrow>
   get_hz getenv fopen 0 = (d, d)"
  by (simp add: get_hz_def get_hz_env_def)

end
