(* ===== verification/Insque.thy ===== *)
theory Insque
  imports Prelude
begin

text \<open>
  The old queue routines at the end of \<open>src/bsd_hash/queue_plus.h\<close>, compiled for a kernel only: queues are rings of
  elements that start with the two pointers of a \<open>struct quehead\<close>.  \<open>None\<close> is the use of a null pointer.
\<close>

record 'a quehead =
  qh_link :: "'a \<Rightarrow> 'a option"
  qh_rlink :: "'a \<Rightarrow> 'a option"

definition put_link :: "'a option \<Rightarrow> 'a option \<Rightarrow> 'a quehead \<Rightarrow> 'a quehead option" where
  "put_link p v s = (case p of None \<Rightarrow> None | Some x \<Rightarrow> Some (s\<lparr>qh_link := (qh_link s)(x := v)\<rparr>))"

definition put_rlink :: "'a option \<Rightarrow> 'a option \<Rightarrow> 'a quehead \<Rightarrow> 'a quehead option" where
  "put_rlink p v s = (case p of None \<Rightarrow> None | Some x \<Rightarrow> Some (s\<lparr>qh_rlink := (qh_rlink s)(x := v)\<rparr>))"

definition insque :: "'a \<Rightarrow> 'a \<Rightarrow> 'a quehead \<Rightarrow> 'a quehead option" where
  "insque element head s = do {
     s \<leftarrow> put_link (Some element) (qh_link s head) s;
     s \<leftarrow> put_rlink (Some element) (Some head) s;
     s \<leftarrow> put_link (Some head) (Some element) s;
     put_rlink (qh_link s element) (Some element) s }"

definition remque :: "'a \<Rightarrow> 'a quehead \<Rightarrow> 'a quehead option" where
  "remque element s = do {
     s \<leftarrow> put_rlink (qh_link s element) (qh_rlink s element) s;
     s \<leftarrow> put_link (qh_rlink s element) (qh_link s element) s;
     put_rlink (Some element) None s }"

section \<open>Rings\<close>

definition qlinked :: "'a quehead \<Rightarrow> 'a \<Rightarrow> 'a \<Rightarrow> bool" where
  "qlinked s x y \<longleftrightarrow> qh_link s x = Some y \<and> qh_rlink s y = Some x"

fun qchain :: "'a quehead \<Rightarrow> 'a \<Rightarrow> 'a list \<Rightarrow> 'a \<Rightarrow> bool" where
  "qchain s x [] z \<longleftrightarrow> qlinked s x z"
| "qchain s x (y # ys) z \<longleftrightarrow> qlinked s x y \<and> qchain s y ys z"

text \<open>The elements of a queue in order behind its head.\<close>

definition qring :: "'a quehead \<Rightarrow> 'a \<Rightarrow> 'a list \<Rightarrow> bool" where
  "qring s h xs \<longleftrightarrow> distinct (h # xs) \<and> qchain s h xs h"

lemma qchain_frame:
  "\<lbrakk>qchain s x ys z; \<forall>y \<in> set (x # ys). qh_link s' y = qh_link s y; \<forall>y \<in> set (ys @ [z]). qh_rlink s' y = qh_rlink s y\<rbrakk>
     \<Longrightarrow> qchain s' x ys z"
  by (induction ys arbitrary: x) (auto simp: qlinked_def)

lemma qchain_append: "qchain s x (ys @ y # zs) z \<longleftrightarrow> qchain s x ys y \<and> qchain s y zs z"
  by (induction ys arbitrary: x) auto

lemma qchain_first: "qchain s x ys z \<Longrightarrow> qlinked s x (hd (ys @ [z]))"
  by (cases ys) auto

lemma qchain_last: "qchain s x ys z \<Longrightarrow> qlinked s (last (x # ys)) z"
  by (induction ys arbitrary: x) auto

text \<open>An element is inserted behind the head.\<close>

lemma insque_qring:
  assumes "qring s h xs" "e \<notin> set (h # xs)"
  shows "\<exists>s'. insque e h s = Some s' \<and> qring s' h (e # xs)"
proof -
  obtain y ys where y: "xs @ [h] = y # ys" by (cases xs) auto
  have l: "qh_link s h = Some y" using qchain_first [of s h xs h] assms(1) y by (simp add: qring_def qlinked_def)
  define s' where "s' = \<lparr>qh_link = (qh_link s)(e := Some y, h := Some e), qh_rlink = (qh_rlink s)(e := Some h, y := Some e)\<rparr>"
  have ne: "e \<noteq> h" "e \<noteq> y" using assms(2) y by (auto simp: append_eq_Cons_conv)
  have i: "insque e h s = Some s'"
    using l ne by (simp add: insque_def put_link_def put_rlink_def s'_def fun_eq_iff)
  have "qchain s' h (e # xs) h"
  proof (cases xs)
    case Nil
    then show ?thesis using y ne by (auto simp: qlinked_def s'_def)
  next
    case (Cons x zs)
    then have "x = y" using y by simp
    have "qchain s x zs h" "distinct (h # x # zs)" using assms(1) by (auto simp: Cons qring_def)
    then have "qchain s' x zs h"
      by (rule_tac qchain_frame [of s]) (use assms(2) Cons \<open>x = y\<close> in \<open>auto simp: s'_def\<close>)
    then show ?thesis using ne by (auto simp: Cons qlinked_def s'_def \<open>x = y\<close>)
  qed
  then show ?thesis using i assms by (auto simp: qring_def)
qed

text \<open>An element is removed wherever it is.\<close>

lemma remque_qring:
  assumes "qring s h (xs @ e # ys)"
  shows "\<exists>s'. remque e s = Some s' \<and> qring s' h (xs @ ys)"
proof -
  define p where "p = last (h # xs)"
  define n where "n = hd (ys @ [h])"
  have c: "qchain s h xs e" "qchain s e ys h" and d: "distinct (h # xs @ e # ys)"
    using assms by (simp_all add: qring_def qchain_append)
  have l: "qlinked s p e" "qlinked s e n" using qchain_last [OF c(1)] qchain_first [OF c(2)] by (simp_all add: p_def n_def)
  have ne: "e \<noteq> p" "e \<noteq> n" using d by (auto simp: p_def n_def hd_append split: if_splits)
  define s' where "s' = \<lparr>qh_link = (qh_link s)(p := Some n), qh_rlink = (qh_rlink s)(n := Some p, e := None)\<rparr>"
  have r: "remque e s = Some s'"
    using l ne by (simp add: remque_def put_link_def put_rlink_def s'_def qlinked_def)
  have pn: "qlinked s' p n" using ne by (simp add: qlinked_def s'_def)
  have before: "\<exists>us. h # xs = us @ [p]" by (metis append_butlast_last_id list.distinct(1) p_def)
  have "qchain s' h (xs @ ys) h"
  proof (cases "xs")
    case Nil
    then have "p = h" by (simp add: p_def)
    show ?thesis
    proof (cases ys)
      case Nil
      then show ?thesis using pn \<open>xs = []\<close> \<open>p = h\<close> by (simp add: n_def)
    next
      case (Cons y zs)
      then have "n = y" by (simp add: n_def)
      have "qchain s' y zs h"
        by (rule qchain_frame [of s]) (use c(2) d Cons Nil \<open>n = y\<close> \<open>p = h\<close> in \<open>auto simp: s'_def\<close>)
      then show ?thesis using pn \<open>p = h\<close> \<open>n = y\<close> by (simp add: Nil Cons)
    qed
  next
    case (Cons x us)
    then obtain vs where vs: "xs = vs @ [p]" by (metis append_butlast_last_id last.simps list.distinct(1) p_def)
    have "qchain s h vs p" using c(1) by (simp add: vs qchain_append)
    then have a: "qchain s' h vs p"
      by (rule qchain_frame) (use d l vs in \<open>auto simp: s'_def n_def hd_append split: if_splits\<close>)
    have b: "qchain s' p ys h"
    proof (cases ys)
      case Nil
      then show ?thesis using pn by (simp add: n_def)
    next
      case (Cons y zs)
      then have "n = y" by (simp add: n_def)
      have "qchain s' y zs h"
        by (rule qchain_frame [of s]) (use c(2) d Cons vs \<open>n = y\<close> in \<open>auto simp: s'_def\<close>)
      then show ?thesis using pn \<open>n = y\<close> by (simp add: Cons)
    qed
    show ?thesis using a b by (simp add: vs qchain_append)
  qed
  then show ?thesis using r d by (auto simp: qring_def)
qed

end
