(* ===== verification/Spec2Isabelle.thy ===== *)
theory Spec2Isabelle
  imports BitlistText CircBuffer Inotify IpRange HashTable SortedArray Multimer NetUtils Rtnl CircleQueue QueueMacros VamTime LlMap RtmMap Syslog Mt19937 DList RouteTable Lwnfs Rtpqual PacketCheck NlAddr StunServer Pmsft PacketFilter Layout BitUtils NetMisc Insque
begin

text \<open>
  A verification library for the programs and routines of this repository, a collection of C and C++ files for network
  and systems programming.  Most files are programs of their own; the groups that interact are these.

  \<^item> The inotify sample: the reader (\<open>src/inotify-sample/inotify_utils.c\<close>) fills the event queue
    (\<open>event_queue.c\<close>), the program \<open>inotify_test.c\<close> drives both.
  \<^item> The netlink programs (\<open>src/netlink\<close>): the socket routines and attributes of \<open>libnetlink.c\<close>, the link table
    \<open>ll_map.c\<close> that is filled through them, the name tables of \<open>rtm_map.c\<close> and the text routines of \<open>utils.c\<close>; beside
    them the three programs \<open>get_\<close>, \<open>mon_\<close> and \<open>set_routing_table.c\<close> and \<open>src/nl_addr_get.c\<close>, which talk to the kernel
    without the library.
  \<^item> The macros of \<open>src/bsd_hash/queue_plus.h\<close>, the chains of the hash table \<open>hash.c\<close>.
  \<^item> The packet programs: socket filters in the kernel (arrays of filter instructions in the sources) decide what the
    receivers print.

\<^bold>\<open>Conventions.\<close>  The code is read for an LP64 x86 machine.  Data, addresses, times, masks, lengths of keys and
  the counts in the state of a component are words of the width of their C type (\<^theory_text>\<open>u8\<close> to \<^theory_text>\<open>u64\<close>, \<^theory_text>\<open>i32\<close> and \<^theory_text>\<open>i64\<close>
  in \<^theory_text>\<open>Prelude\<close>), read with \<^theory_text>\<open>sint\<close> where the code compares signed values.  Their arithmetic wraps, signed arithmetic
  too, as compilers for that machine make it, and conversions to a narrower type are written out.  The values \<^theory_text>\<open>int\<close> and
  \<^theory_text>\<open>nat\<close> stand for what the code only passes on or keeps small: return codes, descriptors, names of cells and of clients,
  fields copied from a message, lengths of prefixes, and positions in an array or a message, which are bounded by its
  length; a property bounds that length where the code adds to a position (\<open>2 ^ 30\<close> elements in \<^theory_text>\<open>SortedArray\<close>).
  Arrays are lists read and written with a check: an access outside them, a use of a null pointer or of freed memory is \<^theory_text>\<open>None\<close>, so a theorem with \<^theory_text>\<open>Some\<close> also says
  that the code makes no undefined access, and the value \<^theory_text>\<open>\<noteq> None\<close> is memory safety.  Return codes and early returns are
  branches of the models.  System calls and the environment (what a read or a receive returns, whether an
  allocation succeeds, the clock, the name resolver) are arguments or scripts of answers; the properties hold for all
  of them or name the documented behaviour they need.  Where the code mutates shared cells (the lists, the hash table,
  the timers, the file system) the model has an explicit store.

\<^bold>\<open>Loops.\<close>  A loop that counts over an array or reads a script of answers is a total function, by structure or by a
  measure.  A loop along pointers, or one that leaves only when something is found, is a partial function into options,
  where not returning is \<^theory_text>\<open>None\<close>; its lemmas show that it returns on every well-formed state.  No model depends on
  fuel; the programs that run for ever are run on arbitrary finite scripts of what they receive.

\<^bold>\<open>Theories.\<close>

  \<^descr>[Shared] \<^theory_text>\<open>Prelude\<close>: types, checked arrays, words and option programs.  \<^theory_text>\<open>Interfaces\<close>: the contracts
    below.  \<^theory_text>\<open>Bytes\<close>: integers in byte buffers, in host and network order.  \<^theory_text>\<open>CText\<close>: C strings, the number formats
    that are printed and read, tokens.
  \<^descr>[Bit lists] \<^theory_text>\<open>Bitlist\<close>, \<^theory_text>\<open>BitlistOps\<close>, \<^theory_text>\<open>BitlistText\<close> (\<open>src/bitlist.c\<close>, \<open>bitlist.h\<close>): a record with
    the fields of \<open>bitlist_t\<close>, its invariant and the set of its members.  Setting and clearing single bits, runs of whole
    words and all bits, the set operations, counting and comparing are proved to act on the set; searches return the least
    member; a clone is a copy; what is printed is parsed back.  The copies from and into a position are modelled without a
    theorem.
  \<^descr>[Circular buffer] \<^theory_text>\<open>CircBuffer\<close> (\<open>src/circ_buffer.c\<close>): enqueueing appends, drops the datum, or overwrites the
    oldest one, which is cleaned up; dequeueing, peeking, looking up and resetting act on the list of the contents; creation,
    destruction and the dispatch through the table of operations.
  \<^descr>[Events] \<^theory_text>\<open>EventQueue\<close> and \<^theory_text>\<open>Inotify\<close> (\<open>src/inotify-sample\<close>): the queue refines a bounded fifo; of the
    events of each read, the first 128, the capacity of the queue, are enqueued and reported in order, and the loop ends when
    a read fails.
  \<^descr>[Address ranges] \<^theory_text>\<open>IpRange\<close> (\<open>src/ip_range.c\<close>): the split of a range into CIDR blocks tiles it in order
    with as few blocks as possible; the joined ranges of any blocks are their union, in order and never adjacent.
  \<^descr>[Hash table] \<^theory_text>\<open>HashTable\<close> (\<open>src/bsd_hash/hash.c\<close>): chains in a store; creation makes an empty table, and
    insertion, lookup and deletion refine a map from keys to stacks of entries.  The number of buckets is fixed at creation.
    The length of a key is an \<open>int\<close>, so keys are strings of less than \<open>2 ^ 31\<close> bytes when their length is not given.
  \<^descr>[Queues] \<^theory_text>\<open>QueueMacros\<close> (the macros \<open>SLIST\<close>, \<open>STAILQ\<close>, \<open>LIST\<close> and \<open>TAILQ\<close> of \<open>src/bsd_hash/queue_plus.h\<close>),
    \<^theory_text>\<open>CircleQueue\<close> (\<open>CIRCLEQ\<close>) and \<^theory_text>\<open>DList\<close> (\<open>src/DList-test/MyDList.hpp\<close>): commands on many queues over one
    memory refine commands on lists.  \<^theory_text>\<open>Insque\<close>: \<open>insque\<close> and \<open>remque\<close> insert into and remove from a ring.
  \<^descr>[Sorted arrays and timers] \<^theory_text>\<open>SortedArray\<close> (\<open>src/sorted_array.c\<close>): binary search and insertion, for
    single and for paired arrays, and the comparison of subsets.
    \<^theory_text>\<open>Multimer\<close> (\<open>src/multimer.c\<close>): the list of timer elements in the order of their absolute times of expiry, which a
    timer is given when it is set, and which timers fire while the clock stands; seconds and microseconds are \<open>long\<close> and
    wrap, and the properties say for which times they do not.
  \<^descr>[Netlink] \<^theory_text>\<open>NlAttr\<close> and \<^theory_text>\<open>Rtnl\<close> (\<open>src/netlink/libnetlink.c\<close>): attributes are written and parsed back, the
    receive loops call the callback with the messages of the dump and return the error that ends it, end of file
    on an empty datagram included.  \<^theory_text>\<open>LlMap\<close> (\<open>ll_map.c\<close>), \<^theory_text>\<open>RtmMap\<close> (\<open>rtm_map.c\<close>), \<^theory_text>\<open>NetUtils\<close> and \<^theory_text>\<open>NetMisc\<close> (\<open>utils.c\<close>, \<open>utils.h\<close>).  \<^theory_text>\<open>RouteTable\<close>:
    the programs on the routing table.  \<^theory_text>\<open>NlAddr\<close> (\<open>src/nl_addr_get.c\<close>): the listing of addresses.
  \<^descr>[Packets] \<^theory_text>\<open>PacketCheck\<close> (\<open>src/test_packet.c\<close>, \<open>sniff_stun.c\<close>): checksums and the check of a STUN request.
    \<^theory_text>\<open>PacketFilter\<close> (\<open>sniff_stun.c\<close>, \<open>raw_pf_stun.c\<close>, \<open>mylpf5.c\<close>, \<open>raw_pf_igmp.c\<close>, \<open>pf_udprecv.c\<close>,
    \<open>raw_pf_udprecv.c\<close>, \<open>udprecv.c\<close>): the filter arrays, which packets they accept on the filter machine of the
    kernel (not part of the repository; its instructions are written from their documentation), and the receivers behind
    them.  \<^theory_text>\<open>StunServer\<close> (\<open>ss_main_csumnotready.c\<close>): the counting of requests and the order
    of the main program.  \<^theory_text>\<open>Pmsft\<close> (\<open>mcast/pmsft.c\<close>): the commands on multicast source filters.  \<^theory_text>\<open>Rtpqual\<close>
    (\<open>rtpqual.c\<close>): the ring of senders and their counts.  The program compares addresses as strings, up to
    a zero byte; the properties are about transmitters whose addresses it tells apart.  \<^theory_text>\<open>Layout\<close> (\<open>sizeof_hdr.cpp\<close>,
    \<open>cds_tcp_hdr.cpp\<close>): the sizes and offsets of headers, which are computed by the layout rules of the machine, and the
    order of sequence numbers.
  \<^descr>[System] \<^theory_text>\<open>Syslog\<close> (\<open>src/syslog/syslog.c\<close>): the state of the client over any calls, the log line and the
    reopening of a broken connection.  \<^theory_text>\<open>VamTime\<close> (\<open>vam_time.h\<close>): conversions between clock representations.
    \<^theory_text>\<open>Lwnfs\<close> (\<open>module/lwnfs.c\<close>): the tree that the file system is filled with, for any failing allocations, and the counters read and written as files.
  \<^descr>[Numbers] \<^theory_text>\<open>Mt19937\<close> (\<open>mt19937ar.c\<close>): the blocks of the twister are its recurrence, and the numbers derived from its words
    are in their ranges; \<^theory_text>\<open>Doubles\<close>: rounding to the nearest double, which it and \<^theory_text>\<open>VamTime\<close> use.  \<^theory_text>\<open>BitUtils\<close>
    (\<open>bit-test.cpp\<close>, \<open>bitset.c\<close>, \<open>baseconv.c\<close>, \<open>bit-pos-loop.c\<close>).

\<^bold>\<open>Interfaces.\<close>  Each contract is a locale, with the facts its clients use proved inside it and an interpretation on the
  code's model.  \<^theory_text>\<open>bit_set\<close>: a set of positions with insertion and deletion (\<^theory_text>\<open>bl\<close> in \<^theory_text>\<open>Bitlist\<close>).
  \<^theory_text>\<open>bounded_fifo\<close>: a queue that refuses when full (\<^theory_text>\<open>cb\<close> in \<^theory_text>\<open>CircBuffer\<close>, \<^theory_text>\<open>eq\<close> in \<^theory_text>\<open>EventQueue\<close>).
  \<^theory_text>\<open>stack_map\<close>: a map from keys to stacks of values (\<^theory_text>\<open>ht\<close> in \<^theory_text>\<open>HashTable\<close>).  \<^theory_text>\<open>spliced_queues\<close> and its extension
  \<^theory_text>\<open>queue_macros\<close>: what changing the chain of one queue between two neighbours promises, and that
  sequences of commands then refine commands on lists (\<^theory_text>\<open>slist\<close>, \<^theory_text>\<open>stailq\<close>, \<^theory_text>\<open>lst\<close>, \<^theory_text>\<open>tailq\<close>, \<^theory_text>\<open>circleq\<close>, \<^theory_text>\<open>dlist\<close>).
  \<^theory_text>\<open>attr_block\<close>: a block of attributes in a buffer of bounded length (\<^theory_text>\<open>msg\<close> and \<^theory_text>\<open>nested\<close> in \<^theory_text>\<open>NlAttr\<close>).

\<^bold>\<open>Not modelled.\<close>  In modelled files: the resolver cache of \<open>utils.c\<close>, which is compiled out (the resolver is an
  argument); the operations of \<open>vam_time.h\<close> on floating-point seconds; the removals of the counted list in
  \<open>MyDList.hpp\<close>, which do not compile where they are used; the
  test program of \<open>mt19937ar.c\<close>, which prints the first numbers, and that of \<open>bit-test.cpp\<close>, which shifts an \<open>int\<close>
  by more than its width; the error messages of \<open>bitlist.c\<close> that go to the terminal; the lock and the cancellation handler of
  \<open>syslog.c\<close>; the registration and the generic tables of \<open>lwnfs.c\<close>; the messages of failing socket calls in the packet
  programs; methods that are declared without a body.  Files left out: the older copies under \<open>src/test\<close>; the state machine
  framework \<open>src/test/SM\<close>, which holds only declarations and needs classes that are missing; the third-party
  directory monitor; the programs on libevent, epoll, ptrace and capabilities, whose behaviour is that of the
  calls they make; the tests of the modelled components; programs of one page that try out a feature of the language or
  a library; scripts.
\<close>

end
